(* ===== verification/Prelude.thy ===== *)
theory Prelude
  imports Main "HOL-Library.Word"
begin

text \<open>
  Shared vocabulary of the development: the machine integers of the cc65 target (8-bit
  unsigned \<open>char\<close>, 16-bit \<open>int\<close>), C strings, little-endian 16-bit fields of a byte
  array, the outcome monad every stateful function of the kernel is written in, and its
  weakest-precondition calculus.
\<close>

unbundle bit_operations_syntax

section \<open>Machine integers\<close>

type_synonym byte = "8 word"
type_synonym u16 = "16 word"

lemma u16_lt [simp]: "unat (w :: 16 word) < 65536"
proof -
  have "unat w < 2 ^ LENGTH(16)" by (rule unsigned_less)
  then show ?thesis by simp
qed

lemma u8_lt [simp]: "unat (w :: 8 word) < 256"
proof -
  have "unat w < 2 ^ LENGTH(8)" by (rule unsigned_less)
  then show ?thesis by simp
qed

lemma uint_u16_lt [simp]: "uint (w :: 16 word) < 65536"
proof -
  have "uint w < 2 ^ LENGTH(16)" by (rule unsigned_less)
  then show ?thesis by simp
qed

lemma sint_u16_uint: "sint (w :: 16 word) = (if uint w < 32768 then uint w else uint w - 65536)"
proof -
  have s: "sint w = (uint w + 32768) mod 65536 - 32768"
    by (simp add: sint_uint signed_take_bit_eq_take_bit_shift take_bit_eq_mod)
  show ?thesis
  proof (cases "uint w < 32768")
    case True
    then have "(uint w + 32768) mod 65536 = uint w + 32768" by simp
    then show ?thesis using s True by simp
  next
    case False
    then have "(uint w - 32768) mod 65536 = uint w - 32768"
      using uint_u16_lt[of w] by (intro mod_pos_pos_trivial) linarith+
    moreover have "(uint w + 32768) mod 65536 = (uint w - 32768 + 65536) mod 65536"
      by (simp add: add.commute)
    ultimately have "(uint w + 32768) mod 65536 = uint w - 32768"
      by (simp only: mod_add_self2)
    then show ?thesis using s False by simp
  qed
qed

lemma sint_u16: "sint (w :: 16 word) = (if unat w < 32768 then int (unat w) else int (unat w) - 65536)"
  by (simp only: sint_u16_uint uint_nat of_nat_less_numeral_iff)

lemma unat_neg_u16: "unat (- w :: 16 word) = (if w = 0 then 0 else 65536 - unat w)"
proof (cases "w = 0")
  case False
  then have "- w = of_nat (65536 - unat w)"
    by (simp add: of_nat_diff less_imp_le)
  moreover have "0 < unat w" using False by (simp add: unat_gt_0)
  ultimately show ?thesis using False by (simp add: unat_of_nat take_bit_nat_eq_self)
qed simp

lemma unat_abs_u16: "unat (if sint n < 0 then - n else n :: 16 word) = nat \<bar>sint n\<bar>"
proof -
  define k where "k = unat n"
  have k: "k < 65536" unfolding k_def by simp
  have s: "sint n = (if k < 32768 then int k else int k - 65536)"
    unfolding k_def by (rule sint_u16)
  have m: "unat (- n) = 65536 - k" if "k \<noteq> 0"
    using that unfolding k_def unat_neg_u16 by auto
  show ?thesis
    using k m unfolding s k_def[symmetric] by (cases "k < 32768") (simp_all add: k_def[symmetric])
qed

lemma take_snoc: "0 < n \<Longrightarrow> n \<le> length xs \<Longrightarrow> take n xs = take (n - 1) xs @ [xs ! (n - 1)]"
  by (metis Suc_pred' Suc_le_eq take_Suc_conv_app_nth)

lemma unat_minus_1: "1 \<le> unat (w :: u16) \<Longrightarrow> unat (w - 1) = unat w - 1"
  by (subst unat_sub) (simp_all add: word_le_nat_alt)

lemma unat_plus_1: "unat (w :: u16) < 65535 \<Longrightarrow> unat (w + 1) = unat w + 1"
  by (simp add: unat_word_ariths)

lemma sint_small: "unat (w :: u16) < 32768 \<Longrightarrow> sint w = int (unat w)"
  by (simp add: sint_u16 del: uint_nat)

lemma unat_add_small: "unat (a :: u16) + unat b < 65536 \<Longrightarrow> unat (a + b) = unat a + unat b"
  by (subst unat_word_ariths) simp

lemma unat_sub_le: "unat (b :: u16) \<le> unat a \<Longrightarrow> unat (a - b) = unat a - unat b"
  by (rule unat_sub) (simp add: word_le_nat_alt)

lemma unat_of_small: "n < 65536 \<Longrightarrow> unat (of_nat n :: u16) = n"
  by (simp add: unat_of_nat take_bit_nat_eq_self)

text \<open>
  A run of bytes addressed by offset: a disk block, a buffer, a structure in memory.
\<close>

type_synonym bytes = "nat \<Rightarrow> byte"

text \<open>A 16-bit field at offset \<open>off\<close>; the 6502 is little-endian.\<close>

definition get16 :: "bytes \<Rightarrow> nat \<Rightarrow> u16" where
  "get16 f off = (ucast (f off) :: u16) OR push_bit 8 (ucast (f (Suc off)))"

definition lo8 :: "u16 \<Rightarrow> byte" where
  "lo8 w = ucast w"

definition hi8 :: "u16 \<Rightarrow> byte" where
  "hi8 w = ucast (drop_bit 8 w)"

definition put16 :: "nat \<Rightarrow> u16 \<Rightarrow> bytes \<Rightarrow> bytes" where
  "put16 off w f = f(off := lo8 w, Suc off := hi8 w)"

lemma join_lo_hi [simp]: "(ucast (lo8 w) :: u16) OR push_bit 8 (ucast (hi8 w)) = w"
  unfolding lo8_def hi8_def
  by (rule bit_word_eqI) (auto simp: bit_simps)

lemma get16_put16_same [simp]: "get16 (put16 off w f) off = w"
  by (simp add: get16_def put16_def)

lemma get16_put16_other [simp]:
  "off \<noteq> off' \<Longrightarrow> off \<noteq> Suc off' \<Longrightarrow> Suc off \<noteq> off' \<Longrightarrow>
   get16 (put16 off' w f) off = get16 f off"
  by (simp add: get16_def put16_def)

lemma get16_cong: "f off = g off \<Longrightarrow> f (Suc off) = g (Suc off) \<Longrightarrow> get16 f off = get16 g off"
  by (simp add: get16_def)

text \<open>
  Reading and writing an array of 16-bit words that starts at offset 0, as the code does
  through a \<open>blkno_t *\<close> that points at a block.
\<close>

definition word_at :: "bytes \<Rightarrow> nat \<Rightarrow> u16" where
  "word_at f k = get16 f (2 * k)"

lemma word_at_put16 [simp]: "word_at (put16 (2 * i) v f) j = (if j = i then v else word_at f j)"
proof (cases "j = i")
  case False
  then have "2 * j \<noteq> 2 * i" "2 * j \<noteq> Suc (2 * i)" "Suc (2 * j) \<noteq> 2 * i" by presburger+
  then show ?thesis using False by (simp add: word_at_def)
qed (simp add: word_at_def)

definition words_byte :: "u16 list \<Rightarrow> nat \<Rightarrow> byte" where
  "words_byte ws n = (if even n then lo8 (ws ! (n div 2)) else hi8 (ws ! (n div 2)))"

lemma get16_words_byte:
  assumes "\<And>n. n < 2 * length ws \<Longrightarrow> f (b + n) = words_byte ws n" and "k < length ws"
  shows "get16 f (b + 2 * k) = ws ! k"
  using assms(1)[of "2 * k"] assms(1)[of "Suc (2 * k)"] assms(2)
  by (simp add: get16_def words_byte_def)

text \<open>A number below \<open>2 ^ k\<close> has no bit from \<open>k\<close> on.\<close>

lemma bit_small:
  assumes "unat w < 2 ^ k" and "bit (w :: 'a :: len word) n"
  shows "n < k"
proof (rule ccontr)
  assume "\<not> n < k"
  then have "(2 :: nat) ^ k \<le> 2 ^ n" by (intro power_increasing) simp_all
  then have "unat w < 2 ^ n" using assms(1) by linarith
  then have "unat w div 2 ^ n = 0" by simp
  moreover have "odd (unat w div 2 ^ n)"
    using assms(2) by (simp add: bit_unsigned_iff flip: bit_iff_odd)
  ultimately show False by simp
qed

section \<open>C strings\<close>

text \<open>
  A \<open>char *\<close> is the list of the bytes from the pointer on; past the end of the list the
  memory reads as NUL. The bytes after the terminator are part of the list, because some
  code copies a fixed number of bytes and so reads them.
\<close>

type_synonym cstr = "byte list"

definition deref :: "cstr \<Rightarrow> byte" where
  "deref p = (case p of [] \<Rightarrow> 0 | c # _ \<Rightarrow> c)"

definition char_at :: "cstr \<Rightarrow> nat \<Rightarrow> byte" where
  "char_at p n = (if n < length p then p ! n else 0)"

lemma deref_simps [simp]: "deref [] = 0" "deref (c # p) = c"
  by (simp_all add: deref_def)

section \<open>Outcomes and the kernel monad\<close>

text \<open>
  What a kernel function can do: return a value and a new state, halt the machine
  (\<open>panic\<close> spins for ever; an access outside an array or through a null pointer; a loop
  that does not end; a malformed descriptor handed to the PPU), or give the processor away: the process has been put to sleep or has
  exited, and the state is the one the scheduler goes on from.
\<close>

datatype halt = Panic string | BadAccess | Diverges | BadDescriptor

datatype ('s, 'a) outcome = Ret 'a 's | Halt halt | Switch 's

type_synonym ('s, 'a) kop = "'s \<Rightarrow> ('s, 'a) outcome"

definition retK :: "'a \<Rightarrow> ('s, 'a) kop" where
  "retK a = (\<lambda>s. Ret a s)"

definition bindK :: "('s, 'a) kop \<Rightarrow> ('a \<Rightarrow> ('s, 'b) kop) \<Rightarrow> ('s, 'b) kop" where
  "bindK m f = (\<lambda>s. case m s of Ret a s' \<Rightarrow> f a s' | Halt h \<Rightarrow> Halt h | Switch s' \<Rightarrow> Switch s')"

definition thenK :: "('s, 'a) kop \<Rightarrow> ('s, 'b) kop \<Rightarrow> ('s, 'b) kop" where
  "thenK m n = bindK m (\<lambda>_. n)"

definition getK :: "('s \<Rightarrow> 'a) \<Rightarrow> ('s, 'a) kop" where
  "getK f = (\<lambda>s. Ret (f s) s)"

definition modK :: "('s \<Rightarrow> 's) \<Rightarrow> ('s, unit) kop" where
  "modK f = (\<lambda>s. Ret () (f s))"

definition haltK :: "halt \<Rightarrow> ('s, 'a) kop" where
  "haltK h = (\<lambda>s. Halt h)"

definition switchK :: "('s, 'a) kop" where
  "switchK = (\<lambda>s. Switch s)"

definition panic :: "string \<Rightarrow> ('s, 'a) kop" where
  "panic msg = haltK (Panic msg)"

definition whenK :: "bool \<Rightarrow> ('s, unit) kop \<Rightarrow> ('s, unit) kop" where
  "whenK b m = (if b then m else retK ())"

text \<open>A block of statements.\<close>

primrec doK :: "('s, unit) kop list \<Rightarrow> ('s, unit) kop" where
  "doK [] = retK ()"
| "doK (m # ms) = thenK m (doK ms)"

text \<open>A \<open>for\<close> loop over a list of index values.\<close>

primrec forK :: "'i list \<Rightarrow> ('i \<Rightarrow> ('s, unit) kop) \<Rightarrow> ('s, unit) kop" where
  "forK [] f = retK ()"
| "forK (i # is) f = thenK (f i) (forK is f)"

section \<open>Weakest preconditions\<close>

text \<open>
  \<open>wp m Q s\<close>: from \<open>s\<close> the operation returns, and value and state satisfy \<open>Q\<close>. It is
  total: a panic, a bad access, a divergence and a switch all make it false.
\<close>

definition wp :: "('s, 'a) kop \<Rightarrow> ('a \<Rightarrow> 's \<Rightarrow> bool) \<Rightarrow> 's \<Rightarrow> bool" where
  "wp m Q s = (case m s of Ret a s' \<Rightarrow> Q a s' | Halt h \<Rightarrow> False | Switch s' \<Rightarrow> False)"

lemma wp_iff: "wp m Q s \<longleftrightarrow> (\<exists>a s'. m s = Ret a s' \<and> Q a s')"
  by (auto simp: wp_def split: outcome.splits)

lemma wpE: "wp m Q s \<Longrightarrow> (\<And>a s'. m s = Ret a s' \<Longrightarrow> Q a s' \<Longrightarrow> R) \<Longrightarrow> R"
  by (auto simp: wp_iff)

lemma wp_mono: "wp m Q s \<Longrightarrow> (\<And>a s'. Q a s' \<Longrightarrow> Q' a s') \<Longrightarrow> wp m Q' s"
  by (auto simp: wp_iff)

text \<open>
  The rules are equations between predicates, so that they also rewrite under a binder.
\<close>

lemma wp_retK [simp]: "wp (retK a) Q = Q a"
  by (simp add: wp_def retK_def fun_eq_iff)

lemma wp_bindK [simp]: "wp (bindK m f) Q = wp m (\<lambda>a. wp (f a) Q)"
  by (simp add: wp_def bindK_def fun_eq_iff split: outcome.splits)

lemma wp_thenK [simp]: "wp (thenK m n) Q = wp m (\<lambda>a. wp n Q)"
  by (simp add: thenK_def)

lemma wp_getK [simp]: "wp (getK f) Q = (\<lambda>s. Q (f s) s)"
  by (simp add: wp_def getK_def fun_eq_iff)

lemma wp_modK [simp]: "wp (modK f) Q = (\<lambda>s. Q () (f s))"
  by (simp add: wp_def modK_def fun_eq_iff)

lemma wp_haltK [simp]: "wp (haltK h) Q = (\<lambda>s. False)"
  by (simp add: wp_def haltK_def fun_eq_iff)

lemma wp_panic [simp]: "wp (panic msg) Q = (\<lambda>s. False)"
  by (simp add: panic_def)

lemma wp_switchK [simp]: "wp switchK Q = (\<lambda>s. False)"
  by (simp add: wp_def switchK_def fun_eq_iff)

lemma wp_if [simp]: "wp (if b then m else n) Q = (\<lambda>s. if b then wp m Q s else wp n Q s)"
  by simp

lemma wp_whenK [simp]: "wp (whenK b m) Q = (\<lambda>s. if b then wp m Q s else Q () s)"
  by (simp add: whenK_def)

lemma wp_doK [simp]:
  "wp (doK []) Q = Q ()"
  "wp (doK (m # ms)) Q = wp m (\<lambda>_. wp (doK ms) Q)"
  by simp_all

text \<open>Running an operation step by step, for concrete states and for rewriting.\<close>

lemma run_simps:
  "retK a s = Ret a s"
  "getK f s = Ret (f s) s"
  "modK u s = Ret () (u s)"
  "haltK h s = Halt h"
  "panic msg s = Halt (Panic msg)"
  "switchK s = Switch s"
  "bindK m g s = (case m s of Ret a s' \<Rightarrow> g a s' | Halt h \<Rightarrow> Halt h | Switch s' \<Rightarrow> Switch s')"
  "thenK m n s = (case m s of Ret a s' \<Rightarrow> n s' | Halt h \<Rightarrow> Halt h | Switch s' \<Rightarrow> Switch s')"
  "whenK b w s = (if b then w s else Ret () s)"
  by (simp_all add: retK_def getK_def modK_def haltK_def panic_def switchK_def bindK_def
      thenK_def whenK_def)

lemma bindK_getK: "bindK (getK f) g = (\<lambda>s. g (f s) s)"
  by (rule ext) (simp add: run_simps)

lemma forK_modK: "forK is (\<lambda>i. modK (f i)) s = Ret () (fold f is s)"
  by (induction "is" arbitrary: s) (simp_all add: run_simps)

lemma forK_append: "forK (is @ js) f = thenK (forK is f) (forK js f)"
  by (induction "is") (auto simp: run_simps fun_eq_iff split: outcome.splits)

text \<open>Two loops whose bodies agree on the states an invariant describes.\<close>

lemma forK_cong_inv:
  assumes "I s"
    and "\<forall>i\<in>set is. \<forall>t. I t \<longrightarrow> f i t = g i t \<and> (\<forall>u. g i t = Ret () u \<longrightarrow> I u)"
  shows "forK is f s = forK is g s"
  using assms
proof (induction "is" arbitrary: s)
  case Nil
  then show ?case by simp
next
  case (Cons i "is")
  then have e: "f i s = g i s" by (meson list.set_intros(1))
  show ?case
  proof (cases "g i s")
    case (Ret u t)
    then have "I t" using Cons.prems by (metis list.set_intros(1) old.unit.exhaust)
    moreover have "\<forall>i\<in>set is. \<forall>t. I t \<longrightarrow> f i t = g i t \<and> (\<forall>u. g i t = Ret () u \<longrightarrow> I u)"
      using Cons.prems(2) by (meson list.set_intros(2))
    ultimately have "forK is f t = forK is g t" by (rule Cons.IH)
    then show ?thesis using e Ret by (simp add: run_simps)
  qed (simp_all add: e run_simps)
qed

text \<open>
  A loop keeps an invariant indexed by the iterations still to do.
\<close>

lemma wp_forK:
  assumes "I is s"
    and "\<And>i is s. I (i # is) s \<Longrightarrow> wp (f i) (\<lambda>_ s'. I is s') s"
  shows "wp (forK is f) (\<lambda>_ s'. I [] s') s"
  using assms(1)
proof (induction "is" arbitrary: s)
  case Nil
  then show ?case by simp
next
  case (Cons i "is")
  have "wp (f i) (\<lambda>_ s'. I is s') s"
    using Cons.prems by (rule assms(2))
  then show ?case
    by (simp add: wp_mono[OF _ Cons.IH])
qed

end
