(* ===== verification/Kernel_State.thy ===== *)
theory Kernel_State
  imports Prelude
begin

text \<open>
  The kernel's data: the constants and structures of \<open>include/unix.h\<close> and
  \<open>include/config.h\<close>, the global variables of \<open>include/extern.h\<close> and
  \<open>kernel/kdata.c\<close> as one record \<open>kst\<close>, the on-disk layout of inodes, directory entries
  and superblocks, and the small access operations the other theories are written with.

  A pointer into a kernel table is the index of the entry (\<open>inoptr\<close>, \<open>ptptr\<close>, \<open>bufptr\<close>
  are \<open>nat\<close>, or \<open>nat option\<close> where the code can hold NULL). Where the code turns such a
  pointer into a number (an event of \<open>psleep\<close>, the mount point inside a superblock) its
  address is computed from the link map \<open>lnk\<close>, which is a parameter of the state.
\<close>

section \<open>Constants of unix.h and config.h\<close>

abbreviation (input) UFTSIZE :: nat where "UFTSIZE \<equiv> 10"
abbreviation (input) OFTSIZE :: nat where "OFTSIZE \<equiv> 15"
abbreviation (input) ITABSIZE :: nat where "ITABSIZE \<equiv> 20"
abbreviation (input) PTABSIZE :: nat where "PTABSIZE \<equiv> 20"
abbreviation (input) NSIGS :: nat where "NSIGS \<equiv> 16"
abbreviation (input) NDEVS :: nat where "NDEVS \<equiv> 5"
abbreviation (input) NBUFS :: nat where "NBUFS \<equiv> 4"

abbreviation (input) ROOTINODE :: u16 where "ROOTINODE \<equiv> 1"
abbreviation (input) CMAGIC :: u16 where "CMAGIC \<equiv> 24721"
abbreviation (input) SMOUNTED :: u16 where "SMOUNTED \<equiv> 12742"
abbreviation (input) EMAGIC :: byte where "EMAGIC \<equiv> 0x4c"
abbreviation (input) NULLBLK :: u16 where "NULLBLK \<equiv> 0xFFFF"

abbreviation (input) TTYDEV :: int where "TTYDEV \<equiv> 2"
abbreviation (input) SWAPDEV :: int where "SWAPDEV \<equiv> 1"
abbreviation (input) TICKSPERSEC :: int where "TICKSPERSEC \<equiv> 10"
abbreviation (input) MAXTICKS :: int where "MAXTICKS \<equiv> 10"
abbreviation (input) PROGBASE :: u16 where "PROGBASE \<equiv> 0x6000"

abbreviation (input) OTH_EX :: u16 where "OTH_EX \<equiv> 1"
abbreviation (input) OTH_WR :: u16 where "OTH_WR \<equiv> 2"
abbreviation (input) OTH_RD :: u16 where "OTH_RD \<equiv> 4"
abbreviation (input) MODE_MASK :: u16 where "MODE_MASK \<equiv> 0xFFF"
abbreviation (input) F_REG :: u16 where "F_REG \<equiv> 0x8000"
abbreviation (input) F_DIR :: u16 where "F_DIR \<equiv> 0x4000"
abbreviation (input) F_PIPE :: u16 where "F_PIPE \<equiv> 0x1000"
abbreviation (input) F_BDEV :: u16 where "F_BDEV \<equiv> 0x6000"
abbreviation (input) F_CDEV :: u16 where "F_CDEV \<equiv> 0x2000"
abbreviation (input) F_MASK :: u16 where "F_MASK \<equiv> 0xF000"

abbreviation (input) A_TIME :: u16 where "A_TIME \<equiv> 1"
abbreviation (input) M_TIME :: u16 where "M_TIME \<equiv> 2"
abbreviation (input) C_TIME :: u16 where "C_TIME \<equiv> 4"

abbreviation (input) P_EMPTY :: nat where "P_EMPTY \<equiv> 0"
abbreviation (input) P_RUNNING :: nat where "P_RUNNING \<equiv> 1"
abbreviation (input) P_READY :: nat where "P_READY \<equiv> 2"
abbreviation (input) P_SLEEP :: nat where "P_SLEEP \<equiv> 3"
abbreviation (input) P_XSLEEP :: nat where "P_XSLEEP \<equiv> 4"
abbreviation (input) P_PAUSE :: nat where "P_PAUSE \<equiv> 5"
abbreviation (input) P_FORKING :: nat where "P_FORKING \<equiv> 6"
abbreviation (input) P_WAIT :: nat where "P_WAIT \<equiv> 7"
abbreviation (input) P_ZOMBIE :: nat where "P_ZOMBIE \<equiv> 8"

abbreviation (input) SIGKILL :: nat where "SIGKILL \<equiv> 9"
abbreviation (input) SIGPIPE :: nat where "SIGPIPE \<equiv> 13"
abbreviation (input) SIGALRM :: nat where "SIGALRM \<equiv> 14"
abbreviation (input) SIG_DFL :: u16 where "SIG_DFL \<equiv> 0"
abbreviation (input) SIG_IGN :: u16 where "SIG_IGN \<equiv> 1"

abbreviation (input) O_RDONLY :: int where "O_RDONLY \<equiv> 0"
abbreviation (input) O_WRONLY :: int where "O_WRONLY \<equiv> 1"
abbreviation (input) O_RDWR :: int where "O_RDWR \<equiv> 2"

text \<open>Error numbers, from \<open>include/generated/scripts/errno.py\<close>.\<close>

abbreviation (input) EPERM :: int where "EPERM \<equiv> 1"
abbreviation (input) ENOENT :: int where "ENOENT \<equiv> 2"
abbreviation (input) EINTR :: int where "EINTR \<equiv> 4"
abbreviation (input) EIO :: int where "EIO \<equiv> 5"
abbreviation (input) ENXIO :: int where "ENXIO \<equiv> 6"
abbreviation (input) E2BIG :: int where "E2BIG \<equiv> 7"
abbreviation (input) ENOEXEC :: int where "ENOEXEC \<equiv> 8"
abbreviation (input) EBADF :: int where "EBADF \<equiv> 9"
abbreviation (input) ECHILD :: int where "ECHILD \<equiv> 10"
abbreviation (input) EAGAIN :: int where "EAGAIN \<equiv> 11"
abbreviation (input) ENOMEM :: int where "ENOMEM \<equiv> 12"
abbreviation (input) EACCES :: int where "EACCES \<equiv> 13"
abbreviation (input) EFAULT :: int where "EFAULT \<equiv> 14"
abbreviation (input) ENOTBLK :: int where "ENOTBLK \<equiv> 15"
abbreviation (input) EBUSY :: int where "EBUSY \<equiv> 16"
abbreviation (input) EEXIST :: int where "EEXIST \<equiv> 17"
abbreviation (input) EXDEV :: int where "EXDEV \<equiv> 18"
abbreviation (input) ENODEV :: int where "ENODEV \<equiv> 19"
abbreviation (input) ENOTDIR :: int where "ENOTDIR \<equiv> 20"
abbreviation (input) EISDIR :: int where "EISDIR \<equiv> 21"
abbreviation (input) EINVAL :: int where "EINVAL \<equiv> 22"
abbreviation (input) ENFILE :: int where "ENFILE \<equiv> 23"
abbreviation (input) ENOTTY :: int where "ENOTTY \<equiv> 25"
abbreviation (input) ENOSPC :: int where "ENOSPC \<equiv> 28"
abbreviation (input) ESPIPE :: int where "ESPIPE \<equiv> 29"
abbreviation (input) EPIPE :: int where "EPIPE \<equiv> 32"

section \<open>Structures\<close>

record uzi_time =
  t_time :: u16
  t_date :: u16

text \<open>\<open>o_offset\<close> is an \<open>int16\<close>: code that compares it reads it with \<open>sint\<close>.\<close>

record uzi_off =
  o_blkno :: u16
  o_offset :: u16

record s_queue =
  q_base :: "byte list"  \<comment> \<open>the characters stored from the base pointer on\<close>
  q_head :: int          \<comment> \<open>distance of the head pointer from the base\<close>
  q_tail :: int          \<comment> \<open>distance of the tail pointer from the base\<close>
  q_size :: int
  q_count :: int
  q_wakeup :: int

record blkbuf =
  bf_data :: bytes
  bf_dev :: byte
  bf_blk :: u16
  bf_dirty :: byte
  bf_busy :: byte
  bf_time :: u16

record dinode =
  i_mode :: u16
  i_nlink :: u16
  i_uid :: u16
  i_gid :: u16
  i_size :: uzi_off
  i_atime :: uzi_time
  i_mtime :: uzi_time
  i_ctime :: uzi_time
  i_addr :: "u16 list"

record cinode =
  c_magic :: u16
  c_dev :: int
  c_num :: u16
  c_node :: dinode
  c_refs :: byte
  c_dirty :: byte

record direct =
  d_ino :: u16
  d_name :: "byte list"

text \<open>\<open>s_nfree\<close> and \<open>s_ninode\<close> are \<open>int16\<close>; \<open>s_mntpt\<close> is the raw pointer.\<close>

record filesys =
  s_mounted :: u16
  s_isize :: u16
  s_fsize :: u16
  s_nfree :: u16
  s_free :: "u16 list"
  s_ninode :: u16
  s_inode :: "u16 list"
  s_fmod :: u16
  s_time :: uzi_time
  s_tfree :: u16
  s_tinode :: u16
  s_mntpt :: u16

record oft =
  o_ptr :: uzi_off
  o_inode :: "nat option"
  o_access :: int
  o_refs :: byte

record p_tab =
  p_status :: nat
  p_pid :: int
  p_uid :: u16
  p_pptr :: "nat option"
  p_swap :: u16
  p_alarm :: u16
  p_exitval :: u16
  p_wait :: u16
  p_priority :: u16
  p_pending :: u16
  p_ignored :: u16

record u_data =
  u_ptab :: nat
  u_insys :: bool
  u_callno :: nat
  u_retval :: int
  u_error :: int
  u_sp :: u16
  u_argn :: u16
  u_argn1 :: u16
  u_argn2 :: u16
  u_argn3 :: u16
  u_base :: u16
  u_count :: u16
  u_offset :: uzi_off
  u_buf :: "nat option"
  u_gid :: u16
  u_euid :: u16
  u_egid :: u16
  u_mask :: u16
  u_time :: uzi_time
  u_files :: "byte list"
  u_cwd :: "nat option"
  u_break :: u16
  u_ino :: "nat option"
  u_isp :: u16
  u_sigvec :: "u16 list"
  u_cursig :: nat
  u_name :: "byte list"
  u_utime :: uzi_time
  u_stime :: uzi_time
  u_cutime :: uzi_time
  u_cstime :: uzi_time

text \<open>
  The link map: addresses the linker chooses, the data that happens to follow \<open>fs_tab\<close> in
  memory (two functions copy a whole block from inside \<open>fs_tab\<close>), and the value left in the
  return registers by a driver routine that has no \<open>return\<close> statement.
\<close>

record link_map =
  at_i_tab :: u16
  at_ptab :: u16
  at_udata :: u16
  at_ttyinq :: u16
  at_stopflag :: u16
  at_curentry :: u16
  after_fs_tab :: bytes
  empty_str :: "byte list"   \<comment> \<open>the bytes from the literal \<open>""\<close> on\<close>
  at_stack :: u16            \<comment> \<open>where \<open>_brk\<close> finds its local variable\<close>
  no_return :: int

section \<open>The kernel state\<close>

record kst =
  udata :: u_data
  ptab :: "p_tab list"
  i_tab :: "cinode list"
  of_tab :: "oft list"
  fs_tab :: "filesys list"
  bufpool :: "blkbuf list"
  bufclock :: u16
  nexti :: nat
  root :: "nat option"
  ROOTDEV :: int
  initproc :: "nat option"
  nextpid :: int
  sched_pp :: nat
  sec :: int
  runticks :: int
  tod :: uzi_time
  ticks :: uzi_time
  clk_int_count :: u16
  tick_count :: u16
  swapbase :: u16
  swapcnt :: u16
  swapblk :: u16
  ttyinq :: s_queue
  stopflag :: bool
  flshflag :: bool
  mem :: "u16 \<Rightarrow> byte"               \<comment> \<open>the address space, for copies to and from user memory\<close>
  chr_ram :: "nat \<Rightarrow> nat \<Rightarrow> byte"   \<comment> \<open>the disk: bank number, offset in the 4K bank\<close>
  console :: "byte list"            \<comment> \<open>characters given to \<open>_putc\<close>, latest first\<close>
  klog :: "string list"             \<comment> \<open>warnings printed by the kernel, latest first\<close>
  lnk :: link_map

type_synonym 'a k = "(kst, 'a) kop"

text \<open>Table sizes: true of the static arrays in every state the kernel can be in.\<close>

definition sized :: "kst \<Rightarrow> bool" where
  "sized s \<longleftrightarrow> length (ptab s) = PTABSIZE \<and> length (i_tab s) = ITABSIZE \<and>
     length (of_tab s) = OFTSIZE \<and> length (fs_tab s) = NDEVS \<and> length (bufpool s) = NBUFS \<and>
     length (u_files (udata s)) = UFTSIZE \<and> length (u_sigvec (udata s)) = NSIGS"

section \<open>Access operations\<close>

definition upd_ud :: "(u_data \<Rightarrow> u_data) \<Rightarrow> unit k" where
  "upd_ud f = modK (\<lambda>s. s\<lparr>udata := f (udata s)\<rparr>)"

definition set_error :: "int \<Rightarrow> unit k" where
  "set_error e = upd_ud (\<lambda>u. u\<lparr>u_error := e\<rparr>)"

definition upd_ino :: "nat \<Rightarrow> (cinode \<Rightarrow> cinode) \<Rightarrow> unit k" where
  "upd_ino ino f = modK (\<lambda>s. s\<lparr>i_tab := (i_tab s)[ino := f (i_tab s ! ino)]\<rparr>)"

definition upd_node :: "nat \<Rightarrow> (dinode \<Rightarrow> dinode) \<Rightarrow> unit k" where
  "upd_node ino f = upd_ino ino (\<lambda>c. c\<lparr>c_node := f (c_node c)\<rparr>)"

definition get_ino :: "nat \<Rightarrow> cinode k" where
  "get_ino ino = getK (\<lambda>s. i_tab s ! ino)"

definition upd_fs :: "nat \<Rightarrow> (filesys \<Rightarrow> filesys) \<Rightarrow> unit k" where
  "upd_fs dev f = modK (\<lambda>s. s\<lparr>fs_tab := (fs_tab s)[dev := f (fs_tab s ! dev)]\<rparr>)"

definition upd_buf :: "nat \<Rightarrow> (blkbuf \<Rightarrow> blkbuf) \<Rightarrow> unit k" where
  "upd_buf i f = modK (\<lambda>s. s\<lparr>bufpool := (bufpool s)[i := f (bufpool s ! i)]\<rparr>)"

definition upd_proc :: "nat \<Rightarrow> (p_tab \<Rightarrow> p_tab) \<Rightarrow> unit k" where
  "upd_proc p f = modK (\<lambda>s. s\<lparr>ptab := (ptab s)[p := f (ptab s ! p)]\<rparr>)"

text \<open>\<open>of_tab[i]\<close>, where \<open>i\<close> comes from a file descriptor and can be out of range.\<close>

definition get_oft :: "nat \<Rightarrow> oft k" where
  "get_oft i = (\<lambda>s. if i < OFTSIZE then Ret (of_tab s ! i) s else Halt BadAccess)"

definition upd_oft :: "nat \<Rightarrow> (oft \<Rightarrow> oft) \<Rightarrow> unit k" where
  "upd_oft i f = (\<lambda>s. if i < OFTSIZE
     then Ret () (s\<lparr>of_tab := (of_tab s)[i := f (of_tab s ! i)]\<rparr>) else Halt BadAccess)"

text \<open>Following a pointer that may be NULL.\<close>

definition derefK :: "nat option \<Rightarrow> nat k" where
  "derefK p = (case p of None \<Rightarrow> haltK BadAccess | Some i \<Rightarrow> retK i)"

definition warning :: "string \<Rightarrow> unit k" where
  "warning msg = modK (\<lambda>s. s\<lparr>klog := msg # klog s\<rparr>)"

lemma wp_access [simp]:
  "wp (upd_ud f) Q = (\<lambda>s. Q () (s\<lparr>udata := f (udata s)\<rparr>))"
  "wp (set_error e) Q = (\<lambda>s. Q () (s\<lparr>udata := (udata s)\<lparr>u_error := e\<rparr>\<rparr>))"
  "wp (upd_ino ino g) Q = (\<lambda>s. Q () (s\<lparr>i_tab := (i_tab s)[ino := g (i_tab s ! ino)]\<rparr>))"
  "wp (upd_node ino h) Q = (\<lambda>s.
     Q () (s\<lparr>i_tab := (i_tab s)[ino := (i_tab s ! ino)\<lparr>c_node := h (c_node (i_tab s ! ino))\<rparr>]\<rparr>))"
  "wp (get_ino ino) Q' = (\<lambda>s. Q' (i_tab s ! ino) s)"
  "wp (upd_fs dev v) Q = (\<lambda>s. Q () (s\<lparr>fs_tab := (fs_tab s)[dev := v (fs_tab s ! dev)]\<rparr>))"
  "wp (upd_buf i w) Q = (\<lambda>s. Q () (s\<lparr>bufpool := (bufpool s)[i := w (bufpool s ! i)]\<rparr>))"
  "wp (upd_proc p y) Q = (\<lambda>s. Q () (s\<lparr>ptab := (ptab s)[p := y (ptab s ! p)]\<rparr>))"
  "wp (get_oft j) Q'' = (\<lambda>s. j < OFTSIZE \<and> Q'' (of_tab s ! j) s)"
  "wp (upd_oft j z) Q = (\<lambda>s. j < OFTSIZE \<and> Q () (s\<lparr>of_tab := (of_tab s)[j := z (of_tab s ! j)]\<rparr>))"
  "wp (warning msg) Q = (\<lambda>s. Q () (s\<lparr>klog := msg # klog s\<rparr>))"
  by (simp_all add: upd_ud_def set_error_def upd_ino_def upd_node_def get_ino_def upd_fs_def
      upd_buf_def upd_proc_def get_oft_def upd_oft_def warning_def, simp_all add: wp_def fun_eq_iff)

lemma wp_derefK [simp]: "wp (derefK p) Q = (\<lambda>s. \<exists>i. p = Some i \<and> Q i s)"
  by (auto simp: derefK_def fun_eq_iff split: option.splits)

lemmas access_defs = upd_ud_def set_error_def upd_ino_def upd_node_def get_ino_def upd_fs_def
  upd_buf_def upd_proc_def get_oft_def upd_oft_def warning_def derefK_def

section \<open>Addresses\<close>

text \<open>
  Sizes of the structures on the target: a \<open>cinode\<close> is 2 + 2 + 2 + 64 + 1 + 1 bytes, a
  \<open>p_tab\<close> 1 + 2 + 2 + 28 + 8 * 2 bytes (ZPSAVE_BYTES is 28), a \<open>filesys\<close> 111 words.
\<close>

definition ino_ptr :: "kst \<Rightarrow> nat \<Rightarrow> u16" where
  "ino_ptr s i = at_i_tab (lnk s) + of_nat (72 * i)"

definition ptab_ptr :: "kst \<Rightarrow> nat \<Rightarrow> u16" where
  "ptab_ptr s i = at_ptab (lnk s) + of_nat (49 * i)"

text \<open>The inode table entry a raw pointer points at, if it points at one.\<close>

definition ino_of_ptr :: "kst \<Rightarrow> u16 \<Rightarrow> nat option" where
  "ino_of_ptr s p = find (\<lambda>i. ino_ptr s i = p) [0..<ITABSIZE]"

section \<open>On-disk layout\<close>

text \<open>A disk inode is 32 consecutive 16-bit words, 64 bytes, eight to a block.\<close>

definition dinode_words :: "dinode \<Rightarrow> u16 list" where
  "dinode_words d = [i_mode d, i_nlink d, i_uid d, i_gid d,
     o_blkno (i_size d), o_offset (i_size d),
     t_time (i_atime d), t_date (i_atime d), t_time (i_mtime d), t_date (i_mtime d),
     t_time (i_ctime d), t_date (i_ctime d)] @ i_addr d"

definition get_dinode :: "bytes \<Rightarrow> nat \<Rightarrow> dinode" where
  "get_dinode f b = \<lparr>i_mode = get16 f b, i_nlink = get16 f (b + 2), i_uid = get16 f (b + 4),
     i_gid = get16 f (b + 6),
     i_size = \<lparr>o_blkno = get16 f (b + 8), o_offset = get16 f (b + 10)\<rparr>,
     i_atime = \<lparr>t_time = get16 f (b + 12), t_date = get16 f (b + 14)\<rparr>,
     i_mtime = \<lparr>t_time = get16 f (b + 16), t_date = get16 f (b + 18)\<rparr>,
     i_ctime = \<lparr>t_time = get16 f (b + 20), t_date = get16 f (b + 22)\<rparr>,
     i_addr = map (\<lambda>k. get16 f (b + 24 + 2 * k)) [0..<20]\<rparr>"

definition put_dinode :: "nat \<Rightarrow> dinode \<Rightarrow> bytes \<Rightarrow> bytes" where
  "put_dinode b d f = (\<lambda>n. if b \<le> n \<and> n < b + 64 then words_byte (dinode_words d) (n - b) else f n)"

text \<open>A directory entry is an inode number and 14 characters, 32 to a block.\<close>

definition get_direct :: "bytes \<Rightarrow> nat \<Rightarrow> direct" where
  "get_direct f b = \<lparr>d_ino = get16 f b, d_name = map (\<lambda>k. f (b + 2 + k)) [0..<14]\<rparr>"

definition direct_byte :: "direct \<Rightarrow> nat \<Rightarrow> byte" where
  "direct_byte e n = (if n = 0 then lo8 (d_ino e) else if n = 1 then hi8 (d_ino e)
     else d_name e ! (n - 2))"

text \<open>A superblock.\<close>

definition filesys_words :: "filesys \<Rightarrow> u16 list" where
  "filesys_words fs = [s_mounted fs, s_isize fs, s_fsize fs, s_nfree fs] @ s_free fs @
     [s_ninode fs] @ s_inode fs @
     [s_fmod fs, t_time (s_time fs), t_date (s_time fs), s_tfree fs, s_tinode fs, s_mntpt fs]"

definition get_filesys :: "bytes \<Rightarrow> filesys" where
  "get_filesys f = \<lparr>s_mounted = get16 f 0, s_isize = get16 f 2, s_fsize = get16 f 4,
     s_nfree = get16 f 6, s_free = map (\<lambda>k. get16 f (8 + 2 * k)) [0..<50],
     s_ninode = get16 f 108, s_inode = map (\<lambda>k. get16 f (110 + 2 * k)) [0..<50],
     s_fmod = get16 f 210, s_time = \<lparr>t_time = get16 f 212, t_date = get16 f 214\<rparr>,
     s_tfree = get16 f 216, s_tinode = get16 f 218, s_mntpt = get16 f 220\<rparr>"

text \<open>
  The memory from \<open>&fs_tab[j]\<close> on: that entry, the later ones, and whatever the linker put
  behind the table. \<open>_sync\<close> and \<open>blk_free\<close> copy 512 bytes of it, more than one entry.
\<close>

definition fs_mem :: "kst \<Rightarrow> nat \<Rightarrow> bytes" where
  "fs_mem s j n =
     (if n < 222 * (NDEVS - j) then words_byte (filesys_words (fs_tab s ! (j + n div 222))) (n mod 222)
      else after_fs_tab (lnk s) (n - 222 * (NDEVS - j)))"

subsection \<open>Encoding and decoding\<close>

lemma length_dinode_words: "length (dinode_words d) = 12 + length (i_addr d)"
  by (simp add: dinode_words_def)

lemma length_filesys_words:
  "length (filesys_words fs) = 11 + length (s_free fs) + length (s_inode fs)"
  by (simp add: filesys_words_def)

lemma map_nth_upt: "length xs = n \<Longrightarrow> map (\<lambda>k. xs ! k) [0..<n] = xs"
  by (metis map_nth)

lemma get_put_dinode [simp]:
  assumes "length (i_addr d) = 20"
  shows "get_dinode (put_dinode b d f) b = d"
proof -
  have len: "length (dinode_words d) = 32"
    using assms by (simp add: length_dinode_words)
  have w: "get16 (put_dinode b d f) (b + 2 * k) = dinode_words d ! k" if "k < 32" for k
    using that len by (intro get16_words_byte) (simp_all add: put_dinode_def)
  have w0: "get16 (put_dinode b d f) (b + n) = dinode_words d ! (n div 2)" if "even n" "n < 64" for n
    using w[of "n div 2"] that by simp
  have a: "map (\<lambda>k. get16 (put_dinode b d f) (b + 24 + 2 * k)) [0..<20] = i_addr d"
  proof -
    have "map (\<lambda>k. get16 (put_dinode b d f) (b + 24 + 2 * k)) [0..<20]
        = map (\<lambda>k. i_addr d ! k) [0..<20]"
    proof (rule map_cong[OF refl])
      fix k assume "k \<in> set [0..<20]"
      then show "get16 (put_dinode b d f) (b + 24 + 2 * k) = i_addr d ! k"
        using w[of "12 + k"] by (simp add: dinode_words_def algebra_simps)
    qed
    then show ?thesis using assms by (simp add: map_nth_upt)
  qed
  show ?thesis
    unfolding get_dinode_def a
    using w0[of 0] w0[of 2] w0[of 4] w0[of 6] w0[of 8] w0[of 10] w0[of 12] w0[of 14] w0[of 16]
      w0[of 18] w0[of 20] w0[of 22]
    by (simp add: dinode_words_def)
qed

lemma get_put_dinode_other:
  assumes "b' + 64 \<le> b \<or> b + 64 \<le> b'"
  shows "get_dinode (put_dinode b' d f) b = get_dinode f b"
proof -
  have g: "get16 (put_dinode b' d f) n = get16 f n" if "b \<le> n" "n < b + 63" for n
    using assms that by (intro get16_cong) (auto simp: put_dinode_def)
  show ?thesis
    by (simp add: get_dinode_def g)
qed

lemma get_filesys_words:
  assumes "\<And>n. n < 222 \<Longrightarrow> f n = words_byte (filesys_words fs) n"
    and "length (s_free fs) = 50" and "length (s_inode fs) = 50"
  shows "get_filesys f = fs"
proof -
  have len: "length (filesys_words fs) = 111"
    using assms by (simp add: length_filesys_words)
  have w: "get16 f (2 * k) = filesys_words fs ! k" if "k < 111" for k
    using get16_words_byte[of "filesys_words fs" f 0 k] that len assms(1) by simp
  have w0: "get16 f n = filesys_words fs ! (n div 2)" if "even n" "n < 222" for n
    using w[of "n div 2"] that by simp
  have fr: "map (\<lambda>k. get16 f (8 + 2 * k)) [0..<50] = s_free fs"
  proof -
    have "map (\<lambda>k. get16 f (8 + 2 * k)) [0..<50] = map (\<lambda>k. s_free fs ! k) [0..<50]"
    proof (rule map_cong[OF refl])
      fix k assume k: "k \<in> set [0..<50]"
      then show "get16 f (8 + 2 * k) = s_free fs ! k"
        using w[of "4 + k"] assms(2) by (simp add: filesys_words_def nth_append)
    qed
    then show ?thesis using assms(2) by (simp add: map_nth_upt)
  qed
  have io: "map (\<lambda>k. get16 f (110 + 2 * k)) [0..<50] = s_inode fs"
  proof -
    have "map (\<lambda>k. get16 f (110 + 2 * k)) [0..<50] = map (\<lambda>k. s_inode fs ! k) [0..<50]"
    proof (rule map_cong[OF refl])
      fix k assume k: "k \<in> set [0..<50]"
      then show "get16 f (110 + 2 * k) = s_inode fs ! k"
        using w[of "55 + k"] assms(2,3) by (simp add: filesys_words_def nth_append)
    qed
    then show ?thesis using assms(3) by (simp add: map_nth_upt)
  qed
  show ?thesis
    unfolding get_filesys_def fr io
    using w0[of 0] w0[of 2] w0[of 4] w0[of 6] w0[of 108] w0[of 210] w0[of 212] w0[of 214]
      w0[of 216] w0[of 218] w0[of 220] assms(2,3)
    by (simp add: filesys_words_def nth_append)
qed

lemma get_put_direct:
  assumes "\<And>n. n < 16 \<Longrightarrow> f (b + n) = direct_byte e n" and "length (d_name e) = 14"
  shows "get_direct f b = e"
proof -
  have "get16 f b = d_ino e"
    using assms(1)[of 0] assms(1)[of 1] by (simp add: get16_def direct_byte_def)
  moreover have "map (\<lambda>k. f (b + 2 + k)) [0..<14] = d_name e"
  proof -
    have "map (\<lambda>k. f (b + 2 + k)) [0..<14] = map (\<lambda>k. d_name e ! k) [0..<14]"
    proof (rule map_cong[OF refl])
      fix k :: nat assume "k \<in> set [0..<14]"
      then show "f (b + 2 + k) = d_name e ! k"
        using assms(1)[of "2 + k"] by (simp add: direct_byte_def)
    qed
    then show ?thesis using assms(2) by (simp add: map_nth_upt)
  qed
  ultimately show ?thesis by (simp add: get_direct_def)
qed

text \<open>Decoding looks at the bytes of the structure only.\<close>

lemma get_dinode_cong:
  assumes "\<And>k. k < 64 \<Longrightarrow> d (b + k) = e (b + k)"
  shows "get_dinode d b = get_dinode e b"
proof -
  have g: "get16 d (b + k) = get16 e (b + k)" if "k < 63" for k
    using assms[of k] assms[of "Suc k"] that by (intro get16_cong) simp_all
  have m: "map (\<lambda>k. get16 d (b + 24 + 2 * k)) [0..<20] = map (\<lambda>k. get16 e (b + 24 + 2 * k)) [0..<20]"
  proof (rule map_cong[OF refl])
    fix k assume "k \<in> set [0..<20]"
    then show "get16 d (b + 24 + 2 * k) = get16 e (b + 24 + 2 * k)" using g[of "24 + 2 * k"] by (simp add: add.assoc)
  qed
  show ?thesis
    unfolding get_dinode_def m using g[of 0] g[of 2] by (simp add: g)
qed

lemma get_direct_cong: "(\<And>k. k < 16 \<Longrightarrow> d (b + k) = e (b + k)) \<Longrightarrow> get_direct d b = get_direct e b"
proof -
  assume c: "\<And>k. k < 16 \<Longrightarrow> d (b + k) = e (b + k)"
  have "get16 d b = get16 e b" using c[of 0] c[of 1] by (intro get16_cong) simp_all
  moreover have "map (\<lambda>k. d (b + 2 + k)) [0..<14] = map (\<lambda>k. e (b + 2 + k)) [0..<14]"
  proof (rule map_cong[OF refl])
    fix k :: nat assume "k \<in> set [0..<14]"
    then show "d (b + 2 + k) = e (b + 2 + k)" using c[of "2 + k"] by (simp add: add.assoc)
  qed
  ultimately show ?thesis by (simp add: get_direct_def)
qed

lemma get_filesys_cong: "(\<And>n. n < 222 \<Longrightarrow> f n = g n) \<Longrightarrow> get_filesys f = get_filesys g"
  by (simp add: get_filesys_def get16_def)

section \<open>The state at power-on\<close>

text \<open>
  All global variables zero, as \<open>kdata.c\<close> declares them; NULL pointers. The examples of the
  other theories are modifications of it. The link map is one the linker could have chosen.
\<close>

definition zero_time :: uzi_time where
  "zero_time = \<lparr>t_time = 0, t_date = 0\<rparr>"

definition zero_off :: uzi_off where
  "zero_off = \<lparr>o_blkno = 0, o_offset = 0\<rparr>"

definition zero_buf :: blkbuf where
  "zero_buf = \<lparr>bf_data = (\<lambda>_. 0), bf_dev = 0, bf_blk = 0, bf_dirty = 0, bf_busy = 0, bf_time = 0\<rparr>"

definition zero_dinode :: dinode where
  "zero_dinode = \<lparr>i_mode = 0, i_nlink = 0, i_uid = 0, i_gid = 0, i_size = zero_off,
     i_atime = zero_time, i_mtime = zero_time, i_ctime = zero_time, i_addr = replicate 20 0\<rparr>"

definition zero_cinode :: cinode where
  "zero_cinode = \<lparr>c_magic = 0, c_dev = 0, c_num = 0, c_node = zero_dinode, c_refs = 0, c_dirty = 0\<rparr>"

definition zero_fs :: filesys where
  "zero_fs = \<lparr>s_mounted = 0, s_isize = 0, s_fsize = 0, s_nfree = 0, s_free = replicate 50 0,
     s_ninode = 0, s_inode = replicate 50 0, s_fmod = 0, s_time = zero_time, s_tfree = 0,
     s_tinode = 0, s_mntpt = 0\<rparr>"

definition zero_oft :: oft where
  "zero_oft = \<lparr>o_ptr = zero_off, o_inode = None, o_access = 0, o_refs = 0\<rparr>"

definition zero_proc :: p_tab where
  "zero_proc = \<lparr>p_status = 0, p_pid = 0, p_uid = 0, p_pptr = None, p_swap = 0, p_alarm = 0,
     p_exitval = 0, p_wait = 0, p_priority = 0, p_pending = 0, p_ignored = 0\<rparr>"

definition zero_udata :: u_data where
  "zero_udata = \<lparr>u_ptab = 0, u_insys = False, u_callno = 0, u_retval = 0, u_error = 0, u_sp = 0,
     u_argn = 0, u_argn1 = 0, u_argn2 = 0, u_argn3 = 0, u_base = 0, u_count = 0,
     u_offset = zero_off, u_buf = None, u_gid = 0, u_euid = 0, u_egid = 0, u_mask = 0,
     u_time = zero_time, u_files = replicate 10 0, u_cwd = None, u_break = 0, u_ino = None,
     u_isp = 0, u_sigvec = replicate 16 0, u_cursig = 0, u_name = replicate 8 0,
     u_utime = zero_time, u_stime = zero_time, u_cutime = zero_time, u_cstime = zero_time\<rparr>"

definition bss :: kst where
  "bss = \<lparr>udata = zero_udata, ptab = replicate 20 zero_proc, i_tab = replicate 20 zero_cinode,
     of_tab = replicate 15 zero_oft, fs_tab = replicate 5 zero_fs, bufpool = replicate 4 zero_buf,
     bufclock = 0, nexti = 0, root = None, ROOTDEV = 0, initproc = None, nextpid = 0, sched_pp = 0,
     sec = 0, runticks = 0, tod = zero_time, ticks = zero_time, clk_int_count = 0, tick_count = 0,
     swapbase = 0, swapcnt = 0, swapblk = 0, ttyinq = \<lparr>q_base = replicate 132 0, q_head = 0, q_tail = 0, q_size = 132, q_count = 0,
       q_wakeup = 66\<rparr>,
     stopflag = False, flshflag = False, mem = (\<lambda>_. 0), chr_ram = (\<lambda>_ _. 0), console = [],
     klog = [],
     lnk = \<lparr>at_i_tab = 0x0400, at_ptab = 0x0A00, at_udata = 0x0E00, at_ttyinq = 0x0F00,
       at_stopflag = 0x0F10, at_curentry = 0x0F20, after_fs_tab = (\<lambda>_. 0),
       empty_str = replicate 14 0, at_stack = 0xB000, no_return = 0\<rparr>\<rparr>"

lemma sized_bss: "sized bss"
  by (simp add: sized_def bss_def zero_udata_def)

end
