(* ===== verification/Proc_Events.thy ===== *)
theory Proc_Events
  imports Kernel_State
begin

text \<open>
  The process table as the rest of the kernel uses it (\<open>kernel/process.c\<close>): sleeping on an
  event, waking, posting signals, choosing the next process to run, and allocating a slot.

  \<open>psleep\<close> ends with the call of \<open>swapout\<close>, which by way of \<open>chksigs\<close> and \<open>doexit\<close> depends on
  the whole file system and is defined above it, in Process; here it is the argument \<open>swap\<close>.
  Process passes \<open>swapout\<close> itself. The drivers and pipes below it pass what happens until the
  sleeper runs again, an element of their argument \<open>env\<close>, or \<open>switchK\<close>, with which the run is
  followed up to the call of \<open>swapout\<close>.
\<close>

section \<open>Sleeping, waking, signals\<close>

definition sigmask :: "nat \<Rightarrow> u16" where
  "sigmask sig = push_bit sig 1"

text \<open>The part of \<open>psleep\<close> before \<open>swapout\<close>; an event is an address.\<close>

definition psleep_mark :: "u16 \<Rightarrow> unit k" where
  "psleep_mark event =
     bindK (getK (\<lambda>s. u_ptab (udata s))) (\<lambda>me.
     bindK (getK (\<lambda>s. (p_status (ptab s ! me), ptab_ptr s me))) (\<lambda>(st, self).
     doK [
       if st \<noteq> P_RUNNING then panic ''psleep: voodoo'' else retK (),
       upd_proc me (\<lambda>p. p\<lparr>p_status := (if event = 0 then P_PAUSE
                                       else if event = self then P_WAIT else P_SLEEP)\<rparr>),
       upd_proc me (\<lambda>p. p\<lparr>p_wait := event\<rparr>)]))"

definition psleep :: "unit k \<Rightarrow> u16 \<Rightarrow> unit k" where
  "psleep swap event = thenK (psleep_mark event) swap"

definition wakeup_entry :: "u16 \<Rightarrow> p_tab \<Rightarrow> p_tab" where
  "wakeup_entry event p =
     (if p_status p > P_RUNNING \<and> p_wait p = event then p\<lparr>p_status := P_READY, p_wait := 0\<rparr> else p)"

definition wakeup :: "u16 \<Rightarrow> unit k" where
  "wakeup event = forK [0..<PTABSIZE] (\<lambda>i. upd_proc i (wakeup_entry event))"

definition ssig_entry :: "nat \<Rightarrow> p_tab \<Rightarrow> p_tab" where
  "ssig_entry sig p =
     (if p_status p = P_EMPTY then p
      else if p_ignored p AND sigmask sig \<noteq> 0 then p
      else
        let stat = p_status p;
            p1 = (if stat = P_PAUSE \<or> stat = P_WAIT \<or> stat = P_SLEEP then p\<lparr>p_status := P_READY\<rparr> else p)
        in p1\<lparr>p_wait := 0, p_pending := p_pending p OR sigmask sig\<rparr>)"

definition ssig :: "nat \<Rightarrow> nat \<Rightarrow> unit k" where
  "ssig proc sig = upd_proc proc (ssig_entry sig)"

definition sendsig :: "nat option \<Rightarrow> nat \<Rightarrow> unit k" where
  "sendsig proc sig = (case proc of
       Some p \<Rightarrow> ssig p sig
     | None \<Rightarrow> forK [0..<PTABSIZE] (\<lambda>i.
         bindK (getK (\<lambda>s. p_status (ptab s ! i))) (\<lambda>st. whenK (st \<noteq> P_EMPTY) (ssig i sig))))"

section \<open>The scheduler's choice\<close>

text \<open>
  \<open>getproc\<close> goes round the table from the entry after the one chosen last. With no READY and
  no RUNNING entry it loops until an interrupt changes the table; one round without an
  interrupt is enough to know (\<open>getproc_idle\<close>), and the outcome is then \<open>Diverges\<close>.
\<close>

primrec getproc_loop :: "nat \<Rightarrow> nat k" where
  "getproc_loop 0 = haltK Diverges"
| "getproc_loop (Suc n) =
     thenK (modK (\<lambda>s. s\<lparr>sched_pp := (if Suc (sched_pp s) \<ge> PTABSIZE then 0 else Suc (sched_pp s))\<rparr>))
     (bindK (getK (\<lambda>s. (sched_pp s, p_status (ptab s ! sched_pp s)))) (\<lambda>(pp, status).
        if status = P_RUNNING then panic ''getproc: extra running''
        else if status = P_READY then retK pp
        else getproc_loop n))"

definition getproc :: "nat k" where
  "getproc = getproc_loop PTABSIZE"

section \<open>Allocating a process table slot\<close>

text \<open>
  The loop of the label \<open>nogood\<close>: count \<open>nextpid\<close> on until it is unused. 21 rounds are enough:
  at most 20 entries can be in the way (\<open>new_pid_found\<close>).
\<close>

definition next_pid :: "int \<Rightarrow> int" where
  "next_pid n = (if n > 32000 then 1 else n + 1)"

primrec new_pid :: "nat \<Rightarrow> p_tab list \<Rightarrow> int \<Rightarrow> int option" where
  "new_pid 0 tab n = None"
| "new_pid (Suc fuel) tab n =
     (let n' = next_pid n
      in if \<exists>p\<in>set tab. p_status p \<noteq> P_EMPTY \<and> p_pid p = n' then new_pid fuel tab n' else Some n')"

definition ptab_alloc :: "nat option k" where
  "ptab_alloc =
     bindK (getK (\<lambda>s. find (\<lambda>i. p_status (ptab s ! i) = P_EMPTY) [0..<PTABSIZE])) (\<lambda>r.
       case r of
         None \<Rightarrow> retK None
       | Some p \<Rightarrow>
           bindK (getK (\<lambda>s. new_pid 21 (ptab s) (nextpid s))) (\<lambda>np.
           case np of
             None \<Rightarrow> haltK Diverges
           | Some pid \<Rightarrow> thenK (doK [
               modK (\<lambda>s. s\<lparr>nextpid := pid\<rparr>),
               upd_proc p (\<lambda>_. zero_proc),
               upd_proc p (\<lambda>e. e\<lparr>p_pid := pid\<rparr>),
               upd_proc p (\<lambda>e. e\<lparr>p_status := P_FORKING\<rparr>)])
               (retK (Some p))))"

section \<open>Lemmas\<close>

text \<open>A loop that updates every entry of the process table by the same function.\<close>

lemma fold_upd_all:
  "n \<le> length xs \<Longrightarrow> fold (\<lambda>i xs. xs[i := f (xs ! i)]) [0..<n] xs = map f (take n xs) @ drop n xs"
proof (induction n)
  case 0
  then show ?case by simp
next
  case (Suc n)
  then have "fold (\<lambda>i xs. xs[i := f (xs ! i)]) [0..<Suc n] xs
      = (map f (take n xs) @ drop n xs)[n := f ((map f (take n xs) @ drop n xs) ! n)]"
    by simp
  also have "\<dots> = map f (take n xs) @ (f (xs ! n) # drop (Suc n) xs)"
    using Suc.prems by (simp add: nth_append list_update_append Cons_nth_drop_Suc[symmetric])
  also have "\<dots> = map f (take (Suc n) xs) @ drop (Suc n) xs"
    using Suc.prems by (simp add: take_Suc_conv_app_nth)
  finally show ?case .
qed

lemma fold_upd_ptab:
  "fold (\<lambda>i s. s\<lparr>ptab := (ptab s)[i := f (ptab s ! i)]\<rparr>) is s
     = s\<lparr>ptab := fold (\<lambda>i xs. xs[i := f (xs ! i)]) is (ptab s)\<rparr>"
  by (induction "is" arbitrary: s) simp_all

lemma for_all_procs:
  assumes "length (ptab s) = PTABSIZE"
  shows "forK [0..<PTABSIZE] (\<lambda>i. upd_proc i f) s = Ret () (s\<lparr>ptab := map f (ptab s)\<rparr>)"
  unfolding upd_proc_def forK_modK fold_upd_ptab using assms by (simp add: fold_upd_all)

lemma wakeup_eq:
  "length (ptab s) = PTABSIZE \<Longrightarrow> wakeup event s = Ret () (s\<lparr>ptab := map (wakeup_entry event) (ptab s)\<rparr>)"
  unfolding wakeup_def by (rule for_all_procs)

lemma sendsig_all_eq:
  assumes "length (ptab s) = PTABSIZE"
  shows "sendsig None sig s = Ret () (s\<lparr>ptab := map (ssig_entry sig) (ptab s)\<rparr>)"
proof -
  have "bindK (getK (\<lambda>s. p_status (ptab s ! i))) (\<lambda>st. whenK (st \<noteq> P_EMPTY) (ssig i sig))
      = upd_proc i (ssig_entry sig)" for i
  proof
    fix s :: kst
    have "s\<lparr>ptab := (ptab s)[i := ptab s ! i]\<rparr> = s" by simp
    then show "bindK (getK (\<lambda>s. p_status (ptab s ! i))) (\<lambda>st. whenK (st \<noteq> P_EMPTY) (ssig i sig)) s
      = upd_proc i (ssig_entry sig) s"
      by (simp add: run_simps ssig_def upd_proc_def ssig_entry_def)
  qed
  then show ?thesis unfolding sendsig_def using for_all_procs[OF assms] by simp
qed

text \<open>The scheduler.\<close>

lemma getproc_loop_step:
  assumes "sched_pp s < PTABSIZE"
  shows "getproc_loop (Suc k) s =
    (let pp = (sched_pp s + 1) mod PTABSIZE; s' = s\<lparr>sched_pp := pp\<rparr>
     in if p_status (ptab s ! pp) = P_RUNNING then Halt (Panic ''getproc: extra running'')
        else if p_status (ptab s ! pp) = P_READY then Ret pp s' else getproc_loop k s')"
  using assms by (cases "sched_pp s = 19") (simp_all add: run_simps Let_def)

lemma getproc_loop_found:
  assumes "n < k" and "sched_pp s < PTABSIZE"
    and "\<And>i. i < n \<Longrightarrow> p_status (ptab s ! ((sched_pp s + 1 + i) mod PTABSIZE)) \<noteq> P_READY \<and>
            p_status (ptab s ! ((sched_pp s + 1 + i) mod PTABSIZE)) \<noteq> P_RUNNING"
    and "p_status (ptab s ! ((sched_pp s + 1 + n) mod PTABSIZE)) = P_READY"
  shows "getproc_loop k s = Ret ((sched_pp s + 1 + n) mod PTABSIZE)
           (s\<lparr>sched_pp := (sched_pp s + 1 + n) mod PTABSIZE\<rparr>)"
  using assms
proof (induction n arbitrary: k s)
  case 0
  then obtain k' where k: "k = Suc k'" by (cases k) auto
  show ?case using 0(1,2,4) unfolding k getproc_loop_step[OF 0(2)] by (simp add: Let_def)
next
  case (Suc n)
  then obtain k' where k: "k = Suc k'" by (cases k) auto
  let ?s = "s\<lparr>sched_pp := (sched_pp s + 1) mod PTABSIZE\<rparr>"
  have sh: "(sched_pp ?s + 1 + i) mod PTABSIZE = (sched_pp s + 1 + Suc i) mod PTABSIZE" for i
    using mod_add_left_eq[of "sched_pp s + 1" PTABSIZE "1 + i"] by simp
  have "getproc_loop k' ?s = Ret ((sched_pp ?s + 1 + n) mod PTABSIZE)
           (?s\<lparr>sched_pp := (sched_pp ?s + 1 + n) mod PTABSIZE\<rparr>)"
  proof (rule Suc.IH)
    show "n < k'" using Suc.prems k by simp
    show "sched_pp ?s < PTABSIZE" by simp
    show "p_status (ptab ?s ! ((sched_pp ?s + 1 + i) mod PTABSIZE)) \<noteq> P_READY \<and>
        p_status (ptab ?s ! ((sched_pp ?s + 1 + i) mod PTABSIZE)) \<noteq> P_RUNNING" if "i < n" for i
      using Suc.prems(3)[of "Suc i"] that unfolding sh by simp
    show "p_status (ptab ?s ! ((sched_pp ?s + 1 + n) mod PTABSIZE)) = P_READY"
      using Suc.prems(4) unfolding sh by simp
  qed
  then have "getproc_loop k' ?s = Ret ((sched_pp s + 1 + Suc n) mod PTABSIZE)
           (s\<lparr>sched_pp := (sched_pp s + 1 + Suc n) mod PTABSIZE\<rparr>)"
    unfolding sh by simp
  then show ?case
    using Suc.prems(3)[of 0] unfolding k getproc_loop_step[OF Suc.prems(2)] by (simp add: Let_def)
qed

lemma getproc_loop_idle:
  "\<forall>p\<in>set (ptab s). p_status p \<noteq> P_READY \<and> p_status p \<noteq> P_RUNNING \<Longrightarrow>
   length (ptab s) = PTABSIZE \<Longrightarrow> sched_pp s < PTABSIZE \<Longrightarrow> getproc_loop k s = Halt Diverges"
proof (induction k arbitrary: s)
  case 0
  then show ?case by (simp add: run_simps)
next
  case (Suc k)
  let ?s = "s\<lparr>sched_pp := (if Suc (sched_pp s) \<ge> PTABSIZE then 0 else Suc (sched_pp s))\<rparr>"
  have "getproc_loop k ?s = Halt Diverges"
    using Suc.prems by (intro Suc.IH) auto
  moreover have "ptab s ! sched_pp ?s \<in> set (ptab s)"
    using Suc.prems by (intro nth_mem) auto
  ultimately show ?case using Suc.prems by (simp add: run_simps)
qed

text \<open>The process number loop: 21 candidates are distinct, at most 20 are in use.\<close>

lemma next_pid_iter:
  "0 \<le> n \<Longrightarrow> n \<le> 32001 \<Longrightarrow> (next_pid ^^ Suc k) n = (n + int k) mod 32001 + 1"
proof (induction k)
  case 0
  then show ?case by (cases "n = 32001") (auto simp: next_pid_def)
next
  case (Suc k)
  let ?x = "(n + int k) mod 32001"
  have "(next_pid ^^ Suc (Suc k)) n = next_pid (?x + 1)" using Suc by simp
  also have "\<dots> = (?x + 1) mod 32001 + 1"
  proof (cases "?x = 32000")
    case True
    then show ?thesis by (simp add: next_pid_def)
  next
    case False
    moreover have "0 \<le> ?x" "?x < 32001" by simp_all
    ultimately have "?x + 1 < 32001" by linarith
    with \<open>0 \<le> ?x\<close> show ?thesis by (simp add: next_pid_def)
  qed
  also have "(?x + 1) mod 32001 = (n + int (Suc k)) mod 32001"
    by (simp add: mod_simps algebra_simps)
  finally show ?case .
qed

lemma next_pid_distinct:
  assumes "0 \<le> n" "n \<le> 32001" "i < 21" "j < 21" "(next_pid ^^ Suc i) n = (next_pid ^^ Suc j) n"
  shows "i = j"
proof -
  have "(n + int i) mod 32001 = (n + int j) mod 32001"
    using assms(5) unfolding next_pid_iter[OF assms(1,2)] by simp
  then have "(32001 :: int) dvd (n + int i) - (n + int j)" by (simp add: mod_eq_dvd_iff)
  then have "(32001 :: int) dvd int i - int j" by simp
  moreover have "\<bar>int i - int j\<bar> < 32001" using assms(3,4) by simp
  ultimately have "int i - int j = 0" by (metis dvd_imp_le_int abs_numeral not_le)
  then show ?thesis by simp
qed

lemma new_pid_None:
  "new_pid fuel tab n = None \<Longrightarrow> k < fuel \<Longrightarrow>
   \<exists>p\<in>set tab. p_status p \<noteq> P_EMPTY \<and> p_pid p = (next_pid ^^ Suc k) n"
proof (induction fuel arbitrary: n k)
  case 0
  then show ?case by simp
next
  case (Suc fuel)
  show ?case
  proof (cases k)
    case 0
    then show ?thesis using Suc.prems(1) by (auto simp: Let_def split: if_splits)
  next
    case (Suc k')
    then have "\<exists>p\<in>set tab. p_status p \<noteq> P_EMPTY \<and> p_pid p = (next_pid ^^ Suc k') (next_pid n)"
      using Suc.IH[of "next_pid n" k'] Suc.prems by (auto simp: Let_def split: if_splits)
    then show ?thesis using Suc by (simp only: funpow_Suc_right o_apply)
  qed
qed

lemma new_pid_Some:
  "new_pid fuel tab n = Some m \<Longrightarrow> 0 \<le> n \<Longrightarrow> n \<le> 32001 \<Longrightarrow>
   1 \<le> m \<and> m \<le> 32001 \<and> (\<forall>p\<in>set tab. p_status p \<noteq> P_EMPTY \<longrightarrow> p_pid p \<noteq> m)"
proof (induction fuel arbitrary: n)
  case 0
  then show ?case by simp
next
  case (Suc fuel)
  have b: "1 \<le> next_pid n" "next_pid n \<le> 32001"
    using Suc.prems by (auto simp: next_pid_def)
  show ?case
  proof (cases "\<exists>p\<in>set tab. p_status p \<noteq> P_EMPTY \<and> p_pid p = next_pid n")
    case True
    then have "new_pid fuel tab (next_pid n) = Some m" using Suc.prems(1) by (simp add: Let_def)
    then show ?thesis using Suc.IH[of "next_pid n"] b by simp
  next
    case False
    then have "new_pid (Suc fuel) tab n = Some (next_pid n)"
      by (simp only: new_pid.simps Let_def if_False)
    then have "m = next_pid n" using Suc.prems(1) by simp
    then show ?thesis using False b by blast
  qed
qed

lemma new_pid_found:
  assumes "length tab \<le> 20" and "0 \<le> n" and "n \<le> 32001"
  shows "\<exists>m. new_pid 21 tab n = Some m"
proof (rule ccontr)
  assume "\<nexists>m. new_pid 21 tab n = Some m"
  then have none: "new_pid 21 tab n = None" by (cases "new_pid 21 tab n") auto
  let ?f = "\<lambda>k. (next_pid ^^ Suc k) n"
  have "?f ` {..<21} \<subseteq> p_pid ` set tab"
    using new_pid_None[OF none] by force
  then have "card (?f ` {..<21}) \<le> card (p_pid ` set tab)"
    by (intro card_mono) simp_all
  also have "\<dots> \<le> card (set tab)" by (rule card_image_le) simp
  also have "\<dots> \<le> 20" using card_length[of tab] assms(1) by linarith
  finally have "card (?f ` {..<21}) \<le> 20" .
  moreover have "inj_on ?f {..<21}"
    using next_pid_distinct[OF assms(2,3)] by (auto simp: inj_on_def simp del: funpow.simps)
  then have "card (?f ` {..<21}) = 21" by (simp add: card_image)
  ultimately show False by simp
qed

section \<open>Properties\<close>

text \<open>
  C32: allocation of a process table slot. With no empty slot nothing changes. Otherwise the
  search for a process number ends, the slot given was empty, its entry is cleared except for
  the new process number and the state FORKING, the number is between 1 and 32001 and no live
  process has it, and no other entry changes.
\<close>

theorem ptab_alloc_unique_pid:
  assumes "length (ptab s) = PTABSIZE" and "0 \<le> nextpid s" and "nextpid s \<le> 32001"
  shows "if \<forall>p\<in>set (ptab s). p_status p \<noteq> P_EMPTY then ptab_alloc s = Ret None s
    else \<exists>p pid. p < PTABSIZE \<and> p_status (ptab s ! p) = P_EMPTY \<and>
      ptab_alloc s = Ret (Some p) (s\<lparr>nextpid := pid,
        ptab := (ptab s)[p := zero_proc\<lparr>p_pid := pid, p_status := P_FORKING\<rparr>]\<rparr>) \<and>
      1 \<le> pid \<and> pid \<le> 32001 \<and> (\<forall>q\<in>set (ptab s). p_status q \<noteq> P_EMPTY \<longrightarrow> p_pid q \<noteq> pid)"
proof (cases "find (\<lambda>i. p_status (ptab s ! i) = P_EMPTY) [0..<PTABSIZE]")
  case None
  then have "\<forall>p\<in>set (ptab s). p_status p \<noteq> P_EMPTY"
    using assms(1) by (fastforce simp: find_None_iff in_set_conv_nth)
  then show ?thesis using None by (simp add: ptab_alloc_def run_simps)
next
  case (Some p)
  then have p: "p < PTABSIZE" "p_status (ptab s ! p) = P_EMPTY"
    by (auto simp: find_Some_iff)
  obtain pid where pid: "new_pid 21 (ptab s) (nextpid s) = Some pid"
    using new_pid_found[OF _ assms(2,3)] assms(1) by force
  have u: "1 \<le> pid \<and> pid \<le> 32001 \<and> (\<forall>q\<in>set (ptab s). p_status q \<noteq> P_EMPTY \<longrightarrow> p_pid q \<noteq> pid)"
    using new_pid_Some[OF pid assms(2,3)] .
  have "ptab_alloc s = Ret (Some p) (s\<lparr>nextpid := pid,
        ptab := (ptab s)[p := zero_proc\<lparr>p_pid := pid, p_status := P_FORKING\<rparr>]\<rparr>)"
    using Some pid p assms(1) unfolding ptab_alloc_def by (simp add: run_simps upd_proc_def del: new_pid.simps)
  moreover have "\<not> (\<forall>p\<in>set (ptab s). p_status p \<noteq> P_EMPTY)"
    using p assms(1) by (metis nth_mem)
  ultimately show ?thesis using p u by auto
qed

theorem ptab_alloc_unique_pid_witness:
  "\<exists>p pid s'. ptab_alloc (bss\<lparr>ptab := (ptab bss)[0 := zero_proc\<lparr>p_status := P_READY, p_pid := 1\<rparr>]\<rparr>) = Ret (Some p) s' \<and>
     p_pid (ptab s' ! p) = pid \<and> pid \<noteq> 1"
proof -
  let ?s = "bss\<lparr>ptab := (ptab bss)[0 := zero_proc\<lparr>p_status := P_READY, p_pid := 1\<rparr>]\<rparr>"
  have len: "length (ptab ?s) = PTABSIZE" and np: "0 \<le> nextpid ?s" "nextpid ?s \<le> 32001"
    by (simp_all add: bss_def)
  have at: "ptab ?s ! 0 = zero_proc\<lparr>p_status := P_READY, p_pid := 1\<rparr>" "ptab ?s ! 1 = zero_proc"
    by (simp_all add: bss_def)
  have mem: "ptab ?s ! 0 \<in> set (ptab ?s)" "ptab ?s ! 1 \<in> set (ptab ?s)"
    using nth_mem[of 0 "ptab ?s"] nth_mem[of 1 "ptab ?s"] len by linarith+
  have z: "p_status zero_proc = P_EMPTY" by (simp add: zero_proc_def)
  have empty: "\<not> (\<forall>p\<in>set (ptab ?s). p_status p \<noteq> P_EMPTY)"
    using mem(2)[unfolded at] z by blast
  show ?thesis
    using ptab_alloc_unique_pid[OF len np] mem(1) len unfolding if_not_P[OF empty] at by fastforce
qed

text \<open>Slots the scheduler still passes before it reaches slot \<open>q\<close>.\<close>

definition slots_before :: "nat \<Rightarrow> nat \<Rightarrow> nat" where
  "slots_before pp q = (q + PTABSIZE - (pp + 1)) mod PTABSIZE"

lemma slots_before_cases:
  assumes "pp < PTABSIZE" "q < PTABSIZE"
  shows "slots_before pp q = (if pp < q then q - (pp + 1) else q + 19 - pp)"
proof (cases "pp < q")
  case True
  then have e: "q + PTABSIZE - (pp + 1) = (q - (pp + 1)) + PTABSIZE" by simp
  show ?thesis unfolding slots_before_def e mod_add_self2 using True assms by simp
next
  case False
  then show ?thesis using assms by (simp add: slots_before_def)
qed

lemma wrap_slot: "x < 2 * PTABSIZE \<Longrightarrow> x mod PTABSIZE = (if x < PTABSIZE then x else x - PTABSIZE)"
  by (simp add: mod_if)

lemma slots_before_at:
  assumes "pp < PTABSIZE" "q < PTABSIZE"
  shows "(pp + 1 + slots_before pp q) mod PTABSIZE = q" "slots_before pp q < PTABSIZE"
proof -
  have "slots_before pp q < PTABSIZE" by (simp add: slots_before_def)
  then show "slots_before pp q < PTABSIZE" .
  show "(pp + 1 + slots_before pp q) mod PTABSIZE = q"
    using assms by (subst wrap_slot) (auto simp: slots_before_cases)
qed

lemma slots_before_step:
  assumes "pp < PTABSIZE" "q < PTABSIZE" "n < slots_before pp q"
  shows "slots_before ((pp + 1 + n) mod PTABSIZE) q < slots_before pp q"
proof -
  have n: "n < PTABSIZE" using assms slots_before_at(2)[OF assms(1,2)] by simp
  have w: "(pp + 1 + n) mod PTABSIZE = (if pp + 1 + n < PTABSIZE then pp + 1 + n else pp + 1 + n - PTABSIZE)"
    using assms n by (intro wrap_slot) simp
  have "slots_before (if pp + 1 + n < PTABSIZE then pp + 1 + n else pp + 1 + n - PTABSIZE) q < slots_before pp q"
    using assms n by (subst slots_before_cases) (auto simp: slots_before_cases split: if_splits)
  then show ?thesis unfolding w .
qed

text \<open>
  C31: the scheduler is fair. As long as some process is READY and none is RUNNING, \<open>getproc\<close>
  returns a READY process; and for every READY process \<open>q\<close>, either \<open>q\<close> is the one returned or
  strictly fewer slots remain before it, so \<open>q\<close> is chosen after at most 20 calls whatever the
  other processes do in between.
\<close>

theorem getproc_fair:
  assumes "length (ptab s) = PTABSIZE" and "sched_pp s < PTABSIZE"
    and "\<forall>p\<in>set (ptab s). p_status p \<noteq> P_RUNNING"
    and "q < PTABSIZE" and "p_status (ptab s ! q) = P_READY"
  shows "\<exists>p. getproc s = Ret p (s\<lparr>sched_pp := p\<rparr>) \<and> p < PTABSIZE \<and>
    p_status (ptab s ! p) = P_READY \<and> (p = q \<or> slots_before p q < slots_before (sched_pp s) q)"
proof -
  let ?at = "\<lambda>i. (sched_pp s + 1 + i) mod PTABSIZE"
  let ?ready = "\<lambda>i. p_status (ptab s ! ?at i) = P_READY"
  let ?m = "slots_before (sched_pp s) q"
  define n where "n = (LEAST i. ?ready i)"
  have m: "?ready ?m" "?at ?m = q" "?m < PTABSIZE"
    using slots_before_at[OF assms(2,4)] assms(5) by auto
  have r: "?ready n" unfolding n_def using m(1) by (rule LeastI)
  have le: "n \<le> ?m" unfolding n_def using m(1) by (rule Least_le)
  have first: "\<not> ?ready i" if "i < n" for i
    using that not_less_Least unfolding n_def by blast
  have run: "p_status (ptab s ! ?at i) \<noteq> P_RUNNING" for i
    using assms(1,3) by (metis mod_less_divisor nth_mem zero_less_numeral)
  have "getproc s = Ret (?at n) (s\<lparr>sched_pp := ?at n\<rparr>)"
    unfolding getproc_def using getproc_loop_found[of n PTABSIZE s] assms(2) first run r le m(3) by simp
  moreover have "?at n = q \<or> slots_before (?at n) q < ?m"
  proof (cases "n = ?m")
    case True
    then show ?thesis using m(2) by simp
  next
    case False
    then have "n < ?m" using le by simp
    then show ?thesis using slots_before_step[OF assms(2,4)] by simp
  qed
  ultimately show ?thesis using r by auto
qed

theorem getproc_fair_witness:
  "getproc (bss\<lparr>ptab := (ptab bss)[3 := zero_proc\<lparr>p_status := P_READY\<rparr>]\<rparr>) =
     Ret 3 (bss\<lparr>ptab := (ptab bss)[3 := zero_proc\<lparr>p_status := P_READY\<rparr>], sched_pp := 3\<rparr>)"
proof -
  define s where "s = bss\<lparr>ptab := (ptab bss)[3 := zero_proc\<lparr>p_status := P_READY\<rparr>]\<rparr>"
  have len: "length (ptab s) = PTABSIZE" and pp: "sched_pp s < PTABSIZE"
    by (simp_all add: s_def bss_def)
  have at: "p_status (ptab s ! i) = (if i = 3 then P_READY else P_EMPTY)" if "i < 20" for i
    using that by (simp add: s_def bss_def nth_list_update zero_proc_def)
  have "p_status (ptab s ! i) \<noteq> P_RUNNING" if "i < 20" for i
    unfolding at[OF that] by simp
  then have run: "\<forall>p\<in>set (ptab s). p_status p \<noteq> P_RUNNING"
    unfolding all_set_conv_all_nth len by blast
  obtain p where p: "getproc s = Ret p (s\<lparr>sched_pp := p\<rparr>)" "p < PTABSIZE" "p_status (ptab s ! p) = P_READY"
    using getproc_fair[OF len pp run, of 3] at[of 3] by auto
  then have "p = 3" using at[OF p(2)] by (simp split: if_splits)
  then show ?thesis using p(1) by (simp add: s_def)
qed

end
