(* ===== verification/Clock.thy ===== *)
theory Clock
  imports Proc_Events
begin

text \<open>
  Time keeping: \<open>kernel/time.c\<close> and the clock interrupt \<open>clk_int\<close> of
  \<open>kernel/interrupts.c\<close>. A \<open>uzi_time\<close> used as a tick counter holds ticks of one minute in
  \<open>t_time\<close> and minutes in \<open>t_date\<close>; used as time of day it holds packed fields.
\<close>

section \<open>time.c\<close>

definition rdtime :: "kst \<Rightarrow> uzi_time" where
  "rdtime s = \<lparr>t_time = t_time (tod s), t_date = t_date (tod s)\<rparr>"

datatype clock_reg = SECS | MINS | HRS | DAY | MON

definition tread :: "kst \<Rightarrow> clock_reg \<Rightarrow> u16" where
  "tread s port = (let t = unat (tick_count s) in of_nat (case port of
       SECS \<Rightarrow> (t div 10) mod 60
     | MINS \<Rightarrow> (t div 10 div 60) mod 60
     | HRS \<Rightarrow> (t div 10 div 60 div 60) mod 24
     | DAY \<Rightarrow> 27
     | MON \<Rightarrow> 9))"

abbreviation (input) YEAR :: u16 where "YEAR \<equiv> 86"

definition rdtod :: "unit k" where
  "rdtod = thenK
     (modK (\<lambda>s. s\<lparr>tod := (tod s)\<lparr>t_time :=
        drop_bit 1 (tread s SECS) OR push_bit 5 (tread s MINS) OR push_bit 11 (tread s HRS)\<rparr>\<rparr>))
     (modK (\<lambda>s. s\<lparr>tod := (tod s)\<lparr>t_date :=
        tread s DAY OR push_bit 5 (tread s MON) OR push_bit 9 YEAR\<rparr>\<rparr>))"

definition addtick :: "uzi_time \<Rightarrow> uzi_time \<Rightarrow> uzi_time" where
  "addtick t1 t2 =
     (let t = t1\<lparr>t_time := t_time t1 + t_time t2, t_date := t_date t1 + t_date t2\<rparr>
      in if t_time t \<ge> 600 then t\<lparr>t_time := t_time t - 600, t_date := t_date t + 1\<rparr> else t)"

definition incrtick :: "uzi_time \<Rightarrow> uzi_time" where
  "incrtick t = (let t1 = t\<lparr>t_time := t_time t + 1\<rparr>
     in if t_time t1 = 600 then t1\<lparr>t_time := 0, t_date := t_date t1 + 1\<rparr> else t1)"

section \<open>The clock interrupt\<close>

abbreviation (input) INTS_PER_TICK :: u16 where "INTS_PER_TICK \<equiv> 6"

text \<open>One entry of the alarm loop.\<close>

definition alarm_tick :: "nat \<Rightarrow> unit k" where
  "alarm_tick p =
     bindK (getK (\<lambda>s. p_alarm (ptab s ! p))) (\<lambda>a.
     whenK (a \<noteq> 0)
       (thenK (upd_proc p (\<lambda>e. e\<lparr>p_alarm := a - 1\<rparr>))
        (whenK (a - 1 = 0) (sendsig (Some p) SIGALRM))))"

definition clk_second :: "unit k" where
  "clk_second = doK [
     modK (\<lambda>s. s\<lparr>sec := 0\<rparr>),
     rdtod,
     forK [0..<PTABSIZE] alarm_tick]"

definition clk_tick :: "unit k" where
  "clk_tick = doK [
     (\<lambda>s. whenK (p_status (ptab s ! u_ptab (udata s)) = P_RUNNING)
        (upd_ud (\<lambda>u. if u_insys u then u\<lparr>u_stime := incrtick (u_stime u)\<rparr>
                      else u\<lparr>u_utime := incrtick (u_utime u)\<rparr>)) s),
     modK (\<lambda>s. s\<lparr>ticks := incrtick (ticks s)\<rparr>),
     modK (\<lambda>s. s\<lparr>sec := sec s + 1\<rparr>),
     (\<lambda>s. whenK (sec s = TICKSPERSEC) clk_second s)]"

definition clk_int :: "unit k" where
  "clk_int =
     bindK (getK clk_int_count) (\<lambda>c.
     if c < INTS_PER_TICK then modK (\<lambda>s. s\<lparr>clk_int_count := c + 1\<rparr>)
     else thenK (modK (\<lambda>s. s\<lparr>clk_int_count := 0, tick_count := tick_count s + 1\<rparr>)) clk_tick)"

section \<open>Lemmas\<close>

text \<open>Ticks in a counter, and the counters the clock code keeps.\<close>

definition tick_total :: "uzi_time \<Rightarrow> nat" where
  "tick_total t = 600 * unat (t_date t) + unat (t_time t)"

definition wf_ticks :: "uzi_time \<Rightarrow> bool" where
  "wf_ticks t \<longleftrightarrow> unat (t_time t) < 600"

definition alarm_entry :: "p_tab \<Rightarrow> p_tab" where
  "alarm_entry p = (if p_alarm p = 0 then p
     else if p_alarm p = 1 then ssig_entry SIGALRM (p\<lparr>p_alarm := 0\<rparr>)
     else p\<lparr>p_alarm := p_alarm p - 1\<rparr>)"

lemma alarm_tick_entry:
  assumes "p < length (ptab s)"
  shows "alarm_tick p s = Ret () (s\<lparr>ptab := (ptab s)[p := alarm_entry (ptab s ! p)]\<rparr>)"
proof -
  have nop: "s\<lparr>ptab := (ptab s)[p := ptab s ! p]\<rparr> = s" by simp
  have one: "p_alarm (ptab s ! p) - 1 = 0 \<longleftrightarrow> p_alarm (ptab s ! p) = 1" by simp
  show ?thesis
    using assms nop
    by (auto simp: alarm_tick_def run_simps upd_proc_def alarm_entry_def sendsig_def ssig_def)
qed

lemma alarm_loop:
  assumes "length (ptab s) = PTABSIZE"
  shows "forK [0..<PTABSIZE] alarm_tick s = Ret () (s\<lparr>ptab := map alarm_entry (ptab s)\<rparr>)"
proof -
  have "forK [0..<PTABSIZE] alarm_tick s = forK [0..<PTABSIZE] (\<lambda>i. upd_proc i alarm_entry) s"
    by (rule forK_cong_inv[where I = "\<lambda>t. length (ptab t) = PTABSIZE"])
      (use assms in \<open>auto simp: alarm_tick_entry upd_proc_def run_simps\<close>)
  then show ?thesis using for_all_procs[OF assms, of alarm_entry] by simp
qed

lemma incrtick_spec:
  assumes "wf_ticks t"
  shows "wf_ticks (incrtick t)"
    and "unat (t_date t) < 65535 \<Longrightarrow> tick_total (incrtick t) = tick_total t + 1"
proof -
  have a: "unat (t_time t + 1) = unat (t_time t) + 1"
    using assms by (simp add: wf_ticks_def unat_word_ariths)
  moreover have e: "t_time t + 1 = 600 \<longleftrightarrow> unat (t_time t + 1) = 600"
    by (simp add: word_unat_eq_iff)
  ultimately show "wf_ticks (incrtick t)"
    using assms by (auto simp: incrtick_def wf_ticks_def Let_def)
  assume "unat (t_date t) < 65535"
  then have "unat (t_date t + 1) = unat (t_date t) + 1" by (simp add: unat_word_ariths)
  then show "tick_total (incrtick t) = tick_total t + 1"
    using a e by (auto simp: incrtick_def tick_total_def Let_def)
qed

lemma clk_tick_spec:
  assumes "length (ptab s) = PTABSIZE"
  shows "wp clk_tick (\<lambda>_ t. tick_count t = tick_count s \<and> clk_int_count t = clk_int_count s \<and>
     ticks t = incrtick (ticks s) \<and> sec t = (if sec s + 1 = TICKSPERSEC then 0 else sec s + 1) \<and>
     ptab t = (if sec s + 1 = TICKSPERSEC then map alarm_entry (ptab s) else ptab s)) s"
  using assms
  by (simp add: clk_tick_def clk_second_def rdtod_def wp_def run_simps upd_ud_def alarm_loop)

lemma alarm_iter:
  "k < unat (p_alarm p) \<Longrightarrow> (alarm_entry ^^ k) p = p\<lparr>p_alarm := p_alarm p - of_nat k\<rparr>"
proof (induction k)
  case 0
  then show ?case by simp
next
  case (Suc k)
  let ?a = "p_alarm p - of_nat k"
  have k: "k < 65536" using Suc.prems u16_lt[of "p_alarm p"] by linarith
  then have "unat (of_nat k :: u16) = k" by (simp add: unat_of_nat take_bit_nat_eq_self)
  then have "unat ?a = unat (p_alarm p) - k"
    using Suc.prems by (subst unat_sub) (simp_all add: word_le_nat_alt)
  then have "unat ?a \<ge> 2" using Suc.prems by simp
  then have "?a \<noteq> 0" "?a \<noteq> 1" by auto
  then show ?case using Suc by (simp add: alarm_entry_def algebra_simps)
qed

lemma seconds_loop:
  "length (ptab s) = PTABSIZE \<Longrightarrow>
   wp (forK [0..<n] (\<lambda>_. clk_second)) (\<lambda>_ t. ptab t = map (alarm_entry ^^ n) (ptab s)) s"
proof (induction n)
  case 0
  then show ?case by (simp add: id_def[symmetric])
next
  case (Suc n)
  have step: "wp clk_second (\<lambda>_ t. ptab t = map alarm_entry (ptab u)) u" if "length (ptab u) = PTABSIZE" for u
    using that by (simp add: clk_second_def rdtod_def wp_def run_simps alarm_loop)
  have "wp (forK [0..<n] (\<lambda>_. clk_second)) (\<lambda>_ u. wp clk_second (\<lambda>_ t. ptab t = map (alarm_entry ^^ Suc n) (ptab s)) u) s"
    by (rule wp_mono[OF Suc.IH[OF Suc.prems]], rule wp_mono[OF step]) (use Suc.prems in auto)
  then show ?case by (simp add: forK_append comp_def)
qed

lemma pack_fields:
  fixes x m h :: u16
  assumes x: "\<And>j. bit x j \<Longrightarrow> j < 5" and m: "\<And>j. bit m j \<Longrightarrow> j < 6" and h: "\<And>j. bit h j \<Longrightarrow> j < 5"
  shows "drop_bit 11 (x OR push_bit 5 m OR push_bit 11 h) = h"
    and "drop_bit 5 (x OR push_bit 5 m OR push_bit 11 h) AND 63 = m"
    and "(x OR push_bit 5 m OR push_bit 11 h) AND 31 = x"
proof -
  have t6: "w AND 63 = take_bit 6 w" and t5: "w AND 31 = take_bit 5 w" for w :: u16
    by (simp_all add: take_bit_eq_mask mask_numeral)
  have nx: "\<not> bit x j" if "5 \<le> j" for j using x[of j] that by auto
  have nm: "\<not> bit m j" if "6 \<le> j" for j using m[of j] that by auto
  have nh: "\<not> bit h j" if "5 \<le> j" for j using h[of j] that by auto
  show "drop_bit 11 (x OR push_bit 5 m OR push_bit 11 h) = h"
    by (rule bit_word_eqI) (auto simp: bit_simps nx nm dest: h)
  show "drop_bit 5 (x OR push_bit 5 m OR push_bit 11 h) AND 63 = m"
    unfolding t6 by (rule bit_word_eqI) (auto simp: bit_simps nx dest: m)
  show "(x OR push_bit 5 m OR push_bit 11 h) AND 31 = x"
    unfolding t5 by (rule bit_word_eqI) (auto simp: bit_simps dest: x)
qed

section \<open>Properties\<close>

text \<open>
  Tick counters add up. For counters with less than a minute of ticks, \<open>incrtick\<close> and
  \<open>addtick\<close> give such a counter again, and as long as the minutes do not overflow the total
  number of ticks is one more, and the sum of the two.
\<close>

lemma tick_arithmetic:
  assumes "wf_ticks t1" and "wf_ticks t2" and "unat (t_date t1) + unat (t_date t2) < 65535"
  shows "wf_ticks (incrtick t1) \<and> tick_total (incrtick t1) = tick_total t1 + 1 \<and>
    wf_ticks (addtick t1 t2) \<and> tick_total (addtick t1 t2) = tick_total t1 + tick_total t2"
proof -
  let ?t = "t_time t1 + t_time t2" and ?d = "t_date t1 + t_date t2"
  have t: "unat ?t = unat (t_time t1) + unat (t_time t2)"
    using assms(1,2) by (simp add: wf_ticks_def unat_word_ariths)
  have d: "unat ?d = unat (t_date t1) + unat (t_date t2)"
    using assms(3) by (simp add: unat_word_ariths)
  have d1: "unat (?d + 1) = unat ?d + 1"
    using assms(3) d by (simp add: unat_word_ariths)
  have ge: "?t \<ge> 600 \<longleftrightarrow> unat ?t \<ge> 600" by (simp add: word_le_nat_alt)
  have s: "unat (?t - 600) = unat ?t - 600" if "?t \<ge> 600"
    using that by (subst unat_sub) (simp_all add: ge)
  have "wf_ticks (addtick t1 t2) \<and> tick_total (addtick t1 t2) = tick_total t1 + tick_total t2"
    using assms(1,2) t d d1 s ge
    by (auto simp: addtick_def wf_ticks_def tick_total_def Let_def)
  then show ?thesis using incrtick_spec[OF assms(1)] assms(3) by simp
qed

theorem tick_arithmetic_witness:
  "tick_total (addtick \<lparr>t_time = 599, t_date = 1\<rparr> \<lparr>t_time = 2, t_date = 3\<rparr>) = 600 * 5 + 1"
  using tick_arithmetic[of "\<lparr>t_time = 599, t_date = 1\<rparr>" "\<lparr>t_time = 2, t_date = 3\<rparr>"]
  by (simp add: wf_ticks_def tick_total_def)

text \<open>
  the time of day is packed without overlap: after \<open>rdtod\<close> the top five bits of
  \<open>t_time\<close> are the hour, the next six the minute, the low five half the second, each in
  range, as counted from the tick counter.
\<close>

theorem rdtod_fields:
  "wp rdtod (\<lambda>_ t. let n = unat (tick_count s) div 10 in
     unat (drop_bit 11 (t_time (tod t))) = n div 3600 mod 24 \<and>
     unat (drop_bit 5 (t_time (tod t)) AND 63) = n div 60 mod 60 \<and>
     unat (t_time (tod t) AND 31) = n mod 60 div 2) s"
proof -
  let ?n = "unat (tick_count s) div 10"
  let ?h = "tread s HRS" and ?m = "tread s MINS" and ?x = "drop_bit 1 (tread s SECS)"
  have h: "unat ?h = ?n div 3600 mod 24" and m: "unat ?m = ?n div 60 mod 60"
    and sc: "unat (tread s SECS) = ?n mod 60"
    by (simp_all add: tread_def Let_def unat_of_nat take_bit_nat_eq_self div_mult2_eq[symmetric])
  have x: "unat ?x = ?n mod 60 div 2"
    unfolding unat_drop_bit_eq sc by (simp add: drop_bit_eq_div)
  have lt: "?n mod 60 div 2 < 2 ^ 5" "?n div 60 mod 60 < 2 ^ 6"
    using mod_less_divisor[of 60 ?n] mod_less_divisor[of 60 "?n div 60"] by auto
  have bx: "bit ?x j \<Longrightarrow> j < 5" and bm: "bit ?m j \<Longrightarrow> j < 6" for j
    using bit_small[of ?x 5] bit_small[of ?m 6] x m lt by auto
  have "?n div 3600 mod 24 < 2 ^ 5" using mod_less_divisor[of 24 "?n div 3600"] by auto
  then have bh: "bit ?h j \<Longrightarrow> j < 5" for j using bit_small[of ?h 5] h by auto
  show ?thesis
    using pack_fields[of ?x ?m ?h] bx bm bh h m x by (simp add: rdtod_def Let_def)
qed

text \<open>
  A clock tick takes seven interrupts, not the six of \<open>INTS_PER_TICK\<close>: starting from a
  count of 0, up to six calls of \<open>clk_int\<close> only count, and the seventh is the tick.
\<close>

lemma clk_int_tick_period:
  assumes "clk_int_count s = 0" and "length (ptab s) = PTABSIZE" and "n \<le> 6"
  shows "forK [0..<n] (\<lambda>_. clk_int) s = Ret () (s\<lparr>clk_int_count := of_nat n\<rparr>) \<and>
    wp (forK [0..<7] (\<lambda>_. clk_int)) (\<lambda>_ t. clk_int_count t = 0 \<and>
      tick_count t = tick_count s + 1 \<and> ticks t = incrtick (ticks s)) s"
proof -
  have run: "m \<le> 6 \<Longrightarrow> forK [0..<m] (\<lambda>_. clk_int) s = Ret () (s\<lparr>clk_int_count := of_nat m\<rparr>)" for m
  proof (induction m)
    case 0
    have "s\<lparr>clk_int_count := 0\<rparr> = s" using assms(1) by simp
    then show ?case by (simp add: run_simps)
  next
    case (Suc m)
    then have "of_nat m < (6 :: u16)"
      by (simp add: word_less_nat_alt unat_of_nat take_bit_nat_eq_self)
    then show ?case using Suc
      by (simp add: forK_append run_simps clk_int_def add.commute)
  qed
  let ?t = "s\<lparr>clk_int_count := 0, tick_count := tick_count s + 1\<rparr>"
  have "wp clk_int (\<lambda>_ t. clk_int_count t = 0 \<and> tick_count t = tick_count s + 1 \<and>
      ticks t = incrtick (ticks s)) (s\<lparr>clk_int_count := 6\<rparr>)"
    using clk_tick_spec[of ?t] assms(2) by (auto simp: clk_int_def elim!: wp_mono)
  then have "wp (thenK (forK [0..<6] (\<lambda>_. clk_int)) clk_int) (\<lambda>_ t. clk_int_count t = 0 \<and>
      tick_count t = tick_count s + 1 \<and> ticks t = incrtick (ticks s)) s"
    using run[of 6] by (simp add: wp_def run_simps)
  moreover have "[0..<7] = [0..<6] @ [6 :: nat]" by (simp add: upt_rec)
  ultimately show ?thesis using run[OF assms(3)] by (simp only: forK_append wp_thenK forK.simps wp_retK)
qed

theorem clk_int_tick_period_witness:
  "wp (forK [0..<7] (\<lambda>_. clk_int)) (\<lambda>_ t. tick_count t = 1) bss"
proof -
  have "clk_int_count bss = 0" "length (ptab bss) = PTABSIZE" "tick_count bss = 0"
    by (simp_all add: bss_def)
  with clk_int_tick_period[of bss 0] show ?thesis by (auto elim!: wp_mono)
qed

text \<open>
  an alarm set to \<open>n\<close> seconds goes off after exactly \<open>n\<close> once-per-second updates: before
  that only the entry's \<open>p_alarm\<close> has changed, and with the \<open>n\<close>-th update the alarm is off
  and, unless the signal is ignored, SIGALRM is pending and a sleeping process READY.
\<close>

theorem alarm_fires:
  assumes "length (ptab s) = PTABSIZE" and "i < PTABSIZE" and "p = ptab s ! i"
    and "n = unat (p_alarm p)" and "0 < n" and "p_status p \<noteq> P_EMPTY"
  shows "(\<forall>k<n. wp (forK [0..<k] (\<lambda>_. clk_second)) (\<lambda>_ t. ptab t ! i = p\<lparr>p_alarm := p_alarm p - of_nat k\<rparr>) s) \<and>
    wp (forK [0..<n] (\<lambda>_. clk_second)) (\<lambda>_ t. p_alarm (ptab t ! i) = 0 \<and>
       (if p_ignored p AND sigmask SIGALRM = 0
        then p_pending (ptab t ! i) = p_pending p OR sigmask SIGALRM \<and>
          (p_status p \<in> {P_PAUSE, P_WAIT, P_SLEEP} \<longrightarrow> p_status (ptab t ! i) = P_READY)
        else ptab t ! i = p\<lparr>p_alarm := 0\<rparr>)) s"
proof (intro conjI allI impI)
  fix k assume k: "k < n"
  show "wp (forK [0..<k] (\<lambda>_. clk_second)) (\<lambda>_ t. ptab t ! i = p\<lparr>p_alarm := p_alarm p - of_nat k\<rparr>) s"
    by (rule wp_mono[OF seconds_loop[OF assms(1)]]) (use k assms alarm_iter[of k p] in simp)
next
  obtain m where m: "n = Suc m" using assms(5) by (cases n) auto
  have "m < 65536" using m assms(4) u16_lt[of "p_alarm p"] by linarith
  then have "unat (of_nat m :: u16) = m" by (simp add: unat_of_nat take_bit_nat_eq_self)
  then have "unat (p_alarm p - of_nat m) = 1"
    using m assms(4) by (subst unat_sub) (simp_all add: word_le_nat_alt)
  then have "p_alarm p - of_nat m = 1" by (simp add: word_unat_eq_iff)
  then have it: "(alarm_entry ^^ n) p = ssig_entry SIGALRM (p\<lparr>p_alarm := 0\<rparr>)"
    using alarm_iter[of m p] m assms(4) by (simp add: alarm_entry_def)
  show "wp (forK [0..<n] (\<lambda>_. clk_second)) (\<lambda>_ t. p_alarm (ptab t ! i) = 0 \<and>
       (if p_ignored p AND sigmask SIGALRM = 0
        then p_pending (ptab t ! i) = p_pending p OR sigmask SIGALRM \<and>
          (p_status p \<in> {P_PAUSE, P_WAIT, P_SLEEP} \<longrightarrow> p_status (ptab t ! i) = P_READY)
        else ptab t ! i = p\<lparr>p_alarm := 0\<rparr>)) s"
    by (rule wp_mono[OF seconds_loop[OF assms(1)]])
      (use assms it in \<open>auto simp: ssig_entry_def Let_def\<close>)
qed

theorem alarm_fires_witness:
  "wp (forK [0..<2] (\<lambda>_. clk_second)) (\<lambda>_ t. p_status (ptab t ! 4) = P_READY)
     (bss\<lparr>ptab := (ptab bss)[4 := zero_proc\<lparr>p_status := P_PAUSE, p_alarm := 2\<rparr>]\<rparr>)"
proof -
  define s where "s = bss\<lparr>ptab := (ptab bss)[4 := zero_proc\<lparr>p_status := P_PAUSE, p_alarm := 2\<rparr>]\<rparr>"
  have len: "length (ptab s) = PTABSIZE" and at: "zero_proc\<lparr>p_status := P_PAUSE, p_alarm := 2\<rparr> = ptab s ! 4"
    by (simp_all add: s_def bss_def)
  show ?thesis
    unfolding s_def[symmetric]
    using alarm_fires[OF len _ at, of 2] by (auto simp: zero_proc_def elim!: wp_mono)
qed

end
