(* ===== verification/Char_Queue.thy ===== *)
theory Char_Queue
  imports Kernel_State
begin

text \<open>
  The character queues of \<open>drivers/devio.c\<close> (\<open>insq\<close>, \<open>remq\<close>, \<open>uninsq\<close>, \<open>fullq\<close>), their
  abstraction to a list, and the FIFO contract the terminal driver relies on. The queue is a
  ring: \<open>q_head\<close> and \<open>q_tail\<close> are distances from \<open>q_base\<close>. The calls of \<open>di\<close> and \<open>ei\<close>
  only make each operation atomic with respect to interrupts.
\<close>

section \<open>Operations\<close>

text \<open>The result is the new queue and the value the function returns.\<close>

definition insq :: "s_queue \<Rightarrow> byte \<Rightarrow> s_queue \<times> bool" where
  "insq q c =
     (if q_count q = q_size q then (q, False)
      else
        let q1 = q\<lparr>q_base := (q_base q)[nat (q_tail q) := c], q_count := q_count q + 1\<rparr>;
            t = q_tail q + 1
        in (q1\<lparr>q_tail := if t \<ge> q_size q then 0 else t\<rparr>, True))"

text \<open>\<open>remq\<close> and \<open>uninsq\<close> also store a character through \<open>cp\<close> when they return 1.\<close>

definition remq :: "s_queue \<Rightarrow> s_queue \<times> byte option" where
  "remq q =
     (if q_count q = 0 then (q, None)
      else
        let c = q_base q ! nat (q_head q);
            h = q_head q + 1
        in (q\<lparr>q_count := q_count q - 1, q_head := if h \<ge> q_size q then 0 else h\<rparr>, Some c))"

definition uninsq :: "s_queue \<Rightarrow> s_queue \<times> byte option" where
  "uninsq q =
     (if q_count q = 0 then (q, None)
      else
        let t = q_tail q - 1;
            t' = (if t \<le> 0 then q_size q - 1 else t)
        in (q\<lparr>q_count := q_count q - 1, q_tail := t'\<rparr>, Some (q_base q ! nat t')))"

definition fullq :: "s_queue \<Rightarrow> bool" where
  "fullq q \<longleftrightarrow> q_count q > q_wakeup q"

text \<open>The terminal input queue as \<open>drivers/devtty.c\<close> initialises it.\<close>

definition TTYSIZ :: int where "TTYSIZ = 132"

definition ttyinq_init :: s_queue where
  "ttyinq_init = \<lparr>q_base = replicate 132 0, q_head = 0, q_tail = 0, q_size = TTYSIZ,
     q_count = 0, q_wakeup = TTYSIZ div 2\<rparr>"

section \<open>Well-formedness and abstraction\<close>

definition wf_queue :: "s_queue \<Rightarrow> bool" where
  "wf_queue q \<longleftrightarrow> 0 < q_size q \<and> int (length (q_base q)) = q_size q \<and>
     0 \<le> q_count q \<and> q_count q \<le> q_size q \<and> 0 \<le> q_head q \<and> q_head q < q_size q \<and>
     q_tail q = (q_head q + q_count q) mod q_size q"

definition queue_at :: "s_queue \<Rightarrow> int \<Rightarrow> byte" where
  "queue_at q k = q_base q ! nat ((q_head q + k) mod q_size q)"

definition queue_list :: "s_queue \<Rightarrow> byte list" where
  "queue_list q = map (queue_at q) [0..q_count q - 1]"

lemma wf_ttyinq_init: "wf_queue ttyinq_init"
  by (simp add: wf_queue_def ttyinq_init_def TTYSIZ_def)

lemma length_queue_list: "wf_queue q \<Longrightarrow> int (length (queue_list q)) = q_count q"
  by (simp add: queue_list_def wf_queue_def)

lemma mod_succ_wrap: "0 \<le> x \<Longrightarrow> x < n \<Longrightarrow> (if x + 1 \<ge> n then 0 else x + 1) = (x + 1) mod (n::int)"
  by (cases "x + 1 = n") auto

lemma ring_distinct:
  assumes "0 \<le> i" "i < j" "j < (n::int)"
  shows "(h + i) mod n \<noteq> (h + j) mod n"
proof
  assume "(h + i) mod n = (h + j) mod n"
  then have "n dvd (h + j) - (h + i)"
    by (metis mod_eq_dvd_iff)
  then have "n dvd j - i" by simp
  then have "n \<le> j - i" using assms by (intro zdvd_imp_le) auto
  then show False using assms by simp
qed

lemma insq_full: "q_count q = q_size q \<Longrightarrow> insq q c = (q, False)"
  by (simp add: insq_def)

lemma insq_not_full:
  assumes "wf_queue q" and "q_count q < q_size q"
  shows "snd (insq q c) \<and> wf_queue (fst (insq q c)) \<and>
    queue_list (fst (insq q c)) = queue_list q @ [c] \<and> q_size (fst (insq q c)) = q_size q"
proof -
  let ?n = "q_size q" and ?t = "q_tail q" and ?q' = "fst (insq q c)"
  note wf = assms(1)[unfolded wf_queue_def]
  have t: "0 \<le> ?t" "?t < ?n" using wf by auto
  have q': "?q' = q\<lparr>q_base := (q_base q)[nat ?t := c], q_count := q_count q + 1,
              q_tail := (?t + 1) mod ?n\<rparr>"
    using assms(2) mod_succ_wrap[OF t] by (simp add: insq_def Let_def)
  have "wf_queue ?q'"
    unfolding q' wf_queue_def using wf assms(2) by (auto simp: mod_simps algebra_simps)
  moreover have "queue_list ?q' = queue_list q @ [c]"
  proof -
    have old: "queue_at ?q' k = queue_at q k" if "0 \<le> k" "k \<le> q_count q - 1" for k
    proof -
      have "(q_head q + k) mod ?n \<noteq> ?t"
        using ring_distinct[of k "q_count q" ?n "q_head q"] that assms(2) wf by auto
      moreover have "0 \<le> (q_head q + k) mod ?n" using wf by simp
      ultimately have "nat ?t \<noteq> nat ((q_head q + k) mod ?n)" using t by linarith
      then show ?thesis by (simp add: queue_at_def q')
    qed
    have new: "queue_at ?q' (q_count q) = c"
    proof -
      have "nat ?t < length (q_base q)" using wf t by linarith
      then show ?thesis using wf by (simp add: queue_at_def q')
    qed
    have up: "[0..q_count q] = [0..q_count q - 1] @ [q_count q]"
      using wf upto_rec2[of 0 "q_count q"] by simp
    have "queue_list ?q' = map (queue_at ?q') [0..q_count q]"
      by (simp add: queue_list_def q')
    also have "\<dots> = queue_list q @ [c]"
      using old new by (simp add: up queue_list_def)
    finally show ?thesis .
  qed
  moreover have "snd (insq q c)" using assms(2) by (simp add: insq_def Let_def)
  ultimately show ?thesis by (simp add: q')
qed

lemma remq_empty: "q_count q = 0 \<Longrightarrow> remq q = (q, None)"
  by (simp add: remq_def)

lemma remq_nonempty:
  assumes "wf_queue q" and "q_count q \<noteq> 0"
  shows "snd (remq q) = Some (hd (queue_list q)) \<and> wf_queue (fst (remq q)) \<and>
    queue_list (fst (remq q)) = tl (queue_list q) \<and> q_size (fst (remq q)) = q_size q"
proof -
  let ?n = "q_size q" and ?h = "q_head q" and ?q' = "fst (remq q)"
  note wf = assms(1)[unfolded wf_queue_def]
  have q': "?q' = q\<lparr>q_count := q_count q - 1, q_head := (?h + 1) mod ?n\<rparr>"
    using assms(2) mod_succ_wrap[of ?h ?n] wf by (simp add: remq_def Let_def)
  have "((?h + 1) mod ?n + (q_count q - 1)) mod ?n = (?h + q_count q) mod ?n"
    by (simp add: mod_add_left_eq)
  then have "wf_queue ?q'"
    unfolding q' wf_queue_def using wf assms(2) by auto
  moreover have up: "[0..q_count q - 1] = 0 # [1..q_count q - 1]"
    using wf assms(2) upto_rec1[of 0 "q_count q - 1"] by simp
  have at: "queue_at ?q' = (\<lambda>k. queue_at q (k + 1))"
    by (rule ext) (simp add: queue_at_def q' mod_simps algebra_simps)
  have sh: "map (\<lambda>k. queue_at q (k + 1)) [0..q_count q - 2] = map (queue_at q) [1..q_count q - 1]"
    by (rule nth_equalityI) (auto simp: nth_upto algebra_simps)
  have "queue_list ?q' = tl (queue_list q)"
    unfolding queue_list_def up using sh by (simp add: q' at[unfolded q'] )
  moreover have "snd (remq q) = Some (hd (queue_list q))"
    using assms wf by (simp add: remq_def Let_def queue_list_def up queue_at_def)
  ultimately show ?thesis by (simp add: q')
qed

text \<open>
  \<open>uninsq\<close> takes the most recently added character back, except when the tail pointer stands
  one past the base: see \<open>uninsq_at_base\<close>.
\<close>

lemma uninsq_last:
  assumes "wf_queue q" and "q_count q \<noteq> 0" and "q_tail q \<noteq> 1"
  shows "snd (uninsq q) = Some (last (queue_list q)) \<and> wf_queue (fst (uninsq q)) \<and>
    queue_list (fst (uninsq q)) = butlast (queue_list q)"
proof -
  let ?n = "q_size q" and ?q' = "fst (uninsq q)"
  note wf = assms(1)[unfolded wf_queue_def]
  define t' where "t' = (if q_tail q - 1 \<le> 0 then ?n - 1 else q_tail q - 1)"
  have tl: "0 \<le> q_tail q" "q_tail q < ?n" using wf by auto
  have "t' = (q_tail q - 1) mod ?n"
  proof (cases "q_tail q = 0")
    case True
    have "(- 1) mod ?n = ?n - 1" using wf by (simp add: zmod_minus1)
    then show ?thesis using True by (simp add: t'_def)
  next
    case False
    then show ?thesis using tl assms(3) by (simp add: t'_def)
  qed
  also have "\<dots> = (q_head q + (q_count q - 1)) mod ?n"
    using wf by (simp add: mod_diff_left_eq algebra_simps)
  finally have t': "t' = (q_head q + (q_count q - 1)) mod ?n" .
  have u: "uninsq q = (q\<lparr>q_count := q_count q - 1, q_tail := t'\<rparr>, Some (q_base q ! nat t'))"
    using assms(2) by (simp add: uninsq_def Let_def t'_def)
  have up: "[0..q_count q - 1] = [0..q_count q - 2] @ [q_count q - 1]"
    using wf assms(2) upto_rec2[of 0 "q_count q - 1"] by simp
  have "queue_at ?q' k = queue_at q k" for k
    by (simp add: queue_at_def u)
  then have "queue_list ?q' = butlast (queue_list q)"
    by (simp add: queue_list_def up u)
  moreover have "snd (uninsq q) = Some (last (queue_list q))"
    by (simp add: queue_list_def up u queue_at_def t')
  moreover have "wf_queue ?q'"
    unfolding wf_queue_def u using wf assms(2) t' by auto
  ultimately show ?thesis by simp
qed

section \<open>The FIFO contract\<close>

datatype 'c queue_op = Ins 'c | Rem

text \<open>
  What a client of a bounded queue may rely on: an insertion into a queue with room appends,
  an insertion into a full queue is refused and changes nothing, a removal takes the oldest.
\<close>

locale bounded_fifo =
  fixes ins :: "'q \<Rightarrow> 'c \<Rightarrow> 'q \<times> bool"
    and rem :: "'q \<Rightarrow> 'q \<times> 'c option"
    and abs :: "'q \<Rightarrow> 'c list"
    and cap :: "'q \<Rightarrow> nat"
    and inv :: "'q \<Rightarrow> bool"
  assumes ins_room: "inv q \<Longrightarrow> length (abs q) < cap q \<Longrightarrow>
      snd (ins q c) \<and> inv (fst (ins q c)) \<and> abs (fst (ins q c)) = abs q @ [c] \<and>
      cap (fst (ins q c)) = cap q"
    and ins_no_room: "inv q \<Longrightarrow> \<not> length (abs q) < cap q \<Longrightarrow> ins q c = (q, False)"
    and rem_some: "inv q \<Longrightarrow> abs q \<noteq> [] \<Longrightarrow>
      snd (rem q) = Some (hd (abs q)) \<and> inv (fst (rem q)) \<and> abs (fst (rem q)) = tl (abs q) \<and>
      cap (fst (rem q)) = cap q"
    and rem_none: "inv q \<Longrightarrow> abs q = [] \<Longrightarrow> rem q = (q, None)"
begin

text \<open>A run of insertions and removals: the characters accepted and the characters taken.\<close>

fun run_ops :: "'q \<Rightarrow> 'c queue_op list \<Rightarrow> 'q \<times> 'c list \<times> 'c list" where
  "run_ops q [] = (q, [], [])"
| "run_ops q (Ins c # ops) =
     (let (q1, ok) = ins q c; (q2, acc, out) = run_ops q1 ops
      in (q2, (if ok then c # acc else acc), out))"
| "run_ops q (Rem # ops) =
     (let (q1, r) = rem q; (q2, acc, out) = run_ops q1 ops
      in (q2, acc, (case r of None \<Rightarrow> out | Some c \<Rightarrow> c # out)))"

lemma ins_cases:
  assumes "inv q"
  shows "inv (fst (ins q c)) \<and>
    abs (fst (ins q c)) = abs q @ (if snd (ins q c) then [c] else []) \<and>
    (snd (ins q c) \<longleftrightarrow> length (abs q) < cap q) \<and> cap (fst (ins q c)) = cap q"
  using assms ins_room[OF assms, of c] ins_no_room[OF assms, of c]
  by (cases "length (abs q) < cap q") auto

lemma run_ops_fifo:
  "inv q \<Longrightarrow> run_ops q ops = (q', acc, out) \<Longrightarrow>
     inv q' \<and> abs q @ acc = out @ abs q' \<and> cap q' = cap q"
proof (induction q ops arbitrary: q' acc out rule: run_ops.induct)
  case (1 q)
  then show ?case by simp
next
  case (2 q c ops)
  obtain q1 ok where i: "ins q c = (q1, ok)" by fastforce
  obtain q2 acc' out' where r: "run_ops q1 ops = (q2, acc', out')"
    by (metis prod_cases3)
  have s: "inv q1 \<and> abs q1 = abs q @ (if ok then [c] else []) \<and> cap q1 = cap q"
    using ins_cases[OF "2.prems"(1), of c] i by simp
  have "inv q2 \<and> abs q1 @ acc' = out' @ abs q2 \<and> cap q2 = cap q1"
    using "2.IH"[OF i[symmetric] refl] s r by blast
  with s show ?case using "2.prems"(2) i r by (auto split: if_splits)
next
  case (3 q ops)
  obtain q1 rr where i: "rem q = (q1, rr)" by fastforce
  obtain q2 acc' out' where r: "run_ops q1 ops = (q2, acc', out')"
    by (metis prod_cases3)
  have s: "inv q1 \<and> abs q = (case rr of None \<Rightarrow> [] | Some c \<Rightarrow> [c]) @ abs q1 \<and> cap q1 = cap q"
    using rem_some[OF "3.prems"(1)] rem_none[OF "3.prems"(1)] i
    using "3.prems"(1) by (cases "abs q = []") (auto simp: neq_Nil_conv)
  have "inv q2 \<and> abs q1 @ acc' = out' @ abs q2 \<and> cap q2 = cap q1"
    using "3.IH"[OF i[symmetric] refl] s r by blast
  with s show ?case using "3.prems"(2) i r by (auto split: option.splits)
qed

end

interpretation cq: bounded_fifo insq remq queue_list "\<lambda>q. nat (q_size q)" wf_queue
proof unfold_locales
  fix q c
  assume q: "wf_queue q"
  have len: "int (length (queue_list q)) = q_count q" using q by (rule length_queue_list)
  {
    assume "length (queue_list q) < nat (q_size q)"
    then have "q_count q < q_size q" using len by linarith
    then show "snd (insq q c) \<and> wf_queue (fst (insq q c)) \<and>
        queue_list (fst (insq q c)) = queue_list q @ [c] \<and>
        nat (q_size (fst (insq q c))) = nat (q_size q)"
      using insq_not_full[OF q, of c] by simp
  next
    assume "\<not> length (queue_list q) < nat (q_size q)"
    then have "q_count q = q_size q" using len q unfolding wf_queue_def by linarith
    then show "insq q c = (q, False)" by (rule insq_full)
  }
next
  fix q
  assume q: "wf_queue q"
  have len: "int (length (queue_list q)) = q_count q" using q by (rule length_queue_list)
  {
    assume "queue_list q \<noteq> []"
    then have "q_count q \<noteq> 0" using len by force
    then show "snd (remq q) = Some (hd (queue_list q)) \<and> wf_queue (fst (remq q)) \<and>
        queue_list (fst (remq q)) = tl (queue_list q) \<and>
        nat (q_size (fst (remq q))) = nat (q_size q)"
      using remq_nonempty[OF q] by simp
  next
    assume "queue_list q = []"
    then have "q_count q = 0" using len by simp
    then show "remq q = (q, None)" by (rule remq_empty)
  }
qed

section \<open>Properties\<close>

text \<open>
  C30: over any sequence of insertions and removals on a well-formed queue, the characters
  removed, followed by those still queued, are the characters queued at the start followed by
  the accepted insertions, in order: nothing is lost, duplicated or reordered.
\<close>

theorem queue_fifo:
  assumes "wf_queue q" and "cq.run_ops q ops = (q', acc, out)"
  shows "wf_queue q' \<and> queue_list q @ acc = out @ queue_list q' \<and> q_size q' = q_size q"
  using cq.run_ops_fifo[OF assms] assms(1) unfolding wf_queue_def by auto

theorem queue_fifo_witness:
  "snd (cq.run_ops ttyinq_init [Ins 97, Ins 98, Rem, Ins 99, Rem]) = ([97, 98, 99], [97, 98]) \<and>
   queue_list (fst (cq.run_ops ttyinq_init [Ins 97, Ins 98, Rem, Ins 99, Rem])) = [99]"
proof -
  let ?r = "cq.run_ops ttyinq_init [Ins 97, Ins 98, Rem, Ins 99, Rem]"
  have run: "snd ?r = ([97, 98, 99], [97, 98])"
    by (simp add: ttyinq_init_def TTYSIZ_def insq_def remq_def Let_def nth_list_update)
  moreover have "?r = (fst ?r, fst (snd ?r), snd (snd ?r))" by simp
  from queue_fifo[OF wf_ttyinq_init this] run
  have "queue_list ttyinq_init @ [97, 98, 99] = [97, 98] @ queue_list (fst ?r)" by simp
  ultimately show ?thesis by (simp add: ttyinq_init_def queue_list_def)
qed

text \<open>
  erasing the only character of a fresh terminal queue does not give it back: for every
  character, \<open>uninsq\<close> after \<open>insq\<close> on the empty queue returns the byte at the far end of the
  ring and leaves a tail pointer that no longer agrees with head and count.
\<close>

theorem uninsq_at_base:
  "uninsq (fst (insq ttyinq_init c)) =
     ((fst (insq ttyinq_init c))\<lparr>q_count := 0, q_tail := 131\<rparr>, Some 0) \<and>
   \<not> wf_queue (fst (uninsq (fst (insq ttyinq_init c))))"
  by (simp add: ttyinq_init_def TTYSIZ_def insq_def uninsq_def Let_def wf_queue_def nth_list_update)

end
