(* ===== verification/Str_Lib.thy ===== *)
theory Str_Lib
  imports Prelude
begin

text \<open>
  The library of \<open>lib/string.c\<close>. \<open>bzero\<close>, \<open>bcopy\<close> and \<open>strlen\<close> work on the 16-bit
  address space; \<open>reverse\<close> and \<open>itob\<close> on the characters of the string they are given
  (\<open>itob\<close> stores its digits from the start of \<open>s\<close>, so the string it leaves is a list).
\<close>

type_synonym memory = "u16 \<Rightarrow> byte"

section \<open>bzero, bcopy, strlen\<close>

primrec bzero_loop :: "u16 \<Rightarrow> nat \<Rightarrow> memory \<Rightarrow> memory" where
  "bzero_loop p 0 m = m"
| "bzero_loop p (Suc n) m = bzero_loop (p + 1) n (m(p := 0))"

definition bzero :: "u16 \<Rightarrow> u16 \<Rightarrow> memory \<Rightarrow> memory" where
  "bzero p s m = bzero_loop p (unat s) m"

text \<open>The copy goes upwards one byte at a time, so an overlapping copy reads what it wrote.\<close>

primrec bcopy_loop :: "u16 \<Rightarrow> u16 \<Rightarrow> nat \<Rightarrow> memory \<Rightarrow> memory" where
  "bcopy_loop src dest 0 m = m"
| "bcopy_loop src dest (Suc n) m = bcopy_loop (src + 1) (dest + 1) n (m(dest := m src))"

definition bcopy :: "u16 \<Rightarrow> u16 \<Rightarrow> u16 \<Rightarrow> memory \<Rightarrow> memory" where
  "bcopy src dest n m = bcopy_loop src dest (unat n) m"

text \<open>
  \<open>strlen\<close> stops at the first NUL; an address space without one is walked for ever
  (\<open>None\<close>): after 65536 steps the pointer is back where it started. \<open>curlen\<close> is an \<open>int\<close>,
  which wraps at 16 bits.
\<close>

primrec strlen_loop :: "nat \<Rightarrow> memory \<Rightarrow> u16 \<Rightarrow> u16 \<Rightarrow> int option" where
  "strlen_loop 0 m curpos curlen = None"
| "strlen_loop (Suc fuel) m curpos curlen =
     (if m curpos = 0 then Some (sint curlen) else strlen_loop fuel m (curpos + 1) (curlen + 1))"

definition strlen :: "memory \<Rightarrow> u16 \<Rightarrow> int option" where
  "strlen m s = (if s = 0 then Some 0 else strlen_loop 65536 m s 0)"

section \<open>reverse and itob\<close>

text \<open>The loop of \<open>reverse\<close>: \<open>i\<close> counts up from 0, \<open>j\<close> down from \<open>len - 1\<close>.\<close>

primrec reverse_loop :: "nat \<Rightarrow> nat \<Rightarrow> nat \<Rightarrow> 'a list \<Rightarrow> 'a list" where
  "reverse_loop 0 i j s = s"
| "reverse_loop (Suc k) i j s =
     (let temp = s ! i; s1 = s[i := s ! j]; s2 = s1[j := temp]
      in reverse_loop k (Suc i) (j - 1) s2)"

definition reverse :: "'a list \<Rightarrow> 'a list" where
  "reverse s = (let len = length s in reverse_loop (len div 2) 0 (len - 1) s)"

definition digit_char :: "nat \<Rightarrow> byte" where
  "digit_char d = (if d > 9 then of_nat (d - 10) + 97 else of_nat d + 48)"

text \<open>The \<open>do ... while (cur_n > 0)\<close> loop; \<open>base\<close> is at least 2 in every call.\<close>

function itob_loop :: "nat \<Rightarrow> nat \<Rightarrow> byte list" where
  "itob_loop base cur_n =
     digit_char (cur_n mod base) #
       (if base < 2 \<or> cur_n div base = 0 then [] else itob_loop base (cur_n div base))"
  by pat_completeness auto
termination
  by (relation "measure (\<lambda>(base, cur_n). cur_n)") (auto simp: div_eq_0_iff not_less)

declare itob_loop.simps [simp del]

definition itob :: "u16 \<Rightarrow> int \<Rightarrow> byte list" where
  "itob n b =
     (let base = nat (if b < 0 then - b else b);
          cur_n = unat (if sint n < 0 \<and> base = 10 then - n else n);
          s = itob_loop base cur_n;
          s' = (if b < 0 \<and> sint n < 0 then s @ [45] else s)
      in reverse s')"

section \<open>Lemmas\<close>

lemma bzero_loop_outside:
  "(\<And>k. k < n \<Longrightarrow> p + of_nat k \<noteq> a) \<Longrightarrow> bzero_loop p n m a = m a"
proof (induction n arbitrary: p m)
  case 0
  then show ?case by simp
next
  case (Suc n)
  have "p \<noteq> a" using Suc.prems[of 0] by simp
  moreover have "p + 1 + of_nat k \<noteq> a" if "k < n" for k
    using Suc.prems[of "Suc k"] that by (simp add: algebra_simps)
  ultimately have "bzero_loop (p + 1) n (m(p := 0)) a = (m(p := 0)) a"
    by (intro Suc.IH) simp
  then show ?case using \<open>p \<noteq> a\<close> by simp
qed

lemma offset_inj: "i < 65536 \<Longrightarrow> j < 65536 \<Longrightarrow> (p :: u16) + of_nat i = p + of_nat j \<Longrightarrow> i = j"
proof -
  assume a: "i < 65536" "j < 65536" "p + of_nat i = p + of_nat j"
  then have "(of_nat i :: u16) = of_nat j" by simp
  then have "unat (of_nat i :: u16) = unat (of_nat j :: u16)" by simp
  then show "i = j" using a(1,2) by (simp add: unat_of_nat take_bit_nat_eq_self)
qed

lemma bcopy_loop_spec:
  assumes "n \<le> 65536"
    and "\<And>i j. i < n \<Longrightarrow> j < n \<Longrightarrow> i < j \<Longrightarrow> dest + of_nat i \<noteq> src + of_nat j"
  shows "(\<forall>k<n. bcopy_loop src dest n m (dest + of_nat k) = m (src + of_nat k)) \<and>
    (\<forall>a. (\<forall>k<n. a \<noteq> dest + of_nat k) \<longrightarrow> bcopy_loop src dest n m a = m a)"
  using assms
proof (induction n arbitrary: src dest m)
  case 0
  then show ?case by simp
next
  case (Suc n)
  let ?m = "m(dest := m src)"
  have apart: "dest + 1 + of_nat i \<noteq> src + 1 + of_nat j" if "i < n" "j < n" "i < j" for i j
    using Suc.prems(2)[of "Suc i" "Suc j"] that by (simp add: algebra_simps)
  have ih: "(\<forall>k<n. bcopy_loop (src + 1) (dest + 1) n ?m (dest + 1 + of_nat k) = ?m (src + 1 + of_nat k)) \<and>
    (\<forall>a. (\<forall>k<n. a \<noteq> dest + 1 + of_nat k) \<longrightarrow> bcopy_loop (src + 1) (dest + 1) n ?m a = ?m a)"
    by (rule Suc.IH) (use Suc.prems(1) apart in auto)
  have first: "dest \<noteq> dest + 1 + of_nat k" if "k < n" for k
    using offset_inj[of 0 "Suc k" dest] Suc.prems(1) that by (auto simp: algebra_simps)
  have nxt: "src + 1 + of_nat k \<noteq> dest" if "k < n" for k
    using Suc.prems(2)[of 0 "Suc k"] that by (auto simp: algebra_simps)
  show ?case
  proof (intro conjI allI impI)
    fix k assume k: "k < Suc n"
    show "bcopy_loop src dest (Suc n) m (dest + of_nat k) = m (src + of_nat k)"
    proof (cases k)
      case 0
      then show ?thesis using ih first by simp
    next
      case (Suc k')
      then have "k' < n" using k by simp
      then show ?thesis using ih nxt Suc by (simp add: algebra_simps)
    qed
  next
    fix a assume a: "\<forall>k<Suc n. a \<noteq> dest + of_nat k"
    have "a \<noteq> dest + 1 + of_nat k" if "k < n" for k
      using a[rule_format, of "Suc k"] that by (simp add: algebra_simps)
    moreover have "a \<noteq> dest" using a[rule_format, of 0] by simp
    ultimately show "bcopy_loop src dest (Suc n) m a = m a" using ih by simp
  qed
qed

lemma strlen_loop_at:
  "n < fuel \<Longrightarrow> m (p + of_nat n) = 0 \<Longrightarrow> (\<And>k. k < n \<Longrightarrow> m (p + of_nat k) \<noteq> 0) \<Longrightarrow>
   strlen_loop fuel m p c = Some (sint (c + of_nat n))"
proof (induction fuel arbitrary: n p c)
  case 0
  then show ?case by simp
next
  case (Suc fuel)
  show ?case
  proof (cases n)
    case 0
    then show ?thesis using Suc.prems(2) by simp
  next
    case (Suc n')
    have "m p \<noteq> 0" using Suc.prems(3)[of 0] Suc by simp
    moreover have "strlen_loop fuel m (p + 1) (c + 1) = Some (sint (c + 1 + of_nat n'))"
    proof (rule Suc.IH)
      show "n' < fuel" using Suc.prems(1) Suc by simp
      show "m (p + 1 + of_nat n') = 0" using Suc.prems(2) Suc by (simp add: algebra_simps)
      show "m (p + 1 + of_nat k) \<noteq> 0" if "k < n'" for k
        using Suc.prems(3)[of "Suc k"] that Suc by (simp add: algebra_simps)
    qed
    ultimately show ?thesis using Suc by (simp add: algebra_simps)
  qed
qed

lemma strlen_loop_none:
  "(\<And>k. k < fuel \<Longrightarrow> m (p + of_nat k) \<noteq> 0) \<Longrightarrow> strlen_loop fuel m p c = None"
proof (induction fuel arbitrary: p c)
  case 0
  then show ?case by simp
next
  case (Suc fuel)
  have "m p \<noteq> 0" using Suc.prems[of 0] by simp
  moreover have "strlen_loop fuel m (p + 1) (c + 1) = None"
  proof (rule Suc.IH)
    show "m (p + 1 + of_nat k) \<noteq> 0" if "k < fuel" for k
      using Suc.prems[of "Suc k"] that by (simp add: algebra_simps)
  qed
  ultimately show ?case by simp
qed

lemma reverse_loop_middle:
  "length m div 2 = k \<Longrightarrow> length p = i \<Longrightarrow> length q = i \<Longrightarrow>
   reverse_loop k i (i + length m - 1) (p @ m @ q) = p @ rev m @ q"
proof (induction k arbitrary: i m p q)
  case 0
  then have "length m < 2" by linarith
  then have "m = [] \<or> (\<exists>x. m = [x])" by (cases m; cases "tl m") auto
  then show ?case by auto
next
  case (Suc k)
  then have "2 \<le> length m" by linarith
  then obtain x m1 where m1: "m = x # m1" "m1 \<noteq> []" by (cases m; cases "tl m") auto
  then obtain y m' where m: "m = x # m' @ [y]" by (metis append_butlast_last_id)
  let ?s = "p @ m @ q" and ?j = "i + length m - 1"
  have j: "?j = length p + Suc (length m')" using m Suc.prems by simp
  have ats: "?s ! i = x" "?s ! ?j = y"
    unfolding j using m Suc.prems by (simp_all add: nth_append)
  have "?s[i := y] = p @ (y # m' @ [y]) @ q"
    using m Suc.prems(2) by (simp add: list_update_append)
  then have upd: "?s[i := y, ?j := x] = (p @ [y]) @ m' @ (x # q)"
    unfolding j by (simp add: list_update_append)
  have "reverse_loop (Suc k) i ?j ?s = reverse_loop k (Suc i) (?j - 1) ((p @ [y]) @ m' @ (x # q))"
    using ats upd by (simp add: Let_def)
  also have "?j - 1 = Suc i + length m' - 1" using m by simp
  also have "reverse_loop k (Suc i) (Suc i + length m' - 1) ((p @ [y]) @ m' @ (x # q))
      = (p @ [y]) @ rev m' @ (x # q)"
    using m Suc.prems by (intro Suc.IH) auto
  finally show ?case using m by simp
qed

lemma reverse_rev: "reverse s = rev s"
  using reverse_loop_middle[of s "length s div 2" "[]" 0 "[]"] by (simp add: reverse_def Let_def)

text \<open>Reading a numeral back: the value of a digit and of a string of digits.\<close>

definition char_digit :: "byte \<Rightarrow> nat" where
  "char_digit c = (if c \<ge> 97 then unat (c - 97) + 10 else unat (c - 48))"

definition numeral_value :: "nat \<Rightarrow> byte list \<Rightarrow> nat" where
  "numeral_value base s = foldl (\<lambda>v c. v * base + char_digit c) 0 s"

lemma char_digit_digit_char: "d < 36 \<Longrightarrow> char_digit (digit_char d) = d"
proof -
  assume d: "d < 36"
  have "\<forall>d\<in>set [0..<36]. char_digit (digit_char d) = d"
    by code_simp
  with d show ?thesis by simp
qed

lemma numeral_value_snoc: "numeral_value base (s @ [c]) = numeral_value base s * base + char_digit c"
  by (simp add: numeral_value_def)

lemma itob_loop_value:
  "2 \<le> base \<Longrightarrow> base \<le> 16 \<Longrightarrow> numeral_value base (rev (itob_loop base n)) = n"
proof (induction base n rule: itob_loop.induct)
  case (1 base n)
  have d: "char_digit (digit_char (n mod base)) = n mod base"
  proof (rule char_digit_digit_char)
    have "n mod base < base" using 1(2) by simp
    then show "n mod base < 36" using 1(3) by linarith
  qed
  show ?case
  proof (cases "n div base = 0")
    case True
    then have "n mod base = n" using 1(2) by (auto simp: div_eq_0_iff)
    then show ?thesis using True d by (subst itob_loop.simps) (simp add: numeral_value_def)
  next
    case False
    then have "numeral_value base (rev (itob_loop base (n div base))) = n div base"
      using 1 by simp
    then show ?thesis using False 1(2) d
      by (subst itob_loop.simps) (simp add: numeral_value_snoc)
  qed
qed

lemma itob_loop_length:
  "2 \<le> base \<Longrightarrow> n < base ^ Suc k \<Longrightarrow> length (itob_loop base n) \<le> Suc k"
proof (induction k arbitrary: n)
  case 0
  then show ?case by (subst itob_loop.simps) simp
next
  case (Suc k)
  have "n div base < base ^ Suc k"
    using Suc.prems by (simp add: div_less_iff_less_mult mult.commute)
  then have "length (itob_loop base (n div base)) \<le> Suc k"
    using Suc by blast
  then show ?case by (subst itob_loop.simps) simp
qed

lemma itob_unsigned:
  assumes "b = 2 \<or> b = 8 \<or> b = 16"
  shows "numeral_value (nat b) (itob n b) = unat n \<and> length (itob n b) \<le> 16"
proof -
  have n: "unat n < 2 ^ Suc 15" using u16_lt[of n] by simp
  have i: "itob n b = rev (itob_loop (nat b) (unat n))"
    using assms by (auto simp: itob_def reverse_rev Let_def)
  have "length (itob_loop (nat b) (unat n)) \<le> Suc 15"
  proof (rule itob_loop_length)
    show "2 \<le> nat b" using assms by auto
    then have "(2 :: nat) ^ Suc 15 \<le> nat b ^ Suc 15" by (rule power_mono) simp
    with n show "unat n < nat b ^ Suc 15" by linarith
  qed
  then show ?thesis
    using assms itob_loop_value[of "nat b" "unat n"] by (auto simp: i)
qed

section \<open>Properties\<close>

text \<open>
  \<open>bcopy\<close> moves \<open>n\<close> bytes and nothing else: when no destination byte is written before
  the copy reads it as a source byte (in particular when the areas do not overlap, or the
  destination is below the source), byte \<open>k\<close> of the destination becomes byte \<open>k\<close> of the
  source, and memory outside the destination is unchanged.
\<close>

theorem bcopy_moves:
  assumes "\<And>i j. i < j \<Longrightarrow> j < unat n \<Longrightarrow> dest + of_nat i \<noteq> src + of_nat j"
  shows "(\<forall>k<unat n. bcopy src dest n m (dest + of_nat k) = m (src + of_nat k)) \<and>
    (\<forall>a. (\<forall>k<unat n. a \<noteq> dest + of_nat k) \<longrightarrow> bcopy src dest n m a = m a)"
  unfolding bcopy_def
proof (rule bcopy_loop_spec)
  show "unat n \<le> 65536" using u16_lt[of n] by linarith
qed (use assms in blast)

theorem bcopy_moves_witness:
  "bcopy 10 20 3 ((\<lambda>_. 0)(11 := 7)) 21 = 7 \<and> bcopy 10 20 3 ((\<lambda>_. 0)(11 := 7)) 23 = 0"
proof -
  have "(20 :: u16) + of_nat i \<noteq> 10 + of_nat j" if "i < j" "j < unat (3 :: u16)" for i j
  proof -
    have "j = 1 \<or> j = 2" "i = 0 \<or> i = 1" using that by auto
    then show ?thesis by auto
  qed
  from bcopy_moves[of 3 20 10 "(\<lambda>_. 0)(11 := 7)", OF this] have
    m: "\<And>k. k < 3 \<Longrightarrow> bcopy 10 20 3 ((\<lambda>_. 0)(11 := 7)) (20 + of_nat k) = ((\<lambda>_. 0)(11 := 7)) (10 + of_nat k :: u16)"
    and o: "\<And>a. (\<forall>k<3. a \<noteq> 20 + of_nat k) \<Longrightarrow> bcopy 10 20 3 ((\<lambda>_. 0)(11 := 7)) a = ((\<lambda>_. 0)(11 := 7)) (a :: u16)"
    by (simp_all del: fun_upd_apply)
  have "(23 :: u16) \<noteq> 20 + of_nat k" if "k < 3" for k :: nat
  proof -
    have "k = 0 \<or> k = 1 \<or> k = 2" using that by auto
    then show ?thesis by auto
  qed
  then show ?thesis using m[of 1] o[of 23] by simp
qed

text \<open>
  \<open>strlen\<close> returns exactly when there is a NUL to be found, and then the distance to the
  first one, as a 16-bit \<open>int\<close>: for a string shorter than 32768 characters, its length.
\<close>

theorem strlen_first_nul:
  assumes "s \<noteq> 0"
  shows "strlen m s = (if \<exists>a. m a = 0 then Some (sint (of_nat (LEAST n. m (s + of_nat n) = 0) :: u16)) else None)"
proof (cases "\<exists>a. m a = 0")
  case True
  then obtain a where a: "m a = 0" by blast
  let ?n = "LEAST n. m (s + of_nat n) = 0"
  have ex: "m (s + of_nat (unat (a - s))) = 0" using a by simp
  then have "?n \<le> unat (a - s)" by (rule Least_le)
  then have "?n < 65536" using u16_lt[of "a - s"] by linarith
  moreover have "m (s + of_nat ?n) = 0" using ex by (rule LeastI)
  moreover have "m (s + of_nat k) \<noteq> 0" if "k < ?n" for k
    using not_less_Least[OF that] .
  ultimately have "strlen_loop 65536 m s 0 = Some (sint (0 + of_nat ?n :: u16))"
    by (rule strlen_loop_at)
  then show ?thesis using assms True by (simp add: strlen_def del: strlen_loop.simps)
next
  case False
  then have "strlen_loop 65536 m s 0 = None" by (intro strlen_loop_none) blast
  then show ?thesis using assms False by (simp add: strlen_def del: strlen_loop.simps)
qed

theorem strlen_first_nul_witness:
  "strlen (\<lambda>a. if a = 0x102 then 0 else 65) 0x100 = Some 2"
proof -
  let ?m = "\<lambda>a :: u16. if a = 0x102 then 0 else (65 :: byte)"
  have l: "(LEAST n. ?m (0x100 + of_nat n) = 0) = 2"
  proof (rule Least_equality)
    fix n assume "?m (0x100 + of_nat n) = 0"
    then have "(0x100 :: u16) + of_nat n = 0x102" by (simp split: if_splits)
    then have n: "(of_nat n :: u16) = 2" by (simp add: algebra_simps)
    show "2 \<le> n"
    proof (rule ccontr)
      assume "\<not> 2 \<le> n"
      then have "n = 0 \<or> n = 1" by auto
      with n show False by auto
    qed
  qed simp
  have "strlen ?m 0x100 = Some (sint (of_nat (LEAST n. ?m (0x100 + of_nat n) = 0) :: u16))"
    using strlen_first_nul[of "0x100" ?m] by auto
  then show ?thesis unfolding l by simp
qed

text \<open>
  what \<open>itob\<close> prints reads back as the number: in bases 2, 8 and 16 the digits denote the
  unsigned value; in base -10 they denote the magnitude of the signed value, with a minus sign
  exactly for negative numbers; and no output overruns the 20 bytes \<open>vsprintf\<close> sets aside.
\<close>

theorem itob_roundtrip:
  "numeral_value 2 (itob n 2) = unat n \<and> numeral_value 8 (itob n 8) = unat n \<and>
   numeral_value 16 (itob n 16) = unat n \<and>
   (\<exists>ds. itob n (-10) = (if sint n < 0 then [45] else []) @ ds \<and>
      numeral_value 10 ds = nat \<bar>sint n\<bar>) \<and>
   list_all (\<lambda>b. length (itob n b) < 20) [2, 8, 10, 16, -10]"
proof -
  let ?m = "if sint n < 0 then - n else n"
  let ?ds = "rev (itob_loop 10 (unat ?m))"
  have m16: "unat ?m < 10 ^ Suc 15"
  proof -
    have "(65536 :: nat) \<le> 10 ^ Suc 15" by simp
    with u16_lt[of ?m] show ?thesis by linarith
  qed
  have abs: "unat ?m = nat \<bar>sint n\<bar>"
    by (rule unat_abs_u16)
  have d: "itob n (-10) = (if sint n < 0 then [45] else []) @ ?ds"
    by (simp add: itob_def reverse_rev Let_def)
  have v: "numeral_value 10 ?ds = nat \<bar>sint n\<bar>"
    using itob_loop_value[of 10 "unat ?m"] abs by simp
  have l: "length ?ds \<le> 16" using itob_loop_length[OF _ m16] by simp
  have u: "length (itob n 10) \<le> 16"
    using itob_loop_length[OF _ m16] by (simp add: itob_def reverse_rev Let_def)
  show ?thesis
    using d v l u itob_unsigned[of 2 n] itob_unsigned[of 8 n] itob_unsigned[of 16 n] by auto
qed

text \<open>
  The unsigned conversion \<open>%u\<close> (base 10) of a number of 32768 or more prints the
  magnitude of its two's complement instead of the number: 65535 is printed as 1.
\<close>

lemma itob_unsigned_decimal_wrong:
  "itob 65535 10 = [49] \<and> numeral_value 10 (itob n 10) = (if sint n < 0 then 65536 - unat n else unat n)"
proof -
  have "itob 65535 10 = [49]"
    by (simp add: itob_def reverse_rev itob_loop.simps digit_char_def)
  moreover have "unat (- n) = 65536 - unat n" if "sint n < 0"
    using that by (auto simp: unat_neg_u16)
  ultimately show ?thesis
    using itob_loop_value[of 10 "unat (if sint n < 0 then - n else n)"]
    by (simp add: itob_def reverse_rev Let_def)
qed

end
