(* ===== verification/Ppu_Disk.thy ===== *)
theory Ppu_Disk
  imports Kernel_State
begin

text \<open>
  The block driver \<open>drivers/devppuwd.c\<close>: a block is moved between a buffer and character RAM
  in chunks, each by one descriptor that the vertical-blank handler carries out
  (\<open>process_ppubuf\<close> in \<open>ppu/ppu_databuf.S\<close>). What the handler does with a read or write
  descriptor: it writes the upper bank bits to \<open>MMC5_CHR_UPPER\<close>, the first data byte to the
  low bank register, and moves \<open>size\<close> bytes at the target address, PPU address 0x1000 being
  the start of the selected 4K bank. The handler masks the option byte with
  \<open>PPUBUF_RW_DESC_MASK\<close> (6) before it shifts it right by four, so the upper bits it writes
  are always 0; and the driver puts its two upper bits, unshifted, where the descriptor keeps
  its NULL and READ flags.
\<close>

section \<open>The driver\<close>

definition blk_bank :: "u16 \<Rightarrow> nat" where
  "blk_bank blkno = unat blkno div 8"

definition blk_base_addr :: "u16 \<Rightarrow> nat" where
  "blk_base_addr blkno = 0x1000 + (unat blkno mod 8) * 512"

definition bank_lower_byte :: "nat \<Rightarrow> nat" where
  "bank_lower_byte bank = bank mod 256"

definition bank_upper_bits :: "nat \<Rightarrow> nat" where
  "bank_upper_bits bank = (bank div 256) mod 4"

text \<open>\<open>blk\<close> is not used: the bank comes from the buffer's own block number.\<close>

definition populate_bank_desc :: "u16 \<Rightarrow> nat \<Rightarrow> kst \<Rightarrow> nat \<times> nat" where
  "populate_bank_desc blk bp s =
     (let bank = blk_bank (bf_blk (bufpool s ! bp)) in (bank_lower_byte bank, bank_upper_bits bank))"

text \<open>The bank the handler selects, from the option byte and the low bank byte.\<close>

definition nmi_bank :: "nat \<Rightarrow> nat \<Rightarrow> nat" where
  "nmi_bank flags lower = (if flags div 2 mod 4 \<noteq> 0 then ((flags mod 8) div 2 * 2) div 16 * 256 + lower else 0)"

definition READ_CHUNK_SIZE :: nat where "READ_CHUNK_SIZE = 64"
definition WRITE_CHUNK_SIZE :: nat where "WRITE_CHUNK_SIZE = 32"
definition PPU_DESC_FLAG_READ :: nat where "PPU_DESC_FLAG_READ = 2"
definition PPU_DESC_FLAG_WRITE :: nat where "PPU_DESC_FLAG_WRITE = 4"

text \<open>
  One pass of the read loop: the handler fills \<open>ppu_readbuf\<close>, which is copied to the buffer.
\<close>

definition read_pass :: "nat \<Rightarrow> nat \<Rightarrow> nat \<Rightarrow> nat \<Rightarrow> kst \<Rightarrow> kst" where
  "read_pass bp bank base pass s =
     (let target = base + pass * READ_CHUNK_SIZE;
          readbuf = (\<lambda>k. chr_ram s bank (target - 0x1000 + k));
          b = bufpool s ! bp;
          lo = READ_CHUNK_SIZE * pass
      in s\<lparr>bufpool := (bufpool s)[bp := b\<lparr>bf_data :=
           (\<lambda>n. if lo \<le> n \<and> n < lo + READ_CHUNK_SIZE then readbuf (n - lo) else bf_data b n)\<rparr>]\<rparr>)"

definition ppuwd_open :: "int \<Rightarrow> int k" where
  "ppuwd_open minor = retK 0"

definition ppuwd_read :: "int \<Rightarrow> int \<Rightarrow> int k" where
  "ppuwd_read minor rawflag =
     bindK (getK (\<lambda>s. u_buf (udata s))) (\<lambda>ub.
     bindK (derefK ub) (\<lambda>bp.
     bindK (getK (\<lambda>s. bf_blk (bufpool s ! bp) + word_of_int minor)) (\<lambda>blk.
     bindK (getK (populate_bank_desc blk bp)) (\<lambda>(lower, upper).
     thenK (forK [0..<8] (\<lambda>pass. modK
       (read_pass bp (nmi_bank (or upper PPU_DESC_FLAG_READ) lower) (blk_base_addr blk) pass)))
     (retK 0)))))"

text \<open>
  One pass of the write loop. A descriptor whose flags also carry the NULL or READ bit is not
  taken as a write by \<open>__queue_descriptor\<close> (no data are queued) nor by the handler.
\<close>

definition write_pass :: "nat \<Rightarrow> nat \<Rightarrow> nat \<Rightarrow> nat \<Rightarrow> kst \<Rightarrow> kst" where
  "write_pass bp bank base pass s =
     (let target = base + pass * WRITE_CHUNK_SIZE;
          lo = target - 0x1000;
          chunk = (\<lambda>k. bf_data (bufpool s ! bp) (WRITE_CHUNK_SIZE * pass + k))
      in s\<lparr>chr_ram := (chr_ram s)(bank :=
           (\<lambda>a. if lo \<le> a \<and> a < lo + WRITE_CHUNK_SIZE then chunk (a - lo) else chr_ram s bank a))\<rparr>)"

definition ppuwd_write :: "int \<Rightarrow> int \<Rightarrow> int k" where
  "ppuwd_write minor rawflag =
     bindK (getK (\<lambda>s. u_buf (udata s))) (\<lambda>ub.
     bindK (derefK ub) (\<lambda>bp.
     bindK (getK (\<lambda>s. bf_blk (bufpool s ! bp) + word_of_int minor)) (\<lambda>blk.
     bindK (getK (populate_bank_desc blk bp)) (\<lambda>(lower, upper).
     if upper \<noteq> 0 then haltK BadDescriptor
     else
       thenK (forK [0..<16] (\<lambda>pass. modK
         (write_pass bp (nmi_bank (or upper PPU_DESC_FLAG_WRITE) lower) (blk_base_addr blk) pass)))
       (getK (\<lambda>s. no_return (lnk s)))))))"

section \<open>What a transfer does\<close>

lemma nmi_bank_write [simp]: "nmi_bank 4 lower = lower"
  by (simp add: nmi_bank_def)

lemma nmi_bank_read: "u < 4 \<Longrightarrow> nmi_bank (or u 2) lower = lower"
proof -
  assume "u < 4"
  then have "u = 0 \<or> u = 1 \<or> u = 2 \<or> u = 3" by auto
  then show ?thesis by (auto simp: nmi_bank_def)
qed

text \<open>The place of a block in character RAM, as both transfers compute it.\<close>

definition disk_bank :: "u16 \<Rightarrow> nat" where
  "disk_bank blk = bank_lower_byte (blk_bank blk)"

definition disk_off :: "u16 \<Rightarrow> nat" where
  "disk_off blk = (unat blk mod 8) * 512"

lemma fold_read_pass:
  assumes "bp < length (bufpool s)"
  shows "fold (read_pass bp bank (0x1000 + off)) [0..<n] s =
     s\<lparr>bufpool := (bufpool s)[bp := (bufpool s ! bp)\<lparr>bf_data :=
       (\<lambda>k. if k < 64 * n then chr_ram s bank (off + k) else bf_data (bufpool s ! bp) k)\<rparr>]\<rparr>"
proof (induction n)
  case 0
  then show ?case by simp
next
  case (Suc n)
  have chunk: "(\<lambda>k. if 64 * n \<le> k \<and> k < 64 * n + 64
        then chr_ram s bank (0x1000 + off + n * 64 - 0x1000 + (k - 64 * n))
        else if k < 64 * n then chr_ram s bank (off + k) else bf_data (bufpool s ! bp) k)
      = (\<lambda>k. if k < 64 * Suc n then chr_ram s bank (off + k) else bf_data (bufpool s ! bp) k)"
    by (auto simp: fun_eq_iff intro!: arg_cong[of _ _ "chr_ram s bank"])
  have "fold (read_pass bp bank (0x1000 + off)) [0..<Suc n] s =
      read_pass bp bank (0x1000 + off) n (fold (read_pass bp bank (0x1000 + off)) [0..<n] s)"
    by simp
  also have "\<dots> = s\<lparr>bufpool := (bufpool s)[bp := (bufpool s ! bp)\<lparr>bf_data :=
       (\<lambda>k. if k < 64 * Suc n then chr_ram s bank (off + k) else bf_data (bufpool s ! bp) k)\<rparr>]\<rparr>"
    unfolding Suc chunk[symmetric] using assms
    by (simp add: read_pass_def READ_CHUNK_SIZE_def Let_def cong: if_cong)
  finally show ?case .
qed

lemma fold_write_pass:
  "fold (write_pass bp bank (0x1000 + off)) [0..<n] s =
     s\<lparr>chr_ram := (chr_ram s)(bank := (\<lambda>a. if off \<le> a \<and> a < off + 32 * n
       then bf_data (bufpool s ! bp) (a - off) else chr_ram s bank a))\<rparr>"
proof (induction n)
  case 0
  have "(\<lambda>a. if off \<le> a \<and> a < off + 32 * 0 then bf_data (bufpool s ! bp) (a - off)
      else chr_ram s bank a) = chr_ram s bank"
    by (auto simp: fun_eq_iff)
  then show ?case by simp
next
  case (Suc n)
  have chunk: "(\<lambda>a. if 0x1000 + off + n * 32 - 0x1000 \<le> a \<and> a < 0x1000 + off + n * 32 - 0x1000 + 32
        then bf_data (bufpool s ! bp) (32 * n + (a - (0x1000 + off + n * 32 - 0x1000)))
        else if off \<le> a \<and> a < off + 32 * n
          then bf_data (bufpool s ! bp) (a - off) else chr_ram s bank a)
      = (\<lambda>a. if off \<le> a \<and> a < off + 32 * Suc n
          then bf_data (bufpool s ! bp) (a - off) else chr_ram s bank a)"
    by (auto simp: fun_eq_iff intro!: arg_cong[of _ _ "bf_data (bufpool s ! bp)"])
  have "fold (write_pass bp bank (0x1000 + off)) [0..<Suc n] s =
      write_pass bp bank (0x1000 + off) n (fold (write_pass bp bank (0x1000 + off)) [0..<n] s)"
    by simp
  also have "\<dots> = s\<lparr>chr_ram := (chr_ram s)(bank := (\<lambda>a. if off \<le> a \<and> a < off + 32 * Suc n
       then bf_data (bufpool s ! bp) (a - off) else chr_ram s bank a))\<rparr>"
    unfolding Suc chunk[symmetric]
    by (simp add: write_pass_def WRITE_CHUNK_SIZE_def Let_def cong: if_cong)
  finally show ?case .
qed

lemma blk_base_addr_off: "blk_base_addr blk = 0x1000 + disk_off blk"
  by (simp add: blk_base_addr_def disk_off_def)

lemma ppuwd_read_eq:
  assumes "u_buf (udata s) = Some bp" and "bp < length (bufpool s)"
    and "blk = bf_blk (bufpool s ! bp)"
  shows "ppuwd_read minor rawflag s = Ret 0 (s\<lparr>bufpool := (bufpool s)[bp := (bufpool s ! bp)\<lparr>bf_data :=
       (\<lambda>k. if k < 512 then chr_ram s (disk_bank blk) (disk_off (blk + word_of_int minor) + k)
            else bf_data (bufpool s ! bp) k)\<rparr>]\<rparr>)"
proof -
  have u: "bank_upper_bits (blk_bank (bf_blk (bufpool s ! bp))) < 4"
    by (simp add: bank_upper_bits_def)
  show ?thesis
    unfolding ppuwd_read_def assms(3) disk_bank_def blk_base_addr_off
    using assms(1,2)
    by (simp add: run_simps derefK_def populate_bank_desc_def Let_def forK_modK fold_read_pass
        PPU_DESC_FLAG_READ_def nmi_bank_read[OF u])
qed

lemma ppuwd_write_eq:
  assumes "u_buf (udata s) = Some bp" and "blk = bf_blk (bufpool s ! bp)" and "unat blk < 2048"
  shows "ppuwd_write minor rawflag s = Ret (no_return (lnk s)) (s\<lparr>chr_ram := (chr_ram s)(disk_bank blk :=
      (\<lambda>a. if disk_off (blk + word_of_int minor) \<le> a \<and> a < disk_off (blk + word_of_int minor) + 512
           then bf_data (bufpool s ! bp) (a - disk_off (blk + word_of_int minor))
           else chr_ram s (disk_bank blk) a))\<rparr>)"
proof -
  have u: "bank_upper_bits (blk_bank (bf_blk (bufpool s ! bp))) = 0"
    using assms(2,3) by (simp add: bank_upper_bits_def blk_bank_def)
  show ?thesis
    unfolding ppuwd_write_def assms(2) disk_bank_def blk_base_addr_off
    using assms(1) u
    by (simp add: run_simps derefK_def populate_bank_desc_def Let_def forK_modK fold_write_pass
        PPU_DESC_FLAG_WRITE_def)
qed

section \<open>Blocks of the root device\<close>

text \<open>The contents of a block of device 0 on the medium.\<close>

definition disk_block :: "kst \<Rightarrow> u16 \<Rightarrow> bytes" where
  "disk_block s blk = (\<lambda>k. chr_ram s (disk_bank blk) (disk_off blk + k))"

text \<open>Two blocks below 2048 are at different places.\<close>

lemma disk_place_inj:
  assumes "unat b < 2048" and "unat c < 2048" and "disk_bank b = disk_bank c" and "disk_off b = disk_off c"
  shows "b = c"
proof -
  have "unat b div 8 = unat c div 8" and "unat b mod 8 = unat c mod 8"
    using assms by (auto simp: disk_bank_def disk_off_def bank_lower_byte_def blk_bank_def)
  then have "unat b = unat c" by (metis mult_div_mod_eq)
  then show ?thesis by (simp add: word_unat_eq_iff)
qed

lemma disk_off_apart:
  "disk_off b \<noteq> disk_off c \<Longrightarrow> k < 512 \<Longrightarrow>
   \<not> (disk_off b \<le> disk_off c + k \<and> disk_off c + k < disk_off b + 512)"
  by (auto simp: disk_off_def)

lemma disk_block_write:
  assumes "unat b < 2048" and "unat c < 2048" and "k < 512"
  shows "(if disk_off b \<le> disk_off c + k \<and> disk_off c + k < disk_off b + 512
      then f (disk_off c + k - disk_off b) else chr_ram s (disk_bank b) (disk_off c + k)) =
    (if disk_off b = disk_off c then f k else chr_ram s (disk_bank b) (disk_off c + k))"
  using assms disk_off_apart[of b c k] by auto

lemma blk_base_addr_4096: "blk_base_addr (b + word_of_int 4096) = blk_base_addr b"
proof -
  have "unat (b + 4096) mod 8 = (unat b + 4096) mod 65536 mod 8"
    by (simp add: unat_word_ariths)
  also have "\<dots> = (unat b + 512 * 8) mod 8"
    by (subst mod_mod_cancel) simp_all
  finally have "unat (b + 4096) mod 8 = unat b mod 8"
    by (simp only: mod_mult_self1)
  then show ?thesis by (simp add: blk_base_addr_def)
qed

section \<open>Properties\<close>

text \<open>
  C27: a block below 2048 written to the root device is on the medium afterwards, no other such
  block changes, and reading it back into any buffer gives the same 512 bytes.
\<close>

theorem disk_write_read:
  assumes "u_buf (udata s) = Some bp" and "blk = bf_blk (bufpool s ! bp)" and "unat blk < 2048"
  shows "\<exists>r s'. ppuwd_write 0 raw s = Ret r s' \<and>
    (\<forall>c. unat c < 2048 \<longrightarrow> (\<forall>k<512. disk_block s' c k =
        (if c = blk then bf_data (bufpool s ! bp) k else disk_block s c k))) \<and>
    (\<forall>t bq. chr_ram t = chr_ram s' \<and> u_buf (udata t) = Some bq \<and> bq < length (bufpool t) \<and>
        bf_blk (bufpool t ! bq) = blk \<longrightarrow>
      (\<exists>t'. ppuwd_read 0 raw t = Ret 0 t' \<and>
         (\<forall>k<512. bf_data (bufpool t' ! bq) k = bf_data (bufpool s ! bp) k)))"
proof -
  let ?s' = "s\<lparr>chr_ram := (chr_ram s)(disk_bank blk :=
      (\<lambda>a. if disk_off blk \<le> a \<and> a < disk_off blk + 512
           then bf_data (bufpool s ! bp) (a - disk_off blk) else chr_ram s (disk_bank blk) a))\<rparr>"
  have w: "ppuwd_write 0 raw s = Ret (no_return (lnk s)) ?s'"
    using ppuwd_write_eq[OF assms, of 0 raw] by (simp cong: if_cong)
  have d: "disk_block ?s' c k = (if c = blk then bf_data (bufpool s ! bp) k else disk_block s c k)"
    if "unat c < 2048" "k < 512" for c k
    using disk_block_write[OF assms(3) that, of "bf_data (bufpool s ! bp)" s]
      disk_place_inj[OF assms(3) that(1)] that(2)
    by (auto simp: disk_block_def)
  have r: "\<exists>t'. ppuwd_read 0 raw t = Ret 0 t' \<and>
      (\<forall>k<512. bf_data (bufpool t' ! bq) k = bf_data (bufpool s ! bp) k)"
    if t: "chr_ram t = chr_ram ?s'" "u_buf (udata t) = Some bq" "bq < length (bufpool t)"
      "bf_blk (bufpool t ! bq) = blk" for t bq
    using ppuwd_read_eq[OF t(2,3) t(4)[symmetric], of 0 raw] t d[of blk] assms(3)
    by (simp add: disk_block_def)
  show ?thesis
    using w d r by blast
qed

theorem disk_write_read_witness:
  "\<exists>r s'. ppuwd_write 0 0 (bss\<lparr>udata := (udata bss)\<lparr>u_buf := Some 1\<rparr>,
       bufpool := (bufpool bss)[1 := zero_buf\<lparr>bf_blk := 9, bf_data := (\<lambda>_. 7)\<rparr>]\<rparr>) = Ret r s' \<and>
     disk_block s' 9 511 = 7 \<and> disk_block s' 10 0 = 0"
proof -
  let ?s = "bss\<lparr>udata := (udata bss)\<lparr>u_buf := Some 1\<rparr>,
       bufpool := (bufpool bss)[1 := zero_buf\<lparr>bf_blk := 9, bf_data := (\<lambda>_. 7)\<rparr>]\<rparr>"
  have b: "bufpool ?s ! 1 = zero_buf\<lparr>bf_blk := 9, bf_data := (\<lambda>_. 7)\<rparr>"
    by (simp add: bss_def)
  have "disk_block ?s 10 0 = 0" by (simp add: disk_block_def bss_def)
  then show ?thesis
    using disk_write_read[of ?s 1 9 0] b by force
qed

text \<open>
  the swap device (minor 4096) is not a separate region: reading or writing a buffer
  through it does exactly what reading or writing through the root device (minor 0) does,
  because the bank is computed from the buffer's block number without the minor offset.
\<close>

theorem swap_device_aliases_root:
  "ppuwd_read 4096 raw = ppuwd_read 0 raw \<and> ppuwd_write 4096 raw = ppuwd_write 0 raw"
  unfolding ppuwd_read_def ppuwd_write_def populate_bank_desc_def bindK_getK
  by (simp add: blk_base_addr_4096 blk_base_addr_4096[simplified] cong: if_cong)

end
