(* ===== verification/Drivers.thy ===== *)
theory Drivers
  imports Char_Queue Str_Lib Ppu_Disk Proc_Events
begin

text \<open>
  The character drivers and the device switch: the terminal (\<open>drivers/devtty.c\<close>, with the
  receive interrupt of \<open>drivers/orig/devtty.c\<close>), memory and null devices
  (\<open>drivers/devmisc.c\<close>), \<open>ok\<close> and \<open>nogood\<close> of \<open>drivers/devio.c\<close>, and \<open>dev_tab\<close> of
  \<open>kernel/kdata.c\<close> with the routines that go through it.

  A terminal operation can sleep. What happens until the process runs again is an argument:
  the list \<open>env\<close> of the changes other processes and interrupts make during the first sleep,
  the second, and so on; when it is used up the next sleep is the outcome \<open>Switch\<close>.
\<close>

section \<open>The terminal\<close>

definition putc :: "byte \<Rightarrow> unit k" where
  "putc c = modK (\<lambda>s. s\<lparr>console := c # console s\<rparr>)"

text \<open>\<open>remq(&ttyinq, udata.u_base)\<close> and \<open>insq(&ttyinq, c)\<close> on the global queue.\<close>

definition tty_remq :: "bool k" where
  "tty_remq = (\<lambda>s. case remq (ttyinq s) of
       (q, None) \<Rightarrow> Ret False (s\<lparr>ttyinq := q\<rparr>)
     | (q, Some c) \<Rightarrow> Ret True (s\<lparr>ttyinq := q, mem := (mem s)(u_base (udata s) := c)\<rparr>))"

definition tty_insq :: "byte \<Rightarrow> bool k" where
  "tty_insq c = (\<lambda>s. case insq (ttyinq s) c of (q, r) \<Rightarrow> Ret r (s\<lparr>ttyinq := q\<rparr>))"

definition tty_init :: "unit k" where
  "tty_init = bindK (tty_insq 48) (\<lambda>_. retK ())"

definition interrupted :: "kst \<Rightarrow> bool" where
  "interrupted s \<longleftrightarrow> u_cursig (udata s) \<noteq> 0 \<or> p_pending (ptab s ! u_ptab (udata s)) \<noteq> 0"

text \<open>The inner loop of \<open>tty_read\<close>: \<open>None\<close> when a signal broke the sleep.\<close>

primrec tty_getc :: "(kst \<Rightarrow> kst) list \<Rightarrow> (kst \<Rightarrow> kst) list option k" where
  "tty_getc [] = bindK tty_remq (\<lambda>got. if got then retK (Some [])
     else bindK (getK (\<lambda>s. at_ttyinq (lnk s))) (\<lambda>ev. thenK (psleep switchK ev) switchK))"
| "tty_getc (e # es) = bindK tty_remq (\<lambda>got. if got then retK (Some (e # es))
     else bindK (getK (\<lambda>s. at_ttyinq (lnk s))) (\<lambda>ev.
       thenK (psleep (modK e) ev)
       (bindK (getK interrupted) (\<lambda>b.
          if b then thenK (set_error EINTR) (retK None) else tty_getc es))))"

text \<open>
  The outer loop; 65536 rounds are enough because \<open>nread\<close> grows and is compared with a 16-bit
  count.
\<close>

primrec tty_read_loop :: "nat \<Rightarrow> (kst \<Rightarrow> kst) list \<Rightarrow> u16 \<Rightarrow> int k" where
  "tty_read_loop 0 env nread = haltK Diverges"
| "tty_read_loop (Suc fuel) env nread =
     bindK (getK (\<lambda>s. u_count (udata s))) (\<lambda>count.
     if nread < count then
       bindK (tty_getc env) (\<lambda>r. case r of
         None \<Rightarrow> retK (- 1)
       | Some env' \<Rightarrow>
           bindK (getK (\<lambda>s. mem s (u_base (udata s)))) (\<lambda>c.
           if nread = 0 \<and> c = 4 then retK 0
           else if c = 10 then retK (sint (nread + 1))
           else thenK (upd_ud (\<lambda>u. u\<lparr>u_base := u_base u + 1\<rparr>))
                  (tty_read_loop fuel env' (nread + 1))))
     else retK (sint nread))"

definition tty_read :: "(kst \<Rightarrow> kst) list \<Rightarrow> int \<Rightarrow> int \<Rightarrow> int k" where
  "tty_read env minor rawflag = tty_read_loop 65536 env 0"

text \<open>Waiting for the stop flag to be clear.\<close>

primrec tty_wait :: "(kst \<Rightarrow> kst) list \<Rightarrow> (kst \<Rightarrow> kst) list option k" where
  "tty_wait [] = bindK (getK stopflag) (\<lambda>st. if \<not> st then retK (Some [])
     else bindK (getK (\<lambda>s. at_stopflag (lnk s))) (\<lambda>ev. thenK (psleep switchK ev) switchK))"
| "tty_wait (e # es) = bindK (getK stopflag) (\<lambda>st. if \<not> st then retK (Some (e # es))
     else bindK (getK (\<lambda>s. at_stopflag (lnk s))) (\<lambda>ev.
       thenK (psleep (modK e) ev)
       (bindK (getK interrupted) (\<lambda>b.
          if b then thenK (set_error EINTR) (retK None) else tty_wait es))))"

definition tty_out :: "unit k" where
  "tty_out = bindK (getK (\<lambda>s. (flshflag s, mem s (u_base (udata s))))) (\<lambda>(fl, c).
     whenK (\<not> fl) (thenK (whenK (c = 10) (putc 13)) (putc c)))"

primrec tty_write_loop :: "nat \<Rightarrow> (kst \<Rightarrow> kst) list \<Rightarrow> int \<Rightarrow> int k" where
  "tty_write_loop 0 env towrite = haltK Diverges"
| "tty_write_loop (Suc fuel) env towrite =
     bindK (getK (\<lambda>s. u_count (udata s))) (\<lambda>count.
     thenK (upd_ud (\<lambda>u. u\<lparr>u_count := u_count u - 1\<rparr>))
     (if count \<noteq> 0 then
        bindK (tty_wait env) (\<lambda>r. case r of
          None \<Rightarrow> retK (- 1)
        | Some env' \<Rightarrow>
            thenK tty_out (thenK (upd_ud (\<lambda>u. u\<lparr>u_base := u_base u + 1\<rparr>))
              (tty_write_loop fuel env' towrite)))
      else retK towrite))"

text \<open>Each sleep can change \<open>u_count\<close>; between sleeps it only goes down.\<close>

definition tty_write :: "(kst \<Rightarrow> kst) list \<Rightarrow> int \<Rightarrow> int \<Rightarrow> int k" where
  "tty_write env minor rawflag =
     bindK (getK (\<lambda>s. sint (u_count (udata s)))) (\<lambda>towrite.
     tty_write_loop (65536 * Suc (length env)) env towrite)"

definition tty_open :: "int \<Rightarrow> int k" where
  "tty_open minor = (if minor = 0 then retK minor else retK 0)"

definition tty_close :: "int \<Rightarrow> int k" where
  "tty_close minor = retK 0"

section \<open>The receive interrupt\<close>

abbreviation (input) SIGINT :: nat where "SIGINT \<equiv> 2"

text \<open>
  One character \<open>c\<close> from the receiver. Control-Z also prints the debugging dump, which
  changes nothing.
\<close>

definition tty_int_char :: "byte \<Rightarrow> unit k" where
  "tty_int_char c0 =
     (let c = (if c0 = 13 then 10 else c0) in
      thenK
       (if c0 = 3 then sendsig None SIGINT
        else if c0 = 15 then modK (\<lambda>s. s\<lparr>flshflag := \<not> flshflag s\<rparr>)
        else if c0 = 19 then modK (\<lambda>s. s\<lparr>stopflag := True\<rparr>)
        else if c0 = 17 then
          thenK (modK (\<lambda>s. s\<lparr>stopflag := False\<rparr>))
            (bindK (getK (\<lambda>s. at_stopflag (lnk s))) wakeup)
        else if c0 = 8 then
          bindK (\<lambda>s. case uninsq (ttyinq s) of (q, r) \<Rightarrow> Ret r (s\<lparr>ttyinq := q\<rparr>)) (\<lambda>r.
          case r of
            None \<Rightarrow> retK ()
          | Some oc \<Rightarrow>
              if oc = 10 then bindK (tty_insq oc) (\<lambda>_. retK ())
              else doK [putc 8, putc 32, putc 8])
        else
          thenK (whenK (c0 = 13 \<or> c0 = 10) (putc 13))
          (bindK (tty_insq c) (\<lambda>ok. if ok then putc c else putc 7)))
       (whenK (c = 10 \<or> c = 4) (bindK (getK (\<lambda>s. at_ttyinq (lnk s))) wakeup)))"

text \<open>\<open>tty_int\<close> takes characters until the receiver has no more; it returns whether it had any.\<close>

definition tty_int :: "byte list \<Rightarrow> bool k" where
  "tty_int uart = thenK (forK uart (\<lambda>b. tty_int_char (b AND 0x7f))) (retK (uart \<noteq> []))"

section \<open>Memory and null devices\<close>

definition raw_addr :: "kst \<Rightarrow> u16" where
  "raw_addr s = 512 * o_blkno (u_offset (udata s)) + o_offset (u_offset (udata s))"

definition mem_read :: "int \<Rightarrow> int \<Rightarrow> int k" where
  "mem_read minor rawflag =
     thenK (modK (\<lambda>s. s\<lparr>mem := bcopy (raw_addr s) (u_base (udata s)) (u_count (udata s)) (mem s)\<rparr>))
       (getK (\<lambda>s. sint (u_count (udata s))))"

definition mem_write :: "int \<Rightarrow> int \<Rightarrow> int k" where
  "mem_write minor rawflag =
     thenK (modK (\<lambda>s. s\<lparr>mem := bcopy (u_base (udata s)) (raw_addr s) (u_count (udata s)) (mem s)\<rparr>))
       (getK (\<lambda>s. sint (u_count (udata s))))"

definition null_write :: "int \<Rightarrow> int \<Rightarrow> int k" where
  "null_write minor rawflag = getK (\<lambda>s. sint (u_count (udata s)))"

definition ok :: "int k" where
  "ok = retK 0"

definition nogood :: "int k" where
  "nogood = retK (- 1)"

section \<open>The device switch\<close>

record devsw =
  dev_minor :: int
  dev_open :: "int \<Rightarrow> int k"
  dev_close :: "int \<Rightarrow> int k"
  dev_read :: "int \<Rightarrow> int \<Rightarrow> int k"
  dev_write :: "int \<Rightarrow> int \<Rightarrow> int k"
  dev_ioctl :: "int \<Rightarrow> int \<Rightarrow> u16 \<Rightarrow> int k"

definition dev_tab :: "devsw list" where
  "dev_tab = [
     \<lparr>dev_minor = 0, dev_open = ppuwd_open, dev_close = (\<lambda>_. ok), dev_read = ppuwd_read,
        dev_write = ppuwd_write, dev_ioctl = (\<lambda>_ _ _. ok)\<rparr>,
     \<lparr>dev_minor = 4096, dev_open = ppuwd_open, dev_close = (\<lambda>_. ok), dev_read = ppuwd_read,
        dev_write = ppuwd_write, dev_ioctl = (\<lambda>_ _ _. ok)\<rparr>,
     \<lparr>dev_minor = 0, dev_open = tty_open, dev_close = tty_close, dev_read = tty_read [],
        dev_write = tty_write [], dev_ioctl = (\<lambda>_ _ _. ok)\<rparr>,
     \<lparr>dev_minor = 0, dev_open = (\<lambda>_. ok), dev_close = (\<lambda>_. ok), dev_read = (\<lambda>_ _. ok),
        dev_write = null_write, dev_ioctl = (\<lambda>_ _ _. nogood)\<rparr>,
     \<lparr>dev_minor = 0, dev_open = (\<lambda>_. ok), dev_close = (\<lambda>_. ok), dev_read = mem_read,
        dev_write = mem_write, dev_ioctl = (\<lambda>_ _ _. nogood)\<rparr>]"

text \<open>An index outside the table calls through whatever lies behind it.\<close>

definition dev_entry :: "int \<Rightarrow> devsw k" where
  "dev_entry dev = (if 0 \<le> dev \<and> dev < 5 then retK (dev_tab ! nat dev) else haltK BadAccess)"

definition validdev :: "int \<Rightarrow> bool" where
  "validdev dev = True"

definition cdread :: "int \<Rightarrow> int k" where
  "cdread dev = (if \<not> validdev dev then panic ''cdread: invalid dev''
     else bindK (dev_entry dev) (\<lambda>d. dev_read d (dev_minor d) 1))"

definition cdwrite :: "int \<Rightarrow> int k" where
  "cdwrite dev = (if \<not> validdev dev then panic ''cdwrite: invalid dev''
     else bindK (dev_entry dev) (\<lambda>d. dev_write d (dev_minor d) 1))"

definition d_open :: "int \<Rightarrow> int k" where
  "d_open dev = (if \<not> validdev dev then retK (- 1)
     else bindK (dev_entry dev) (\<lambda>d. dev_open d (dev_minor d)))"

definition d_close :: "int \<Rightarrow> unit k" where
  "d_close dev = (if \<not> validdev dev then panic ''d_close: bad device''
     else bindK (dev_entry dev) (\<lambda>d. bindK (dev_close d (dev_minor d)) (\<lambda>_. retK ())))"

definition d_ioctl :: "int \<Rightarrow> int \<Rightarrow> u16 \<Rightarrow> int k" where
  "d_ioctl dev request data = (if \<not> validdev dev then thenK (set_error ENXIO) (retK (- 1))
     else bindK (dev_entry dev) (\<lambda>d.
          bindK (dev_ioctl d (dev_minor d) request data) (\<lambda>r.
          if r \<noteq> 0 then thenK (set_error EINVAL) (retK (- 1)) else retK 0)))"

text \<open>
  The swap routines leave their arguments in three globals for the driver and call it with a
  raw flag of 2.
\<close>

definition swapread :: "int \<Rightarrow> u16 \<Rightarrow> u16 \<Rightarrow> u16 \<Rightarrow> int k" where
  "swapread dev blkno nbytes buf =
     thenK (modK (\<lambda>s. s\<lparr>swapbase := buf, swapcnt := nbytes, swapblk := blkno\<rparr>))
       (bindK (dev_entry dev) (\<lambda>d. dev_read d (dev_minor d) 2))"

definition swapwrite :: "int \<Rightarrow> u16 \<Rightarrow> u16 \<Rightarrow> u16 \<Rightarrow> int k" where
  "swapwrite dev blkno nbytes buf =
     thenK (modK (\<lambda>s. s\<lparr>swapbase := buf, swapcnt := nbytes, swapblk := blkno\<rparr>))
       (bindK (dev_entry dev) (\<lambda>d. dev_write d (dev_minor d) 2))"

section \<open>Lemmas\<close>

text \<open>What memory holds after a run of characters has been stored from an address on.\<close>

fun store_list :: "memory \<Rightarrow> u16 \<Rightarrow> byte list \<Rightarrow> memory" where
  "store_list m p [] = m"
| "store_list m p (c # cs) = store_list (m(p := c)) (p + 1) cs"

lemma store_list_outside:
  "(\<And>k. k < length cs \<Longrightarrow> a \<noteq> p + of_nat k) \<Longrightarrow> store_list m p cs a = m a"
proof (induction cs arbitrary: m p)
  case Nil
  then show ?case by simp
next
  case (Cons c cs)
  have "a \<noteq> p" using Cons.prems[of 0] by simp
  moreover have "a \<noteq> p + 1 + of_nat k" if "k < length cs" for k
    using Cons.prems[of "Suc k"] that by (simp add: algebra_simps)
  ultimately have "store_list (m(p := c)) (p + 1) cs a = (m(p := c)) a" by (intro Cons.IH) simp
  then show ?case using \<open>a \<noteq> p\<close> by simp
qed

lemma store_list_at:
  "length cs \<le> 65536 \<Longrightarrow> k < length cs \<Longrightarrow> store_list m p cs (p + of_nat k) = cs ! k"
proof (induction cs arbitrary: m p k)
  case Nil
  then show ?case by simp
next
  case (Cons c cs)
  show ?case
  proof (cases k)
    case 0
    have "p \<noteq> p + 1 + of_nat j" if "j < length cs" for j
      using offset_inj[of 0 "Suc j" p] Cons.prems(1) that by (auto simp: algebra_simps)
    then show ?thesis using 0 store_list_outside[of cs p "p + 1" "m(p := c)"] by simp
  next
    case (Suc j)
    then have "store_list (m(p := c)) (p + 1) cs (p + 1 + of_nat j) = cs ! j"
      using Cons.prems by (intro Cons.IH) simp_all
    then show ?thesis using Suc by (simp add: add.assoc)
  qed
qed

lemma tty_remq_some:
  assumes "wf_queue (ttyinq s)" and "queue_list (ttyinq s) = c # cs"
  shows "\<exists>q. tty_remq s = Ret True (s\<lparr>ttyinq := q, mem := (mem s)(u_base (udata s) := c)\<rparr>) \<and>
    wf_queue q \<and> queue_list q = cs"
proof -
  have "q_count (ttyinq s) \<noteq> 0"
    using assms length_queue_list[of "ttyinq s"] by auto
  from remq_nonempty[OF assms(1) this] assms(2)
  show ?thesis
    by (cases "remq (ttyinq s)") (auto simp: tty_remq_def)
qed

lemma tty_getc_some:
  assumes "wf_queue (ttyinq s)" and "queue_list (ttyinq s) = c # cs"
  shows "\<exists>q. tty_getc env s = Ret (Some env) (s\<lparr>ttyinq := q, mem := (mem s)(u_base (udata s) := c)\<rparr>) \<and>
    wf_queue q \<and> queue_list q = cs"
  using tty_remq_some[OF assms] by (cases env) (auto simp: run_simps)

lemma tty_read_loop_line:
  assumes "wf_queue (ttyinq s)" and "queue_list (ttyinq s) = l @ 10 # rest" and "10 \<notin> set l"
    and "nread = 0 \<longrightarrow> l = [] \<or> hd l \<noteq> 4"
    and "unat nread + length l < unat (u_count (udata s))" and "length l < fuel"
  shows "\<exists>q. tty_read_loop fuel env nread s =
      Ret (sint (nread + of_nat (Suc (length l))))
        (s\<lparr>ttyinq := q, mem := store_list (mem s) (u_base (udata s)) (l @ [10]),
           udata := (udata s)\<lparr>u_base := u_base (udata s) + of_nat (length l)\<rparr>\<rparr>) \<and>
      wf_queue q \<and> queue_list q = rest"
  using assms
proof (induction l arbitrary: fuel nread s)
  case Nil
  then obtain f where f: "fuel = Suc f" by (cases fuel) auto
  have lt: "nread < u_count (udata s)" using Nil.prems(5) by (simp add: word_less_nat_alt)
  obtain q where q: "tty_getc env s = Ret (Some env) (s\<lparr>ttyinq := q, mem := (mem s)(u_base (udata s) := 10)\<rparr>)"
      "wf_queue q" "queue_list q = rest"
    using tty_getc_some[OF Nil.prems(1), of 10 rest env] Nil.prems(2) by auto
  have nl: "(10 :: byte) \<noteq> 4" by simp
  show ?case using lt q by (intro exI[of _ q]) (simp add: f run_simps fun_upd_def)
next
  case (Cons c l)
  then obtain f where f: "fuel = Suc f" by (cases fuel) auto
  have lt: "nread < u_count (udata s)" using Cons.prems(5) by (simp add: word_less_nat_alt)
  obtain q where q: "tty_getc env s = Ret (Some env) (s\<lparr>ttyinq := q, mem := (mem s)(u_base (udata s) := c)\<rparr>)"
      "wf_queue q" "queue_list q = l @ 10 # rest"
    using tty_getc_some[OF Cons.prems(1), of c "l @ 10 # rest" env] Cons.prems(2) by auto
  let ?s = "s\<lparr>ttyinq := q, mem := (mem s)(u_base (udata s) := c),
      udata := (udata s)\<lparr>u_base := u_base (udata s) + 1\<rparr>\<rparr>"
  have nr: "unat (nread + 1) = Suc (unat nread)"
  proof -
    have "unat nread + 1 < 65536" using Cons.prems(5) u16_lt[of "u_count (udata s)"] by linarith
    then show ?thesis by (simp add: unat_word_ariths)
  qed
  have "\<exists>q'. tty_read_loop f env (nread + 1) ?s =
      Ret (sint (nread + 1 + of_nat (Suc (length l))))
        (?s\<lparr>ttyinq := q', mem := store_list (mem ?s) (u_base (udata ?s)) (l @ [10]),
           udata := (udata ?s)\<lparr>u_base := u_base (udata ?s) + of_nat (length l)\<rparr>\<rparr>) \<and>
      wf_queue q' \<and> queue_list q' = rest"
  proof (rule Cons.IH)
    have "nread + 1 \<noteq> 0" using nr by (metis nat.distinct(1) unat_0)
    then show "nread + 1 = 0 \<longrightarrow> l = [] \<or> hd l \<noteq> 4" by simp
  qed (use q Cons.prems nr f in auto)
  then obtain q' where q': "tty_read_loop f env (nread + 1) ?s =
      Ret (sint (nread + 1 + of_nat (Suc (length l))))
        (?s\<lparr>ttyinq := q', mem := store_list (mem ?s) (u_base (udata ?s)) (l @ [10]),
           udata := (udata ?s)\<lparr>u_base := u_base (udata ?s) + of_nat (length l)\<rparr>\<rparr>)"
      "wf_queue q'" "queue_list q' = rest" by blast
  have nd: "\<not> (nread = 0 \<and> c = 4)" "c \<noteq> 10" using Cons.prems by auto
  show ?case
    using lt q(1) q' nd by (intro exI[of _ q']) (auto simp: f run_simps upd_ud_def algebra_simps)
qed

text \<open>\<open>tty_read\<close> does not run for ever.\<close>

lemma tty_getc_not_diverges: "tty_getc env s \<noteq> Halt Diverges"
proof (induction env arbitrary: s)
  case Nil
  then show ?case
    by (auto simp: run_simps tty_remq_def psleep_def psleep_mark_def upd_proc_def
        split: outcome.splits prod.splits option.splits if_splits)
next
  case (Cons e es)
  then show ?case
    by (auto simp: run_simps tty_remq_def psleep_def psleep_mark_def upd_proc_def set_error_def upd_ud_def
        split: outcome.splits prod.splits option.splits if_splits)
qed

lemma tty_read_loop_not_diverges:
  "65536 \<le> unat nread + fuel \<Longrightarrow> 0 < fuel \<Longrightarrow> tty_read_loop fuel env nread s \<noteq> Halt Diverges"
proof (induction fuel arbitrary: env nread s)
  case 0
  then show ?case by simp
next
  case (Suc fuel)
  have nx: "tty_read_loop fuel env' (nread + 1) s' \<noteq> Halt Diverges"
    if lt: "nread < u_count (udata s)" for env' s'
  proof (rule Suc.IH)
    have "unat nread < unat (u_count (udata s))" using lt by (simp add: word_less_nat_alt)
    then have n: "unat nread < 65535" using u16_lt[of "u_count (udata s)"] by linarith
    then have "unat (nread + 1) = Suc (unat nread)" by (simp add: unat_word_ariths)
    then show "65536 \<le> unat (nread + 1) + fuel" using Suc.prems by simp
    show "0 < fuel" using Suc.prems n by simp
  qed
  show ?case
    using tty_getc_not_diverges[of env s] nx
    by (auto simp: run_simps upd_ud_def split: outcome.splits option.splits)
qed

text \<open>An ordinary character typed at the terminal.\<close>

definition ordinary :: "byte \<Rightarrow> bool" where
  "ordinary c \<longleftrightarrow> c AND 0x7f = c \<and> c \<notin> {3, 4, 8, 10, 13, 15, 17, 19}"

lemma tty_insq_room:
  assumes "wf_queue (ttyinq s)" and "q_count (ttyinq s) < q_size (ttyinq s)"
    and "\<And>q. wf_queue q \<Longrightarrow> queue_list q = queue_list (ttyinq s) @ [c] \<Longrightarrow>
           q_size q = q_size (ttyinq s) \<Longrightarrow> Q True (s\<lparr>ttyinq := q\<rparr>)"
  shows "wp (tty_insq c) Q s"
  using insq_not_full[OF assms(1,2), of c] assms(3)[of "fst (insq (ttyinq s) c)"]
  by (cases "insq (ttyinq s) c") (simp add: tty_insq_def wp_def)

definition typed :: "kst \<Rightarrow> byte list \<Rightarrow> kst \<Rightarrow> bool" where
  "typed s cs t \<longleftrightarrow> wf_queue (ttyinq t) \<and> queue_list (ttyinq t) = queue_list (ttyinq s) @ cs \<and>
     q_size (ttyinq t) = q_size (ttyinq s) \<and> ptab t = ptab s \<and> lnk t = lnk s \<and> udata t = udata s"

lemma queue_room:
  "wf_queue q \<Longrightarrow> int (length (queue_list q)) < q_size q \<Longrightarrow> q_count q < q_size q"
  by (simp add: length_queue_list)

lemma tty_int_ordinary:
  assumes "typed s0 xs s" and "ordinary c"
    and "int (length (queue_list (ttyinq s0)) + length xs) < q_size (ttyinq s0)"
  shows "wp (tty_int_char (c AND 0x7f)) (\<lambda>_ t. typed s0 (xs @ [c]) t) s"
proof -
  have c: "c AND 0x7f = c" "c \<noteq> 3" "c \<noteq> 4" "c \<noteq> 8" "c \<noteq> 10" "c \<noteq> 13" "c \<noteq> 15" "c \<noteq> 17" "c \<noteq> 19"
    using assms(2) by (simp_all add: ordinary_def)
  note t = assms(1)[unfolded typed_def]
  have "q_count (ttyinq s) < q_size (ttyinq s)"
    using t assms(3) by (intro queue_room) auto
  then have "wp (tty_insq c) (\<lambda>ok t. wp (if ok then putc c else putc 7) (\<lambda>_. typed s0 (xs @ [c])) t) s"
    using t by (intro tty_insq_room) (auto simp: putc_def typed_def)
  then show ?thesis
    using c by (simp add: tty_int_char_def Let_def)
qed

lemma tty_int_ordinary_run:
  "typed s0 xs s \<Longrightarrow> \<forall>c\<in>set cs. ordinary c \<Longrightarrow>
   int (length (queue_list (ttyinq s0)) + length xs + length cs) \<le> q_size (ttyinq s0) \<Longrightarrow>
   wp (forK cs (\<lambda>b. tty_int_char (b AND 0x7f))) (\<lambda>_ t. typed s0 (xs @ cs) t) s"
proof (induction cs arbitrary: xs s)
  case Nil
  then show ?case by simp
next
  case (Cons c cs)
  have "wp (tty_int_char (c AND 0x7f)) (\<lambda>_ t. typed s0 (xs @ [c]) t) s"
    using Cons.prems by (intro tty_int_ordinary) auto
  then have "wp (tty_int_char (c AND 0x7f))
      (\<lambda>_. wp (forK cs (\<lambda>b. tty_int_char (b AND 0x7f))) (\<lambda>_ t. typed s0 (xs @ c # cs) t)) s"
    using Cons.IH[of "xs @ [c]"] Cons.prems by (auto elim!: wp_mono)
  then show ?case by simp
qed

section \<open>Properties\<close>

text \<open>
  C34: a read from the terminal returns one line. When the queue starts with a line (not
  beginning with control-D) that fits the count, \<open>tty_read\<close> returns its length with the
  newline, has stored exactly its characters at the user's address, has changed no other
  memory, and leaves the rest of the queue.
\<close>

theorem tty_read_line:
  assumes "wf_queue (ttyinq s)" and "queue_list (ttyinq s) = l @ 10 # rest" and "10 \<notin> set l"
    and "l = [] \<or> hd l \<noteq> 4" and "length l < unat (u_count (udata s))"
  shows "wp (tty_read env minor rawflag) (\<lambda>r t.
      r = sint (of_nat (Suc (length l)) :: u16) \<and> wf_queue (ttyinq t) \<and> queue_list (ttyinq t) = rest \<and>
      (\<forall>k\<le>length l. mem t (u_base (udata s) + of_nat k) = (l @ [10]) ! k) \<and>
      (\<forall>a. (\<forall>k\<le>length l. a \<noteq> u_base (udata s) + of_nat k) \<longrightarrow> mem t a = mem s a)) s"
proof -
  have len: "length l < 65535" using assms(5) u16_lt[of "u_count (udata s)"] by linarith
  have "unat (0 :: u16) + length l < unat (u_count (udata s))" and "length l < 65536"
    and "(0 :: u16) = 0 \<longrightarrow> l = [] \<or> hd l \<noteq> 4"
    using assms(4,5) len by simp_all
  from tty_read_loop_line[OF assms(1,2,3) this(3,1,2), of env] obtain q where
    q: "tty_read_loop 65536 env 0 s = Ret (sint (0 + of_nat (Suc (length l)) :: u16))
        (s\<lparr>ttyinq := q, mem := store_list (mem s) (u_base (udata s)) (l @ [10]),
           udata := (udata s)\<lparr>u_base := u_base (udata s) + of_nat (length l)\<rparr>\<rparr>)"
      "wf_queue q" "queue_list q = rest" by blast
  have at: "store_list (mem s) (u_base (udata s)) (l @ [10]) (u_base (udata s) + of_nat k) = (l @ [10]) ! k"
    if "k \<le> length l" for k using that len by (intro store_list_at) simp_all
  have out: "store_list (mem s) (u_base (udata s)) (l @ [10]) a = mem s a"
    if "\<forall>k\<le>length l. a \<noteq> u_base (udata s) + of_nat k" for a
    using that by (intro store_list_outside) simp
  show ?thesis
    using q at out unfolding tty_read_def wp_def by (simp del: tty_read_loop.simps store_list.simps)
qed

theorem tty_read_line_witness:
  "wp (tty_read [] 0 0) (\<lambda>r t. r = 2 \<and> mem t 0x6001 = 10 \<and> queue_list (ttyinq t) = [98])
     (bss\<lparr>ttyinq := (ttyinq bss)\<lparr>q_base := [97, 10, 98] @ replicate 129 0, q_tail := 3, q_count := 3\<rparr>,
          udata := (udata bss)\<lparr>u_count := 80, u_base := 0x6000\<rparr>\<rparr>)"
proof -
  define s where "s = bss\<lparr>ttyinq := (ttyinq bss)\<lparr>q_base := [97, 10, 98] @ replicate 129 0, q_tail := 3, q_count := 3\<rparr>,
          udata := (udata bss)\<lparr>u_count := 80, u_base := 0x6000\<rparr>\<rparr>"
  have q: "wf_queue (ttyinq s)" by (simp add: s_def bss_def wf_queue_def)
  have "[0..2] = [0, 1, 2 :: int]" by (simp add: upto.simps)
  then have l: "queue_list (ttyinq s) = [97] @ 10 # [98]"
    by (simp add: s_def bss_def queue_list_def queue_at_def)
  have u: "u_base (udata s) = 0x6000" "u_count (udata s) = 80" by (simp_all add: s_def)
  show ?thesis
    unfolding s_def[symmetric]
    by (rule wp_mono[OF tty_read_line[OF q l]]) (auto simp: u dest: spec[of _ 1])
qed

text \<open>
  a read from the terminal never runs for ever, whatever happens while it sleeps: it
  returns, or it is asleep again.
\<close>

theorem tty_read_terminates: "tty_read env minor rawflag s \<noteq> Halt Diverges"
  unfolding tty_read_def by (rule tty_read_loop_not_diverges) simp_all

text \<open>
  C35: a line typed at the terminal reaches the queue and its readers. When the receive
  interrupt gets ordinary characters followed by carriage return and there is room, exactly
  those characters and a newline are queued, in order, and exactly the processes waiting for
  the terminal queue are made runnable.
\<close>

theorem tty_int_types_line:
  assumes "wf_queue (ttyinq s)" and "length (ptab s) = PTABSIZE" and "\<forall>c\<in>set cs. ordinary c"
    and "int (length (queue_list (ttyinq s)) + length cs) < q_size (ttyinq s)"
  shows "wp (tty_int (cs @ [13])) (\<lambda>found t. found \<and> wf_queue (ttyinq t) \<and>
      queue_list (ttyinq t) = queue_list (ttyinq s) @ cs @ [10] \<and>
      ptab t = map (wakeup_entry (at_ttyinq (lnk s))) (ptab s)) s"
proof -
  have run: "wp (forK cs (\<lambda>b. tty_int_char (b AND 0x7f))) (\<lambda>_ t. typed s cs t) s"
    using tty_int_ordinary_run[of s "[]" s cs] assms by (simp add: typed_def)
  have last: "wp (tty_int_char (13 AND 0x7f)) (\<lambda>_ t. wf_queue (ttyinq t) \<and>
      queue_list (ttyinq t) = queue_list (ttyinq s) @ cs @ [10] \<and>
      ptab t = map (wakeup_entry (at_ttyinq (lnk s))) (ptab s)) t" if "typed s cs t" for t
  proof -
    note td = that[unfolded typed_def]
    let ?t = "t\<lparr>console := 13 # console t\<rparr>"
    let ?Q = "\<lambda>_ t. wf_queue (ttyinq t) \<and>
      queue_list (ttyinq t) = queue_list (ttyinq s) @ cs @ [10] \<and>
      ptab t = map (wakeup_entry (at_ttyinq (lnk s))) (ptab s)"
    have "q_count (ttyinq ?t) < q_size (ttyinq ?t)"
      using td assms(4) by (intro queue_room) auto
    then have "wp (tty_insq 10) (\<lambda>ok u. wp (if ok then putc 10 else putc 7)
        (\<lambda>_ u. wp (wakeup (at_ttyinq (lnk u))) ?Q u) u) ?t"
      using td assms(2)
      by (intro tty_insq_room) (auto simp: putc_def wp_def wakeup_eq run_simps)
    then show ?thesis by (simp add: tty_int_char_def Let_def putc_def)
  qed
  have "wp (forK (cs @ [13]) (\<lambda>b. tty_int_char (b AND 0x7f))) (\<lambda>_ t. wf_queue (ttyinq t) \<and>
      queue_list (ttyinq t) = queue_list (ttyinq s) @ cs @ [10] \<and>
      ptab t = map (wakeup_entry (at_ttyinq (lnk s))) (ptab s)) s"
    unfolding forK_append wp_thenK forK.simps wp_retK
    by (rule wp_mono[OF run]) (rule last)
  then show ?thesis unfolding tty_int_def by simp
qed

theorem tty_int_types_line_witness:
  "wp (tty_int ([97, 98] @ [13])) (\<lambda>found t. queue_list (ttyinq t) = [97, 98, 10]) bss"
proof -
  have q: "wf_queue (ttyinq bss)" by (simp add: bss_def wf_queue_def)
  have e: "queue_list (ttyinq bss) = []" by (simp add: bss_def queue_list_def)
  have o: "\<forall>c\<in>set [97, 98]. ordinary c" by (simp add: ordinary_def)
  have "q_size (ttyinq bss) = 132" "length (ptab bss) = PTABSIZE" by (simp_all add: bss_def)
  then show ?thesis
    using e by (intro wp_mono[OF tty_int_types_line[OF q _ o]]) auto
qed

end
