(* ===== verification/Buffers.thy ===== *)
theory Buffers
  imports Drivers
begin

text \<open>
  The block buffer cache of \<open>drivers/devio.c\<close>: \<open>bread\<close>, \<open>bfree\<close>, \<open>brelse\<close>, \<open>bawrite\<close>,
  \<open>zerobuf\<close>, \<open>bufsync\<close>, \<open>bfind\<close>, \<open>freebuf\<close>, \<open>bufinit\<close>, \<open>bdread\<close>, \<open>bdwrite\<close>. A buffer
  pointer is its index in \<open>bufpool\<close>. The abstraction \<open>bview\<close> gives for every block of the
  root device the contents its users see: the cached copy, or the medium.
\<close>

section \<open>Operations\<close>

definition bfind :: "int \<Rightarrow> u16 \<Rightarrow> kst \<Rightarrow> nat option" where
  "bfind dev blk s =
     find (\<lambda>i. uint (bf_dev (bufpool s ! i)) = dev \<and> bf_blk (bufpool s ! i) = blk) [0..<NBUFS]"

definition bdread :: "nat \<Rightarrow> int k" where
  "bdread bp =
     bindK (getK (\<lambda>s. uint (bf_dev (bufpool s ! bp)))) (\<lambda>dev.
     if \<not> validdev dev then panic ''bdread: invalid dev''
     else thenK (upd_ud (\<lambda>u. u\<lparr>u_buf := Some bp\<rparr>))
       (bindK (dev_entry dev) (\<lambda>d. dev_read d (dev_minor d) 0)))"

definition bdwrite :: "nat \<Rightarrow> int k" where
  "bdwrite bp =
     bindK (getK (\<lambda>s. uint (bf_dev (bufpool s ! bp)))) (\<lambda>dev.
     if \<not> validdev dev then panic ''bdwrite: invalid dev''
     else thenK (upd_ud (\<lambda>u. u\<lparr>u_buf := Some bp\<rparr>))
       (bindK (dev_entry dev) (\<lambda>d. dev_write d (dev_minor d) 0)))"

text \<open>
  The scan of \<open>freebuf\<close>: the last buffer not busy whose age, as an unsigned 16-bit number, is
  at least that of the best so far.
\<close>

definition freebuf_scan :: "kst \<Rightarrow> nat option \<times> u16" where
  "freebuf_scan s = fold (\<lambda>i (oldest, oldtime).
       let b = bufpool s ! i in
       if bufclock s - bf_time b \<ge> oldtime \<and> bf_busy b = 0
       then (Some i, bufclock s - bf_time b) else (oldest, oldtime)) [0..<NBUFS] (None, 0)"

definition freebuf :: "nat k" where
  "freebuf =
     bindK (getK freebuf_scan) (\<lambda>(oldest, oldtime).
     case oldest of
       None \<Rightarrow> panic ''no free buffers''
     | Some i \<Rightarrow>
         bindK (getK (\<lambda>s. bf_dirty (bufpool s ! i))) (\<lambda>dirty.
         thenK (whenK (dirty \<noteq> 0)
           (bindK (bdwrite i) (\<lambda>r.
            thenK (whenK (r = - 1) (set_error EIO))
              (upd_buf i (\<lambda>b. b\<lparr>bf_dirty := 0\<rparr>)))))
         (retK i)))"

text \<open>\<open>bzero(bp->bf_data, 512)\<close>.\<close>

definition clear_data :: "blkbuf \<Rightarrow> blkbuf" where
  "clear_data b = b\<lparr>bf_data := (\<lambda>k. if k < 512 then 0 else bf_data b k)\<rparr>"

definition bread_done :: "nat \<Rightarrow> nat option k" where
  "bread_done bp = thenK (doK [
       upd_buf bp (\<lambda>b. b\<lparr>bf_busy := 1\<rparr>),
       modK (\<lambda>s. s\<lparr>bufclock := bufclock s + 1\<rparr>),
       (\<lambda>s. upd_buf bp (\<lambda>b. b\<lparr>bf_time := bufclock s\<rparr>) s)])
     (retK (Some bp))"

definition bread :: "int \<Rightarrow> u16 \<Rightarrow> int \<Rightarrow> nat option k" where
  "bread dev blk rewrite =
     bindK (getK (bfind dev blk)) (\<lambda>r. case r of
       Some bp \<Rightarrow>
         bindK (getK (\<lambda>s. bf_busy (bufpool s ! bp))) (\<lambda>busy.
         if busy \<noteq> 0 then panic ''want busy block'' else bread_done bp)
     | None \<Rightarrow>
         bindK freebuf (\<lambda>bp.
         thenK (doK [upd_buf bp (\<lambda>b. b\<lparr>bf_dev := word_of_int dev\<rparr>), upd_buf bp (\<lambda>b. b\<lparr>bf_blk := blk\<rparr>)])
         (bindK (if rewrite = 0 then bdread bp else retK 0) (\<lambda>r.
          if r = - 1 then thenK (set_error EIO) (retK None)
          else thenK (whenK (rewrite = 2) (upd_buf bp clear_data)) (bread_done bp)))))"

definition bfree :: "nat \<Rightarrow> int \<Rightarrow> int k" where
  "bfree bp dirty =
     thenK (doK [
       upd_buf bp (\<lambda>b. b\<lparr>bf_dirty := bf_dirty b OR word_of_int dirty\<rparr>),
       upd_buf bp (\<lambda>b. b\<lparr>bf_busy := 0\<rparr>)])
     (if dirty = 2 then
        bindK (bdwrite bp) (\<lambda>r.
        thenK (whenK (r = - 1) (set_error EIO))
        (thenK (upd_buf bp (\<lambda>b. b\<lparr>bf_dirty := 0\<rparr>)) (retK (- 1))))
      else retK 0)"

definition brelse :: "nat \<Rightarrow> unit k" where
  "brelse bp = bindK (bfree bp 0) (\<lambda>_. retK ())"

definition bawrite :: "nat \<Rightarrow> unit k" where
  "bawrite bp = bindK (bfree bp 1) (\<lambda>_. retK ())"

definition zerobuf :: "nat k" where
  "zerobuf =
     bindK freebuf (\<lambda>bp.
     thenK (doK [upd_buf bp (\<lambda>b. b\<lparr>bf_dev := - 1\<rparr>), upd_buf bp clear_data]) (retK bp))"

text \<open>
  \<open>bp->bf_dev != -1\<close> compares an unsigned character with -1, so it always holds.
\<close>

definition bufsync :: "unit k" where
  "bufsync = forK [0..<NBUFS] (\<lambda>i.
     bindK (getK (\<lambda>s. bufpool s ! i)) (\<lambda>b.
     whenK (uint (bf_dev b) \<noteq> - 1 \<and> bf_dirty b \<noteq> 0) (bindK (bdwrite i) (\<lambda>_. retK ()))))"

definition bufinit :: "unit k" where
  "bufinit = forK [0..<NBUFS] (\<lambda>i. upd_buf i (\<lambda>b. b\<lparr>bf_dev := - 1\<rparr>))"

section \<open>The invariant and the view\<close>

text \<open>
  Every buffer holds a block of the root device (number below 2048, the range the driver can
  address) or belongs to no device and is clean; no block is held twice; a buffer in use by
  nobody that is not dirty holds what the medium holds. The last conjunct says that the value
  a driver leaves behind by returning nothing is not taken for the error value.
\<close>

definition buf_ok :: "blkbuf \<Rightarrow> bool" where
  "buf_ok b \<longleftrightarrow> bf_dev b = 0 \<and> unat (bf_blk b) < 2048 \<or> bf_dev b = 255 \<and> bf_dirty b = 0"

definition agrees :: "kst \<Rightarrow> blkbuf \<Rightarrow> bool" where
  "agrees s b \<longleftrightarrow> (bf_dev b = 0 \<longrightarrow> bf_dirty b = 0 \<longrightarrow> (\<forall>k<512. bf_data b k = disk_block s (bf_blk b) k))"

definition buf_inv :: "kst \<Rightarrow> bool" where
  "buf_inv s \<longleftrightarrow> length (bufpool s) = NBUFS \<and>
     (\<forall>i<NBUFS. buf_ok (bufpool s ! i)) \<and>
     (\<forall>i<NBUFS. \<forall>j<NBUFS. bf_dev (bufpool s ! i) = 0 \<longrightarrow> bf_dev (bufpool s ! j) = 0 \<longrightarrow>
        bf_blk (bufpool s ! i) = bf_blk (bufpool s ! j) \<longrightarrow> i = j) \<and>
     (\<forall>i<NBUFS. bf_busy (bufpool s ! i) = 0 \<longrightarrow> agrees s (bufpool s ! i)) \<and>
     no_return (lnk s) \<noteq> - 1"

definition bview :: "kst \<Rightarrow> u16 \<Rightarrow> bytes" where
  "bview s blk = (case bfind 0 blk s of Some i \<Rightarrow> bf_data (bufpool s ! i) | None \<Rightarrow> disk_block s blk)"

definition same_view :: "kst \<Rightarrow> kst \<Rightarrow> bool" where
  "same_view s s' \<longleftrightarrow> (\<forall>c k. unat c < 2048 \<longrightarrow> k < 512 \<longrightarrow> bview s' c k = bview s c k)"

definition busy_bufs :: "kst \<Rightarrow> nat set" where
  "busy_bufs s = {i. i < NBUFS \<and> bf_busy (bufpool s ! i) \<noteq> 0}"

text \<open>Only the cache, the medium and \<open>u_buf\<close> can have changed.\<close>

definition buf_frame :: "kst \<Rightarrow> kst \<Rightarrow> bool" where
  "buf_frame s s' \<longleftrightarrow> (\<exists>bp bc cr ub. s' = s\<lparr>bufpool := bp, bufclock := bc, chr_ram := cr,
     udata := (udata s)\<lparr>u_buf := ub\<rparr>\<rparr>)"

lemma buf_frame_refl [simp]: "buf_frame s s"
  unfolding buf_frame_def
  by (intro exI[of _ "bufpool s"] exI[of _ "bufclock s"] exI[of _ "chr_ram s"] exI[of _ "u_buf (udata s)"])
    simp

lemma buf_frameI:
  "s' = s\<lparr>bufpool := bp, bufclock := bc, chr_ram := cr, udata := (udata s)\<lparr>u_buf := ub\<rparr>\<rparr> \<Longrightarrow> buf_frame s s'"
  unfolding buf_frame_def by blast

lemma buf_frame_trans: "buf_frame s t \<Longrightarrow> buf_frame t u \<Longrightarrow> buf_frame s u"
  unfolding buf_frame_def by fastforce

lemma bfind_Some:
  "bfind dev blk s = Some i \<Longrightarrow> i < NBUFS \<and> uint (bf_dev (bufpool s ! i)) = dev \<and> bf_blk (bufpool s ! i) = blk"
  by (auto simp: bfind_def find_Some_iff)

lemma bfind_None:
  "bfind dev blk s = None \<Longrightarrow> i < NBUFS \<Longrightarrow> \<not> (uint (bf_dev (bufpool s ! i)) = dev \<and> bf_blk (bufpool s ! i) = blk)"
  by (auto simp: bfind_def find_None_iff)

lemma uint_dev_0: "uint (d :: byte) = 0 \<longleftrightarrow> d = 0"
  by (simp add: uint_0_iff)

lemma bfind_unique:
  assumes "buf_inv s" and "i < NBUFS" and "bf_dev (bufpool s ! i) = 0" and "bf_blk (bufpool s ! i) = blk"
  shows "bfind 0 blk s = Some i"
proof (cases "bfind 0 blk s")
  case None
  then show ?thesis using bfind_None[of 0 blk s i] assms by simp
next
  case (Some j)
  then have "j < NBUFS" "bf_dev (bufpool s ! j) = 0" "bf_blk (bufpool s ! j) = blk"
    using bfind_Some[of 0 blk s j] by (auto simp: uint_dev_0)
  then have "j = i" using assms unfolding buf_inv_def by blast
  then show ?thesis using Some by simp
qed

lemma bview_cached:
  "buf_inv s \<Longrightarrow> i < NBUFS \<Longrightarrow> bf_dev (bufpool s ! i) = 0 \<Longrightarrow> bview s (bf_blk (bufpool s ! i)) = bf_data (bufpool s ! i)"
  by (simp add: bview_def bfind_unique)

lemma bview_disk:
  assumes "\<And>i. i < NBUFS \<Longrightarrow> bf_dev (bufpool s ! i) = 0 \<Longrightarrow> bf_blk (bufpool s ! i) \<noteq> blk"
  shows "bview s blk = disk_block s blk"
proof (cases "bfind 0 blk s")
  case None
  then show ?thesis by (simp add: bview_def)
next
  case (Some j)
  then show ?thesis using bfind_Some[of 0 blk s j] assms[of j] by (auto simp: uint_dev_0)
qed

lemma same_view_refl [simp]: "same_view s s"
  by (simp add: same_view_def)

lemma same_view_trans: "same_view s t \<Longrightarrow> same_view t u \<Longrightarrow> same_view s u"
  by (simp add: same_view_def)

section \<open>Transfers\<close>

text \<open>The medium with block \<open>blk\<close> replaced.\<close>

definition put_disk :: "u16 \<Rightarrow> bytes \<Rightarrow> (nat \<Rightarrow> nat \<Rightarrow> byte) \<Rightarrow> nat \<Rightarrow> nat \<Rightarrow> byte" where
  "put_disk blk d cr = cr(disk_bank blk :=
     (\<lambda>a. if disk_off blk \<le> a \<and> a < disk_off blk + 512 then d (a - disk_off blk) else cr (disk_bank blk) a))"

lemma disk_block_put_disk:
  assumes "unat blk < 2048" and "unat c < 2048" and "k < 512" and "chr_ram s' = put_disk blk d (chr_ram s)"
  shows "disk_block s' c k = (if c = blk then d k else disk_block s c k)"
  using disk_block_write[OF assms(1,2,3), of d s] disk_place_inj[OF assms(1,2)] assms(3)
  by (auto simp: disk_block_def assms(4) put_disk_def)

lemma disk_block_cong: "chr_ram s = chr_ram t \<Longrightarrow> disk_block s = disk_block t"
  by (simp add: disk_block_def fun_eq_iff)

lemma dev_entry_0: "dev_entry 0 = retK (dev_tab ! 0)"
  by (simp add: dev_entry_def)

lemma bdwrite_eq:
  assumes "bf_dev (bufpool s ! i) = 0" and "unat (bf_blk (bufpool s ! i)) < 2048"
  shows "bdwrite i s = Ret (no_return (lnk s)) (s\<lparr>udata := (udata s)\<lparr>u_buf := Some i\<rparr>,
     chr_ram := put_disk (bf_blk (bufpool s ! i)) (bf_data (bufpool s ! i)) (chr_ram s)\<rparr>)"
proof -
  let ?s = "s\<lparr>udata := (udata s)\<lparr>u_buf := Some i\<rparr>\<rparr>"
  have "ppuwd_write 0 0 ?s = Ret (no_return (lnk s)) (?s\<lparr>chr_ram :=
      put_disk (bf_blk (bufpool s ! i)) (bf_data (bufpool s ! i)) (chr_ram s)\<rparr>)"
    using ppuwd_write_eq[of ?s i "bf_blk (bufpool s ! i)" 0 0] assms(2)
    by (simp add: put_disk_def cong: if_cong)
  then show ?thesis
    using assms(1) by (simp add: bdwrite_def run_simps validdev_def upd_ud_def dev_entry_0 dev_tab_def)
qed

lemma bdread_eq:
  assumes "bf_dev (bufpool s ! i) = 0" and "i < length (bufpool s)"
  shows "bdread i s = Ret 0 (s\<lparr>udata := (udata s)\<lparr>u_buf := Some i\<rparr>,
     bufpool := (bufpool s)[i := (bufpool s ! i)\<lparr>bf_data :=
       (\<lambda>k. if k < 512 then disk_block s (bf_blk (bufpool s ! i)) k else bf_data (bufpool s ! i) k)\<rparr>]\<rparr>)"
proof -
  let ?s = "s\<lparr>udata := (udata s)\<lparr>u_buf := Some i\<rparr>\<rparr>"
  have "ppuwd_read 0 0 ?s = Ret 0 (?s\<lparr>bufpool := (bufpool s)[i := (bufpool s ! i)\<lparr>bf_data :=
       (\<lambda>k. if k < 512 then disk_block s (bf_blk (bufpool s ! i)) k else bf_data (bufpool s ! i) k)\<rparr>]\<rparr>)"
    using ppuwd_read_eq[of ?s i "bf_blk (bufpool s ! i)" 0 0] assms(2)
    by (simp add: disk_block_def cong: if_cong)
  then show ?thesis
    using assms(1) by (simp add: bdread_def run_simps validdev_def upd_ud_def dev_entry_0 dev_tab_def)
qed

section \<open>freebuf\<close>

definition age :: "kst \<Rightarrow> nat \<Rightarrow> u16" where
  "age s i = bufclock s - bf_time (bufpool s ! i)"

lemma freebuf_scan_prefix:
  assumes "fold (\<lambda>i (oldest, oldtime).
       let b = bufpool s ! i in
       if bufclock s - bf_time b \<ge> oldtime \<and> bf_busy b = 0
       then (Some i, bufclock s - bf_time b) else (oldest, oldtime)) [0..<n] (None, 0) = (r, t)"
  shows "case r of
      None \<Rightarrow> t = 0 \<and> (\<forall>i<n. bf_busy (bufpool s ! i) \<noteq> 0)
    | Some i \<Rightarrow> i < n \<and> bf_busy (bufpool s ! i) = 0 \<and> t = age s i \<and>
        (\<forall>j<n. bf_busy (bufpool s ! j) = 0 \<longrightarrow> age s j \<le> age s i)"
  using assms
proof (induction n arbitrary: r t)
  case 0
  then show ?case by simp
next
  case (Suc n)
  obtain r' t' where p: "fold (\<lambda>i (oldest, oldtime).
       let b = bufpool s ! i in
       if bufclock s - bf_time b \<ge> oldtime \<and> bf_busy b = 0
       then (Some i, bufclock s - bf_time b) else (oldest, oldtime)) [0..<n] (None, 0) = (r', t')"
    by fastforce
  have st: "(if t' \<le> age s n \<and> bf_busy (bufpool s ! n) = 0 then (Some n, age s n) else (r', t')) = (r, t)"
    using Suc.prems p by (auto simp: Let_def age_def split: if_splits)
  note ih = Suc.IH[OF p]
  show ?case
  proof (cases "t' \<le> age s n \<and> bf_busy (bufpool s ! n) = 0")
    case True
    then show ?thesis using st ih by (auto simp: less_Suc_eq split: option.splits intro: order_trans)
  next
    case False
    then show ?thesis using st ih by (auto simp: less_Suc_eq split: option.splits)
  qed
qed

lemma freebuf_scan_some:
  assumes "\<exists>i<NBUFS. bf_busy (bufpool s ! i) = 0"
  shows "\<exists>i t. freebuf_scan s = (Some i, t) \<and> i < NBUFS \<and> bf_busy (bufpool s ! i) = 0 \<and>
    (\<forall>j<NBUFS. bf_busy (bufpool s ! j) = 0 \<longrightarrow> age s j \<le> age s i)"
proof -
  obtain r t where rt: "freebuf_scan s = (r, t)" by fastforce
  show ?thesis
    using freebuf_scan_prefix[of s NBUFS r t] rt assms
    unfolding freebuf_scan_def by (cases r) auto
qed

text \<open>The state after the chosen buffer has been written out if it was dirty.\<close>

definition flushed :: "nat \<Rightarrow> kst \<Rightarrow> kst" where
  "flushed i s = (let b = bufpool s ! i in
     if bf_dirty b \<noteq> 0 then s\<lparr>udata := (udata s)\<lparr>u_buf := Some i\<rparr>,
       chr_ram := put_disk (bf_blk b) (bf_data b) (chr_ram s),
       bufpool := (bufpool s)[i := b\<lparr>bf_dirty := 0\<rparr>]\<rparr> else s)"

lemma freebuf_eq:
  assumes "buf_inv s" and "freebuf_scan s = (Some i, t)" and "i < NBUFS"
  shows "freebuf s = Ret i (flushed i s)"
proof (cases "bf_dirty (bufpool s ! i) = 0")
  case True
  then show ?thesis using assms(2) by (simp add: freebuf_def run_simps flushed_def Let_def)
next
  case False
  have "buf_ok (bufpool s ! i)" using assms(1,3) unfolding buf_inv_def by blast
  then have d: "bf_dev (bufpool s ! i) = 0" "unat (bf_blk (bufpool s ! i)) < 2048"
    using False by (auto simp: buf_ok_def)
  have "no_return (lnk s) \<noteq> - 1" using assms(1) by (simp add: buf_inv_def)
  then show ?thesis
    using assms(2) False bdwrite_eq[OF d]
    by (simp add: freebuf_def run_simps flushed_def Let_def upd_buf_def)
qed

lemma flushed_frame: "buf_frame s (flushed i s)"
  by (rule buf_frameI[where bp = "bufpool (flushed i s)" and bc = "bufclock s"
        and cr = "chr_ram (flushed i s)" and ub = "u_buf (udata (flushed i s))"]) (simp add: flushed_def Let_def)

lemma flushed_pool:
  assumes "length (bufpool s) = NBUFS" and "i < NBUFS"
  shows "length (bufpool (flushed i s)) = NBUFS"
    and "bufpool (flushed i s) ! j = (if j = i then (bufpool s ! i)\<lparr>bf_dirty := 0\<rparr> else bufpool s ! j)"
  using assms by (auto simp: flushed_def Let_def)

lemma flushed_disk:
  assumes "buf_inv s" and "i < NBUFS" and "unat c < 2048" and "k < 512"
  shows "disk_block (flushed i s) c k =
    (if bf_dirty (bufpool s ! i) \<noteq> 0 \<and> c = bf_blk (bufpool s ! i) then bf_data (bufpool s ! i) k
     else disk_block s c k)"
proof (cases "bf_dirty (bufpool s ! i) = 0")
  case True
  then show ?thesis by (simp add: flushed_def)
next
  case False
  have "buf_ok (bufpool s ! i)" using assms(1,2) unfolding buf_inv_def by blast
  then have "unat (bf_blk (bufpool s ! i)) < 2048" using False by (auto simp: buf_ok_def)
  from disk_block_put_disk[OF this assms(3,4), of "flushed i s" "bf_data (bufpool s ! i)" s]
  show ?thesis using False by (simp add: flushed_def Let_def)
qed

lemma flushed_inv:
  assumes inv: "buf_inv s" and i: "i < NBUFS" and "bf_busy (bufpool s ! i) = 0"
  shows "buf_inv (flushed i s)"
proof -
  let ?t = "flushed i s"
  have len: "length (bufpool s) = NBUFS" using inv by (simp add: buf_inv_def)
  note pool = flushed_pool[OF len i]
  have ok: "\<forall>j<NBUFS. buf_ok (bufpool s ! j)" using inv by (simp add: buf_inv_def)
  have uniq: "\<And>j l. j < NBUFS \<Longrightarrow> l < NBUFS \<Longrightarrow> bf_dev (bufpool s ! j) = 0 \<Longrightarrow> bf_dev (bufpool s ! l) = 0 \<Longrightarrow>
      bf_blk (bufpool s ! j) = bf_blk (bufpool s ! l) \<Longrightarrow> j = l" using inv unfolding buf_inv_def by blast
  have ag: "\<And>j. j < NBUFS \<Longrightarrow> bf_busy (bufpool s ! j) = 0 \<Longrightarrow> agrees s (bufpool s ! j)"
    using inv by (simp add: buf_inv_def)
  have "agrees ?t (bufpool ?t ! j)" if j: "j < NBUFS" "bf_busy (bufpool ?t ! j) = 0" for j
  proof (cases "j = i")
    case True
    have "unat (bf_blk (bufpool s ! i)) < 2048" if "bf_dev (bufpool s ! i) = 0"
      using ok i that by (auto simp: buf_ok_def)
    then show ?thesis
      using True ag[OF i assms(3)] flushed_disk[OF inv i] by (auto simp: agrees_def pool)
  next
    case False
    have busy: "bf_busy (bufpool s ! j) = 0" using j False by (simp add: pool)
    have b: "unat (bf_blk (bufpool s ! j)) < 2048" if "bf_dev (bufpool s ! j) = 0"
      using ok j that by (auto simp: buf_ok_def)
    have ne: "bf_blk (bufpool s ! j) \<noteq> bf_blk (bufpool s ! i)"
      if "bf_dev (bufpool s ! j) = 0" "bf_dirty (bufpool s ! i) \<noteq> 0"
      using that uniq[OF j(1) i] ok i False by (auto simp: buf_ok_def)
    show ?thesis
      using False ag[OF j(1) busy] flushed_disk[OF inv i] b ne by (auto simp: agrees_def pool)
  qed
  moreover have "buf_ok (bufpool ?t ! j)" if "j < NBUFS" for j
    using ok that i by (auto simp: pool buf_ok_def)
  moreover have "j = l" if "j < NBUFS" "l < NBUFS" "bf_dev (bufpool ?t ! j) = 0" "bf_dev (bufpool ?t ! l) = 0"
      "bf_blk (bufpool ?t ! j) = bf_blk (bufpool ?t ! l)" for j l
    using uniq[OF that(1,2)] that by (auto simp: pool split: if_splits)
  moreover have "no_return (lnk ?t) \<noteq> - 1" using inv by (simp add: buf_inv_def flushed_def Let_def)
  ultimately show ?thesis unfolding buf_inv_def using pool(1) by blast
qed

lemma flushed_view:
  assumes inv: "buf_inv s" and i: "i < NBUFS" and "bf_busy (bufpool s ! i) = 0"
  shows "same_view s (flushed i s)"
  unfolding same_view_def
proof (intro allI impI)
  fix c :: u16 and k :: nat
  assume c: "unat c < 2048" and k: "k < 512"
  have len: "length (bufpool s) = NBUFS" using inv by (simp add: buf_inv_def)
  note pool = flushed_pool[OF len i]
  have bf: "bfind 0 c (flushed i s) = bfind 0 c s"
    unfolding bfind_def by (rule find_cong) (auto simp: pool)
  show "bview (flushed i s) c k = bview s c k"
  proof (cases "bfind 0 c s")
    case None
    then have "\<not> (bf_dev (bufpool s ! i) = 0 \<and> bf_blk (bufpool s ! i) = c)"
      using bfind_None[of 0 c s i] i by (simp add: uint_dev_0)
    moreover have "bf_dirty (bufpool s ! i) \<noteq> 0 \<Longrightarrow> bf_dev (bufpool s ! i) = 0"
      using inv i by (auto simp: buf_inv_def buf_ok_def)
    ultimately show ?thesis
      using None flushed_disk[OF inv i c k] by (auto simp: bview_def bf)
  next
    case (Some j)
    then show ?thesis by (simp add: bview_def bf pool)
  qed
qed

section \<open>Replacing one buffer\<close>

lemma put_buf_inv:
  assumes inv: "buf_inv t" and i: "i < NBUFS"
    and pool: "bufpool t' = (bufpool t)[i := b]" and "chr_ram t' = chr_ram t" and "lnk t' = lnk t"
    and ok: "buf_ok b"
    and uniq: "\<And>j. j < NBUFS \<Longrightarrow> j \<noteq> i \<Longrightarrow> bf_dev b = 0 \<Longrightarrow> bf_dev (bufpool t ! j) = 0 \<Longrightarrow>
                 bf_blk (bufpool t ! j) \<noteq> bf_blk b"
    and ag: "bf_busy b = 0 \<Longrightarrow> agrees t b"
  shows "buf_inv t'"
proof -
  have len: "length (bufpool t) = NBUFS" using inv by (simp add: buf_inv_def)
  have at: "bufpool t' ! j = (if j = i then b else bufpool t ! j)" for j
    using len i by (simp add: pool)
  have d: "agrees t' c = agrees t c" for c
    using disk_block_cong[of t' t] assms(4) by (simp add: agrees_def)
  have u: "\<And>j l. j < NBUFS \<Longrightarrow> l < NBUFS \<Longrightarrow> bf_dev (bufpool t ! j) = 0 \<Longrightarrow> bf_dev (bufpool t ! l) = 0 \<Longrightarrow>
      bf_blk (bufpool t ! j) = bf_blk (bufpool t ! l) \<Longrightarrow> j = l" using inv unfolding buf_inv_def by blast
  have "length (bufpool t') = NBUFS" using len by (simp add: pool)
  moreover have "buf_ok (bufpool t' ! j)" if "j < NBUFS" for j
    using inv that ok by (simp add: at buf_inv_def)
  moreover have "j = l" if "j < NBUFS" "l < NBUFS" "bf_dev (bufpool t' ! j) = 0" "bf_dev (bufpool t' ! l) = 0"
      "bf_blk (bufpool t' ! j) = bf_blk (bufpool t' ! l)" for j l
    using that u[OF that(1,2)] uniq[OF that(1)] uniq[OF that(2)] by (auto simp: at split: if_splits)
  moreover have "agrees t' (bufpool t' ! j)" if "j < NBUFS" "bf_busy (bufpool t' ! j) = 0" for j
    using that inv ag by (auto simp: at d buf_inv_def split: if_splits)
  moreover have "no_return (lnk t') \<noteq> - 1" using inv by (simp add: assms(5) buf_inv_def)
  ultimately show ?thesis unfolding buf_inv_def by blast
qed

lemma put_buf_view:
  assumes inv: "buf_inv t" and inv': "buf_inv t'" and i: "i < NBUFS"
    and pool: "bufpool t' = (bufpool t)[i := b]" and cr: "chr_ram t' = chr_ram t"
    and dev: "bf_dev b = 0"
    and clean: "bf_dev (bufpool t ! i) = 0 \<Longrightarrow> bf_blk (bufpool t ! i) = c \<Longrightarrow> bf_blk b \<noteq> c \<Longrightarrow>
                  bf_data (bufpool t ! i) k = disk_block t c k"
  shows "bview t' c k = (if bf_blk b = c then bf_data b k else bview t c k)"
proof -
  have len: "length (bufpool t) = NBUFS" using inv by (simp add: buf_inv_def)
  have at: "bufpool t' ! j = (if j = i then b else bufpool t ! j)" for j
    using len i by (simp add: pool)
  have d: "disk_block t' = disk_block t" using cr by (rule disk_block_cong)
  show ?thesis
  proof (cases "bf_blk b = c")
    case True
    then show ?thesis using bview_cached[OF inv' i] dev by (simp add: at)
  next
    case False
    show ?thesis
    proof (cases "bfind 0 c t")
      case None
      have n: "bf_blk (bufpool t ! l) \<noteq> c" if "l < NBUFS" "bf_dev (bufpool t ! l) = 0" for l
        using bfind_None[OF None that(1)] that(2) by (simp add: uint_dev_0)
      have "bview t' c = disk_block t' c"
      proof (rule bview_disk)
        show "bf_blk (bufpool t' ! l) \<noteq> c" if "l < NBUFS" "bf_dev (bufpool t' ! l) = 0" for l
          using that n[of l] False by (cases "l = i") (simp_all add: at)
      qed
      then show ?thesis using False None by (simp add: bview_def d)
    next
      case (Some j)
      then have j: "j < NBUFS" "bf_dev (bufpool t ! j) = 0" "bf_blk (bufpool t ! j) = c"
        using bfind_Some[OF Some] by (auto simp: uint_dev_0)
      have v: "bview t c = bf_data (bufpool t ! j)" using Some by (simp add: bview_def)
      show ?thesis
      proof (cases "j = i")
        case True
        have "bview t' c = disk_block t' c"
        proof (rule bview_disk)
          fix l assume l: "l < NBUFS" "bf_dev (bufpool t' ! l) = 0"
          show "bf_blk (bufpool t' ! l) \<noteq> c"
          proof
            assume c: "bf_blk (bufpool t' ! l) = c"
            then have "l \<noteq> i" using False by (auto simp: at)
            then have "bf_dev (bufpool t ! l) = 0" "bf_blk (bufpool t ! l) = c" using l c by (simp_all add: at)
            then have "bfind 0 c t = Some l" using bfind_unique[OF inv l(1)] by simp
            then show False using Some True \<open>l \<noteq> i\<close> by simp
          qed
        qed
        then show ?thesis using True clean j False v by (simp add: d)
      next
        case False': False
        then have "bview t' c = bf_data (bufpool t ! j)"
          using bview_cached[OF inv' j(1)] j by (simp add: at)
        then show ?thesis using v False by simp
      qed
    qed
  qed
qed

section \<open>Specifications of bread, bfree, zerobuf, bufsync\<close>

text \<open>Buffer \<open>i\<close> is in the caller's hands and holds block \<open>blk\<close> of the root device.\<close>

definition holds :: "kst \<Rightarrow> nat \<Rightarrow> u16 \<Rightarrow> bool" where
  "holds s i blk \<longleftrightarrow> i < NBUFS \<and> bf_dev (bufpool s ! i) = 0 \<and> bf_blk (bufpool s ! i) = blk \<and>
     bf_busy (bufpool s ! i) \<noteq> 0"

definition held :: "kst \<Rightarrow> u16 \<Rightarrow> bool" where
  "held s blk \<longleftrightarrow> (\<exists>i. holds s i blk)"

text \<open>What \<open>bread\<close> promises when the block is not in use and some buffer is free.\<close>

definition bread_post :: "u16 \<Rightarrow> bool \<Rightarrow> kst \<Rightarrow> nat \<Rightarrow> kst \<Rightarrow> bool" where
  "bread_post blk rd s i s' \<longleftrightarrow> buf_inv s' \<and> buf_frame s s' \<and> holds s' i blk \<and>
     bf_busy (bufpool s ! i) = 0 \<and> (\<forall>j. j \<noteq> i \<longrightarrow> bufpool s' ! j = bufpool s ! j) \<and>
     (\<forall>c k. unat c < 2048 \<longrightarrow> k < 512 \<longrightarrow> c \<noteq> blk \<longrightarrow> bview s' c k = bview s c k) \<and>
     (rd \<longrightarrow> agrees s' (bufpool s' ! i) \<and> (\<forall>k<512. bview s' blk k = bview s blk k))"

lemma wp_bread_done:
  "i < length (bufpool s) \<Longrightarrow> wp (bread_done i) Q s = Q (Some i) (s\<lparr>bufclock := bufclock s + 1,
     bufpool := (bufpool s)[i := (bufpool s ! i)\<lparr>bf_busy := 1, bf_time := bufclock s + 1\<rparr>]\<rparr>)"
  by (simp add: bread_done_def wp_def run_simps upd_buf_def)

lemma bread_hit:
  assumes inv: "buf_inv s" and f: "bfind 0 blk s = Some i" and nb: "bf_busy (bufpool s ! i) = 0"
  shows "wp (bread 0 blk rw) (\<lambda>r s'. r = Some i \<and> bread_post blk True s i s') s"
proof -
  let ?b = "(bufpool s ! i)\<lparr>bf_busy := 1, bf_time := bufclock s + 1\<rparr>"
  let ?s' = "s\<lparr>bufclock := bufclock s + 1, bufpool := (bufpool s)[i := ?b]\<rparr>"
  have i: "i < NBUFS" "bf_dev (bufpool s ! i) = 0" "bf_blk (bufpool s ! i) = blk"
    using bfind_Some[OF f] by (auto simp: uint_dev_0)
  have len: "length (bufpool s) = NBUFS" using inv by (simp add: buf_inv_def)
  have u: "j \<noteq> i \<Longrightarrow> j < NBUFS \<Longrightarrow> bf_dev (bufpool s ! j) = 0 \<Longrightarrow> bf_blk (bufpool s ! j) \<noteq> blk" for j
    using inv i unfolding buf_inv_def by blast
  have ok: "buf_ok (bufpool s ! i)" and ag: "agrees s (bufpool s ! i)"
    using inv i nb by (simp_all add: buf_inv_def)
  have inv': "buf_inv ?s'"
    by (rule put_buf_inv[OF inv i(1), where b = ?b]) (use i u ok in \<open>auto simp: buf_ok_def\<close>)
  have v: "bview ?s' c k = bview s c k" for c k
    using put_buf_view[OF inv inv' i(1), of ?b c k] i bview_cached[OF inv i(1,2)] by auto
  have fr: "buf_frame s ?s'"
    by (rule buf_frameI[where bp = "bufpool ?s'" and bc = "bufclock ?s'" and cr = "chr_ram s"
          and ub = "u_buf (udata s)"]) simp
  have ag': "agrees ?s' (bufpool ?s' ! i)"
    using ag len i by (simp add: agrees_def disk_block_def)
  have "bread_post blk True s i ?s'"
    unfolding bread_post_def using inv' fr ag' i len nb v by (simp add: holds_def)
  then have "wp (bread_done i) (\<lambda>r s'. r = Some i \<and> bread_post blk True s i s') s"
    using i len by (simp add: wp_bread_done)
  then show ?thesis
    using f nb by (simp add: bread_def)
qed

lemma frame_simps:
  "buf_frame s (s\<lparr>bufpool := bp\<rparr>)"
  "buf_frame s (s\<lparr>bufclock := bc, bufpool := bp\<rparr>)"
  "buf_frame s (s\<lparr>udata := (udata s)\<lparr>u_buf := ub\<rparr>\<rparr>)"
  "buf_frame s (s\<lparr>udata := (udata s)\<lparr>u_buf := ub\<rparr>, bufpool := bp\<rparr>)"
  "buf_frame s (s\<lparr>bufpool := bp, bufclock := bc\<rparr>)"
  "buf_frame s (s\<lparr>udata := (udata s)\<lparr>u_buf := ub\<rparr>, bufclock := bc, bufpool := bp\<rparr>)"
  by (rule buf_frameI[where bp = bp and bc = "bufclock s" and cr = "chr_ram s" and ub = "u_buf (udata s)"], simp,
      rule buf_frameI[where bp = bp and bc = bc and cr = "chr_ram s" and ub = "u_buf (udata s)"], simp,
      rule buf_frameI[where bp = "bufpool s" and bc = "bufclock s" and cr = "chr_ram s" and ub = ub], simp,
      rule buf_frameI[where bp = bp and bc = "bufclock s" and cr = "chr_ram s" and ub = ub], simp,
      rule buf_frameI[where bp = bp and bc = bc and cr = "chr_ram s" and ub = "u_buf (udata s)"], simp,
      rule buf_frameI[where bp = bp and bc = bc and cr = "chr_ram s" and ub = ub], simp)

lemma bread_miss:
  assumes inv: "buf_inv s" and f: "bfind 0 blk s = None" and blk: "unat blk < 2048"
    and free: "\<exists>i<NBUFS. bf_busy (bufpool s ! i) = 0"
  shows "wp (bread 0 blk rw) (\<lambda>r s'. \<exists>i. r = Some i \<and> bread_post blk (rw = 0) s i s' \<and>
      (rw = 2 \<longrightarrow> (\<forall>k<512. bf_data (bufpool s' ! i) k = 0))) s"
proof -
  obtain i tm where sc: "freebuf_scan s = (Some i, tm)" and i: "i < NBUFS" and nb: "bf_busy (bufpool s ! i) = 0"
    using freebuf_scan_some[OF free] by blast
  let ?t = "flushed i s"
  have inv_t: "buf_inv ?t" using flushed_inv[OF inv i nb] .
  have view_t: "same_view s ?t" using flushed_view[OF inv i nb] .
  have len: "length (bufpool s) = NBUFS" using inv by (simp add: buf_inv_def)
  note pool = flushed_pool[OF len i]
  have ti: "bf_busy (bufpool ?t ! i) = 0" "bf_dirty (bufpool ?t ! i) = 0" using nb by (simp_all add: pool)
  have clean: "bf_dev (bufpool ?t ! i) = 0 \<Longrightarrow> bf_blk (bufpool ?t ! i) = c \<Longrightarrow> k < 512 \<Longrightarrow>
      bf_data (bufpool ?t ! i) k = disk_block ?t c k" for c k
    using inv_t i ti unfolding buf_inv_def agrees_def by blast
  have nh: "bf_blk (bufpool ?t ! j) \<noteq> blk" if "j < NBUFS" "bf_dev (bufpool ?t ! j) = 0" for j
    using bfind_None[OF f that(1)] that by (auto simp: pool uint_dev_0 split: if_splits)
  have v_blk: "bview ?t blk = disk_block ?t blk" using nh by (intro bview_disk) blast
  define d where "d = (if rw = 0 then (\<lambda>k. if k < 512 then disk_block ?t blk k else bf_data (bufpool s ! i) k)
      else if rw = 2 then (\<lambda>k. if k < 512 then 0 else bf_data (bufpool s ! i) k) else bf_data (bufpool s ! i))"
  define u where "u = (if rw = 0 then ?t\<lparr>udata := (udata ?t)\<lparr>u_buf := Some i\<rparr>\<rparr> else ?t)"
  define b where "b = (bufpool ?t ! i)\<lparr>bf_dev := 0, bf_blk := blk, bf_data := d, bf_busy := 1,
      bf_time := bufclock ?t + 1\<rparr>"
  let ?s' = "u\<lparr>bufclock := bufclock ?t + 1, bufpool := (bufpool ?t)[i := b]\<rparr>"
  have u: "bufpool u = bufpool ?t" "chr_ram u = chr_ram ?t" "lnk u = lnk ?t" "bufclock u = bufclock ?t"
    by (simp_all add: u_def)
  have inv': "buf_inv ?s'"
    by (rule put_buf_inv[OF inv_t i, where b = b]) (use blk nh u in \<open>auto simp: b_def buf_ok_def\<close>)
  have v: "bview ?s' c k = (if c = blk then d k else bview ?t c k)" if "k < 512" for c k
    using put_buf_view[OF inv_t inv' i, of b c k] clean[OF _ _ that] that by (auto simp: b_def u)
  have fr: "buf_frame s ?s'"
  proof -
    have "buf_frame ?t ?s'" unfolding u_def by (simp add: frame_simps)
    then show ?thesis using flushed_frame buf_frame_trans by blast
  qed
  have post: "bread_post blk (rw = 0) s i ?s'"
    unfolding bread_post_def
  proof (intro conjI)
    show "buf_inv ?s'" by (rule inv')
    show "buf_frame s ?s'" by (rule fr)
    show "holds ?s' i blk" using i len by (simp add: holds_def b_def pool)
    show "bf_busy (bufpool s ! i) = 0" by (rule nb)
    show "\<forall>j. j \<noteq> i \<longrightarrow> bufpool ?s' ! j = bufpool s ! j" by (simp add: pool)
    show "\<forall>c k. unat c < 2048 \<longrightarrow> k < 512 \<longrightarrow> c \<noteq> blk \<longrightarrow> bview ?s' c k = bview s c k"
      using v view_t by (simp add: same_view_def)
    show "rw = 0 \<longrightarrow> agrees ?s' (bufpool ?s' ! i) \<and> (\<forall>k<512. bview ?s' blk k = bview s blk k)"
    proof (intro impI conjI)
      assume rw: "rw = 0"
      then have d: "d = (\<lambda>k. if k < 512 then disk_block ?t blk k else bf_data (bufpool s ! i) k)"
        by (simp add: d_def)
      show "agrees ?s' (bufpool ?s' ! i)"
        using i len by (simp add: agrees_def b_def pool d disk_block_def u)
      have "disk_block ?t blk k = bview s blk k" if "k < 512" for k
        using view_t blk that unfolding same_view_def v_blk[symmetric] by blast
      then show "\<forall>k<512. bview ?s' blk k = bview s blk k"
        using v by (simp add: d)
    qed
  qed
  have zero: "rw = 2 \<longrightarrow> (\<forall>k<512. bf_data (bufpool ?s' ! i) k = 0)"
    using i len by (simp add: b_def pool d_def)
  let ?t1 = "?t\<lparr>bufpool := (bufpool ?t)[i := (bufpool ?t ! i)\<lparr>bf_dev := 0, bf_blk := blk\<rparr>]\<rparr>"
  have rd: "bdread i ?t1 = Ret 0 (?t1\<lparr>udata := (udata ?t)\<lparr>u_buf := Some i\<rparr>,
      bufpool := (bufpool ?t)[i := (bufpool ?t ! i)\<lparr>bf_dev := 0, bf_blk := blk, bf_data :=
        (\<lambda>k. if k < 512 then disk_block ?t blk k else bf_data (bufpool s ! i) k)\<rparr>]\<rparr>)"
    using bdread_eq[of ?t1 i] i len by (simp add: pool disk_block_def cong: if_cong)
  have run: "bread 0 blk rw s = Ret (Some i) ?s'"
    using f freebuf_eq[OF inv sc i] rd i len
    by (auto simp: bread_def run_simps upd_buf_def bread_done_def clear_data_def b_def d_def u_def pool
        cong: if_cong)
  show ?thesis using run post zero by (simp add: wp_def)
qed

text \<open>Both cases together.\<close>

definition some_free :: "kst \<Rightarrow> bool" where
  "some_free s \<longleftrightarrow> (\<exists>i<NBUFS. bf_busy (bufpool s ! i) = 0)"

lemma bread_spec:
  assumes "buf_inv s" and "unat blk < 2048" and "\<not> held s blk" and "some_free s"
  shows "wp (bread 0 blk rw) (\<lambda>r s'. \<exists>i. r = Some i \<and> bread_post blk (rw = 0) s i s') s"
proof (cases "bfind 0 blk s")
  case None
  show ?thesis
    by (rule wp_mono[OF bread_miss[OF assms(1) None assms(2) assms(4)[unfolded some_free_def]]]) blast
next
  case (Some i)
  then have "bf_busy (bufpool s ! i) = 0"
    using assms(3) bfind_Some[OF Some] by (auto simp: held_def holds_def uint_dev_0)
  from bread_hit[OF assms(1) Some this] show ?thesis
    by (rule wp_mono) (auto simp: bread_post_def)
qed

text \<open>The caller writes into a buffer it holds.\<close>

definition set_data :: "nat \<Rightarrow> bytes \<Rightarrow> kst \<Rightarrow> kst" where
  "set_data i d s = s\<lparr>bufpool := (bufpool s)[i := (bufpool s ! i)\<lparr>bf_data := d\<rparr>]\<rparr>"

definition only_buf :: "nat \<Rightarrow> kst \<Rightarrow> kst \<Rightarrow> bool" where
  "only_buf i s s' \<longleftrightarrow> (\<forall>j. j \<noteq> i \<longrightarrow> bufpool s' ! j = bufpool s ! j)"

lemma held_unique:
  "buf_inv s \<Longrightarrow> holds s i blk \<Longrightarrow> j < NBUFS \<Longrightarrow> j \<noteq> i \<Longrightarrow> bf_dev (bufpool s ! j) = 0 \<Longrightarrow> bf_blk (bufpool s ! j) \<noteq> blk"
  unfolding buf_inv_def holds_def by blast

lemma holds_range: "buf_inv s \<Longrightarrow> holds s i blk \<Longrightarrow> unat blk < 2048"
  unfolding buf_inv_def holds_def buf_ok_def by fastforce

lemma set_data_spec:
  assumes inv: "buf_inv s" and h: "holds s i blk"
  shows "buf_inv (set_data i d s)" and "holds (set_data i d s) i blk" and "buf_frame s (set_data i d s)"
    and "bview (set_data i d s) c k = (if c = blk then d k else bview s c k)"
    and "only_buf i s (set_data i d s)"
proof -
  let ?b = "(bufpool s ! i)\<lparr>bf_data := d\<rparr>"
  have i: "i < NBUFS" "bf_dev (bufpool s ! i) = 0" "bf_blk (bufpool s ! i) = blk" "bf_busy (bufpool s ! i) \<noteq> 0"
    using h by (simp_all add: holds_def)
  have len: "length (bufpool s) = NBUFS" using inv by (simp add: buf_inv_def)
  have ok: "buf_ok (bufpool s ! i)" using inv i by (simp add: buf_inv_def)
  have p: "bufpool (set_data i d s) = (bufpool s)[i := ?b]" by (simp add: set_data_def)
  show inv': "buf_inv (set_data i d s)"
    by (rule put_buf_inv[OF inv i(1) p]) (use i ok held_unique[OF inv h] in \<open>auto simp: set_data_def buf_ok_def\<close>)
  show "holds (set_data i d s) i blk" using i len by (simp add: holds_def set_data_def)
  show "buf_frame s (set_data i d s)" by (simp add: set_data_def frame_simps)
  show "bview (set_data i d s) c k = (if c = blk then d k else bview s c k)"
    using put_buf_view[OF inv inv' i(1) p, of c k] i by (auto simp: set_data_def)
  show "only_buf i s (set_data i d s)" by (simp add: only_buf_def set_data_def)
qed

text \<open>Giving a buffer back, clean or dirty.\<close>

definition release_post :: "kst \<Rightarrow> nat \<Rightarrow> kst \<Rightarrow> bool" where
  "release_post s i s' \<longleftrightarrow> buf_inv s' \<and> buf_frame s s' \<and> only_buf i s s' \<and>
     bf_busy (bufpool s' ! i) = 0 \<and> (\<forall>c k. bview s' c k = bview s c k)"

lemma release_spec:
  assumes inv: "buf_inv s" and h: "holds s i blk"
    and d: "dirty = 0 \<and> agrees s (bufpool s ! i) \<or> dirty = 1"
  shows "wp (bfree i dirty) (\<lambda>_ s'. release_post s i s') s"
proof -
  let ?b = "(bufpool s ! i)\<lparr>bf_dirty := bf_dirty (bufpool s ! i) OR word_of_int dirty, bf_busy := 0\<rparr>"
  let ?s' = "s\<lparr>bufpool := (bufpool s)[i := ?b]\<rparr>"
  have i: "i < NBUFS" "bf_dev (bufpool s ! i) = 0" "bf_blk (bufpool s ! i) = blk"
    using h by (simp_all add: holds_def)
  have len: "length (bufpool s) = NBUFS" using inv by (simp add: buf_inv_def)
  have ok: "buf_ok (bufpool s ! i)" using inv i by (simp add: buf_inv_def)
  have ne: "(x OR (1 :: byte)) \<noteq> 0" for x
  proof
    assume "x OR (1 :: byte) = 0"
    then have "bit (x OR (1 :: byte)) 0 = bit (0 :: byte) 0" by simp
    then show False by (simp add: bit_simps)
  qed
  have ag: "agrees s ?b"
    using d ne by (auto simp: agrees_def)
  have inv': "buf_inv ?s'"
    by (rule put_buf_inv[OF inv i(1), where b = ?b]) (use i ok ag held_unique[OF inv h] in \<open>auto simp: buf_ok_def\<close>)
  have v: "bview ?s' c k = bview s c k" for c k
    using put_buf_view[OF inv inv' i(1), of ?b c k] i bview_cached[OF inv i(1,2)] by auto
  have "release_post s i ?s'"
    using inv' v i len by (simp add: release_post_def frame_simps only_buf_def)
  then show ?thesis
    using d len i by (auto simp: bfree_def)
qed

lemma brelse_spec:
  "buf_inv s \<Longrightarrow> holds s i blk \<Longrightarrow> agrees s (bufpool s ! i) \<Longrightarrow> wp (brelse i) (\<lambda>_ s'. release_post s i s') s"
  using release_spec[of s i blk 0] by (simp add: brelse_def)

lemma bawrite_spec:
  "buf_inv s \<Longrightarrow> holds s i blk \<Longrightarrow> wp (bawrite i) (\<lambda>_ s'. release_post s i s') s"
  using release_spec[of s i blk 1] by (simp add: bawrite_def)

text \<open>\<open>zerobuf\<close>: 512 zero bytes in a buffer of no device; nothing visible changes.\<close>

lemma zerobuf_spec:
  assumes inv: "buf_inv s" and free: "some_free s"
  shows "wp zerobuf (\<lambda>i s'. i < NBUFS \<and> buf_inv s' \<and> buf_frame s s' \<and> only_buf i s s' \<and>
     bf_busy (bufpool s ! i) = 0 \<and> bf_busy (bufpool s' ! i) = 0 \<and> bf_dev (bufpool s' ! i) = 255 \<and>
     same_view s s' \<and> (\<forall>k<512. bf_data (bufpool s' ! i) k = 0)) s"
proof -
  obtain i tm where sc: "freebuf_scan s = (Some i, tm)" and i: "i < NBUFS" and nb: "bf_busy (bufpool s ! i) = 0"
    using freebuf_scan_some free unfolding some_free_def by blast
  let ?t = "flushed i s"
  have inv_t: "buf_inv ?t" using flushed_inv[OF inv i nb] .
  have len: "length (bufpool s) = NBUFS" using inv by (simp add: buf_inv_def)
  note pool = flushed_pool[OF len i]
  let ?b = "clear_data ((bufpool ?t ! i)\<lparr>bf_dev := - 1\<rparr>)"
  let ?s' = "?t\<lparr>bufpool := (bufpool ?t)[i := ?b]\<rparr>"
  have b: "bf_dev ?b = 255" "bf_dirty ?b = 0" "bf_busy ?b = 0" "\<forall>k<512. bf_data ?b k = 0"
    using nb by (simp_all add: clear_data_def pool)
  have inv': "buf_inv ?s'"
    by (rule put_buf_inv[OF inv_t i, where b = ?b]) (use b in \<open>auto simp: buf_ok_def agrees_def\<close>)
  have "bf_busy (bufpool ?t ! i) = 0" using nb by (simp add: pool)
  then have ag: "agrees ?t (bufpool ?t ! i)" using inv_t i unfolding buf_inv_def by blast
  have cl: "bf_dirty (bufpool ?t ! i) = 0" by (simp add: pool)
  have "bview ?s' c k = bview ?t c k" if "k < 512" for c k
  proof (cases "bf_dev (bufpool ?t ! i) = 0 \<and> bf_blk (bufpool ?t ! i) = c")
    case True
    have t: "bf_dev (bufpool ?t ! i) = 0" "bf_blk (bufpool ?t ! i) = c" using True by simp_all
    have "bview ?t c = bf_data (bufpool ?t ! i)" using bview_cached[OF inv_t i t(1)] unfolding t(2) .
    moreover have "bf_data (bufpool ?t ! i) k = disk_block ?t c k"
      using ag t(1) cl that unfolding agrees_def t(2) by simp
    ultimately have "bview ?t c k = disk_block ?t c k" by simp
    moreover have "bview ?s' c = disk_block ?s' c"
    proof (rule bview_disk)
      show "bf_blk (bufpool ?s' ! j) \<noteq> c" if j: "j < NBUFS" "bf_dev (bufpool ?s' ! j) = 0" for j
      proof (cases "j = i")
        case True
        then show ?thesis using j(2) b(1) i pool(1) by simp
      next
        case False
        then have "bf_dev (bufpool ?t ! j) = 0" using j by simp
        moreover have "bf_blk (bufpool ?t ! j) = c \<Longrightarrow> bf_dev (bufpool ?t ! j) = 0 \<Longrightarrow> j = i"
          using inv_t i j(1) True unfolding buf_inv_def by blast
        ultimately show ?thesis using False by auto
      qed
    qed
    ultimately show ?thesis by (simp add: disk_block_def)
  next
    case False
    have "bfind 0 c ?s' = bfind 0 c ?t"
      unfolding bfind_def by (rule find_cong) (use False b(1) i pool(1) in \<open>auto simp: uint_dev_0 nth_list_update\<close>)
    moreover have "bfind 0 c ?t \<noteq> Some i" using bfind_Some[of 0 c ?t i] False by (auto simp: uint_dev_0)
    ultimately show ?thesis by (auto simp: bview_def disk_block_def split: option.splits)
  qed
  then have view: "same_view s ?s'"
    using flushed_view[OF inv i nb] by (simp add: same_view_def)
  have fr: "buf_frame s ?s'"
    by (rule buf_frame_trans[OF flushed_frame frame_simps(1)])
  have "zerobuf s = Ret i ?s'"
    using freebuf_eq[OF inv sc i] i pool(1) by (simp add: zerobuf_def run_simps upd_buf_def)
  then show ?thesis
    using i inv' fr b view nb pool by (simp add: wp_def only_buf_def)
qed

lemma bufsync_prefix:
  assumes inv: "buf_inv s" and "n \<le> NBUFS"
  shows "\<exists>ub cr. forK [0..<n] (\<lambda>i. bindK (getK (\<lambda>s. bufpool s ! i)) (\<lambda>b.
       whenK (uint (bf_dev b) \<noteq> - 1 \<and> bf_dirty b \<noteq> 0) (bindK (bdwrite i) (\<lambda>_. retK ())))) s
     = Ret () (s\<lparr>chr_ram := cr, udata := (udata s)\<lparr>u_buf := ub\<rparr>\<rparr>) \<and>
     (\<forall>i<n. bf_dirty (bufpool s ! i) \<noteq> 0 \<longrightarrow>
        (\<forall>k<512. disk_block (s\<lparr>chr_ram := cr\<rparr>) (bf_blk (bufpool s ! i)) k = bf_data (bufpool s ! i) k)) \<and>
     (\<forall>c. unat c < 2048 \<longrightarrow> (\<forall>i<n. bf_dirty (bufpool s ! i) \<noteq> 0 \<longrightarrow> bf_blk (bufpool s ! i) \<noteq> c) \<longrightarrow>
        (\<forall>k<512. disk_block (s\<lparr>chr_ram := cr\<rparr>) c k = disk_block s c k))"
  using assms(2)
proof (induction n)
  case 0
  show ?case by (intro exI[of _ "u_buf (udata s)"] exI[of _ "chr_ram s"]) (simp add: run_simps)
next
  case (Suc n)
  let ?body = "\<lambda>i. bindK (getK (\<lambda>s. bufpool s ! i)) (\<lambda>b.
       whenK (uint (bf_dev b) \<noteq> - 1 \<and> bf_dirty b \<noteq> 0) (bindK (bdwrite i) (\<lambda>_. retK ())))"
  obtain ub cr where run: "forK [0..<n] ?body s = Ret () (s\<lparr>chr_ram := cr, udata := (udata s)\<lparr>u_buf := ub\<rparr>\<rparr>)"
    and wr: "\<And>i k. i < n \<Longrightarrow> bf_dirty (bufpool s ! i) \<noteq> 0 \<Longrightarrow> k < 512 \<Longrightarrow>
        disk_block (s\<lparr>chr_ram := cr\<rparr>) (bf_blk (bufpool s ! i)) k = bf_data (bufpool s ! i) k"
    and old: "\<And>c k. unat c < 2048 \<Longrightarrow> \<forall>i<n. bf_dirty (bufpool s ! i) \<noteq> 0 \<longrightarrow> bf_blk (bufpool s ! i) \<noteq> c \<Longrightarrow>
        k < 512 \<Longrightarrow> disk_block (s\<lparr>chr_ram := cr\<rparr>) c k = disk_block s c k"
    using Suc by auto
  let ?t = "s\<lparr>chr_ram := cr, udata := (udata s)\<lparr>u_buf := ub\<rparr>\<rparr>"
  let ?b = "bufpool s ! n"
  have n: "n < NBUFS" using Suc.prems by simp
  have split: "forK [0..<Suc n] ?body s = (case forK [0..<n] ?body s of
      Ret a s' \<Rightarrow> ?body n s' | Halt h \<Rightarrow> Halt h | Switch s' \<Rightarrow> Switch s')"
    by (simp add: forK_append run_simps split: outcome.splits)
  show ?case
  proof (cases "bf_dirty ?b = 0")
    case True
    then have "forK [0..<Suc n] ?body s = Ret () ?t"
      unfolding split run by (simp add: run_simps)
    then show ?thesis using wr old True
      by (intro exI[of _ ub] exI[of _ cr]) (auto simp: less_Suc_eq)
  next
    case False
    have "buf_ok ?b" using inv n by (simp add: buf_inv_def)
    then have d: "bf_dev ?b = 0" "unat (bf_blk ?b) < 2048" using False by (auto simp: buf_ok_def)
    have dn: "uint (bf_dev ?b) \<noteq> - 1" by (simp add: d(1))
    let ?cr = "put_disk (bf_blk ?b) (bf_data ?b) cr"
    have "forK [0..<Suc n] ?body s = Ret () (s\<lparr>chr_ram := ?cr, udata := (udata s)\<lparr>u_buf := Some n\<rparr>\<rparr>)"
      unfolding split run using bdwrite_eq[of ?t n] d dn False by (simp add: run_simps)
    moreover have disk: "disk_block (s\<lparr>chr_ram := ?cr\<rparr>) c k =
        (if c = bf_blk ?b then bf_data ?b k else disk_block (s\<lparr>chr_ram := cr\<rparr>) c k)"
      if "unat c < 2048" "k < 512" for c k
      using disk_block_put_disk[OF d(2) that, of "s\<lparr>chr_ram := ?cr\<rparr>" "bf_data ?b" "s\<lparr>chr_ram := cr\<rparr>"]
      by simp
    moreover have "disk_block (s\<lparr>chr_ram := ?cr\<rparr>) (bf_blk (bufpool s ! i)) k = bf_data (bufpool s ! i) k"
      if i: "i < Suc n" "bf_dirty (bufpool s ! i) \<noteq> 0" and k: "k < 512" for i k
    proof -
      have iN: "i < NBUFS" using i n by simp
      have oki: "buf_ok (bufpool s ! i)" using inv iN by (simp add: buf_inv_def)
      then have di: "bf_dev (bufpool s ! i) = 0" "unat (bf_blk (bufpool s ! i)) < 2048"
        using i(2) by (auto simp: buf_ok_def)
      have "i = n" if "bf_blk (bufpool s ! i) = bf_blk ?b"
        using inv iN n di(1) d(1) that unfolding buf_inv_def by blast
      then show ?thesis using disk[OF di(2) k] wr[of i k] i k by (cases "i = n") auto
    qed
    moreover have "disk_block (s\<lparr>chr_ram := ?cr\<rparr>) c k = disk_block s c k"
      if c: "unat c < 2048" and i: "\<forall>i<Suc n. bf_dirty (bufpool s ! i) \<noteq> 0 \<longrightarrow> bf_blk (bufpool s ! i) \<noteq> c"
        and k: "k < 512" for c k
    proof -
      have "c \<noteq> bf_blk ?b" using i False by blast
      then show ?thesis using disk[OF c k] old[OF c _ k] i by simp
    qed
    ultimately show ?thesis by blast
  qed
qed

section \<open>The block store contract\<close>

datatype ('b, 'd) block_op = Read_blk 'b | Write_blk 'b 'd

text \<open>
  What the file system relies on: reading a block gives its contents and changes none,
  writing a block changes exactly that block.
\<close>

locale block_store =
  fixes rd :: "'b \<Rightarrow> ('s, 'd) kop"
    and wr :: "'b \<Rightarrow> 'd \<Rightarrow> ('s, unit) kop"
    and view :: "'s \<Rightarrow> 'b \<Rightarrow> 'd"
    and valid :: "'b \<Rightarrow> bool"
    and fits :: "'d \<Rightarrow> bool"
    and inv :: "'s \<Rightarrow> bool"
  assumes rd_law: "inv s \<Longrightarrow> valid b \<Longrightarrow>
      wp (rd b) (\<lambda>d t. d = view s b \<and> inv t \<and> (\<forall>c. valid c \<longrightarrow> view t c = view s c)) s"
    and wr_law: "inv s \<Longrightarrow> valid b \<Longrightarrow> fits d \<Longrightarrow>
      wp (wr b d) (\<lambda>_ t. view t b = d \<and> inv t \<and> (\<forall>c. valid c \<longrightarrow> c \<noteq> b \<longrightarrow> view t c = view s c)) s"
begin

primrec run_blocks :: "('b, 'd) block_op list \<Rightarrow> ('s, 'd list) kop" where
  "run_blocks [] = retK []"
| "run_blocks (x # xs) = (case x of
       Read_blk b \<Rightarrow> bindK (rd b) (\<lambda>d. bindK (run_blocks xs) (\<lambda>ds. retK (d # ds)))
     | Write_blk b d \<Rightarrow> thenK (wr b d) (run_blocks xs))"

text \<open>The same operations on an array of blocks.\<close>

primrec array_run :: "('b, 'd) block_op list \<Rightarrow> ('b \<Rightarrow> 'd) \<Rightarrow> ('b \<Rightarrow> 'd) \<times> 'd list" where
  "array_run [] m = (m, [])"
| "array_run (x # xs) m = (case x of
       Read_blk b \<Rightarrow> (let (m', ds) = array_run xs m in (m', m b # ds))
     | Write_blk b d \<Rightarrow> array_run xs (m(b := d)))"

definition op_ok :: "('b, 'd) block_op \<Rightarrow> bool" where
  "op_ok x = (case x of Read_blk b \<Rightarrow> valid b | Write_blk b d \<Rightarrow> valid b \<and> fits d)"

lemma run_blocks_array:
  "inv s \<Longrightarrow> \<forall>x\<in>set ops. op_ok x \<Longrightarrow> \<forall>c. valid c \<longrightarrow> view s c = m c \<Longrightarrow>
   wp (run_blocks ops) (\<lambda>out t. inv t \<and> out = snd (array_run ops m) \<and>
      (\<forall>c. valid c \<longrightarrow> view t c = fst (array_run ops m) c)) s"
proof (induction ops arbitrary: s m)
  case Nil
  then show ?case by simp
next
  case (Cons x xs)
  show ?case
  proof (cases x)
    case (Read_blk b)
    have v: "valid b" using Cons.prems(2) Read_blk by (simp add: op_ok_def)
    have "wp (rd b) (\<lambda>d. wp (run_blocks xs) (\<lambda>ds t. inv t \<and> d # ds = snd (array_run (x # xs) m) \<and>
        (\<forall>c. valid c \<longrightarrow> view t c = fst (array_run (x # xs) m) c))) s"
    proof (rule wp_mono[OF rd_law[OF Cons.prems(1) v]])
      fix d t
      assume t: "d = view s b \<and> inv t \<and> (\<forall>c. valid c \<longrightarrow> view t c = view s c)"
      have "wp (run_blocks xs) (\<lambda>out t. inv t \<and> out = snd (array_run xs m) \<and>
          (\<forall>c. valid c \<longrightarrow> view t c = fst (array_run xs m) c)) t"
        using t Cons.prems by (intro Cons.IH) auto
      then show "wp (run_blocks xs) (\<lambda>ds t. inv t \<and> d # ds = snd (array_run (x # xs) m) \<and>
          (\<forall>c. valid c \<longrightarrow> view t c = fst (array_run (x # xs) m) c)) t"
        by (rule wp_mono) (use t v Cons.prems(3) Read_blk in \<open>auto split: prod.splits\<close>)
    qed
    then show ?thesis using Read_blk by simp
  next
    case (Write_blk b d)
    have v: "valid b" "fits d" using Cons.prems(2) Write_blk by (simp_all add: op_ok_def)
    have "wp (wr b d) (\<lambda>_. wp (run_blocks xs) (\<lambda>out t. inv t \<and> out = snd (array_run xs (m(b := d))) \<and>
        (\<forall>c. valid c \<longrightarrow> view t c = fst (array_run xs (m(b := d))) c))) s"
      by (rule wp_mono[OF wr_law[OF Cons.prems(1) v]], rule Cons.IH) (use Cons.prems in auto)
    then show ?thesis using Write_blk by simp
  qed
qed

end

section \<open>The cache provides it\<close>

definition block_list :: "bytes \<Rightarrow> byte list" where
  "block_list d = map d [0..<512]"

definition list_block :: "byte list \<Rightarrow> bytes" where
  "list_block l = (\<lambda>k. if k < length l then l ! k else 0)"

text \<open>
  The two ways the file system uses the cache: read a block and give it back, and rewrite a
  whole block.
\<close>

definition read_block :: "u16 \<Rightarrow> byte list k" where
  "read_block blk = bindK (bread 0 blk 0) (\<lambda>r. bindK (derefK r) (\<lambda>i.
     bindK (getK (\<lambda>s. block_list (bf_data (bufpool s ! i)))) (\<lambda>d.
     thenK (brelse i) (retK d))))"

definition write_block :: "u16 \<Rightarrow> byte list \<Rightarrow> unit k" where
  "write_block blk d = bindK (bread 0 blk 1) (\<lambda>r. bindK (derefK r) (\<lambda>i.
     thenK (modK (set_data i (list_block d))) (bawrite i)))"

definition idle :: "kst \<Rightarrow> bool" where
  "idle s \<longleftrightarrow> buf_inv s \<and> (\<forall>i<NBUFS. bf_busy (bufpool s ! i) = 0)"

lemma idle_free: "idle s \<Longrightarrow> some_free s \<and> \<not> held s blk"
  by (auto simp: idle_def some_free_def held_def holds_def intro!: exI[of _ 0])

lemma block_list_cong: "(\<And>k. k < 512 \<Longrightarrow> d k = e k) \<Longrightarrow> block_list d = block_list e"
  by (simp add: block_list_def)

lemma block_list_of: "length l = 512 \<Longrightarrow> block_list (list_block l) = l"
  by (rule nth_equalityI) (simp_all add: block_list_def list_block_def)

lemma read_block_spec:
  assumes "idle s" and "unat blk < 2048"
  shows "wp (read_block blk) (\<lambda>d t. d = block_list (bview s blk) \<and> idle t \<and> same_view s t \<and> buf_frame s t) s"
proof -
  have inv: "buf_inv s" and free: "some_free s" "\<not> held s blk"
    using assms(1) idle_free by (auto simp: idle_def)
  have "wp (bread 0 blk 0) (\<lambda>r. wp (bindK (derefK r) (\<lambda>i.
     bindK (getK (\<lambda>s. block_list (bf_data (bufpool s ! i)))) (\<lambda>d. thenK (brelse i) (retK d))))
     (\<lambda>d t. d = block_list (bview s blk) \<and> idle t \<and> same_view s t \<and> buf_frame s t)) s"
  proof (rule wp_mono[OF bread_spec[OF inv assms(2) free(2,1), of 0]])
    fix r s' assume "\<exists>i. r = Some i \<and> bread_post blk (0 = (0 :: int)) s i s'"
    then obtain i where r: "r = Some i" and post: "bread_post blk True s i s'" by auto
    note p = post[unfolded bread_post_def]
    have h: "holds s' i blk" and inv': "buf_inv s'" and ag: "agrees s' (bufpool s' ! i)" using p by auto
    have data: "bview s' blk = bf_data (bufpool s' ! i)"
      using h bview_cached[OF inv', of i] by (simp add: holds_def)
    have sv: "same_view s s'" unfolding same_view_def
    proof (intro allI impI)
      fix c :: u16 and k :: nat assume "unat c < 2048" "k < 512"
      then show "bview s' c k = bview s c k" using p by (cases "c = blk") auto
    qed
    have d: "block_list (bf_data (bufpool s' ! i)) = block_list (bview s blk)"
      using p data by (intro block_list_cong) metis
    have "wp (brelse i) (\<lambda>_ t. idle t \<and> same_view s t \<and> buf_frame s t) s'"
    proof (rule wp_mono[OF brelse_spec[OF inv' h ag]])
      fix u :: unit and t assume t: "release_post s' i t"
      have "bf_busy (bufpool t ! j) = 0" if "j < NBUFS" for j
        using t p assms(1) that by (cases "j = i") (auto simp: release_post_def only_buf_def idle_def)
      then show "idle t \<and> same_view s t \<and> buf_frame s t"
        using t sv p buf_frame_trans by (auto simp: release_post_def idle_def same_view_def)
    qed
    then show "wp (bindK (derefK r) (\<lambda>i. bindK (getK (\<lambda>s. block_list (bf_data (bufpool s ! i))))
        (\<lambda>d. thenK (brelse i) (retK d))))
        (\<lambda>d t. d = block_list (bview s blk) \<and> idle t \<and> same_view s t \<and> buf_frame s t) s'"
      using r d by simp
  qed
  then show ?thesis by (simp add: read_block_def)
qed

lemma write_block_spec:
  assumes "idle s" and "unat blk < 2048"
  shows "wp (write_block blk d) (\<lambda>_ t. idle t \<and> buf_frame s t \<and>
     (\<forall>c k. unat c < 2048 \<longrightarrow> k < 512 \<longrightarrow> bview t c k = (if c = blk then list_block d k else bview s c k))) s"
proof -
  have inv: "buf_inv s" and free: "some_free s" "\<not> held s blk"
    using assms(1) idle_free by (auto simp: idle_def)
  let ?Q = "\<lambda>_ t. idle t \<and> buf_frame s t \<and>
     (\<forall>c k. unat c < 2048 \<longrightarrow> k < 512 \<longrightarrow> bview t c k = (if c = blk then list_block d k else bview s c k))"
  have "wp (bread 0 blk 1) (\<lambda>r. wp (bindK (derefK r) (\<lambda>i.
     thenK (modK (set_data i (list_block d))) (bawrite i))) ?Q) s"
  proof (rule wp_mono[OF bread_spec[OF inv assms(2) free(2,1), of 1]])
    fix r s' assume "\<exists>i. r = Some i \<and> bread_post blk (1 = (0 :: int)) s i s'"
    then obtain i where r: "r = Some i" and post: "bread_post blk False s i s'" by auto
    note p = post[unfolded bread_post_def]
    have h: "holds s' i blk" and inv': "buf_inv s'" using p by auto
    note sd = set_data_spec[OF inv' h, of "list_block d"]
    have "wp (bawrite i) ?Q (set_data i (list_block d) s')"
    proof (rule wp_mono[OF bawrite_spec[OF sd(1,2)]])
      fix u :: unit and t assume t: "release_post (set_data i (list_block d) s') i t"
      have "bf_busy (bufpool t ! j) = 0" if "j < NBUFS" for j
        using t p sd(5) assms(1) that
        by (cases "j = i") (auto simp: release_post_def only_buf_def idle_def)
      moreover have "buf_frame s t"
        using t p sd(3) buf_frame_trans by (meson release_post_def)
      ultimately show "?Q u t"
        using t sd(4) p by (auto simp: release_post_def idle_def)
    qed
    then show "wp (bindK (derefK r) (\<lambda>i. thenK (modK (set_data i (list_block d))) (bawrite i))) ?Q s'"
      using r by simp
  qed
  then show ?thesis by (simp add: write_block_def)
qed

interpretation cache: block_store read_block write_block "\<lambda>s b. block_list (bview s b)"
  "\<lambda>b. unat b < 2048" "\<lambda>d. length d = 512" idle
proof unfold_locales
  fix s and b :: u16
  assume s: "idle s" and b: "unat b < 2048"
  show "wp (read_block b) (\<lambda>d t. d = block_list (bview s b) \<and> idle t \<and>
      (\<forall>c. unat c < 2048 \<longrightarrow> block_list (bview t c) = block_list (bview s c))) s"
    by (rule wp_mono[OF read_block_spec[OF s b]])
      (auto simp: same_view_def intro!: block_list_cong)
  fix d :: "byte list" assume d: "length d = 512"
  show "wp (write_block b d) (\<lambda>_ t. block_list (bview t b) = d \<and> idle t \<and>
      (\<forall>c. unat c < 2048 \<longrightarrow> c \<noteq> b \<longrightarrow> block_list (bview t c) = block_list (bview s c))) s"
  proof (rule wp_mono[OF write_block_spec[OF s b]])
    fix u :: unit and t
    assume t: "idle t \<and> buf_frame s t \<and> (\<forall>c k. unat c < 2048 \<longrightarrow> k < 512 \<longrightarrow>
        bview t c k = (if c = b then list_block d k else bview s c k))"
    have "block_list (bview t b) = block_list (list_block d)"
      using t b by (intro block_list_cong) auto
    then have "block_list (bview t b) = d" using block_list_of[OF d] by simp
    then show "block_list (bview t b) = d \<and> idle t \<and>
        (\<forall>c. unat c < 2048 \<longrightarrow> c \<noteq> b \<longrightarrow> block_list (bview t c) = block_list (bview s c))"
      using t by (auto intro!: block_list_cong)
  qed
qed

section \<open>Properties\<close>

text \<open>
  C1: the cache is transparent. Starting with no buffer in use, any sequence of reads and
  whole-block writes of blocks of the root device below 2048 through \<open>bread\<close>, \<open>brelse\<close> and \<open>bawrite\<close> completes (no panic, no
  error) and returns exactly what the same sequence on a plain array of blocks returns, and
  the array it ends with is what the cache then shows, whatever was evicted or written back
  on the way.
\<close>

theorem buffer_cache_transparent:
  assumes "idle s" and "\<forall>x\<in>set ops. cache.op_ok x"
  shows "wp (cache.run_blocks ops) (\<lambda>out t. idle t \<and>
     out = snd (cache.array_run ops (\<lambda>b. block_list (bview s b))) \<and>
     (\<forall>c. unat c < 2048 \<longrightarrow>
        block_list (bview t c) = fst (cache.array_run ops (\<lambda>b. block_list (bview s b))) c)) s"
  using cache.run_blocks_array[OF assms] by simp

text \<open>A concrete idle cache: four buffers of no device.\<close>

definition empty_cache :: kst where
  "empty_cache = bss\<lparr>bufpool := replicate 4 (zero_buf\<lparr>bf_dev := 255\<rparr>)\<rparr>"

lemma empty_cache_pool: "i < NBUFS \<Longrightarrow> bufpool empty_cache ! i = zero_buf\<lparr>bf_dev := 255\<rparr>"
  by (simp add: empty_cache_def)

lemma idle_empty_cache: "idle empty_cache"
  unfolding idle_def buf_inv_def
  by (simp add: empty_cache_pool buf_ok_def agrees_def zero_buf_def) (simp add: empty_cache_def bss_def)

theorem buffer_cache_transparent_witness:
  "wp (cache.run_blocks [Write_blk 5 (replicate 512 7), Write_blk 6 (replicate 512 8), Read_blk 5])
     (\<lambda>out t. out = [replicate 512 7] \<and> hd (block_list (bview t 6)) = 8) empty_cache"
proof -
  let ?ops = "[Write_blk 5 (replicate 512 7), Write_blk 6 (replicate 512 8), Read_blk 5] :: (u16, byte list) block_op list"
  have ok: "\<forall>x\<in>set ?ops. cache.op_ok x" by (simp add: cache.op_ok_def)
  show ?thesis
    by (rule wp_mono[OF buffer_cache_transparent[OF idle_empty_cache ok]]) (auto simp: hd_replicate)
qed

text \<open>
  C25: \<open>bufsync\<close> writes everything back: with no buffer in use and only blocks of the root
  device below 2048 in the cache, afterwards the medium itself holds, for every such block, what
  the cache showed before, and the cache shows the same.
\<close>

theorem bufsync_writes_back:
  assumes "idle s"
  shows "wp bufsync (\<lambda>_ t. buf_frame s t \<and> bufpool t = bufpool s \<and>
     (\<forall>c k. unat c < 2048 \<longrightarrow> k < 512 \<longrightarrow> disk_block t c k = bview s c k)) s"
proof -
  have inv: "buf_inv s" using assms by (simp add: idle_def)
  obtain ub cr where run: "bufsync s = Ret () (s\<lparr>chr_ram := cr, udata := (udata s)\<lparr>u_buf := ub\<rparr>\<rparr>)"
    and wr: "\<And>i k. i < NBUFS \<Longrightarrow> bf_dirty (bufpool s ! i) \<noteq> 0 \<Longrightarrow> k < 512 \<Longrightarrow>
        disk_block (s\<lparr>chr_ram := cr\<rparr>) (bf_blk (bufpool s ! i)) k = bf_data (bufpool s ! i) k"
    and old: "\<And>c k. unat c < 2048 \<Longrightarrow> \<forall>i<NBUFS. bf_dirty (bufpool s ! i) \<noteq> 0 \<longrightarrow> bf_blk (bufpool s ! i) \<noteq> c \<Longrightarrow>
        k < 512 \<Longrightarrow> disk_block (s\<lparr>chr_ram := cr\<rparr>) c k = disk_block s c k"
    using bufsync_prefix[OF inv, of NBUFS] unfolding bufsync_def by auto
  let ?t = "s\<lparr>chr_ram := cr, udata := (udata s)\<lparr>u_buf := ub\<rparr>\<rparr>"
  have dt: "disk_block ?t = disk_block (s\<lparr>chr_ram := cr\<rparr>)" by (rule disk_block_cong) simp
  have "disk_block ?t c k = bview s c k" if c: "unat c < 2048" and k: "k < 512" for c k
  proof (cases "\<exists>i<NBUFS. bf_dirty (bufpool s ! i) \<noteq> 0 \<and> bf_blk (bufpool s ! i) = c")
    case True
    then obtain i where i: "i < NBUFS" "bf_dirty (bufpool s ! i) \<noteq> 0" "bf_blk (bufpool s ! i) = c" by blast
    then have "bf_dev (bufpool s ! i) = 0" using inv by (auto simp: buf_inv_def buf_ok_def)
    then show ?thesis using bview_cached[OF inv i(1)] wr[OF i(1,2) k] i(3) dt by simp
  next
    case False
    then have d: "disk_block ?t c k = disk_block s c k" using old[OF c _ k] dt by auto
    show ?thesis
    proof (cases "bfind 0 c s")
      case None
      then show ?thesis using d by (simp add: bview_def)
    next
      case (Some i)
      then have i: "i < NBUFS" "bf_dev (bufpool s ! i) = 0" "bf_blk (bufpool s ! i) = c"
        using bfind_Some[OF Some] by (auto simp: uint_dev_0)
      then have "agrees s (bufpool s ! i)" "bf_dirty (bufpool s ! i) = 0"
        using assms False by (auto simp: idle_def buf_inv_def)
      then show ?thesis using d i k Some by (simp add: agrees_def bview_def)
    qed
  qed
  moreover have "buf_frame s ?t"
    by (rule buf_frameI[where bp = "bufpool s" and bc = "bufclock s" and cr = cr and ub = ub]) simp
  ultimately show ?thesis using run by (simp add: wp_def)
qed

text \<open>A cache with one dirty buffer, of a block that the medium does not have yet.\<close>

definition one_dirty :: kst where
  "one_dirty = empty_cache\<lparr>bufpool := (bufpool empty_cache)[2 :=
     zero_buf\<lparr>bf_dev := 0, bf_blk := 3, bf_dirty := 1, bf_data := (\<lambda>_. 9)\<rparr>]\<rparr>"

lemma one_dirty_pool: "i < NBUFS \<Longrightarrow> bufpool one_dirty ! i =
    (if i = 2 then zero_buf\<lparr>bf_dev := 0, bf_blk := 3, bf_dirty := 1, bf_data := (\<lambda>_. 9)\<rparr> else zero_buf\<lparr>bf_dev := 255\<rparr>)"
  by (simp add: one_dirty_def empty_cache_def nth_list_update)

lemma idle_one_dirty: "idle one_dirty"
  unfolding idle_def buf_inv_def
  by (simp add: one_dirty_pool buf_ok_def agrees_def zero_buf_def) (simp add: one_dirty_def empty_cache_def bss_def)

theorem bufsync_writes_back_witness:
  "wp bufsync (\<lambda>_ t. disk_block t 3 7 = 9) one_dirty"
proof -
  have "buf_inv one_dirty" using idle_one_dirty by (simp add: idle_def)
  from bview_cached[OF this, of 2] have "bview one_dirty 3 7 = 9" by (simp add: one_dirty_pool)
  then show ?thesis by (intro wp_mono[OF bufsync_writes_back[OF idle_one_dirty]]) simp
qed

text \<open>
  C26: replacement is least recently used: among the buffers not in use \<open>freebuf\<close> takes one
  whose time stamp is furthest behind the clock (as 16-bit distance), writes it out if it is
  dirty, and leaves what the cache shows unchanged; with every buffer in use it panics.
\<close>

theorem freebuf_lru:
  assumes "buf_inv s"
  shows "if some_free s
    then wp freebuf (\<lambda>i t. i < NBUFS \<and> bf_busy (bufpool s ! i) = 0 \<and>
      (\<forall>j<NBUFS. bf_busy (bufpool s ! j) = 0 \<longrightarrow>
         bufclock s - bf_time (bufpool s ! j) \<le> bufclock s - bf_time (bufpool s ! i)) \<and>
      buf_inv t \<and> same_view s t \<and> buf_frame s t \<and> bf_dirty (bufpool t ! i) = 0) s
    else freebuf s = Halt (Panic ''no free buffers'')"
proof (cases "some_free s")
  case True
  obtain i tm where sc: "freebuf_scan s = (Some i, tm)" and i: "i < NBUFS" "bf_busy (bufpool s ! i) = 0"
    and old: "\<forall>j<NBUFS. bf_busy (bufpool s ! j) = 0 \<longrightarrow> age s j \<le> age s i"
    using freebuf_scan_some True unfolding some_free_def by blast
  have len: "length (bufpool s) = NBUFS" using assms by (simp add: buf_inv_def)
  show ?thesis
    using True i old flushed_inv[OF assms i] flushed_view[OF assms i] flushed_frame[of s i]
      flushed_pool(2)[OF len i(1)] freebuf_eq[OF assms sc i(1)]
    by (simp add: wp_def age_def)
next
  case False
  obtain r t where rt: "freebuf_scan s = (r, t)" by fastforce
  then have "r = None"
    using freebuf_scan_prefix[of s NBUFS r t] False unfolding freebuf_scan_def some_free_def
    by (cases r) auto
  then show ?thesis using False rt by (simp add: freebuf_def run_simps)
qed

theorem freebuf_lru_witness:
  "wp freebuf (\<lambda>i t. i < NBUFS \<and> bf_dirty (bufpool t ! i) = 0) empty_cache"
proof -
  have inv: "buf_inv empty_cache" and free: "some_free empty_cache"
    using idle_empty_cache idle_free by (auto simp: idle_def)
  show ?thesis
    by (rule wp_mono[OF freebuf_lru[OF inv, unfolded if_P[OF free]]]) simp
qed

text \<open>
  a swap transfer does not move process memory. \<open>swapread\<close> on the swap device leaves all
  of memory as it was, whatever address and length it is given, and instead refills the buffer
  that was transferred last from the medium, so that unwritten changes in it are lost.
\<close>

theorem swapread_clobbers_buffer:
  assumes "buf_inv s" and "u_buf (udata s) = Some i" and "i < NBUFS" and "bf_dev (bufpool s ! i) = 0"
  shows "wp (swapread SWAPDEV blkno nbytes buf) (\<lambda>r t. r = 0 \<and> mem t = mem s \<and>
     (\<forall>k<512. bf_data (bufpool t ! i) k = disk_block s (bf_blk (bufpool s ! i)) k)) s"
proof -
  let ?s = "s\<lparr>swapbase := buf, swapcnt := nbytes, swapblk := blkno\<rparr>"
  have len: "length (bufpool s) = NBUFS" using assms(1) by (simp add: buf_inv_def)
  have e: "dev_entry SWAPDEV = retK (dev_tab ! 1)" by (simp add: dev_entry_def)
  have off: "disk_off (bf_blk (bufpool s ! i) + word_of_int 4096) = disk_off (bf_blk (bufpool s ! i))"
    using blk_base_addr_4096[of "bf_blk (bufpool s ! i)"] by (simp add: blk_base_addr_off)
  have "ppuwd_read 4096 2 ?s = Ret 0 (?s\<lparr>bufpool := (bufpool s)[i := (bufpool s ! i)\<lparr>bf_data :=
       (\<lambda>k. if k < 512 then disk_block s (bf_blk (bufpool s ! i)) k else bf_data (bufpool s ! i) k)\<rparr>]\<rparr>)"
    using ppuwd_read_eq[of ?s i "bf_blk (bufpool s ! i)" 4096 2] assms(2,3) len off[simplified]
    by (simp add: disk_block_def cong: if_cong)
  then show ?thesis
    using assms(3) len by (simp add: swapread_def wp_def run_simps e dev_tab_def)
qed

theorem swapread_clobbers_buffer_witness:
  "wp (swapread SWAPDEV 66 512 0x6000) (\<lambda>r t. mem t = mem bss \<and> bf_data (bufpool t ! 0) 0 = 0)
     (empty_cache\<lparr>bufpool := (bufpool empty_cache)[0 := zero_buf\<lparr>bf_data := (\<lambda>_. 9), bf_dirty := 1\<rparr>],
        udata := (udata empty_cache)\<lparr>u_buf := Some 0\<rparr>\<rparr>)"
proof -
  define s where "s = empty_cache\<lparr>bufpool := (bufpool empty_cache)[0 := zero_buf\<lparr>bf_data := (\<lambda>_. 9), bf_dirty := 1\<rparr>],
        udata := (udata empty_cache)\<lparr>u_buf := Some 0\<rparr>\<rparr>"
  have at: "bufpool s ! j = (if j = 0 then zero_buf\<lparr>bf_data := (\<lambda>_. 9), bf_dirty := 1\<rparr> else zero_buf\<lparr>bf_dev := 255\<rparr>)"
    if "j < NBUFS" for j
    using that by (simp add: s_def empty_cache_def nth_list_update)
  have inv: "buf_inv s"
    unfolding buf_inv_def
    by (simp add: at buf_ok_def agrees_def zero_buf_def) (simp add: s_def empty_cache_def bss_def)
  have u: "u_buf (udata s) = Some 0" "mem s = mem bss" "chr_ram s = chr_ram bss"
    by (simp_all add: s_def empty_cache_def)
  show ?thesis
    unfolding s_def[symmetric]
    by (rule wp_mono[OF swapread_clobbers_buffer[OF inv u(1)]])
      (auto simp: at zero_buf_def u disk_block_def, simp_all add: bss_def)
qed

end
