(* ===== verification/Block_Use.thy ===== *)
theory Block_Use
  imports Buffers
begin

text \<open>
  The two patterns in which the file system uses a buffer: look at a block and release it, and
  change a block and release it dirty; with their specifications relative to the view of the
  cache. Buffers other callers hold stay as they are.
\<close>

section \<open>The patterns\<close>

definition read_buf :: "int \<Rightarrow> u16 \<Rightarrow> (bytes \<Rightarrow> 'a) \<Rightarrow> 'a k" where
  "read_buf dev blk f =
     bindK (bread dev blk 0) (\<lambda>r. bindK (derefK r) (\<lambda>i.
     bindK (getK (\<lambda>s. f (bf_data (bufpool s ! i)))) (\<lambda>a.
     thenK (brelse i) (retK a))))"

definition write_buf :: "int \<Rightarrow> u16 \<Rightarrow> int \<Rightarrow> (bytes \<Rightarrow> bytes) \<Rightarrow> unit k" where
  "write_buf dev blk rewrite f =
     bindK (bread dev blk rewrite) (\<lambda>r. bindK (derefK r) (\<lambda>i.
     thenK (upd_buf i (\<lambda>b. b\<lparr>bf_data := f (bf_data b)\<rparr>)) (bawrite i)))"

text \<open>The same with \<open>bfree(buf, 2)\<close>: the block is written to the medium at once.\<close>

definition write_buf_now :: "int \<Rightarrow> u16 \<Rightarrow> int \<Rightarrow> (bytes \<Rightarrow> bytes) \<Rightarrow> unit k" where
  "write_buf_now dev blk rewrite f =
     bindK (bread dev blk rewrite) (\<lambda>r. bindK (derefK r) (\<lambda>i.
     thenK (upd_buf i (\<lambda>b. b\<lparr>bf_data := f (bf_data b)\<rparr>)) (bindK (bfree i 2) (\<lambda>_. retK ()))))"

section \<open>Specifications\<close>

text \<open>Buffers in use are untouched, buffers not in use stay so.\<close>

definition busy_same :: "kst \<Rightarrow> kst \<Rightarrow> bool" where
  "busy_same s t \<longleftrightarrow> (\<forall>j<NBUFS. if bf_busy (bufpool s ! j) \<noteq> 0 then bufpool t ! j = bufpool s ! j
     else bf_busy (bufpool t ! j) = 0)"

lemma busy_same_refl [simp]: "busy_same s s"
  by (simp add: busy_same_def)

lemma busy_same_trans: "busy_same s t \<Longrightarrow> busy_same t u \<Longrightarrow> busy_same s u"
  by (auto simp: busy_same_def split: if_splits)

lemma busy_same_held: "busy_same s t \<Longrightarrow> held t blk \<longleftrightarrow> held s blk"
  unfolding held_def holds_def busy_same_def by metis

lemma busy_same_free: "busy_same s t \<Longrightarrow> some_free s \<Longrightarrow> some_free t"
  unfolding some_free_def busy_same_def by metis

text \<open>A function of a block that looks at its 512 bytes only.\<close>

definition block_fun :: "(bytes \<Rightarrow> 'a) \<Rightarrow> bool" where
  "block_fun f \<longleftrightarrow> (\<forall>d e. (\<forall>k<512. d k = e k) \<longrightarrow> f d = f e)"

lemma block_funD: "block_fun f \<Longrightarrow> (\<And>k. k < 512 \<Longrightarrow> d k = e k) \<Longrightarrow> f d = f e"
  by (simp add: block_fun_def)

text \<open>The state afterwards: the same except for the cache, which shows \<open>v\<close>.\<close>

definition cache_step :: "kst \<Rightarrow> (u16 \<Rightarrow> bytes) \<Rightarrow> kst \<Rightarrow> bool" where
  "cache_step s v t \<longleftrightarrow> buf_inv t \<and> buf_frame s t \<and> busy_same s t \<and>
     (\<forall>c k. unat c < 2048 \<longrightarrow> k < 512 \<longrightarrow> bview t c k = v c k)"

lemma cache_step_refl: "buf_inv s \<Longrightarrow> cache_step s (bview s) s"
  by (simp add: cache_step_def)

lemma bread_post_busy:
  assumes "bread_post blk rd s i t" and "release_post u i w" and "only_buf i t u"
    and "bf_busy (bufpool s ! i) = 0"
  shows "busy_same s w"
  using assms by (auto simp: busy_same_def bread_post_def release_post_def only_buf_def)

lemma read_buf_spec:
  assumes inv: "buf_inv s" and "unat blk < 2048" and "\<not> held s blk" and "some_free s" and f: "block_fun f"
  shows "wp (read_buf 0 blk f) (\<lambda>a t. a = f (bview s blk) \<and> cache_step s (bview s) t) s"
proof -
  let ?Q = "\<lambda>a t. a = f (bview s blk) \<and> cache_step s (bview s) t"
  have "wp (bread 0 blk 0) (\<lambda>r. wp (bindK (derefK r) (\<lambda>i.
     bindK (getK (\<lambda>s. f (bf_data (bufpool s ! i)))) (\<lambda>a. thenK (brelse i) (retK a)))) ?Q) s"
  proof (rule wp_mono[OF bread_spec[OF assms(1-4), of 0]])
    fix r s' assume "\<exists>i. r = Some i \<and> bread_post blk (0 = (0 :: int)) s i s'"
    then obtain i where r: "r = Some i" and post: "bread_post blk True s i s'" by auto
    note p = post[unfolded bread_post_def]
    have h: "holds s' i blk" and inv': "buf_inv s'" and ag: "agrees s' (bufpool s' ! i)" using p by auto
    have data: "bview s' blk = bf_data (bufpool s' ! i)"
      using h bview_cached[OF inv', of i] by (simp add: holds_def)
    have d: "f (bf_data (bufpool s' ! i)) = f (bview s blk)"
      using p data by (intro block_funD[OF f]) metis
    have "wp (brelse i) (\<lambda>_. cache_step s (bview s)) s'"
    proof (rule wp_mono[OF brelse_spec[OF inv' h ag]])
      fix u :: unit and t assume t: "release_post s' i t"
      have "bview t c k = bview s c k" if "unat c < 2048" "k < 512" for c k
        using t p that by (cases "c = blk") (simp_all add: release_post_def)
      moreover have "busy_same s t"
        by (rule bread_post_busy[OF post t]) (use p in \<open>simp_all add: only_buf_def\<close>)
      moreover have "buf_frame s t" using t p buf_frame_trans unfolding release_post_def by blast
      ultimately show "cache_step s (bview s) t" using t by (simp add: cache_step_def release_post_def)
    qed
    then show "wp (bindK (derefK r) (\<lambda>i. bindK (getK (\<lambda>s. f (bf_data (bufpool s ! i))))
        (\<lambda>a. thenK (brelse i) (retK a)))) ?Q s'"
      using r d by simp
  qed
  then show ?thesis by (simp add: read_buf_def)
qed

text \<open>With \<open>rewrite\<close> set the old contents are not to be relied on.\<close>

lemma write_buf_spec:
  assumes inv: "buf_inv s" and "unat blk < 2048" and "\<not> held s blk" and "some_free s"
    and f: "\<And>d e k. rw \<noteq> 0 \<Longrightarrow> k < 512 \<Longrightarrow> f d k = f e k"
    and hb: "\<And>k. k < 512 \<Longrightarrow> block_fun (\<lambda>d. f d k)"
  shows "wp (write_buf 0 blk rw f) (\<lambda>_ t. cache_step s ((bview s)(blk := f (bview s blk))) t) s"
proof -
  let ?Q = "\<lambda>_ :: unit. cache_step s ((bview s)(blk := f (bview s blk)))"
  have "wp (bread 0 blk rw) (\<lambda>r. wp (bindK (derefK r) (\<lambda>i.
     thenK (upd_buf i (\<lambda>b. b\<lparr>bf_data := f (bf_data b)\<rparr>)) (bawrite i))) ?Q) s"
  proof (rule wp_mono[OF bread_spec[OF assms(1-4), of rw]])
    fix r s' assume "\<exists>i. r = Some i \<and> bread_post blk (rw = 0) s i s'"
    then obtain i where r: "r = Some i" and post: "bread_post blk (rw = 0) s i s'" by auto
    note p = post[unfolded bread_post_def]
    have h: "holds s' i blk" and inv': "buf_inv s'" using p by auto
    let ?d = "bf_data (bufpool s' ! i)"
    let ?u = "set_data i (f ?d) s'"
    note sd = set_data_spec[OF inv' h, of "f ?d"]
    have data: "bview s' blk = ?d"
      using h bview_cached[OF inv', of i] by (simp add: holds_def)
    have new: "f ?d k = f (bview s blk) k" if k: "k < 512" for k
    proof (cases "rw = 0")
      case True
      then have "\<forall>j<512. ?d j = bview s blk j" using p data by metis
      then show ?thesis using hb[OF k] unfolding block_fun_def by blast
    next
      case False
      then show ?thesis using f k by blast
    qed
    have "wp (bawrite i) ?Q ?u"
    proof (rule wp_mono[OF bawrite_spec[OF sd(1,2)]])
      fix u :: unit and t assume t: "release_post ?u i t"
      have "bview t c k = ((bview s)(blk := f (bview s blk))) c k" if "unat c < 2048" "k < 512" for c k
        using t sd(4) p new that by (simp add: release_post_def)
      moreover have "busy_same s t"
        by (rule bread_post_busy[OF post t sd(5)]) (use p in simp)
      moreover have "buf_frame s t"
        using t p sd(3) buf_frame_trans unfolding release_post_def by blast
      ultimately show "?Q u t" using t by (simp add: cache_step_def release_post_def)
    qed
    then show "wp (bindK (derefK r) (\<lambda>i.
        thenK (upd_buf i (\<lambda>b. b\<lparr>bf_data := f (bf_data b)\<rparr>)) (bawrite i))) ?Q s'"
      using r by (simp add: set_data_def)
  qed
  then show ?thesis by (simp add: write_buf_def)
qed

text \<open>The cache does not depend on the rest of the state.\<close>

lemma cache_indep [simp]:
  "bview (s\<lparr>fs_tab := x1\<rparr>) = bview s" "bview (s\<lparr>i_tab := x2\<rparr>) = bview s"
  "bview (s\<lparr>udata := x3\<rparr>) = bview s" "bview (s\<lparr>klog := x4\<rparr>) = bview s"
  "bview (s\<lparr>ptab := x5\<rparr>) = bview s" "bview (s\<lparr>mem := x6\<rparr>) = bview s"
  "bview (s\<lparr>of_tab := x7\<rparr>) = bview s" "bview (s\<lparr>nexti := x8\<rparr>) = bview s"
  "buf_inv (s\<lparr>fs_tab := x1\<rparr>) = buf_inv s" "buf_inv (s\<lparr>i_tab := x2\<rparr>) = buf_inv s"
  "buf_inv (s\<lparr>udata := x3\<rparr>) = buf_inv s" "buf_inv (s\<lparr>klog := x4\<rparr>) = buf_inv s"
  "buf_inv (s\<lparr>ptab := x5\<rparr>) = buf_inv s" "buf_inv (s\<lparr>mem := x6\<rparr>) = buf_inv s"
  "buf_inv (s\<lparr>of_tab := x7\<rparr>) = buf_inv s" "buf_inv (s\<lparr>nexti := x8\<rparr>) = buf_inv s"
  "held (s\<lparr>fs_tab := x1\<rparr>) = held s" "held (s\<lparr>i_tab := x2\<rparr>) = held s"
  "held (s\<lparr>udata := x3\<rparr>) = held s" "held (s\<lparr>klog := x4\<rparr>) = held s"
  "held (s\<lparr>ptab := x5\<rparr>) = held s" "held (s\<lparr>mem := x6\<rparr>) = held s"
  "held (s\<lparr>of_tab := x7\<rparr>) = held s" "held (s\<lparr>nexti := x8\<rparr>) = held s"
  "some_free (s\<lparr>fs_tab := x1\<rparr>) = some_free s" "some_free (s\<lparr>i_tab := x2\<rparr>) = some_free s"
  "some_free (s\<lparr>udata := x3\<rparr>) = some_free s" "some_free (s\<lparr>klog := x4\<rparr>) = some_free s"
  "some_free (s\<lparr>ptab := x5\<rparr>) = some_free s" "some_free (s\<lparr>mem := x6\<rparr>) = some_free s"
  "some_free (s\<lparr>of_tab := x7\<rparr>) = some_free s" "some_free (s\<lparr>nexti := x8\<rparr>) = some_free s"
  by (simp_all add: bview_def bfind_def buf_inv_def agrees_def disk_block_def held_def holds_def
      some_free_def fun_eq_iff cong: option.case_cong)

lemma busy_same_indep [simp]:
  "busy_same (s\<lparr>fs_tab := x1\<rparr>) t = busy_same s t" "busy_same (s\<lparr>i_tab := x2\<rparr>) t = busy_same s t"
  "busy_same (s\<lparr>udata := x3\<rparr>) t = busy_same s t" "busy_same (s\<lparr>klog := x4\<rparr>) t = busy_same s t"
  "busy_same (s\<lparr>ptab := x5\<rparr>) t = busy_same s t" "busy_same (s\<lparr>mem := x6\<rparr>) t = busy_same s t"
  "busy_same (s\<lparr>nexti := x8\<rparr>) t = busy_same s t"
  "busy_same s (t\<lparr>fs_tab := x1\<rparr>) = busy_same s t" "busy_same s (t\<lparr>i_tab := x2\<rparr>) = busy_same s t"
  "busy_same s (t\<lparr>udata := x3\<rparr>) = busy_same s t" "busy_same s (t\<lparr>klog := x4\<rparr>) = busy_same s t"
  "busy_same s (t\<lparr>ptab := x5\<rparr>) = busy_same s t" "busy_same s (t\<lparr>mem := x6\<rparr>) = busy_same s t"
  "busy_same s (t\<lparr>nexti := x8\<rparr>) = busy_same s t"
  by (simp_all add: busy_same_def)

text \<open>What a step of the cache keeps.\<close>

lemma cache_stepD:
  assumes "cache_step s v t"
  shows "buf_inv t" and "busy_same s t" and "fs_tab t = fs_tab s" and "i_tab t = i_tab s"
    and "of_tab t = of_tab s" and "ptab t = ptab s" and "klog t = klog s" and "tod t = tod s"
    and "lnk t = lnk s" and "mem t = mem s" and "nexti t = nexti s" and "root t = root s"
    and "u_error (udata t) = u_error (udata s)"
    and "\<exists>ub. udata t = (udata s)\<lparr>u_buf := ub\<rparr>"
    and "unat c < 2048 \<Longrightarrow> k < 512 \<Longrightarrow> bview t c k = v c k"
    and "buf_frame s t"
  using assms unfolding cache_step_def buf_frame_def by auto

lemma bfree_now_spec:
  assumes inv: "buf_inv u" and h: "holds u i blk"
  shows "wp (bfree i 2) (\<lambda>_ w. buf_inv w \<and> buf_frame u w \<and> only_buf i u w \<and> bf_busy (bufpool w ! i) = 0 \<and>
     (\<forall>c k. unat c < 2048 \<longrightarrow> k < 512 \<longrightarrow> bview w c k = bview u c k) \<and>
     (\<forall>k<512. disk_block w blk k = bf_data (bufpool u ! i) k)) u"
proof -
  have i: "i < NBUFS" "bf_dev (bufpool u ! i) = 0" "bf_blk (bufpool u ! i) = blk"
    using h by (simp_all add: holds_def)
  have len: "length (bufpool u) = NBUFS" using inv by (simp add: buf_inv_def)
  have nr: "no_return (lnk u) \<noteq> - 1" using inv by (simp add: buf_inv_def)
  have blk: "unat blk < 2048" using holds_range[OF inv h] .
  define b where "b = bufpool u ! i"
  define w where "w = u\<lparr>udata := (udata u)\<lparr>u_buf := Some i\<rparr>, chr_ram := put_disk blk (bf_data b) (chr_ram u),
      bufpool := (bufpool u)[i := b\<lparr>bf_busy := 0, bf_dirty := 0\<rparr>]\<rparr>"
  let ?u1 = "u\<lparr>bufpool := (bufpool u)[i := b\<lparr>bf_dirty := bf_dirty b OR 2, bf_busy := 0\<rparr>]\<rparr>"
  have run: "bfree i 2 u = Ret (- 1) w"
    using bdwrite_eq[of ?u1 i] i len nr blk
    by (simp add: bfree_def run_simps upd_buf_def w_def b_def)
  have at: "bufpool w ! j = (if j = i then b\<lparr>bf_busy := 0, bf_dirty := 0\<rparr> else bufpool u ! j)" for j
    using len i(1) by (simp add: w_def)
  have disk: "disk_block w c k = (if c = blk then bf_data b k else disk_block u c k)"
    if "unat c < 2048" "k < 512" for c k
    using disk_block_put_disk[OF blk that, of w "bf_data b" u] by (simp add: w_def)
  have uq: "j = l" if "j < NBUFS" "l < NBUFS" "bf_dev (bufpool u ! j) = 0" "bf_dev (bufpool u ! l) = 0"
    "bf_blk (bufpool u ! j) = bf_blk (bufpool u ! l)" for j l
    using inv that unfolding buf_inv_def by blast
  have ok: "buf_ok (bufpool u ! j)" if "j < NBUFS" for j using inv that unfolding buf_inv_def by blast
  have ag: "agrees w (bufpool w ! j)" if j: "j < NBUFS" "bf_busy (bufpool w ! j) = 0" for j
  proof (cases "j = i")
    case True
    then show ?thesis using disk[OF blk] i(3) by (simp add: agrees_def at b_def)
  next
    case False
    then have nb: "bf_busy (bufpool u ! j) = 0" using j by (simp add: at)
    have a: "agrees u (bufpool u ! j)" using inv j(1) nb unfolding buf_inv_def by blast
    have "bf_dev (bufpool u ! j) = 0 \<Longrightarrow> bf_blk (bufpool u ! j) \<noteq> blk \<and> unat (bf_blk (bufpool u ! j)) < 2048"
      using uq[OF j(1) i(1)] i False ok[OF j(1)] by (auto simp: buf_ok_def)
    then show ?thesis using a disk False by (simp add: agrees_def at)
  qed
  have "buf_inv w"
    unfolding buf_inv_def
  proof (intro conjI allI impI)
    show "length (bufpool w) = NBUFS" using len by (simp add: w_def)
    show "no_return (lnk w) \<noteq> - 1" using nr by (simp add: w_def)
    fix j assume j: "j < NBUFS"
    show "buf_ok (bufpool w ! j)" using ok[OF j] by (auto simp: at buf_ok_def b_def)
    show "agrees w (bufpool w ! j)" if "bf_busy (bufpool w ! j) = 0" using ag[OF j that] .
    fix l assume "l < NBUFS" "bf_dev (bufpool w ! j) = 0" "bf_dev (bufpool w ! l) = 0"
      "bf_blk (bufpool w ! j) = bf_blk (bufpool w ! l)"
    then show "j = l" using uq[OF j] by (simp add: at b_def split: if_splits)
  qed
  moreover have find_w: "bfind 0 c w = bfind 0 c u" for c
    unfolding bfind_def by (rule find_cong) (auto simp: at b_def)
  have "bview w c k = bview u c k" if "unat c < 2048" "k < 512" for c k
  proof (cases "bfind 0 c u")
    case None
    then have "c \<noteq> blk" using bfind_None[OF None i(1)] i by (auto simp: uint_dev_0)
    then show ?thesis using None disk[OF that] unfolding bview_def find_w by simp
  next
    case (Some j)
    then show ?thesis unfolding bview_def find_w by (simp add: at b_def)
  qed
  moreover have "buf_frame u w"
    by (rule buf_frameI[where bp = "bufpool w" and bc = "bufclock u" and cr = "chr_ram w" and ub = "Some i"])
      (simp add: w_def)
  ultimately show ?thesis
    using run disk[OF blk] by (simp add: wp_def only_buf_def at b_def)
qed

lemma write_buf_now_spec:
  assumes inv: "buf_inv s" and "unat blk < 2048" and "\<not> held s blk" and "some_free s"
    and f: "\<And>d e k. rw \<noteq> 0 \<Longrightarrow> k < 512 \<Longrightarrow> f d k = f e k"
    and hb: "\<And>k. k < 512 \<Longrightarrow> block_fun (\<lambda>d. f d k)"
  shows "wp (write_buf_now 0 blk rw f) (\<lambda>_ t. cache_step s ((bview s)(blk := f (bview s blk))) t \<and>
     (\<forall>k<512. disk_block t blk k = f (bview s blk) k)) s"
proof -
  let ?Q = "\<lambda>_ t. cache_step s ((bview s)(blk := f (bview s blk))) t \<and>
     (\<forall>k<512. disk_block t blk k = f (bview s blk) k)"
  have "wp (bread 0 blk rw) (\<lambda>r. wp (bindK (derefK r) (\<lambda>i.
     thenK (upd_buf i (\<lambda>b. b\<lparr>bf_data := f (bf_data b)\<rparr>)) (bindK (bfree i 2) (\<lambda>_. retK ())))) ?Q) s"
  proof (rule wp_mono[OF bread_spec[OF assms(1-4), of rw]])
    fix r s' assume "\<exists>i. r = Some i \<and> bread_post blk (rw = 0) s i s'"
    then obtain i where r: "r = Some i" and post: "bread_post blk (rw = 0) s i s'" by auto
    note p = post[unfolded bread_post_def]
    have h: "holds s' i blk" and inv': "buf_inv s'" using p by auto
    let ?d = "bf_data (bufpool s' ! i)"
    let ?u = "set_data i (f ?d) s'"
    note sd = set_data_spec[OF inv' h, of "f ?d"]
    have data: "bview s' blk = ?d"
      using h bview_cached[OF inv', of i] by (simp add: holds_def)
    have new: "f ?d k = f (bview s blk) k" if k: "k < 512" for k
    proof (cases "rw = 0")
      case True
      then have "\<forall>j<512. ?d j = bview s blk j" using p data by metis
      then show ?thesis using hb[OF k] unfolding block_fun_def by blast
    next
      case False
      then show ?thesis using f k by blast
    qed
    have dat: "bf_data (bufpool ?u ! i) = f ?d"
      using h inv' by (simp add: set_data_def holds_def buf_inv_def)
    have "wp (bfree i 2) ?Q ?u"
    proof (rule wp_mono[OF bfree_now_spec[OF sd(1,2)]])
      fix x w assume w: "buf_inv w \<and> buf_frame ?u w \<and> only_buf i ?u w \<and> bf_busy (bufpool w ! i) = 0 \<and>
         (\<forall>c k. unat c < 2048 \<longrightarrow> k < 512 \<longrightarrow> bview w c k = bview ?u c k) \<and>
         (\<forall>k<512. disk_block w blk k = bf_data (bufpool ?u ! i) k)"
      have "busy_same s w"
        using p sd(5) w unfolding busy_same_def by (auto simp: only_buf_def)
      moreover have "buf_frame s w" using w p sd(3) buf_frame_trans by blast
      moreover have "bview w c k = ((bview s)(blk := f (bview s blk))) c k" if "unat c < 2048" "k < 512" for c k
        using w sd(4) p new that by simp
      ultimately show "?Q x w" using w new unfolding cache_step_def dat by simp
    qed
    then show "wp (bindK (derefK r) (\<lambda>i.
        thenK (upd_buf i (\<lambda>b. b\<lparr>bf_data := f (bf_data b)\<rparr>)) (bindK (bfree i 2) (\<lambda>_. retK ())))) ?Q s'"
      using r by (simp add: set_data_def)
  qed
  then show ?thesis by (simp add: write_buf_now_def)
qed

end
