(* ===== verification/Alloc.thy ===== *)
theory Alloc
  imports Block_Use Clock
begin

text \<open>
  Allocation of inodes and blocks (\<open>fs/filesys.c\<close>: \<open>getdev\<close>, \<open>baddev\<close>, \<open>validblk\<close>,
  \<open>i_alloc\<close>, \<open>i_free\<close>, \<open>blk_alloc\<close>, \<open>blk_free\<close>, \<open>magic\<close>, \<open>wr_inode\<close>) and \<open>_sync\<close> of
  \<open>kernel/scall1.c\<close>, which \<open>i_alloc\<close> calls. The free list of blocks - part in the superblock
  in memory, the rest chained through free blocks - is abstracted to the list of free blocks in
  the order they will be allocated; the operations are then push and pop.
\<close>

section \<open>Superblocks\<close>

definition getdev :: "int \<Rightarrow> unit k" where
  "getdev devno = (\<lambda>s.
     if devno < 0 \<or> devno \<ge> 5 \<or> s_mounted (fs_tab s ! nat devno) = 0
     then Halt (Panic ''getdev: bad dev'')
     else upd_fs (nat devno) (\<lambda>f. f\<lparr>s_time := rdtime s, s_fmod := 1\<rparr>) s)"

definition baddev :: "filesys \<Rightarrow> bool" where
  "baddev dev \<longleftrightarrow> s_mounted dev \<noteq> SMOUNTED"

definition validblk :: "int \<Rightarrow> u16 \<Rightarrow> unit k" where
  "validblk dev num =
     bindK (getK (\<lambda>s. fs_tab s ! nat dev)) (\<lambda>devptr.
     if s_mounted devptr = 0 then panic ''validblk: not mounted''
     else if num < s_isize devptr \<or> num \<ge> s_fsize devptr then panic ''validblk: invalid blk''
     else retK ())"

section \<open>Writing inodes and superblocks\<close>

definition magic :: "nat \<Rightarrow> unit k" where
  "magic ino = bindK (get_ino ino) (\<lambda>c. if c_magic c \<noteq> CMAGIC then panic ''Corrupt inode'' else retK ())"

definition wr_inode :: "nat \<Rightarrow> unit k" where
  "wr_inode ino = thenK (magic ino)
     (bindK (get_ino ino) (\<lambda>c.
      thenK (write_buf_now (c_dev c) (drop_bit 3 (c_num c) + 2) 0
               (put_dinode (unat (c_num c AND 7) * 64) (c_node c)))
        (upd_ino ino (\<lambda>c. c\<lparr>c_dirty := 0\<rparr>))))"

definition sys_sync :: "int k" where
  "sys_sync = thenK (doK [
     forK [0..<ITABSIZE] (\<lambda>ino.
       bindK (get_ino ino) (\<lambda>c.
       whenK (c_refs c > 0 \<and> c_dirty c \<noteq> 0)
         (thenK (wr_inode ino) (upd_ino ino (\<lambda>c. c\<lparr>c_dirty := 0\<rparr>))))),
     forK [0..<NDEVS] (\<lambda>j.
       bindK (getK (\<lambda>s. fs_tab s ! j)) (\<lambda>fs.
       whenK (s_mounted fs = SMOUNTED \<and> s_fmod fs \<noteq> 0)
         (thenK (upd_fs j (\<lambda>f. f\<lparr>s_fmod := 0\<rparr>))
          (bindK (getK (\<lambda>s. fs_mem s j)) (\<lambda>m.
           write_buf_now (int j) 1 1 (\<lambda>d k. if k < 512 then m k else d k)))))),
     bufsync]) (retK 0)"

section \<open>Inodes\<close>

text \<open>
  The end of the inodes of a device, computed in 16 bits. An index outside the tables of the
  superblock is a bad access.
\<close>

definition ino_limit :: "filesys \<Rightarrow> u16" where
  "ino_limit dev = (s_isize dev - 2) * 8"

definition i_alloc_corrupt :: "nat \<Rightarrow> u16 k" where
  "i_alloc_corrupt d = thenK (doK [warning ''i_alloc: corrupt superblock'',
       upd_fs d (\<lambda>f. f\<lparr>s_mounted := 1\<rparr>), set_error ENOSPC]) (retK 0)"

text \<open>The branch of \<open>tryagain\<close> that takes an inode from the table in the superblock.\<close>

definition i_alloc_take :: "nat \<Rightarrow> u16 k" where
  "i_alloc_take d =
     bindK (getK (\<lambda>s. fs_tab s ! d)) (\<lambda>dev.
     if s_tinode dev = 0 then i_alloc_corrupt d
     else let n = s_ninode dev - 1; ino = s_inode dev ! unat n in
       if unat n \<ge> 50 then haltK BadAccess
       else thenK (upd_fs d (\<lambda>f. f\<lparr>s_ninode := n\<rparr>))
       (if ino < 2 \<or> ino \<ge> ino_limit dev then i_alloc_corrupt d
        else thenK (upd_fs d (\<lambda>f. f\<lparr>s_tinode := s_tinode f - 1\<rparr>)) (retK ino)))"

text \<open>
  One inode block of the scan: the numbers of its unused inodes, until 50 have been found.
\<close>

definition scan_block :: "u16 \<Rightarrow> u16 list \<Rightarrow> bytes \<Rightarrow> u16 list" where
  "scan_block blk found buf = fold (\<lambda>j acc.
     if length acc = 50 then acc
     else if i_mode (get_dinode buf (64 * j)) = 0 \<and> i_nlink (get_dinode buf (64 * j)) = 0
          then acc @ [8 * (blk - 2) + of_nat j] else acc) [0..<8] found"

primrec i_alloc_scan :: "int \<Rightarrow> u16 list \<Rightarrow> u16 list \<Rightarrow> u16 list k" where
  "i_alloc_scan devno [] found = retK found"
| "i_alloc_scan devno (blk # blks) found =
     bindK (read_buf devno blk (scan_block blk found)) (\<lambda>found'.
     if length found' = 50 then retK found' else i_alloc_scan devno blks found')"

definition inode_blocks :: "filesys \<Rightarrow> u16 list" where
  "inode_blocks dev = map of_nat [2..<unat (s_isize dev)]"

definition i_alloc :: "int \<Rightarrow> u16 k" where
  "i_alloc devno = thenK (getdev devno)
     (bindK (getK (\<lambda>s. fs_tab s ! nat devno)) (\<lambda>dev.
      if baddev dev then i_alloc_corrupt (nat devno)
      else if s_ninode dev \<noteq> 0 then i_alloc_take (nat devno)
      else thenK (bindK sys_sync (\<lambda>_. retK ()))
        (bindK (i_alloc_scan devno (inode_blocks dev) []) (\<lambda>found.
         if found = [] then
           bindK (getK (\<lambda>s. s_tinode (fs_tab s ! nat devno))) (\<lambda>ti.
           if ti \<noteq> 0 then i_alloc_corrupt (nat devno)
           else thenK (set_error ENOSPC) (retK 0))
         else thenK (upd_fs (nat devno) (\<lambda>f. f\<lparr>s_inode := found @ drop (length found) (s_inode f),
                s_ninode := of_nat (length found)\<rparr>))
              (i_alloc_take (nat devno))))))"

definition i_free :: "int \<Rightarrow> u16 \<Rightarrow> unit k" where
  "i_free devno ino = thenK (getdev devno)
     (bindK (getK (\<lambda>s. fs_tab s ! nat devno)) (\<lambda>dev.
      if baddev dev then retK ()
      else if ino < 2 \<or> ino \<ge> ino_limit dev then panic ''i_free: bad ino''
      else thenK (upd_fs (nat devno) (\<lambda>f. f\<lparr>s_tinode := s_tinode f + 1\<rparr>))
        (whenK (sint (s_ninode dev) < 50)
          (if unat (s_ninode dev) \<ge> 50 then haltK BadAccess else upd_fs (nat devno) (\<lambda>f. f\<lparr>s_inode := (s_inode f)[unat (s_ninode f) := ino],
                                      s_ninode := s_ninode f + 1\<rparr>)))))"

section \<open>Blocks\<close>

definition blk_alloc_corrupt :: "nat \<Rightarrow> u16 k" where
  "blk_alloc_corrupt d = thenK (doK [warning ''blk_alloc: corrupt'',
       upd_fs d (\<lambda>f. f\<lparr>s_mounted := 1\<rparr>), set_error ENOSPC]) (retK 0)"

text \<open>\<open>bzero(buf, 512)\<close> and the two directions of the copy of \<open>s_nfree\<close> and \<open>s_free\<close>.\<close>

definition zero_block :: "bytes \<Rightarrow> bytes" where
  "zero_block d = (\<lambda>k. if k < 512 then 0 else d k)"

definition free_words :: "bytes \<Rightarrow> u16 \<times> u16 list" where
  "free_words buf = (word_at buf 0, map (word_at buf) [1..<51])"

text \<open>The end of \<open>blk_alloc\<close>, from \<open>validblk\<close> on.\<close>

definition blk_alloc_take :: "int \<Rightarrow> u16 \<Rightarrow> u16 k" where
  "blk_alloc_take devno newno = thenK (validblk devno newno)
     (bindK (getK (\<lambda>s. s_tfree (fs_tab s ! nat devno))) (\<lambda>tf.
      if tf = 0 then blk_alloc_corrupt (nat devno)
      else thenK (doK [
          upd_fs (nat devno) (\<lambda>f. f\<lparr>s_tfree := s_tfree f - 1\<rparr>),
          write_buf devno newno 2 zero_block])
        (retK newno)))"

definition blk_alloc :: "int \<Rightarrow> u16 k" where
  "blk_alloc devno = thenK (getdev devno)
     (bindK (getK (\<lambda>s. fs_tab s ! nat devno)) (\<lambda>dev.
      let d = nat devno in
      if baddev dev then thenK (set_error ENOSPC) (retK 0)
      else if sint (s_nfree dev) \<le> 0 \<or> sint (s_nfree dev) > 50 then blk_alloc_corrupt d
      else let n = s_nfree dev - 1; newno = s_free dev ! unat n in
        thenK (upd_fs d (\<lambda>f. f\<lparr>s_nfree := n\<rparr>))
        (if newno = 0 then
           (if s_tfree dev \<noteq> 0 then blk_alloc_corrupt d
            else thenK (doK [set_error ENOSPC, upd_fs d (\<lambda>f. f\<lparr>s_nfree := s_nfree f + 1\<rparr>)]) (retK 0))
         else thenK
             (whenK (n = 0) (bindK (read_buf devno newno free_words) (\<lambda>(nf, ws).
               upd_fs d (\<lambda>f. f\<lparr>s_nfree := nf, s_free := ws\<rparr>))))
             (blk_alloc_take devno newno))))"

text \<open>
  \<open>bcopy(&dev->s_nfree, buf, 512)\<close>: the words from \<open>s_nfree\<close> on, and what lies behind them.
\<close>

definition nfree_mem :: "kst \<Rightarrow> nat \<Rightarrow> bytes" where
  "nfree_mem s d = (\<lambda>k. fs_mem s d (6 + k))"

definition blk_free :: "int \<Rightarrow> u16 \<Rightarrow> unit k" where
  "blk_free devno blk =
     (if blk = 0 then retK ()
      else thenK (getdev devno)
       (bindK (getK (\<lambda>s. fs_tab s ! nat devno)) (\<lambda>dev.
        let d = nat devno in
        if baddev dev then retK ()
        else doK [
          validblk devno blk,
          whenK (s_nfree dev = 50)
            (bindK (getK (\<lambda>s. nfree_mem s d)) (\<lambda>m. doK [
               write_buf devno blk 1 (\<lambda>b k. if k < 512 then m k else b k),
               upd_fs d (\<lambda>f. f\<lparr>s_nfree := 0\<rparr>)])),
          upd_fs d (\<lambda>f. f\<lparr>s_tfree := s_tfree f + 1\<rparr>),
          bindK (getK (\<lambda>s. unat (s_nfree (fs_tab s ! d)))) (\<lambda>n.
            if n \<ge> 50 then haltK BadAccess
            else upd_fs d (\<lambda>f. f\<lparr>s_free := (s_free f)[n := blk], s_nfree := s_nfree f + 1\<rparr>))])))"

end
