(* ===== verification/Inode.thy ===== *)
theory Inode
  imports Alloc
begin

text \<open>
  The inode table and the tables of open files (\<open>fs/filesys.c\<close>: \<open>i_open\<close>, \<open>i_ref\<close>,
  \<open>i_deref\<close>, \<open>f_trunc\<close>, \<open>freeblk\<close>, \<open>bmap\<close>, \<open>oft_alloc\<close>, \<open>oft_deref\<close>, \<open>uf_alloc\<close>,
  \<open>getinode\<close>, \<open>isdevice\<close>, \<open>devnum\<close>, \<open>getmode\<close>, \<open>getperm\<close>, \<open>super\<close>, \<open>setftime\<close>). An
  \<open>inoptr\<close> is the index of an entry of \<open>i_tab\<close>, \<open>NULLINODE\<close> is \<open>None\<close>.
\<close>

section \<open>Attributes\<close>

definition getmode :: "cinode \<Rightarrow> u16" where
  "getmode ino = i_mode (c_node ino) AND F_MASK"

definition isdevice :: "cinode \<Rightarrow> bool" where
  "isdevice ino \<longleftrightarrow> i_mode (c_node ino) AND F_CDEV \<noteq> 0"

definition devnum :: "cinode \<Rightarrow> int" where
  "devnum ino = sint (i_addr (c_node ino) ! 0)"

definition super :: "kst \<Rightarrow> bool" where
  "super s \<longleftrightarrow> u_euid (udata s) = 0"

definition getperm :: "cinode \<Rightarrow> kst \<Rightarrow> u16" where
  "getperm ino s = (if super s then 7
     else let mode = i_mode (c_node ino) in
       (if i_uid (c_node ino) = u_euid (udata s) then drop_bit 6 mode
        else if i_gid (c_node ino) = u_egid (udata s) then drop_bit 3 mode
        else mode) AND 7)"

definition setftime :: "nat \<Rightarrow> u16 \<Rightarrow> unit k" where
  "setftime ino flag = doK [
     upd_ino ino (\<lambda>c. c\<lparr>c_dirty := 1\<rparr>),
     bindK (getK rdtime) (\<lambda>t. doK [
       whenK (flag AND A_TIME \<noteq> 0) (upd_node ino (\<lambda>n. n\<lparr>i_atime := t\<rparr>)),
       whenK (flag AND M_TIME \<noteq> 0) (upd_node ino (\<lambda>n. n\<lparr>i_mtime := t\<rparr>)),
       whenK (flag AND C_TIME \<noteq> 0) (upd_node ino (\<lambda>n. n\<lparr>i_ctime := t\<rparr>))])]"

section \<open>Opening\<close>

text \<open>
  The search of \<open>i_open\<close>, started at the entry after \<open>j\<close>: the new \<open>nexti\<close>, whether the inode
  was found, and the entry found or else the last unreferenced one seen. An entry matches by
  device and number alone, whether it is referenced or not.
\<close>

primrec i_scan :: "nat \<Rightarrow> int \<Rightarrow> u16 \<Rightarrow> cinode list \<Rightarrow> nat \<Rightarrow> nat \<Rightarrow> nat option \<Rightarrow> nat \<times> bool \<times> nat option" where
  "i_scan 0 dev ino tab nxt j nindex = (nxt, False, nindex)"
| "i_scan (Suc n) dev ino tab nxt j nindex =
     (let j' = (if Suc j \<ge> ITABSIZE then 0 else Suc j); c = tab ! j';
          nindex' = (if c_refs c = 0 then Some j' else nindex)
      in if c_dev c = dev \<and> c_num c = ino then (j, True, Some j')
         else i_scan n dev ino tab j j' nindex')"

definition i_open_found :: "bool \<Rightarrow> nat \<Rightarrow> nat option k" where
  "i_open_found new nindex = bindK (get_ino nindex) (\<lambda>c.
     let nlink = i_nlink (c_node c); fmt = i_mode (c_node c) AND F_MASK;
         bad = (if new then nlink \<noteq> 0 \<or> fmt \<noteq> 0 else \<not> (nlink \<noteq> 0 \<and> fmt \<noteq> 0))
     in if bad then thenK (warning ''i_open: bad disk inode'') (retK None)
        else thenK (upd_ino nindex (\<lambda>c. c\<lparr>c_refs := c_refs c + 1\<rparr>)) (retK (Some nindex)))"

definition i_open :: "int \<Rightarrow> u16 \<Rightarrow> nat option k" where
  "i_open dev ino0 =
     (if dev < 0 \<or> dev \<ge> 5 then panic ''i_open: Bad dev''
      else bindK (if ino0 = 0 then i_alloc dev else retK ino0) (\<lambda>ino.
        if ino = 0 then thenK (set_error ENOSPC) (retK None)
        else bindK (getK (\<lambda>s. fs_tab s ! nat dev)) (\<lambda>fs.
          if ino < ROOTINODE \<or> ino \<ge> ino_limit fs
          then thenK (warning ''i_open: bad inode number'') (retK None)
          else bindK (getK (\<lambda>s. i_scan ITABSIZE dev ino (i_tab s) (nexti s) (nexti s) None))
            (\<lambda>(nxt, found, nindex). thenK (modK (\<lambda>s. s\<lparr>nexti := nxt\<rparr>))
            (case nindex of
               None \<Rightarrow> thenK (set_error ENFILE) (retK None)
             | Some n \<Rightarrow>
                 thenK (whenK (\<not> found)
                   (bindK (read_buf dev (drop_bit 3 ino + 2) (\<lambda>b. get_dinode b (unat (ino AND 7) * 64)))
                     (\<lambda>d. upd_ino n (\<lambda>c. c\<lparr>c_node := d, c_dev := dev, c_num := ino, c_magic := CMAGIC\<rparr>))))
                 (i_open_found (ino0 = 0) n))))))"

section \<open>References\<close>

definition i_ref :: "nat \<Rightarrow> unit k" where
  "i_ref ino = thenK (upd_ino ino (\<lambda>c. c\<lparr>c_refs := c_refs c + 1\<rparr>))
     (bindK (get_ino ino) (\<lambda>c. if unat (c_refs c) = 2 * ITABSIZE then panic ''too many i-refs'' else retK ()))"

text \<open>
  \<open>freeblk\<close> with the block held in its buffer while the blocks it lists are freed.
\<close>

primrec freeblk :: "nat \<Rightarrow> int \<Rightarrow> u16 \<Rightarrow> unit k" where
  "freeblk 0 dev blk = (if blk = 0 then retK () else blk_free dev blk)"
| "freeblk (Suc level) dev blk =
     (if blk = 0 then retK ()
      else doK [
        bindK (bread dev blk 0) (\<lambda>r. bindK (derefK r) (\<lambda>buf. thenK
          (forK (rev [0..<256]) (\<lambda>j.
             bindK (getK (\<lambda>s. word_at (bf_data (bufpool s ! buf)) j)) (freeblk level dev)))
          (brelse buf))),
        blk_free dev blk])"

definition f_trunc :: "nat \<Rightarrow> unit k" where
  "f_trunc ino = bindK (get_ino ino) (\<lambda>c. let dev = c_dev c in doK [
     freeblk 2 dev (i_addr (c_node c) ! 19),
     freeblk 1 dev (i_addr (c_node c) ! 18),
     forK (rev [0..<18]) (\<lambda>j. freeblk 0 dev (i_addr (c_node c) ! j)),
     upd_node ino (\<lambda>n. n\<lparr>i_addr := replicate 20 0\<rparr>),
     upd_ino ino (\<lambda>c. c\<lparr>c_dirty := 1\<rparr>),
     upd_node ino (\<lambda>n. n\<lparr>i_size := \<lparr>o_blkno = 0, o_offset = 0\<rparr>\<rparr>)])"

definition i_deref :: "nat \<Rightarrow> unit k" where
  "i_deref ino = thenK (magic ino)
     (bindK (get_ino ino) (\<lambda>c.
      if c_refs c = 0 then panic ''inode freed.''
      else doK [
        whenK (getmode c = F_PIPE) (bindK (getK (\<lambda>s. ino_ptr s ino)) wakeup),
        upd_ino ino (\<lambda>c. c\<lparr>c_refs := c_refs c - 1\<rparr>),
        whenK (c_refs c - 1 = 0 \<and> i_nlink (c_node c) = 0) (f_trunc ino),
        bindK (get_ino ino) (\<lambda>c.
          whenK (c_refs c = 0 \<and> c_dirty c \<noteq> 0) (doK [
            whenK (i_nlink (c_node c) = 0) (doK [
              upd_node ino (\<lambda>n. n\<lparr>i_mode := 0\<rparr>),
              i_free (c_dev c) (c_num c)]),
            wr_inode ino]))]))"

section \<open>Blocks of a file\<close>

text \<open>
  \<open>bmap_ind n\<close> goes through \<open>n\<close> levels of indirect blocks; \<open>rwflg\<close> nonzero is reading.
\<close>

primrec bmap_ind :: "nat \<Rightarrow> int \<Rightarrow> u16 \<Rightarrow> nat \<Rightarrow> int \<Rightarrow> u16 \<Rightarrow> u16 k" where
  "bmap_ind 0 dev bn sh rwflg nb = retK nb"
| "bmap_ind (Suc n) dev bn sh rwflg nb =
     bindK (bread dev nb 0) (\<lambda>r. bindK (derefK r) (\<lambda>bp.
     let i = unat (drop_bit sh bn AND 0xff) in
     bindK (getK (\<lambda>s. word_at (bf_data (bufpool s ! bp)) i)) (\<lambda>nb'.
     if nb' \<noteq> 0 then thenK (brelse bp) (bmap_ind n dev bn (sh - 8) rwflg nb')
     else if rwflg \<noteq> 0 then thenK (brelse bp) (retK NULLBLK)
     else bindK (blk_alloc dev) (\<lambda>new.
       if new = 0 then thenK (brelse bp) (retK NULLBLK)
       else thenK (doK [
           upd_buf bp (\<lambda>b. b\<lparr>bf_data := put16 (2 * i) new (bf_data b)\<rparr>),
           bawrite bp])
         (bmap_ind n dev bn (sh - 8) rwflg new)))))"

text \<open>The address in the inode itself, allocated when it is missing and we are writing.\<close>

definition bmap_addr :: "nat \<Rightarrow> nat \<Rightarrow> int \<Rightarrow> u16 option k" where
  "bmap_addr ip k rwflg = bindK (get_ino ip) (\<lambda>c.
     let nb = i_addr (c_node c) ! k in
     if nb \<noteq> 0 then retK (Some nb)
     else if rwflg \<noteq> 0 then retK None
     else bindK (blk_alloc (c_dev c)) (\<lambda>nb.
       if nb = 0 then retK None
       else thenK (doK [
           upd_node ip (\<lambda>n. n\<lparr>i_addr := (i_addr n)[k := nb]\<rparr>),
           upd_ino ip (\<lambda>c. c\<lparr>c_dirty := 1\<rparr>)])
         (retK (Some nb))))"

definition bmap :: "nat \<Rightarrow> u16 \<Rightarrow> int \<Rightarrow> u16 k" where
  "bmap ip bn0 rwflg = bindK (get_ino ip) (\<lambda>c.
     if getmode c = F_BDEV then retK bn0
     else if bn0 < 18 then
       bindK (bmap_addr ip (unat bn0) rwflg) (\<lambda>r. case r of None \<Rightarrow> retK NULLBLK | Some nb \<Rightarrow> retK nb)
     else
       let bn1 = bn0 - 18; dbl = bn1 AND 0xff00 \<noteq> 0;
           sh = (if dbl then 8 else 0); bn = (if dbl then bn1 - 256 else bn1);
           j = (if dbl then 1 else 2)
       in bindK (bmap_addr ip (20 - j) rwflg) (\<lambda>r. case r of
            None \<Rightarrow> retK NULLBLK
          | Some nb \<Rightarrow> bmap_ind (3 - j) (c_dev c) bn sh rwflg nb))"

section \<open>Open files\<close>

definition oft_alloc :: "int k" where
  "oft_alloc = bindK (getK (\<lambda>s. find (\<lambda>j. o_refs (of_tab s ! j) = 0) [0..<OFTSIZE])) (\<lambda>r.
     case r of
       Some j \<Rightarrow> thenK (upd_oft j (\<lambda>f. f\<lparr>o_refs := 1, o_inode := None\<rparr>)) (retK (int j))
     | None \<Rightarrow> thenK (set_error ENFILE) (retK (- 1)))"

definition oft_deref :: "nat \<Rightarrow> unit k" where
  "oft_deref n = thenK (upd_oft n (\<lambda>f. f\<lparr>o_refs := o_refs f - 1\<rparr>))
     (bindK (get_oft n) (\<lambda>f. case o_inode f of
        None \<Rightarrow> retK ()
      | Some ino \<Rightarrow> whenK (o_refs f = 0) (doK [i_deref ino, upd_oft n (\<lambda>f. f\<lparr>o_inode := None\<rparr>)])))"

definition uf_alloc :: "int k" where
  "uf_alloc = bindK (getK (\<lambda>s. find (\<lambda>j. u_files (udata s) ! j AND 0x80 \<noteq> 0) [0..<UFTSIZE])) (\<lambda>r.
     case r of
       Some j \<Rightarrow> retK (int j)
     | None \<Rightarrow> thenK (set_error ENFILE) (retK (- 1)))"

text \<open>A descriptor whose table entry holds no inode makes \<open>getinode\<close> panic.\<close>

definition getinode :: "int \<Rightarrow> nat option k" where
  "getinode uindex =
     bindK (getK (\<lambda>s. u_files (udata s) ! nat uindex)) (\<lambda>fd.
     if uindex < 0 \<or> uindex \<ge> 10 \<or> fd AND 0x80 \<noteq> 0
     then thenK (set_error EBADF) (retK None)
     else if unat fd \<ge> OFTSIZE then panic ''Getinode: bad desc table''
     else bindK (get_oft (unat fd)) (\<lambda>f. case o_inode f of
       None \<Rightarrow> panic ''Getinode: bad OFT''
     | Some ino \<Rightarrow> thenK (magic ino) (retK (Some ino))))"

end
