(* ===== verification/File_IO.thy ===== *)
theory File_IO
  imports Inode "HOL-Library.Signed_Division"
begin

text \<open>
  Reading and writing files (\<open>kernel/scall1.c\<close>: \<open>readi\<close>, \<open>writei\<close>, \<open>rwsetup\<close>, \<open>addoff\<close>,
  \<open>updoff\<close>, \<open>psize\<close>, \<open>min\<close>). The parameters of \<open>min\<close> and \<open>addoff\<close> are signed 16-bit
  integers: the conversions are written out. A copy that would leave a buffer is a bad access.
  What happens while a process sleeps on a pipe is the argument \<open>env\<close>, as in Drivers.
\<close>

section \<open>Offsets\<close>

definition cmin :: "u16 \<Rightarrow> u16 \<Rightarrow> u16" where
  "cmin a b = (if sint a < sint b then a else b)"

definition psize :: "cinode \<Rightarrow> u16" where
  "psize ino = 512 * o_blkno (i_size (c_node ino)) + o_offset (i_size (c_node ino))"

definition addoff :: "u16 \<Rightarrow> uzi_off \<Rightarrow> uzi_off" where
  "addoff amount p =
     (if sint amount \<ge> 0 then
        let p1 = p\<lparr>o_offset := o_offset p + amount mod 512\<rparr>;
            p2 = (if sint (o_offset p1) \<ge> 512
                  then p1\<lparr>o_offset := o_offset p1 - 512, o_blkno := o_blkno p1 + 1\<rparr> else p1)
        in p2\<lparr>o_blkno := o_blkno p2 + amount div 512\<rparr>
      else
        let n = sint (- amount);
            p1 = p\<lparr>o_offset := o_offset p - word_of_int (n smod 512)\<rparr>;
            p2 = (if sint (o_offset p1) < 0
                  then p1\<lparr>o_offset := o_offset p1 + 512, o_blkno := o_blkno p1 - 1\<rparr> else p1)
        in p2\<lparr>o_blkno := o_blkno p2 - word_of_int (n sdiv 512)\<rparr>)"

definition add_u_offset :: "u16 \<Rightarrow> unit k" where
  "add_u_offset amount = upd_ud (\<lambda>u. u\<lparr>u_offset := addoff amount (u_offset u)\<rparr>)"

definition add_i_size :: "nat \<Rightarrow> u16 \<Rightarrow> unit k" where
  "add_i_size ino amount = upd_node ino (\<lambda>n. n\<lparr>i_size := addoff amount (i_size n)\<rparr>)"

text \<open>\<open>if (u_offset.o_blkno >= 18) u_offset.o_blkno = 0\<close>, for pipes.\<close>

definition wrap_pipe :: "unit k" where
  "wrap_pipe = upd_ud (\<lambda>u. if o_blkno (u_offset u) \<ge> 18
     then u\<lparr>u_offset := (u_offset u)\<lparr>o_blkno := 0\<rparr>\<rparr> else u)"

section \<open>Copies between a buffer and user memory\<close>

definition copy_out :: "nat \<Rightarrow> u16 \<Rightarrow> u16 \<Rightarrow> unit k" where
  "copy_out bp off amount = (\<lambda>s.
     if sint off < 0 \<or> sint off + uint amount > 512 then Halt BadAccess
     else Ret () (s\<lparr>mem := (\<lambda>a. if a - u_base (udata s) < amount
            then bf_data (bufpool s ! bp) (unat off + unat (a - u_base (udata s))) else mem s a)\<rparr>))"

definition copy_in :: "nat \<Rightarrow> u16 \<Rightarrow> u16 \<Rightarrow> unit k" where
  "copy_in bp off amount = (\<lambda>s.
     if sint off < 0 \<or> sint off + uint amount > 512 then Halt BadAccess
     else upd_buf bp (\<lambda>b. b\<lparr>bf_data := (\<lambda>k. if unat off \<le> k \<and> k < unat off + unat amount
            then mem s (u_base (udata s) + of_nat (k - unat off)) else bf_data b k)\<rparr>) s)"

section \<open>readi\<close>

text \<open>The wait for data in an empty pipe, until there is some or no writer.\<close>

primrec pipe_read_wait :: "(kst \<Rightarrow> kst) list \<Rightarrow> nat \<Rightarrow> unit k" where
  "pipe_read_wait [] ino = bindK (get_ino ino) (\<lambda>c.
     if psize c = 0 \<and> c_refs c \<noteq> 1 then bindK (getK (\<lambda>s. ino_ptr s ino)) (psleep switchK) else retK ())"
| "pipe_read_wait (e # es) ino = bindK (get_ino ino) (\<lambda>c.
     if psize c = 0 \<and> c_refs c \<noteq> 1
     then thenK (bindK (getK (\<lambda>s. ino_ptr s ino)) (psleep (modK e))) (pipe_read_wait es ino)
     else retK ())"

text \<open>How much a read of a file or directory may take: \<open>u_count\<close>, cut off at the end.\<close>

definition read_limit :: "cinode \<Rightarrow> u_data \<Rightarrow> u16" where
  "read_limit c u =
     (let size = i_size (c_node c); off = u_offset u in
      if o_blkno size - o_blkno off \<ge> 64 then u_count u
      else cmin (u_count u) (512 * (o_blkno size - o_blkno off) + (o_offset size - o_offset off)))"

text \<open>
  One round of the loop: it moves the bytes to the end of the block or of the request. An
  unallocated block reads as zeros. At most 65535 rounds move at least one byte each.
\<close>

definition read_chunk :: "nat \<Rightarrow> int \<Rightarrow> bool \<Rightarrow> u16 \<Rightarrow> u16 k" where
  "read_chunk ino dev ispipe toread =
     bindK (getK (\<lambda>s. u_offset (udata s))) (\<lambda>off.
     bindK (bmap ino (o_blkno off) 1) (\<lambda>pblk.
     bindK (if pblk \<noteq> NULLBLK then bindK (bread dev pblk 0) derefK else zerobuf) (\<lambda>bp.
     let amount = cmin toread (512 - o_offset off) in
     thenK (doK [
       copy_out bp (o_offset off) amount,
       brelse bp,
       upd_ud (\<lambda>u. u\<lparr>u_base := u_base u + amount\<rparr>),
       add_u_offset amount,
       whenK ispipe wrap_pipe,
       whenK ispipe (doK [add_i_size ino (- amount), bindK (getK (\<lambda>s. ino_ptr s ino)) wakeup])])
     (retK (toread - amount)))))"

primrec read_loop :: "nat \<Rightarrow> nat \<Rightarrow> int \<Rightarrow> bool \<Rightarrow> u16 \<Rightarrow> unit k" where
  "read_loop 0 ino dev ispipe toread = (if toread = 0 then retK () else haltK Diverges)"
| "read_loop (Suc fuel) ino dev ispipe toread =
     (if toread = 0 then retK ()
      else bindK (read_chunk ino dev ispipe toread) (read_loop fuel ino dev ispipe))"

definition set_u_count :: "u16 \<Rightarrow> unit k" where
  "set_u_count n = upd_ud (\<lambda>u. u\<lparr>u_count := n\<rparr>)"

definition readi :: "(kst \<Rightarrow> kst) list \<Rightarrow> nat \<Rightarrow> unit k" where
  "readi env ino = bindK (get_ino ino) (\<lambda>c.
     let mode = getmode c in
     if mode = F_DIR \<or> mode = F_REG then
       bindK (getK (\<lambda>s. read_limit c (udata s))) (\<lambda>n.
       thenK (set_u_count n) (read_loop 65535 ino (c_dev c) False n))
     else if mode = F_PIPE then
       thenK (pipe_read_wait env ino)
       (bindK (get_ino ino) (\<lambda>c'.
        bindK (getK (\<lambda>s. cmin (u_count (udata s)) (psize c'))) (\<lambda>n.
        thenK (set_u_count n) (read_loop 65535 ino (c_dev c) True n))))
     else if mode = F_BDEV then
       bindK (getK (\<lambda>s. u_count (udata s))) (read_loop 65535 ino (devnum c) False)
     else if mode = F_CDEV then
       bindK (cdread (devnum c)) (\<lambda>r. thenK (set_u_count (word_of_int r))
         (whenK (word_of_int r \<noteq> (- 1 :: u16)) (add_u_offset (word_of_int r))))
     else set_error ENODEV)"

section \<open>writei\<close>

text \<open>
  The wait for room in a pipe; the result says whether to go on (there is a reader).
\<close>

definition pipe_full :: "cinode \<Rightarrow> u16 \<Rightarrow> bool" where
  "pipe_full c count \<longleftrightarrow> count > 16 * 512 - psize c"

definition pipe_broken :: "bool k" where
  "pipe_broken = thenK (doK [
     set_u_count (- 1), set_error EPIPE,
     bindK (getK (\<lambda>s. u_ptab (udata s))) (\<lambda>p. ssig p SIGPIPE)]) (retK False)"

primrec pipe_write_wait :: "(kst \<Rightarrow> kst) list \<Rightarrow> nat \<Rightarrow> bool k" where
  "pipe_write_wait [] ino = bindK (get_ino ino) (\<lambda>c. bindK (getK (\<lambda>s. u_count (udata s))) (\<lambda>n.
     if pipe_full c n then
       (if c_refs c = 1 then pipe_broken
        else thenK (bindK (getK (\<lambda>s. ino_ptr s ino)) (psleep switchK)) (retK True))
     else retK True))"
| "pipe_write_wait (e # es) ino = bindK (get_ino ino) (\<lambda>c. bindK (getK (\<lambda>s. u_count (udata s))) (\<lambda>n.
     if pipe_full c n then
       (if c_refs c = 1 then pipe_broken
        else thenK (bindK (getK (\<lambda>s. ino_ptr s ino)) (psleep (modK e)))
          (pipe_write_wait es ino))
     else retK True))"

text \<open>One round of the loop: \<open>None\<close> when there is no block to write to.\<close>

definition write_chunk :: "nat \<Rightarrow> int \<Rightarrow> bool \<Rightarrow> u16 \<Rightarrow> u16 option k" where
  "write_chunk ino dev ispipe towrite =
     bindK (getK (\<lambda>s. u_offset (udata s))) (\<lambda>off.
     let amount = cmin towrite (512 - o_offset off) in
     bindK (bmap ino (o_blkno off) 0) (\<lambda>pblk.
     if pblk = NULLBLK then retK None
     else bindK (bread dev pblk (if amount = 512 then 1 else 0)) (\<lambda>r. bindK (derefK r) (\<lambda>bp.
       thenK (doK [
         copy_in bp (o_offset off) amount,
         bawrite bp,
         upd_ud (\<lambda>u. u\<lparr>u_base := u_base u + amount\<rparr>),
         add_u_offset amount,
         whenK ispipe (doK [wrap_pipe, add_i_size ino amount, bindK (getK (\<lambda>s. ino_ptr s ino)) wakeup])])
       (retK (Some (towrite - amount)))))))"

primrec write_loop :: "nat \<Rightarrow> nat \<Rightarrow> int \<Rightarrow> bool \<Rightarrow> u16 \<Rightarrow> unit k" where
  "write_loop 0 ino dev ispipe towrite = (if towrite = 0 then retK () else haltK Diverges)"
| "write_loop (Suc fuel) ino dev ispipe towrite =
     (if towrite = 0 then retK ()
      else bindK (write_chunk ino dev ispipe towrite) (\<lambda>r. case r of
        None \<Rightarrow> retK () | Some n \<Rightarrow> write_loop fuel ino dev ispipe n))"

definition grow_size :: "nat \<Rightarrow> unit k" where
  "grow_size ino = bindK (getK (\<lambda>s. u_offset (udata s))) (\<lambda>off.
     bindK (get_ino ino) (\<lambda>c. let size = i_size (c_node c) in
     whenK (o_blkno off > o_blkno size \<or> o_blkno off = o_blkno size \<and> sint (o_offset off) > sint (o_offset size))
       (doK [upd_node ino (\<lambda>n. n\<lparr>i_size := off\<rparr>), upd_ino ino (\<lambda>c. c\<lparr>c_dirty := 1\<rparr>)])))"

definition writei :: "(kst \<Rightarrow> kst) list \<Rightarrow> nat \<Rightarrow> unit k" where
  "writei env ino = bindK (get_ino ino) (\<lambda>c.
     let mode = getmode c in
     if mode = F_BDEV \<or> mode = F_DIR \<or> mode = F_REG then
       bindK (getK (\<lambda>s. u_count (udata s))) (\<lambda>n.
       thenK (write_loop 65535 ino (if mode = F_BDEV then devnum c else c_dev c) False n) (grow_size ino))
     else if mode = F_PIPE then
       bindK (pipe_write_wait env ino) (\<lambda>go.
       whenK go (bindK (getK (\<lambda>s. u_count (udata s))) (write_loop 65535 ino (c_dev c) True)))
     else if mode = F_CDEV then
       bindK (cdwrite (devnum c)) (\<lambda>r. thenK (set_u_count (word_of_int r))
         (whenK (word_of_int r \<noteq> (- 1 :: u16)) (add_u_offset (word_of_int r))))
     else set_error ENODEV)"

section \<open>File positions\<close>

definition rwsetup :: "int \<Rightarrow> u16 \<Rightarrow> u16 \<Rightarrow> bool \<Rightarrow> nat option k" where
  "rwsetup d buf nbytes rwflag =
     thenK (upd_ud (\<lambda>u. u\<lparr>u_base := buf, u_count := nbytes\<rparr>))
     (bindK (getinode d) (\<lambda>r. case r of
        None \<Rightarrow> retK None
      | Some ino \<Rightarrow>
          bindK (getK (\<lambda>s. unat (u_files (udata s) ! nat d))) (\<lambda>fd.
          bindK (get_oft fd) (\<lambda>oftp.
          if o_access oftp = (if rwflag then O_WRONLY else O_RDONLY)
          then thenK (set_error EBADF) (retK None)
          else thenK (doK [
              setftime ino (if rwflag then A_TIME else (A_TIME OR M_TIME OR C_TIME)),
              upd_ud (\<lambda>u. u\<lparr>u_offset := o_ptr oftp\<rparr>)])
            (retK (Some ino))))))"

definition updoff :: "int \<Rightarrow> unit k" where
  "updoff d = bindK (getK (\<lambda>s. (unat (u_files (udata s) ! nat d), u_offset (udata s)))) (\<lambda>(fd, off).
     upd_oft fd (\<lambda>f. f\<lparr>o_ptr := off\<rparr>))"

section \<open>A position as a number of bytes\<close>

text \<open>The two fields of a well-formed position together count the bytes before it.\<close>

definition off_pos :: "uzi_off \<Rightarrow> nat" where
  "off_pos p = 512 * unat (o_blkno p) + unat (o_offset p)"

definition wf_off :: "uzi_off \<Rightarrow> bool" where
  "wf_off p \<longleftrightarrow> unat (o_offset p) < 512"

lemma sint_neg_u16:
  assumes "0 < unat (w :: u16)" and "unat w < 32768"
  shows "sint (- w) < 0"
proof -
  have "w \<noteq> 0" using assms(1) by auto
  then have "unat (- w) = 65536 - unat w" by (simp add: unat_neg_u16)
  moreover have "sint (- w) = (if 65536 - unat w < 32768 then int (65536 - unat w) else int (65536 - unat w) - 65536)"
    unfolding sint_u16 calculation ..
  moreover have "\<not> 65536 - unat w < 32768" using assms by linarith
  ultimately have "sint (- w) = int (65536 - unat w) - 65536" by (simp only: if_False)
  then show ?thesis using assms by linarith
qed

lemma addoff_forward:
  assumes w: "wf_off p" and a: "unat amount < 32768" and fit: "off_pos p + unat amount < 33554432"
  shows "off_pos (addoff amount p) = off_pos p + unat amount \<and> wf_off (addoff amount p)"
proof -
  define a where "a = unat amount"
  define x where "x = unat (o_offset p)"
  define b where "b = unat (o_blkno p)"
  have x: "x < 512" using w by (simp add: wf_off_def x_def)
  have fit': "512 * b + x + a < 33554432" using fit by (simp add: off_pos_def a_def b_def x_def)
  have pos: "sint amount \<ge> 0" using a by (simp add: sint_small del: uint_nat)
  have m: "unat (amount mod 512) = a mod 512" "unat (amount div 512) = a div 512"
    by (simp_all add: a_def unat_mod unat_div)
  have am: "a mod 512 < 512" "a = 512 * (a div 512) + a mod 512" by simp_all
  have o: "unat (o_offset p + amount mod 512) = x + a mod 512"
    using x am m by (subst unat_add_small) (simp_all add: x_def)
  then have s: "sint (o_offset p + amount mod 512) = int (x + a mod 512)"
    using x am by (subst sint_small) simp_all
  show ?thesis
  proof (cases "x + a mod 512 \<ge> 512")
    case True
    have e: "addoff amount p = p\<lparr>o_offset := o_offset p + amount mod 512 - 512,
        o_blkno := o_blkno p + 1 + amount div 512\<rparr>"
      using pos s True by (simp add: addoff_def Let_def)
    have o2: "unat (o_offset p + amount mod 512 - 512) = x + a mod 512 - 512"
      using True o by (subst unat_sub_le) simp_all
    have "b + 1 + a div 512 < 65536" using fit' True am by linarith
    then have b1: "unat (o_blkno p + 1) = b + 1" by (subst unat_add_small) (simp_all add: b_def)
    then have "unat (o_blkno p + 1 + amount div 512) = b + 1 + a div 512"
      using \<open>b + 1 + a div 512 < 65536\<close> m by (subst unat_add_small) simp_all
    then show ?thesis
      using o2 True x am unfolding e off_pos_def wf_off_def by (simp add: a_def[symmetric] b_def[symmetric] x_def[symmetric])
  next
    case False
    have e: "addoff amount p = p\<lparr>o_offset := o_offset p + amount mod 512, o_blkno := o_blkno p + amount div 512\<rparr>"
      using pos s False by (simp add: addoff_def Let_def)
    have "b + a div 512 < 65536" using fit' am by linarith
    then have "unat (o_blkno p + amount div 512) = b + a div 512"
      using m by (subst unat_add_small) (simp_all add: b_def)
    then show ?thesis
      using o False am unfolding e off_pos_def wf_off_def by (simp add: a_def[symmetric] b_def[symmetric] x_def[symmetric])
  qed
qed

lemma addoff_backward:
  assumes w: "wf_off p" and a: "32768 < unat amount" and fit: "unat (- amount) \<le> off_pos p"
  shows "off_pos (addoff amount p) = off_pos p - unat (- amount) \<and> wf_off (addoff amount p)"
proof -
  define a where "a = unat (- amount)"
  define x where "x = unat (o_offset p)"
  define b where "b = unat (o_blkno p)"
  have x: "x < 512" using w by (simp add: wf_off_def x_def)
  have fit': "a \<le> 512 * b + x" using fit by (simp add: off_pos_def a_def b_def x_def)
  have nz: "amount \<noteq> 0" using a by auto
  have a32: "a < 32768" using a nz by (simp add: a_def unat_neg_u16)
  have neg: "\<not> sint amount \<ge> 0"
  proof -
    have "uint amount = int (unat amount)" by simp
    then have "\<not> uint amount < 32768" using a by linarith
    then have "sint amount = uint amount - 65536" unfolding sint_u16_uint by simp
    then show ?thesis using uint_u16_lt[of amount] by linarith
  qed
  have n: "sint (- amount) = int a" using a32 by (simp add: sint_small a_def del: uint_nat)
  have m: "int a smod 512 = int (a mod 512)" "int a sdiv 512 = int (a div 512)"
    by (simp_all add: signed_modulo_int_def signed_divide_int_def zmod_int zdiv_int sgn_if)
  have am: "a mod 512 < 512" "a = 512 * (a div 512) + a mod 512" by simp_all
  have wm: "unat (word_of_int (int (a mod 512)) :: u16) = a mod 512" "unat (word_of_int (int (a div 512)) :: u16) = a div 512"
    using a32 by (simp_all add: unat_of_nat take_bit_nat_eq_self)
  show ?thesis
  proof (cases "a mod 512 \<le> x")
    case True
    have o: "unat (o_offset p - of_nat (a mod 512)) = x - a mod 512"
      using True wm by (subst unat_sub_le) (simp_all add: x_def)
    then have s: "sint (o_offset p - of_nat (a mod 512)) = int (x - a mod 512)"
      using x by (subst sint_small) simp_all
    have e: "addoff amount p = p\<lparr>o_offset := o_offset p - of_nat (a mod 512), o_blkno := o_blkno p - of_nat (a div 512)\<rparr>"
      using neg s by (simp add: addoff_def Let_def n m)
    have "a div 512 \<le> b" using fit' True x am by linarith
    then have "unat (o_blkno p - of_nat (a div 512)) = b - a div 512"
      using wm by (subst unat_sub_le) (simp_all add: b_def)
    moreover have "512 * (b - a div 512) + (x - a mod 512) = 512 * b + x - a \<and> x - a mod 512 < 512"
      using True x am \<open>a div 512 \<le> b\<close> by linarith
    ultimately show ?thesis
      using o unfolding e off_pos_def wf_off_def by (simp add: a_def[symmetric] b_def[symmetric] x_def[symmetric])
  next
    case False
    have ox: "o_offset p = of_nat x" by (simp add: x_def)
    have o: "o_offset p - of_nat (a mod 512) = - of_nat (a mod 512 - x)"
      using False by (simp add: ox of_nat_diff)
    have k: "unat (of_nat (a mod 512 - x) :: u16) = a mod 512 - x"
      using am by (subst unat_of_small) simp_all
    have s: "sint (o_offset p - of_nat (a mod 512)) < 0"
      unfolding o
    proof (rule sint_neg_u16)
      show "0 < unat (of_nat (a mod 512 - x) :: u16)" "unat (of_nat (a mod 512 - x) :: u16) < 32768"
        unfolding k using False am by linarith+
    qed
    have "o_offset p - of_nat (a mod 512) + 512 = of_nat (x + 512 - a mod 512)"
      using am by (simp add: ox of_nat_diff)
    then have o2: "unat (o_offset p - of_nat (a mod 512) + 512) = x + 512 - a mod 512"
      using x by (simp only:) (subst unat_of_small, simp_all)
    have e: "addoff amount p = p\<lparr>o_offset := o_offset p - of_nat (a mod 512) + 512,
        o_blkno := o_blkno p - 1 - of_nat (a div 512)\<rparr>"
      using neg s by (simp add: addoff_def Let_def n m)
    have lt: "a div 512 < b" using fit' False x am by linarith
    then have b1: "unat (o_blkno p - 1) = b - 1" by (subst unat_sub_le) (simp_all add: b_def)
    have "unat (o_blkno p - 1 - of_nat (a div 512)) = b - 1 - a div 512"
      using wm b1 lt by (subst unat_sub_le) simp_all
    moreover have "512 * (b - 1 - a div 512) + (x + 512 - a mod 512) = 512 * b + x - a \<and> x + 512 - a mod 512 < 512"
      using False x am lt by linarith
    ultimately show ?thesis
      using o2 unfolding e off_pos_def wf_off_def by (simp add: a_def[symmetric] b_def[symmetric] x_def[symmetric])
  qed
qed

text \<open>
  C38: \<open>addoff\<close> adds a signed 16-bit amount, other than -32768, to a file position. On positions
  with an offset below 512 the result is the position that many bytes on, or back for a negative
  amount, again with an offset below 512, as long as it neither passes the last of 65536 blocks
  nor goes below zero.
\<close>

theorem addoff_position:
  assumes "wf_off p" and "sint amount \<noteq> - 32768"
    and "0 \<le> int (off_pos p) + sint amount" and "int (off_pos p) + sint amount < 33554432"
  shows "int (off_pos (addoff amount p)) = int (off_pos p) + sint amount \<and> wf_off (addoff amount p)"
proof (cases "unat amount < 32768")
  case True
  then have s: "sint amount = int (unat amount)" by (rule sint_small)
  then have "off_pos p + unat amount < 33554432" using assms(4) by linarith
  then show ?thesis using addoff_forward[OF assms(1) True] unfolding s by simp
next
  case False
  then have s: "sint amount = int (unat amount) - 65536" unfolding sint_u16 by (simp only: if_False)
  then have a: "32768 < unat amount" using False assms(2) by linarith
  then have n: "unat (- amount) = 65536 - unat amount" by (auto simp: unat_neg_u16)
  have le: "unat (- amount) \<le> off_pos p" using assms(3) s u16_lt[of amount] unfolding n by linarith
  show ?thesis
    using addoff_backward[OF assms(1) a le] assms(3) s le u16_lt[of amount] unfolding n by linarith
qed

theorem addoff_position_witness:
  "off_pos (addoff (- 1000) \<lparr>o_blkno = 3, o_offset = 5\<rparr>) = 541"
proof -
  have p: "off_pos \<lparr>o_blkno = 3, o_offset = 5\<rparr> = 1541" by (simp add: off_pos_def)
  have a: "sint (- 1000 :: u16) = - 1000" by simp
  have "int (off_pos (addoff (- 1000) \<lparr>o_blkno = 3, o_offset = 5\<rparr>)) = 541"
    using addoff_position[of "\<lparr>o_blkno = 3, o_offset = 5\<rparr>" "- 1000"] by (simp only: p a) (simp add: wf_off_def)
  then show ?thesis by linarith
qed

end
