(* ===== verification/Names.thy ===== *)
theory Names
  imports Prelude
begin

text \<open>
  File names (\<open>fs/filesys.c\<close>: \<open>namecomp\<close>, \<open>filename\<close>) and the walk over the components of a
  path that \<open>n_open\<close> does. A name is the list of bytes from the pointer on; 47 is the slash.
\<close>

section \<open>Operations\<close>

primrec namecomp_loop :: "nat \<Rightarrow> cstr \<Rightarrow> cstr \<Rightarrow> int" where
  "namecomp_loop 0 n1 n2 = - 1"
| "namecomp_loop (Suc n) n1 n2 =
     (if deref n1 \<noteq> 0 \<and> deref n1 \<noteq> 47 then
        (if deref n1 \<noteq> deref n2 then 0
         else if n = 0 then - 1
         else namecomp_loop n (tl n1) (tl n2))
      else if deref n2 = 0 \<or> deref n2 = 47 then 1 else 0)"

definition namecomp :: "cstr \<Rightarrow> cstr \<Rightarrow> int" where
  "namecomp n1 n2 = namecomp_loop 14 n1 n2"

text \<open>\<open>filename\<close>: from the terminator back to the last slash, or to before the start.\<close>

primrec filename_back :: "cstr \<Rightarrow> nat \<Rightarrow> nat" where
  "filename_back p 0 = (if char_at p 0 = 47 then 1 else 0)"
| "filename_back p (Suc n) = (if char_at p (Suc n) = 47 then Suc (Suc n) else filename_back p n)"

definition filename :: "cstr \<Rightarrow> cstr" where
  "filename path = drop (filename_back path (length (takeWhile (\<lambda>c. c \<noteq> 0) path))) path"

text \<open>The two skipping loops of \<open>n_open\<close>.\<close>

definition skip_slashes :: "cstr \<Rightarrow> cstr" where
  "skip_slashes p = dropWhile (\<lambda>c. c = 47) p"

definition skip_component :: "cstr \<Rightarrow> cstr" where
  "skip_component p = dropWhile (\<lambda>c. c \<noteq> 47 \<and> c \<noteq> 0) p"

section \<open>What they compute\<close>

definition component :: "cstr \<Rightarrow> byte list" where
  "component p = takeWhile (\<lambda>c. c \<noteq> 0 \<and> c \<noteq> 47) p"

lemma component_Nil [simp]: "component [] = []"
  by (simp add: component_def)

lemma component_Cons [simp]: "component (c # p) = (if c \<noteq> 0 \<and> c \<noteq> 47 then c # component p else [])"
  by (simp add: component_def)

lemma component_deref: "component p = [] \<longleftrightarrow> deref p = 0 \<or> deref p = 47"
  by (cases p) auto

lemma component_step:
  "deref p \<noteq> 0 \<Longrightarrow> deref p \<noteq> 47 \<Longrightarrow> component p = deref p # component (tl p)"
  by (cases p) auto

lemma namecomp_loop_iff:
  "n > 0 \<Longrightarrow> namecomp_loop n p q \<noteq> 0 \<longleftrightarrow> take n (component p) = take n (component q)"
proof (induction n arbitrary: p q)
  case 0
  then show ?case by simp
next
  case (Suc n)
  show ?case
  proof (cases "deref p \<noteq> 0 \<and> deref p \<noteq> 47")
    case True
    then have p: "component p = deref p # component (tl p)" by (simp add: component_step)
    show ?thesis
    proof (cases "deref q = deref p")
      case eq: True
      then have q: "component q = deref p # component (tl q)" using True component_step[of q] by simp
      show ?thesis
        using Suc.IH[of "tl p" "tl q"] True eq p q by (cases n) simp_all
    next
      case False
      then have "take (Suc n) (component q) \<noteq> take (Suc n) (component p)"
        unfolding p using component_step[of q] component_deref[of q] by (cases "component q = []") auto
      then show ?thesis using True False by (auto simp del: take_Suc_Cons)
    qed
  next
    case False
    then have "component p = []" by (simp add: component_deref)
    then show ?thesis
      using False component_deref[of q] by (cases "component q") auto
  qed
qed

lemma filename_back_spec:
  "filename_back p n = k \<Longrightarrow> k \<le> Suc n \<and> (k = 0 \<or> char_at p (k - 1) = 47) \<and>
     (\<forall>j. k \<le> j \<longrightarrow> j \<le> n \<longrightarrow> char_at p j \<noteq> 47)"
proof (induction n)
  case 0
  then show ?case by (auto split: if_splits)
next
  case (Suc n)
  then show ?case by (auto simp: le_Suc_eq split: if_splits)
qed

lemma takeWhile_before: "j < length (takeWhile P xs) \<Longrightarrow> P (xs ! j)"
  using nth_mem[of j "takeWhile P xs"] set_takeWhileD[of "xs ! j" P xs] by (simp add: takeWhile_nth)

section \<open>Properties\<close>

text \<open>
  \<open>namecomp\<close> decides equality of path components up to fourteen characters: it is nonzero
  exactly when the first fourteen characters of the two components (up to a slash or NUL)
  agree. So names that differ only from the fifteenth character on are the same file, and a
  directory entry without a terminator compares right.
\<close>

theorem namecomp_component:
  "namecomp n1 n2 \<noteq> 0 \<longleftrightarrow> take 14 (component n1) = take 14 (component n2)"
  unfolding namecomp_def by (rule namecomp_loop_iff) simp

text \<open>
  \<open>filename\<close> of a terminated path is the part after its last slash: the path is what
  comes before it, which is empty or ends in a slash, followed by the result, in which no slash
  comes before the terminator.
\<close>

theorem filename_last:
  assumes "0 \<in> set path"
  shows "\<exists>pre. path = pre @ filename path \<and> (pre = [] \<or> last pre = 47) \<and> 0 \<notin> set pre \<and>
    47 \<notin> set (takeWhile (\<lambda>c. c \<noteq> 0) (filename path))"
proof -
  let ?l = "length (takeWhile (\<lambda>c. c \<noteq> 0) path)"
  have l: "?l < length path" "path ! ?l = 0"
  proof -
    have "length path > ?l"
      using assms by (induction path) auto
    then show "?l < length path" .
    then show "path ! ?l = 0" using nth_length_takeWhile[of "\<lambda>c. c \<noteq> 0" path] by simp
  qed
  have nz: "path ! j \<noteq> 0" if "j < ?l" for j
    using takeWhile_before[OF that] .
  define k where "k = filename_back path ?l"
  note b = filename_back_spec[of path ?l k, OF k_def[symmetric]]
  have k: "k \<le> ?l"
  proof (rule ccontr)
    assume "\<not> k \<le> ?l"
    then have "k = Suc ?l" using b by simp
    then show False using b l by (simp add: char_at_def)
  qed
  have f: "filename path = drop k path" by (simp add: filename_def k_def)
  have "path = take k path @ filename path" by (simp add: f)
  moreover have "take k path = [] \<or> last (take k path) = 47"
  proof (cases "k = 0")
    case False
    then have "last (take k path) = path ! (k - 1)" using k l by (subst last_conv_nth) auto
    then show ?thesis using b k l False by (auto simp: char_at_def split: if_splits)
  qed simp
  moreover have "0 \<notin> set (take k path)"
    using nz k l by (auto simp: in_set_conv_nth)
  moreover have "47 \<notin> set (takeWhile (\<lambda>c. c \<noteq> 0) (filename path))"
  proof
    assume "47 \<in> set (takeWhile (\<lambda>c. c \<noteq> 0) (filename path))"
    then obtain j where j: "j < length (takeWhile (\<lambda>c. c \<noteq> 0) (drop k path))"
      "takeWhile (\<lambda>c. c \<noteq> 0) (drop k path) ! j = 47"
      by (auto simp: in_set_conv_nth f)
    have "k + j < ?l"
    proof (rule ccontr)
      assume "\<not> k + j < ?l"
      then have "?l - k \<le> j" by simp
      then have "?l - k < length (takeWhile (\<lambda>c. c \<noteq> 0) (drop k path))" using j by simp
      then have "drop k path ! (?l - k) \<noteq> 0" by (rule takeWhile_before)
      then show False using l k by simp
    qed
    moreover have "drop k path ! j = 47" using j by (simp add: takeWhile_nth)
    then have "path ! (k + j) = 47" using \<open>k + j < ?l\<close> l by simp
    ultimately show False using b l by (auto simp: char_at_def)
  qed
  ultimately show ?thesis by blast
qed

theorem filename_last_witness:
  "\<exists>pre. [47, 97, 47, 98, 0] = pre @ filename [47, 97, 47, 98, 0] \<and> (pre = [] \<or> last pre = 47) \<and> 0 \<notin> set pre \<and>
    47 \<notin> set (takeWhile (\<lambda>c. c \<noteq> 0) (filename [47, 97, 47, 98, 0]))"
  by (rule filename_last) simp

text \<open>Each round of the path walk consumes something.\<close>

lemma skip_slashes_length: "length (skip_slashes p) \<le> length p"
  by (simp add: skip_slashes_def length_dropWhile_le)

lemma skip_component_length:
  "deref p \<noteq> 0 \<Longrightarrow> deref p \<noteq> 47 \<Longrightarrow> length (skip_component p) < length p"
  by (cases p) (simp_all add: skip_component_def length_dropWhile_le le_imp_less_Suc)

lemma skip_slashes_deref: "deref (skip_slashes p) \<noteq> 47"
  unfolding skip_slashes_def by (induction p) auto

end
