(* ===== verification/Directory.thy ===== *)
theory Directory
  imports File_IO Names
begin

text \<open>
  Directories and path names (\<open>fs/filesys.c\<close>: \<open>srch_mt\<close>, \<open>srch_dir\<close>, \<open>n_open\<close>, \<open>ch_link\<close>,
  \<open>newfile\<close>, \<open>fmount\<close>). A path or name is the list of bytes at its address when the call is
  made. The directory entry \<open>ch_link\<close> reads and writes is in memory at \<open>at_curentry\<close>.
\<close>

section \<open>Searching\<close>

definition srch_mt :: "nat \<Rightarrow> nat option k" where
  "srch_mt ino =
     bindK (getK (\<lambda>s. find (\<lambda>j. s_mounted (fs_tab s ! j) = SMOUNTED \<and> s_mntpt (fs_tab s ! j) = ino_ptr s ino)
       [0..<NDEVS])) (\<lambda>r. case r of
         Some j \<Rightarrow> thenK (i_deref ino) (i_open (int j) ROOTINODE)
       | None \<Rightarrow> retK (Some ino))"

text \<open>The first of the 32 entries of a directory block with the name, and its inode number.\<close>

definition srch_block :: "cstr \<Rightarrow> bytes \<Rightarrow> u16 option" where
  "srch_block compname buf = map_option (\<lambda>e. d_ino (get_direct buf (16 * e)))
     (find (\<lambda>e. namecomp compname (d_name (get_direct buf (16 * e))) \<noteq> 0) [0..<32])"

primrec srch_blocks :: "nat \<Rightarrow> cstr \<Rightarrow> u16 list \<Rightarrow> nat option k" where
  "srch_blocks wd compname [] = retK None"
| "srch_blocks wd compname (curblock # blks) =
     bindK (get_ino wd) (\<lambda>c.
     bindK (bmap wd curblock 1) (\<lambda>pblk.
     bindK (read_buf (c_dev c) pblk (srch_block compname)) (\<lambda>r. case r of
       Some inum \<Rightarrow> i_open (c_dev c) inum
     | None \<Rightarrow> srch_blocks wd compname blks)))"

definition dir_blocks :: "cinode \<Rightarrow> u16 list" where
  "dir_blocks c = (let size = i_size (c_node c) in
     map of_nat [0..<unat (if o_offset size \<noteq> 0 then o_blkno size + 1 else o_blkno size)])"

definition srch_dir :: "nat \<Rightarrow> cstr \<Rightarrow> nat option k" where
  "srch_dir wd compname = bindK (get_ino wd) (\<lambda>c. srch_blocks wd compname (dir_blocks c))"

section \<open>n_open\<close>

text \<open>
  The result is the inode and the parent; the parent matters only to callers that ask for it
  (\<open>want\<close>).
\<close>

definition n_open_end :: "bool \<Rightarrow> nat \<Rightarrow> nat option \<Rightarrow> (nat option \<times> nat option) k" where
  "n_open_end want wd ninode = thenK (doK [
       if want then retK () else i_deref wd,
       whenK (\<not> want \<and> ninode = None) (set_error ENOENT)])
     (retK (ninode, if want then Some wd else None))"

definition n_open_nodir :: "nat \<Rightarrow> (nat option \<times> nat option) k" where
  "n_open_nodir wd = thenK (i_deref wd) (retK (None, None))"

text \<open>Going up through a mount point; only the second character of the name is looked at.\<close>

definition go_up :: "nat \<Rightarrow> cstr \<Rightarrow> nat k" where
  "go_up wd name = bindK (get_ino wd) (\<lambda>c.
     bindK (getK ROOTDEV) (\<lambda>rootdev.
     if c_num c = ROOTINODE \<and> c_dev c \<noteq> rootdev \<and> char_at name 1 = 46 then
       bindK (getK (\<lambda>s. ino_of_ptr s (s_mntpt (fs_tab s ! nat (c_dev c))))) (\<lambda>r.
       bindK (derefK r) (\<lambda>temp. thenK (doK [
         upd_ino temp (\<lambda>c. c\<lparr>c_refs := c_refs c + 1\<rparr>), i_deref wd]) (retK temp)))
     else retK wd))"

text \<open>Each round but the last takes at least one character off the name.\<close>

primrec n_open_loop :: "nat \<Rightarrow> bool \<Rightarrow> cstr \<Rightarrow> nat \<Rightarrow> nat option \<Rightarrow> (nat option \<times> nat option) k" where
  "n_open_loop 0 want name wd ninode = haltK Diverges"
| "n_open_loop (Suc fuel) want name0 wd ninode0 =
     bindK (case ninode0 of None \<Rightarrow> retK None | Some n \<Rightarrow> thenK (magic n) (srch_mt n)) (\<lambda>ninode.
     let name = skip_slashes name0 in
     if deref name = 0 then n_open_end want wd ninode
     else case ninode of
       None \<Rightarrow> thenK (set_error ENOENT) (n_open_nodir wd)
     | Some n \<Rightarrow>
         thenK (i_deref wd)
         (bindK (get_ino n) (\<lambda>c.
          if getmode c \<noteq> F_DIR then thenK (set_error ENOTDIR) (n_open_nodir n)
          else bindK (getK (getperm c)) (\<lambda>perm.
          if perm AND OTH_EX = 0 then thenK (set_error EPERM) (n_open_nodir n)
          else bindK (go_up n name) (\<lambda>wd'.
            bindK (srch_dir wd' name) (\<lambda>ninode'.
              n_open_loop fuel want (skip_component name) wd' ninode'))))))"

definition n_open :: "cstr \<Rightarrow> bool \<Rightarrow> (nat option \<times> nat option) k" where
  "n_open name want =
     bindK (getK (\<lambda>s. if deref name = 47 then root s else u_cwd (udata s))) (\<lambda>r.
     bindK (derefK r) (\<lambda>wd.
     thenK (doK [i_ref wd, i_ref wd]) (n_open_loop (Suc (length name)) want name wd (Some wd))))"

text \<open>\<open>n_open\<close> for the callers that pass no place for the parent.\<close>

definition n_open1 :: "cstr \<Rightarrow> nat option k" where
  "n_open1 name = bindK (n_open name False) (\<lambda>(ino, _). retK ino)"

section \<open>Entries\<close>

definition curentry_name :: "kst \<Rightarrow> cstr" where
  "curentry_name s = map (\<lambda>k. mem s (at_curentry (lnk s) + 2 + of_nat k)) [0..<14]"

text \<open>Reads entries until the name is found or nothing is left.\<close>

primrec ch_link_find :: "nat \<Rightarrow> nat \<Rightarrow> cstr \<Rightarrow> unit k" where
  "ch_link_find 0 wd oldname = haltK Diverges"
| "ch_link_find (Suc fuel) wd oldname = thenK (doK [
     (\<lambda>s. upd_ud (\<lambda>u. u\<lparr>u_count := 16, u_base := at_curentry (lnk s)\<rparr>) s),
     readi [] wd])
     (bindK (getK (\<lambda>s. u_count (udata s) = 0 \<or> namecomp oldname (curentry_name s) \<noteq> 0)) (\<lambda>stop.
      if stop then retK () else ch_link_find fuel wd oldname))"

definition set_curentry :: "u16 \<Rightarrow> cstr \<Rightarrow> unit k" where
  "set_curentry inum newname = modK (\<lambda>s. s\<lparr>mem := (\<lambda>a.
     let k = unat (a - at_curentry (lnk s)) in
     if k = 0 then lo8 inum else if k = 1 then hi8 inum
     else if k < 16 then char_at newname (k - 2) else mem s a)\<rparr>)"

text \<open>The position one entry back.\<close>

definition back_16 :: "uzi_off \<Rightarrow> uzi_off" where
  "back_16 off = (let off1 = (if o_offset off = 0 then \<lparr>o_blkno = o_blkno off - 1, o_offset = 512\<rparr> else off)
     in off1\<lparr>o_offset := o_offset off1 - 16\<rparr>)"

text \<open>The entry put together and written, over the one just read if there is one.\<close>

definition put_curentry :: "nat \<Rightarrow> cstr \<Rightarrow> nat option \<Rightarrow> unit k" where
  "put_curentry wd newname nindex = doK [
     bindK (case nindex of None \<Rightarrow> retK 0 | Some n \<Rightarrow> bindK (get_ino n) (\<lambda>c. retK (c_num c)))
       (\<lambda>inum. set_curentry inum newname),
     bindK (getK (\<lambda>s. u_count (udata s))) (\<lambda>count.
       whenK (count \<noteq> 0) (upd_ud (\<lambda>u. u\<lparr>u_offset := back_16 (u_offset u)\<rparr>))),
     (\<lambda>s. upd_ud (\<lambda>u. u\<lparr>u_count := 16, u_base := at_curentry (lnk s)\<rparr>) s),
     writei [] wd]"

text \<open>The times of the directory, and its length made whole blocks.\<close>

definition touch_dir :: "nat \<Rightarrow> unit k" where
  "touch_dir wd = doK [
     setftime wd (A_TIME OR M_TIME OR C_TIME),
     upd_node wd (\<lambda>n. if o_offset (i_size n) \<noteq> 0
       then n\<lparr>i_size := \<lparr>o_blkno = o_blkno (i_size n) + 1, o_offset = 0\<rparr>\<rparr> else n)]"

definition ch_link :: "nat \<Rightarrow> cstr \<Rightarrow> cstr \<Rightarrow> nat option \<Rightarrow> bool k" where
  "ch_link wd oldname newname nindex =
     bindK (get_ino wd) (\<lambda>c. bindK (getK (getperm c)) (\<lambda>perm.
     if perm AND OTH_WR = 0 then thenK (set_error EPERM) (retK False)
     else thenK (doK [
         upd_ud (\<lambda>u. u\<lparr>u_offset := \<lparr>o_blkno = 0, o_offset = 0\<rparr>\<rparr>),
         ch_link_find (Suc (65536 * 32)) wd oldname])
       (bindK (getK (\<lambda>s. u_count (udata s))) (\<lambda>count.
        if count = 0 \<and> deref oldname \<noteq> 0 then retK False
        else thenK (put_curentry wd newname nindex)
          (bindK (getK (\<lambda>s. u_error (udata s))) (\<lambda>err.
           if err \<noteq> 0 then retK False
           else thenK (touch_dir wd) (retK True)))))))"

definition newfile :: "nat \<Rightarrow> cstr \<Rightarrow> nat option k" where
  "newfile pino name =
     bindK (get_ino pino) (\<lambda>p.
     bindK (i_open (c_dev p) 0) (\<lambda>r. case r of
       None \<Rightarrow> thenK (i_deref pino) (retK None)
     | Some n \<Rightarrow>
         thenK (doK [
           upd_node n (\<lambda>d. d\<lparr>i_mode := F_REG, i_nlink := 1, i_size := \<lparr>o_blkno = 0, o_offset = 0\<rparr>,
             i_addr := replicate 20 0\<rparr>),
           wr_inode n])
         (bindK (getK (\<lambda>s. empty_str (lnk s))) (\<lambda>empty.
          bindK (ch_link pino empty (filename name) (Some n)) (\<lambda>ok.
          if ok then thenK (i_deref pino) (retK (Some n))
          else thenK (doK [i_deref n, i_deref pino]) (retK None))))))"

section \<open>Mounting\<close>

definition fmount :: "int \<Rightarrow> nat option \<Rightarrow> int k" where
  "fmount dev ino =
     bindK (d_open dev) (\<lambda>r.
     if r \<noteq> 0 then panic ''fmount: Cant open filesystem''
     else bindK (read_buf dev 1 get_filesys) (\<lambda>fp.
       thenK (upd_fs (nat dev) (\<lambda>_. fp))
       (if s_mounted fp \<noteq> SMOUNTED \<or> s_isize fp \<ge> s_fsize fp then retK (- 1)
        else thenK (doK [
            (\<lambda>s. upd_fs (nat dev) (\<lambda>f. f\<lparr>s_mntpt := (case ino of None \<Rightarrow> 0 | Some i \<Rightarrow> ino_ptr s i)\<rparr>) s),
            (case ino of None \<Rightarrow> retK () | Some i \<Rightarrow> upd_ino i (\<lambda>c. c\<lparr>c_refs := c_refs c + 1\<rparr>))])
          (retK 0))))"

end
