(* ===== verification/File_Calls.thy ===== *)
theory File_Calls
  imports Directory
begin

text \<open>
  The system calls on files (\<open>kernel/scall1.c\<close>, \<open>kernel/scall1b.c\<close>) and \<open>valadr\<close> of
  \<open>kernel/machdep.c\<close>. A call \<open>_open\<close> of the source is \<open>sys_open\<close>; its arguments are what
  \<open>dispatch\<close> passes: user addresses and mode words as 16-bit words, descriptors, devices and
  flags as the signed integers they are declared as. The result is the value returned.
\<close>

section \<open>User memory and descriptors\<close>

definition ustr :: "kst \<Rightarrow> u16 \<Rightarrow> cstr" where
  "ustr s a = map (\<lambda>k. mem s (a + of_nat k)) [0..<65536]"

definition valadr :: "u16 \<Rightarrow> u16 \<Rightarrow> bool k" where
  "valadr base sz = bindK (getK (\<lambda>s. base < PROGBASE \<or> base + sz \<ge> at_udata (lnk s))) (\<lambda>bad.
     if bad then thenK (set_error EFAULT) (retK False) else retK True)"

definition put_mem :: "u16 \<Rightarrow> u16 list \<Rightarrow> unit k" where
  "put_mem a ws = modK (\<lambda>s. s\<lparr>mem := (\<lambda>b. let k = unat (b - a) in
     if k < 2 * length ws then words_byte ws k else mem s b)\<rparr>)"

definition set_ufile :: "int \<Rightarrow> byte \<Rightarrow> unit k" where
  "set_ufile d v = upd_ud (\<lambda>u. u\<lparr>u_files := (u_files u)[nat d := v]\<rparr>)"

definition fail :: "int k" where
  "fail = retK (- 1)"

section \<open>open, close, creat, pipe\<close>

definition cantopen :: "int \<Rightarrow> int \<Rightarrow> int k" where
  "cantopen oftindex uindex = thenK (doK [oft_deref (nat oftindex), set_ufile uindex (- 1)]) fail"

definition sys_open :: "u16 \<Rightarrow> int \<Rightarrow> int k" where
  "sys_open name flag =
     (if flag < 0 \<or> flag > 2 then thenK (set_error EINVAL) fail
      else bindK uf_alloc (\<lambda>uindex.
        if uindex = - 1 then fail
        else bindK oft_alloc (\<lambda>oftindex.
          if oftindex = - 1 then thenK (set_ufile uindex (- 1)) fail
          else bindK (getK (\<lambda>s. ustr s name)) (\<lambda>path. bindK (n_open1 path) (\<lambda>r. case r of
            None \<Rightarrow> cantopen oftindex uindex
          | Some ino \<Rightarrow>
              thenK (upd_oft (nat oftindex) (\<lambda>f. f\<lparr>o_inode := Some ino\<rparr>))
              (bindK (get_ino ino) (\<lambda>c. bindK (getK (getperm c)) (\<lambda>perm.
               if (flag = O_RDONLY \<or> flag = O_RDWR) \<and> perm AND OTH_RD = 0 \<or>
                  (flag = O_WRONLY \<or> flag = O_RDWR) \<and> perm AND OTH_WR = 0
               then thenK (set_error EPERM) (cantopen oftindex uindex)
               else if getmode c = F_DIR \<and> (flag = O_WRONLY \<or> flag = O_RDWR)
               then thenK (set_error EISDIR) (cantopen oftindex uindex)
               else bindK (if isdevice c then d_open (devnum c) else retK 0) (\<lambda>bad.
                 if bad \<noteq> 0 then thenK (set_error ENXIO) (cantopen oftindex uindex)
                 else thenK (doK [
                     set_ufile uindex (word_of_int oftindex),
                     upd_oft (nat oftindex) (\<lambda>f. f\<lparr>o_ptr := \<lparr>o_blkno = 0, o_offset = 0\<rparr>,
                       o_access := flag\<rparr>)])
                   (retK uindex))))))))))"

definition doclose :: "int \<Rightarrow> int k" where
  "doclose uindex = bindK (getinode uindex) (\<lambda>r. case r of
     None \<Rightarrow> fail
   | Some ino \<Rightarrow>
       bindK (getK (\<lambda>s. unat (u_files (udata s) ! nat uindex))) (\<lambda>oftindex.
       bindK (get_ino ino) (\<lambda>c.
       thenK (doK [
         whenK (isdevice c) (d_close (devnum c)),
         set_ufile uindex (- 1),
         oft_deref oftindex]) (retK 0))))"

definition sys_close :: "int \<Rightarrow> int k" where
  "sys_close uindex = doclose uindex"

definition creat_done :: "int \<Rightarrow> int \<Rightarrow> nat \<Rightarrow> int k" where
  "creat_done uindex oftindex ino = thenK (doK [
     set_ufile uindex (word_of_int oftindex),
     upd_oft (nat oftindex) (\<lambda>f. f\<lparr>o_ptr := \<lparr>o_blkno = 0, o_offset = 0\<rparr>, o_inode := Some ino,
       o_access := O_WRONLY\<rparr>)]) (retK uindex)"

definition creat_nogood :: "int \<Rightarrow> int k" where
  "creat_nogood oftindex = thenK (oft_deref (nat oftindex)) fail"

text \<open>
  When \<open>newfile\<close> fails it has already dereferenced the parent, which is then dereferenced
  again.
\<close>

definition sys_creat :: "u16 \<Rightarrow> u16 \<Rightarrow> int k" where
  "sys_creat name mode =
     bindK uf_alloc (\<lambda>uindex. if uindex = - 1 then fail
     else bindK oft_alloc (\<lambda>oftindex. if oftindex = - 1 then fail
     else bindK (getK (\<lambda>s. ustr s name)) (\<lambda>path. bindK (n_open path True) (\<lambda>(r, parent).
       case r of
         Some ino \<Rightarrow>
           thenK (bindK (derefK parent) i_deref)
           (bindK (get_ino ino) (\<lambda>c. bindK (getK (getperm c)) (\<lambda>perm.
            if getmode c = F_DIR
            then thenK (doK [i_deref ino, set_error EISDIR]) (creat_nogood oftindex)
            else if perm AND OTH_WR = 0
            then thenK (doK [i_deref ino, set_error EACCES]) (creat_nogood oftindex)
            else thenK (whenK (getmode c = F_REG) (doK [
                f_trunc ino,
                forK [0..<OFTSIZE] (\<lambda>j. upd_oft j (\<lambda>f.
                  if o_inode f = Some ino then f\<lparr>o_ptr := \<lparr>o_blkno = 0, o_offset = 0\<rparr>\<rparr> else f))]))
              (creat_done uindex oftindex ino))))
       | None \<Rightarrow> (case parent of
           None \<Rightarrow> creat_nogood oftindex
         | Some p \<Rightarrow> bindK (newfile p path) (\<lambda>r. case r of
             None \<Rightarrow> thenK (i_deref p) (creat_nogood oftindex)
           | Some ino \<Rightarrow> thenK (doK [
               (\<lambda>s. upd_node ino (\<lambda>n. n\<lparr>i_mode := F_REG OR (mode AND MODE_MASK AND NOT (u_mask (udata s)))\<rparr>) s),
               setftime ino (A_TIME OR M_TIME OR C_TIME),
               wr_inode ino]) (creat_done uindex oftindex ino)))))))"

definition pipe_end :: "int \<Rightarrow> nat \<Rightarrow> int \<Rightarrow> unit k" where
  "pipe_end oftindex ino acc = upd_oft (nat oftindex)
     (\<lambda>f. f\<lparr>o_ptr := \<lparr>o_blkno = 0, o_offset = 0\<rparr>, o_inode := Some ino, o_access := acc\<rparr>)"

definition sys_pipe :: "u16 \<Rightarrow> int k" where
  "sys_pipe fildes =
     bindK uf_alloc (\<lambda>u1. if u1 = - 1 then fail
     else bindK oft_alloc (\<lambda>oft1. if oft1 = - 1 then fail
     else thenK (set_ufile u1 (word_of_int oft1))
     (bindK uf_alloc (\<lambda>u2. if u2 = - 1 then thenK (set_ufile u1 (- 1)) fail
     else bindK oft_alloc (\<lambda>oft2.
       if oft2 = - 1 then thenK (doK [oft_deref (nat oft1), set_ufile u1 (- 1)]) fail
       else bindK (getK ROOTDEV) (\<lambda>rootdev. bindK (i_open rootdev 0) (\<lambda>r. case r of
         None \<Rightarrow> thenK (doK [oft_deref (nat oft1), oft_deref (nat oft2), set_ufile u1 (- 1)]) fail
       | Some ino \<Rightarrow> thenK (doK [
           set_ufile u2 (word_of_int oft2),
           pipe_end oft1 ino O_RDONLY,
           pipe_end oft2 ino O_WRONLY,
           upd_ino ino (\<lambda>c. c\<lparr>c_refs := c_refs c + 1\<rparr>),
           upd_node ino (\<lambda>n. n\<lparr>i_mode := F_PIPE OR 0x1FF, i_nlink := 0\<rparr>),
           put_mem fildes [word_of_int u1, word_of_int u2]]) (retK 0))))))))"

section \<open>link, unlink\<close>

definition sys_link :: "u16 \<Rightarrow> u16 \<Rightarrow> int k" where
  "sys_link name1 name2 =
     bindK (getK (\<lambda>s. (ustr s name1, ustr s name2))) (\<lambda>(path1, path2).
     bindK (n_open1 path1) (\<lambda>r. case r of
       None \<Rightarrow> fail
     | Some ino \<Rightarrow>
         let nogood = thenK (i_deref ino) fail in
         bindK (get_ino ino) (\<lambda>c. bindK (getK super) (\<lambda>su.
         if getmode c = F_DIR \<and> \<not> su then thenK (set_error EPERM) nogood
         else bindK (n_open path2 True) (\<lambda>(r2, parent2). case r2 of
             Some ino2 \<Rightarrow> thenK (doK [i_deref ino2, bindK (derefK parent2) i_deref, set_error EEXIST]) nogood
           | None \<Rightarrow> (case parent2 of
               None \<Rightarrow> nogood
             | Some p \<Rightarrow> bindK (get_ino p) (\<lambda>pc. bindK (get_ino ino) (\<lambda>c.
                 if c_dev c \<noteq> c_dev pc then thenK (doK [i_deref p, set_error EXDEV]) nogood
                 else bindK (getK (\<lambda>s. empty_str (lnk s))) (\<lambda>empty.
                   bindK (ch_link p empty (filename path2) (Some ino)) (\<lambda>ok.
                   if \<not> ok then nogood
                   else thenK (doK [
                     upd_node ino (\<lambda>n. n\<lparr>i_nlink := i_nlink n + 1\<rparr>),
                     wr_inode ino,
                     setftime ino C_TIME,
                     i_deref p,
                     i_deref ino]) (retK 0)))))))))))"

definition sys_unlink :: "u16 \<Rightarrow> int k" where
  "sys_unlink path =
     bindK (getK (\<lambda>s. ustr s path)) (\<lambda>name.
     bindK (n_open name True) (\<lambda>(r, parent).
     case (parent, r) of
       (Some pino, Some ino) \<Rightarrow>
         let nogood = thenK (doK [i_deref pino, i_deref ino]) fail in
         bindK (get_ino ino) (\<lambda>c. bindK (getK super) (\<lambda>su.
         if getmode c = F_DIR \<and> \<not> su then thenK (set_error EPERM) nogood
         else bindK (getK (\<lambda>s. empty_str (lnk s))) (\<lambda>empty.
           bindK (ch_link pino (filename name) empty None) (\<lambda>ok.
           if \<not> ok then nogood
           else thenK (doK [
             bindK (get_ino ino) (\<lambda>c.
               if i_nlink (c_node c) \<noteq> 0 then upd_node ino (\<lambda>n. n\<lparr>i_nlink := i_nlink n - 1\<rparr>)
               else doK [upd_node ino (\<lambda>n. n\<lparr>i_nlink := i_nlink n - 1 + 2\<rparr>), warning ''_unlink: bad nlink'']),
             setftime ino C_TIME,
             i_deref pino,
             i_deref ino]) (retK 0)))))
     | _ \<Rightarrow> thenK (set_error ENOENT) fail))"

section \<open>read, write, seek\<close>

definition sys_read :: "(kst \<Rightarrow> kst) list \<Rightarrow> int \<Rightarrow> u16 \<Rightarrow> u16 \<Rightarrow> int k" where
  "sys_read env d buf nbytes = bindK (rwsetup d buf nbytes True) (\<lambda>r. case r of
     None \<Rightarrow> fail
   | Some ino \<Rightarrow> thenK (doK [readi env ino, updoff d]) (getK (\<lambda>s. sint (u_count (udata s)))))"

definition sys_write :: "(kst \<Rightarrow> kst) list \<Rightarrow> int \<Rightarrow> u16 \<Rightarrow> u16 \<Rightarrow> int k" where
  "sys_write env d buf nbytes = bindK (rwsetup d buf nbytes False) (\<lambda>r. case r of
     None \<Rightarrow> fail
   | Some ino \<Rightarrow> thenK (doK [writei env ino, updoff d]) (getK (\<lambda>s. sint (u_count (udata s)))))"

text \<open>The loop that brings the offset below 512; 127 rounds are enough for 16 bits.\<close>

primrec norm_off :: "nat \<Rightarrow> uzi_off \<Rightarrow> uzi_off" where
  "norm_off 0 p = p"
| "norm_off (Suc n) p = (if o_offset p \<ge> 512
     then norm_off n (p\<lparr>o_offset := o_offset p - 512, o_blkno := o_blkno p + 1\<rparr>) else p)"

definition seek_to :: "int \<Rightarrow> u16 \<Rightarrow> uzi_off \<Rightarrow> uzi_off \<Rightarrow> uzi_off option" where
  "seek_to flag offset sz p =
     (if flag = 0 then Some (p\<lparr>o_blkno := 0, o_offset := offset\<rparr>)
      else if flag = 1 then Some (p\<lparr>o_offset := o_offset p + offset\<rparr>)
      else if flag = 2 then Some (p\<lparr>o_blkno := o_blkno sz, o_offset := o_offset sz + offset\<rparr>)
      else if flag = 3 then Some (p\<lparr>o_blkno := offset\<rparr>)
      else if flag = 4 then Some (p\<lparr>o_blkno := o_blkno p + offset\<rparr>)
      else if flag = 5 then Some (p\<lparr>o_blkno := o_blkno sz + offset\<rparr>)
      else None)"

definition sys_seek :: "int \<Rightarrow> u16 \<Rightarrow> int \<Rightarrow> int k" where
  "sys_seek file offset flag = bindK (getinode file) (\<lambda>r. case r of
     None \<Rightarrow> fail
   | Some ino \<Rightarrow> bindK (get_ino ino) (\<lambda>c.
       if getmode c = F_PIPE then thenK (set_error ESPIPE) fail
       else bindK (getK (\<lambda>s. unat (u_files (udata s) ! nat file))) (\<lambda>oftno.
         bindK (get_oft oftno) (\<lambda>f.
         let retval = (if flag \<le> 2 then o_offset (o_ptr f) else o_blkno (o_ptr f)) in
         case seek_to flag offset (i_size (c_node c)) (o_ptr f) of
           None \<Rightarrow> thenK (set_error EINVAL) fail
         | Some p \<Rightarrow> thenK (upd_oft oftno (\<lambda>f. f\<lparr>o_ptr := norm_off 127 p\<rparr>)) (retK (sint retval))))))"

section \<open>chdir, mknod, access, chmod, chown\<close>

definition sys_chdir :: "u16 \<Rightarrow> int k" where
  "sys_chdir dir = bindK (getK (\<lambda>s. ustr s dir)) (\<lambda>path. bindK (n_open1 path) (\<lambda>r. case r of
     None \<Rightarrow> fail
   | Some newcwd \<Rightarrow> bindK (get_ino newcwd) (\<lambda>c.
       if getmode c \<noteq> F_DIR then thenK (doK [set_error ENOTDIR, i_deref newcwd]) fail
       else thenK (doK [
           bindK (getK (\<lambda>s. u_cwd (udata s))) (\<lambda>cwd. bindK (derefK cwd) i_deref),
           upd_ud (\<lambda>u. u\<lparr>u_cwd := Some newcwd\<rparr>)]) (retK 0))))"

definition sys_mknod :: "u16 \<Rightarrow> u16 \<Rightarrow> u16 \<Rightarrow> int k" where
  "sys_mknod name mode dev = thenK (set_error 0)
     (bindK (getK super) (\<lambda>su.
      if \<not> su then thenK (set_error EPERM) fail
      else bindK (getK (\<lambda>s. ustr s name)) (\<lambda>path. bindK (n_open path True) (\<lambda>(r, parent).
        case r of
          Some ino \<Rightarrow> thenK (doK [set_error EEXIST, i_deref ino, bindK (derefK parent) i_deref]) fail
        | None \<Rightarrow> (case parent of
            None \<Rightarrow> thenK (set_error ENOENT) fail
          | Some p \<Rightarrow> bindK (newfile p path) (\<lambda>r. case r of
              None \<Rightarrow> thenK (i_deref p) fail
            | Some ino \<Rightarrow> thenK (doK [
                (\<lambda>s. upd_node ino (\<lambda>n. n\<lparr>i_mode := mode AND NOT (u_mask (udata s))\<rparr>) s),
                bindK (get_ino ino) (\<lambda>c. upd_node ino (\<lambda>n. n\<lparr>i_addr := (i_addr n)[0 := if isdevice c then dev else 0]\<rparr>)),
                setftime ino (A_TIME OR M_TIME OR C_TIME),
                wr_inode ino,
                i_deref ino]) (retK 0)))))))"

definition sys_access :: "u16 \<Rightarrow> u16 \<Rightarrow> int k" where
  "sys_access path mode = bindK (getK (\<lambda>s. ustr s path)) (\<lambda>name.
     if mode AND 7 \<noteq> 0 \<and> deref name = 0 then thenK (set_error ENOENT) fail
     else bindK (getK (\<lambda>s. (u_euid (udata s), u_egid (udata s)))) (\<lambda>(euid, egid).
       thenK (\<lambda>s. upd_ud (\<lambda>u. u\<lparr>u_euid := p_uid (ptab s ! u_ptab u), u_egid := u_gid u\<rparr>) s)
       (bindK (bindK (n_open1 name) (\<lambda>r. case r of
           None \<Rightarrow> retK (- 1)
         | Some ino \<Rightarrow> bindK (get_ino ino) (\<lambda>c. bindK (getK (getperm c)) (\<lambda>perm.
             let bad = NOT perm AND (mode AND 7) \<noteq> 0 in
             thenK (doK [whenK bad (set_error EPERM), i_deref ino]) (retK (if bad then - 1 else 0))))))
        (\<lambda>retval. thenK (upd_ud (\<lambda>u. u\<lparr>u_euid := euid, u_egid := egid\<rparr>)) (retK retval)))))"

definition owner_op :: "u16 \<Rightarrow> (nat \<Rightarrow> unit k) \<Rightarrow> int k" where
  "owner_op path f = bindK (getK (\<lambda>s. ustr s path)) (\<lambda>name. bindK (n_open1 name) (\<lambda>r. case r of
     None \<Rightarrow> fail
   | Some ino \<Rightarrow> bindK (get_ino ino) (\<lambda>c.
       bindK (getK (\<lambda>s. i_uid (c_node c) \<noteq> u_euid (udata s) \<and> \<not> super s)) (\<lambda>bad.
       if bad then thenK (doK [i_deref ino, set_error EPERM]) fail
       else thenK (doK [f ino, setftime ino C_TIME, i_deref ino]) (retK 0)))))"

definition sys_chmod :: "u16 \<Rightarrow> u16 \<Rightarrow> int k" where
  "sys_chmod path mode = owner_op path (\<lambda>ino.
     upd_node ino (\<lambda>n. n\<lparr>i_mode := (mode AND MODE_MASK) OR (i_mode n AND F_MASK)\<rparr>))"

definition sys_chown :: "u16 \<Rightarrow> u16 \<Rightarrow> u16 \<Rightarrow> int k" where
  "sys_chown path owner grp = owner_op path (\<lambda>ino. upd_node ino (\<lambda>n. n\<lparr>i_uid := owner, i_gid := grp\<rparr>))"

section \<open>stat, fstat, dup, dup2\<close>

definition stat_words :: "cinode \<Rightarrow> u16 list" where
  "stat_words c = (let n = c_node c in
     [word_of_int (c_dev c), c_num c, i_mode n, i_nlink n, i_uid n, i_gid n, i_addr n ! 0,
      o_blkno (i_size n), o_offset (i_size n), t_time (i_atime n), t_date (i_atime n),
      t_time (i_mtime n), t_date (i_mtime n), t_time (i_ctime n), t_date (i_ctime n)])"

definition stcpy :: "nat \<Rightarrow> u16 \<Rightarrow> unit k" where
  "stcpy ino buf = bindK (get_ino ino) (\<lambda>c. put_mem buf (stat_words c))"

definition sys_stat :: "u16 \<Rightarrow> u16 \<Rightarrow> int k" where
  "sys_stat path buf = bindK (valadr buf 30) (\<lambda>ok.
     if \<not> ok then fail
     else bindK (getK (\<lambda>s. ustr s path)) (\<lambda>name. bindK (n_open1 name) (\<lambda>r. case r of
       None \<Rightarrow> fail
     | Some ino \<Rightarrow> thenK (doK [stcpy ino buf, i_deref ino]) (retK 0))))"

definition sys_fstat :: "int \<Rightarrow> u16 \<Rightarrow> int k" where
  "sys_fstat fd buf = bindK (valadr buf 30) (\<lambda>ok.
     if \<not> ok then fail
     else bindK (getinode fd) (\<lambda>r. case r of
       None \<Rightarrow> fail
     | Some ino \<Rightarrow> thenK (stcpy ino buf) (retK 0)))"

text \<open>\<open>u_files[newd] = u_files[oldd]; ++of_tab[u_files[oldd]].o_refs\<close>.\<close>

definition share_oft :: "int \<Rightarrow> int \<Rightarrow> unit k" where
  "share_oft newd oldd = doK [
     (\<lambda>s. set_ufile newd (u_files (udata s) ! nat oldd) s),
     (\<lambda>s. upd_oft (unat (u_files (udata s) ! nat oldd)) (\<lambda>f. f\<lparr>o_refs := o_refs f + 1\<rparr>) s)]"

definition sys_dup :: "int \<Rightarrow> int k" where
  "sys_dup oldd = bindK (getinode oldd) (\<lambda>r. case r of
     None \<Rightarrow> fail
   | Some _ \<Rightarrow> bindK uf_alloc (\<lambda>newd.
       if newd = - 1 then fail else thenK (share_oft newd oldd) (retK newd)))"

definition sys_dup2 :: "int \<Rightarrow> int \<Rightarrow> int k" where
  "sys_dup2 oldd newd = bindK (getinode oldd) (\<lambda>r. case r of
     None \<Rightarrow> fail
   | Some _ \<Rightarrow>
       if newd < 0 \<or> newd \<ge> 10 then thenK (set_error EBADF) fail
       else bindK (getK (\<lambda>s. u_files (udata s) ! nat newd)) (\<lambda>fd.
         thenK (doK [
           whenK (fd AND 0x80 = 0) (bindK (doclose newd) (\<lambda>_. retK ())),
           share_oft newd oldd]) (retK 0)))"

section \<open>umask, getfsys, ioctl, mount, umount\<close>

definition sys_umask :: "u16 \<Rightarrow> int k" where
  "sys_umask msk = bindK (getK (\<lambda>s. sint (u_mask (udata s)))) (\<lambda>omask.
     thenK (upd_ud (\<lambda>u. u\<lparr>u_mask := msk AND 0x1FF\<rparr>)) (retK omask))"

definition sys_getfsys :: "int \<Rightarrow> u16 \<Rightarrow> int k" where
  "sys_getfsys dev buf = bindK (getK (\<lambda>s. fs_tab s ! nat dev)) (\<lambda>fs.
     if dev < 0 \<or> dev \<ge> 5 \<or> s_mounted fs \<noteq> SMOUNTED then thenK (set_error ENXIO) fail
     else thenK (put_mem buf (filesys_words fs)) (retK 0))"

definition sys_ioctl :: "int \<Rightarrow> int \<Rightarrow> u16 \<Rightarrow> int k" where
  "sys_ioctl fd request data = bindK (getinode fd) (\<lambda>r. case r of
     None \<Rightarrow> fail
   | Some ino \<Rightarrow> bindK (get_ino ino) (\<lambda>c. bindK (getK (getperm c)) (\<lambda>perm.
       if \<not> isdevice c then thenK (set_error ENOTTY) fail
       else if perm AND OTH_WR = 0 then thenK (set_error EPERM) fail
       else bindK (d_ioctl (devnum c) request data) (\<lambda>r. retK (if r \<noteq> 0 then - 1 else 0)))))"

definition sys_mount :: "u16 \<Rightarrow> u16 \<Rightarrow> int \<Rightarrow> int k" where
  "sys_mount spec dir rwflag = bindK (getK super) (\<lambda>su.
     if \<not> su then thenK (set_error EPERM) fail
     else bindK (getK (\<lambda>s. (ustr s spec, ustr s dir))) (\<lambda>(spath, dpath).
     bindK (n_open1 spath) (\<lambda>r. case r of
       None \<Rightarrow> fail
     | Some sino \<Rightarrow> bindK (n_open1 dpath) (\<lambda>r. case r of
         None \<Rightarrow> thenK (i_deref sino) fail
       | Some dino \<Rightarrow>
           let nogood = (\<lambda>e. thenK (doK [set_error e, i_deref dino, i_deref sino]) fail) in
           bindK (get_ino sino) (\<lambda>sc. bindK (get_ino dino) (\<lambda>dc.
           if getmode sc \<noteq> F_BDEV then nogood ENOTBLK
           else if getmode dc \<noteq> F_DIR then nogood ENOTDIR
           else let dev = devnum sc in
             bindK (if dev \<ge> 5 then retK 1 else d_open dev) (\<lambda>bad.
             if bad \<noteq> 0 then nogood ENXIO
             else bindK (getK (\<lambda>s. s_mounted (fs_tab s ! nat dev))) (\<lambda>m.
               if m \<noteq> 0 \<or> c_refs dc \<noteq> 1 \<or> c_num dc = ROOTINODE then nogood EBUSY
               else thenK (bindK sys_sync (\<lambda>_. retK ()))
                 (bindK (fmount dev (Some dino)) (\<lambda>bad.
                  if bad \<noteq> 0 then nogood EBUSY
                  else thenK (doK [i_deref dino, i_deref sino]) (retK 0)))))))))))"

definition sys_umount :: "u16 \<Rightarrow> int k" where
  "sys_umount spec = bindK (getK super) (\<lambda>su.
     if \<not> su then thenK (set_error EPERM) fail
     else bindK (getK (\<lambda>s. ustr s spec)) (\<lambda>path. bindK (n_open1 path) (\<lambda>r. case r of
       None \<Rightarrow> fail
     | Some sino \<Rightarrow>
         let nogood = (\<lambda>e. thenK (doK [set_error e, i_deref sino]) fail) in
         bindK (get_ino sino) (\<lambda>sc.
         if getmode sc \<noteq> F_BDEV then nogood ENOTBLK
         else let dev = devnum sc in
           if \<not> validdev dev then nogood ENXIO
           else if dev < 0 \<or> dev \<ge> 5 then haltK BadAccess
           else bindK (getK (\<lambda>s. s_mounted (fs_tab s ! nat dev))) (\<lambda>m.
             if m = 0 then nogood EINVAL
             else bindK (getK (\<lambda>s. \<exists>c\<in>set (i_tab s). c_refs c > 0 \<and> c_dev c = dev)) (\<lambda>busy.
               if busy then nogood EBUSY
               else thenK (doK [
                 bindK sys_sync (\<lambda>_. retK ()),
                 upd_fs (nat dev) (\<lambda>f. f\<lparr>s_mounted := 0\<rparr>),
                 bindK (getK (\<lambda>s. ino_of_ptr s (s_mntpt (fs_tab s ! nat dev)))) (\<lambda>r. bindK (derefK r) i_deref),
                 i_deref sino]) (retK 0)))))))"

end
