(* ===== verification/Process.thy ===== *)
theory Process
  imports File_Calls
begin

text \<open>
  Processes: swapping, exit, signals at the return from a call, fork (\<open>kernel/process.c\<close>), and
  the process system calls except \<open>execve\<close> (\<open>kernel/scall2.c\<close>). Leaving the processor - into
  another process or back into user code - is the outcome \<open>Switch\<close>. The stack pointers saved
  by the assembler routines of \<open>machdep.S\<close>, \<open>zpsave\<close> and \<open>u_retloc\<close> are not part of the state.
\<close>

section \<open>Swapping\<close>

text \<open>\<open>sizeof(struct u_data)\<close> is 120 on the target.\<close>

definition udata_end :: "kst \<Rightarrow> u16" where
  "udata_end s = at_udata (lnk s) + 120"

definition image_size :: "kst \<Rightarrow> u16" where
  "image_size s = (udata_end s - PROGBASE) AND NOT 511"

definition swrite :: "unit k" where
  "swrite = bindK (getK (\<lambda>s. p_swap (ptab s ! u_ptab (udata s)))) (\<lambda>blk. doK [
     bindK (getK udata_end) (\<lambda>e. bindK (swapwrite SWAPDEV blk 512 (e - 512)) (\<lambda>_. retK ())),
     bindK (getK image_size) (\<lambda>n. bindK (swapwrite SWAPDEV (blk + 1) n PROGBASE) (\<lambda>_. retK ()))])"

definition swapin :: "nat \<Rightarrow> unit k" where
  "swapin newp = bindK (getK (\<lambda>s. p_swap (ptab s ! newp))) (\<lambda>blk. doK [
     bindK (getK udata_end) (\<lambda>e. bindK (swapread SWAPDEV blk 512 (e - 512)) (\<lambda>_. retK ())),
     bindK (getK image_size) (\<lambda>n. bindK (swapread SWAPDEV (blk + 1) n PROGBASE) (\<lambda>_. retK ())),
     bindK (getK (\<lambda>s. u_ptab (udata s))) (\<lambda>me. if newp \<noteq> me then panic ''mangled swapin'' else retK ()),
     upd_proc newp (\<lambda>p. p\<lparr>p_status := P_RUNNING\<rparr>),
     modK (\<lambda>s. s\<lparr>runticks := 0\<rparr>),
     switchK])"

section \<open>Exit\<close>

text \<open>
  The bytes from \<open>p_wait\<close> on are overlaid by \<open>u_utime\<close> and \<open>u_stime\<close>.
\<close>

definition stash_times :: "u_data \<Rightarrow> p_tab \<Rightarrow> p_tab" where
  "stash_times u p = p\<lparr>p_wait := t_time (u_utime u), p_priority := t_date (u_utime u),
     p_pending := t_time (u_stime u), p_ignored := t_date (u_stime u)\<rparr>"

definition stashed_utime :: "p_tab \<Rightarrow> uzi_time" where
  "stashed_utime p = \<lparr>t_time = p_wait p, t_date = p_priority p\<rparr>"

definition stashed_stime :: "p_tab \<Rightarrow> uzi_time" where
  "stashed_stime p = \<lparr>t_time = p_pending p, t_date = p_ignored p\<rparr>"

definition reparent :: "nat \<Rightarrow> nat option \<Rightarrow> p_tab \<Rightarrow> p_tab" where
  "reparent me init p = (if p_status p \<noteq> P_EMPTY \<and> p_pptr p = Some me then p\<lparr>p_pptr := init\<rparr> else p)"

definition close_all :: "unit k" where
  "close_all = forK [0..<UFTSIZE] (\<lambda>j.
     bindK (getK (\<lambda>s. u_files (udata s) ! j)) (\<lambda>fd.
     whenK (fd AND 0x80 = 0) (bindK (doclose (int j)) (\<lambda>_. retK ()))))"

definition exit_status :: "u16 \<Rightarrow> u16 \<Rightarrow> u16" where
  "exit_status val val2 = push_bit 8 val OR (val2 AND 0xff)"

text \<open>\<open>doexit\<close> up to the choice of the next process.\<close>

definition doexit_cleanup :: "u16 \<Rightarrow> u16 \<Rightarrow> unit k" where
  "doexit_cleanup val val2 = doK [
     close_all,
     bindK (getK (\<lambda>s. (u_ptab (udata s), initproc s))) (\<lambda>(me, init). doK [
       upd_proc me (\<lambda>p. p\<lparr>p_exitval := exit_status val val2\<rparr>),
       forK [0..<PTABSIZE] (\<lambda>i. upd_proc i (reparent me init)),
       bindK (getK (\<lambda>s. u_cwd (udata s))) (\<lambda>cwd. bindK (derefK cwd) i_deref),
       upd_ud (\<lambda>u. u\<lparr>u_utime := addtick (u_utime u) (u_cutime u)\<rparr>),
       upd_ud (\<lambda>u. u\<lparr>u_stime := addtick (u_stime u) (u_cstime u)\<rparr>),
       bindK (getK udata) (\<lambda>u. upd_proc me (stash_times u)),
       whenK (Some me \<noteq> init)
         (bindK (getK (\<lambda>s. case p_pptr (ptab s ! me) of None \<Rightarrow> 0 | Some q \<Rightarrow> ptab_ptr s q)) wakeup),
       upd_proc me (\<lambda>p. p\<lparr>p_status := P_ZOMBIE\<rparr>)])]"

definition doexit :: "u16 \<Rightarrow> u16 \<Rightarrow> unit k" where
  "doexit val val2 = thenK (doexit_cleanup val val2) (thenK (bindK getproc swapin) (panic ''doexit:won't exit''))"

section \<open>Signals\<close>

text \<open>
  \<open>p_pending &= !sigmask(j)\<close> with the logical negation: everything pending is forgotten.
\<close>

definition chksig :: "nat \<Rightarrow> unit k" where
  "chksig j = bindK (getK (\<lambda>s. u_ptab (udata s))) (\<lambda>me.
     bindK (getK (\<lambda>s. p_pending (ptab s ! me))) (\<lambda>pend.
     whenK (sigmask j AND pend \<noteq> 0)
      (doK [
        bindK (getK (\<lambda>s. u_sigvec (udata s) ! j)) (\<lambda>vec. whenK (vec = SIG_DFL) (doexit 0 (of_nat j))),
        bindK (getK (\<lambda>s. u_sigvec (udata s) ! j)) (\<lambda>vec. whenK (vec \<noteq> SIG_IGN) (doK [
          upd_proc me (\<lambda>p. p\<lparr>p_pending := p_pending p AND (if sigmask j = 0 then 1 else 0)\<rparr>),
          upd_ud (\<lambda>u. u\<lparr>u_cursig := j\<rparr>)]))])))"

definition chksigs :: "unit k" where
  "chksigs = bindK (getK (\<lambda>s. p_pending (ptab s ! u_ptab (udata s)))) (\<lambda>pend.
     if pend = 0 then retK () else forK [1..<NSIGS] chksig)"

definition swapout :: "unit k" where
  "swapout = thenK chksigs (bindK getproc (\<lambda>newp.
     bindK (getK (\<lambda>s. u_ptab (udata s))) (\<lambda>me.
     if newp = me then doK [
       upd_proc me (\<lambda>p. p\<lparr>p_status := P_RUNNING\<rparr>),
       modK (\<lambda>s. s\<lparr>runticks := 0\<rparr>)]
     else doK [swrite, swapin newp, panic ''swapin failed''])))"

text \<open>
  \<open>calltrap\<close>: a caught signal is reset to the default and its handler, user code, is called.
\<close>

definition calltrap :: "(u16 \<Rightarrow> nat \<Rightarrow> unit k) \<Rightarrow> unit k" where
  "calltrap user = bindK (getK (\<lambda>s. u_cursig (udata s))) (\<lambda>cursig.
     whenK (cursig \<noteq> 0)
       (bindK (getK (\<lambda>s. u_sigvec (udata s) ! cursig)) (\<lambda>curvec. doK [
         upd_ud (\<lambda>u. u\<lparr>u_cursig := 0\<rparr>),
         upd_ud (\<lambda>u. u\<lparr>u_sigvec := (u_sigvec u)[cursig := SIG_DFL]\<rparr>),
         user curvec cursig])))"

section \<open>fork\<close>

text \<open>
  \<open>i_ref(udata.u_cwd)\<close> before there is a current directory: the reference count at offset 70
  of the null pointer is incremented.
\<close>

definition i_ref_ptr :: "nat option \<Rightarrow> unit k" where
  "i_ref_ptr p = (case p of
     Some ino \<Rightarrow> i_ref ino
   | None \<Rightarrow> thenK (modK (\<lambda>s. s\<lparr>mem := (mem s)(70 := mem s 70 + 1)\<rparr>))
       (bindK (getK (\<lambda>s. mem s 70)) (\<lambda>n. if n = 40 then panic ''too many i-refs'' else retK ())))"

text \<open>
  \<open>*j >= 0\<close> holds of every unsigned character, so also the entry of a closed descriptor is used
  as an index.
\<close>

definition newproc :: "nat \<Rightarrow> unit k" where
  "newproc p = bindK (getK (\<lambda>s. u_ptab (udata s))) (\<lambda>parent. doK [
     upd_proc p (\<lambda>e. e\<lparr>p_swap := of_nat (p * 65 + 1)\<rparr>),
     upd_proc p (\<lambda>e. e\<lparr>p_status := P_RUNNING\<rparr>),
     upd_proc p (\<lambda>e. e\<lparr>p_pptr := Some parent\<rparr>),
     (\<lambda>s. upd_proc p (\<lambda>e. e\<lparr>p_ignored := p_ignored (ptab s ! parent)\<rparr>) s),
     (\<lambda>s. upd_proc p (\<lambda>e. e\<lparr>p_uid := p_uid (ptab s ! parent)\<rparr>) s),
     upd_ud (\<lambda>u. u\<lparr>u_ptab := p, u_utime := zero_time, u_stime := zero_time, u_cutime := zero_time,
       u_cstime := zero_time\<rparr>),
     (\<lambda>s. upd_ud (\<lambda>u. u\<lparr>u_time := rdtime s\<rparr>) s),
     bindK (getK (\<lambda>s. u_cwd (udata s))) i_ref_ptr,
     upd_ud (\<lambda>u. u\<lparr>u_cursig := 0, u_error := 0\<rparr>),
     forK [0..<UFTSIZE] (\<lambda>j. bindK (getK (\<lambda>s. u_files (udata s) ! j)) (\<lambda>fd.
       upd_oft (unat fd) (\<lambda>f. f\<lparr>o_refs := o_refs f + 1\<rparr>)))])"

definition dofork :: "int k" where
  "dofork = bindK ptab_alloc (\<lambda>r. case r of
     None \<Rightarrow> thenK (set_error EAGAIN) (retK (- 1))
   | Some p \<Rightarrow> thenK (doK [
       (\<lambda>s. upd_proc (u_ptab (udata s)) (\<lambda>e. e\<lparr>p_status := P_READY\<rparr>) s),
       swrite,
       newproc p,
       modK (\<lambda>s. s\<lparr>runticks := 0\<rparr>),
       upd_proc p (\<lambda>e. e\<lparr>p_status := P_RUNNING\<rparr>)]) (retK 0))"

definition sys_fork :: "int k" where
  "sys_fork = dofork"

section \<open>Identity and time\<close>

definition me_proc :: "kst \<Rightarrow> p_tab" where
  "me_proc s = ptab s ! u_ptab (udata s)"

definition upd_me :: "(p_tab \<Rightarrow> p_tab) \<Rightarrow> unit k" where
  "upd_me f = (\<lambda>s. upd_proc (u_ptab (udata s)) f s)"

definition sys_getpid :: "int k" where
  "sys_getpid = getK (\<lambda>s. p_pid (me_proc s))"

definition sys_getppid :: "int k" where
  "sys_getppid = bindK (getK (\<lambda>s. p_pptr (me_proc s))) (\<lambda>r. bindK (derefK r) (\<lambda>q.
     getK (\<lambda>s. p_pid (ptab s ! q))))"

definition sys_getuid :: "int k" where
  "sys_getuid = getK (\<lambda>s. sint (p_uid (me_proc s)))"

definition sys_getgid :: "int k" where
  "sys_getgid = getK (\<lambda>s. sint (u_gid (udata s)))"

definition sys_setuid :: "u16 \<Rightarrow> int k" where
  "sys_setuid uid = bindK (getK (\<lambda>s. super s \<or> p_uid (me_proc s) = uid)) (\<lambda>may.
     if may then thenK (doK [upd_me (\<lambda>p. p\<lparr>p_uid := uid\<rparr>), upd_ud (\<lambda>u. u\<lparr>u_euid := uid\<rparr>)]) (retK 0)
     else thenK (set_error EPERM) fail)"

definition sys_setgid :: "u16 \<Rightarrow> int k" where
  "sys_setgid gid = bindK (getK (\<lambda>s. super s \<or> u_gid (udata s) = gid)) (\<lambda>may.
     if may then thenK (upd_ud (\<lambda>u. u\<lparr>u_gid := gid, u_egid := gid\<rparr>)) (retK 0)
     else thenK (set_error EPERM) fail)"

definition sys_time :: "u16 \<Rightarrow> int k" where
  "sys_time tvec = thenK (\<lambda>s. put_mem tvec [t_time (rdtime s), t_date (rdtime s)] s) (retK 0)"

definition sys_stime :: "u16 \<Rightarrow> int k" where
  "sys_stime tvec = thenK (set_error EPERM) fail"

definition times_words :: "kst \<Rightarrow> u16 list" where
  "times_words s = (let u = udata s in
     [t_time (u_utime u), t_date (u_utime u), t_time (u_stime u), t_date (u_stime u),
      t_time (u_cutime u), t_date (u_cutime u), t_time (u_cstime u), t_date (u_cstime u),
      t_time (ticks s), t_date (ticks s)])"

definition sys_times :: "u16 \<Rightarrow> int k" where
  "sys_times buf = bindK (valadr buf 24) (\<lambda>ok.
     if \<not> ok then fail else thenK (\<lambda>s. put_mem buf (times_words s) s) (retK 0))"

section \<open>Memory\<close>

definition sys_brk :: "u16 \<Rightarrow> int k" where
  "sys_brk addr = bindK (getK (\<lambda>s. addr < PROGBASE \<or> addr + 64 \<ge> at_stack (lnk s))) (\<lambda>bad.
     if bad then thenK (set_error ENOMEM) fail
     else thenK (upd_ud (\<lambda>u. u\<lparr>u_break := addr\<rparr>)) (retK 0))"

definition sys_sbrk :: "u16 \<Rightarrow> int k" where
  "sys_sbrk incr = bindK (getK (\<lambda>s. u_break (udata s))) (\<lambda>oldbrk.
     bindK (sys_brk (oldbrk + incr)) (\<lambda>r. if r \<noteq> 0 then fail else retK (sint oldbrk)))"

section \<open>wait, exit, pause\<close>

definition is_child :: "nat \<Rightarrow> nat \<Rightarrow> p_tab \<Rightarrow> bool" where
  "is_child me i p \<longleftrightarrow> p_status p \<noteq> P_EMPTY \<and> p_pptr p = Some me \<and> i \<noteq> me"

definition dead_child :: "nat \<Rightarrow> p_tab \<Rightarrow> bool" where
  "dead_child me p \<longleftrightarrow> p_status p = P_ZOMBIE \<and> p_pptr p = Some me"

text \<open>One round of the endless loop: the result, or \<open>None\<close> to sleep.\<close>

definition wait_round :: "u16 \<Rightarrow> int option k" where
  "wait_round statloc = thenK chksigs
     (bindK (getK (\<lambda>s. u_cursig (udata s))) (\<lambda>sig.
      if sig \<noteq> 0 then thenK (set_error EINTR) (retK (Some (- 1)))
      else bindK (getK (\<lambda>s. find (\<lambda>i. dead_child (u_ptab (udata s)) (ptab s ! i)) [0..<PTABSIZE])) (\<lambda>r.
        case r of
          None \<Rightarrow> retK None
        | Some i \<Rightarrow> bindK (getK (\<lambda>s. ptab s ! i)) (\<lambda>p. thenK (doK [
            whenK (statloc \<noteq> 0) (put_mem statloc [p_exitval p]),
            upd_proc i (\<lambda>p. p\<lparr>p_status := P_EMPTY\<rparr>),
            upd_ud (\<lambda>u. u\<lparr>u_cutime := addtick (u_cutime u) (stashed_utime p)\<rparr>),
            upd_ud (\<lambda>u. u\<lparr>u_cstime := addtick (u_cstime u) (stashed_stime p)\<rparr>)])
          (retK (Some (p_pid p)))))))"

text \<open>
  Without an \<open>env\<close> the sleep is followed into \<open>swapout\<close>, which does not return to a process that
  is asleep: nothing is left to do behind it.
\<close>

primrec wait_loop :: "(kst \<Rightarrow> kst) list \<Rightarrow> u16 \<Rightarrow> int k" where
  "wait_loop [] statloc = bindK (wait_round statloc) (\<lambda>r. case r of
     Some n \<Rightarrow> retK n
   | None \<Rightarrow> bindK (getK (\<lambda>s. ptab_ptr s (u_ptab (udata s)))) (\<lambda>ev. thenK (psleep swapout ev) (retK 0)))"
| "wait_loop (e # es) statloc = bindK (wait_round statloc) (\<lambda>r. case r of
     Some n \<Rightarrow> retK n
   | None \<Rightarrow> bindK (getK (\<lambda>s. ptab_ptr s (u_ptab (udata s)))) (\<lambda>ev.
       thenK (psleep (modK e) ev) (wait_loop es statloc)))"

definition sys_wait :: "(kst \<Rightarrow> kst) list \<Rightarrow> u16 \<Rightarrow> int k" where
  "sys_wait env statloc = bindK (getK (\<lambda>s. statloc > at_udata (lnk s))) (\<lambda>bad.
     if bad then thenK (set_error EFAULT) fail
     else bindK (getK (\<lambda>s. \<exists>i<PTABSIZE. is_child (u_ptab (udata s)) i (ptab s ! i))) (\<lambda>has.
       if \<not> has then thenK (set_error ECHILD) fail else wait_loop env statloc))"

definition sys_exit :: "u16 \<Rightarrow> int k" where
  "sys_exit val = thenK (doexit val 0) (retK 0)"

definition sys_pause :: "(kst \<Rightarrow> kst) list \<Rightarrow> int k" where
  "sys_pause env = thenK (case env of
       [] \<Rightarrow> psleep swapout 0
     | e # _ \<Rightarrow> psleep (modK e) 0)
     (thenK (set_error EINTR) fail)"

section \<open>signal, kill, alarm\<close>

definition sys_signal :: "int \<Rightarrow> u16 \<Rightarrow> int k" where
  "sys_signal sig func =
     (if sig < 1 \<or> sig = int SIGKILL \<or> sig \<ge> int NSIGS then thenK (set_error EINVAL) fail
      else let m = sigmask (nat sig) in
        bindK (if func = SIG_IGN then thenK (upd_me (\<lambda>p. p\<lparr>p_ignored := p_ignored p OR m\<rparr>)) (retK True)
               else bindK (getK (\<lambda>s. func \<noteq> SIG_DFL \<and> (func < PROGBASE \<or> func \<ge> at_udata (lnk s)))) (\<lambda>bad.
                 if bad then thenK (set_error EFAULT) (retK False)
                 else thenK (upd_me (\<lambda>p. p\<lparr>p_ignored := p_ignored p AND NOT m\<rparr>)) (retK True)))
          (\<lambda>good. if \<not> good then fail
           else bindK (getK (\<lambda>s. sint (u_sigvec (udata s) ! nat sig))) (\<lambda>retval.
             thenK (upd_ud (\<lambda>u. u\<lparr>u_sigvec := (u_sigvec u)[nat sig := func]\<rparr>)) (retK retval))))"

definition sys_kill :: "int \<Rightarrow> int \<Rightarrow> int k" where
  "sys_kill pid sig =
     (if sig \<le> 0 \<or> sig > 15 then thenK (set_error EINVAL) fail
      else bindK (getK (\<lambda>s. find (\<lambda>i. p_pid (ptab s ! i) = pid) [0..<PTABSIZE])) (\<lambda>r. case r of
          Some i \<Rightarrow> thenK (sendsig (Some i) (nat sig)) (retK 0)
        | None \<Rightarrow> thenK (set_error EINVAL) fail))"

definition sys_alarm :: "u16 \<Rightarrow> int k" where
  "sys_alarm secs = bindK (getK (\<lambda>s. sint (p_alarm (me_proc s)))) (\<lambda>retval.
     thenK (upd_me (\<lambda>p. p\<lparr>p_alarm := secs\<rparr>)) (retK retval))"

end
