(* ===== verification/Exec.thy ===== *)
theory Exec
  imports Process
begin

text \<open>
  \<open>execve\<close> (\<open>kernel/scall2.c\<close>: \<open>_execve\<close>, \<open>exec2\<close>, \<open>wargs\<close>, \<open>rargs\<close>), the entry of system calls
  (\<open>unix\<close> of \<open>kernel/process.c\<close>, \<open>__dispatch_call\<close> of \<open>kernel/dispatch.c\<close>) and the first process
  (\<open>init2\<close>). The jump into the new program is the outcome \<open>Switch\<close>.
\<close>

section \<open>Arguments\<close>

text \<open>
  The strings \<open>wargs\<close> takes from an array of pointers, each up to its terminator: those up to
  the NULL pointer, \<open>n\<close> of them at most. It stops after 500 bytes, and every string has at
  least a terminator to copy, so it never looks at more than 500, NULL or not.
\<close>

definition mem_word :: "kst \<Rightarrow> u16 \<Rightarrow> u16" where
  "mem_word s a = (ucast (mem s a) :: u16) OR push_bit 8 (ucast (mem s (a + 1)))"

definition mem_str :: "kst \<Rightarrow> u16 \<Rightarrow> byte list" where
  "mem_str s a = takeWhile (\<lambda>c. c \<noteq> 0) (ustr s a)"

primrec arg_list :: "nat \<Rightarrow> kst \<Rightarrow> u16 \<Rightarrow> byte list list" where
  "arg_list 0 s argv = []"
| "arg_list (Suc n) s argv = (if mem_word s argv = 0 then []
     else mem_str s (mem_word s argv) # arg_list n s (argv + 2))"

text \<open>The buffer of \<open>wargs\<close>: \<open>a_argc\<close>, \<open>a_arglen\<close>, \<open>a_envc\<close>, then \<open>a_buf\<close> at offset 6.\<close>

definition arg_bytes :: "byte list list \<Rightarrow> byte list" where
  "arg_bytes args = concat (map (\<lambda>a. a @ [0]) args)"

definition store_args :: "byte list \<Rightarrow> bytes \<Rightarrow> bytes" where
  "store_args l d = (\<lambda>k. if 6 \<le> k \<and> k < 6 + length l then l ! (k - 6) else d k)"

definition wargs :: "byte list list \<Rightarrow> u16 \<Rightarrow> bool k" where
  "wargs argv blk =
     bindK (getK (\<lambda>s. p_swap (me_proc s) + blk)) (\<lambda>b.
     bindK (bread SWAPDEV b 2) (\<lambda>r. bindK (derefK r) (\<lambda>argbuf.
     let all = arg_bytes argv in
     if length all \<ge> 500 then thenK (doK [
         upd_buf argbuf (\<lambda>d. d\<lparr>bf_data := store_args (List.take 500 all) (bf_data d)\<rparr>),
         set_error E2BIG,
         bawrite argbuf]) (retK True)
     else thenK (doK [
         upd_buf argbuf (\<lambda>d. d\<lparr>bf_data := store_args all (bf_data d)\<rparr>),
         upd_buf argbuf (\<lambda>d. d\<lparr>bf_data := put16 0 (of_nat (length argv)) (bf_data d)\<rparr>),
         upd_buf argbuf (\<lambda>d. d\<lparr>bf_data := put16 2 (of_nat (length all)) (bf_data d)\<rparr>),
         bawrite argbuf]) (retK False))))"

text \<open>The pointers \<open>argv[1]\<close>, ... : each behind the string before it.\<close>

primrec rargs_fill :: "nat \<Rightarrow> u16 \<Rightarrow> u16 \<Rightarrow> unit k" where
  "rargs_fill 0 slot p = retK ()"
| "rargs_fill (Suc n) slot p = bindK (getK (\<lambda>s. strlen (mem s) p)) (\<lambda>r. case r of
     None \<Rightarrow> haltK Diverges
   | Some len \<Rightarrow> let p' = p + word_of_int len + 1 in
       thenK (put_mem (slot + 2) [p']) (rargs_fill n (slot + 2) p'))"

definition rargs :: "u16 \<Rightarrow> u16 \<Rightarrow> (u16 \<times> u16) k" where
  "rargs ptr0 blk =
     bindK (getK (\<lambda>s. p_swap (me_proc s) + blk)) (\<lambda>b.
     bindK (bread SWAPDEV b 0) (\<lambda>r. bindK (derefK r) (\<lambda>argbuf.
     bindK (getK (\<lambda>s. bf_data (bufpool s ! argbuf))) (\<lambda>d.
     let argc = get16 d 0; arglen = get16 d 2; ptr = ptr0 - arglen; argv = ptr - 2 * (argc + 1) in
     thenK (doK [
       modK (\<lambda>s. s\<lparr>mem := (\<lambda>a. if a - ptr < arglen then d (6 + unat (a - ptr)) else mem s a)\<rparr>),
       put_mem argv [ptr],
       rargs_fill (nat (sint argc - 1)) argv ptr,
       put_mem (argv + 2 * argc) [0],
       bindK (bfree argbuf 0) (\<lambda>_. retK ())]) (retK (argv, argc))))))"

section \<open>execve\<close>

definition buf_to_mem :: "nat \<Rightarrow> u16 \<Rightarrow> unit k" where
  "buf_to_mem buf dest = modK (\<lambda>s. s\<lparr>mem := (\<lambda>a. if a - dest < 512
     then bf_data (bufpool s ! buf) (unat (a - dest)) else mem s a)\<rparr>)"

text \<open>The blocks after the first one; a hole leaves the memory as it is.\<close>

primrec exec_load :: "nat \<Rightarrow> u16 list \<Rightarrow> u16 \<Rightarrow> u16 k" where
  "exec_load ino [] progptr = retK progptr"
| "exec_load ino (blk # blks) progptr =
     bindK (bmap ino blk 1) (\<lambda>pblk.
     thenK (whenK (pblk \<noteq> - 1) (bindK (get_ino ino) (\<lambda>c.
         bindK (bread (c_dev c) pblk 0) (\<lambda>r. bindK (derefK r) (\<lambda>buf.
         doK [buf_to_mem buf progptr, bindK (bfree buf 0) (\<lambda>_. retK ())])))))
       (exec_load ino blks (progptr + 512)))"

definition exec2 :: "nat \<Rightarrow> unit k" where
  "exec2 ino = bindK (get_ino ino) (\<lambda>c.
     bindK (exec_load ino (map of_nat [1..<Suc (unat (o_blkno (i_size (c_node c))))]) (PROGBASE + 512)) (\<lambda>progptr.
     thenK (doK [
       i_deref ino,
       modK (\<lambda>s. s\<lparr>mem := bzero progptr (0xA000 - progptr) (mem s)\<rparr>),
       upd_ud (\<lambda>u. u\<lparr>u_break := progptr\<rparr>)])
     (bindK (getK (\<lambda>s. at_udata (lnk s))) (\<lambda>top.
      bindK (rargs top 0) (\<lambda>(argv, argc). bindK (rargs argv 1) (\<lambda>(envp, _).
      doK [
        (\<lambda>s. upd_ud (\<lambda>u. u\<lparr>u_name := map (\<lambda>k. mem s (mem_word s argv + of_nat k)) [0..<8]\<rparr>) s),
        upd_ud (\<lambda>u. u\<lparr>u_sigvec := map (\<lambda>v. if v \<noteq> SIG_IGN then SIG_DFL else v) (u_sigvec u)\<rparr>),
        put_mem (envp - 2) [argc],
        put_mem (envp - 4) [argv],
        upd_ud (\<lambda>u. u\<lparr>u_isp := envp - 4\<rparr>),
        switchK]))))))"

definition execve :: "cstr \<Rightarrow> byte list list \<Rightarrow> byte list list \<Rightarrow> int k" where
  "execve name argv envp = bindK (n_open1 name) (\<lambda>r. case r of
     None \<Rightarrow> fail
   | Some ino \<Rightarrow>
       let nogood = thenK (i_deref ino) fail in
       bindK (get_ino ino) (\<lambda>c. bindK (getK (getperm c)) (\<lambda>perm.
       if o_blkno (i_size (c_node c)) \<ge> 32 then thenK (set_error ENOMEM) nogood
       else if \<not> (perm AND OTH_EX \<noteq> 0 \<and> i_mode (c_node c) AND F_REG \<noteq> 0 \<and> i_mode (c_node c) AND 0x49 \<noteq> 0)
       then thenK (set_error EACCES) nogood
       else thenK (setftime ino A_TIME)
         (bindK (wargs argv 0) (\<lambda>bad. bindK (if bad then retK True else wargs envp 1) (\<lambda>bad.
          if bad then nogood
          else bindK (bmap ino 0 1) (\<lambda>pblk.
            bindK (bread (c_dev c) pblk 0) (\<lambda>r. bindK (derefK r) (\<lambda>buf.
            bindK (getK (\<lambda>s. bf_data (bufpool s ! buf) 0)) (\<lambda>magic0.
            if magic0 \<noteq> EMAGIC
            then thenK (doK [set_error ENOEXEC, bindK (bfree buf 0) (\<lambda>_. retK ())]) nogood
            else thenK (doK [
                whenK (i_mode (c_node c) AND 0x800 \<noteq> 0) (upd_ud (\<lambda>u. u\<lparr>u_euid := i_uid (c_node c)\<rparr>)),
                whenK (i_mode (c_node c) AND 0x400 \<noteq> 0) (upd_ud (\<lambda>u. u\<lparr>u_egid := i_gid (c_node c)\<rparr>)),
                buf_to_mem buf PROGBASE,
                bindK (bfree buf 0) (\<lambda>_. retK ()),
                upd_ud (\<lambda>u. u\<lparr>u_ino := Some ino\<rparr>),
                exec2 ino]) nogood))))))))))"

definition sys_execve :: "u16 \<Rightarrow> u16 \<Rightarrow> u16 \<Rightarrow> int k" where
  "sys_execve name argv envp =
     bindK (getK (\<lambda>s. (ustr s name, arg_list 500 s argv, arg_list 500 s envp))) (\<lambda>(path, args, env).
     execve path args env)"

section \<open>System call entry\<close>

definition dispatch :: "int k" where
  "dispatch = bindK (getK udata) (\<lambda>u.
     let n = u_argn u; n1 = u_argn1 u; n2 = u_argn2 u; c = u_callno u in
     if c = 0 then sys_exit n
     else if c = 1 then sys_open n1 (sint n)
     else if c = 2 then sys_close (sint n)
     else if c = 3 then sys_creat n1 n
     else if c = 4 then sys_mknod n2 n1 n
     else if c = 5 then sys_link n1 n
     else if c = 6 then sys_unlink n
     else if c = 7 then sys_read [] (sint n2) n1 n
     else if c = 8 then sys_write [] (sint n2) n1 n
     else if c = 9 then sys_seek (sint n2) n1 (sint n)
     else if c = 10 then sys_chdir n
     else if c = 11 then sys_sync
     else if c = 12 then sys_access n1 n
     else if c = 13 then sys_chmod n1 n
     else if c = 14 then sys_chown n2 n1 n
     else if c = 15 then sys_stat n1 n
     else if c = 16 then sys_fstat (sint n1) n
     else if c = 17 then sys_dup (sint n)
     else if c = 18 then sys_getpid
     else if c = 19 then sys_getppid
     else if c = 20 then sys_getuid
     else if c = 21 then sys_umask n
     else if c = 22 then sys_getfsys (sint n1) n
     else if c = 23 then sys_execve n2 n1 n
     else if c = 24 then sys_wait [] n
     else if c = 25 then sys_setuid n
     else if c = 26 then sys_setgid n
     else if c = 27 then sys_time n
     else if c = 28 then sys_stime n
     else if c = 29 then sys_ioctl (sint n2) (sint n1) n
     else if c = 30 then sys_brk n
     else if c = 31 then sys_sbrk n
     else if c = 32 then sys_fork
     else if c = 33 then sys_mount n2 n1 (sint n)
     else if c = 34 then sys_umount n
     else if c = 35 then sys_signal (sint n1) n
     else if c = 36 then sys_dup2 (sint n1) (sint n)
     else if c = 37 then sys_pause []
     else if c = 38 then sys_alarm n
     else if c = 39 then sys_kill (sint n1) (sint n)
     else if c = 40 then sys_pipe n
     else if c = 41 then sys_getgid
     else if c = 42 then sys_times n
     else panic ''unkown syscall'')"

text \<open>\<open>unix\<close>; \<open>user\<close> stands for the user's signal handlers.\<close>

definition unix :: "(u16 \<Rightarrow> nat \<Rightarrow> unit k) \<Rightarrow> u16 \<Rightarrow> u16 \<Rightarrow> u16 \<Rightarrow> u16 \<Rightarrow> nat \<Rightarrow> int k" where
  "unix user argn3 argn2 argn1 argn callno = thenK (doK [
     upd_ud (\<lambda>u. u\<lparr>u_argn3 := argn3, u_argn2 := argn2, u_argn1 := argn1, u_argn := argn,
       u_callno := callno, u_insys := True, u_error := 0\<rparr>),
     bindK dispatch (\<lambda>r. upd_ud (\<lambda>u. u\<lparr>u_retval := r\<rparr>)),
     chksigs,
     bindK (getK runticks) (\<lambda>rt. whenK (rt \<ge> MAXTICKS) (doK [
       upd_me (\<lambda>p. p\<lparr>p_status := P_READY\<rparr>),
       swapout])),
     upd_ud (\<lambda>u. u\<lparr>u_insys := False\<rparr>),
     calltrap user]) (getK (\<lambda>s. u_retval (udata s)))"

section \<open>The first process\<close>

text \<open>
  \<open>init2\<close>: \<open>tick\<close> is what the clock interrupts do before the time of day is looked at;
  \<open>bootchar\<close> is the address of the character read from the terminal. The processes are
  printed; that output is not modelled.
\<close>

definition init2 :: "(kst \<Rightarrow> kst) \<Rightarrow> u16 \<Rightarrow> unit k" where
  "init2 tick bootchar = thenK bufinit
     (bindK ptab_alloc (\<lambda>r. bindK (derefK r) (\<lambda>p. doK [
       modK (\<lambda>s. s\<lparr>initproc := Some p\<rparr>),
       upd_ud (\<lambda>u. u\<lparr>u_ptab := p\<rparr>),
       newproc p,
       upd_proc p (\<lambda>e. e\<lparr>p_status := P_RUNNING\<rparr>),
       upd_ud (\<lambda>u. u\<lparr>u_files := replicate 10 (- 1)\<rparr>),
       modK tick,
       bindK (getK (\<lambda>s. t_date (tod s))) (\<lambda>d. if d = 0 then haltK Diverges else retK ()),
       tty_init,
       bindK (d_open TTYDEV) (\<lambda>r. if r \<noteq> 0 then panic ''no tty'' else retK ()),
       upd_ud (\<lambda>u. u\<lparr>u_base := bootchar, u_count := 1\<rparr>),
       bindK (cdread TTYDEV) (\<lambda>_. retK ()),
       modK (\<lambda>s. s\<lparr>ROOTDEV := int (unat (mem s bootchar)) - 48\<rparr>),
       bindK (getK ROOTDEV) (\<lambda>dev. bindK (fmount dev None) (\<lambda>bad.
         if bad \<noteq> 0 then panic ''no filesys'' else retK ())),
       bindK (getK ROOTDEV) (\<lambda>dev. bindK (i_open dev ROOTINODE) (\<lambda>r. thenK (modK (\<lambda>s. s\<lparr>root := r\<rparr>))
         (case r of
            None \<Rightarrow> panic ''no root''
          | Some rt \<Rightarrow> thenK (upd_ud (\<lambda>u. u\<lparr>u_cwd := Some rt\<rparr>)) (i_ref rt)))),
       (\<lambda>s. upd_ud (\<lambda>u. u\<lparr>u_time := rdtime s\<rparr>) s),
       bindK (execve [47, 105, 110, 105, 116, 0] [[105, 110, 105, 116]] []) (\<lambda>_. retK ()),
       panic ''no /init''])))"

end
