(* ===== verification/Ppu_Queue.thy ===== *)
theory Ppu_Queue
  imports Prelude
begin

text \<open>
  The queue of PPU descriptors: \<open>ppu/ppu_databuf.c\<close> up to \<open>queue_descriptor\<close>, the lock of
  \<open>ppu/ppu.c\<close>, and the other side of the queue, the vertical-blank handler of \<open>ppu/ppu.S\<close> and
  \<open>ppu/ppu_databuf.S\<close>. What the handler does to the PPU and the bank registers is the list of
  its register accesses; what a read of \<open>PPU_DATA\<close> returns is a function \<open>hw\<close> of the accesses
  before it.
\<close>

section \<open>State\<close>

record ppu_desc =
  pd_size :: byte
  pd_target :: u16
  pd_flags :: byte

text \<open>Accesses to \<open>PPU_ADDR\<close>, \<open>PPU_DATA\<close>, the bank registers, \<open>PPU_CTRL\<close>, \<open>PPU_SCROLL\<close>, \<open>PPU_STATUS\<close>, \<open>PPU_MASK\<close>.\<close>

datatype ppu_io = Addr_w byte | Data_w byte | Data_r | Upper_w byte | Seg1_w byte
  | Ctrl_w byte | Scroll_w byte | Status_r | Mask_w byte

record ppu_st =
  databuf :: "byte list"
  databuf_pos :: nat
  ppu_readbuf :: "byte list"
  ppu_readbuf_dirty :: bool
  ppu_locked :: bool
  inint :: bool
  frame_wait_sleep :: bool
  ppu_ctrl_val :: byte
  y_scroll_coarse :: bool
  y_scroll_fine :: int
  cur_screen_ptr :: u16
  cur_nametable_pos :: int
  cur_nametable :: byte
  scroll_started :: bool
  io :: "ppu_io list"

type_synonym 'a pk = "(ppu_st, 'a) kop"

definition do_io :: "ppu_io list \<Rightarrow> unit pk" where
  "do_io xs = modK (\<lambda>s. s\<lparr>io := io s @ xs\<rparr>)"

section \<open>The lock\<close>

definition ppu_lock :: "unit pk" where
  "ppu_lock = bindK (getK (\<lambda>s. (inint s, ppu_locked s))) (\<lambda>(int, locked). doK [
     whenK (int \<and> locked) (panic ''ppu interrupt deadlock''),
     whenK locked (panic ''ppu deadlock''),
     modK (\<lambda>s. s\<lparr>ppu_locked := True\<rparr>)])"

definition ppu_unlock :: "unit pk" where
  "ppu_unlock = modK (\<lambda>s. s\<lparr>ppu_locked := False\<rparr>)"

section \<open>The vertical-blank handler\<close>

definition PPU_DESC_FLAG_NULL :: byte where "PPU_DESC_FLAG_NULL = 0x01"
definition PPU_DESC_FLAG_READ :: byte where "PPU_DESC_FLAG_READ = 0x02"
definition PPU_DESC_FLAG_WRITE :: byte where "PPU_DESC_FLAG_WRITE = 0x04"

definition has_flag :: "byte \<Rightarrow> byte \<Rightarrow> bool" where
  "has_flag flags f \<longleftrightarrow> flags AND f \<noteq> 0"

text \<open>A read descriptor fills \<open>ppu_readbuf\<close>, which holds 64 bytes; \<open>i\<close> bytes have been read.\<close>

primrec read_desc :: "(ppu_io list \<Rightarrow> byte) \<Rightarrow> nat \<Rightarrow> nat \<Rightarrow> unit pk" where
  "read_desc hw i 0 = retK ()"
| "read_desc hw i (Suc n) = doK [
     (\<lambda>s. if i < length (ppu_readbuf s) then Ret () (s\<lparr>ppu_readbuf := (ppu_readbuf s)[i := hw (io s)]\<rparr>) else Halt BadAccess),
     do_io [Data_r],
     read_desc hw (Suc i) n]"

text \<open>The bytes of the buffer from index \<open>y\<close> on, an 8-bit register that wraps.\<close>

definition buf_at :: "ppu_st \<Rightarrow> byte \<Rightarrow> byte" where
  "buf_at s y = databuf s ! unat y"

definition write_bytes :: "byte \<Rightarrow> byte \<Rightarrow> unit pk" where
  "write_bytes y num = bindK (getK (\<lambda>s. map (\<lambda>i. Data_w (buf_at s (y + of_nat i))) [0..<unat num])) do_io"

text \<open>What the handler writes to \<open>MMC5_CHR_UPPER\<close>: it shifts the flags after masking them.\<close>

definition upper_bank :: "byte \<Rightarrow> byte" where
  "upper_bank flags = drop_bit 4 (flags AND 6)"

text \<open>
  The loop over the descriptors of the buffer. Nothing in it changes the buffer, so a loop of
  256 rounds has been at some index twice and does not end.
\<close>

primrec ppubuf_loop :: "(ppu_io list \<Rightarrow> byte) \<Rightarrow> nat \<Rightarrow> byte \<Rightarrow> unit pk" where
  "ppubuf_loop hw 0 y = haltK Diverges"
| "ppubuf_loop hw (Suc n) y =
     bindK (getK (\<lambda>s. (buf_at s y, buf_at s (y + 1), buf_at s (y + 2), buf_at s (y + 3), buf_at s (y + 4))))
     (\<lambda>(num, lo, hi, flags, bank).
     if num = 0 then retK ()
     else thenK (do_io [Addr_w hi, Addr_w lo])
       (if has_flag flags 6 then thenK (do_io [Upper_w (upper_bank flags), Seg1_w bank])
          (if has_flag flags PPU_DESC_FLAG_READ then doK [
             do_io [Data_r],
             read_desc hw 0 (unat num),
             modK (\<lambda>s. s\<lparr>ppu_readbuf_dirty := True\<rparr>),
             ppubuf_loop hw n (y + 5)]
           else thenK (write_bytes (y + 5) num) (ppubuf_loop hw n (y + 5 + num)))
        else if has_flag flags PPU_DESC_FLAG_NULL then
          thenK (do_io (replicate (unat num) (Data_w 0))) (ppubuf_loop hw n (y + 4))
        else thenK (write_bytes (y + 4) num) (ppubuf_loop hw n (y + 4 + num))))"

definition process_ppubuf :: "(ppu_io list \<Rightarrow> byte) \<Rightarrow> unit pk" where
  "process_ppubuf hw = bindK (getK ppu_readbuf_dirty) (\<lambda>dirty. whenK (\<not> dirty)
     (thenK (ppubuf_loop hw 256 0) (modK (\<lambda>s. s\<lparr>databuf_pos := 0, databuf := (databuf s)[0 := 0]\<rparr>))))"

definition scroll_ctrl :: "bool \<Rightarrow> byte \<Rightarrow> byte" where
  "scroll_ctrl coarse c = (if coarse then c OR 0x02 else c AND 0xfd)"

definition reset_io :: "byte \<Rightarrow> int \<Rightarrow> ppu_io list" where
  "reset_io c fine = [Addr_w 0x20, Addr_w 0x00, Ctrl_w c, Status_r, Scroll_w 0, Scroll_w (word_of_int fine), Mask_w 0x0a]"

definition ppu_reset :: "unit pk" where
  "ppu_reset = thenK (modK (\<lambda>s. s\<lparr>ppu_ctrl_val := scroll_ctrl (y_scroll_coarse s) (ppu_ctrl_val s)\<rparr>))
     (bindK (getK (\<lambda>s. reset_io (ppu_ctrl_val s) (y_scroll_fine s))) do_io)"

definition handle_vblank :: "(ppu_io list \<Rightarrow> byte) \<Rightarrow> unit pk" where
  "handle_vblank hw = bindK (getK ppu_locked) (\<lambda>locked. whenK (\<not> locked) (doK [
     process_ppubuf hw, ppu_reset, modK (\<lambda>s. s\<lparr>frame_wait_sleep := False\<rparr>)]))"

text \<open>
  The loop of \<open>wait_frame\<close> ends when the handler has run, unless the lock is held: then the
  handler does nothing, this time and every other.
\<close>

definition wait_frame :: "(ppu_io list \<Rightarrow> byte) \<Rightarrow> unit pk" where
  "wait_frame hw = doK [
     modK (\<lambda>s. s\<lparr>frame_wait_sleep := True\<rparr>),
     handle_vblank hw,
     bindK (getK frame_wait_sleep) (\<lambda>f. whenK f (haltK Diverges))]"

section \<open>Queueing\<close>

datatype ppu_desc_type = PPU_VIDEO_DESC | PPU_READ_DESC | PPU_WRITE_DESC | PPU_NULL_DESC | PPU_BAD_DESC

definition get_desc_type :: "ppu_desc \<Rightarrow> ppu_desc_type" where
  "get_desc_type d = (let low = pd_flags d AND 0x0f in
     if pd_flags d = 0 then PPU_VIDEO_DESC
     else if has_flag low PPU_DESC_FLAG_READ then PPU_READ_DESC
     else if has_flag low PPU_DESC_FLAG_WRITE then PPU_WRITE_DESC
     else if has_flag low PPU_DESC_FLAG_NULL then PPU_NULL_DESC
     else PPU_BAD_DESC)"

text \<open>A NULL descriptor is charged its overhead for every byte. At most 20005, so nothing wraps.\<close>

definition calc_desc_weight :: "ppu_desc \<Rightarrow> nat pk" where
  "calc_desc_weight d = (case get_desc_type d of
      PPU_VIDEO_DESC \<Rightarrow> retK (74 + unat (pd_size d) * 20)
    | PPU_READ_DESC \<Rightarrow> retK (115 + unat (pd_size d) * 20)
    | PPU_WRITE_DESC \<Rightarrow> retK (115 + unat (pd_size d) * 20)
    | PPU_NULL_DESC \<Rightarrow> retK (78 + unat (pd_size d) * 78)
    | PPU_BAD_DESC \<Rightarrow> panic ''bad PPU desc'')"

definition desc_datalen :: "ppu_desc \<Rightarrow> byte" where
  "desc_datalen d =
     (if has_flag (pd_flags d) PPU_DESC_FLAG_READ then 1
      else if has_flag (pd_flags d) PPU_DESC_FLAG_NULL then 0
      else if has_flag (pd_flags d) PPU_DESC_FLAG_WRITE then pd_size d + 1
      else pd_size d)"

text \<open>\<open>16 * sizeof(struct ppu_desc) + 1\<close>, as the macros expand.\<close>

definition PPU_BUF_SIZE :: nat where "PPU_BUF_SIZE = 16 * 4 + 1"

text \<open>\<open>bcopy\<close> to the end of the buffer, which is a page long.\<close>

definition append_databuf :: "byte list \<Rightarrow> unit pk" where
  "append_databuf bs = (\<lambda>s. if databuf_pos s + length bs \<le> length (databuf s)
     then Ret () (s\<lparr>databuf := take (databuf_pos s) (databuf s) @ bs @ drop (databuf_pos s + length bs) (databuf s),
       databuf_pos := databuf_pos s + length bs\<rparr>)
     else Halt BadAccess)"

definition desc_bytes :: "ppu_desc \<Rightarrow> byte list" where
  "desc_bytes d = [pd_size d, lo8 (pd_target d), hi8 (pd_target d), pd_flags d]"

definition end_databuf :: "unit pk" where
  "end_databuf = (\<lambda>s. if databuf_pos s < length (databuf s)
     then Ret () (s\<lparr>databuf := (databuf s)[databuf_pos s := 0]\<rparr>) else Halt BadAccess)"

text \<open>\<open>__queue_descriptor\<close>: whether the descriptor was queued; if not, the code returns \<open>-EAGAIN\<close>.\<close>

definition try_queue_descriptor :: "ppu_desc \<Rightarrow> byte list \<Rightarrow> bool pk" where
  "try_queue_descriptor d data = (let datalen = unat (desc_datalen d) in
     thenK ppu_lock
     (bindK (getK databuf_pos) (\<lambda>pos.
      if pos + 4 + datalen + 1 > PPU_BUF_SIZE then thenK ppu_unlock (retK False)
      else bindK (calc_desc_weight d) (\<lambda>weight.
        if weight + 171 > 2200 then thenK ppu_unlock (retK False)
        else thenK (doK [
            append_databuf (desc_bytes d),
            whenK (datalen \<noteq> 0)
              (if datalen \<le> length data then append_databuf (take datalen data) else haltK BadAccess),
            end_databuf,
            ppu_unlock]) (retK True)))))"

text \<open>The loop of \<open>queue_descriptor\<close>, at most \<open>n\<close> rounds of it.\<close>

primrec queue_loop :: "(ppu_io list \<Rightarrow> byte) \<Rightarrow> nat \<Rightarrow> ppu_desc \<Rightarrow> byte list \<Rightarrow> unit pk" where
  "queue_loop hw 0 d data = haltK Diverges"
| "queue_loop hw (Suc n) d data = bindK (try_queue_descriptor d data) (\<lambda>queued.
     if queued then retK () else thenK (wait_frame hw) (queue_loop hw n d data))"

text \<open>A second refusal, after the handler has run, is final: see \<open>queue_loop_two\<close>.\<close>

definition queue_descriptor :: "(ppu_io list \<Rightarrow> byte) \<Rightarrow> ppu_desc \<Rightarrow> byte list \<Rightarrow> unit pk" where
  "queue_descriptor hw d data = queue_loop hw 2 d data"

definition test_ppu_read :: "(ppu_io list \<Rightarrow> byte) \<Rightarrow> unit pk" where
  "test_ppu_read hw = queue_descriptor hw \<lparr>pd_size = 64, pd_target = 0x1200, pd_flags = PPU_DESC_FLAG_READ\<rparr> [0]"

section \<open>What the buffer holds\<close>

text \<open>An entry that both sides of the queue take for the same thing.\<close>

definition is_read :: "ppu_desc \<times> byte list \<Rightarrow> bool" where
  "is_read e \<longleftrightarrow> has_flag (pd_flags (fst e)) PPU_DESC_FLAG_READ"

definition is_write :: "ppu_desc \<times> byte list \<Rightarrow> bool" where
  "is_write e \<longleftrightarrow> has_flag (pd_flags (fst e)) PPU_DESC_FLAG_WRITE"

definition is_null :: "ppu_desc \<times> byte list \<Rightarrow> bool" where
  "is_null e \<longleftrightarrow> has_flag (pd_flags (fst e)) PPU_DESC_FLAG_NULL"

definition entry_ok :: "ppu_desc \<times> byte list \<Rightarrow> bool" where
  "entry_ok e \<longleftrightarrow> 0 < unat (pd_size (fst e)) \<and> unat (pd_size (fst e)) < 255 \<and>
     get_desc_type (fst e) \<noteq> PPU_BAD_DESC \<and> unat (desc_datalen (fst e)) \<le> length (snd e) \<and>
     (is_read e \<longrightarrow> unat (pd_size (fst e)) \<le> 64) \<and> (is_write e \<and> is_null e \<longrightarrow> is_read e)"

definition entry_bytes :: "ppu_desc \<times> byte list \<Rightarrow> byte list" where
  "entry_bytes e = desc_bytes (fst e) @ take (unat (desc_datalen (fst e))) (snd e)"

text \<open>What the handler does with an entry.\<close>

definition entry_io :: "ppu_desc \<times> byte list \<Rightarrow> ppu_io list" where
  "entry_io e = (let d = fst e; data = snd e; n = unat (pd_size d) in
     [Addr_w (hi8 (pd_target d)), Addr_w (lo8 (pd_target d))] @
     (if is_read e then [Upper_w 0, Seg1_w (data ! 0), Data_r] @ replicate n Data_r
      else if is_write e then [Upper_w 0, Seg1_w (data ! 0)] @ map Data_w (take n (tl data))
      else if is_null e then replicate n (Data_w 0)
      else map Data_w (take n data)))"

lemma flags_rw: "has_flag f 6 \<longleftrightarrow> has_flag f PPU_DESC_FLAG_READ \<or> has_flag f PPU_DESC_FLAG_WRITE"
proof -
  have "f AND 6 = (f AND 2) OR (f AND 4)" by (simp flip: bit.conj_disj_distrib)
  then show ?thesis by (simp add: has_flag_def PPU_DESC_FLAG_READ_def PPU_DESC_FLAG_WRITE_def or_eq_0_iff)
qed

lemma upper_bank_zero: "upper_bank f = 0"
proof -
  have "drop_bit 4 (6 :: byte) = 0" by (simp add: drop_bit_eq_div word_div_def)
  then show ?thesis unfolding upper_bank_def drop_bit_and by (simp only: and_zero_eq)
qed

lemma desc_bytes_length [simp]: "length (desc_bytes d) = 4"
  by (simp add: desc_bytes_def)

lemma entry_length: "entry_ok e \<Longrightarrow> length (entry_bytes e) = 4 + unat (desc_datalen (fst e))"
  by (simp add: entry_bytes_def entry_ok_def)

lemma unat_size_plus_1: "unat (n :: byte) < 255 \<Longrightarrow> unat (n + 1) = Suc (unat n)"
  by (simp add: unat_word_ariths)

lemma entry_datalen:
  assumes "entry_ok e"
  shows "unat (desc_datalen (fst e)) = (if is_read e then 1 else if is_null e then 0
     else if is_write e then Suc (unat (pd_size (fst e))) else unat (pd_size (fst e)))"
  using assms by (simp add: desc_datalen_def is_read_def is_null_def is_write_def entry_ok_def unat_size_plus_1)

lemma buf_at_nat: "m < 256 \<Longrightarrow> buf_at s (of_nat m) = databuf s ! m"
  by (simp add: buf_at_def unat_of_nat take_bit_nat_eq_self)

lemma read_desc_run:
  "i + n \<le> length (ppu_readbuf s) \<Longrightarrow> \<exists>rb. length rb = length (ppu_readbuf s) \<and>
     read_desc hw i n s = Ret () (s\<lparr>io := io s @ replicate n Data_r, ppu_readbuf := rb\<rparr>)"
proof (induction n arbitrary: i s)
  case 0
  then show ?case by (intro exI[of _ "ppu_readbuf s"]) (simp add: run_simps)
next
  case (Suc n)
  let ?t = "s\<lparr>ppu_readbuf := (ppu_readbuf s)[i := hw (io s)], io := io s @ [Data_r]\<rparr>"
  obtain rb where "length rb = length (ppu_readbuf s)"
    "read_desc hw (Suc i) n ?t = Ret () (?t\<lparr>io := io ?t @ replicate n Data_r, ppu_readbuf := rb\<rparr>)"
    using Suc.IH[of "Suc i" ?t] Suc.prems by auto
  then show ?case
    using Suc.prems by (intro exI[of _ rb]) (simp add: run_simps do_io_def replicate_app_Cons_same)
qed

lemma write_bytes_run:
  assumes "m + unat num \<le> 256" "length (databuf s) = 256"
  shows "write_bytes (of_nat m) num s = Ret () (s\<lparr>io := io s @ map Data_w (take (unat num) (drop m (databuf s)))\<rparr>)"
proof -
  have "map (\<lambda>i. Data_w (buf_at s (of_nat m + of_nat i))) [0..<unat num] = map Data_w (take (unat num) (drop m (databuf s)))"
    using assms by (intro nth_equalityI) (simp_all add: buf_at_nat flip: of_nat_add)
  then show ?thesis by (simp add: write_bytes_def run_simps do_io_def)
qed

text \<open>One round of the loop, at an entry.\<close>

definition after_entries :: "(ppu_desc \<times> byte list) list \<Rightarrow> byte list \<Rightarrow> ppu_st \<Rightarrow> ppu_st" where
  "after_entries es rb s = s\<lparr>io := io s @ concat (map entry_io es), ppu_readbuf := rb,
     ppu_readbuf_dirty := ppu_readbuf_dirty s \<or> (\<exists>e\<in>set es. is_read e)\<rparr>"

lemma after_entries_simps [simp]:
  "databuf (after_entries es rb s) = databuf s" "databuf_pos (after_entries es rb s) = databuf_pos s"
  "ppu_locked (after_entries es rb s) = ppu_locked s" "io (after_entries es rb s) = io s @ concat (map entry_io es)"
  "ppu_readbuf (after_entries es rb s) = rb"
  "ppu_readbuf_dirty (after_entries es rb s) = (ppu_readbuf_dirty s \<or> (\<exists>e\<in>set es. is_read e))"
  by (simp_all add: after_entries_def)

lemma after_entries_Nil [simp]: "after_entries [] (ppu_readbuf s) s = s"
  by (simp add: after_entries_def)

lemma after_entries_Cons [simp]: "after_entries es rb' (after_entries [e] rb s) = after_entries (e # es) rb' s"
  by (simp add: after_entries_def)

lemma ppubuf_entry:
  assumes ok: "entry_ok e" and buf: "databuf s = pre @ entry_bytes e @ rest" "length (databuf s) = 256" "rest \<noteq> []"
    and rb: "length (ppu_readbuf s) = 64"
  shows "\<exists>rb. length rb = 64 \<and> ppubuf_loop hw (Suc n) (of_nat (length pre)) s =
     ppubuf_loop hw n (of_nat (length pre + length (entry_bytes e))) (after_entries [e] rb s)"
proof -
  obtain d data where e: "e = (d, data)" by (cases e)
  let ?p = "length pre" and ?l = "unat (desc_datalen d)" and ?n = "unat (pd_size d)"
  note len = entry_length[OF ok] and dl = entry_datalen[OF ok]
  have lim: "?p + 4 + ?l < 256"
    using buf len by (cases rest) (auto simp: e)
  have at: "buf_at s (of_nat (?p + k)) = entry_bytes e ! k" if "k < 4 + ?l" for k
    using that lim len by (subst buf_at_nat) (simp_all add: buf(1) nth_append e)
  have at0: "buf_at s (of_nat ?p) = pd_size d" "buf_at s (of_nat ?p + 1) = lo8 (pd_target d)"
    "buf_at s (of_nat ?p + 2) = hi8 (pd_target d)" "buf_at s (of_nat ?p + 3) = pd_flags d"
    using at[of 0] at[of 1] at[of 2] at[of 3] by (simp_all add: entry_bytes_def desc_bytes_def e add.commute)
  have at4: "buf_at s (of_nat ?p + 4) = data ! 0" if "0 < ?l"
    using that at[of 4] ok by (simp add: entry_bytes_def desc_bytes_def e entry_ok_def add.commute nth_append)
  have ok': "0 < ?n" "?l \<le> length data" "pd_size d \<noteq> 0" "is_read e \<longrightarrow> ?n \<le> 64" "is_write e \<and> is_null e \<longrightarrow> is_read e"
    using ok by (auto simp: entry_ok_def e)
  have dr: "take m (drop (?p + 4 + j) (databuf s)) = take m (drop j data)" if "j + m \<le> ?l" for m j
    using that ok'(2) by (simp add: buf(1) entry_bytes_def desc_bytes_def e eval_nat_numeral) (simp add: drop_take min_absorb1)
  note step = ppubuf_loop.simps(2) run_simps at0 ok'(3) flags_rw prod.case do_io_def upper_bank_zero
  let ?a = "[Addr_w (hi8 (pd_target d)), Addr_w (lo8 (pd_target d))]"
  consider (rd) "is_read e" | (wr) "\<not> is_read e" "is_write e" "\<not> is_null e" | (nul) "\<not> is_read e" "\<not> is_write e" "is_null e"
    | (vid) "\<not> is_read e" "\<not> is_write e" "\<not> is_null e" using ok'(5) by blast
  then show ?thesis
  proof cases
    case rd
    then have l: "?l = 1" using dl by (simp add: e)
    let ?s = "s\<lparr>io := io s @ ?a @ [Upper_w 0, Seg1_w (data ! 0), Data_r]\<rparr>"
    obtain rb' where r: "length rb' = 64" "read_desc hw 0 ?n ?s = Ret () (?s\<lparr>io := io ?s @ replicate ?n Data_r, ppu_readbuf := rb'\<rparr>)"
      using read_desc_run[of 0 ?n ?s hw] ok'(4) rd rb by auto
    have "?p + length (entry_bytes (d, data)) = ?p + 5" using l len by (simp add: e)
    then have nx: "of_nat (?p + length (entry_bytes (d, data))) = (of_nat ?p :: byte) + 5" by (simp only: of_nat_add of_nat_numeral)
    show ?thesis
      unfolding e nx using rd at4 l r by (intro exI[of _ rb']) (simp add: step is_read_def e after_entries_def entry_io_def split: outcome.split)
  next
    case wr
    then have l: "?l = Suc ?n" using dl by (simp add: e)
    have d: "take ?n (drop (?p + 5) (databuf s)) = take ?n (tl data)"
      using dr[of 1 ?n] l by (simp add: add.commute drop_Suc)
    have w: "write_bytes (of_nat ?p + 5) (pd_size d) t = Ret () (t\<lparr>io := io t @ map Data_w (take ?n (tl data))\<rparr>)"
      if "databuf t = databuf s" for t
      using write_bytes_run[of "?p + 5" "pd_size d" t] lim l buf(2) d that by (simp add: add.commute)
    have "?p + length (entry_bytes (d, data)) = ?p + 5 + ?n" using l len by (simp add: e)
    then have nx: "of_nat (?p + length (entry_bytes (d, data))) = (of_nat ?p :: byte) + 5 + pd_size d"
      by (simp only: of_nat_add of_nat_numeral) simp
    show ?thesis
      unfolding e nx using wr at4 l w rb by (intro exI[of _ "ppu_readbuf s"])
        (simp add: step is_read_def is_write_def e after_entries_def entry_io_def)
  next
    case nul
    then have l: "?l = 0" using dl by (simp add: e)
    have "?p + length (entry_bytes (d, data)) = ?p + 4" using l len by (simp add: e)
    then have nx: "of_nat (?p + length (entry_bytes (d, data))) = (of_nat ?p :: byte) + 4" by (simp only: of_nat_add of_nat_numeral)
    show ?thesis
      unfolding e nx using nul l rb by (intro exI[of _ "ppu_readbuf s"])
        (simp add: step is_read_def is_write_def is_null_def e after_entries_def entry_io_def)
  next
    case vid
    then have l: "?l = ?n" using dl by (simp add: e)
    have d: "take ?n (drop (?p + 4) (databuf s)) = take ?n data"
      using dr[of 0 ?n] l by (simp add: add.commute)
    have w: "write_bytes (of_nat ?p + 4) (pd_size d) t = Ret () (t\<lparr>io := io t @ map Data_w (take ?n data)\<rparr>)"
      if "databuf t = databuf s" for t
      using write_bytes_run[of "?p + 4" "pd_size d" t] lim l buf(2) d that by (simp add: add.commute)
    have "?p + length (entry_bytes (d, data)) = ?p + 4 + ?n" using l len by (simp add: e)
    then have nx: "of_nat (?p + length (entry_bytes (d, data))) = (of_nat ?p :: byte) + 4 + pd_size d"
      by (simp only: of_nat_add of_nat_numeral) simp
    show ?thesis
      unfolding e nx using vid l w rb by (intro exI[of _ "ppu_readbuf s"])
        (simp add: step is_read_def is_write_def is_null_def e after_entries_def entry_io_def)
  qed
qed

text \<open>A run of the loop over a well-formed buffer carries out its entries in order.\<close>

lemma ppubuf_entries:
  assumes "\<forall>e\<in>set es. entry_ok e" "databuf s = pre @ concat (map entry_bytes es) @ 0 # rest" "length (databuf s) = 256"
    "length (ppu_readbuf s) = 64" "length es < n"
  shows "\<exists>rb. length rb = 64 \<and> ppubuf_loop hw n (of_nat (length pre)) s = Ret () (after_entries es rb s)"
  using assms
proof (induction es arbitrary: pre s n)
  case Nil
  then obtain n' where n: "n = Suc n'" by (cases n) auto
  have "length pre < 256" using Nil.prems(2,3) by simp
  then have "buf_at s (of_nat (length pre)) = 0"
    by (subst buf_at_nat) (simp_all add: Nil.prems(2))
  then show ?case
    using Nil.prems(4) unfolding n by (intro exI[of _ "ppu_readbuf s"]) (simp add: run_simps)
next
  case (Cons e es)
  obtain n' where n: "n = Suc n'" using Cons.prems(5) by (cases n) auto
  obtain rb where rb: "length rb = 64" and r: "ppubuf_loop hw n (of_nat (length pre)) s =
     ppubuf_loop hw n' (of_nat (length pre + length (entry_bytes e))) (after_entries [e] rb s)"
    using ppubuf_entry[of e s pre "concat (map entry_bytes es) @ 0 # rest" hw n'] Cons.prems unfolding n by auto
  obtain rb' where "length rb' = 64" "ppubuf_loop hw n' (of_nat (length (pre @ entry_bytes e))) (after_entries [e] rb s) =
     Ret () (after_entries es rb' (after_entries [e] rb s))"
    using Cons.IH[of "after_entries [e] rb s" "pre @ entry_bytes e" n'] Cons.prems rb n by auto
  then show ?case using r by (intro exI[of _ rb']) simp
qed

section \<open>Queue and handler together\<close>

text \<open>The state of the queue between operations: the entries \<open>pend\<close> wait in the buffer.\<close>

definition queue_inv :: "ppu_st \<Rightarrow> (ppu_desc \<times> byte list) list \<Rightarrow> bool" where
  "queue_inv s pend \<longleftrightarrow> (\<forall>e\<in>set pend. entry_ok e) \<and> length (databuf s) = 256 \<and> length (ppu_readbuf s) = 64 \<and>
     \<not> ppu_locked s \<and> databuf_pos s = length (concat (map entry_bytes pend)) \<and> databuf_pos s \<le> 64 \<and>
     take (Suc (databuf_pos s)) (databuf s) = concat (map entry_bytes pend) @ [0]"

lemma queue_inv_buf:
  assumes "queue_inv s pend"
  obtains rest where "databuf s = concat (map entry_bytes pend) @ 0 # rest"
proof -
  have "databuf s = take (Suc (databuf_pos s)) (databuf s) @ drop (Suc (databuf_pos s)) (databuf s)" by simp
  then show ?thesis using assms that unfolding queue_inv_def by (metis append.assoc append_Cons append_Nil)
qed

lemma entries_short:
  "\<forall>e\<in>set es. entry_ok e \<Longrightarrow> 4 * length es \<le> length (concat (map entry_bytes es))"
  by (induction es) (auto simp: entry_length)

definition drained :: "(ppu_desc \<times> byte list) list \<Rightarrow> byte list \<Rightarrow> ppu_st \<Rightarrow> ppu_st" where
  "drained pend rb s = (after_entries pend rb s)\<lparr>databuf_pos := 0, databuf := (databuf s)[0 := 0]\<rparr>"

lemma process_ppubuf_run:
  assumes inv: "queue_inv s pend" and "\<not> ppu_readbuf_dirty s"
  shows "\<exists>rb. length rb = 64 \<and> process_ppubuf hw s = Ret () (drained pend rb s)"
proof -
  obtain rest where "databuf s = concat (map entry_bytes pend) @ 0 # rest" using inv by (rule queue_inv_buf)
  moreover have "length pend < 256"
    using entries_short[of pend] inv by (simp add: queue_inv_def)
  ultimately obtain rb where "length rb = 64" "ppubuf_loop hw 256 (of_nat (length [])) s = Ret () (after_entries pend rb s)"
    using ppubuf_entries[of pend s "[]" rest 256 hw] inv by (auto simp: queue_inv_def)
  then show ?thesis
    using assms(2) by (intro exI[of _ rb]) (simp add: process_ppubuf_def run_simps drained_def)
qed

text \<open>The frame part of the handler: scroll registers and the end of a wait.\<close>

definition next_ctrl :: "ppu_st \<Rightarrow> byte" where
  "next_ctrl s = scroll_ctrl (y_scroll_coarse s) (ppu_ctrl_val s)"

definition frame_end :: "ppu_st \<Rightarrow> ppu_st" where
  "frame_end s = s\<lparr>ppu_ctrl_val := next_ctrl s, io := io s @ reset_io (next_ctrl s) (y_scroll_fine s), frame_wait_sleep := False\<rparr>"

lemma handle_vblank_run:
  assumes inv: "queue_inv s pend"
  shows "\<exists>rb. length rb = 64 \<and>
    handle_vblank hw s = Ret () (frame_end (if ppu_readbuf_dirty s then s else drained pend rb s))"
proof -
  obtain rb where "length rb = 64" "process_ppubuf hw s = Ret () (if ppu_readbuf_dirty s then s else drained pend rb s)"
    using process_ppubuf_run[OF inv, of hw] inv
    by (cases "ppu_readbuf_dirty s") (auto simp: process_ppubuf_def run_simps queue_inv_def)
  then show ?thesis
    using inv by (intro exI[of _ rb])
      (simp add: handle_vblank_def run_simps ppu_reset_def do_io_def frame_end_def next_ctrl_def queue_inv_def)
qed

lemma queue_inv_drained:
  assumes "queue_inv s pend" "length rb = 64"
  shows "queue_inv (frame_end (drained pend rb s)) []"
  using assms by (cases "databuf s") (auto simp: queue_inv_def frame_end_def drained_def after_entries_def)

lemma queue_inv_other [simp]:
  "queue_inv (s\<lparr>frame_wait_sleep := b\<rparr>) pend = queue_inv s pend"
  "queue_inv (s\<lparr>ppu_readbuf_dirty := b\<rparr>) pend = queue_inv s pend"
  "queue_inv (s\<lparr>ppu_ctrl_val := c, io := xs\<rparr>) pend = queue_inv s pend"
  "queue_inv (s\<lparr>y_scroll_fine := y\<rparr>) pend = queue_inv s pend"
  "queue_inv (s\<lparr>y_scroll_fine := y, y_scroll_coarse := b\<rparr>) pend = queue_inv s pend"
  by (simp_all add: queue_inv_def)

lemma queue_inv_frame: "queue_inv s pend \<Longrightarrow> queue_inv (frame_end s) pend"
  by (simp add: frame_end_def)

lemma handle_vblank_locked: "ppu_locked s \<Longrightarrow> handle_vblank hw s = Ret () s"
  by (simp add: handle_vblank_def run_simps)

text \<open>What \<open>__queue_descriptor\<close> does.\<close>

definition desc_weight :: "ppu_desc \<Rightarrow> nat" where
  "desc_weight d = (if get_desc_type d = PPU_VIDEO_DESC then 74 + unat (pd_size d) * 20
     else if get_desc_type d = PPU_NULL_DESC then 78 + unat (pd_size d) * 78 else 115 + unat (pd_size d) * 20)"

definition accepts :: "ppu_st \<Rightarrow> ppu_desc \<Rightarrow> bool" where
  "accepts s d \<longleftrightarrow> databuf_pos s + 4 + unat (desc_datalen d) \<le> 64 \<and> desc_weight d \<le> 2029"

definition queued :: "ppu_desc \<times> byte list \<Rightarrow> ppu_st \<Rightarrow> ppu_st" where
  "queued e s = s\<lparr>databuf := take (databuf_pos s) (databuf s) @ entry_bytes e @ 0 #
       drop (Suc (databuf_pos s + length (entry_bytes e))) (databuf s),
     databuf_pos := databuf_pos s + length (entry_bytes e)\<rparr>"

lemma calc_desc_weight_run:
  "get_desc_type d \<noteq> PPU_BAD_DESC \<Longrightarrow> calc_desc_weight d s = Ret (desc_weight d) s"
  by (cases "get_desc_type d") (simp_all add: calc_desc_weight_def desc_weight_def run_simps)

lemma try_queue_reject:
  assumes "\<not> ppu_locked s" "get_desc_type d \<noteq> PPU_BAD_DESC" "\<not> accepts s d"
  shows "try_queue_descriptor d data s = Ret False s"
proof -
  have s: "s\<lparr>ppu_locked := False\<rparr> = s" using assms(1) by simp
  show ?thesis
    using assms by (auto simp: try_queue_descriptor_def Let_def run_simps ppu_lock_def ppu_unlock_def
        calc_desc_weight_run accepts_def PPU_BUF_SIZE_def s)
qed

lemma append_databuf_run:
  "length (databuf s) = 256 \<Longrightarrow> databuf_pos s + length bs \<le> 256 \<Longrightarrow> append_databuf bs s = Ret ()
     (s\<lparr>databuf := take (databuf_pos s) (databuf s) @ bs @ drop (databuf_pos s + length bs) (databuf s),
       databuf_pos := databuf_pos s + length bs\<rparr>)"
  by (simp add: append_databuf_def)

lemma try_queue_accept:
  assumes ok: "entry_ok (d, data)" and s: "\<not> ppu_locked s" "length (databuf s) = 256" and acc: "accepts s d"
  shows "try_queue_descriptor d data s = Ret True (queued (d, data) s)"
proof -
  define p l where "p = databuf_pos s" and "l = unat (desc_datalen d)"
  define u where "u = s\<lparr>databuf := take p (databuf s) @ entry_bytes (d, data) @ drop (p + 4 + l) (databuf s),
     databuf_pos := p + 4 + l, ppu_locked := True\<rparr>"
  have lim: "p + 4 + l \<le> 64" and w: "desc_weight d \<le> 2029" and ty: "get_desc_type d \<noteq> PPU_BAD_DESC" and dl: "l \<le> length data"
    using acc ok by (simp_all add: accepts_def entry_ok_def p_def l_def)
  let ?s = "s\<lparr>ppu_locked := True\<rparr>"
  define v where "v = s\<lparr>databuf := take p (databuf s) @ desc_bytes d @ drop (p + 4) (databuf s), databuf_pos := p + 4, ppu_locked := True\<rparr>"
  have a: "append_databuf (desc_bytes d) ?s = Ret () v"
    using lim s(2) by (subst append_databuf_run) (simp_all add: v_def p_def)
  have v: "length (databuf v) = 256" "databuf_pos v = p + 4"
    using lim s(2) by (simp_all add: v_def p_def)
  have b: "append_databuf (take l data) v = Ret () u"
    using lim s(2) dl v by (subst append_databuf_run)
      (simp_all add: u_def v_def p_def l_def[symmetric] entry_bytes_def add_ac)
  have u0: "u = v" if "l = 0" using that by (simp add: u_def v_def entry_bytes_def flip: l_def)
  have e: "end_databuf u = Ret () (u\<lparr>databuf := (databuf u)[p + 4 + l := 0]\<rparr>)"
    using lim s(2) dl by (simp add: end_databuf_def u_def)
  have q: "u\<lparr>databuf := (databuf u)[p + 4 + l := 0], ppu_locked := False\<rparr> = queued (d, data) s"
  proof -
    have k: "length (entry_bytes (d, data)) = 4 + l" using entry_length[OF ok] by (simp add: l_def)
    have "(drop (p + 4 + l) (databuf s))[0 := 0] = 0 # drop (Suc (p + 4 + l)) (databuf s)"
      using lim s(2) by (subst Cons_nth_drop_Suc[symmetric]) simp_all
    then show ?thesis using lim s k
      by (simp add: u_def queued_def list_update_append p_def[symmetric] add_ac)
  qed
  have "try_queue_descriptor d data s = Ret True (u\<lparr>databuf := (databuf u)[p + 4 + l := 0], ppu_locked := False\<rparr>)"
    using s(1) lim w ty dl a b e u0
    by (auto simp: try_queue_descriptor_def Let_def run_simps ppu_lock_def ppu_unlock_def calc_desc_weight_run
        PPU_BUF_SIZE_def p_def[symmetric] l_def[symmetric])
  then show ?thesis by (simp add: q)
qed

lemma queue_inv_queued:
  assumes inv: "queue_inv s pend" and ok: "entry_ok (d, data)" and acc: "accepts s d"
  shows "queue_inv (queued (d, data) s) (pend @ [(d, data)])"
proof -
  have k: "databuf_pos s + length (entry_bytes (d, data)) \<le> 64"
    using acc entry_length[OF ok] by (simp add: accepts_def)
  have "take (databuf_pos s) (databuf s) = concat (map entry_bytes pend)"
    using inv by (auto simp: queue_inv_def take_Suc_conv_app_nth)
  then show ?thesis
    using inv ok k by (auto simp: queue_inv_def queued_def)
qed

section \<open>Interleavings\<close>

text \<open>
  What can happen to the queue, one critical section at a time: a process queues an entry and
  is told whether it was taken, the handler runs, anything else changes that is not the queue
  (the reader of \<open>ppu_readbuf\<close> takes its bytes, the cursor moves, a process goes to sleep).
  The second argument collects the entries that were taken.
\<close>

definition same_queue :: "ppu_st \<Rightarrow> ppu_st \<Rightarrow> bool" where
  "same_queue s t \<longleftrightarrow> databuf t = databuf s \<and> databuf_pos t = databuf_pos s \<and> ppu_readbuf t = ppu_readbuf s \<and>
     ppu_locked t = ppu_locked s \<and> io t = io s"

inductive ppu_run :: "(ppu_io list \<Rightarrow> byte) \<Rightarrow> ppu_st \<Rightarrow> (ppu_desc \<times> byte list) list \<Rightarrow> ppu_st \<Rightarrow> bool"
  for hw :: "ppu_io list \<Rightarrow> byte" and s0 :: ppu_st where
  start: "ppu_run hw s0 [] s0"
| taken: "ppu_run hw s0 l s \<Longrightarrow> entry_ok (d, data) \<Longrightarrow> try_queue_descriptor d data s = Ret True t \<Longrightarrow>
     ppu_run hw s0 (l @ [(d, data)]) t"
| refused: "ppu_run hw s0 l s \<Longrightarrow> entry_ok (d, data) \<Longrightarrow> try_queue_descriptor d data s = Ret False t \<Longrightarrow>
     ppu_run hw s0 l t"
| vblank: "ppu_run hw s0 l s \<Longrightarrow> handle_vblank hw s = Ret () t \<Longrightarrow> ppu_run hw s0 l t"
| other: "ppu_run hw s0 l s \<Longrightarrow> same_queue s t \<Longrightarrow> ppu_run hw s0 l t"

lemma queue_inv_same: "same_queue s t \<Longrightarrow> queue_inv t pend = queue_inv s pend"
  by (simp add: same_queue_def queue_inv_def)

lemma ppu_run_trans: "ppu_run hw t l' u \<Longrightarrow> ppu_run hw s l t \<Longrightarrow> ppu_run hw s (l @ l') u"
proof (induction rule: ppu_run.induct)
  case (taken l' u d data v)
  then show ?case using ppu_run.taken[of hw s "l @ l'" u d data v] by simp
qed (auto intro: ppu_run.intros)

lemma ppu_run_other: "same_queue s t \<Longrightarrow> ppu_run hw s [] t"
  by (rule ppu_run.other[OF ppu_run.start])

lemma ppu_run_wait:
  assumes "wait_frame hw s = Ret () t"
  shows "ppu_run hw s [] t"
proof -
  have "handle_vblank hw (s\<lparr>frame_wait_sleep := True\<rparr>) = Ret () t"
    using assms by (auto simp: wait_frame_def run_simps split: outcome.splits if_splits)
  moreover have "ppu_run hw s [] (s\<lparr>frame_wait_sleep := True\<rparr>)" by (rule ppu_run_other) (simp add: same_queue_def)
  ultimately show ?thesis by (rule ppu_run.vblank[rotated])
qed

text \<open>A frame: the entries drained in it, then the values of the control and scroll registers.\<close>

definition frame_io :: "(ppu_desc \<times> byte list) list \<times> byte \<times> int \<Rightarrow> ppu_io list" where
  "frame_io fr = concat (map entry_io (fst fr)) @ reset_io (fst (snd fr)) (snd (snd fr))"

lemma vblank_frame:
  assumes "queue_inv s pend" "handle_vblank hw s = Ret () t"
  obtains now c fine where "io t = io s @ frame_io (now, c, fine)"
    "now = (if ppu_readbuf_dirty s then [] else pend)" "queue_inv t (if ppu_readbuf_dirty s then pend else [])"
proof (cases "ppu_readbuf_dirty s")
  case True
  then have "t = frame_end s" using handle_vblank_run[OF assms(1), of hw] assms(2) by auto
  then show ?thesis
    using that[of "[]" "next_ctrl s" "y_scroll_fine s"] True assms(1)
    by (simp add: frame_io_def frame_end_def)
next
  case False
  then obtain rb where rb: "length rb = 64" "t = frame_end (drained pend rb s)"
    using handle_vblank_run[OF assms(1), of hw] assms(2) by auto
  then have "io t = io s @ frame_io (pend, next_ctrl (drained pend rb s), y_scroll_fine (drained pend rb s))"
    by (simp add: frame_io_def frame_end_def drained_def)
  then show ?thesis
    using that[of pend] False queue_inv_drained[OF assms(1) rb(1)] rb(2) by simp
qed

lemma try_queue_cases:
  assumes "queue_inv s pend" "entry_ok (d, data)"
  shows "accepts s d \<and> try_queue_descriptor d data s = Ret True (queued (d, data) s) \<or>
    \<not> accepts s d \<and> try_queue_descriptor d data s = Ret False s"
  using try_queue_accept[OF assms(2), of s] try_queue_reject[of s d data] assms by (auto simp: queue_inv_def entry_ok_def)

text \<open>
  C21: however queueing and the handler interleave, the entries that were taken are those
  carried out, frame by frame and in the order of queueing, followed by those that wait in the
  buffer: none is lost, repeated or reordered.
\<close>

theorem ppu_delivery:
  assumes "ppu_run hw s0 l s" and "queue_inv s0 []"
  shows "\<exists>frames pend. l = concat (map fst frames) @ pend \<and> queue_inv s pend \<and>
     io s = io s0 @ concat (map frame_io frames)"
  using assms(1)
proof (induction rule: ppu_run.induct)
  case start
  show ?case using assms(2) by (intro exI[of _ "[]"]) simp
next
  case (taken l s d data t)
  then obtain frames pend where f: "l = concat (map fst frames) @ pend" "queue_inv s pend"
    "io s = io s0 @ concat (map frame_io frames)" by blast
  then have "accepts s d" "t = queued (d, data) s" using try_queue_cases[OF f(2) taken(2)] taken(3) by auto
  then show ?case
    using f queue_inv_queued[OF f(2) taken(2)]
    by (intro exI[of _ frames] exI[of _ "pend @ [(d, data)]"]) (simp add: queued_def)
next
  case (refused l s d data t)
  then obtain frames pend where f: "l = concat (map fst frames) @ pend" "queue_inv s pend"
    "io s = io s0 @ concat (map frame_io frames)" by blast
  then have "t = s" using try_queue_cases[OF f(2) refused(2)] refused(3) by auto
  then show ?case using f by blast
next
  case (vblank l s t)
  then obtain frames pend where f: "l = concat (map fst frames) @ pend" "queue_inv s pend"
    "io s = io s0 @ concat (map frame_io frames)" by blast
  obtain now c fine where v: "io t = io s @ frame_io (now, c, fine)"
    "now = (if ppu_readbuf_dirty s then [] else pend)" "queue_inv t (if ppu_readbuf_dirty s then pend else [])"
    using vblank_frame[OF f(2) vblank(2)] .
  then show ?case
    using f by (intro exI[of _ "frames @ [(now, c, fine)]"] exI[of _ "if ppu_readbuf_dirty s then pend else []"]) simp
next
  case (other l s t)
  then obtain frames pend where "l = concat (map fst frames) @ pend" "queue_inv s pend"
    "io s = io s0 @ concat (map frame_io frames)" by blast
  then show ?case
    using queue_inv_same[of s t] other(2) by (intro exI[of _ frames] exI[of _ pend]) (simp add: same_queue_def)
qed

section \<open>Waiting for room\<close>

lemma wait_frame_run:
  assumes "queue_inv s pend"
  shows "\<exists>rb. length rb = 64 \<and> wait_frame hw s = Ret ()
     (frame_end (if ppu_readbuf_dirty s then s\<lparr>frame_wait_sleep := True\<rparr> else drained pend rb (s\<lparr>frame_wait_sleep := True\<rparr>)))"
proof -
  have "queue_inv (s\<lparr>frame_wait_sleep := True\<rparr>) pend" using assms by simp
  from handle_vblank_run[OF this, of hw] show ?thesis
    by (auto simp: wait_frame_def run_simps frame_end_def)
qed

text \<open>Whether an attempt succeeds depends on the position in the buffer alone.\<close>

lemma accepts_cong: "databuf_pos s = databuf_pos t \<Longrightarrow> accepts s d = accepts t d"
  by (simp add: accepts_def)

lemma frame_end_simps [simp]:
  "databuf_pos (frame_end s) = databuf_pos s" "ppu_readbuf_dirty (frame_end s) = ppu_readbuf_dirty s"
  "databuf_pos (drained pend rb s) = 0"
  by (simp_all add: frame_end_def drained_def)

lemma queue_loop_accept:
  assumes "queue_inv s pend" "entry_ok (d, data)" "accepts s d"
  shows "queue_loop hw (Suc n) d data s = Ret () (queued (d, data) s)"
  using try_queue_cases[OF assms(1,2)] assms(3) by (simp add: run_simps)

lemma queue_loop_refuse:
  assumes "queue_inv s pend" "entry_ok (d, data)" "\<not> accepts s d" "wait_frame hw s = Ret () t"
  shows "queue_loop hw (Suc n) d data s = queue_loop hw n d data t"
  using try_queue_cases[OF assms(1,2)] assms(3,4) by (simp add: run_simps)

lemma wait_frame_inv:
  assumes "queue_inv s pend"
  obtains t where "wait_frame hw s = Ret () t" "queue_inv t (if ppu_readbuf_dirty s then pend else [])"
    "databuf_pos t = (if ppu_readbuf_dirty s then databuf_pos s else 0)" "ppu_readbuf_dirty s \<Longrightarrow> ppu_readbuf_dirty t"
proof -
  obtain rb where rb: "length rb = 64" "wait_frame hw s = Ret () (frame_end (if ppu_readbuf_dirty s
      then s\<lparr>frame_wait_sleep := True\<rparr> else drained pend rb (s\<lparr>frame_wait_sleep := True\<rparr>)))"
    using wait_frame_run[OF assms] by blast
  show ?thesis
    using assms rb(1) by (intro that[OF rb(2)]) (simp_all add: queue_inv_drained queue_inv_frame)
qed

text \<open>An entry that no buffer position accepts is refused for ever.\<close>

lemma queue_loop_heavy:
  assumes "queue_inv s pend" "entry_ok (d, data)" "2029 < desc_weight d"
  shows "queue_loop hw n d data s = Halt Diverges"
  using assms(1)
proof (induction n arbitrary: s pend)
  case (Suc n)
  obtain t where t: "wait_frame hw s = Ret () t" "queue_inv t (if ppu_readbuf_dirty s then pend else [])"
    using wait_frame_inv[OF Suc.prems] by blast
  have "\<not> accepts s d" using assms(3) by (simp add: accepts_def)
  then show ?case using queue_loop_refuse[OF Suc.prems assms(2) _ t(1)] Suc.IH[OF t(2)] by simp
qed (simp add: run_simps)

lemma queue_loop_stuck:
  assumes "queue_inv s pend" "entry_ok (d, data)" "\<not> accepts s d" "ppu_readbuf_dirty s \<or> databuf_pos s = 0"
  shows "queue_loop hw n d data s = Halt Diverges"
  using assms(1,3,4)
proof (induction n arbitrary: s pend)
  case (Suc n)
  obtain t where t: "wait_frame hw s = Ret () t" "queue_inv t (if ppu_readbuf_dirty s then pend else [])"
    "databuf_pos t = (if ppu_readbuf_dirty s then databuf_pos s else 0)" "ppu_readbuf_dirty s \<Longrightarrow> ppu_readbuf_dirty t"
    using wait_frame_inv[OF Suc.prems(1)] by blast
  have "databuf_pos t = databuf_pos s" using Suc.prems(3) t(3) by auto
  then have "\<not> accepts t d" using Suc.prems(2) accepts_cong[of t s d] by blast
  then have "queue_loop hw n d data t = Halt Diverges" using t Suc.prems(3) by (intro Suc.IH[OF t(2)]) auto
  then show ?case using queue_loop_refuse[OF Suc.prems(1) assms(2) Suc.prems(2) t(1)] by simp
qed (simp add: run_simps)

text \<open>Two rounds of the loop decide: what they do not queue is never queued.\<close>

lemma queue_loop_two:
  assumes "queue_inv s pend" "entry_ok (d, data)"
  shows "queue_loop hw (n + 2) d data s = queue_descriptor hw d data s"
proof (cases "accepts s d")
  case True
  then show ?thesis using queue_loop_accept[OF assms True, of hw] by (simp add: queue_descriptor_def numeral_2_eq_2 del: queue_loop.simps)
next
  case False
  obtain t where t: "wait_frame hw s = Ret () t" "queue_inv t (if ppu_readbuf_dirty s then pend else [])"
    "databuf_pos t = (if ppu_readbuf_dirty s then databuf_pos s else 0)" "ppu_readbuf_dirty s \<Longrightarrow> ppu_readbuf_dirty t"
    using wait_frame_inv[OF assms(1)] by blast
  have "queue_loop hw (Suc n) d data t = queue_loop hw (Suc 0) d data t"
  proof (cases "accepts t d")
    case True
    then show ?thesis using queue_loop_accept[OF t(2) assms(2), of hw] by (simp del: queue_loop.simps)
  next
    case False
    have "ppu_readbuf_dirty t \<or> databuf_pos t = 0" using t(3,4) by auto
    then show ?thesis using queue_loop_stuck[OF t(2) assms(2) False] by (simp del: queue_loop.simps)
  qed
  then show ?thesis
    using queue_loop_refuse[OF assms False t(1), of "Suc n"] queue_loop_refuse[OF assms False t(1), of "Suc 0"]
    by (simp add: queue_descriptor_def numeral_2_eq_2 del: queue_loop.simps)
qed

text \<open>
  C23: unless bytes read from the PPU wait to be taken, \<open>queue_descriptor\<close> returns for every
  entry of at most 60 bytes of data and a weight within the budget of a frame, however full the
  buffer is: the entry is in the buffer, behind those that were waiting or alone in it.
\<close>

theorem queue_descriptor_returns:
  assumes "queue_inv s pend" "entry_ok (d, data)" "\<not> ppu_readbuf_dirty s"
    "unat (desc_datalen d) \<le> 60" "desc_weight d \<le> 2029"
  shows "wp (queue_descriptor hw d data)
     (\<lambda>_ t. queue_inv t (if accepts s d then pend @ [(d, data)] else [(d, data)])) s"
proof (cases "accepts s d")
  case True
  then show ?thesis
    using queue_loop_accept[OF assms(1,2) True, of hw 1] queue_inv_queued[OF assms(1,2) True]
    by (simp add: queue_descriptor_def wp_def numeral_2_eq_2 del: queue_loop.simps)
next
  case False
  obtain t where t: "wait_frame hw s = Ret () t" "queue_inv t []" "databuf_pos t = 0"
    using wait_frame_inv[OF assms(1)] assms(3) by (metis (full_types))
  have acc: "accepts t d" using assms(4,5) t(3) by (simp add: accepts_def)
  show ?thesis
    using queue_loop_refuse[OF assms(1,2) False t(1), of "Suc 0"] queue_loop_accept[OF t(2) assms(2) acc, of hw 0]
      queue_inv_queued[OF t(2) assms(2) acc] False
    by (simp add: queue_descriptor_def wp_def numeral_2_eq_2 del: queue_loop.simps)
qed

text \<open>The part of the state that is the cursor's, which queueing leaves alone.\<close>

definition same_screen :: "ppu_st \<Rightarrow> ppu_st \<Rightarrow> bool" where
  "same_screen s t \<longleftrightarrow> cur_screen_ptr t = cur_screen_ptr s \<and> cur_nametable_pos t = cur_nametable_pos s \<and>
     cur_nametable t = cur_nametable s \<and> scroll_started t = scroll_started s \<and>
     y_scroll_fine t = y_scroll_fine s \<and> y_scroll_coarse t = y_scroll_coarse s"

lemma same_screen_simps [simp]:
  "same_screen s (queued e t) = same_screen s t" "same_screen s (frame_end t) = same_screen s t"
  "same_screen s (drained pend rb t) = same_screen s t" "same_screen s (s\<lparr>frame_wait_sleep := b\<rparr>)"
  by (simp_all add: same_screen_def queued_def frame_end_def drained_def after_entries_def)

text \<open>The queue holds no read descriptor and none has been carried out.\<close>

definition writes_only :: "ppu_st \<Rightarrow> (ppu_desc \<times> byte list) list \<Rightarrow> bool" where
  "writes_only s pend \<longleftrightarrow> queue_inv s pend \<and> \<not> ppu_readbuf_dirty s \<and> (\<forall>e\<in>set pend. \<not> is_read e)"

lemma queue_descriptor_write:
  assumes s: "writes_only s pend" and ok: "entry_ok (d, data)" "\<not> is_read (d, data)"
    and small: "unat (desc_datalen d) \<le> 60" "desc_weight d \<le> 2029"
  shows "\<exists>t pend'. queue_descriptor hw d data s = Ret () t \<and> writes_only t pend' \<and>
     ppu_run hw s [(d, data)] t \<and> same_screen s t"
proof -
  have inv: "queue_inv s pend" and dirty: "\<not> ppu_readbuf_dirty s" and nr: "\<forall>e\<in>set pend. \<not> is_read e"
    using s by (simp_all add: writes_only_def)
  have put: "writes_only (queued (d, data) t) (p @ [(d, data)]) \<and> ppu_run hw t [(d, data)] (queued (d, data) t)"
    if t: "writes_only t p" "accepts t d" for t p
  proof -
    have i: "queue_inv t p" using t(1) by (simp add: writes_only_def)
    have "ppu_run hw t ([] @ [(d, data)]) (queued (d, data) t)"
      using ppu_run.taken[OF ppu_run.start ok(1)] try_queue_cases[OF i ok(1)] t(2) by blast
    then show ?thesis
      using t queue_inv_queued[OF i ok(1)] ok(2) by (auto simp: writes_only_def queued_def)
  qed
  show ?thesis
  proof (cases "accepts s d")
    case True
    then show ?thesis
      using put[OF s] queue_loop_accept[OF inv ok(1), of hw 1] same_screen_simps(1)[of s "(d, data)" s]
      by (intro exI[of _ "queued (d, data) s"] exI[of _ "pend @ [(d, data)]"])
        (simp add: queue_descriptor_def numeral_2_eq_2 same_screen_def[of s s] del: queue_loop.simps)
  next
    case False
    obtain rb where rb: "length rb = 64"
      and w: "wait_frame hw s = Ret () (frame_end (drained pend rb (s\<lparr>frame_wait_sleep := True\<rparr>)))"
      using wait_frame_run[OF inv, of hw] dirty by auto
    define t where "t = frame_end (drained pend rb (s\<lparr>frame_wait_sleep := True\<rparr>))"
    have t: "writes_only t []" "accepts t d" "same_screen s t"
      using queue_inv_drained[of "s\<lparr>frame_wait_sleep := True\<rparr>" pend rb] inv rb small dirty nr
      by (simp_all add: t_def writes_only_def accepts_def) (simp add: drained_def)
    have "queue_inv t []" using t(1) by (simp add: writes_only_def)
    then have "queue_descriptor hw d data s = Ret () (queued (d, data) t)"
      using queue_loop_refuse[OF inv ok(1) False w, of "Suc 0"] queue_loop_accept[OF _ ok(1) t(2), of "[]" hw 0]
      by (simp add: queue_descriptor_def numeral_2_eq_2 t_def[symmetric] del: queue_loop.simps)
    moreover have "ppu_run hw s ([] @ [(d, data)]) (queued (d, data) t)"
      using ppu_run_wait[OF w] put[OF t(1,2)] unfolding t_def[symmetric] by (blast intro: ppu_run_trans)
    ultimately show ?thesis using put[OF t(1,2)] t(3) by (auto intro!: exI[of _ "[(d, data)]"])
  qed
qed

section \<open>The NULL descriptor of a line\<close>

text \<open>
  The descriptor that blanks a line, 32 bytes and NULL, is never queued: charged 78 cycles for
  each byte it is over the budget of a frame, so \<open>queue_descriptor\<close> waits for ever.
\<close>

lemma blank_line:
  assumes "queue_inv s pend"
  shows "queue_loop hw n \<lparr>pd_size = 32, pd_target = p, pd_flags = PPU_DESC_FLAG_NULL\<rparr> [] s = Halt Diverges"
  by (rule queue_loop_heavy[OF assms])
    (simp_all add: entry_ok_def get_desc_type_def desc_datalen_def is_read_def is_write_def has_flag_def desc_weight_def
      PPU_DESC_FLAG_NULL_def PPU_DESC_FLAG_READ_def PPU_DESC_FLAG_WRITE_def)

section \<open>Instances\<close>

definition empty_queue :: ppu_st where
  "empty_queue = \<lparr>databuf = replicate 256 0, databuf_pos = 0, ppu_readbuf = replicate 64 0, ppu_readbuf_dirty = False,
     ppu_locked = False, inint = False, frame_wait_sleep = False, ppu_ctrl_val = 0x80, y_scroll_coarse = False,
     y_scroll_fine = 1, cur_screen_ptr = 0x2020, cur_nametable_pos = 32, cur_nametable = 0, scroll_started = False, io = []\<rparr>"

lemma empty_queue_inv: "queue_inv empty_queue []"
  by (simp add: queue_inv_def empty_queue_def)

definition read_64 :: "ppu_desc \<times> byte list" where
  "read_64 = (\<lparr>pd_size = 64, pd_target = 0x1200, pd_flags = PPU_DESC_FLAG_READ\<rparr>, [9])"

lemma read_64_ok: "entry_ok read_64"
  by (simp add: read_64_def entry_ok_def get_desc_type_def desc_datalen_def is_read_def is_write_def has_flag_def
      PPU_DESC_FLAG_READ_def PPU_DESC_FLAG_WRITE_def)

lemma read_64_small: "unat (desc_datalen (fst read_64)) = 1" "desc_weight (fst read_64) = 1395"
  by (simp_all add: read_64_def desc_datalen_def desc_weight_def get_desc_type_def has_flag_def PPU_DESC_FLAG_READ_def)

theorem queue_descriptor_returns_witness:
  "wp (queue_descriptor (\<lambda>_. 0) (fst read_64) (snd read_64)) (\<lambda>_ t. queue_inv t [read_64]) empty_queue"
  by (rule wp_mono[OF queue_descriptor_returns[OF empty_queue_inv]])
    (simp_all add: read_64_ok read_64_small empty_queue_def split: if_splits)

theorem ppu_delivery_witness:
  "\<exists>t. ppu_run (\<lambda>_. 0) empty_queue [read_64] t \<and> (\<exists>frames pend. [read_64] = concat (map fst frames) @ pend \<and>
     queue_inv t pend \<and> io t = concat (map frame_io frames))"
proof -
  have "accepts empty_queue (fst read_64)"
    by (simp add: accepts_def empty_queue_def read_64_small)
  then have "try_queue_descriptor (fst read_64) (snd read_64) empty_queue = Ret True (queued read_64 empty_queue)"
    using try_queue_cases[OF empty_queue_inv] read_64_ok by (metis prod.collapse)
  then have r: "ppu_run (\<lambda>_. 0) empty_queue ([] @ [read_64]) (queued read_64 empty_queue)"
    using ppu_run.taken[OF ppu_run.start, of "fst read_64" "snd read_64"] read_64_ok by simp
  then show ?thesis using ppu_delivery[OF r empty_queue_inv] by (auto simp: empty_queue_def)
qed

end
