(* ===== verification/Ppu_Screen.thy ===== *)
theory Ppu_Screen
  imports Ppu_Queue "HOL-Library.Signed_Division"
begin

text \<open>
  Characters on the screen: the cursor of \<open>ppu/ppu_databuf.c\<close>, \<open>ppu_puts\<close> and \<open>init_ppu\<close> of
  \<open>ppu/ppu.c\<close>, the keyboard echo of \<open>drivers/kb/kb.c\<close>, and the older \<open>ppu/ppu_screenbuf.c\<close>.
\<close>

section \<open>The cursor\<close>

definition swap_nametable :: "unit pk" where
  "swap_nametable = modK (\<lambda>s. if cur_nametable s = 0
     then s\<lparr>cur_nametable_pos := 0, cur_nametable := 1, cur_screen_ptr := 0x2800\<rparr>
     else s\<lparr>cur_nametable_pos := 0, cur_nametable := 0, cur_screen_ptr := 0x2000\<rparr>)"

definition write_blank_line_desc :: "(ppu_io list \<Rightarrow> byte) \<Rightarrow> unit pk" where
  "write_blank_line_desc hw = bindK (getK cur_screen_ptr) (\<lambda>p.
     queue_descriptor hw \<lparr>pd_size = 32, pd_target = p, pd_flags = PPU_DESC_FLAG_NULL\<rparr> [])"

definition scroll_one_row :: "(ppu_io list \<Rightarrow> byte) \<Rightarrow> unit pk" where
  "scroll_one_row hw = doK [
     write_blank_line_desc hw,
     ppu_lock,
     modK (\<lambda>s. s\<lparr>y_scroll_fine := y_scroll_fine s + 8\<rparr>),
     bindK (getK y_scroll_fine) (\<lambda>y. whenK (y \<ge> 8 * 30)
       (modK (\<lambda>s. s\<lparr>y_scroll_coarse := \<not> y_scroll_coarse s, y_scroll_fine := 1\<rparr>))),
     ppu_unlock]"

text \<open>The columns are \<open>char\<close>s.\<close>

definition column :: "int \<Rightarrow> byte" where
  "column pos = word_of_int (pos smod 32)"

definition update_screen_ptrs :: "(ppu_io list \<Rightarrow> byte) \<Rightarrow> int \<Rightarrow> unit pk" where
  "update_screen_ptrs hw dist = bindK (getK cur_nametable_pos) (\<lambda>orig.
     if dist = 0 then retK ()
     else doK [
       modK (\<lambda>s. s\<lparr>cur_screen_ptr := cur_screen_ptr s + word_of_int dist, cur_nametable_pos := cur_nametable_pos s + dist\<rparr>),
       bindK (getK cur_nametable_pos) (\<lambda>pos. whenK (pos \<ge> 960) swap_nametable),
       bindK (getK (\<lambda>s. \<not> scroll_started s \<and> cur_nametable_pos s \<ge> 896 + 32)) (\<lambda>b. whenK b
         (modK (\<lambda>s. s\<lparr>scroll_started := True\<rparr>))),
       bindK (getK (\<lambda>s. (scroll_started s, cur_nametable_pos s))) (\<lambda>(started, pos). whenK started
         (let cur_x = column pos; orig_x = column orig in
          if cur_x < orig_x then scroll_one_row hw
          else whenK (cur_x = orig_x \<and> cur_x = 0) (scroll_one_row hw)))])"

definition next_line :: "(ppu_io list \<Rightarrow> byte) \<Rightarrow> unit pk" where
  "next_line hw = bindK (getK cur_screen_ptr) (\<lambda>p. update_screen_ptrs hw (32 - int (unat p mod 32)))"

definition ppu_putc :: "(ppu_io list \<Rightarrow> byte) \<Rightarrow> byte \<Rightarrow> unit pk" where
  "ppu_putc hw c =
     (if c = 13 then next_line hw
      else bindK (getK cur_screen_ptr) (\<lambda>p. doK [
        queue_descriptor hw \<lparr>pd_size = 1, pd_target = p, pd_flags = 0\<rparr> [c],
        update_screen_ptrs hw 1]))"

text \<open>The characters of a string before its terminator.\<close>

fun ppu_puts :: "(ppu_io list \<Rightarrow> byte) \<Rightarrow> cstr \<Rightarrow> unit pk" where
  "ppu_puts hw [] = retK ()"
| "ppu_puts hw (c # cs) = (if c = 0 then retK () else thenK (ppu_putc hw c) (ppu_puts hw cs))"

text \<open>
  What \<open>init_ppu\<close> does to the state: the font goes to character RAM through \<open>font_io\<close>, the
  accesses of \<open>ppu_load_font\<close>, whose data are a binary file of the build.
\<close>

definition load_font_io :: "byte list \<Rightarrow> ppu_io list" where
  "load_font_io font = [Mask_w 0, Addr_w 0, Addr_w 0] @ map Data_w (take 4096 font)"

definition init_ppu :: "byte list \<Rightarrow> unit pk" where
  "init_ppu font = doK [
     do_io (load_font_io font),
     do_io [Status_r],
     modK (\<lambda>s. s\<lparr>ppu_ctrl_val := ppu_ctrl_val s OR 0x80\<rparr>),
     bindK (getK ppu_ctrl_val) (\<lambda>c. do_io [Ctrl_w c]),
     ppu_unlock]"

section \<open>The keyboard\<close>

text \<open>
  \<open>kb_rows\<close> and \<open>kb_checked\<close> are set by the assembly; \<open>dump_keyboard\<close> prints the character of
  every key that is down now and was not the last time.
\<close>

record kb_st =
  kb_rows :: "byte list"
  prev_kb_rows :: "byte list"
  kb_checked :: bool

definition reset_prev_kb_rows :: "kb_st \<Rightarrow> kb_st" where
  "reset_prev_kb_rows k = k\<lparr>prev_kb_rows := replicate 9 0\<rparr>"

text \<open>The keys of row \<open>i\<close> that are printed, as indices into \<open>kb_map\<close>.\<close>

definition row_keys :: "kb_st \<Rightarrow> nat \<Rightarrow> nat list" where
  "row_keys k i = map (\<lambda>b. 8 * i + b) (filter (\<lambda>b. drop_bit b (kb_rows k ! i) AND 1 \<noteq> 0 \<and>
     drop_bit b (prev_kb_rows k ! i) AND 1 = 0) [0..<8])"

text \<open>The characters printed, in order, and the new state.\<close>

definition dump_keyboard :: "byte list \<Rightarrow> kb_st \<Rightarrow> byte list \<times> kb_st" where
  "dump_keyboard kb_map k =
     (if kb_checked k then ([], k)
      else (map (\<lambda>n. kb_map ! n) (concat (map (row_keys k) [0..<9])), k\<lparr>kb_checked := True, prev_kb_rows := kb_rows k\<rparr>))"

section \<open>Where a text goes\<close>

text \<open>
  The reference: a position counts the cells of the first name table from its top left corner;
  a carriage return goes to the start of the next row. The entry of a character.
\<close>

definition advance :: "nat \<Rightarrow> byte \<Rightarrow> nat" where
  "advance p c = (if c = 13 then 32 * (p div 32 + 1) else p + 1)"

fun cells :: "nat \<Rightarrow> byte list \<Rightarrow> (nat \<times> byte) list" where
  "cells p [] = []"
| "cells p (c # cs) = (if c = 13 then [] else [(p, c)]) @ cells (advance p c) cs"

definition cell_entry :: "nat \<times> byte \<Rightarrow> ppu_desc \<times> byte list" where
  "cell_entry e = (\<lparr>pd_size = 1, pd_target = 0x2000 + of_nat (fst e), pd_flags = 0\<rparr>, [snd e])"

definition screen_at :: "ppu_st \<Rightarrow> nat \<Rightarrow> bool" where
  "screen_at s p \<longleftrightarrow> p < 928 \<and> cur_screen_ptr s = 0x2000 + of_nat p \<and> cur_nametable_pos s = int p \<and> \<not> scroll_started s"

lemma cell_entry_ok: "entry_ok (cell_entry e)" "\<not> is_read (cell_entry e)" "unat (desc_datalen (fst (cell_entry e))) = 1"
  "desc_weight (fst (cell_entry e)) = 94"
  by (simp_all add: cell_entry_def entry_ok_def get_desc_type_def is_read_def is_write_def is_null_def has_flag_def
      desc_datalen_def desc_weight_def)

lemma screen_at_same: "same_screen s t \<Longrightarrow> screen_at t p = screen_at s p"
  by (simp add: same_screen_def screen_at_def)

text \<open>Blanking a line does not return, so neither does scrolling.\<close>

lemma scroll_hangs: "queue_inv s pend \<Longrightarrow> scroll_one_row hw s = Halt Diverges"
  using blank_line[of s pend hw 2] by (simp add: scroll_one_row_def write_blank_line_desc_def run_simps queue_descriptor_def)

lemma smod_32: "int p smod 32 = int (p mod 32)"
  by (simp add: signed_modulo_int_def sgn_if zmod_int)

lemma column_nat: "column (int p) = of_nat (p mod 32)"
  by (simp only: column_def smod_32 of_int_of_nat_eq)

lemma of_nat_column: "(of_nat (p mod 32) :: byte) < of_nat (q mod 32) \<longleftrightarrow> p mod 32 < q mod 32"
  "(of_nat (p mod 32) :: byte) = of_nat (q mod 32) \<longleftrightarrow> p mod 32 = q mod 32" "(of_nat (p mod 32) :: byte) = 0 \<longleftrightarrow> p mod 32 = 0"
proof -
  have u: "unat (of_nat (n mod 32) :: byte) = n mod 32" for n :: nat
  proof -
    have "n mod 32 < 32" by simp
    then show ?thesis by (simp add: unat_of_nat take_bit_nat_eq_self)
  qed
  show "(of_nat (p mod 32) :: byte) < of_nat (q mod 32) \<longleftrightarrow> p mod 32 < q mod 32"
    by (simp only: word_less_nat_alt u)
  show "(of_nat (p mod 32) :: byte) = of_nat (q mod 32) \<longleftrightarrow> p mod 32 = q mod 32"
    by (simp only: word_unat_eq_iff u)
  show "(of_nat (p mod 32) :: byte) = 0 \<longleftrightarrow> p mod 32 = 0"
    by (simp only: word_unat_eq_iff u unat_0)
qed

lemma update_moves:
  assumes "screen_at s p" "0 < k" "p + k < 928"
  shows "update_screen_ptrs hw (int k) s =
     Ret () (s\<lparr>cur_screen_ptr := cur_screen_ptr s + of_nat k, cur_nametable_pos := cur_nametable_pos s + int k\<rparr>)"
  using assms by (simp add: update_screen_ptrs_def run_simps screen_at_def)

lemma update_hangs:
  assumes s: "screen_at s p" "queue_inv s pend" and k: "0 < k" "p + k = 928"
  shows "update_screen_ptrs hw (int k) s = Halt Diverges"
proof -
  define t where "t = s\<lparr>cur_screen_ptr := cur_screen_ptr s + of_nat k, cur_nametable_pos := int 928, scroll_started := True\<rparr>"
  have "same_queue s t" by (simp add: same_queue_def t_def)
  then have h: "scroll_one_row hw t = Halt Diverges" using scroll_hangs queue_inv_same s(2) by blast
  have "column (int 928) < column (int p) \<or> column (int 928) = column (int p) \<and> column (int 928) = 0"
    unfolding column_nat of_nat_column by simp (auto simp: of_nat_column(3))
  moreover have "int p + int k = int 928" using k(2) by linarith
  ultimately show ?thesis
    using s(1) k(1) h by (auto simp: update_screen_ptrs_def run_simps screen_at_def t_def Let_def)
qed

lemma screen_ptr_column:
  assumes "screen_at s p"
  shows "32 - int (unat (cur_screen_ptr s) mod 32) = int (32 - p mod 32)"
proof -
  have "unat (0x2000 + of_nat p :: u16) = 0x2000 + p"
    using assms by (subst unat_add_small) (simp_all add: screen_at_def unat_of_small)
  moreover have "(0x2000 + p) mod 32 = p mod 32" using mod_mult_self1[of p 256 32] by (simp add: add.commute)
  ultimately have "unat (cur_screen_ptr s) mod 32 = p mod 32"
    using assms by (simp only: screen_at_def)
  then show ?thesis by (simp add: of_nat_diff)
qed

lemma screen_at_moved:
  "screen_at s p \<Longrightarrow> p + k < 928 \<Longrightarrow>
     screen_at (s\<lparr>cur_screen_ptr := cur_screen_ptr s + of_nat k, cur_nametable_pos := cur_nametable_pos s + int k\<rparr>) (p + k)"
  by (simp add: screen_at_def)

lemma advance_cr: "advance p 13 = p + (32 - p mod 32)"
proof -
  define q r where "q = p div 32" and "r = p mod 32"
  have "advance p 13 = 32 * q + 32" by (simp add: advance_def q_def)
  moreover have "r < 32" by (simp add: r_def)
  moreover have "p = 32 * q + r" by (simp add: q_def r_def)
  ultimately show ?thesis unfolding r_def[symmetric] by linarith
qed

lemma writes_only_same: "same_queue s t \<Longrightarrow> ppu_readbuf_dirty t = ppu_readbuf_dirty s \<Longrightarrow> writes_only t pend = writes_only s pend"
  by (simp add: writes_only_def queue_inv_same)

lemma ppu_run_moved:
  assumes "ppu_run hw s l t" "writes_only t pend"
  shows "ppu_run hw s l (t\<lparr>cur_screen_ptr := p, cur_nametable_pos := q\<rparr>)" "writes_only (t\<lparr>cur_screen_ptr := p, cur_nametable_pos := q\<rparr>) pend"
proof -
  have "same_queue t (t\<lparr>cur_screen_ptr := p, cur_nametable_pos := q\<rparr>)" by (simp add: same_queue_def)
  then show "ppu_run hw s l (t\<lparr>cur_screen_ptr := p, cur_nametable_pos := q\<rparr>)" "writes_only (t\<lparr>cur_screen_ptr := p, cur_nametable_pos := q\<rparr>) pend"
    using assms by (auto simp: writes_only_same intro: ppu_run.other)
qed

lemma putc_char:
  assumes "screen_at s p" "writes_only s pend" "c \<noteq> 13"
  obtains t pend' where "ppu_putc hw c s = update_screen_ptrs hw 1 t" "writes_only t pend'" "screen_at t p"
    "ppu_run hw s [cell_entry (p, c)] t"
proof -
  obtain d data where e: "cell_entry (p, c) = (d, data)" by (cases "cell_entry (p, c)")
  have d: "d = \<lparr>pd_size = 1, pd_target = cur_screen_ptr s, pd_flags = 0\<rparr>" "data = [c]"
    using e assms(1) by (simp_all add: cell_entry_def screen_at_def)
  obtain t pend' where t: "queue_descriptor hw d data s = Ret () t" "writes_only t pend'"
    "ppu_run hw s [(d, data)] t" "same_screen s t"
    using queue_descriptor_write[OF assms(2), of d data hw] cell_entry_ok[of "(p, c)"] unfolding e by auto
  show ?thesis
  proof (rule that[OF _ t(2)])
    show "ppu_putc hw c s = update_screen_ptrs hw 1 t"
      using assms(3) t(1) by (simp add: ppu_putc_def run_simps d retK_def split: outcome.split)
  qed (use t assms(1) e screen_at_same in auto)
qed

text \<open>One character that stays above row 29, and one that reaches it.\<close>

lemma putc_step:
  assumes s: "screen_at s p" "writes_only s pend" and a: "advance p c < 928"
  shows "\<exists>t pend'. ppu_putc hw c s = Ret () t \<and> writes_only t pend' \<and> screen_at t (advance p c) \<and>
     ppu_run hw s (map cell_entry (cells p [c])) t"
proof (cases "c = 13")
  case True
  let ?k = "32 - p mod 32"
  have k: "p + ?k < 928" "0 < ?k" using a by (simp_all add: True advance_cr)
  show ?thesis
    using update_moves[OF s(1) k(2,1), of hw] ppu_run_moved[OF ppu_run.start s(2)] screen_at_moved[OF s(1) k(1)]
    by (intro exI[of _ "s\<lparr>cur_screen_ptr := cur_screen_ptr s + of_nat ?k, cur_nametable_pos := cur_nametable_pos s + int ?k\<rparr>"]
        exI[of _ pend]) (simp add: True ppu_putc_def next_line_def run_simps screen_ptr_column[OF s(1)] advance_cr)
next
  case False
  then have k: "p + 1 < 928" using a by (simp add: advance_def)
  obtain t pend' where t: "ppu_putc hw c s = update_screen_ptrs hw 1 t" "writes_only t pend'" "screen_at t p"
    "ppu_run hw s [cell_entry (p, c)] t" using putc_char[OF s False] .
  show ?thesis
    using update_moves[OF t(3) _ k, of hw] ppu_run_moved[OF t(4,2)] screen_at_moved[OF t(3) k] t(1) False
    by (intro exI[of _ "t\<lparr>cur_screen_ptr := cur_screen_ptr t + of_nat 1, cur_nametable_pos := cur_nametable_pos t + int 1\<rparr>"]
        exI[of _ pend']) (simp add: advance_def)
qed

lemma putc_hangs:
  assumes s: "screen_at s p" "writes_only s pend" and a: "928 \<le> advance p c"
  shows "ppu_putc hw c s = Halt Diverges"
proof (cases "c = 13")
  case True
  let ?k = "32 - p mod 32"
  have "p < 928" using s(1) by (simp add: screen_at_def)
  then have "p div 32 \<le> 28" using less_mult_imp_div_less[of p 29 32] by simp
  moreover have "28 \<le> p div 32" using a by (simp add: True advance_def)
  ultimately have "advance p 13 = 928" by (simp add: advance_def)
  then have k: "p + ?k = 928" "0 < ?k" by (simp_all add: advance_cr)
  show ?thesis
    using update_hangs[OF s(1) _ k(2,1), of pend hw] s(2)
    by (simp add: True ppu_putc_def next_line_def run_simps screen_ptr_column[OF s(1)] writes_only_def)
next
  case False
  then have k: "p + 1 = 928" using a s(1) by (simp add: advance_def screen_at_def)
  obtain t pend' where t: "ppu_putc hw c s = update_screen_ptrs hw 1 t" "writes_only t pend'" "screen_at t p"
    "ppu_run hw s [cell_entry (p, c)] t" using putc_char[OF s False] .
  show ?thesis using update_hangs[OF t(3) _ _ k, of pend' hw] t(1,2) by (simp add: writes_only_def)
qed

lemma puts_cells:
  assumes "screen_at s p" "writes_only s pend" "0 \<notin> set cs"
    and "\<forall>n \<le> length cs. foldl advance p (take n cs) < 928"
  shows "wp (ppu_puts hw cs) (\<lambda>_ t. ppu_run hw s (map cell_entry (cells p cs)) t \<and>
     screen_at t (foldl advance p cs) \<and> (\<exists>pend'. writes_only t pend')) s"
  using assms
proof (induction cs arbitrary: s p pend)
  case Nil
  then show ?case by (auto intro: ppu_run.start)
next
  case (Cons c cs)
  have "advance p c < 928" using Cons.prems(4)[rule_format, of 1] by simp
  then obtain t pend' where t: "ppu_putc hw c s = Ret () t" "writes_only t pend'" "screen_at t (advance p c)"
    "ppu_run hw s (map cell_entry (cells p [c])) t" using putc_step[OF Cons.prems(1,2)] by blast
  have "\<forall>n \<le> length cs. foldl advance (advance p c) (take n cs) < 928"
    using Cons.prems(4)[rule_format, of "Suc n" for n] by auto
  then have "wp (ppu_puts hw cs) (\<lambda>_ u. ppu_run hw t (map cell_entry (cells (advance p c) cs)) u \<and>
     screen_at u (foldl advance (advance p c) cs) \<and> (\<exists>pend'. writes_only u pend')) t"
    using Cons.prems(3) by (intro Cons.IH[OF t(3,2)]) auto
  then show ?case
    using Cons.prems(3) t(1,4) ppu_run_trans[OF _ t(4)] by (auto simp: wp_iff run_simps)
qed

text \<open>
  C22: \<open>ppu_puts\<close> of a text that stays above row 29 returns; seen from the queue, it has queued
  one descriptor for each character, at the cell where the text puts it.
\<close>

theorem ppu_puts_cells:
  assumes "screen_at s p" "writes_only s pend" "0 \<notin> set cs"
    and "\<forall>n \<le> length cs. foldl advance p (take n cs) < 928"
  shows "wp (ppu_puts hw cs) (\<lambda>_ t. ppu_run hw s (map cell_entry (cells p cs)) t \<and>
     screen_at t (foldl advance p cs) \<and> (\<exists>pend'. writes_only t pend')) s"
  by (rule puts_cells[OF assms])

text \<open>
  C37: a text that reaches row 29, the first below the visible ones, never returns: there the
  screen would have to scroll.
\<close>

theorem ppu_puts_hangs:
  assumes "screen_at s p" "writes_only s pend" "0 \<notin> set cs" and "928 \<le> foldl advance p cs"
  shows "ppu_puts hw cs s = Halt Diverges"
  using assms
proof (induction cs arbitrary: s p pend)
  case (Cons c cs)
  show ?case
  proof (cases "advance p c < 928")
    case True
    then obtain t pend' where t: "ppu_putc hw c s = Ret () t" "writes_only t pend'" "screen_at t (advance p c)"
      using putc_step[OF Cons.prems(1,2)] by blast
    then show ?thesis using Cons.IH[OF t(3,2)] Cons.prems(3,4) by (simp add: run_simps)
  next
    case False
    then show ?thesis using putc_hangs[OF Cons.prems(1,2)] Cons.prems(3) by (simp add: run_simps)
  qed
qed (simp add: screen_at_def)

lemma empty_screen: "screen_at empty_queue 32" "writes_only empty_queue []"
  using empty_queue_inv by (simp_all add: screen_at_def empty_queue_def writes_only_def)

theorem ppu_puts_cells_witness:
  "wp (ppu_puts (\<lambda>_. 0) [72, 105, 13, 33]) (\<lambda>_ t. ppu_run (\<lambda>_. 0) empty_queue
     (map cell_entry [(32, 72), (33, 105), (64, 33)]) t \<and> screen_at t 65) empty_queue"
  by (rule wp_mono[OF ppu_puts_cells[OF empty_screen]]) (auto simp: advance_def le_Suc_eq)

lemma advance_rows: "foldl advance (32 * r) (replicate n 13) = 32 * (r + n)"
proof (induction n arbitrary: r)
  case (Suc n)
  have "advance (32 * r) 13 = 32 * Suc r" by (simp add: advance_def)
  then show ?case using Suc.IH[of "Suc r"] by (simp del: mult_Suc_right)
qed simp

theorem ppu_puts_hangs_witness: "ppu_puts (\<lambda>_. 0) (replicate 28 13) empty_queue = Halt Diverges"
  by (rule ppu_puts_hangs[OF empty_screen]) (use advance_rows[of 1 28] in simp_all)

section \<open>What the keyboard prints\<close>

text \<open>The keys printed are those that are down and were not; with no change nothing is printed.\<close>

lemma row_keys_set: "set (row_keys k i) = {8 * i + b |b. b < 8 \<and> bit (kb_rows k ! i) b \<and> \<not> bit (prev_kb_rows k ! i) b}"
  by (auto simp: row_keys_def bit_iff_odd_drop_bit and_one_eq odd_iff_mod_2_eq_one even_iff_mod_2_eq_zero)

lemma dump_keyboard_quiet:
  assumes "\<not> kb_checked k"
  shows "fst (dump_keyboard m ((snd (dump_keyboard m k))\<lparr>kb_checked := False\<rparr>)) = []"
  using assms by (simp add: dump_keyboard_def row_keys_def)

section \<open>The screen buffer\<close>

text \<open>
  \<open>ppu/ppu_screenbuf.c\<close> puts characters into a buffer that the handler copies to the screen.
  \<open>SCREEN_BUF_SIZE\<close>, which no file defines, is the argument \<open>bsize\<close>; the file is not built.
\<close>

record sbuf_st =
  screenbuf :: "byte list"
  cursor_pos :: int
  buffer_dump_pos :: nat
  ppu_dump_pos :: u16

definition sbuf_put :: "byte \<Rightarrow> (sbuf_st, unit) kop" where
  "sbuf_put c = (\<lambda>s. if 0 \<le> cursor_pos s \<and> cursor_pos s < int (length (screenbuf s))
     then Ret () (s\<lparr>screenbuf := (screenbuf s)[nat (cursor_pos s) := c], cursor_pos := cursor_pos s + 1\<rparr>)
     else Halt BadAccess)"

definition sbuf_next_line :: "(sbuf_st, unit) kop" where
  "sbuf_next_line = bindK (getK (\<lambda>s. 32 - cursor_pos s smod 32)) (\<lambda>chars_left.
     forK [0..<nat chars_left] (\<lambda>_. sbuf_put 42))"

definition sbuf_putc :: "int \<Rightarrow> byte \<Rightarrow> (sbuf_st, unit) kop" where
  "sbuf_putc bsize c = doK [
     if c = 13 then sbuf_next_line else sbuf_put c,
     bindK (getK cursor_pos) (\<lambda>p. whenK (p > bsize) (panic ''cursor_pos > SCREEN_BUF_SIZE'')),
     bindK (getK cursor_pos) (\<lambda>p. whenK (p = bsize) (modK (\<lambda>s. s\<lparr>cursor_pos := 0\<rparr>)))]"

text \<open>The dump position is an index into \<open>screenbuf\<close>.\<close>

definition ppu_init_screenbuf :: "(sbuf_st, unit) kop" where
  "ppu_init_screenbuf = modK (\<lambda>s. s\<lparr>buffer_dump_pos := 0, ppu_dump_pos := 0x2020\<rparr>)"

lemma sbuf_put_loop:
  "cursor_pos s = int p \<Longrightarrow> p + length xs \<le> length (screenbuf s) \<Longrightarrow>
     wp (forK xs (\<lambda>_. sbuf_put c)) (\<lambda>_ t. cursor_pos t = int (p + length xs) \<and>
       length (screenbuf t) = length (screenbuf s)) s"
proof (induction xs arbitrary: s p)
  case (Cons x xs)
  then have "sbuf_put c s = Ret () (s\<lparr>screenbuf := (screenbuf s)[p := c], cursor_pos := int (Suc p)\<rparr>)"
    by (simp add: sbuf_put_def)
  then show ?case
    using Cons.IH[of "s\<lparr>screenbuf := (screenbuf s)[p := c], cursor_pos := int (Suc p)\<rparr>" "Suc p"] Cons.prems
    by (simp add: wp_def[of "sbuf_put c"])
qed simp

text \<open>The cursor stays in the buffer, whose size is a number of whole lines, and no call panics.\<close>

lemma sbuf_putc_inside:
  assumes "cursor_pos s = int p" "p < n" "length (screenbuf s) = n" "n mod 32 = 0"
  shows "wp (sbuf_putc (int n) c) (\<lambda>_ t. \<exists>q < n. cursor_pos t = int q \<and> length (screenbuf t) = n) s"
proof -
  have left: "p + (32 - p mod 32) \<le> n"
  proof -
    define q where "q = p div 32"
    obtain m where m: "n = 32 * m" using assms(4) by auto
    have "q < m" using assms(2) m by (simp add: q_def div_less_iff_less_mult)
    moreover have "p + (32 - p mod 32) = 32 * q + 32"
      using advance_cr[of p] by (simp add: advance_def q_def)
    ultimately show ?thesis using m by simp
  qed
  have k: "nat (32 - cursor_pos s smod 32) = 32 - p mod 32"
    by (simp only: assms(1) smod_32)
  have "wp (if c = 13 then sbuf_next_line else sbuf_put c)
      (\<lambda>_ t. \<exists>q \<le> n. cursor_pos t = int q \<and> length (screenbuf t) = n) s"
  proof (cases "c = 13")
    case True
    have "wp (forK [0..<32 - p mod 32] (\<lambda>_. sbuf_put 42)) (\<lambda>_ t. cursor_pos t = int (p + (32 - p mod 32)) \<and>
        length (screenbuf t) = n) s"
      using sbuf_put_loop[OF assms(1), of "[0..<32 - p mod 32]" 42] left assms(3) by simp
    then have "wp (forK [0..<32 - p mod 32] (\<lambda>_. sbuf_put 42))
        (\<lambda>_ t. \<exists>q \<le> n. cursor_pos t = int q \<and> length (screenbuf t) = n) s"
      by (rule wp_mono) (use left in blast)
    then show ?thesis by (simp only: True sbuf_next_line_def wp_bindK wp_getK k refl if_True)
  next
    case False
    then show ?thesis using assms by (auto simp: sbuf_put_def wp_def intro!: exI[of _ "Suc p"])
  qed
  then show ?thesis
    unfolding sbuf_putc_def wp_doK by (rule wp_mono) (use assms(2) in \<open>auto intro: exI[of _ 0]\<close>)
qed

end
