(* ===== verification/Messages.thy ===== *)
theory Messages
  imports Ppu_Screen Str_Lib Kernel_State
begin

text \<open>
  The messages of the kernel, \<open>kernel/machdep.c\<close>: the formatter \<open>vsprintf\<close>, \<open>kprintf\<close>,
  \<open>warning\<close> and \<open>panic\<close> on top of \<open>ppu_putc\<close>, and the listings \<open>bufdump\<close> and \<open>idump\<close> of
  \<open>drivers/devio.c\<close> and \<open>dump_proc\<close> of \<open>kernel/process.c\<close>.
\<close>

section \<open>The formatter\<close>

text \<open>
  An argument, by the type \<open>va_arg\<close> takes it with. A list that does not fit the format is
  \<open>None\<close>: the code would take the next bytes of the stack for the argument.
\<close>

datatype varg = VChar byte | VInt u16 | VStr cstr

text \<open>
  \<open>str\<close> holds the characters put there so far; \<open>idx\<close> is their number, and the code writes a
  terminator behind them each time.
\<close>

definition strcpy_idx :: "byte list \<Rightarrow> cstr \<Rightarrow> byte list" where
  "strcpy_idx str src = str @ takeWhile (\<lambda>c. c \<noteq> 0) src"

definition conv_base :: "byte \<Rightarrow> int option" where
  "conv_base c = (if c = 100 then Some (- 10) else if c = 111 then Some 8 else if c = 117 then Some 10
     else if c = 120 then Some 16 else if c = 98 then Some 2 else None)"

text \<open>
  A conversion takes two characters of the format even when the second is the terminator, so a
  format that ends with a percent sign is read on behind its end.
\<close>

fun vsprintf :: "byte list \<Rightarrow> cstr \<Rightarrow> varg list \<Rightarrow> byte list option" where
  "vsprintf str [] ap = Some str"
| "vsprintf str (c # fmt) ap =
     (if c = 0 then Some str
      else if c \<noteq> 37 then vsprintf (strcpy_idx str [c]) fmt ap
      else let c = deref fmt; fmt' = tl fmt in
        if c = 99 then (case ap of VChar v # ap' \<Rightarrow> vsprintf (strcpy_idx str [v]) fmt' ap' | _ \<Rightarrow> None)
        else if c = 115 then (case ap of VStr v # ap' \<Rightarrow> vsprintf (strcpy_idx str v) fmt' ap' | _ \<Rightarrow> None)
        else (case conv_base c of
            Some base \<Rightarrow> (case ap of VInt v # ap' \<Rightarrow> vsprintf (strcpy_idx str (itob v base)) fmt' ap' | _ \<Rightarrow> None)
          | None \<Rightarrow> vsprintf (strcpy_idx str [37, c]) fmt' ap))"

definition sprintf :: "cstr \<Rightarrow> varg list \<Rightarrow> byte list option" where
  "sprintf fmt ap = vsprintf [] fmt ap"

section \<open>Printing\<close>

text \<open>The ten characters a tab stands for are no tabs, so the recursion is one deep.\<close>

definition kputchar :: "(ppu_io list \<Rightarrow> byte) \<Rightarrow> byte \<Rightarrow> unit pk" where
  "kputchar hw c =
     (if c = 10 then ppu_putc hw 13
      else if c = 9 then forK (replicate 10 127) (ppu_putc hw)
      else ppu_putc hw c)"

definition puts :: "(ppu_io list \<Rightarrow> byte) \<Rightarrow> cstr \<Rightarrow> unit pk" where
  "puts hw s = forK (takeWhile (\<lambda>c. c \<noteq> 0) s) (kputchar hw)"

text \<open>
  \<open>printbuf\<close> has \<open>SCREEN_VIS_SIZE\<close> bytes; a longer text runs over its end.
\<close>

definition print_buffer :: "(ppu_io list \<Rightarrow> byte) \<Rightarrow> cstr \<Rightarrow> varg list \<Rightarrow> unit pk" where
  "print_buffer hw fmt ap = (case sprintf fmt ap of
      None \<Rightarrow> haltK BadAccess
    | Some out \<Rightarrow> if length out < 896 then puts hw out else haltK BadAccess)"

definition kprintf :: "(ppu_io list \<Rightarrow> byte) \<Rightarrow> cstr \<Rightarrow> varg list \<Rightarrow> unit pk" where
  "kprintf hw fmt ap = print_buffer hw fmt ap"

text \<open>A string of the program text.\<close>

definition lit :: "string \<Rightarrow> cstr" where
  "lit s = map of_char s"

definition kwarning :: "(ppu_io list \<Rightarrow> byte) \<Rightarrow> cstr \<Rightarrow> unit pk" where
  "kwarning hw s = kprintf hw (lit ''WARNING: %s'' @ [10]) [VStr s]"

text \<open>\<open>panic\<close> ends in a loop.\<close>

definition kpanic :: "(ppu_io list \<Rightarrow> byte) \<Rightarrow> cstr \<Rightarrow> varg list \<Rightarrow> unit pk" where
  "kpanic hw fmt ap = doK [puts hw (lit ''PANIC: ''), print_buffer hw fmt ap, haltK Diverges]"

section \<open>Listings\<close>

text \<open>A listing is the calls of \<open>kprintf\<close> it makes: formats and arguments.\<close>

type_synonym call = "cstr \<times> varg list"

definition run_calls :: "(ppu_io list \<Rightarrow> byte) \<Rightarrow> call list \<Rightarrow> unit pk" where
  "run_calls hw calls = forK calls (\<lambda>(fmt, ap). kprintf hw fmt ap)"

abbreviation vint :: "int \<Rightarrow> varg" where "vint i \<equiv> VInt (word_of_int i)"
abbreviation vbyte :: "byte \<Rightarrow> varg" where "vbyte b \<equiv> VInt (ucast b)"

definition bufdump :: "kst \<Rightarrow> call list" where
  "bufdump s =
     ([10] @ lit ''dev'' @ [9] @ lit ''block'' @ [9] @ lit ''dirty'' @ [9] @ lit ''busy'' @ [9] @ lit ''time clock %d'' @ [10],
       [VInt (bufclock s)]) #
     map (\<lambda>j. (lit ''%d'' @ [9] @ lit ''%u'' @ [9] @ lit ''%d'' @ [9] @ lit ''%d'' @ [9] @ lit ''%u'' @ [10],
       [vbyte (bf_dev j), VInt (bf_blk j), vbyte (bf_dirty j), vbyte (bf_busy j), VInt (bf_time j)])) (bufpool s)"

text \<open>The distance of a pointer from the start of its table, in entries of \<open>sz\<close> bytes.\<close>

definition ptr_index :: "u16 \<Rightarrow> int \<Rightarrow> nat option \<Rightarrow> varg" where
  "ptr_index table sz p = (case p of Some i \<Rightarrow> vint (int i) | None \<Rightarrow> vint (sint (- table) sdiv sz))"

text \<open>The lines for the processes: the loop stops behind the first one without a parent.\<close>

fun dump_until_orphan :: "(p_tab \<Rightarrow> call) \<Rightarrow> p_tab list \<Rightarrow> call list" where
  "dump_until_orphan f [] = []"
| "dump_until_orphan f (p # ps) = f p # (if p_pptr p = None then [] else dump_until_orphan f ps)"

text \<open>The fields of a line, separated by tabs.\<close>

fun tabs :: "string list \<Rightarrow> cstr" where
  "tabs [] = []"
| "tabs [w] = lit w @ [10]"
| "tabs (w # ws) = lit w @ [9] @ tabs ws"

definition idump_inode :: "kst \<Rightarrow> nat \<Rightarrow> call" where
  "idump_inode s i = (let c = i_tab s ! i in
     (tabs [''%d'', ''%d'', ''%d'', ''%u'', ''0%o'', ''%d'', ''%d'', ''%d'', ''%d''],
      [vint (int i), VInt (c_magic c), vint (c_dev c), VInt (c_num c), VInt (i_mode (c_node c)),
       VInt (i_nlink (c_node c)), VInt (i_addr (c_node c) ! 0), vbyte (c_refs c), vbyte (c_dirty c)]))"

definition idump_proc :: "kst \<Rightarrow> p_tab \<Rightarrow> call" where
  "idump_proc s p =
     (tabs [''%d'', ''%d'', ''0x%x'', ''%d'', ''%d'', ''%d'', ''0x%x'', ''0x%x''],
      [vint (int (p_status p)), VInt (p_wait p), vint (p_pid p), ptr_index (at_ptab (lnk s)) 49 (p_pptr p),
       VInt (p_alarm p), VInt (p_pending p), VInt (p_ignored p)])"

text \<open>The first argument of a line is the number of the entry.\<close>

definition idump :: "kst \<Rightarrow> call list" where
  "idump s =
     (tabs [[], ''MAGIC'', ''DEV'', ''NUM'', ''MODE'', ''NLINK'', ''(DEV)'', ''REFS'', ''DIRTY err %d root %d''],
       [vint (u_error (udata s)), ptr_index (at_i_tab (lnk s)) 72 (root s)]) #
     map (idump_inode s) [0..<ITABSIZE] @
     ([10] @ tabs [[], ''STAT'', ''WAIT'', ''PID'', ''PPTR'', ''ALARM'', ''PENDING'', ''IGNORED''], []) #
     map (\<lambda>(k, call). (fst call, vint (int k) # snd call)) (enumerate 0 (dump_until_orphan (idump_proc s) (ptab s))) @
     bufdump s @
     [([10] @ lit ''insys %d ptab %d call %d cwd %d sp 0x%x'' @ [10],
       [vint (if u_insys (udata s) then 1 else 0), vint (int (u_ptab (udata s))), vint (int (u_callno (udata s))),
        ptr_index (at_i_tab (lnk s)) 72 (u_cwd (udata s)), VInt (u_sp (udata s))])]"

definition dump_proc :: "kst \<Rightarrow> p_tab \<Rightarrow> call" where
  "dump_proc s p = (lit ''P %d U %d T %x r %x A %x X %d W %x R %d S %x I %x'' @ [10],
     [vint (p_pid p), VInt (p_uid p), vint (int (p_status p)),
      VInt (case p_pptr p of Some i \<Rightarrow> ptab_ptr s i | None \<Rightarrow> 0),
      VInt (p_alarm p), VInt (p_exitval p), VInt (p_wait p), VInt (p_priority p), VInt (p_pending p), VInt (p_ignored p)])"

section \<open>What is formatted\<close>

lemma strcpy_idx_append: "strcpy_idx (a @ b) s = a @ strcpy_idx b s"
  by (simp add: strcpy_idx_def)

lemma vsprintf_append: "vsprintf (a @ str) fmt ap = map_option (\<lambda>out. a @ out) (vsprintf str fmt ap)"
  by (induction str fmt ap rule: vsprintf.induct)
    (auto simp: Let_def strcpy_idx_append split: option.split list.split varg.split)

lemma digit_char_nonzero: "d < 16 \<Longrightarrow> digit_char d \<noteq> 0"
proof -
  assume "d < 16"
  then have "d \<in> set [0..<16]" by simp
  then show ?thesis by (auto simp: upt_rec digit_char_def)
qed

lemma itob_loop_nonzero: "2 \<le> base \<Longrightarrow> base \<le> 16 \<Longrightarrow> 0 \<notin> set (itob_loop base n)"
proof (induction base n rule: itob_loop.induct)
  case (1 base n)
  have "n mod base < base" using 1(2) by simp
  then have "n mod base < 16" using 1(3) by linarith
  then have "digit_char (n mod base) \<noteq> 0" by (rule digit_char_nonzero)
  then show ?case using 1 by (subst itob_loop.simps) auto
qed

lemma itob_digits:
  assumes "conv_base c = Some b"
  shows "0 \<notin> set (itob n b)" "length (itob n b) \<le> 17"
proof -
  define base where "base = nat (if b < 0 then - b else b)"
  define m where "m = unat (if sint n < 0 \<and> base = 10 then - n else n)"
  have b: "2 \<le> base" "base \<le> 16" using assms by (auto simp: base_def conv_base_def split: if_splits)
  have s: "itob n b = rev (if b < 0 \<and> sint n < 0 then itob_loop base m @ [45] else itob_loop base m)"
    by (simp add: itob_def Let_def reverse_rev base_def m_def)
  show "0 \<notin> set (itob n b)" using itob_loop_nonzero[OF b, of m] by (simp add: s)
  have "m < 2 ^ Suc 15" unfolding m_def by simp
  also have "(2 :: nat) ^ Suc 15 \<le> base ^ Suc 15" using b(1) by (rule power_mono) simp
  finally have "length (itob_loop base m) \<le> Suc 15" by (rule itob_loop_length[OF b(1)])
  then show "length (itob n b) \<le> 17" by (simp add: s)
qed

lemma takeWhile_nonzero: "(0 :: byte) \<notin> set s \<Longrightarrow> takeWhile (\<lambda>c. c \<noteq> 0) s = s"
  by (simp add: takeWhile_eq_all_conv) metis

text \<open>A format put together from pieces: text, a number, a character, a string.\<close>

datatype piece = Text "byte list" | Num byte u16 | Chr byte | Str cstr

definition piece_ok :: "piece \<Rightarrow> bool" where
  "piece_ok p = (case p of Text t \<Rightarrow> 0 \<notin> set t \<and> 37 \<notin> set t | Num c n \<Rightarrow> conv_base c \<noteq> None | _ \<Rightarrow> True)"

definition piece_fmt :: "piece \<Rightarrow> byte list" where
  "piece_fmt p = (case p of Text t \<Rightarrow> t | Num c n \<Rightarrow> [37, c] | Chr c \<Rightarrow> [37, 99] | Str s \<Rightarrow> [37, 115])"

definition piece_args :: "piece \<Rightarrow> varg list" where
  "piece_args p = (case p of Text t \<Rightarrow> [] | Num c n \<Rightarrow> [VInt n] | Chr c \<Rightarrow> [VChar c] | Str s \<Rightarrow> [VStr s])"

definition piece_out :: "piece \<Rightarrow> byte list" where
  "piece_out p = (case p of Text t \<Rightarrow> t | Num c n \<Rightarrow> itob n (the (conv_base c))
    | Chr c \<Rightarrow> if c = 0 then [] else [c] | Str s \<Rightarrow> takeWhile (\<lambda>c. c \<noteq> 0) s)"

lemma vsprintf_text: "0 \<notin> set t \<Longrightarrow> 37 \<notin> set t \<Longrightarrow> vsprintf str (t @ fmt) ap = vsprintf (str @ t) fmt ap"
  by (induction t arbitrary: str) (auto simp: strcpy_idx_def)

lemma vsprintf_piece:
  assumes "piece_ok p"
  shows "vsprintf str (piece_fmt p @ fmt) (piece_args p @ ap) = vsprintf (str @ piece_out p) fmt ap"
proof (cases p)
  case (Text t)
  then show ?thesis using assms vsprintf_text by (simp add: piece_ok_def piece_fmt_def piece_args_def piece_out_def)
next
  case (Num c n)
  then obtain b where b: "conv_base c = Some b" using assms by (auto simp: piece_ok_def)
  then have "c \<noteq> 99" "c \<noteq> 115" by (auto simp: conv_base_def split: if_splits)
  then show ?thesis
    using Num b by (simp add: piece_fmt_def piece_args_def piece_out_def strcpy_idx_def takeWhile_nonzero itob_digits(1)[OF b])
qed (simp_all add: piece_fmt_def piece_args_def piece_out_def strcpy_idx_def)

text \<open>
  \<open>sprintf\<close> of a format put together from pieces gives what the pieces stand for, one
  after the other: text as it is, numbers in the base of their letter, characters and strings.
\<close>

theorem sprintf_pieces:
  assumes "\<forall>p\<in>set ps. piece_ok p"
  shows "sprintf (concat (map piece_fmt ps)) (concat (map piece_args ps)) = Some (concat (map piece_out ps))"
proof -
  have "vsprintf str (concat (map piece_fmt ps)) (concat (map piece_args ps)) = Some (str @ concat (map piece_out ps))" for str
    using assms by (induction ps arbitrary: str) (simp_all add: vsprintf_piece)
  then show ?thesis by (simp add: sprintf_def)
qed

theorem sprintf_pieces_witness:
  "sprintf [112, 105, 100, 61, 37, 117, 58, 37, 115, 37, 99] [VInt 7, VStr [97, 98, 0, 99], VChar 33] =
     Some ([112, 105, 100, 61] @ itob 7 10 @ [58, 97, 98, 33])"
  using sprintf_pieces[of "[Text [112, 105, 100, 61], Num 117 7, Text [58], Str [97, 98, 0, 99], Chr 33]"]
  by (simp add: piece_ok_def piece_fmt_def piece_args_def piece_out_def conv_base_def)

section \<open>Messages on the screen\<close>

text \<open>What reaches the screen: a line feed becomes a carriage return, a tab ten marks.\<close>

definition console_text :: "byte list \<Rightarrow> byte list" where
  "console_text s = concat (map (\<lambda>c. if c = 10 then [13] else if c = 9 then replicate 10 127 else [c]) (takeWhile (\<lambda>c. c \<noteq> 0) s))"

lemma ppu_puts_append: "0 \<notin> set a \<Longrightarrow> ppu_puts hw (a @ b) = thenK (ppu_puts hw a) (ppu_puts hw b)"
  by (induction a) (auto simp: fun_eq_iff run_simps split: outcome.split)

lemma ppu_puts_forK: "0 \<notin> set a \<Longrightarrow> ppu_puts hw a = forK a (ppu_putc hw)"
  by (induction a) auto

lemma puts_console: "puts hw s = ppu_puts hw (console_text s)"
proof -
  have "forK a (kputchar hw) = ppu_puts hw (concat (map (\<lambda>c. if c = 10 then [13] else if c = 9 then replicate 10 127 else [c]) a))"
    if "0 \<notin> set a" for a
    using that
  proof (induction a)
    case (Cons c a)
    have k: "kputchar hw c = ppu_puts hw (if c = 10 then [13] else if c = 9 then replicate 10 127 else [c])"
      using Cons.prems by (auto simp: kputchar_def ppu_puts_forK fun_eq_iff run_simps split: outcome.split)
    show ?case using Cons by (simp add: k ppu_puts_append[symmetric])
  qed simp
  moreover have "0 \<notin> set (takeWhile (\<lambda>c. c \<noteq> 0) s)" by (auto dest: set_takeWhileD)
  ultimately show ?thesis by (simp add: puts_def console_text_def)
qed

lemma console_text_nonzero: "0 \<notin> set (console_text s)"
  by (auto simp: console_text_def dest: set_takeWhileD split: if_splits)

text \<open>
  a message whose text stays above row 29 is printed: \<open>kprintf\<close> returns with a descriptor
  queued for every character of the formatted text, at the cell where the text puts it.
\<close>

theorem kprintf_cells:
  assumes "sprintf fmt ap = Some out" "length out < 896" "screen_at s p" "writes_only s pend"
    and "\<forall>n \<le> length (console_text out). foldl advance p (take n (console_text out)) < 928"
  shows "wp (kprintf hw fmt ap) (\<lambda>_ t. ppu_run hw s (map cell_entry (cells p (console_text out))) t \<and>
     screen_at t (foldl advance p (console_text out)) \<and> (\<exists>pend'. writes_only t pend')) s"
  using puts_cells[OF assms(3,4) console_text_nonzero assms(5)] assms(1,2)
  by (simp add: kprintf_def print_buffer_def puts_console)

theorem kprintf_cells_witness:
  "wp (kprintf (\<lambda>_. 0) [120, 61, 37, 120, 10] [VInt 0x1f]) (\<lambda>_ t. ppu_run (\<lambda>_. 0) empty_queue
     (map cell_entry [(32, 120), (33, 61), (34, 49), (35, 102)]) t \<and> screen_at t 64) empty_queue"
proof -
  have "itob 0x1f 16 = [49, 102]"
    by (simp add: itob_def Let_def reverse_rev itob_loop.simps digit_char_def sint_small)
  then have f: "sprintf [120, 61, 37, 120, 10] [VInt 0x1f] = Some [120, 61, 49, 102, 10]"
    by (simp add: sprintf_def strcpy_idx_def conv_base_def)
  have c: "console_text [120, 61, 49, 102, 10] = [120, 61, 49, 102, 13]" by (simp add: console_text_def)
  show ?thesis
    by (rule wp_mono[OF kprintf_cells[OF f _ empty_screen]]) (auto simp: c advance_def le_Suc_eq)
qed

text \<open>\<open>panic\<close> with the lock of the PPU held, as \<open>ppu_lock\<close> calls it: its text goes nowhere.\<close>

lemma kpanic_locked:
  assumes "ppu_locked s" "\<not> inint s"
  shows "kpanic hw fmt ap s = Halt (Panic ''ppu deadlock'')"
proof -
  have q: "queue_loop hw (Suc n) d data s = Halt (Panic ''ppu deadlock'')" for n d data
    using assms by (simp add: run_simps try_queue_descriptor_def Let_def ppu_lock_def)
  have q2: "queue_loop hw 2 d data s = Halt (Panic ''ppu deadlock'')" for d data
    by (subst numeral_2_eq_2) (rule q)
  have "ppu_putc hw 80 s = Halt (Panic ''ppu deadlock'')"
    by (simp add: ppu_putc_def run_simps queue_descriptor_def q2 del: queue_loop.simps)
  moreover have "lit ''PANIC: '' = [80, 65, 78, 73, 67, 58, 32]" by (simp add: lit_def)
  ultimately show ?thesis by (simp add: kpanic_def run_simps puts_def kputchar_def)
qed

end
