(* ===== verification/Machine.thy ===== *)
theory Machine
  imports Clock Exec Messages
begin

text \<open>
  The kernel's data and the screen together: the interrupt of \<open>kernel/interrupts.S\<close>,
  \<open>handle_irq\<close> of \<open>kernel/interrupts.c\<close> and \<open>start_kernel\<close> of \<open>kernel/machdep.c\<close>. The routines
  of the kernel work on the one part, those of \<open>ppu\<close> and the messages on the other.
\<close>

record machine =
  kern :: kst
  screen :: ppu_st
  nr_apu_irqs :: int
  break_addr :: u16
  break_state :: u16
  apu_status_byte :: byte

definition on_kern :: "'a k \<Rightarrow> (machine, 'a) kop" where
  "on_kern f = (\<lambda>m. case f (kern m) of
      Ret a k \<Rightarrow> Ret a (m\<lparr>kern := k\<rparr>) | Halt h \<Rightarrow> Halt h | Switch k \<Rightarrow> Switch (m\<lparr>kern := k\<rparr>))"

definition on_screen :: "'a pk \<Rightarrow> (machine, 'a) kop" where
  "on_screen f = (\<lambda>m. case f (screen m) of
      Ret a p \<Rightarrow> Ret a (m\<lparr>screen := p\<rparr>) | Halt h \<Rightarrow> Halt h | Switch p \<Rightarrow> Switch (m\<lparr>screen := p\<rparr>))"

section \<open>Interrupts\<close>

text \<open>\<open>user\<close> stands for the user's signal handlers, \<open>hw\<close> for what the PPU answers.\<close>

definition handle_irq :: "(ppu_io list \<Rightarrow> byte) \<Rightarrow> (u16 \<Rightarrow> nat \<Rightarrow> unit k) \<Rightarrow> (machine, unit) kop" where
  "handle_irq hw user = doK [
     bindK (getK (\<lambda>m. (break_addr m, break_state m))) (\<lambda>(a, st). whenK (a \<noteq> 0)
       (on_screen (kpanic hw (lit ''break @ %x (%d)'' @ [10]) [VInt a, VInt st]))),
     bindK (getK apu_status_byte) (\<lambda>b.
       if b AND 0x40 \<noteq> 0 then thenK (modK (\<lambda>m. m\<lparr>nr_apu_irqs := nr_apu_irqs m + 1\<rparr>)) (on_kern clk_int)
       else on_screen (kpanic hw (lit ''spurious IRQ'') [])),
     on_screen (modK (\<lambda>p. p\<lparr>inint := False\<rparr>)),
     bindK (getK (\<lambda>m. u_insys (udata (kern m)))) (\<lambda>insys. whenK (\<not> insys) (on_kern (calltrap user)))]"

text \<open>
  The interrupt itself: within another one it loops; \<open>status\<close> is what \<open>APU_STATUS\<close> holds.
  What \<open>end_interrupt\<close> restores is the zero that was found.
\<close>

definition irq :: "(ppu_io list \<Rightarrow> byte) \<Rightarrow> (u16 \<Rightarrow> nat \<Rightarrow> unit k) \<Rightarrow> byte \<Rightarrow> (machine, unit) kop" where
  "irq hw user status = bindK (getK (\<lambda>m. inint (screen m))) (\<lambda>i. if i then haltK Diverges else doK [
     on_screen (modK (\<lambda>p. p\<lparr>inint := True\<rparr>)),
     modK (\<lambda>m. m\<lparr>apu_status_byte := status\<rparr>),
     handle_irq hw user,
     on_screen (modK (\<lambda>p. p\<lparr>inint := False\<rparr>))])"

section \<open>Start\<close>

definition start_kernel :: "byte list \<Rightarrow> (kst \<Rightarrow> kst) \<Rightarrow> u16 \<Rightarrow> (machine, unit) kop" where
  "start_kernel font tick bootchar = doK [
     on_screen (init_ppu font),
     on_kern (upd_ud (\<lambda>u. u\<lparr>u_insys := True\<rparr>)),
     on_kern (init2 tick bootchar)]"

section \<open>Lemmas\<close>

lemma wp_on_kern [simp]: "wp (on_kern f) Q = (\<lambda>m. wp f (\<lambda>a k. Q a (m\<lparr>kern := k\<rparr>)) (kern m))"
  by (simp add: wp_def on_kern_def fun_eq_iff split: outcome.split)

lemma wp_on_screen [simp]: "wp (on_screen f) Q = (\<lambda>m. wp f (\<lambda>a p. Q a (m\<lparr>screen := p\<rparr>)) (screen m))"
  by (simp add: wp_def on_screen_def fun_eq_iff split: outcome.split)

text \<open>The clock after \<open>c\<close> interrupts since the last whole second.\<close>

definition clock_at :: "nat \<Rightarrow> kst \<Rightarrow> bool" where
  "clock_at c s \<longleftrightarrow> c < 70 \<and> clk_int_count s = of_nat (c mod 7) \<and> sec s = int (c div 7) \<and>
     length (ptab s) = PTABSIZE \<and> (u_insys (udata s) \<or> u_cursig (udata s) = 0)"

lemma clk_tick_frame:
  assumes "length (ptab s) = PTABSIZE"
  shows "wp clk_tick (\<lambda>_ t. clk_int_count t = clk_int_count s \<and> sec t = (if sec s + 1 = TICKSPERSEC then 0 else sec s + 1) \<and>
     ptab t = (if sec s + 1 = TICKSPERSEC then map alarm_entry (ptab s) else ptab s) \<and>
     u_insys (udata t) = u_insys (udata s) \<and> u_cursig (udata t) = u_cursig (udata s)) s"
  using assms
  by (simp add: clk_tick_def clk_second_def rdtod_def wp_def run_simps upd_ud_def alarm_loop)

lemma clk_int_at:
  assumes "clock_at c s"
  shows "wp clk_int (\<lambda>_ t. clock_at ((c + 1) mod 70) t \<and> ptab t = (if c = 69 then map alarm_entry (ptab s) else ptab s) \<and>
     u_insys (udata t) = u_insys (udata s) \<and> u_cursig (udata t) = u_cursig (udata s)) s"
proof -
  define q r where "q = c div 7" and "r = c mod 7"
  have c: "c = 7 * q + r" "r < 7" "q < 10" using assms by (simp_all add: q_def r_def clock_at_def less_mult_imp_div_less)
  have s: "clk_int_count s = of_nat r" "sec s = int q" "length (ptab s) = PTABSIZE" "u_insys (udata s) \<or> u_cursig (udata s) = 0"
    using assms by (simp_all add: clock_at_def q_def r_def)
  have un: "unat (of_nat r :: u16) = r" using c(2) by (intro unat_of_small) simp
  show ?thesis
  proof (cases "r < 6")
    case True
    then have "(of_nat r :: u16) < 6" using un by (simp add: word_less_nat_alt)
    moreover have "(c + 1) mod 70 = 7 * q + (r + 1)" "c \<noteq> 69" using c True by simp_all
    moreover have "(7 * q + (r + 1)) div 7 = q" "(7 * q + (r + 1)) mod 7 = r + 1" "7 * q + (r + 1) < 70"
      using True c(3) by simp_all
    ultimately show ?thesis using s by (simp add: clk_int_def clock_at_def add.commute)
  next
    case False
    then have r: "r = 6" using c(2) by simp
    let ?t = "s\<lparr>clk_int_count := 0, tick_count := tick_count s + 1\<rparr>"
    have ten: "int q + 1 = 10 \<longleftrightarrow> q = 9" by linarith
    define d where "d = (c + 1) mod 70"
    have d: "d mod 7 = 0 \<and> d div 7 = (if q = 9 then 0 else q + 1) \<and> d < 70 \<and> (c = 69 \<longleftrightarrow> q = 9)"
    proof (cases "q = 9")
      case True
      then show ?thesis using c r by (simp add: d_def)
    next
      case False
      then have "d = (q + 1) * 7" "(q + 1) * 7 < 70" using c r by (auto simp: d_def)
      then show ?thesis using False c(1) r by auto
    qed
    have clk: "clk_int s = clk_tick ?t"
      using s(1) r by (simp add: clk_int_def run_simps)
    have "wp clk_tick (\<lambda>_ t. clock_at d t \<and> ptab t = (if q = 9 then map alarm_entry (ptab s) else ptab s) \<and>
        u_insys (udata t) = u_insys (udata s) \<and> u_cursig (udata t) = u_cursig (udata s)) ?t"
      by (rule wp_mono[OF clk_tick_frame[of ?t]]) (use s ten d in \<open>auto simp: clock_at_def\<close>)
    then show ?thesis unfolding d_def[symmetric] using d by (simp add: wp_def clk)
  qed
qed

lemma irq_timer:
  assumes "clock_at c (kern m)" "break_addr m = 0" "\<not> inint (screen m)" "status AND 0x40 \<noteq> 0"
  shows "wp (irq hw user status) (\<lambda>_ m'. clock_at ((c + 1) mod 70) (kern m') \<and> break_addr m' = 0 \<and> screen m' = screen m \<and>
     ptab (kern m') = (if c = 69 then map alarm_entry (ptab (kern m)) else ptab (kern m))) m"
proof -
  have i: "screen m\<lparr>inint := False\<rparr> = screen m" using assms(3) by simp
  show ?thesis
    using assms by (auto simp: irq_def handle_irq_def calltrap_def clock_at_def i intro!: wp_mono[OF clk_int_at[OF assms(1)]])
qed

lemma irq_run:
  assumes "clock_at 0 (kern m)" "break_addr m = 0" "\<not> inint (screen m)" "\<forall>j. status j AND 0x40 \<noteq> 0"
  shows "wp (forK [0..<k] (\<lambda>j. irq hw user (status j))) (\<lambda>_ m'. clock_at (k mod 70) (kern m') \<and> break_addr m' = 0 \<and>
     screen m' = screen m \<and> ptab (kern m') = map (alarm_entry ^^ (k div 70)) (ptab (kern m))) m"
proof (induction k)
  case 0
  then show ?case using assms by (simp add: id_def[symmetric])
next
  case (Suc k)
  have a: "Suc k mod 70 = (k mod 70 + 1) mod 70" by (simp add: mod_Suc_eq)
  have b: "Suc k div 70 = (if k mod 70 = 69 then Suc (k div 70) else k div 70)"
    by (simp add: div_Suc mod_Suc)
  show ?case
    unfolding upt_Suc_append[OF le0] forK_append forK.simps wp_thenK wp_retK a b
    by (rule wp_mono[OF Suc.IH]) (use assms in \<open>auto intro!: wp_mono[OF irq_timer] simp: comp_def\<close>)
qed

text \<open>
  C36: an alarm of \<open>n\<close> seconds goes off with the interrupt number 70 \<open>n\<close> after a full second,
  through the counters of \<open>clk_int\<close> (seven interrupts for a tick, ten ticks for a second):
  SIGALRM is pending then and a sleeping process READY; after fewer interrupts the process has
  the state and the pending signals it had, and no interrupt prints anything or blocks.
\<close>

theorem alarm_interrupts:
  assumes "clock_at 0 (kern m)" "break_addr m = 0" "\<not> inint (screen m)" "\<forall>j. status j AND 0x40 \<noteq> 0"
    and "i < PTABSIZE" "p = ptab (kern m) ! i" "n = unat (p_alarm p)" "0 < n" "p_status p \<noteq> P_EMPTY"
    and "p_ignored p AND sigmask SIGALRM = 0"
  shows "wp (forK [0..<70 * n] (\<lambda>j. irq hw user (status j))) (\<lambda>_ m'. screen m' = screen m \<and>
       p_alarm (ptab (kern m') ! i) = 0 \<and> p_pending (ptab (kern m') ! i) = p_pending p OR sigmask SIGALRM \<and>
       (p_status p \<in> {P_PAUSE, P_WAIT, P_SLEEP} \<longrightarrow> p_status (ptab (kern m') ! i) = P_READY)) m \<and>
     (\<forall>k < 70 * n. wp (forK [0..<k] (\<lambda>j. irq hw user (status j))) (\<lambda>_ m'. screen m' = screen m \<and>
       p_pending (ptab (kern m') ! i) = p_pending p \<and> p_status (ptab (kern m') ! i) = p_status p) m)"
proof (intro conjI allI impI)
  have len: "length (ptab (kern m)) = PTABSIZE" using assms(1) by (simp add: clock_at_def)
  obtain j where j: "n = Suc j" using assms(8) by (cases n) auto
  have "unat (of_nat j :: u16) = j" using j assms(7) u16_lt[of "p_alarm p"] by (intro unat_of_small) linarith
  then have "unat (p_alarm p - of_nat j) = 1"
    using j assms(7) by (subst unat_sub) (simp_all add: word_le_nat_alt)
  then have "p_alarm p - of_nat j = 1" by (simp add: word_unat_eq_iff)
  then have it: "(alarm_entry ^^ n) p = ssig_entry SIGALRM (p\<lparr>p_alarm := 0\<rparr>)"
    using alarm_iter[of j p] j assms(7) by (simp add: alarm_entry_def)
  show "wp (forK [0..<70 * n] (\<lambda>j. irq hw user (status j))) (\<lambda>_ m'. screen m' = screen m \<and>
       p_alarm (ptab (kern m') ! i) = 0 \<and> p_pending (ptab (kern m') ! i) = p_pending p OR sigmask SIGALRM \<and>
       (p_status p \<in> {P_PAUSE, P_WAIT, P_SLEEP} \<longrightarrow> p_status (ptab (kern m') ! i) = P_READY)) m"
    by (rule wp_mono[OF irq_run[OF assms(1-4)]])
      (use len it assms(5,6,9,10) in \<open>auto simp: ssig_entry_def Let_def\<close>)
  fix k assume "k < 70 * n"
  then have "k div 70 < n" by (simp add: less_mult_imp_div_less mult.commute)
  then have e: "(alarm_entry ^^ (k div 70)) p = p\<lparr>p_alarm := p_alarm p - of_nat (k div 70)\<rparr>"
    using alarm_iter assms(7) by blast
  show "wp (forK [0..<k] (\<lambda>j. irq hw user (status j))) (\<lambda>_ m'. screen m' = screen m \<and>
       p_pending (ptab (kern m') ! i) = p_pending p \<and> p_status (ptab (kern m') ! i) = p_status p) m"
    by (rule wp_mono[OF irq_run[OF assms(1-4)]]) (use len e assms(5,6) in auto)
qed

theorem alarm_interrupts_witness:
  "wp (forK [0..<140] (\<lambda>_. irq (\<lambda>_. 0) (\<lambda>_ _. retK ()) 0x40)) (\<lambda>_ m'. p_status (ptab (kern m') ! 4) = P_READY)
     \<lparr>kern = bss\<lparr>ptab := (ptab bss)[4 := zero_proc\<lparr>p_status := P_PAUSE, p_alarm := 2\<rparr>]\<rparr>, screen = empty_queue,
       nr_apu_irqs = 0, break_addr = 0, break_state = 0, apu_status_byte = 0\<rparr>"
proof -
  define k where "k = bss\<lparr>ptab := (ptab bss)[4 := zero_proc\<lparr>p_status := P_PAUSE, p_alarm := 2\<rparr>]\<rparr>"
  define m where "m = \<lparr>kern = k, screen = empty_queue, nr_apu_irqs = 0, break_addr = 0, break_state = 0, apu_status_byte = 0\<rparr>"
  define p where "p = zero_proc\<lparr>p_status := P_PAUSE, p_alarm := 2\<rparr>"
  have c: "clock_at 0 (kern m)" "break_addr m = 0" "\<not> inint (screen m)" "p = ptab (kern m) ! 4"
    by (simp_all add: m_def k_def p_def clock_at_def bss_def empty_queue_def zero_udata_def)
  have p: "2 = unat (p_alarm p)" "p_status p = P_PAUSE" "p_ignored p AND sigmask SIGALRM = 0"
    by (simp_all add: p_def zero_proc_def)
  have "wp (forK [0..<70 * 2] (\<lambda>_. irq (\<lambda>_. 0) (\<lambda>_ _. retK ()) 0x40)) (\<lambda>_ m'. screen m' = screen m \<and>
      p_alarm (ptab (kern m') ! 4) = 0 \<and> p_pending (ptab (kern m') ! 4) = p_pending p OR sigmask SIGALRM \<and>
      (p_status p \<in> {P_PAUSE, P_WAIT, P_SLEEP} \<longrightarrow> p_status (ptab (kern m') ! 4) = P_READY)) m"
    by (rule alarm_interrupts[OF c(1-3) _ _ c(4) p(1) _ _ p(3), THEN conjunct1]) (simp_all add: p(2))
  then show ?thesis
    unfolding k_def[symmetric] m_def[symmetric] using p(2) by (auto elim!: wp_mono)
qed

text \<open>An interrupt within an interrupt, or one that is not the timer's, never returns.\<close>

lemma irq_nested: "inint (screen m) \<Longrightarrow> irq hw user status m = Halt Diverges"
  by (simp add: irq_def run_simps)

end
