(* ===== verification/Block_Map.thy ===== *)
theory Block_Map
  imports File_IO
begin

text \<open>
  What \<open>bmap\<close> and \<open>readi\<close> read. The block tree of a file - 18 direct blocks, one of 256 and one
  of 256 times 256 behind indirect blocks - is given as a function \<open>file_blk\<close> of the visible
  contents of the device; reading bytes of a regular file is compared with it.
\<close>

section \<open>Indices\<close>

lemma unat_take_bit_8: "unat (take_bit 8 (w :: u16)) = unat w mod 256"
proof -
  have "unat (take_bit 8 w) = take_bit 8 (unat w)" by (rule unsigned_take_bit_eq)
  also have "\<dots> = unat w mod 256" by (simp only: take_bit_eq_mod) simp
  finally show ?thesis .
qed

lemma and_ff: "w AND 0xff = take_bit 8 (w :: u16)"
proof -
  have "mask 8 = (0xff :: u16)" by (simp add: mask_eq_exp_minus_1)
  then show ?thesis by (simp only: take_bit_eq_mask)
qed

lemma unat_and_ff: "unat (w AND 0xff :: u16) = unat w mod 256"
  unfolding and_ff by (rule unat_take_bit_8)

lemma and_not_mask_eq_0: "w AND NOT (mask n) = 0 \<longleftrightarrow> take_bit n w = (w :: 'a :: len word)"
  by (auto simp: bit_eq_iff bit_simps)

lemma and_ff00: "w AND 0xff00 = (0 :: u16) \<longleftrightarrow> unat w < 256"
proof -
  have m: "(0xff00 :: u16) = NOT (mask 8)" by (simp add: mask_eq_exp_minus_1 not_eq_complement)
  have "w AND 0xff00 = 0 \<longleftrightarrow> take_bit 8 w = w"
    unfolding m by (rule and_not_mask_eq_0)
  also have "\<dots> \<longleftrightarrow> unat (take_bit 8 w) = unat w" by (simp only: word_unat_eq_iff)
  also have "\<dots> \<longleftrightarrow> unat w < 256" by (simp only: unat_take_bit_8 mod_eq_self_iff_div_eq_0) auto
  finally show ?thesis .
qed

lemma unat_drop_8: "unat (drop_bit 8 (w :: u16)) = unat w div 256"
proof -
  have "unat (drop_bit 8 w) = drop_bit 8 (unat w)" by (rule unat_drop_bit_eq)
  also have "\<dots> = unat w div 256" by (simp only: drop_bit_eq_div) simp
  finally show ?thesis .
qed

section \<open>bmap reads the tree\<close>

lemma cache_step_trans:
  assumes "cache_step s v t" and "cache_step t (bview t) u"
  shows "cache_step s v u"
  using assms buf_frame_trans[of s t u] busy_same_trans[of s t u] by (simp add: cache_step_def)

text \<open>
  The block of the device that holds block \<open>n\<close> of a file, \<open>NULLBLK\<close> for a hole; \<open>V\<close> gives the
  contents of the indirect blocks.
\<close>

definition or_null :: "u16 \<Rightarrow> u16" where
  "or_null w = (if w = 0 then NULLBLK else w)"

definition tree_word :: "(u16 \<Rightarrow> bytes) \<Rightarrow> u16 \<Rightarrow> nat \<Rightarrow> u16" where
  "tree_word V b k = (if b = 0 then 0 else word_at (V b) k)"

definition file_blk :: "(u16 \<Rightarrow> bytes) \<Rightarrow> cinode \<Rightarrow> nat \<Rightarrow> u16" where
  "file_blk V c n = (let a = i_addr (c_node c) in or_null
     (if n < 18 then a ! n
      else if n < 274 then tree_word V (a ! 18) (n - 18)
      else tree_word V (tree_word V (a ! 19) ((n - 274) div 256)) ((n - 274) mod 256)))"

text \<open>The indirect blocks on the way are real blocks nobody holds.\<close>

definition readable :: "kst \<Rightarrow> u16 \<Rightarrow> bool" where
  "readable s b \<longleftrightarrow> b = 0 \<or> unat b < 2048 \<and> \<not> held s b"

definition path_ok :: "kst \<Rightarrow> cinode \<Rightarrow> nat \<Rightarrow> bool" where
  "path_ok s c n \<longleftrightarrow> (let a = i_addr (c_node c) in
     (18 \<le> n \<and> n < 274 \<longrightarrow> readable s (a ! 18)) \<and>
     (274 \<le> n \<longrightarrow> readable s (a ! 19) \<and> readable s (tree_word (bview s) (a ! 19) ((n - 274) div 256))))"

lemma bmap_ind_read:
  "bmap_ind (Suc n) dev bn sh 1 nb = bindK (read_buf dev nb (\<lambda>b. word_at b (unat (drop_bit sh bn AND 0xff))))
     (\<lambda>nb'. if nb' \<noteq> 0 then bmap_ind n dev bn (sh - 8) 1 nb' else retK NULLBLK)"
  by (rule ext) (auto simp: read_buf_def run_simps Let_def split: outcome.splits)

lemma word_at_block_fun: "k < 256 \<Longrightarrow> block_fun (\<lambda>b. word_at b k)"
  unfolding block_fun_def word_at_def by (auto intro!: get16_cong)

lemma bmap_ind_1:
  assumes "buf_inv s" and "some_free s" and "unat nb < 2048" and "\<not> held s nb"
  shows "wp (bmap_ind (Suc 0) 0 bn sh 1 nb) (\<lambda>r t.
     r = or_null (word_at (bview s nb) (unat (drop_bit sh bn) mod 256)) \<and> cache_step s (bview s) t) s"
  unfolding bmap_ind_read wp_bindK
  by (rule wp_mono[OF read_buf_spec[OF assms(1,3,4,2)]])
    (auto simp: unat_and_ff or_null_def intro!: word_at_block_fun)

lemma bmap_ind_2:
  assumes inv: "buf_inv s" and "some_free s" and "unat nb < 2048" and "\<not> held s nb"
    and b: "b = word_at (bview s nb) (unat (drop_bit 8 bn) mod 256)" and r: "readable s b"
  shows "wp (bmap_ind (Suc (Suc 0)) 0 bn 8 1 nb) (\<lambda>r t.
     r = or_null (tree_word (bview s) b (unat bn mod 256)) \<and> cache_step s (bview s) t) s"
  unfolding bmap_ind_read[of "Suc 0"] wp_bindK
proof (rule wp_mono[OF read_buf_spec[OF assms(1,3,4,2)]])
  show "block_fun (\<lambda>b. word_at b (unat (drop_bit 8 bn AND 0xff)))"
    by (rule word_at_block_fun) (simp add: unat_and_ff)
  fix a t assume "a = word_at (bview s nb) (unat (drop_bit 8 bn AND 0xff)) \<and> cache_step s (bview s) t"
  then have a: "a = b" and st: "cache_step s (bview s) t" by (simp_all add: unat_and_ff b)
  note c = cache_stepD[OF st]
  show "wp (if a \<noteq> 0 then bmap_ind (Suc 0) 0 bn (8 - 8) 1 a else retK NULLBLK)
     (\<lambda>r t. r = or_null (tree_word (bview s) b (unat bn mod 256)) \<and> cache_step s (bview s) t) t"
  proof (cases "b = 0")
    case True
    then show ?thesis using a st by (simp add: or_null_def tree_word_def)
  next
    case False
    have ok: "unat b < 2048" "\<not> held t b"
      using r False busy_same_held[OF c(2)] by (auto simp: readable_def)
    have "wp (bmap_ind (Suc 0) 0 bn 0 1 b) (\<lambda>r t. r = or_null (tree_word (bview s) b (unat bn mod 256)) \<and>
        cache_step s (bview s) t) t"
    proof (rule wp_mono[OF bmap_ind_1[OF c(1) busy_same_free[OF c(2) assms(2)] ok]])
      fix r u assume A: "r = or_null (word_at (bview t b) (unat (drop_bit 0 bn) mod 256)) \<and> cache_step t (bview t) u"
      have "word_at (bview t b) (unat bn mod 256) = word_at (bview s b) (unat bn mod 256)"
        using c(15) ok by (intro block_funD[OF word_at_block_fun]) simp_all
      then show "r = or_null (tree_word (bview s) b (unat bn mod 256)) \<and> cache_step s (bview s) u"
        using A False cache_step_trans[OF st] by (simp add: tree_word_def)
    qed
    then show ?thesis using a False by simp
  qed
qed

lemma bmap_addr_read:
  "wp (bmap_addr ip k 1) Q s = Q (if i_addr (c_node (i_tab s ! ip)) ! k = 0 then None
     else Some (i_addr (c_node (i_tab s ! ip)) ! k)) s"
  by (simp add: bmap_addr_def Let_def)

lemma bmap_reads_tree_at:
  assumes inv: "buf_inv s" and free: "some_free s"
    and c: "c_dev (i_tab s ! ip) = 0" "getmode (i_tab s ! ip) \<noteq> F_BDEV"
    and path: "path_ok s (i_tab s ! ip) (unat bn)"
  shows "wp (bmap ip bn 1) (\<lambda>r t. r = file_blk (bview s) (i_tab s ! ip) (unat bn) \<and> cache_step s (bview s) t) s"
    (is "wp _ ?Q s")
proof -
  define c where "c = i_tab s ! ip"
  define a where "a = i_addr (c_node c)"
  define n where "n = unat bn"
  have refl: "cache_step s (bview s) s" using inv by (rule cache_step_refl)
  have lt18: "bn < 18 \<longleftrightarrow> n < 18" by (simp add: n_def word_less_nat_alt)
  consider "n < 18" | "18 \<le> n" "n < 274" | "274 \<le> n" by linarith
  then show ?thesis
  proof cases
    case 1
    then have "wp (bmap ip bn 1) ?Q s = ?Q (or_null (a ! n)) s"
      using lt18 assms(4) by (simp add: bmap_def bmap_addr_read or_null_def a_def c_def n_def)
    then show ?thesis using 1 refl by (simp add: file_blk_def a_def c_def n_def)
  next
    case 2
    have u: "unat (bn - 18) = n - 18" using 2 by (simp add: n_def unat_sub word_le_nat_alt)
    then have "(bn - 18) AND 0xff00 = 0" using 2 by (simp add: and_ff00)
    then have run: "wp (bmap ip bn 1) ?Q s =
      wp (case (if a ! 18 = 0 then None else Some (a ! 18)) of None \<Rightarrow> retK NULLBLK
          | Some nb \<Rightarrow> bmap_ind (Suc 0) 0 (bn - 18) 0 1 nb) ?Q s"
      using lt18 2 assms(3,4) by (simp add: bmap_def bmap_addr_read Let_def a_def c_def)
    have f: "file_blk (bview s) c n = or_null (tree_word (bview s) (a ! 18) (n - 18))"
      using 2 by (simp add: file_blk_def a_def)
    show ?thesis
    proof (cases "a ! 18 = 0")
      case True
      then show ?thesis unfolding run using refl f by (simp add: c_def n_def or_null_def tree_word_def)
    next
      case False
      then have ok: "unat (a ! 18) < 2048" "\<not> held s (a ! 18)"
        using path 2 by (auto simp: path_ok_def readable_def a_def c_def n_def Let_def)
      show ?thesis
        unfolding run using False wp_mono[OF bmap_ind_1[OF inv free ok, where bn = "bn - 18" and sh = 0], of ?Q] f 2
        by (simp add: u tree_word_def c_def n_def)
    qed
  next
    case 3
    have u: "unat (bn - 18) = n - 18" using 3 by (simp add: n_def unat_sub word_le_nat_alt)
    then have nz: "(bn - 18) AND 0xff00 \<noteq> 0" using 3 by (simp add: and_ff00)
    have u2: "unat (bn - 274) = n - 274" using 3 by (simp add: n_def unat_sub word_le_nat_alt)
    have lt: "(n - 274) div 256 < 256" using u16_lt[of bn] by (simp add: n_def div_less_iff_less_mult del: u16_lt)
    have run: "wp (bmap ip bn 1) ?Q s =
      wp (case (if a ! 19 = 0 then None else Some (a ! 19)) of None \<Rightarrow> retK NULLBLK
          | Some nb \<Rightarrow> bmap_ind (Suc (Suc 0)) 0 (bn - 18 - 256) 8 1 nb) ?Q s"
      using lt18 3 assms(3,4) nz
      by (simp add: bmap_def bmap_addr_read Let_def a_def c_def numeral_2_eq_2 del: bmap_ind.simps)
    have f: "file_blk (bview s) c n =
        or_null (tree_word (bview s) (tree_word (bview s) (a ! 19) ((n - 274) div 256)) ((n - 274) mod 256))"
      using 3 by (simp add: file_blk_def a_def Let_def)
    show ?thesis
    proof (cases "a ! 19 = 0")
      case True
      then show ?thesis unfolding run using refl f by (simp add: c_def n_def or_null_def tree_word_def)
    next
      case False
      define b where "b = tree_word (bview s) (a ! 19) ((n - 274) div 256)"
      have ok: "unat (a ! 19) < 2048" "\<not> held s (a ! 19)" "readable s b"
        using path 3 False by (auto simp: path_ok_def readable_def a_def c_def n_def Let_def b_def)
      have b: "b = word_at (bview s (a ! 19)) (unat (drop_bit 8 (bn - 18 - 256)) mod 256)"
        using False lt by (simp add: b_def tree_word_def unat_drop_8 u2)
      show ?thesis
        unfolding run using False wp_mono[OF bmap_ind_2[OF inv free ok(1,2) b ok(3)], of ?Q] f
        by (simp add: u2 c_def n_def b_def del: bmap_ind.simps)
    qed
  qed
qed

text \<open>
  C9: For reading, \<open>bmap\<close> is the reference lookup in the block tree of the file: direct
  blocks 0 to 17, 256 blocks behind the single and 65536 behind the double indirect block, holes
  anywhere in it giving \<open>NULLBLK\<close>. It changes nothing but which blocks are cached.
\<close>

theorem bmap_reads_tree:
  assumes inv: "buf_inv s" and free: "some_free s"
    and c: "c_dev (i_tab s ! ip) = 0" "getmode (i_tab s ! ip) \<noteq> F_BDEV"
    and path: "path_ok s (i_tab s ! ip) (unat bn)"
  shows "wp (bmap ip bn 1) (\<lambda>r t. r = file_blk (bview s) (i_tab s ! ip) (unat bn) \<and> cache_step s (bview s) t) s"
  by (rule bmap_reads_tree_at[OF assms])

text \<open>A regular file whose only address is that of its single indirect block, block 5.\<close>

definition one_file :: kst where
  "one_file = empty_cache\<lparr>i_tab := (i_tab empty_cache)[3 := zero_cinode\<lparr>c_node := zero_dinode\<lparr>i_mode := F_REG,
     i_addr := (replicate 20 0)[0 := 7, 18 := 5]\<rparr>\<rparr>]\<rparr>"

lemma one_file_ino: "i_tab one_file ! 3 = zero_cinode\<lparr>c_node := zero_dinode\<lparr>i_mode := F_REG,
     i_addr := (replicate 20 0)[0 := 7, 18 := 5]\<rparr>\<rparr>"
  by (simp add: one_file_def empty_cache_def bss_def)

lemma idle_one_file: "idle one_file"
  using idle_empty_cache by (simp add: one_file_def idle_def)

theorem bmap_reads_tree_witness:
  "wp (bmap 3 20 1) (\<lambda>r t. r = or_null (word_at (bview one_file 5) 2)) one_file"
proof (rule wp_mono[OF bmap_reads_tree[of one_file 3 20]])
  show "path_ok one_file (i_tab one_file ! 3) (unat (20 :: u16))"
    using idle_free[OF idle_one_file] by (simp add: path_ok_def readable_def one_file_ino)
qed (use idle_one_file idle_free[OF idle_one_file] in
    \<open>simp_all add: idle_def one_file_ino zero_cinode_def getmode_def file_blk_def tree_word_def\<close>)

section \<open>Reading a file\<close>

lemma buf_frame_mem:
  assumes "buf_frame s t"
  shows "buf_frame (s\<lparr>mem := m\<rparr>) (t\<lparr>mem := m\<rparr>)"
proof -
  obtain bp bc cr ub where "t = s\<lparr>bufpool := bp, bufclock := bc, chr_ram := cr, udata := (udata s)\<lparr>u_buf := ub\<rparr>\<rparr>"
    using assms unfolding buf_frame_def by auto
  then have "t\<lparr>mem := m\<rparr> = s\<lparr>mem := m\<rparr>\<lparr>bufpool := bp, bufclock := bc, chr_ram := cr,
      udata := (udata (s\<lparr>mem := m\<rparr>))\<lparr>u_buf := ub\<rparr>\<rparr>" by simp
  then show ?thesis by (rule buf_frameI)
qed

lemma wp_copy_out:
  assumes "0 \<le> sint off" and "unat off + unat amount \<le> 512"
  shows "wp (copy_out bp off amount) Q s =
     Q () (s\<lparr>mem := (\<lambda>a. if a - u_base (udata s) < amount
            then bf_data (bufpool s ! bp) (unat off + unat (a - u_base (udata s))) else mem s a)\<rparr>)"
proof -
  have "sint off = int (unat off)" using assms(2) by (intro sint_small) linarith
  moreover have "uint amount = int (unat amount)" by simp
  ultimately have "\<not> (sint off < 0 \<or> sint off + uint amount > 512)" using assms by linarith
  then show ?thesis by (simp add: copy_out_def wp_def)
qed

text \<open>The bytes a chunk delivers: of the block, or zeros for a hole.\<close>

definition blk_byte :: "(u16 \<Rightarrow> bytes) \<Rightarrow> u16 \<Rightarrow> nat \<Rightarrow> byte" where
  "blk_byte V b k = (if b = NULLBLK then 0 else V b k)"

definition copied :: "(nat \<Rightarrow> byte) \<Rightarrow> u16 \<Rightarrow> u16 \<Rightarrow> (u16 \<Rightarrow> byte) \<Rightarrow> u16 \<Rightarrow> byte" where
  "copied f base n m = (\<lambda>a. if a - base < n then f (unat (a - base)) else m a)"

lemma copied_cong:
  "(\<And>k. k < unat n \<Longrightarrow> f k = g k) \<Longrightarrow> copied f base n m = copied g base n m"
  by (auto simp: copied_def fun_eq_iff word_less_nat_alt)

lemma bf_busy_same: "bf_busy b = 0 \<Longrightarrow> b\<lparr>bf_busy := 0\<rparr> = b"
  by (cases b) simp

lemma brelse_unnamed:
  assumes "i < length (bufpool s)" and "bf_busy (bufpool s ! i) = 0"
  shows "brelse i s = Ret () s"
proof -
  have "(bufpool s)[i := (bufpool s ! i)\<lparr>bf_dirty := bf_dirty (bufpool s ! i) OR 0, bf_busy := 0\<rparr>] = bufpool s"
    using assms by (simp add: bf_busy_same)
  then show ?thesis using assms by (simp add: brelse_def bfree_def run_simps upd_buf_def)
qed

lemma fetch_copy:
  assumes inv: "buf_inv s" and free: "some_free s"
    and blk: "pblk = NULLBLK \<or> unat pblk < 2048 \<and> \<not> held s pblk"
    and fits: "0 \<le> sint off" "unat off + unat amount \<le> 512"
  shows "wp (if pblk \<noteq> NULLBLK then bindK (bread 0 pblk 0) derefK else zerobuf)
     (\<lambda>bp. wp (copy_out bp off amount) (\<lambda>_. wp (brelse bp) (\<lambda>_.
        cache_step (s\<lparr>mem := copied (\<lambda>k. blk_byte (bview s) pblk (unat off + k)) (u_base (udata s)) amount (mem s)\<rparr>)
          (bview s)))) s"
    (is "wp _ (\<lambda>bp. wp _ (\<lambda>_. wp _ (\<lambda>_. cache_step (s\<lparr>mem := ?m\<rparr>) _))) s")
proof -
  have mem: "(\<lambda>a. if a - u_base (udata t) < amount
            then bf_data (bufpool t ! bp) (unat off + unat (a - u_base (udata t))) else mem t a) = ?m"
    if "buf_frame s t" "\<forall>k<512. bf_data (bufpool t ! bp) k = blk_byte (bview s) pblk k" for t bp
  proof -
    have "u_base (udata t) = u_base (udata s)" "mem t = mem s"
      using that(1) unfolding buf_frame_def by auto
    then show ?thesis
      using that(2) fits by (auto simp: copied_def fun_eq_iff word_less_nat_alt)
  qed
  show ?thesis
  proof (cases "pblk = NULLBLK")
    case False
    then have b: "unat pblk < 2048" "\<not> held s pblk" using blk by auto
    have "wp (bread 0 pblk 0) (\<lambda>r. wp (derefK r) (\<lambda>bp. wp (copy_out bp off amount) (\<lambda>_. wp (brelse bp) (\<lambda>_.
        cache_step (s\<lparr>mem := ?m\<rparr>) (bview s))))) s"
    proof (rule wp_mono[OF bread_spec[OF inv b free, of 0]])
      fix r t assume "\<exists>i. r = Some i \<and> bread_post pblk (0 = (0 :: int)) s i t"
      then obtain i where r: "r = Some i" and post: "bread_post pblk True s i t" by auto
      note p = post[unfolded bread_post_def]
      have h: "holds t i pblk" and inv': "buf_inv t" and ag: "agrees t (bufpool t ! i)" using p by auto
      have data: "bf_data (bufpool t ! i) = bview t pblk"
        using h bview_cached[OF inv', of i] by (simp add: holds_def)
      let ?t = "t\<lparr>mem := ?m\<rparr>"
      have h': "holds ?t i pblk" and ag': "agrees ?t (bufpool ?t ! i)"
        using h ag by (simp_all add: holds_def agrees_def disk_block_def)
      have "wp (brelse i) (\<lambda>_. cache_step (s\<lparr>mem := ?m\<rparr>) (bview s)) ?t"
      proof (rule wp_mono[OF brelse_spec[OF _ h' ag']])
        show "buf_inv ?t" using inv' by simp
        fix u :: unit and w assume w: "release_post ?t i w"
        have "bview w c k = bview s c k" if "unat c < 2048" "k < 512" for c k
          using w p that by (cases "c = pblk") (simp_all add: release_post_def)
        moreover have "busy_same s w"
          using p w by (auto simp: busy_same_def release_post_def only_buf_def)
        moreover have "buf_frame (s\<lparr>mem := ?m\<rparr>) w"
          using buf_frame_mem[of s t ?m] p w buf_frame_trans unfolding release_post_def by blast
        ultimately show "cache_step (s\<lparr>mem := ?m\<rparr>) (bview s) w"
          using w by (simp add: cache_step_def release_post_def)
      qed
      moreover have "wp (copy_out i off amount) Q t = Q () ?t" for Q
        using wp_copy_out[OF fits, of i Q t] mem[of t i] p data False by (simp add: blk_byte_def)
      ultimately show "wp (derefK r) (\<lambda>bp. wp (copy_out bp off amount) (\<lambda>_. wp (brelse bp) (\<lambda>_.
        cache_step (s\<lparr>mem := ?m\<rparr>) (bview s)))) t" using r by simp
    qed
    then show ?thesis using False by simp
  next
    case True
    have "wp zerobuf (\<lambda>bp. wp (copy_out bp off amount) (\<lambda>_. wp (brelse bp) (\<lambda>_.
        cache_step (s\<lparr>mem := ?m\<rparr>) (bview s)))) s"
    proof (rule wp_mono[OF zerobuf_spec[OF inv free]])
      fix i t assume A: "i < NBUFS \<and> buf_inv t \<and> buf_frame s t \<and> only_buf i s t \<and>
       bf_busy (bufpool s ! i) = 0 \<and> bf_busy (bufpool t ! i) = 0 \<and> bf_dev (bufpool t ! i) = 255 \<and>
       same_view s t \<and> (\<forall>k<512. bf_data (bufpool t ! i) k = 0)"
      let ?t = "t\<lparr>mem := ?m\<rparr>"
      have "wp (copy_out i off amount) Q t = Q () ?t" for Q
        using wp_copy_out[OF fits, of i Q t] mem[of t i] A True by (simp add: blk_byte_def)
      moreover have "brelse i ?t = Ret () ?t"
        using A by (intro brelse_unnamed) (simp_all add: buf_inv_def)
      moreover have "busy_same s ?t" using A by (auto simp: busy_same_def only_buf_def)
      then have "cache_step (s\<lparr>mem := ?m\<rparr>) (bview s) ?t"
        using A buf_frame_mem[of s t ?m] by (simp add: cache_step_def same_view_def)
      ultimately show "wp (copy_out i off amount) (\<lambda>_. wp (brelse i) (\<lambda>_. cache_step (s\<lparr>mem := ?m\<rparr>) (bview s))) t"
        by (simp add: wp_def)
    qed
    then show ?thesis using True by simp
  qed
qed

end
