(* ===== verification/File_Read.thy ===== *)
theory File_Read
  imports Block_Map
begin

text \<open>
  Reading a regular file or directory (\<open>kernel/scall1.c\<close>: \<open>readi\<close>): the loop over the blocks
  against the bytes of the file, which \<open>file_byte\<close> takes from the block tree and the visible
  contents of the device.
\<close>

section \<open>The bytes of a file\<close>

definition file_byte :: "(u16 \<Rightarrow> bytes) \<Rightarrow> cinode \<Rightarrow> nat \<Rightarrow> byte" where
  "file_byte V c n = blk_byte V (file_blk V c (n div 512)) (n mod 512)"

text \<open>Block \<open>n\<close> of the file and the indirect blocks on the way to it are blocks of the device.\<close>

definition good_blk :: "u16 \<Rightarrow> bool" where
  "good_blk b \<longleftrightarrow> b = NULLBLK \<or> unat b < 2048"

definition blk_ok :: "(u16 \<Rightarrow> bytes) \<Rightarrow> cinode \<Rightarrow> nat \<Rightarrow> bool" where
  "blk_ok V c n \<longleftrightarrow> (let a = i_addr (c_node c) in
     (18 \<le> n \<and> n < 274 \<longrightarrow> unat (a ! 18) < 2048) \<and>
     (274 \<le> n \<longrightarrow> unat (a ! 19) < 2048 \<and> unat (tree_word V (a ! 19) ((n - 274) div 256)) < 2048) \<and>
     good_blk (file_blk V c n))"

lemma path_ok_idle:
  assumes "idle s" and "blk_ok (bview s) c n"
  shows "path_ok s c n"
  using assms idle_free[OF assms(1)] by (simp add: path_ok_def blk_ok_def readable_def Let_def)

text \<open>Only the visible bytes of blocks of the device matter.\<close>

lemma word_at_view:
  assumes "\<And>c k. unat c < 2048 \<Longrightarrow> k < 512 \<Longrightarrow> V c k = W c k" and "unat b < 2048" and "k < 256"
  shows "word_at (V b) k = word_at (W b) k"
  unfolding word_at_def using assms by (intro get16_cong) simp_all

lemma file_blk_view:
  assumes v: "\<And>c k. unat c < 2048 \<Longrightarrow> k < 512 \<Longrightarrow> V c k = W c k" and n: "n < 65536" and ok: "blk_ok W c n"
  shows "file_blk V c n = file_blk W c n"
proof -
  let ?a = "i_addr (c_node c)"
  have t: "tree_word V b k = tree_word W b k" if "unat b < 2048" "k < 256" for b k
    using that word_at_view[of V W b k, OF v] by (simp add: tree_word_def)
  consider "n < 18" | "18 \<le> n" "n < 274" | "274 \<le> n" by linarith
  then show ?thesis
  proof cases
    case 2
    then have "tree_word V (?a ! 18) (n - 18) = tree_word W (?a ! 18) (n - 18)"
      using ok by (intro t) (simp_all add: blk_ok_def Let_def)
    then show ?thesis using 2 by (simp add: file_blk_def)
  next
    case 3
    have lt: "(n - 274) div 256 < 256" using n by (simp add: div_less_iff_less_mult)
    have e: "tree_word V (?a ! 19) ((n - 274) div 256) = tree_word W (?a ! 19) ((n - 274) div 256)"
      using ok 3 lt by (intro t) (simp_all add: blk_ok_def Let_def)
    have "tree_word V (tree_word W (?a ! 19) ((n - 274) div 256)) ((n - 274) mod 256) =
        tree_word W (tree_word W (?a ! 19) ((n - 274) div 256)) ((n - 274) mod 256)"
      using ok 3 by (intro t) (simp_all add: blk_ok_def Let_def)
    then show ?thesis using 3 e by (simp add: file_blk_def Let_def)
  qed (simp add: file_blk_def)
qed

lemma blk_ok_view:
  assumes v: "\<And>c k. unat c < 2048 \<Longrightarrow> k < 512 \<Longrightarrow> V c k = W c k" and n: "n < 65536" and ok: "blk_ok W c n"
  shows "blk_ok V c n"
proof -
  have "tree_word V (i_addr (c_node c) ! 19) ((n - 274) div 256) = tree_word W (i_addr (c_node c) ! 19) ((n - 274) div 256)"
    if "274 \<le> n"
  proof -
    have "(n - 274) div 256 < 256" using n by (simp add: div_less_iff_less_mult)
    then show ?thesis
      using ok that word_at_view[of V W "i_addr (c_node c) ! 19" "(n - 274) div 256", OF v]
      by (simp add: tree_word_def blk_ok_def Let_def)
  qed
  then show ?thesis
    using ok file_blk_view[OF v n ok] by (simp add: blk_ok_def Let_def)
qed

lemma file_byte_view:
  assumes v: "\<And>c k. unat c < 2048 \<Longrightarrow> k < 512 \<Longrightarrow> V c k = W c k" and n: "n div 512 < 65536" and ok: "blk_ok W c (n div 512)"
  shows "file_byte V c n = file_byte W c n"
proof -
  have e: "file_blk V c (n div 512) = file_blk W c (n div 512)" using v n ok by (rule file_blk_view)
  have "good_blk (file_blk W c (n div 512))" using ok by (simp add: blk_ok_def Let_def)
  then show ?thesis using v unfolding file_byte_def e by (auto simp: blk_byte_def good_blk_def)
qed

section \<open>Bytes delivered\<close>

text \<open>The state after \<open>n\<close> bytes have gone to the user's buffer and the position is \<open>p\<close>.\<close>

definition delivered :: "(nat \<Rightarrow> byte) \<Rightarrow> nat \<Rightarrow> uzi_off \<Rightarrow> kst \<Rightarrow> kst" where
  "delivered f n p s = s\<lparr>mem := copied f (u_base (udata s)) (of_nat n) (mem s),
     udata := (udata s)\<lparr>u_base := u_base (udata s) + of_nat n, u_offset := p\<rparr>\<rparr>"

lemma delivered_keeps [simp]:
  "i_tab (delivered f n p s) = i_tab s" "u_offset (udata (delivered f n p s)) = p"
  "u_base (udata (delivered f n p s)) = u_base (udata s) + of_nat n"
  "bview (delivered f n p s) = bview s" "idle (delivered f n p s) = idle s"
  "buf_inv (delivered f n p s) = buf_inv s" "busy_same (delivered f n p s) t = busy_same s t"
  by (simp_all add: delivered_def idle_def)

lemma delivered_0: "delivered f 0 (u_offset (udata s)) s = s"
  by (simp add: delivered_def copied_def)

lemma buf_frame_delivered:
  assumes "buf_frame s t"
  shows "buf_frame (delivered f n p s) (delivered f n p t)"
proof -
  obtain bp bc cr ub where "t = s\<lparr>bufpool := bp, bufclock := bc, chr_ram := cr, udata := (udata s)\<lparr>u_buf := ub\<rparr>\<rparr>"
    using assms unfolding buf_frame_def by auto
  then have "delivered f n p t = (delivered f n p s)\<lparr>bufpool := bp, bufclock := bc, chr_ram := cr,
      udata := (udata (delivered f n p s))\<lparr>u_buf := ub\<rparr>\<rparr>" by (simp add: delivered_def)
  then show ?thesis by (rule buf_frameI)
qed

lemma copied_append:
  assumes "a + n < 65536"
  shows "copied f (base + of_nat a) (of_nat n) (copied g base (of_nat a) m) =
     copied (\<lambda>k. if k < a then g k else f (k - a)) base (of_nat (a + n)) m"
proof (rule ext)
  fix x
  define d where "d = x - base"
  have e: "x - (base + of_nat a) = d - of_nat a" by (simp add: d_def algebra_simps)
  have u: "unat (of_nat a :: u16) = a" "unat (of_nat n :: u16) = n" "unat (of_nat (a + n) :: u16) = a + n"
    using assms by (simp_all only: unat_of_small)
  show "copied f (base + of_nat a) (of_nat n) (copied g base (of_nat a) m) x =
     copied (\<lambda>k. if k < a then g k else f (k - a)) base (of_nat (a + n)) m x"
  proof (cases "unat d < a")
    case True
    have "unat (d - of_nat a) = 65536 - (a - unat d)"
    proof -
      have "d - of_nat a = - of_nat (a - unat d)" using True by (simp add: of_nat_diff)
      moreover have k: "unat (of_nat (a - unat d) :: u16) = a - unat d"
        using assms by (intro unat_of_small) linarith
      moreover have "of_nat (a - unat d) \<noteq> (0 :: u16)" using True k by (metis unat_0 zero_less_diff less_irrefl)
      ultimately show ?thesis by (simp only: unat_neg_u16 if_False)
    qed
    then have "\<not> unat (d - of_nat a) < n" using True assms by linarith
    then show ?thesis
      using True u unfolding copied_def e d_def[symmetric] by (simp add: word_less_nat_alt del: of_nat_add)
  next
    case False
    then have "unat (d - of_nat a) = unat d - a" using u(1) by (subst unat_sub_le) simp_all
    moreover have "unat d - a < n \<longleftrightarrow> unat d < a + n" using False by linarith
    ultimately show ?thesis
      using False u unfolding copied_def e d_def[symmetric] by (simp add: word_less_nat_alt del: of_nat_add)
  qed
qed

lemma delivered_append:
  assumes "a + n < 65536"
  shows "delivered f n q (delivered g a p s) = delivered (\<lambda>k. if k < a then g k else f (k - a)) (a + n) q s"
  using copied_append[OF assms, of f "u_base (udata s)" g "mem s"]
  by (simp add: delivered_def add.assoc)

lemma delivered_cong:
  assumes "\<And>k. k < n \<Longrightarrow> f k = g k" and "n < 65536"
  shows "delivered f n p s = delivered g n p s"
  using copied_cong[of "of_nat n" f g] assms unat_of_small[of n] by (simp add: delivered_def)

lemma cache_step_delivered:
  assumes "cache_step s v t"
  shows "cache_step (delivered f n p s) v (delivered f n p t)"
  using assms buf_frame_delivered[of s t f n p] busy_same_indep
  by (simp add: cache_step_def) (simp add: delivered_def)

lemma cache_step_idle: "cache_step s v t \<Longrightarrow> idle s \<Longrightarrow> idle t"
  by (auto simp: cache_step_def idle_def busy_same_def)

section \<open>The loop\<close>

lemma file_byte_in_block:
  "x < 512 \<Longrightarrow> k < 512 - x \<Longrightarrow> file_byte V c (512 * b + x + k) = blk_byte V (file_blk V c b) (x + k)"
proof -
  assume "x < 512" "k < 512 - x"
  then have "512 * b + x + k = (x + k) + 512 * b" and "x + k < 512" by simp_all
  then have "(512 * b + x + k) div 512 = b" "(512 * b + x + k) mod 512 = x + k"
    by (simp_all only: div_mult_self2 mod_mult_self2) simp_all
  then show ?thesis by (simp add: file_byte_def)
qed

lemma ud_commute: "(u :: u_data)\<lparr>u_buf := a, u_base := b, u_offset := c\<rparr> = u\<lparr>u_base := b, u_offset := c, u_buf := a\<rparr>"
  by (cases u) simp

lemma read_chunk_spec:
  assumes idle: "idle s" and c: "c = i_tab s ! ino" "c_dev c = 0" "getmode c \<noteq> F_BDEV"
    and wf: "wf_off (u_offset (udata s))" and P: "P = off_pos (u_offset (udata s))"
    and ok: "blk_ok (bview s) c (P div 512)"
    and n: "0 < unat toread" "unat toread < 32768" "P + unat toread < 33554432"
  shows "wp (read_chunk ino 0 False toread) (\<lambda>r t. \<exists>a p. 0 < a \<and> a \<le> unat toread \<and>
      unat r = unat toread - a \<and> off_pos p = P + a \<and> wf_off p \<and>
      cache_step (delivered (\<lambda>k. file_byte (bview s) c (P + k)) a p s) (bview s) t) s"
    (is "wp _ ?Q s")
proof -
  define off where "off = u_offset (udata s)"
  define x where "x = unat (o_offset off)"
  define b where "b = unat (o_blkno off)"
  define am where "am = cmin toread (512 - o_offset off)"
  define a where "a = unat am"
  have x: "x < 512" "P = 512 * b + x" using wf P by (simp_all add: wf_off_def off_pos_def off_def x_def b_def)
  have div: "P div 512 = b" using x by simp
  have u: "unat (512 - o_offset off) = 512 - x" using x(1) by (subst unat_sub_le) (simp_all add: x_def)
  have s1: "sint toread = int (unat toread)" using n(2) by (rule sint_small)
  have "unat (512 - o_offset off) < 32768" unfolding u by linarith
  then have s2: "sint (512 - o_offset off) = int (512 - x)" using u by (simp only: sint_small)
  have a: "a = min (unat toread) (512 - x)"
    unfolding a_def am_def cmin_def s1 s2 by (simp only: of_nat_less_iff if_distrib[of unat] u min_def) auto
  have apos: "0 < a" "a \<le> unat toread" "x + a \<le> 512" using a n(1) x(1) by simp_all
  have sx: "0 \<le> sint (o_offset off)" using x(1) by (subst sint_small) (simp_all add: x_def)
  define p where "p = addoff am off"
  have "off_pos p = off_pos off + a \<and> wf_off p"
    unfolding p_def a_def using wf apos(2) n P by (intro addoff_forward) (simp_all add: off_def a_def)
  then have p: "off_pos p = P + a" "wf_off p" by (simp_all add: P off_def)
  have fetch: "wp (if pblk \<noteq> NULLBLK then bindK (bread 0 pblk 0) derefK else zerobuf)
      (\<lambda>bp. wp (copy_out bp (o_offset off) am) (\<lambda>_. wp (brelse bp) (\<lambda>_ t.
         ?Q (toread - am) (t\<lparr>udata := (udata t)\<lparr>u_base := u_base (udata t) + am, u_offset := addoff am (u_offset (udata t))\<rparr>\<rparr>)))) t0"
    if pb: "pblk = file_blk (bview s) c b" and st: "cache_step s (bview s) t0" for pblk t0
  proof (rule wp_mono[OF fetch_copy[of t0 pblk "o_offset off" am]])
    have it: "idle t0" using st idle by (rule cache_step_idle)
    then show "buf_inv t0" "some_free t0" using idle_free[OF it] by (simp_all add: idle_def)
    show "pblk = NULLBLK \<or> unat pblk < 2048 \<and> \<not> held t0 pblk"
      using ok idle_free[OF it] by (simp add: pb div blk_ok_def good_blk_def Let_def)
    show "0 \<le> sint (o_offset off)" "unat (o_offset off) + unat am \<le> 512"
      using sx apos(3) by (simp_all add: x_def a_def)
  next
    fix bp t1
    let ?m0 = "copied (\<lambda>k. blk_byte (bview t0) pblk (unat (o_offset off) + k)) (u_base (udata t0)) am (mem t0)"
    assume A: "wp (copy_out bp (o_offset off) am) (\<lambda>_. wp (brelse bp) (\<lambda>_. cache_step (t0\<lparr>mem := ?m0\<rparr>) (bview t0))) t1"
    have step: "?Q (toread - am) (t\<lparr>udata := (udata t)\<lparr>u_base := u_base (udata t) + am, u_offset := addoff am (u_offset (udata t))\<rparr>\<rparr>)"
      if t: "cache_step (t0\<lparr>mem := ?m0\<rparr>) (bview t0) t" for t
    proof -
      note d = cache_stepD[OF st] and e = cache_stepD[OF t]
      obtain ub where ub: "udata t = (udata s)\<lparr>u_buf := ub\<rparr>"
      proof -
        obtain u1 where "udata t0 = (udata s)\<lparr>u_buf := u1\<rparr>" using d(14) by auto
        moreover obtain u2 where "udata t = (udata t0)\<lparr>u_buf := u2\<rparr>" using e(14) by auto
        ultimately show ?thesis using that[of u2] by simp
      qed
      let ?f = "\<lambda>k. file_byte (bview s) c (P + k)"
      have m: "?m0 = copied ?f (u_base (udata s)) am (mem s)"
      proof -
        have "blk_byte (bview t0) pblk (unat (o_offset off) + k) = ?f k" if "k < a" for k
          using that apos(3) x ok d(15)[of pblk "x + k"] file_byte_in_block[OF x(1), of k "bview s" c b]
          by (auto simp: pb div blk_byte_def blk_ok_def good_blk_def Let_def x_def[symmetric])
        then show ?thesis using d(10,14) by (auto intro!: copied_cong simp: a_def)
      qed
      have fr: "buf_frame (s\<lparr>mem := ?m0\<rparr>) t"
        using buf_frame_trans[OF buf_frame_mem[OF d(16), of ?m0] e(16)] .
      then obtain bp bc cr ub' where tt: "t = s\<lparr>mem := ?m0\<rparr>\<lparr>bufpool := bp, bufclock := bc, chr_ram := cr,
          udata := (udata s)\<lparr>u_buf := ub'\<rparr>\<rparr>" unfolding buf_frame_def by auto
      let ?t = "t\<lparr>udata := (udata t)\<lparr>u_base := u_base (udata t) + am, u_offset := addoff am (u_offset (udata t))\<rparr>\<rparr>"
      have am': "of_nat a = am" by (simp add: a_def)
      have "buf_frame (delivered ?f a p s) ?t"
        by (rule buf_frameI[where bp = bp and bc = bc and cr = cr and ub = ub'])
          (simp only: tt m delivered_def am' p_def off_def[symmetric], simp add: off_def ud_commute)
      moreover have "busy_same s t" using busy_same_trans[OF d(2)] e(2) by simp
      moreover have "bview t b' k' = bview s b' k'" if "unat b' < 2048" "k' < 512" for b' k'
        using that e(15) d(15) by simp
      ultimately have "cache_step (delivered ?f a p s) (bview s) ?t"
        using e(1) by (simp add: cache_step_def)
      moreover have "unat (toread - am) = unat toread - a" using apos(2) unat_sub_le[of am toread] by (simp add: a_def)
      ultimately show ?thesis using apos p by blast
    qed
    show "wp (copy_out bp (o_offset off) am) (\<lambda>_. wp (brelse bp) (\<lambda>_ t.
         ?Q (toread - am) (t\<lparr>udata := (udata t)\<lparr>u_base := u_base (udata t) + am, u_offset := addoff am (u_offset (udata t))\<rparr>\<rparr>))) t1"
      by (rule wp_mono[OF A]) (rule wp_mono, assumption, rule step)
  qed
  have blk: "wp (bmap ino (o_blkno off) 1) (\<lambda>r t. r = file_blk (bview s) c b \<and> cache_step s (bview s) t) s"
    unfolding c(1) b_def
    using idle idle_free[OF idle] c path_ok_idle[OF idle, of c b] ok
    by (intro bmap_reads_tree_at) (simp_all add: idle_def div b_def)
  have "wp (bmap ino (o_blkno off) 1) (\<lambda>pblk. wp (if pblk \<noteq> NULLBLK then bindK (bread 0 pblk 0) derefK else zerobuf)
      (\<lambda>bp. wp (copy_out bp (o_offset off) am) (\<lambda>_. wp (brelse bp) (\<lambda>_ t.
         ?Q (toread - am) (t\<lparr>udata := (udata t)\<lparr>u_base := u_base (udata t) + am, u_offset := addoff am (u_offset (udata t))\<rparr>\<rparr>))))) s"
    by (rule wp_mono[OF blk], rule fetch) simp_all
  then show ?thesis
    by (simp add: read_chunk_def off_def[symmetric] am_def[symmetric] Let_def add_u_offset_def cong: if_cong)
qed

lemma read_loop_spec:
  assumes "idle s" and "c = i_tab s ! ino" and "c_dev c = 0" and "getmode c \<noteq> F_BDEV"
    and "wf_off (u_offset (udata s))" and "P = off_pos (u_offset (udata s))"
    and "\<And>q. P \<le> q \<Longrightarrow> q < P + unat toread \<Longrightarrow> blk_ok (bview s) c (q div 512)"
    and "unat toread \<le> fuel" and "unat toread < 32768" and "P + unat toread < 33554432"
  shows "wp (read_loop fuel ino 0 False toread) (\<lambda>_ t. \<exists>p. off_pos p = P + unat toread \<and> wf_off p \<and>
      cache_step (delivered (\<lambda>k. file_byte (bview s) c (P + k)) (unat toread) p s) (bview s) t) s"
  using assms
proof (induction fuel arbitrary: s toread P)
  case 0
  then have "toread = 0" by (simp add: unsigned_eq_0_iff)
  then show ?case
    using 0 cache_step_refl[of s] delivered_0[of "\<lambda>k. file_byte (bview s) c (P + k)" s]
    by (auto simp: idle_def intro!: exI[of _ "u_offset (udata s)"])
next
  case (Suc fuel)
  note A = Suc.prems
  let ?n = "unat toread" and ?V = "bview s" and ?f = "\<lambda>k. file_byte (bview s) c (P + k)"
  show ?case
  proof (cases "toread = 0")
    case True
    then show ?thesis
      using A cache_step_refl[of s] delivered_0[of ?f s]
      by (auto simp: idle_def intro!: exI[of _ "u_offset (udata s)"])
  next
    case False
    then have pos: "0 < ?n" by (simp add: unat_gt_0)
    have "wp (read_chunk ino 0 False toread) (\<lambda>r. wp (read_loop fuel ino 0 False r)
        (\<lambda>_ t. \<exists>p. off_pos p = P + ?n \<and> wf_off p \<and> cache_step (delivered ?f ?n p s) ?V t)) s"
    proof (rule wp_mono[OF read_chunk_spec[OF A(1-6) _ pos A(9,10)]])
      show "blk_ok ?V c (P div 512)" using A(7)[of P] pos by simp
      fix r :: u16 and s1 assume "\<exists>a p. 0 < a \<and> a \<le> ?n \<and> unat r = ?n - a \<and> off_pos p = P + a \<and> wf_off p \<and>
        cache_step (delivered ?f a p s) ?V s1"
      then obtain a p1 where a: "0 < a" "a \<le> ?n" "unat r = ?n - a" and p1: "off_pos p1 = P + a" "wf_off p1"
        and st: "cache_step (delivered ?f a p1 s) ?V s1" by blast
      note d = cache_stepD[OF st]
      have o: "u_offset (udata s1) = p1" "i_tab s1 = i_tab s" using d(4,14) by auto
      have v: "bview s1 b k = ?V b k" if "unat b < 2048" "k < 512" for b k using d(15)[OF that] .
      have lt: "q div 512 < 65536" if "q < P + ?n" for q using that A(10) by (simp add: div_less_iff_less_mult)
      have ok: "blk_ok ?V c (q div 512)" if "P + a \<le> q" "q < P + a + unat r" for q
        using A(7)[of q] that a by simp
      have ok1: "blk_ok (bview s1) c (q div 512)" if "P + a \<le> q" "q < P + a + unat r" for q
        by (rule blk_ok_view[OF v lt ok[OF that]]) (use that a in simp_all)
      have idle1: "idle s1" using cache_step_idle[OF st] A(1) by simp
      have cc: "c = i_tab s1 ! ino" using A(2) o(2) by simp
      show "wp (read_loop fuel ino 0 False r) (\<lambda>_ t. \<exists>p. off_pos p = P + ?n \<and> wf_off p \<and>
          cache_step (delivered ?f ?n p s) ?V t) s1"
      proof (rule wp_mono[OF Suc.IH[OF idle1 cc A(3,4), where P = "P + a"]])
        show "wf_off (u_offset (udata s1))" "P + a = off_pos (u_offset (udata s1))"
          "unat r \<le> fuel" "unat r < 32768" "P + a + unat r < 33554432"
          using o p1 a A by simp_all
        fix q assume "P + a \<le> q" "q < P + a + unat r"
        then show "blk_ok (bview s1) c (q div 512)" by (rule ok1)
      next
        fix x :: unit and t
        let ?g = "\<lambda>k. file_byte (bview s1) c (P + a + k)"
        assume "\<exists>p. off_pos p = P + a + unat r \<and> wf_off p \<and> cache_step (delivered ?g (unat r) p s1) (bview s1) t"
        then obtain p where p: "off_pos p = P + a + unat r" "wf_off p"
          and t: "cache_step (delivered ?g (unat r) p s1) (bview s1) t" by blast
        have g: "?g k = ?f (a + k)" if "k < unat r" for k
          using that a file_byte_view[OF v lt ok, of "P + a + k"] by (simp add: add.assoc)
        have "delivered ?g (unat r) p (delivered ?f a p1 s) = delivered ?f ?n p s"
        proof -
          have an: "a + unat r = ?n" using a by simp
          have "delivered ?g (unat r) p (delivered ?f a p1 s) = delivered (\<lambda>k. if k < a then ?f k else ?g (k - a)) (a + unat r) p s"
            using A(9) a by (intro delivered_append) simp
          also have "\<dots> = delivered ?f ?n p s"
          proof (unfold an, rule delivered_cong)
            fix k assume "k < ?n"
            then show "(if k < a then ?f k else ?g (k - a)) = ?f k"
              using g[of "k - a"] a by (cases "k < a") simp_all
          qed (use A(9) in simp)
          finally show ?thesis .
        qed
        then have "cache_step (delivered ?f ?n p s) ?V (delivered ?g (unat r) p s1)"
          using cache_step_delivered[OF st, of ?g "unat r" p] by simp
        moreover have "cache_step (delivered ?g (unat r) p s1) (bview (delivered ?g (unat r) p s1)) t"
          using t unfolding delivered_keeps .
        ultimately have "cache_step (delivered ?f ?n p s) ?V t" by (rule cache_step_trans)
        then show "\<exists>p. off_pos p = P + ?n \<and> wf_off p \<and> cache_step (delivered ?f ?n p s) ?V t"
        proof (intro exI[of _ p] conjI)
          show "off_pos p = P + ?n" using p(1) a by linarith
        qed (rule p(2))
      qed
    qed
    then show ?thesis using False by simp
  qed
qed

section \<open>readi\<close>

text \<open>How many bytes are left: the limit \<open>readi\<close> computes in 16 bits is the true one.\<close>

lemma read_limit_min:
  assumes wf: "wf_off (i_size (c_node c))" "wf_off (u_offset u)"
    and le: "off_pos (u_offset u) \<le> off_pos (i_size (c_node c))" and n: "unat (u_count u) \<le> 32256"
  shows "unat (read_limit c u) = min (unat (u_count u)) (off_pos (i_size (c_node c)) - off_pos (u_offset u))"
proof -
  define sb where "sb = unat (o_blkno (i_size (c_node c)))"
  define so where "so = unat (o_offset (i_size (c_node c)))"
  define ob where "ob = unat (o_blkno (u_offset u))"
  define oo where "oo = unat (o_offset (u_offset u))"
  define d where "d = o_blkno (i_size (c_node c)) - o_blkno (u_offset u)"
  have b: "so < 512" "oo < 512" "512 * ob + oo \<le> 512 * sb + so"
    using wf le by (simp_all add: wf_off_def off_pos_def so_def oo_def sb_def ob_def)
  have ob: "ob \<le> sb" using b by linarith
  then have d: "unat d = sb - ob" unfolding d_def sb_def ob_def by (rule unat_sub_le)
  let ?rest = "512 * sb + so - (512 * ob + oo)"
  have r: "off_pos (i_size (c_node c)) - off_pos (u_offset u) = ?rest"
    by (simp add: off_pos_def so_def oo_def sb_def ob_def)
  show ?thesis
  proof (cases "d \<ge> 64")
    case True
    then have "64 \<le> sb - ob" using d by (simp add: word_le_nat_alt)
    then have "32256 \<le> ?rest" using b by linarith
    then show ?thesis using n True unfolding r by (simp add: read_limit_def Let_def d_def[symmetric])
  next
    case False
    then have lt: "sb - ob < 64" using d by (simp add: word_le_nat_alt)
    let ?w = "512 * d + (o_offset (i_size (c_node c)) - o_offset (u_offset u))"
    have "?w = of_nat ?rest"
    proof -
      have "?w = 512 * of_nat (sb - ob) + (of_nat so - of_nat oo)"
        unfolding d[symmetric] by (simp add: so_def oo_def)
      also have "\<dots> = of_nat (512 * (sb - ob) + so) - of_nat oo" by simp
      also have "\<dots> = of_nat (512 * (sb - ob) + so - oo)"
        using b ob by (subst of_nat_diff) (linarith, rule refl)
      also have "512 * (sb - ob) + so - oo = ?rest" using ob by linarith
      finally show ?thesis .
    qed
    moreover have "?rest < 32768" using lt b ob by linarith
    ultimately have w: "unat ?w = ?rest" "sint ?w = int ?rest"
      by (simp_all only: unat_of_small sint_small)
    have s: "sint (u_count u) = int (unat (u_count u))" using n by (intro sint_small) linarith
    show ?thesis
      using False unfolding r read_limit_def Let_def d_def[symmetric] cmin_def s w
      by (simp only: if_False of_nat_less_iff if_distrib[of unat] w min_def) auto
  qed
qed

text \<open>
  How many bytes \<open>readi\<close> delivers of the \<open>n\<close> asked for, from position \<open>P\<close> of a file of \<open>len\<close>
  bytes. The blocks to the end are counted modulo 65536: where the end is 64 blocks or more ahead
  in this count - which it also is when it lies behind - nothing limits the transfer.
\<close>

definition read_amount :: "nat \<Rightarrow> nat \<Rightarrow> nat \<Rightarrow> nat" where
  "read_amount len P n =
     (let d = (len div 512 + 65536 - P div 512) mod 65536
      in if d \<ge> 64 then n else min n (512 * d + len mod 512 - P mod 512))"

text \<open>Within the file these are the bytes up to the end, or those asked for.\<close>

lemma read_amount_inside:
  assumes "P \<le> len" and "len < 33554432" and "n \<le> 32256"
  shows "read_amount len P n = min n (len - P)"
proof -
  define a where "a = len div 512"
  define b where "b = P div 512"
  define x where "x = len mod 512"
  define y where "y = P mod 512"
  have e: "len = 512 * a + x" "P = 512 * b + y" "x < 512" "y < 512" by (simp_all add: a_def b_def x_def y_def)
  have ab: "b \<le> a" "a < 65536" using e assms by linarith+
  then have "(a + 65536 - b) mod 65536 = a - b"
    by (metis Nat.add_diff_assoc2 le_add_diff_inverse2 less_imp_diff_less mod_add_self2 mod_less)
  moreover have "512 * (a - b) + x - y = len - P" using e(1,2) ab(1) by (simp add: diff_mult_distrib2)
  ultimately show ?thesis
    using e ab assms unfolding read_amount_def a_def[symmetric] b_def[symmetric] x_def[symmetric] y_def[symmetric] by (auto simp: Let_def)
qed

lemma off_pos_parts: "wf_off p \<Longrightarrow> off_pos p div 512 = unat (o_blkno p) \<and> off_pos p mod 512 = unat (o_offset p)"
  by (simp add: off_pos_def wf_off_def)

lemma unat_diff_u16: "unat (a - b :: u16) = (unat a + 65536 - unat b) mod 65536"
proof -
  have "(of_nat (unat a + 65536 - unat b) :: u16) = of_nat (unat a + 65536) - of_nat (unat b)"
    using u16_lt[of b] by (intro of_nat_diff) linarith
  then have "a - b = of_nat (unat a + 65536 - unat b)" by simp
  then show ?thesis by (simp only: unat_of_nat) simp
qed

lemma read_limit_amount:
  assumes wf: "wf_off (i_size (c_node c))" "wf_off (u_offset u)" and n: "unat (u_count u) < 32768"
    and ahead: "\<not> (o_blkno (u_offset u) = o_blkno (i_size (c_node c)) \<and> o_offset (i_size (c_node c)) < o_offset (u_offset u))"
  shows "unat (read_limit c u) = read_amount (off_pos (i_size (c_node c))) (off_pos (u_offset u)) (unat (u_count u))"
proof -
  let ?sz = "i_size (c_node c)" and ?off = "u_offset u"
  define d where "d = o_blkno ?sz - o_blkno ?off"
  note parts = off_pos_parts[OF wf(1)] off_pos_parts[OF wf(2)]
  have dn: "(off_pos ?sz div 512 + 65536 - off_pos ?off div 512) mod 65536 = unat d"
    by (simp only: parts d_def unat_diff_u16)
  have o: "unat (o_offset ?sz) < 512" "unat (o_offset ?off) < 512" using wf by (simp_all add: wf_off_def)
  show ?thesis
  proof (cases "d \<ge> 64")
    case True
    then have "64 \<le> unat d" by (simp add: word_le_nat_alt)
    then show ?thesis using True by (simp add: read_limit_def read_amount_def Let_def dn d_def[symmetric])
  next
    case False
    then have lt: "unat d < 64" by (simp add: word_le_nat_alt)
    let ?r = "512 * unat d + unat (o_offset ?sz) - unat (o_offset ?off)"
    have le: "unat (o_offset ?off) \<le> 512 * unat d + unat (o_offset ?sz)"
    proof (cases "d = 0")
      case True
      then have "\<not> o_offset ?sz < o_offset ?off" using ahead by (simp add: d_def)
      then show ?thesis by (simp add: word_less_nat_alt)
    next
      case False
      then have "0 < unat d" by (simp add: unat_gt_0)
      then show ?thesis using o by linarith
    qed
    have "512 * d + (o_offset ?sz - o_offset ?off) = of_nat ?r"
      using le by (simp add: of_nat_diff)
    moreover have "?r < 32768" using lt o by linarith
    ultimately have w: "unat (512 * d + (o_offset ?sz - o_offset ?off)) = ?r" "sint (512 * d + (o_offset ?sz - o_offset ?off)) = int ?r"
      by (simp_all only: unat_of_small sint_small)
    have s: "sint (u_count u) = int (unat (u_count u))" using n by (intro sint_small) linarith
    have "unat (read_limit c u) = min (unat (u_count u)) ?r"
      using False unfolding read_limit_def Let_def d_def[symmetric] cmin_def s w
      by (simp only: if_False of_nat_less_iff if_distrib[of unat] w min_def) auto
    then show ?thesis using lt parts unfolding read_amount_def dn by simp
  qed
qed

lemma readi_step:
  assumes "idle s" and c: "c = i_tab s ! ino" "c_dev c = 0" "getmode c = F_REG \<or> getmode c = F_DIR"
    and wf: "wf_off (u_offset (udata s))" and P: "P = off_pos (u_offset (udata s))"
    and l: "read_limit c (udata s) = w" "unat w < 32768" "P + unat w < 33554432"
    and ok: "\<forall>q. P \<le> q \<and> q < P + unat w \<longrightarrow> blk_ok (bview s) c (q div 512)"
  shows "wp (readi env ino) (\<lambda>_ t. \<exists>p. off_pos p = P + unat w \<and> wf_off p \<and>
      cache_step (delivered (\<lambda>k. file_byte (bview s) c (P + k)) (unat w) p (s\<lparr>udata := (udata s)\<lparr>u_count := w\<rparr>\<rparr>)) (bview s) t) s"
proof -
  define s0 where "s0 = s\<lparr>udata := (udata s)\<lparr>u_count := w\<rparr>\<rparr>"
  have e: "wp (readi env ino) Q s = wp (read_loop 65535 ino 0 False w) Q s0" for Q
    using c l(1) unfolding readi_def by (auto simp: Let_def set_u_count_def s0_def)
  have b: "bview s0 = bview s" "i_tab s0 = i_tab s" "u_offset (udata s0) = u_offset (udata s)" "idle s0 = idle s"
    by (simp_all add: s0_def idle_def)
  have "unat w \<le> 65535" using l(2) by simp
  then show ?thesis
    using read_loop_spec[of s0 c ino P w 65535] b assms(1) c wf P l(2,3) ok
    unfolding e s0_def[symmetric] by auto
qed

lemma readi_delivers:
  assumes "idle s" and c: "c = i_tab s ! ino" "c_dev c = 0" "getmode c = F_REG \<or> getmode c = F_DIR"
    and wf: "wf_off (u_offset (udata s))" and P: "P = off_pos (u_offset (udata s))"
    and l: "unat (read_limit c (udata s)) = n" "n < 32768" "P + n < 33554432"
    and ok: "\<forall>q. P \<le> q \<and> q < P + n \<longrightarrow> blk_ok (bview s) c (q div 512)"
  shows "wp (readi env ino) (\<lambda>_ t. unat (u_count (udata t)) = n \<and>
      mem t = copied (\<lambda>k. file_byte (bview s) c (P + k)) (u_base (udata s)) (of_nat n) (mem s) \<and>
      off_pos (u_offset (udata t)) = P + n \<and> wf_off (u_offset (udata t)) \<and>
      idle t \<and> same_view s t \<and> i_tab t = i_tab s \<and> lnk t = lnk s \<and> u_error (udata t) = u_error (udata s)) s"
proof (rule wp_mono[OF readi_step[OF assms(1) c wf P refl]], goal_cases)
  case (4 x t)
  let ?s = "s\<lparr>udata := (udata s)\<lparr>u_count := read_limit c (udata s)\<rparr>\<rparr>"
  from 4 obtain p where p: "off_pos p = P + n" "wf_off p"
    and st: "cache_step (delivered (\<lambda>k. file_byte (bview s) c (P + k)) n p ?s) (bview s) t" unfolding l(1) by blast
  have "idle ?s" using assms(1) by (simp add: idle_def)
  then have "idle t" using cache_step_idle[OF st] by simp
  then show ?case using p l(1) cache_stepD[OF st] by (auto simp: same_view_def delivered_def)
qed (use l ok in simp_all)

lemma readi_limit:
  assumes "idle s" and c: "c = i_tab s ! ino" "c_dev c = 0" "getmode c = F_REG \<or> getmode c = F_DIR"
    and wf: "wf_off (u_offset (udata s))" and P: "P = off_pos (u_offset (udata s))"
    and l: "unat (read_limit c (udata s)) = n" "n < 32768" "P + n < 33554432"
    and ok: "\<forall>q. P \<le> q \<and> q < P + n \<longrightarrow> blk_ok (bview s) c (q div 512)"
  shows "wp (readi env ino) (\<lambda>_ t. unat (u_count (udata t)) = n \<and>
      mem t = copied (\<lambda>k. file_byte (bview s) c (P + k)) (u_base (udata s)) (of_nat n) (mem s) \<and>
      off_pos (u_offset (udata t)) = P + n \<and> wf_off (u_offset (udata t)) \<and>
      idle t \<and> same_view s t \<and> i_tab t = i_tab s) s"
  by (rule wp_mono[OF readi_delivers[OF assms]]) blast

text \<open>
  C8: Reading a regular file or directory of the root device from a position not past its end
  delivers exactly the bytes of the file from there, as many as asked for or left; it stores
  them at the user's address and nothing else, holes read as zeros, \<open>u_count\<close> is the number
  delivered, the position moves on by it, and the visible contents of the device stay.
\<close>

theorem readi_file:
  assumes "idle s" and c: "c = i_tab s ! ino" "c_dev c = 0" "getmode c = F_REG \<or> getmode c = F_DIR"
    and wf: "wf_off (i_size (c_node c))" "wf_off (u_offset (udata s))"
    and P: "P = off_pos (u_offset (udata s))" "P \<le> off_pos (i_size (c_node c))"
    and count: "unat (u_count (udata s)) \<le> 32256"
    and n: "n = min (unat (u_count (udata s))) (off_pos (i_size (c_node c)) - P)" "P + n < 33554432"
    and ok: "\<forall>q. P \<le> q \<and> q < P + n \<longrightarrow> blk_ok (bview s) c (q div 512)"
  shows "wp (readi env ino) (\<lambda>_ t. unat (u_count (udata t)) = n \<and>
      mem t = copied (\<lambda>k. file_byte (bview s) c (P + k)) (u_base (udata s)) (of_nat n) (mem s) \<and>
      off_pos (u_offset (udata t)) = P + n \<and> wf_off (u_offset (udata t)) \<and>
      idle t \<and> same_view s t \<and> i_tab t = i_tab s) s"
  by (rule readi_limit[OF assms(1) c wf(2) P(1) _ _ n(2) ok])
    (use read_limit_min[OF wf _ count] P count n(1) in simp_all)

text \<open>The file of \<open>one_file\<close> made 10 bytes longer than its hole of one block.\<close>

definition sparse_file :: kst where
  "sparse_file = one_file\<lparr>i_tab := (i_tab one_file)[3 := (i_tab one_file ! 3)\<lparr>c_node :=
     (c_node (i_tab one_file ! 3))\<lparr>i_size := \<lparr>o_blkno = 1, o_offset = 10\<rparr>\<rparr>\<rparr>],
     udata := (udata one_file)\<lparr>u_base := 0x6000, u_count := 100,
       u_offset := \<lparr>o_blkno = 0, o_offset = 506\<rparr>\<rparr>\<rparr>"

lemma sparse_file_ino: "i_tab sparse_file ! 3 = zero_cinode\<lparr>c_node := zero_dinode\<lparr>i_mode := F_REG,
     i_addr := (replicate 20 0)[0 := 7, 18 := 5], i_size := \<lparr>o_blkno = 1, o_offset = 10\<rparr>\<rparr>\<rparr>"
  by (simp add: sparse_file_def one_file_def empty_cache_def bss_def)

theorem readi_file_witness:
  "wp (readi [] 3) (\<lambda>_ t. unat (u_count (udata t)) = 16 \<and> mem t 0x6000 = bview sparse_file 7 506 \<and>
     mem t 0x6006 = 0 \<and> off_pos (u_offset (udata t)) = 522) sparse_file"
proof (rule wp_mono[OF readi_file[where s = sparse_file and ino = 3 and P = 506 and n = 16 and env = "[]", OF _ refl]])
  let ?c = "i_tab sparse_file ! 3"
  have u: "u_offset (udata sparse_file) = \<lparr>o_blkno = 0, o_offset = 506\<rparr>" "u_count (udata sparse_file) = 100"
    "u_base (udata sparse_file) = 0x6000" by (simp_all add: sparse_file_def)
  show "idle sparse_file" using idle_one_file by (simp add: sparse_file_def idle_def)
  show "c_dev ?c = 0" "getmode ?c = F_REG \<or> getmode ?c = F_DIR" "wf_off (i_size (c_node ?c))"
    by (simp_all add: sparse_file_ino zero_cinode_def getmode_def wf_off_def)
  show "wf_off (u_offset (udata sparse_file))" "506 = off_pos (u_offset (udata sparse_file))"
    "506 \<le> off_pos (i_size (c_node ?c))" "unat (u_count (udata sparse_file)) \<le> 32256"
    "16 = min (unat (u_count (udata sparse_file))) (off_pos (i_size (c_node ?c)) - 506)"
    by (simp_all add: u sparse_file_ino wf_off_def off_pos_def)
  have blk: "file_blk V ?c 0 = 7" "file_blk V ?c 1 = NULLBLK" for V
    by (simp_all add: sparse_file_ino file_blk_def or_null_def)
  show "\<forall>q. 506 \<le> q \<and> q < 506 + 16 \<longrightarrow> blk_ok (bview sparse_file) ?c (q div 512)"
  proof (intro allI impI)
    fix q :: nat assume "506 \<le> q \<and> q < 506 + 16"
    then have "q div 512 = 0 \<or> q div 512 = 1" by linarith
    then show "blk_ok (bview sparse_file) ?c (q div 512)" using blk by (auto simp: blk_ok_def good_blk_def)
  qed
  fix x :: unit and t
  assume "unat (u_count (udata t)) = 16 \<and>
      mem t = copied (\<lambda>k. file_byte (bview sparse_file) ?c (506 + k)) (u_base (udata sparse_file)) (of_nat 16) (mem sparse_file) \<and>
      off_pos (u_offset (udata t)) = 506 + 16 \<and> wf_off (u_offset (udata t)) \<and>
      idle t \<and> same_view sparse_file t \<and> i_tab t = i_tab sparse_file"
  then show "unat (u_count (udata t)) = 16 \<and> mem t 0x6000 = bview sparse_file 7 506 \<and>
     mem t 0x6006 = 0 \<and> off_pos (u_offset (udata t)) = 522"
    using blk by (simp add: copied_def u file_byte_def blk_byte_def)
qed simp

text \<open>
  A read that starts in a block after the last one of the file does not return 0: the
  block difference wraps around, the limit is not applied, and \<open>readi\<close> delivers all the bytes
  asked for - zeros where no block is allocated.
\<close>

theorem readi_past_end:
  assumes "idle s" and "c = i_tab s ! ino" and "c_dev c = 0" and "getmode c = F_REG \<or> getmode c = F_DIR"
    and "wf_off (u_offset (udata s))" and "P = off_pos (u_offset (udata s))"
    and "o_blkno (i_size (c_node c)) < o_blkno (u_offset (udata s))"
    and "unat (o_blkno (u_offset (udata s))) - unat (o_blkno (i_size (c_node c))) \<le> 65472"
    and "n = unat (u_count (udata s))" and "n < 32768" and "P + n < 33554432"
    and "\<forall>q. P \<le> q \<and> q < P + n \<longrightarrow> blk_ok (bview s) c (q div 512)"
  shows "wp (readi env ino) (\<lambda>_ t. unat (u_count (udata t)) = n \<and> off_pos (u_offset (udata t)) = P + n \<and>
      mem t = copied (\<lambda>k. file_byte (bview s) c (P + k)) (u_base (udata s)) (of_nat n) (mem s)) s"
proof -
  define a where "a = o_blkno (i_size (c_node c))"
  define b where "b = o_blkno (u_offset (udata s))"
  have lt: "unat a < unat b" using assms(7) by (simp add: a_def b_def word_less_nat_alt)
  have neg: "- (b - a) = a - b" by simp
  have "unat (b - a) = unat b - unat a" using lt by (intro unat_sub_le) simp
  moreover have "b - a \<noteq> 0" using lt by auto
  ultimately have "unat (a - b) = 65536 - (unat b - unat a)"
    using unat_neg_u16[of "b - a"] unfolding neg by simp
  then have "64 \<le> unat (a - b)" using assms(8) unfolding a_def[symmetric] b_def[symmetric] by linarith
  then have "a - b \<ge> 64" by (simp add: word_le_nat_alt)
  then have "read_limit c (udata s) = u_count (udata s)"
    by (simp add: read_limit_def Let_def a_def b_def)
  then have "unat (read_limit c (udata s)) = n" using assms(9) by simp
  from readi_limit[OF assms(1-6) this assms(10-12), of env]
  show ?thesis by (rule wp_mono) simp
qed

theorem readi_past_end_witness:
  "wp (readi [] 3) (\<lambda>_ t. unat (u_count (udata t)) = 100 \<and> mem t 0x6000 = 0)
     (sparse_file\<lparr>udata := (udata sparse_file)\<lparr>u_offset := \<lparr>o_blkno = 4, o_offset = 0\<rparr>\<rparr>\<rparr>)"
  (is "wp _ _ ?s")
proof (rule wp_mono[OF readi_past_end[where s = ?s and ino = 3 and P = 2048 and n = 100 and env = "[]", OF _ refl]])
  let ?c = "i_tab ?s ! 3"
  have u: "u_offset (udata ?s) = \<lparr>o_blkno = 4, o_offset = 0\<rparr>" "u_count (udata ?s) = 100"
    "u_base (udata ?s) = 0x6000" by (simp_all add: sparse_file_def)
  have ub: "u_base (udata sparse_file) = 0x6000" by (simp add: sparse_file_def)
  have c: "?c = i_tab sparse_file ! 3" by simp
  show "idle ?s" using idle_one_file by (simp add: sparse_file_def idle_def)
  show "c_dev ?c = 0" "getmode ?c = F_REG \<or> getmode ?c = F_DIR"
    "o_blkno (i_size (c_node ?c)) < o_blkno (u_offset (udata ?s))"
    "unat (o_blkno (u_offset (udata ?s))) - unat (o_blkno (i_size (c_node ?c))) \<le> 65472"
    by (simp_all add: c u sparse_file_ino zero_cinode_def getmode_def wf_off_def)
  show "wf_off (u_offset (udata ?s))" "2048 = off_pos (u_offset (udata ?s))" "100 = unat (u_count (udata ?s))"
    by (simp_all only: u) (simp_all add: wf_off_def off_pos_def)
  have blk: "file_blk V ?c 4 = NULLBLK" for V
    by (simp add: c sparse_file_ino file_blk_def or_null_def)
  show "\<forall>q. 2048 \<le> q \<and> q < 2048 + 100 \<longrightarrow> blk_ok (bview ?s) ?c (q div 512)"
  proof (intro allI impI)
    fix q :: nat assume "2048 \<le> q \<and> q < 2048 + 100"
    then have "q div 512 = 4" by linarith
    then show "blk_ok (bview ?s) ?c (q div 512)" using blk by (simp add: blk_ok_def good_blk_def)
  qed
  fix x :: unit and t
  assume "unat (u_count (udata t)) = 100 \<and> off_pos (u_offset (udata t)) = 2048 + 100 \<and>
      mem t = copied (\<lambda>k. file_byte (bview ?s) ?c (2048 + k)) (u_base (udata ?s)) (of_nat 100) (mem ?s)"
  then show "unat (u_count (udata t)) = 100 \<and> mem t 0x6000 = 0"
    using blk[of "bview ?s"] ub by (simp add: copied_def file_byte_def blk_byte_def)
qed simp_all

text \<open>
  A negative limit - a count of 32768 or more, or what is left when a read starts behind the end
  of the file but still in its last block - is taken for an unsigned count of more than 32767
  bytes, and the copy runs far beyond its buffer.
\<close>

lemma readi_overrun:
  assumes idle: "idle s" and c: "c = i_tab s ! ino" "c_dev c = 0" "getmode c = F_REG \<or> getmode c = F_DIR"
    and wf: "wf_off (u_offset (udata s))" and neg: "sint (read_limit c (udata s)) < 0"
    and ok: "blk_ok (bview s) c (unat (o_blkno (u_offset (udata s))))"
  shows "readi env ino s = Halt BadAccess"
proof -
  let ?off = "u_offset (udata s)"
  define w where "w = read_limit c (udata s)"
  note neg = neg[folded w_def]
  define s0 where "s0 = s\<lparr>udata := (udata s)\<lparr>u_count := w\<rparr>\<rparr>"
  have x: "unat (o_offset ?off) < 512" using wf by (simp add: wf_off_def)
  have run: "readi env ino s = read_loop 65535 ino 0 False w s0"
    using c unfolding readi_def by (auto simp: run_simps access_defs Let_def set_u_count_def s0_def w_def)
  have o: "u_offset (udata s0) = ?off" "bview s0 = bview s" "i_tab s0 = i_tab s" by (simp_all add: s0_def)
  have i0: "idle s0" using idle by (simp add: s0_def idle_def)
  have "unat (512 - o_offset ?off) = 512 - unat (o_offset ?off)" using x by (subst unat_sub_le) simp_all
  then have "unat (512 - o_offset ?off) < 32768" by linarith
  then have "0 \<le> sint (512 - o_offset ?off)" by (simp only: sint_small)
  then have am: "cmin w (512 - o_offset ?off) = w" using neg by (simp add: cmin_def)
  have nb: "getmode (i_tab s0 ! ino) \<noteq> F_BDEV" "c_dev (i_tab s0 ! ino) = 0" and c0: "c = i_tab s0 ! ino" using c o(3) by auto
  have "wp (bmap ino (o_blkno ?off) 1) (\<lambda>r t. r = file_blk (bview s0) c (unat (o_blkno ?off)) \<and> cache_step s0 (bview s0) t) s0"
    unfolding c0
    using i0 idle_free[OF i0] nb path_ok_idle[OF i0, of c "unat (o_blkno ?off)"] ok o(2)
    by (intro bmap_reads_tree_at) (simp_all add: idle_def c0[symmetric])
  then obtain pblk t where b: "bmap ino (o_blkno ?off) 1 s0 = Ret pblk t" "pblk = file_blk (bview s) c (unat (o_blkno ?off))"
    and st: "cache_step s0 (bview s0) t" using o(2) by (auto simp: wp_iff)
  have it: "idle t" by (rule cache_step_idle[OF st i0])
  have "pblk = NULLBLK \<or> unat pblk < 2048 \<and> \<not> held t pblk"
    using ok idle_free[OF it] b(2) by (simp add: blk_ok_def good_blk_def Let_def)
  then have "wp (if pblk \<noteq> NULLBLK then bindK (bread 0 pblk 0) derefK else zerobuf) (\<lambda>_ _. True) t"
    using it idle_free[OF it] by (intro wp_mono[OF fetch_copy[of t pblk 0 0]]) (simp_all add: idle_def)
  then obtain bp u where f: "(if pblk \<noteq> NULLBLK then bindK (bread 0 pblk 0) derefK else zerobuf) t = Ret bp u"
    unfolding wp_iff by blast
  have "\<not> unat w < 32768" using neg sint_small[of w] by linarith
  moreover have "uint w = int (unat w)" "sint (o_offset ?off) = int (unat (o_offset ?off))"
    using x sint_small[of "o_offset ?off"] by simp_all
  ultimately have "sint (o_offset ?off) + uint w > 512" by linarith
  then have out: "copy_out bp (o_offset ?off) w u = Halt BadAccess" by (simp add: copy_out_def)
  have "read_chunk ino 0 False w s0 = Halt BadAccess"
    using b(1) f out by (simp add: read_chunk_def run_simps o am Let_def)
  moreover have "w \<noteq> 0" using neg by auto
  ultimately have "read_loop (Suc 65534) ino 0 False w s0 = Halt BadAccess" by (simp only: read_loop.simps if_False run_simps outcome.case)
  then show ?thesis unfolding run by simp
qed

lemma readi_big_count:
  assumes "idle s" and "c = i_tab s ! ino" "c_dev c = 0" "getmode c = F_REG \<or> getmode c = F_DIR"
    and "wf_off (u_offset (udata s))" and n: "32768 \<le> unat (u_count (udata s))"
    and "blk_ok (bview s) c (unat (o_blkno (u_offset (udata s))))"
  shows "readi env ino s = Halt BadAccess"
proof (rule readi_overrun[OF assms(1-5) _ assms(7)])
  have "sint (w :: u16) < 0" if "32768 \<le> unat w" for w
    using that u16_lt[of w] by (simp add: sint_u16)
  then have "sint (u_count (udata s)) < 0" using n .
  then show "sint (read_limit c (udata s)) < 0" by (simp add: read_limit_def Let_def cmin_def)
qed

lemma readi_past_end_in_block:
  assumes idle: "idle s" and c: "c = i_tab s ! ino" "c_dev c = 0" "getmode c = F_REG \<or> getmode c = F_DIR"
    and wf: "wf_off (i_size (c_node c))" "wf_off (u_offset (udata s))" and n: "unat (u_count (udata s)) < 32768"
    and past: "o_blkno (u_offset (udata s)) = o_blkno (i_size (c_node c))" "o_offset (i_size (c_node c)) < o_offset (u_offset (udata s))"
    and ok: "blk_ok (bview s) c (unat (o_blkno (u_offset (udata s))))"
  shows "readi env ino s = Halt BadAccess"
proof -
  let ?off = "u_offset (udata s)"
  define k where "k = o_offset ?off - o_offset (i_size (c_node c))"
  have x: "unat (o_offset ?off) < 512" using wf(2) by (simp add: wf_off_def)
  have k: "0 < unat k" "unat k < 512"
    using past(2) x unat_sub_le[of "o_offset (i_size (c_node c))" "o_offset ?off"] by (simp_all add: k_def word_less_nat_alt)
  have neg: "sint (- k) < 0" using k by (intro sint_neg_u16) simp_all
  have "0 \<le> sint (u_count (udata s))" using sint_small[OF n] by simp
  moreover have "o_offset (i_size (c_node c)) - o_offset ?off = - k" by (simp add: k_def)
  ultimately have "sint (read_limit c (udata s)) < 0" using past(1) neg by (simp add: read_limit_def Let_def cmin_def)
  then show ?thesis by (rule readi_overrun[OF idle c wf(2) _ ok])
qed

end
