(* ===== verification/Lookup.thy ===== *)
theory Lookup
  imports Directory File_Read
begin

text \<open>
  Directories and path names: what \<open>srch_dir\<close> finds in a directory, and that the walk of
  \<open>n_open\<close> along a path ends. \<open>ends m\<close> says that \<open>m\<close> never runs for ever; the collection
  \<open>ends\<close> has its rules, one for each construct and operation.
\<close>

section \<open>What a directory holds\<close>

definition dir_block :: "bytes \<Rightarrow> direct list" where
  "dir_block d = map (\<lambda>e. get_direct d (16 * e)) [0..<32]"

definition dir_entries :: "(u16 \<Rightarrow> bytes) \<Rightarrow> cinode \<Rightarrow> direct list" where
  "dir_entries V c = concat (map (\<lambda>b. dir_block (V (file_blk V c (unat b)))) (dir_blocks c))"

definition names :: "cstr \<Rightarrow> direct \<Rightarrow> bool" where
  "names name e \<longleftrightarrow> namecomp name (d_name e) \<noteq> 0"

lemma find_map: "find P (map f xs) = map_option f (find (P \<circ> f) xs)"
  by (induction xs) auto

lemma find_append: "find P (xs @ ys) = (case find P xs of None \<Rightarrow> find P ys | Some x \<Rightarrow> Some x)"
  by (induction xs) auto

lemma srch_block_find: "srch_block name d = map_option d_ino (find (names name) (dir_block d))"
  by (simp add: srch_block_def dir_block_def find_map option.map_comp comp_def names_def)

lemma dir_block_cong: "(\<And>k. k < 512 \<Longrightarrow> d k = e k) \<Longrightarrow> dir_block d = dir_block e"
  unfolding dir_block_def by (intro map_cong refl get_direct_cong) simp

lemma block_fun_srch: "block_fun (srch_block name)"
  unfolding block_fun_def srch_block_find by (metis dir_block_cong)

section \<open>Searching\<close>

definition real_blk :: "(u16 \<Rightarrow> bytes) \<Rightarrow> cinode \<Rightarrow> nat \<Rightarrow> bool" where
  "real_blk V c n \<longleftrightarrow> blk_ok V c n \<and> file_blk V c n \<noteq> NULLBLK"

lemma bmap_file:
  assumes "idle s" and "c_dev (i_tab s ! ip) = 0" and "getmode (i_tab s ! ip) \<noteq> F_BDEV"
    and "blk_ok (bview s) (i_tab s ! ip) (unat bn)"
  shows "wp (bmap ip bn 1) (\<lambda>r t. r = file_blk (bview s) (i_tab s ! ip) (unat bn) \<and> cache_step s (bview s) t) s"
  using assms idle_free[OF assms(1)] path_ok_idle[OF assms(1,4)]
  by (intro bmap_reads_tree_at) (simp_all add: idle_def)

lemma srch_blocks_find:
  assumes "idle s" and c: "c = i_tab s ! wd" "c_dev c = 0" "getmode c \<noteq> F_BDEV"
    and "\<forall>b\<in>set blks. real_blk (bview s) c (unat b)"
  shows "\<exists>t. cache_step s (bview s) t \<and> srch_blocks wd name blks s =
    (case find (names name) (concat (map (\<lambda>b. dir_block (bview s (file_blk (bview s) c (unat b)))) blks)) of
       None \<Rightarrow> Ret None t | Some e \<Rightarrow> i_open 0 (d_ino e) t)"
  using assms
proof (induction blks arbitrary: s)
  case Nil
  then show ?case using cache_step_refl[of s] by (auto simp: run_simps idle_def)
next
  case (Cons b blks)
  let ?pb = "file_blk (bview s) c (unat b)"
  have ok: "blk_ok (bview s) c (unat b)" "unat ?pb < 2048"
    using Cons.prems(5) by (auto simp: real_blk_def blk_ok_def good_blk_def Let_def)
  have "wp (bmap wd b 1) (\<lambda>r t. r = ?pb \<and> cache_step s (bview s) t) s"
    using bmap_file[OF Cons.prems(1), of wd b] Cons.prems(2-4) ok(1) by simp
  then obtain t where t: "bmap wd b 1 s = Ret ?pb t" "cache_step s (bview s) t" by (auto simp: wp_iff)
  have idle_t: "idle t" by (rule cache_step_idle[OF t(2) Cons.prems(1)])
  have v: "bview t a k = bview s a k" if "unat a < 2048" "k < 512" for a k using cache_stepD(15)[OF t(2) that] .
  have "wp (read_buf 0 ?pb (srch_block name)) (\<lambda>r u. r = srch_block name (bview t ?pb) \<and> cache_step t (bview t) u) t"
    using idle_t idle_free[OF idle_t] ok by (intro read_buf_spec block_fun_srch) (simp_all add: idle_def)
  moreover have "srch_block name (bview t ?pb) = srch_block name (bview s ?pb)"
    by (rule block_funD[OF block_fun_srch]) (use v ok in simp)
  ultimately obtain u where u: "read_buf 0 ?pb (srch_block name) t = Ret (srch_block name (bview s ?pb)) u"
    "cache_step t (bview t) u" by (auto simp: wp_iff)
  have su: "cache_step s (bview s) u" by (rule cache_step_trans[OF t(2) u(2)])
  have run: "srch_blocks wd name (b # blks) s = (case srch_block name (bview s ?pb) of
      Some inum \<Rightarrow> i_open 0 inum u | None \<Rightarrow> srch_blocks wd name blks u)"
    using t(1) u(1) Cons.prems(2,3) by (simp add: run_simps get_ino_def cong: option.case_cong) (simp add: getK_def split: option.splits)
  show ?case
  proof (cases "find (names name) (dir_block (bview s ?pb))")
    case (Some e)
    then show ?thesis using su run by (intro exI[of _ u]) (simp add: srch_block_find find_append)
  next
    case None
    have vu: "bview u a k = bview s a k" if "unat a < 2048" "k < 512" for a k using cache_stepD(15)[OF su that] .
    have idle_u: "idle u" by (rule cache_step_idle[OF su Cons.prems(1)])
    have same: "file_blk (bview u) c (unat b') = file_blk (bview s) c (unat b') \<and> blk_ok (bview u) c (unat b')"
      if "b' \<in> set blks" for b'
    proof -
      have ok': "blk_ok (bview s) c (unat b')" using Cons.prems(5) that by (simp add: real_blk_def)
      show ?thesis using file_blk_view[OF vu u16_lt ok'] blk_ok_view[OF vu u16_lt ok'] by blast
    qed
    have dirs: "map (\<lambda>b. dir_block (bview u (file_blk (bview u) c (unat b)))) blks =
        map (\<lambda>b. dir_block (bview s (file_blk (bview s) c (unat b)))) blks"
    proof (rule map_cong[OF refl])
      fix b' assume b': "b' \<in> set blks"
      then have "unat (file_blk (bview s) c (unat b')) < 2048"
        using Cons.prems(5) by (auto simp: real_blk_def blk_ok_def good_blk_def Let_def)
      then show "dir_block (bview u (file_blk (bview u) c (unat b'))) = dir_block (bview s (file_blk (bview s) c (unat b')))"
        using same[OF b'] vu by (auto intro!: dir_block_cong)
    qed
    have cu: "c = i_tab u ! wd" using Cons.prems(2) cache_stepD(4)[OF su] by simp
    have ru: "\<forall>b'\<in>set blks. real_blk (bview u) c (unat b')"
      using Cons.prems(5) same by (simp add: real_blk_def)
    obtain w where w: "cache_step u (bview u) w" "srch_blocks wd name blks u =
      (case find (names name) (concat (map (\<lambda>b. dir_block (bview s (file_blk (bview s) c (unat b)))) blks)) of
         None \<Rightarrow> Ret None w | Some e \<Rightarrow> i_open 0 (d_ino e) w)"
      using Cons.IH[OF idle_u cu Cons.prems(3,4) ru] unfolding dirs by blast
    then show ?thesis
      using cache_step_trans[OF su w(1)] run None by (intro exI[of _ w]) (simp add: srch_block_find find_append)
  qed
qed

text \<open>
  C10: Searching a directory of the root device is looking up the first entry, in the order of
  its blocks and of the 32 entries of each, whose name has the same first fourteen characters
  as the component: \<open>srch_dir\<close> opens the inode of that entry, and returns \<open>NULLINODE\<close> when
  there is none. Only which blocks are cached changes before.
\<close>

theorem srch_dir_first_match:
  assumes "idle s" and "c = i_tab s ! wd" and "c_dev c = 0" and "getmode c = F_DIR"
    and "\<forall>b\<in>set (dir_blocks c). real_blk (bview s) c (unat b)"
  shows "\<exists>t. cache_step s (bview s) t \<and> srch_dir wd name s =
    (case find (\<lambda>e. take 14 (component name) = take 14 (component (d_name e))) (dir_entries (bview s) c) of
       None \<Rightarrow> Ret None t | Some e \<Rightarrow> i_open 0 (d_ino e) t)"
proof -
  have "names name = (\<lambda>e. take 14 (component name) = take 14 (component (d_name e)))"
    by (rule ext) (simp add: names_def namecomp_def namecomp_loop_iff)
  moreover have "srch_dir wd name s = srch_blocks wd name (dir_blocks c) s"
    using assms(2) by (simp add: srch_dir_def get_ino_def run_simps)
  ultimately show ?thesis
    using srch_blocks_find[OF assms(1-3) _ assms(5), of name] assms(4) by (simp add: dir_entries_def)
qed

text \<open>A directory of one block, block 7, on an empty device.\<close>

definition one_dir :: kst where
  "one_dir = empty_cache\<lparr>i_tab := (i_tab empty_cache)[3 := zero_cinode\<lparr>c_node := zero_dinode\<lparr>i_mode := F_DIR,
     i_size := \<lparr>o_blkno = 1, o_offset = 0\<rparr>, i_addr := 7 # replicate 19 0\<rparr>\<rparr>]\<rparr>"

lemma one_dir_ino: "i_tab one_dir ! 3 = zero_cinode\<lparr>c_node := zero_dinode\<lparr>i_mode := F_DIR,
     i_size := \<lparr>o_blkno = 1, o_offset = 0\<rparr>, i_addr := 7 # replicate 19 0\<rparr>\<rparr>"
  by (simp add: one_dir_def empty_cache_def bss_def)

lemma one_dir_zero: "bview one_dir b k = 0"
proof -
  have e: "bufpool one_dir ! i = zero_buf\<lparr>bf_dev := 255\<rparr>" if "i < NBUFS" for i
    using empty_cache_pool[OF that] by (simp add: one_dir_def)
  have "bview one_dir b = disk_block one_dir b" by (rule bview_disk) (simp add: e)
  then show ?thesis by (simp add: disk_block_def one_dir_def empty_cache_def bss_def)
qed

theorem srch_dir_first_match_witness:
  "\<exists>t. cache_step one_dir (bview one_dir) t \<and> srch_dir 3 [97, 0] one_dir = Ret None t"
proof -
  let ?c = "i_tab one_dir ! 3"
  have idle: "idle one_dir" using idle_empty_cache by (simp add: one_dir_def idle_def)
  have db: "dir_blocks ?c = [0]" by (simp add: dir_blocks_def one_dir_ino)
  have blk: "file_blk V ?c 0 = 7" for V by (simp add: file_blk_def one_dir_ino or_null_def)
  have real: "\<forall>b\<in>set (dir_blocks ?c). real_blk (bview one_dir) ?c (unat b)"
    by (simp add: db real_blk_def blk blk_ok_def good_blk_def)
  have "component (d_name (get_direct (bview one_dir 7) n)) = []" for n
    by (simp add: get_direct_def one_dir_zero component_deref upt_conv_Cons)
  then have "find (\<lambda>e. take 14 (component [97, 0]) = take 14 (component (d_name e))) (dir_entries (bview one_dir) ?c) = None"
    by (auto simp: find_None_iff dir_entries_def db blk dir_block_def component_step)
  then show ?thesis
    using srch_dir_first_match[OF idle refl, of 3 "[97, 0]"] real
    by (simp add: one_dir_ino zero_cinode_def getmode_def)
qed

section \<open>Operations that end\<close>

named_theorems ends

definition ends :: "('s, 'a) kop \<Rightarrow> bool" where
  "ends m \<longleftrightarrow> (\<forall>s. m s \<noteq> Halt Diverges)"

lemma ends_basic [ends]:
  "ends (retK a)" "ends (getK f)" "ends (modK g)" "ends (panic msg)" "ends (haltK BadAccess)"
  "ends (haltK BadDescriptor)" "ends switchK"
  by (simp_all add: ends_def run_simps)

lemma ends_bindK [ends]: "ends m \<Longrightarrow> (\<And>a. ends (f a)) \<Longrightarrow> ends (bindK m f)"
  by (auto simp: ends_def run_simps split: outcome.splits)

lemma ends_thenK [ends]: "ends m \<Longrightarrow> ends n \<Longrightarrow> ends (thenK m n)"
  by (auto simp: ends_def run_simps split: outcome.splits)

lemma ends_if [ends]: "ends m \<Longrightarrow> ends n \<Longrightarrow> ends (if b then m else n)" by simp
lemma ends_whenK [ends]: "ends m \<Longrightarrow> ends (whenK b m)" by (auto simp: ends_def run_simps)
lemma ends_doK [ends]: "\<forall>m\<in>set ms. ends m \<Longrightarrow> ends (doK ms)"
  by (induction ms) (auto intro: ends)
lemma ends_forK [ends]: "(\<And>i. ends (f i)) \<Longrightarrow> ends (forK is f)"
  by (induction "is") (auto intro: ends)
lemma ends_option [ends]: "ends m \<Longrightarrow> (\<And>x. ends (f x)) \<Longrightarrow> ends (case r of None \<Rightarrow> m | Some x \<Rightarrow> f x)"
  by (cases r) auto
lemma ends_prod [ends]: "(\<And>x y. ends (f x y)) \<Longrightarrow> ends (case p of (x, y) \<Rightarrow> f x y)"
  by (cases p) auto
lemma ends_state [ends]:
  "ends (\<lambda>s. upd_ud (f s) s)" "ends (\<lambda>s. upd_buf i (b s) s)" "ends (\<lambda>s. upd_fs j (g s) s)"
  "ends (\<lambda>s. upd_proc p (y s) s)" "ends (\<lambda>s. upd_node n (h s) s)"
  by (auto simp: ends_def access_defs run_simps)

lemma ends_access [ends]:
  "ends (upd_ud f)" "ends (set_error e)" "ends (upd_ino i g)" "ends (upd_node i h)" "ends (get_ino i)"
  "ends (upd_fs j k)" "ends (upd_buf i b)" "ends (upd_proc p y)" "ends (get_oft i)" "ends (upd_oft i z)"
  "ends (derefK r)" "ends (warning msg)"
  by (auto simp: ends_def access_defs run_simps split: option.splits)

lemma ends_wakeup [ends]: "ends (wakeup ev)"
  unfolding wakeup_def by (intro ends)

lemma ends_tty_wait [ends]: "ends (tty_wait env)"
proof (induction env)
  case Nil
  then show ?case unfolding tty_wait.simps psleep_def psleep_mark_def by (intro ends) (auto intro!: ends)
next
  case (Cons e es)
  then show ?case unfolding tty_wait.simps psleep_def psleep_mark_def by (intro ends) (auto intro!: ends)
qed

subsection \<open>The drivers\<close>

lemma tty_write_loop_ends:
  "unat (u_count (udata s)) < fuel \<Longrightarrow> tty_write_loop fuel [] tw s \<noteq> Halt Diverges"
proof (induction fuel arbitrary: s)
  case (Suc fuel)
  let ?s = "s\<lparr>udata := (udata s)\<lparr>u_count := u_count (udata s) - 1\<rparr>\<rparr>"
  show ?case
  proof (cases "u_count (udata s) = 0")
    case True
    then show ?thesis by (simp add: run_simps access_defs)
  next
    case False
    have out: "\<exists>t. tty_out u = Ret () t \<and> u_count (udata t) = u_count (udata u)" for u
      by (auto simp: tty_out_def putc_def run_simps split: prod.splits)
    have w: "tty_wait [] ?s = (if \<not> stopflag s then Ret (Some []) ?s else tty_wait [] ?s)"
      by (simp add: run_simps)
    have nd: "tty_wait [] ?s \<noteq> Halt Diverges" using ends_tty_wait[of "[]"] by (simp add: ends_def)
    show ?thesis
    proof (cases "stopflag s")
      case True
      then have "tty_wait [] ?s \<noteq> Ret r t" for r t
        by (auto simp: run_simps psleep_def psleep_mark_def access_defs split: outcome.splits)
      then show ?thesis
        using False nd by (cases "tty_wait [] ?s") (simp_all add: run_simps access_defs)
    next
      case st: False
      obtain t where t: "tty_out ?s = Ret () t" "u_count (udata t) = u_count (udata ?s)" using out by blast
      have "0 < unat (u_count (udata s))" using False by (simp add: unat_gt_0)
      then have "unat (u_count (udata s) - 1) < fuel"
        using Suc.prems unat_minus_1[of "u_count (udata s)"] by linarith
      then have "tty_write_loop fuel [] tw (t\<lparr>udata := (udata t)\<lparr>u_base := u_base (udata t) + 1\<rparr>\<rparr>) \<noteq> Halt Diverges"
        using t(2) by (intro Suc.IH) simp
      then show ?thesis using False st t(1) by (simp add: run_simps access_defs)
    qed
  qed
qed simp

lemma ends_tty [ends]: "ends (tty_write [] minor fl)" "ends (tty_read [] minor fl)"
proof -
  have "tty_write_loop 65536 [] tw s \<noteq> Halt Diverges" for tw s by (rule tty_write_loop_ends) simp
  then show "ends (tty_write [] minor fl)" by (simp add: ends_def tty_write_def run_simps)
  show "ends (tty_read [] minor fl)"
    unfolding ends_def tty_read_def by (intro allI tty_read_loop_not_diverges) simp_all
qed

lemma ends_ppuwd [ends]: "ends (ppuwd_read m fl)" "ends (ppuwd_write m fl)" "ends (ppuwd_open m)"
  unfolding ppuwd_read_def ppuwd_write_def ppuwd_open_def by (intro ends)+

lemma dev_cases: "dev_entry dev s = Ret d t \<Longrightarrow> d \<in> set dev_tab"
proof -
  assume "dev_entry dev s = Ret d t"
  then have "0 \<le> dev" "dev < 5" "d = dev_tab ! nat dev" by (auto simp: dev_entry_def run_simps split: if_splits)
  moreover have "length dev_tab = 5" by (simp add: dev_tab_def)
  ultimately show ?thesis by (simp add: nat_less_iff)
qed

lemma ends_dev:
  assumes "\<And>d. d \<in> set dev_tab \<Longrightarrow> ends (f d)"
  shows "ends (bindK (dev_entry dev) f)"
proof -
  have "dev_entry dev s \<noteq> Halt Diverges" for s by (simp add: dev_entry_def run_simps)
  then show ?thesis
    using assms dev_cases[of dev] unfolding ends_def by (auto simp: run_simps split: outcome.splits)
qed

lemma ends_drivers [ends]:
  "ends (bindK (dev_entry dev) (\<lambda>d. dev_read d (dev_minor d) fl))"
  "ends (bindK (dev_entry dev) (\<lambda>d. dev_write d (dev_minor d) fl))"
proof -
  have "ends (dev_read d m fl)" if "d \<in> set dev_tab" for d m
    using that by (auto simp: dev_tab_def mem_read_def ok_def intro!: ends)
  then show "ends (bindK (dev_entry dev) (\<lambda>d. dev_read d (dev_minor d) fl))" by (rule ends_dev)
  have "ends (dev_write d m fl)" if "d \<in> set dev_tab" for d m
    using that by (auto simp: dev_tab_def mem_write_def null_write_def intro!: ends)
  then show "ends (bindK (dev_entry dev) (\<lambda>d. dev_write d (dev_minor d) fl))" by (rule ends_dev)
qed

subsection \<open>Blocks, inodes and path names\<close>

lemma ends_bdio [ends]: "ends (bdread bp)" "ends (bdwrite bp)"
  unfolding bdread_def bdwrite_def by (intro ends)+

lemma ends_bread [ends]: "ends (bread dev blk rw)"
  unfolding bread_def freebuf_def bread_done_def by (intro ends) (auto intro!: ends)

lemma ends_bfree [ends]: "ends (bfree bp dirty)" "ends (brelse bp)" "ends (bawrite bp)"
  unfolding bfree_def brelse_def bawrite_def by (intro ends, auto intro!: ends)+

lemma ends_block [ends]: "ends (read_buf dev blk f)" "ends (write_buf dev blk rw g)" "ends (write_buf_now dev blk rw g)" "ends bufsync"
  unfolding read_buf_def write_buf_def write_buf_now_def bufsync_def by (intro ends)+

lemma ends_getdev [ends]: "ends (getdev devno)"
  by (simp add: ends_def getdev_def upd_fs_def run_simps)

lemma ends_magic [ends]: "ends (magic ino)" "ends (wr_inode ino)" "ends (validblk dev blk)"
  unfolding magic_def wr_inode_def validblk_def by (intro ends)+

lemma ends_sync [ends]: "ends sys_sync"
  unfolding sys_sync_def by (intro ends) (auto intro!: ends)

lemma ends_alloc_scan [ends]: "ends (i_alloc_scan devno blks found)"
  by (induction blks arbitrary: found) (auto intro!: ends)

lemma ends_alloc [ends]: "ends (i_alloc devno)" "ends (i_free devno ino)"
  unfolding i_alloc_def i_alloc_corrupt_def i_alloc_take_def i_free_def Let_def by (intro ends, auto intro!: ends)+

lemma ends_blk [ends]: "ends (blk_alloc devno)" "ends (blk_free devno blk)"
  unfolding blk_alloc_def blk_alloc_corrupt_def blk_alloc_take_def blk_free_def Let_def by (intro ends, auto intro!: ends)+

lemma ends_freeblk [ends]: "ends (freeblk level dev blk)"
  by (induction level arbitrary: blk) (auto intro!: ends)

lemma ends_deref [ends]: "ends (i_deref ino)" "ends (i_ref ino)"
  unfolding i_deref_def f_trunc_def i_ref_def Let_def by (intro ends, auto intro!: ends)+

lemma ends_i_open [ends]: "ends (i_open dev ino)"
  unfolding i_open_def i_open_found_def Let_def by (intro ends)

lemma ends_bmap_ind [ends]: "ends (bmap_ind n dev bn sh rw nb)"
  by (induction n arbitrary: sh nb) (auto simp: Let_def intro!: ends)

lemma ends_bmap [ends]: "ends (bmap ip bn rw)"
  unfolding bmap_def bmap_addr_def Let_def by (intro ends, auto intro!: ends)+

lemma ends_srch [ends]: "ends (srch_mt ino)" "ends (srch_dir wd name)"
proof -
  show "ends (srch_mt ino)" unfolding srch_mt_def by (intro ends)
  have "ends (srch_blocks wd name blks)" for blks by (induction blks) (auto intro!: ends)
  then show "ends (srch_dir wd name)" unfolding srch_dir_def by (intro ends)
qed

lemma n_open_loop_ends:
  "length name < fuel \<Longrightarrow> ends (n_open_loop fuel want name wd ninode)"
proof (induction fuel arbitrary: name wd ninode)
  case (Suc fuel)
  let ?name = "skip_slashes name"
  have rest: "ends (n_open_loop fuel want (skip_component ?name) wd' ninode')" if "deref ?name \<noteq> 0" for wd' ninode'
    using Suc.prems skip_component_length[OF that skip_slashes_deref] skip_slashes_length[of name]
    by (intro Suc.IH) linarith
  show ?case
  proof (cases "deref ?name = 0")
    case True
    show ?thesis
      unfolding n_open_loop.simps Let_def n_open_end_def if_P[OF True] by (intro ends) (auto intro!: ends)
  next
    case False
    show ?thesis
      unfolding n_open_loop.simps Let_def n_open_nodir_def go_up_def if_not_P[OF False]
      by (intro ends rest[OF False]) (auto intro: ends)
  qed
qed simp

text \<open>
  C28: The walk along a path ends, whatever the path, the file system and the tables hold: it
  returns, panics or gives the processor away, but does not go round for ever, since every
  component takes at least one character off the name.
\<close>

theorem n_open_ends: "n_open name want s \<noteq> Halt Diverges"
proof -
  have "ends (n_open name want)"
    unfolding n_open_def by (intro ends n_open_loop_ends) (auto intro!: ends)
  then show ?thesis by (simp add: ends_def)
qed

end
