(* ===== verification/File_Write.thy ===== *)
theory File_Write
  imports File_Read
begin

text \<open>
  Writing a regular file over blocks it has (\<open>kernel/scall1.c\<close>: \<open>writei\<close>): the loop changes the
  bytes of the file at the position and no others, and \<open>readi\<close> reads them back.
\<close>

section \<open>The tree of a file under writes\<close>

text \<open>The indirect blocks on the way to block \<open>n\<close>.\<close>

definition ind_path :: "(u16 \<Rightarrow> bytes) \<Rightarrow> cinode \<Rightarrow> nat \<Rightarrow> u16 list" where
  "ind_path V c n = (let a = i_addr (c_node c) in
     if n < 18 then [] else if n < 274 then [a ! 18]
     else [a ! 19, tree_word V (a ! 19) ((n - 274) div 256)])"

text \<open>
  The first \<open>N\<close> blocks of the file are blocks of the device, no two share one, and none is an
  indirect block of the file.
\<close>

definition wf_tree :: "(u16 \<Rightarrow> bytes) \<Rightarrow> cinode \<Rightarrow> nat \<Rightarrow> bool" where
  "wf_tree V c N \<longleftrightarrow> N \<le> 65536 \<and> (\<forall>n<N. blk_ok V c n) \<and>
     (\<forall>n<N. file_blk V c n \<noteq> NULLBLK \<longrightarrow> (\<forall>m<N.
        (file_blk V c m = file_blk V c n \<longrightarrow> m = n) \<and> file_blk V c n \<notin> set (ind_path V c m)))"

lemma tree_word_cong: "V b = W b \<Longrightarrow> tree_word V b k = tree_word W b k"
  by (simp add: tree_word_def)

text \<open>Only the indirect blocks on the way matter.\<close>

lemma file_blk_path:
  assumes "\<forall>b\<in>set (ind_path V c n). W b = V b"
  shows "file_blk W c n = file_blk V c n \<and> ind_path W c n = ind_path V c n"
proof -
  consider "n < 18" | "18 \<le> n" "n < 274" | "274 \<le> n" by linarith
  then show ?thesis
  proof cases
    case 2
    then have "W (i_addr (c_node c) ! 18) = V (i_addr (c_node c) ! 18)" using assms by (simp add: ind_path_def Let_def)
    then show ?thesis using 2 tree_word_cong[of W _ V] by (simp add: file_blk_def ind_path_def Let_def)
  next
    case 3
    let ?b = "i_addr (c_node c) ! 19"
    have e: "W ?b = V ?b" "W (tree_word V ?b ((n - 274) div 256)) = V (tree_word V ?b ((n - 274) div 256))"
      using assms 3 by (simp_all add: ind_path_def Let_def)
    have w: "tree_word W ?b k = tree_word V ?b k" for k by (rule tree_word_cong) (rule e(1))
    have "tree_word W (tree_word V ?b ((n - 274) div 256)) k = tree_word V (tree_word V ?b ((n - 274) div 256)) k" for k
      by (rule tree_word_cong) (rule e(2))
    then show ?thesis using 3 w by (simp add: file_blk_def ind_path_def Let_def)
  qed (simp add: file_blk_def ind_path_def)
qed

lemma ind_path_view:
  assumes "\<And>c k. unat c < 2048 \<Longrightarrow> k < 512 \<Longrightarrow> V c k = W c k" and "n < 65536" and "blk_ok W c n"
  shows "ind_path V c n = ind_path W c n"
proof (cases "274 \<le> n")
  case True
  have "(n - 274) div 256 < 256" using assms(2) by (simp add: div_less_iff_less_mult)
  then have "tree_word V (i_addr (c_node c) ! 19) ((n - 274) div 256) = tree_word W (i_addr (c_node c) ! 19) ((n - 274) div 256)"
    using assms(3) True word_at_view[of V W "i_addr (c_node c) ! 19" "(n - 274) div 256", OF assms(1)]
    by (simp add: tree_word_def blk_ok_def Let_def)
  then show ?thesis by (simp add: ind_path_def Let_def)
qed (simp add: ind_path_def Let_def)

lemma wf_tree_view:
  assumes v: "\<And>c k. unat c < 2048 \<Longrightarrow> k < 512 \<Longrightarrow> V c k = W c k" and wf: "wf_tree W c N"
  shows "wf_tree V c N \<and> (\<forall>n<N. file_blk V c n = file_blk W c n)"
proof -
  have N: "N \<le> 65536" using wf by (simp add: wf_tree_def)
  have e: "file_blk V c n = file_blk W c n \<and> ind_path V c n = ind_path W c n \<and> blk_ok V c n" if "n < N" for n
  proof -
    have n: "n < 65536" and ok: "blk_ok W c n" using that N wf by (simp_all add: wf_tree_def)
    show ?thesis using file_blk_view[OF v n ok] ind_path_view[OF v n ok] blk_ok_view[OF v n ok] by blast
  qed
  then show ?thesis using wf unfolding wf_tree_def by simp
qed

text \<open>The contents of one data block replaced: the tree stays, and so do the other bytes.\<close>

lemma wf_tree_write:
  assumes wf: "wf_tree V c N" and n: "n < N" and b: "b = file_blk V c n" "b \<noteq> NULLBLK"
  shows "wf_tree (V(b := g)) c N \<and> (\<forall>m<N. file_blk (V(b := g)) c m = file_blk V c m)"
proof -
  have e: "file_blk (V(b := g)) c m = file_blk V c m \<and> ind_path (V(b := g)) c m = ind_path V c m" if "m < N" for m
  proof (rule file_blk_path)
    have "b \<notin> set (ind_path V c m)" using wf n b that by (simp add: wf_tree_def)
    then show "\<forall>x\<in>set (ind_path V c m). (V(b := g)) x = V x" by auto
  qed
  have ok: "blk_ok (V(b := g)) c m" if "m < N" for m
  proof -
    have i: "ind_path (V(b := g)) c m = ind_path V c m" and f: "file_blk (V(b := g)) c m = file_blk V c m"
      using e[OF that] by simp_all
    have "blk_ok V c m" using wf that by (simp add: wf_tree_def)
    then show ?thesis using i f by (auto simp: blk_ok_def ind_path_def Let_def)
  qed
  show ?thesis using wf e ok unfolding wf_tree_def by simp
qed

lemma file_byte_write:
  assumes wf: "wf_tree V c N" and n: "n < N" and b: "b = file_blk V c n" "b \<noteq> NULLBLK" and q: "q < 512 * N"
  shows "file_byte (V(b := g)) c q = (if q div 512 = n then g (q mod 512) else file_byte V c q)"
proof -
  have m: "q div 512 < N" using q by (simp add: div_less_iff_less_mult mult.commute)
  have e: "file_blk (V(b := g)) c (q div 512) = file_blk V c (q div 512)" using wf_tree_write[OF wf n b] m by blast
  have "file_blk V c (q div 512) = b \<longleftrightarrow> q div 512 = n" using wf n m b by (auto simp: wf_tree_def)
  then show ?thesis unfolding file_byte_def e using b(2) by (simp add: blk_byte_def b(1)[symmetric])
qed

section \<open>bmap for writing, where there are blocks\<close>

lemma bmap_ind_rw:
  "bmap_ind n dev bn sh 1 nb s = Ret r t \<Longrightarrow> r \<noteq> NULLBLK \<Longrightarrow> bmap_ind n dev bn sh 0 nb s = Ret r t"
proof (induction n arbitrary: sh nb s)
  case (Suc n)
  then show ?case by (auto simp: run_simps Let_def split: outcome.splits if_splits)
qed (simp add: run_simps)

lemma bmap_addr_run:
  "bmap_addr ip k 1 s = Ret (if i_addr (c_node (i_tab s ! ip)) ! k = 0 then None else Some (i_addr (c_node (i_tab s ! ip)) ! k)) s"
  "i_addr (c_node (i_tab s ! ip)) ! k \<noteq> 0 \<Longrightarrow> bmap_addr ip k 0 s = Ret (Some (i_addr (c_node (i_tab s ! ip)) ! k)) s"
  by (simp_all add: bmap_addr_def run_simps get_ino_def Let_def)

lemma bmap_rw:
  assumes "bmap ip bn 1 s = Ret r t" and "r \<noteq> NULLBLK"
  shows "bmap ip bn 0 s = Ret r t"
proof -
  define c where "c = i_tab s ! ip"
  have g: "bmap ip bn rw s = (if getmode c = F_BDEV then Ret bn s
     else if bn < 18 then (case bmap_addr ip (unat bn) rw s of Ret r s' \<Rightarrow> (case r of None \<Rightarrow> Ret NULLBLK s' | Some nb \<Rightarrow> Ret nb s')
          | Halt h \<Rightarrow> Halt h | Switch s' \<Rightarrow> Switch s')
     else (let bn1 = bn - 18; dbl = bn1 AND 0xff00 \<noteq> 0;
           sh = (if dbl then 8 else 0); bn = (if dbl then bn1 - 256 else bn1);
           j = (if dbl then 1 else 2)
       in case bmap_addr ip (20 - j) rw s of Ret r s' \<Rightarrow> (case r of None \<Rightarrow> Ret NULLBLK s'
          | Some nb \<Rightarrow> bmap_ind (3 - j) (c_dev c) bn sh rw nb s') | Halt h \<Rightarrow> Halt h | Switch s' \<Rightarrow> Switch s'))" for rw
    unfolding bmap_def c_def
    by (simp add: run_simps get_ino_def Let_def cong: if_cong) (auto simp: run_simps split: outcome.splits option.splits)
  show ?thesis
    using assms unfolding g Let_def
    by (auto simp: bmap_addr_run bmap_ind_rw simp del: bmap_ind.simps split: if_splits)
qed

lemma bmap_file_rw:
  assumes "idle s" and "c_dev (i_tab s ! ip) = 0" and "getmode (i_tab s ! ip) \<noteq> F_BDEV"
    and "blk_ok (bview s) (i_tab s ! ip) (unat bn)" and "file_blk (bview s) (i_tab s ! ip) (unat bn) \<noteq> NULLBLK"
  shows "wp (bmap ip bn 0) (\<lambda>r t. r = file_blk (bview s) (i_tab s ! ip) (unat bn) \<and> cache_step s (bview s) t) s"
proof -
  have "wp (bmap ip bn 1) (\<lambda>r t. r = file_blk (bview s) (i_tab s ! ip) (unat bn) \<and> cache_step s (bview s) t) s"
    using assms(1-4) idle_free[OF assms(1)] path_ok_idle[OF assms(1,4)]
    by (intro bmap_reads_tree_at) (simp_all add: idle_def)
  then show ?thesis using assms(5) bmap_rw by (auto simp: wp_iff)
qed

section \<open>One block\<close>

text \<open>A write through a buffer that also puts the position on.\<close>

definition moved :: "nat \<Rightarrow> uzi_off \<Rightarrow> kst \<Rightarrow> kst" where
  "moved n p s = s\<lparr>udata := (udata s)\<lparr>u_base := u_base (udata s) + of_nat n, u_offset := p\<rparr>\<rparr>"

lemma moved_keeps [simp]:
  "i_tab (moved n p s) = i_tab s" "u_offset (udata (moved n p s)) = p" "mem (moved n p s) = mem s"
  "u_base (udata (moved n p s)) = u_base (udata s) + of_nat n"
  "bview (moved n p s) = bview s" "idle (moved n p s) = idle s"
  "buf_inv (moved n p s) = buf_inv s" "busy_same (moved n p s) t = busy_same s t"
  by (simp_all add: moved_def idle_def)

lemma buf_frame_moved:
  assumes "buf_frame s t"
  shows "buf_frame (moved n p s) (moved n p t)"
proof -
  obtain bp bc cr ub where "t = s\<lparr>bufpool := bp, bufclock := bc, chr_ram := cr, udata := (udata s)\<lparr>u_buf := ub\<rparr>\<rparr>"
    using assms unfolding buf_frame_def by auto
  then have "moved n p t = (moved n p s)\<lparr>bufpool := bp, bufclock := bc, chr_ram := cr,
      udata := (udata (moved n p s))\<lparr>u_buf := ub\<rparr>\<rparr>" by (simp add: moved_def)
  then show ?thesis by (rule buf_frameI)
qed

lemma moved_moved: "moved n q (moved a p s) = moved (a + n) q s"
  by (simp add: moved_def add.assoc)

definition patched :: "nat \<Rightarrow> nat \<Rightarrow> (nat \<Rightarrow> byte) \<Rightarrow> bytes \<Rightarrow> bytes" where
  "patched x a f d = (\<lambda>k. if x \<le> k \<and> k < x + a then f (k - x) else d k)"

lemma copy_in_run:
  assumes "0 \<le> sint off" and "unat off + unat am \<le> 512"
  shows "copy_in bp off am s = upd_buf bp (\<lambda>b. b\<lparr>bf_data :=
     patched (unat off) (unat am) (\<lambda>k. mem s (u_base (udata s) + of_nat k)) (bf_data b)\<rparr>) s"
proof -
  have "sint off = int (unat off)" using assms(2) by (intro sint_small) linarith
  moreover have "uint am = int (unat am)" by simp
  ultimately have "\<not> (sint off < 0 \<or> sint off + uint am > 512)" using assms by linarith
  then show ?thesis by (simp add: copy_in_def patched_def)
qed

lemma put_chunk:
  assumes idle: "idle s" and blk: "unat pblk < 2048" and fits: "0 \<le> sint off" "unat off + unat am \<le> 512"
  shows "wp (bread 0 pblk (if am = 512 then 1 else 0)) (\<lambda>r. wp (derefK r) (\<lambda>bp. wp (copy_in bp off am) (\<lambda>_. wp (bawrite bp)
     (\<lambda>_. cache_step s ((bview s)(pblk := patched (unat off) (unat am) (\<lambda>k. mem s (u_base (udata s) + of_nat k)) (bview s pblk))))))) s"
proof -
  let ?f = "patched (unat off) (unat am) (\<lambda>k. mem s (u_base (udata s) + of_nat k))"
  let ?rw = "if am = 512 then 1 else 0 :: int"
  let ?Q = "\<lambda>_ :: unit. cache_step s ((bview s)(pblk := ?f (bview s pblk)))"
  have inv: "buf_inv s" "some_free s" "\<not> held s pblk" using idle idle_free[OF idle] by (simp_all add: idle_def)
  have all: "unat am = 512 \<Longrightarrow> unat off = 0" using fits by linarith
  have "wp (write_buf 0 pblk ?rw ?f) ?Q s"
  proof (rule write_buf_spec[OF inv(1) blk inv(3,2)])
    show "?f d k = ?f e k" if "?rw \<noteq> 0" "k < 512" for d e k
    proof -
      have "am = 512" using that(1) by (simp split: if_splits)
      then have "unat am = 512" by simp
      then show ?thesis using all that(2) by (simp add: patched_def)
    qed
    show "block_fun (\<lambda>d. ?f d k)" if "k < 512" for k using that by (auto simp: block_fun_def patched_def)
  qed
  then have w: "wp (bread 0 pblk ?rw) (\<lambda>r. wp (derefK r) (\<lambda>bp. wp (upd_buf bp (\<lambda>b. b\<lparr>bf_data := ?f (bf_data b)\<rparr>))
     (\<lambda>_. wp (bawrite bp) ?Q))) s" by (simp add: write_buf_def)
  have "wp (bread 0 pblk ?rw) (\<lambda>r t. mem t = mem s \<and> u_base (udata t) = u_base (udata s)) s"
    by (rule wp_mono[OF bread_spec[OF inv(1) blk inv(3,2), of ?rw]])
      (auto simp: bread_post_def buf_frame_def)
  then obtain r t where r: "bread 0 pblk ?rw s = Ret r t" "mem t = mem s" "u_base (udata t) = u_base (udata s)"
    by (auto simp: wp_iff)
  have e: "wp (copy_in bp off am) Q t = wp (upd_buf bp (\<lambda>b. b\<lparr>bf_data := ?f (bf_data b)\<rparr>)) Q t" for bp Q
    unfolding wp_def copy_in_run[OF fits] r ..
  have "wp (derefK r) (\<lambda>bp. wp (upd_buf bp (\<lambda>b. b\<lparr>bf_data := ?f (bf_data b)\<rparr>)) (\<lambda>_. wp (bawrite bp) ?Q)) t"
    using w by (simp add: wp_def r(1) del: wp_access)
  then have "wp (derefK r) (\<lambda>bp. wp (copy_in bp off am) (\<lambda>_. wp (bawrite bp) ?Q)) t"
    using e by (simp del: wp_access)
  then show ?thesis using r(1) by (simp only: wp_def outcome.case)
qed

lemma chunk_amount:
  assumes "unat (o_offset off) < 512" and "0 < unat n" and "unat n < 32768"
  shows "unat (cmin n (512 - o_offset off)) = min (unat n) (512 - unat (o_offset off))"
proof -
  have u: "unat (512 - o_offset off) = 512 - unat (o_offset off)" using assms(1) by (subst unat_sub_le) simp_all
  have "unat (512 - o_offset off) < 32768" unfolding u by linarith
  then have s: "sint (512 - o_offset off) = int (512 - unat (o_offset off))" using u by (simp only: sint_small)
  show ?thesis
    unfolding cmin_def sint_small[OF assms(3)] s
    by (simp only: of_nat_less_iff if_distrib[of unat] u min_def) auto
qed

text \<open>A chunk of the write: the block it maps in, then the bytes it puts there.\<close>

definition chunk_rest :: "uzi_off \<Rightarrow> u16 \<Rightarrow> u16 \<Rightarrow> u16 option k" where
  "chunk_rest off towrite pblk = (let amount = cmin towrite (512 - o_offset off) in
     bindK (bread 0 pblk (if amount = 512 then 1 else 0)) (\<lambda>r. bindK (derefK r) (\<lambda>bp.
       thenK (doK [
         copy_in bp (o_offset off) amount,
         bawrite bp,
         upd_ud (\<lambda>u. u\<lparr>u_base := u_base u + amount\<rparr>),
         add_u_offset amount])
       (retK (Some (towrite - amount))))))"

lemma write_chunk_run:
  "wp (write_chunk ino 0 False towrite) Q s = wp (bmap ino (o_blkno (u_offset (udata s))) 0)
     (\<lambda>b. wp (if b = NULLBLK then retK None else chunk_rest (u_offset (udata s)) towrite b) Q) s"
  by (simp add: write_chunk_def chunk_rest_def Let_def cong: if_cong)

lemma chunk_rest_spec:
  assumes idle: "idle s" and wf: "wf_off (u_offset (udata s))" and P: "P = off_pos (u_offset (udata s))"
    and pb: "unat pb < 2048" and n: "0 < unat towrite" "unat towrite < 32768" "P + unat towrite < 33554432"
  shows "wp (chunk_rest (u_offset (udata s)) towrite pb) (\<lambda>r t. \<exists>w a p t'. r = Some w \<and> t = moved a p t' \<and> 0 < a \<and> a \<le> unat towrite \<and>
      unat w = unat towrite - a \<and> P mod 512 + a \<le> 512 \<and> off_pos p = P + a \<and> wf_off p \<and>
      cache_step s ((bview s)(pb := patched (P mod 512) a (\<lambda>k. mem s (u_base (udata s) + of_nat k)) (bview s pb))) t') s"
    (is "wp _ ?Q s")
proof -
  define off where "off = u_offset (udata s)"
  define x where "x = unat (o_offset off)"
  define am where "am = cmin towrite (512 - o_offset off)"
  define a where "a = unat am"
  define p where "p = addoff am off"
  have x: "x < 512" "P mod 512 = x" using wf P by (simp_all add: wf_off_def off_pos_def off_def x_def)
  have a: "a = min (unat towrite) (512 - x)"
    unfolding a_def am_def x_def using x(1) n by (intro chunk_amount) (simp_all add: x_def)
  have apos: "0 < a" "a \<le> unat towrite" "x + a \<le> 512" using a n(1) x(1) by simp_all
  have sx: "0 \<le> sint (o_offset off)" using x(1) by (subst sint_small) (simp_all add: x_def)
  have "off_pos p = off_pos off + a \<and> wf_off p"
    unfolding p_def a_def using wf apos(2) n P by (intro addoff_forward) (simp_all add: off_def a_def)
  then have p: "off_pos p = P + a" "wf_off p" by (simp_all add: P off_def)
  have w: "unat (towrite - am) = unat towrite - a" using apos(2) unat_sub_le[of am towrite] by (simp add: a_def)
  define upd where "upd = (\<lambda>t :: kst. t\<lparr>udata := (udata t)\<lparr>u_base := u_base (udata t) + am, u_offset := addoff am (u_offset (udata t))\<rparr>\<rparr>)"
  have "wp (bread 0 pb (if am = 512 then 1 else 0)) (\<lambda>r. wp (derefK r) (\<lambda>bp. wp (copy_in bp (o_offset off) am) (\<lambda>_. wp (bawrite bp)
      (\<lambda>_ t. ?Q (Some (towrite - am)) (upd t))))) s"
  proof (rule wp_mono[OF put_chunk[OF idle pb sx]], goal_cases)
    case 1
    then show ?case using apos(3) by (simp add: x_def a_def)
  next
    case (2 r t1)
    have fin: "?Q (Some (towrite - am)) (upd t)"
      if t: "cache_step s ((bview s)(pb := patched (unat (o_offset off)) (unat am) (\<lambda>k. mem s (u_base (udata s) + of_nat k)) (bview s pb))) t" for t
    proof -
      have "upd t = moved a p t" using cache_stepD(16)[OF t] by (auto simp: upd_def moved_def buf_frame_def a_def p_def off_def)
      then show ?thesis using t apos p x w by (auto simp: x_def[symmetric] a_def[symmetric])
    qed
    show ?case using 2 by (elim wp_mono) (rule fin)
  qed
  then show ?thesis by (simp add: chunk_rest_def off_def[symmetric] am_def[symmetric] Let_def add_u_offset_def upd_def)
qed


lemma write_chunk_spec:
  assumes idle: "idle s" and c: "c = i_tab s ! ino" "c_dev c = 0" "getmode c \<noteq> F_BDEV"
    and wf: "wf_off (u_offset (udata s))" and P: "P = off_pos (u_offset (udata s))"
    and ok: "blk_ok (bview s) c (P div 512)" and pb: "pb = file_blk (bview s) c (P div 512)" "pb \<noteq> NULLBLK"
    and n: "0 < unat towrite" "unat towrite < 32768" "P + unat towrite < 33554432"
  shows "wp (write_chunk ino 0 False towrite) (\<lambda>r t. \<exists>w a p. r = Some w \<and> 0 < a \<and> a \<le> unat towrite \<and>
      unat w = unat towrite - a \<and> P mod 512 + a \<le> 512 \<and> off_pos p = P + a \<and> wf_off p \<and>
      cache_step (moved a p s) ((bview s)(pb := patched (P mod 512) a (\<lambda>k. mem s (u_base (udata s) + of_nat k)) (bview s pb))) t) s"
    (is "wp _ ?Q s")
  unfolding write_chunk_run
proof (rule wp_mono[OF bmap_file_rw[OF idle, of ino "o_blkno (u_offset (udata s))"]], goal_cases)
  case (5 r t0)
  have b: "unat (o_blkno (u_offset (udata s))) = P div 512" using wf P by (simp add: wf_off_def off_pos_def)
  have r: "r = pb" and st: "cache_step s (bview s) t0" using 5 c pb by (simp_all add: b)
  note d = cache_stepD[OF st]
  obtain ub where ub: "udata t0 = (udata s)\<lparr>u_buf := ub\<rparr>" using d(14) by blast
  have pb2: "unat pb < 2048" using ok pb by (auto simp: blk_ok_def good_blk_def Let_def)
  have "wp (chunk_rest (u_offset (udata t0)) towrite pb) ?Q t0"
  proof (rule wp_mono[OF chunk_rest_spec[OF cache_step_idle[OF st idle] _ _ pb2 n]], goal_cases)
    case (3 r t)
    then obtain w a p t' where r: "r = Some w" "t = moved a p t'" and a: "0 < a" "a \<le> unat towrite" "unat w = unat towrite - a" "P mod 512 + a \<le> 512"
        and p: "off_pos p = P + a" "wf_off p"
        and t: "cache_step t0 ((bview t0)(pb := patched (P mod 512) a (\<lambda>k. mem t0 (u_base (udata t0) + of_nat k)) (bview t0 pb))) t'"
      by blast
    note e = cache_stepD[OF t]
    let ?V = "(bview s)(pb := patched (P mod 512) a (\<lambda>k. mem s (u_base (udata s) + of_nat k)) (bview s pb))"
    have "buf_frame (moved a p s) (moved a p t')" by (rule buf_frame_moved[OF buf_frame_trans[OF d(16) e(16)]])
    moreover have "busy_same s t'" by (rule busy_same_trans[OF d(2) e(2)])
    moreover have "bview t' c' k = ?V c' k" if "unat c' < 2048" "k < 512" for c' k
      using that e(15)[OF that] d(10) d(15)[OF that] ub by (auto simp: patched_def)
    ultimately have "cache_step (moved a p s) ?V (moved a p t')"
      using e(1) by (simp add: cache_step_def busy_same_def) (simp add: moved_def)
    then show ?case using r a p by blast
  qed (use wf P ub in simp_all)
  then show ?case using r pb(2) ub by simp
qed (use c ok pb wf P in \<open>simp_all add: wf_off_def off_pos_def\<close>)

section \<open>The loop\<close>

text \<open>
  From \<open>s\<close> to \<open>t\<close> the bytes \<open>P\<close> to \<open>P + n\<close> of the file have become those at the user's
  address; its other bytes up to block \<open>N\<close>, its tree and the blocks of others are as before.
\<close>

definition wrote :: "cinode \<Rightarrow> nat \<Rightarrow> nat \<Rightarrow> nat \<Rightarrow> kst \<Rightarrow> kst \<Rightarrow> bool" where
  "wrote c N P n s t \<longleftrightarrow> idle t \<and> wf_tree (bview t) c N \<and> (\<forall>m<N. file_blk (bview t) c m = file_blk (bview s) c m) \<and>
     (\<forall>q<512 * N. file_byte (bview t) c q =
        (if P \<le> q \<and> q < P + n then mem s (u_base (udata s) + of_nat (q - P)) else file_byte (bview s) c q)) \<and>
     (\<forall>b k. unat b < 2048 \<longrightarrow> k < 512 \<longrightarrow> (\<forall>m<N. file_blk (bview s) c m \<noteq> b) \<longrightarrow> bview t b k = bview s b k)"

lemma wrote_0: "idle s \<Longrightarrow> wf_tree (bview s) c N \<Longrightarrow> wrote c N P 0 s s"
  by (auto simp: wrote_def)

lemma bytes_join:
  fixes ub :: u16
  assumes "x = (if P \<le> q \<and> q < P + a then m (ub + of_nat (q - P)) else f)"
  shows "(if P + a \<le> q \<and> q < P + a + n then m ((ub + of_nat a) + of_nat (q - (P + a))) else x) =
    (if P \<le> q \<and> q < P + (a + n) then m (ub + of_nat (q - P)) else f)"
proof (cases "P + a \<le> q")
  case True
  then have "q - P = a + (q - (P + a))" by linarith
  then have "ub + of_nat (q - P) = (ub + of_nat a) + of_nat (q - (P + a))" by (simp only: of_nat_add add.assoc)
  then show ?thesis using True assms by (simp only: add.assoc) simp
qed (use assms in simp)

lemma patch_byte:
  assumes "P mod 512 + a \<le> 512"
  shows "(if q div 512 = P div 512 then patched (P mod 512) a f B (q mod 512) else x) =
    (if P \<le> q \<and> q < P + a then f (q - P) else if q div 512 = P div 512 then B (q mod 512) else x)"
proof (cases "q div 512 = P div 512")
  case True
  have "q = 512 * (P div 512) + q mod 512" "P = 512 * (P div 512) + P mod 512"
    using mult_div_mod_eq[of 512 q] True by simp_all
  then have "P \<le> q \<longleftrightarrow> P mod 512 \<le> q mod 512" "q < P + a \<longleftrightarrow> q mod 512 < P mod 512 + a" "q - P = q mod 512 - P mod 512"
    by linarith+
  then show ?thesis using True by (simp add: patched_def)
next
  case False
  have "\<not> (P \<le> q \<and> q < P + a)"
  proof
    assume A: "P \<le> q \<and> q < P + a"
    then have "q < 512 * (P div 512) + 512" using assms mult_div_mod_eq[of 512 P] by linarith
    then have "q div 512 < Suc (P div 512)" by (simp add: div_less_iff_less_mult)
    moreover have "P div 512 \<le> q div 512" using A by (intro div_le_mono) simp
    ultimately show False using False by simp
  qed
  then show ?thesis using False by (simp only: if_False)
qed

lemma wrote_trans:
  assumes st: "wrote c N P a s t" and tu: "wrote c N (P + a) n t u"
    and m: "mem t = mem s" "u_base (udata t) = u_base (udata s) + of_nat a"
  shows "wrote c N P (a + n) s u"
proof -
  have "file_byte (bview u) c q = (if P \<le> q \<and> q < P + (a + n) then mem s (u_base (udata s) + of_nat (q - P)) else file_byte (bview s) c q)"
    if q: "q < 512 * N" for q
  proof -
    have "file_byte (bview t) c q = (if P \<le> q \<and> q < P + a then mem s (u_base (udata s) + of_nat (q - P)) else file_byte (bview s) c q)"
      using st q by (simp add: wrote_def)
    note bytes_join[of _ P q a "mem s" "u_base (udata s)" _ n, OF this]
    moreover have "file_byte (bview u) c q =
        (if P + a \<le> q \<and> q < P + a + n then mem t (u_base (udata t) + of_nat (q - (P + a))) else file_byte (bview t) c q)"
      using tu q by (simp add: wrote_def)
    ultimately show ?thesis unfolding m by simp
  qed
  then show ?thesis using st tu unfolding wrote_def by simp
qed

lemma wrote_chunk:
  assumes wf: "wf_tree (bview s) c N" and n: "P div 512 < N" and b: "b = file_blk (bview s) c (P div 512)" "b \<noteq> NULLBLK"
    and a: "P mod 512 + a \<le> 512" and idle: "idle t"
    and v: "\<And>c k. unat c < 2048 \<Longrightarrow> k < 512 \<Longrightarrow> bview t c k =
      ((bview s)(b := patched (P mod 512) a (\<lambda>k. mem s (u_base (udata s) + of_nat k)) (bview s b))) c k"
  shows "wrote c N P a s t"
proof -
  define g where "g = patched (P mod 512) a (\<lambda>k. mem s (u_base (udata s) + of_nat k)) (bview s b)"
  let ?W = "(bview s)(b := g)"
  have v': "bview t c k = ?W c k" if "unat c < 2048" "k < 512" for c k using v[OF that] by (simp add: g_def)
  note w = wf_tree_write[OF wf n b, of g]
  note tr = wf_tree_view[OF v' conjunct1[OF w]]
  have N: "N \<le> 65536" using wf by (simp add: wf_tree_def)
  have blk: "file_blk (bview t) c m = file_blk (bview s) c m" if "m < N" for m using tr w that by simp
  have byte: "file_byte (bview t) c q = (if P \<le> q \<and> q < P + a then mem s (u_base (udata s) + of_nat (q - P)) else file_byte (bview s) c q)"
    if q: "q < 512 * N" for q
  proof -
    have m: "q div 512 < N" using q by (simp add: div_less_iff_less_mult mult.commute)
    have "file_byte (bview t) c q = file_byte ?W c q"
    proof (rule file_byte_view[OF v'])
      show "q div 512 < 65536" using m N by linarith
      show "blk_ok ?W c (q div 512)" using w m unfolding wf_tree_def by blast
    qed
    also have "\<dots> = (if q div 512 = P div 512 then g (q mod 512) else file_byte (bview s) c q)"
      by (rule file_byte_write[OF wf n b q])
    also have "\<dots> = (if P \<le> q \<and> q < P + a then mem s (u_base (udata s) + of_nat (q - P))
        else if q div 512 = P div 512 then bview s b (q mod 512) else file_byte (bview s) c q)"
      unfolding g_def by (rule patch_byte[OF a])
    finally show ?thesis using b by (auto simp: file_byte_def blk_byte_def)
  qed
  have "bview t b' k = bview s b' k" if "unat b' < 2048" "k < 512" "\<forall>m<N. file_blk (bview s) c m \<noteq> b'" for b' k
    using v'[OF that(1,2)] that(3) n b by auto
  then show ?thesis using idle tr blk byte unfolding wrote_def by simp
qed

lemma write_loop_spec:
  assumes "idle s" and "c = i_tab s ! ino" and "c_dev c = 0" and "getmode c \<noteq> F_BDEV"
    and "wf_off (u_offset (udata s))" and "P = off_pos (u_offset (udata s))"
    and "wf_tree (bview s) c N" and "P + unat towrite \<le> 512 * N"
    and "\<And>q. P \<le> q \<Longrightarrow> q < P + unat towrite \<Longrightarrow> file_blk (bview s) c (q div 512) \<noteq> NULLBLK"
    and "unat towrite \<le> fuel" and "unat towrite < 32768" and "P + unat towrite < 33554432"
  shows "wp (write_loop fuel ino 0 False towrite) (\<lambda>_ t. \<exists>p. off_pos p = P + unat towrite \<and> wf_off p \<and>
      buf_frame (moved (unat towrite) p s) t \<and> wrote c N P (unat towrite) s t) s"
  using assms
proof (induction fuel arbitrary: s towrite P)
  case 0
  then have "towrite = 0" by (simp add: unsigned_eq_0_iff)
  then show ?case
    using 0 wrote_0 by (auto simp: moved_def intro!: exI[of _ "u_offset (udata s)"])
next
  case (Suc fuel)
  note A = Suc.prems
  let ?n = "unat towrite" and ?V = "bview s"
  show ?case
  proof (cases "towrite = 0")
    case True
    then show ?thesis
      using A wrote_0 by (auto simp: moved_def intro!: exI[of _ "u_offset (udata s)"])
  next
    case False
    then have pos: "0 < ?n" by (simp add: unat_gt_0)
    have n: "P div 512 < N" using A(8) pos by (simp add: div_less_iff_less_mult)
    define b where "b = file_blk ?V c (P div 512)"
    have b: "b \<noteq> NULLBLK" using A(9)[of P] pos by (simp add: b_def)
    have ok: "blk_ok ?V c (P div 512)" using A(7) n by (simp add: wf_tree_def)
    define R where "R = (\<lambda>(x :: unit) t. \<exists>p. off_pos p = P + ?n \<and> wf_off p \<and> buf_frame (moved ?n p s) t \<and> wrote c N P ?n s t)"
    have "wp (write_chunk ino 0 False towrite) (\<lambda>r. wp (case r of None \<Rightarrow> retK () | Some m \<Rightarrow> write_loop fuel ino 0 False m) R) s"
    proof (rule wp_mono[OF write_chunk_spec[OF A(1-6) ok b_def b pos A(11,12)]], elim exE conjE)
      fix r :: "u16 option" and s1 w a p1
      assume r: "r = Some w" and a: "0 < a" "a \<le> ?n" "unat w = ?n - a" "P mod 512 + a \<le> 512" and p1: "off_pos p1 = P + a" "wf_off p1"
        and st: "cache_step (moved a p1 s) (?V(b := patched (P mod 512) a (\<lambda>k. mem s (u_base (udata s) + of_nat k)) (?V b))) s1"
      note d = cache_stepD[OF st]
      have idle1: "idle s1" using cache_step_idle[OF st] A(1) by simp
      have w1: "wrote c N P a s s1" by (rule wrote_chunk[OF A(7) n b_def b a(4) idle1 d(15)])
      have o: "u_offset (udata s1) = p1" "i_tab s1 = i_tab s" "mem s1 = mem s" "u_base (udata s1) = u_base (udata s) + of_nat a"
        using d(4,10,14) by auto
      have same: "file_blk (bview s1) c m = file_blk ?V c m" if "m < N" for m using w1 that by (simp add: wrote_def)
      show "wp (case r of None \<Rightarrow> retK () | Some m \<Rightarrow> write_loop fuel ino 0 False m) R s1"
        unfolding r option.case
      proof (rule wp_mono[OF Suc.IH[where P = "P + a"]])
        show "idle s1" "c = i_tab s1 ! ino" "c_dev c = 0" "getmode c \<noteq> F_BDEV" "wf_off (u_offset (udata s1))"
          "P + a = off_pos (u_offset (udata s1))" "wf_tree (bview s1) c N"
          using idle1 A(2-4) o p1 w1 by (simp_all add: wrote_def)
        show "P + a + unat w \<le> 512 * N" "unat w \<le> fuel" "unat w < 32768" "P + a + unat w < 33554432"
          using a A(8,10-12) by linarith+
        fix q assume q: "P + a \<le> q" "q < P + a + unat w"
        then have "q < 512 * N" using a A(8) by linarith
        then have "q div 512 < N" by (simp add: div_less_iff_less_mult mult.commute)
        moreover have "file_blk ?V c (q div 512) \<noteq> NULLBLK" using A(9)[of q] q a by simp
        ultimately show "file_blk (bview s1) c (q div 512) \<noteq> NULLBLK" using same by simp
      next
        fix x :: unit and t
        assume "\<exists>p. off_pos p = P + a + unat w \<and> wf_off p \<and> buf_frame (moved (unat w) p s1) t \<and> wrote c N (P + a) (unat w) s1 t"
        then obtain p where p: "off_pos p = P + a + unat w" "wf_off p" "buf_frame (moved (unat w) p s1) t"
          and w2: "wrote c N (P + a) (unat w) s1 t" by blast
        have an: "a + unat w = ?n" using a by linarith
        have "wrote c N P ?n s t" using wrote_trans[OF w1 w2 o(3,4)] unfolding an .
        moreover have "buf_frame (moved ?n p s) t"
          using buf_frame_trans[OF buf_frame_moved[OF d(16), of "unat w" p] p(3)] unfolding moved_moved an .
        moreover have "off_pos p = P + ?n" using p(1) an by linarith
        ultimately show "R x t" using p(2) unfolding R_def by blast
      qed
    qed
    then have "wp (write_loop (Suc fuel) ino 0 False towrite) R s" using False by simp
    then show ?thesis unfolding R_def .
  qed
qed

section \<open>writei\<close>

lemma same_addr:
  assumes "i_addr (c_node c) = i_addr (c_node d)"
  shows "file_blk V c n = file_blk V d n" "blk_ok V c n = blk_ok V d n" "file_byte V c q = file_byte V d q"
  using assms by (simp_all add: file_blk_def blk_ok_def file_byte_def)

text \<open>The inode after a write that ends at position \<open>p\<close>.\<close>

definition grown :: "uzi_off \<Rightarrow> cinode \<Rightarrow> cinode" where
  "grown p c = (if off_pos (i_size (c_node c)) < off_pos p
     then c\<lparr>c_node := (c_node c)\<lparr>i_size := p\<rparr>, c_dirty := 1\<rparr> else c)"

lemma wf_off_less:
  assumes "wf_off p" and "wf_off q"
  shows "o_blkno p > o_blkno q \<or> o_blkno p = o_blkno q \<and> sint (o_offset p) > sint (o_offset q) \<longleftrightarrow> off_pos q < off_pos p"
proof -
  have s: "sint (o_offset p) = int (unat (o_offset p))" "sint (o_offset q) = int (unat (o_offset q))"
    by (rule sint_small, use assms in \<open>simp add: wf_off_def\<close>)+
  have "o_blkno p > o_blkno q \<longleftrightarrow> unat (o_blkno q) < unat (o_blkno p)" by (rule word_less_nat_alt)
  moreover have "o_blkno p = o_blkno q \<longleftrightarrow> unat (o_blkno p) = unat (o_blkno q)" by (rule word_unat_eq_iff)
  moreover have "sint (o_offset p) > sint (o_offset q) \<longleftrightarrow> unat (o_offset q) < unat (o_offset p)" unfolding s by (rule of_nat_less_iff)
  ultimately show ?thesis using assms unfolding wf_off_def off_pos_def by linarith
qed

lemma grow_size_run:
  assumes "wf_off (u_offset (udata s))" and "wf_off (i_size (c_node (i_tab s ! ino)))" and "ino < length (i_tab s)"
  shows "grow_size ino s = Ret () (s\<lparr>i_tab := (i_tab s)[ino := grown (u_offset (udata s)) (i_tab s ! ino)]\<rparr>)"
  using wf_off_less[OF assms(1,2)] assms(3)
  by (auto simp: grow_size_def run_simps access_defs Let_def grown_def)

lemma writei_spec:
  assumes "idle s" and c: "c = i_tab s ! ino" "c_dev c = 0" "getmode c = F_REG \<or> getmode c = F_DIR" "ino < length (i_tab s)"
    and wf: "wf_off (i_size (c_node c))" "wf_off (u_offset (udata s))" and P: "P = off_pos (u_offset (udata s))"
    and n: "n = unat (u_count (udata s))" "n < 32768" "P + n < 33554432"
    and tree: "wf_tree (bview s) c N" "P + n \<le> 512 * N" "\<forall>q. P \<le> q \<and> q < P + n \<longrightarrow> file_blk (bview s) c (q div 512) \<noteq> NULLBLK"
  shows "wp (writei env ino) (\<lambda>_ t. \<exists>p. off_pos p = P + n \<and> wf_off p \<and> u_offset (udata t) = p \<and>
     wrote c N P n s t \<and> mem t = mem s \<and> u_count (udata t) = u_count (udata s) \<and>
     u_error (udata t) = u_error (udata s) \<and> i_tab t = (i_tab s)[ino := grown p c]) s"
proof -
  let ?u = "u_count (udata s)"
  have nb: "getmode c \<noteq> F_BDEV" using c(3) by auto
  have e: "wp (writei env ino) Q s = wp (write_loop 65535 ino 0 False ?u) (\<lambda>_. wp (grow_size ino) Q) s" for Q
    using c(1-3) unfolding writei_def by (auto simp: Let_def)
  show ?thesis
    unfolding e
  proof (rule wp_mono[OF write_loop_spec[OF assms(1) c(1,2) nb wf(2) P tree(1)]], goal_cases)
    case (6 x t)
    then obtain p where p: "off_pos p = P + n" "wf_off p" "buf_frame (moved n p s) t" and w: "wrote c N P n s t"
      unfolding n(1)[symmetric] by blast
    have t: "u_offset (udata t) = p" "i_tab t = i_tab s" "mem t = mem s" "u_count (udata t) = ?u" "u_error (udata t) = u_error (udata s)"
      using p(3) by (auto simp: buf_frame_def moved_def)
    have "grow_size ino t = Ret () (t\<lparr>i_tab := (i_tab s)[ino := grown p c]\<rparr>)"
      using p(2) wf(1) c t by (subst grow_size_run) simp_all
    moreover have "wrote c N P n s (t\<lparr>i_tab := x\<rparr>)" for x using w by (simp add: wrote_def idle_def)
    ultimately show ?case using p(1,2) t by (simp add: wp_def)
  qed (use n tree(2,3) in simp_all)
qed

text \<open>
  C7: What \<open>writei\<close> writes over blocks a regular file or directory has, \<open>readi\<close> reads back. The
  write changes the bytes of the file at the position to those at the user's address and no
  other byte of the file, of its tree or of any other block of the device, and makes the
  file longer exactly when it ends past the old end; a read from the old position then delivers
  the same bytes.
\<close>

theorem write_then_read:
  assumes "idle s" and "c = i_tab s ! ino" and "c_dev c = 0" and "getmode c = F_REG \<or> getmode c = F_DIR"
    and "ino < length (i_tab s)" and "wf_off (i_size (c_node c))" and "wf_off (u_offset (udata s))"
    and "P = off_pos (u_offset (udata s))" and "n = unat (u_count (udata s))" and "n \<le> 32256" and "P + n < 33554432"
    and "wf_tree (bview s) c N" and "P + n \<le> 512 * N"
    and "\<forall>q. P \<le> q \<and> q < P + n \<longrightarrow> file_blk (bview s) c (q div 512) \<noteq> NULLBLK"
  shows "wp (writei env ino) (\<lambda>_ t. wrote c N P n s t \<and> mem t = mem s \<and> off_pos (u_offset (udata t)) = P + n \<and>
     off_pos (i_size (c_node (i_tab t ! ino))) = max (off_pos (i_size (c_node c))) (P + n) \<and>
     wp (readi env' ino) (\<lambda>_ u. unat (u_count (udata u)) = n \<and>
         mem u = copied (\<lambda>k. mem s (u_base (udata s) + of_nat k)) buf (of_nat n) (mem s))
       (t\<lparr>udata := (udata t)\<lparr>u_offset := u_offset (udata s), u_base := buf, u_count := u_count (udata s)\<rparr>\<rparr>)) s"
proof -
  have "n < 32768" using assms(10) by simp
  note W = writei_spec[OF assms(1-9) this assms(11-14), of env]
  show ?thesis
  proof (rule wp_mono[OF W], elim exE conjE)
    fix x :: unit and t p
    assume p: "off_pos p = P + n" "wf_off p" "u_offset (udata t) = p" and w: "wrote c N P n s t" and m: "mem t = mem s"
      and cnt: "u_count (udata t) = u_count (udata s)" and tab: "i_tab t = (i_tab s)[ino := grown p c]"
    define d where "d = grown p c"
    have d: "i_tab t ! ino = d" "i_addr (c_node d) = i_addr (c_node c)" "c_dev d = 0" "getmode d = getmode c"
      "wf_off (i_size (c_node d))" "off_pos (i_size (c_node d)) = max (off_pos (i_size (c_node c))) (P + n)"
      using tab assms(3,5,6) p by (auto simp: d_def grown_def getmode_def)
    let ?t = "t\<lparr>udata := (udata t)\<lparr>u_offset := u_offset (udata s), u_base := buf, u_count := u_count (udata s)\<rparr>\<rparr>"
    have idle: "idle ?t" using w by (simp add: wrote_def idle_def)
    have lim: "unat (read_limit d (udata ?t)) = n"
      using read_limit_min[OF d(5), of "udata ?t"] assms(7-10) d(6) by simp
    have ok: "\<forall>q. P \<le> q \<and> q < P + n \<longrightarrow> blk_ok (bview ?t) d (q div 512)"
    proof (intro allI impI)
      fix q assume "P \<le> q \<and> q < P + n"
      then have "q < 512 * N" using assms(13) by linarith
      then have "q div 512 < N" by (simp add: div_less_iff_less_mult mult.commute)
      then show "blk_ok (bview ?t) d (q div 512)" using w by (simp add: wrote_def wf_tree_def same_addr[OF d(2)])
    qed
    have "wp (readi env' ino) (\<lambda>_ u. unat (u_count (udata u)) = n \<and>
         mem u = copied (\<lambda>k. mem s (u_base (udata s) + of_nat k)) buf (of_nat n) (mem s)) ?t"
    proof (rule wp_mono[OF readi_limit[where s = ?t and c = d and P = P]])
      show "idle ?t" "d = i_tab ?t ! ino" "c_dev d = 0" "getmode d = F_REG \<or> getmode d = F_DIR" "wf_off (u_offset (udata ?t))"
        "P = off_pos (u_offset (udata ?t))" "unat (read_limit d (udata ?t)) = n" "n < 32768" "P + n < 33554432"
        using idle d assms(4,7,8,10,11) lim by simp_all
      show "\<forall>q. P \<le> q \<and> q < P + n \<longrightarrow> blk_ok (bview ?t) d (q div 512)" by (rule ok)
    next
      fix y :: unit and u
      have "file_byte (bview t) d (P + k) = mem s (u_base (udata s) + of_nat k)" if "k < n" for k
        using w that assms(13) by (simp add: wrote_def same_addr[OF d(2)])
      moreover have "unat (of_nat n :: u16) = n" using assms(10) by (intro unat_of_small) simp
      ultimately have "copied (\<lambda>k. file_byte (bview t) d (P + k)) buf (of_nat n) (mem s) =
          copied (\<lambda>k. mem s (u_base (udata s) + of_nat k)) buf (of_nat n) (mem s)"
        by (intro copied_cong) simp
      moreover assume "unat (u_count (udata u)) = n \<and>
        mem u = copied (\<lambda>k. file_byte (bview ?t) d (P + k)) (u_base (udata ?t)) (of_nat n) (mem ?t) \<and>
        off_pos (u_offset (udata u)) = P + n \<and> wf_off (u_offset (udata u)) \<and> idle u \<and> same_view ?t u \<and> i_tab u = i_tab ?t"
      ultimately show "unat (u_count (udata u)) = n \<and>
         mem u = copied (\<lambda>k. mem s (u_base (udata s) + of_nat k)) buf (of_nat n) (mem s)"
        using m by simp
    qed
    then show "wrote c N P n s t \<and> mem t = mem s \<and> off_pos (u_offset (udata t)) = P + n \<and>
     off_pos (i_size (c_node (i_tab t ! ino))) = max (off_pos (i_size (c_node c))) (P + n) \<and>
     wp (readi env' ino) (\<lambda>_ u. unat (u_count (udata u)) = n \<and>
         mem u = copied (\<lambda>k. mem s (u_base (udata s) + of_nat k)) buf (of_nat n) (mem s)) ?t"
      using w m p d by simp
  qed
qed

text \<open>A file of two blocks, 7 and 9, at the position 506.\<close>

definition two_blocks :: kst where
  "two_blocks = empty_cache\<lparr>i_tab := (i_tab empty_cache)[3 := zero_cinode\<lparr>c_node := zero_dinode\<lparr>i_mode := F_REG,
     i_addr := [7, 9] @ replicate 18 0\<rparr>\<rparr>],
     udata := (udata empty_cache)\<lparr>u_base := 0x6000, u_count := 100, u_offset := \<lparr>o_blkno = 0, o_offset = 506\<rparr>\<rparr>\<rparr>"

lemma two_blocks_ino: "i_tab two_blocks ! 3 = zero_cinode\<lparr>c_node := zero_dinode\<lparr>i_mode := F_REG,
     i_addr := [7, 9] @ replicate 18 0\<rparr>\<rparr>"
  by (simp add: two_blocks_def empty_cache_def bss_def)

lemma two_blocks_facts: "off_pos (i_size (c_node (i_tab two_blocks ! 3))) = 0" "u_base (udata two_blocks) = 0x6000"
  unfolding two_blocks_ino by (simp_all add: off_pos_def zero_dinode_def zero_off_def two_blocks_def)

theorem write_then_read_witness:
  "wp (writei [] 3) (\<lambda>_ t. off_pos (i_size (c_node (i_tab t ! 3))) = 606 \<and>
     wp (readi [] 3) (\<lambda>_ u. mem u 0x7003 = mem two_blocks 0x6003)
       (t\<lparr>udata := (udata t)\<lparr>u_offset := u_offset (udata two_blocks), u_base := 0x7000, u_count := u_count (udata two_blocks)\<rparr>\<rparr>))
   two_blocks"
proof (rule wp_mono[OF write_then_read[where s = two_blocks and ino = 3 and P = 506 and n = 100 and N = 2
        and env = "[]" and env' = "[]" and buf = "0x7000", OF _ refl]])
  let ?c = "i_tab two_blocks ! 3"
  have u: "u_offset (udata two_blocks) = \<lparr>o_blkno = 0, o_offset = 506\<rparr>" "u_count (udata two_blocks) = 100"
    "u_base (udata two_blocks) = 0x6000" by (simp_all add: two_blocks_def)
  show "idle two_blocks" using idle_empty_cache by (simp add: two_blocks_def idle_def)
  show "c_dev ?c = 0" "getmode ?c = F_REG \<or> getmode ?c = F_DIR" "wf_off (i_size (c_node ?c))" "3 < length (i_tab two_blocks)"
    by (simp_all add: two_blocks_ino zero_cinode_def getmode_def wf_off_def zero_dinode_def zero_off_def)
      (simp add: two_blocks_def empty_cache_def bss_def)
  show "wf_off (u_offset (udata two_blocks))" "506 = off_pos (u_offset (udata two_blocks))" "100 = unat (u_count (udata two_blocks))"
    by (simp_all add: u wf_off_def off_pos_def)
  have blk: "file_blk V ?c 0 = 7" "file_blk V ?c (Suc 0) = 9" "ind_path V ?c 0 = []" "ind_path V ?c (Suc 0) = []" for V
    by (simp_all add: two_blocks_ino file_blk_def or_null_def ind_path_def)
  show "wf_tree (bview two_blocks) ?c 2"
  proof -
    have lt: "m < 2 \<longleftrightarrow> m = 0 \<or> m = Suc 0" for m :: nat by auto
    have g: "good_blk 7" "good_blk 9" by (simp_all add: good_blk_def)
    have ok: "blk_ok (bview two_blocks) ?c 0" "blk_ok (bview two_blocks) ?c (Suc 0)"
      by (simp_all add: blk_ok_def Let_def blk g)
    show ?thesis unfolding wf_tree_def lt using ok by (auto simp: blk)
  qed
  show "\<forall>q. 506 \<le> q \<and> q < 506 + 100 \<longrightarrow> file_blk (bview two_blocks) ?c (q div 512) \<noteq> NULLBLK"
  proof (intro allI impI)
    fix q :: nat assume "506 \<le> q \<and> q < 506 + 100"
    then have "q div 512 = 0 \<or> q div 512 = Suc 0" by linarith
    then show "file_blk (bview two_blocks) ?c (q div 512) \<noteq> NULLBLK" using blk by auto
  qed
next
  fix x :: unit and t :: kst
  let ?t = "t\<lparr>udata := (udata t)\<lparr>u_offset := u_offset (udata two_blocks), u_base := 0x7000, u_count := u_count (udata two_blocks)\<rparr>\<rparr>"
  assume A: "wrote (i_tab two_blocks ! 3) 2 506 100 two_blocks t \<and> mem t = mem two_blocks \<and> off_pos (u_offset (udata t)) = 506 + 100 \<and>
     off_pos (i_size (c_node (i_tab t ! 3))) = max (off_pos (i_size (c_node (i_tab two_blocks ! 3)))) (506 + 100) \<and>
     wp (readi [] 3) (\<lambda>_ u. unat (u_count (udata u)) = 100 \<and>
         mem u = copied (\<lambda>k. mem two_blocks (u_base (udata two_blocks) + of_nat k)) 0x7000 (of_nat 100) (mem two_blocks)) ?t"
  then have "wp (readi [] 3) (\<lambda>_ u. mem u 0x7003 = mem two_blocks 0x6003) ?t"
    by (elim conjE wp_mono) (simp add: copied_def two_blocks_facts)
  then show "off_pos (i_size (c_node (i_tab t ! 3))) = 606 \<and> wp (readi [] 3) (\<lambda>_ u. mem u 0x7003 = mem two_blocks 0x6003) ?t"
    using A by (simp add: two_blocks_facts)
qed simp_all

end
