(* ===== verification/Dir_Update.thy ===== *)
theory Dir_Update
  imports Lookup File_Write
begin

text \<open>
  Changing a directory (\<open>fs/filesys.c\<close>: \<open>ch_link\<close>): over a directory as its list of entries,
  \<open>ch_link\<close> is the update of the first entry with the old name.
\<close>

section \<open>Entries as bytes of the file\<close>

definition entry_at :: "(u16 \<Rightarrow> bytes) \<Rightarrow> cinode \<Rightarrow> nat \<Rightarrow> direct" where
  "entry_at V c e = get_direct (\<lambda>k. file_byte V c (16 * e + k)) 0"

text \<open>A directory of \<open>N\<close> blocks, all of them there.\<close>

definition whole_dir :: "(u16 \<Rightarrow> bytes) \<Rightarrow> cinode \<Rightarrow> nat \<Rightarrow> bool" where
  "whole_dir V c N \<longleftrightarrow> i_size (c_node c) = \<lparr>o_blkno = of_nat N, o_offset = 0\<rparr> \<and> N < 65536 \<and>
     wf_tree V c N \<and> (\<forall>n<N. file_blk V c n \<noteq> NULLBLK)"

lemma whole_dir_size: "whole_dir V c N \<Longrightarrow> off_pos (i_size (c_node c)) = 512 * N \<and> wf_off (i_size (c_node c))"
  using unat_of_small[of N] by (auto simp: whole_dir_def off_pos_def wf_off_def)

lemma whole_dir_blocks: "whole_dir V c N \<Longrightarrow> dir_blocks c = map of_nat [0..<N]"
  using unat_of_small[of N] by (auto simp: whole_dir_def dir_blocks_def Let_def)

lemma concat_blocks_nth:
  "(\<And>b. length (f b) = 32) \<Longrightarrow> e < 32 * N \<Longrightarrow> concat (map f [0..<N]) ! e = f (e div 32) ! (e mod 32)"
proof (induction N)
  case (Suc N)
  have l: "length (concat (map f [0..<N])) = 32 * N" using Suc.prems(1) by (simp add: length_concat comp_def sum_list_triv)
  show ?case
  proof (cases "e < 32 * N")
    case True
    then show ?thesis using Suc l by (simp add: nth_append)
  next
    case False
    then obtain k where k: "e = 32 * N + k" "k < 32" using Suc.prems(2) by (metis add_less_cancel_left le_Suc_ex linorder_not_less mult_Suc_right add.commute)
    then have "e div 32 = N" "e mod 32 = k" by simp_all
    then show ?thesis using False l k by (simp add: nth_append)
  qed
qed simp

lemma get_direct_shift: "get_direct f b = get_direct (\<lambda>k. f (b + k)) 0"
  by (simp add: get_direct_def get16_def add.assoc)

lemma dir_entries_at:
  assumes "whole_dir V c N"
  shows "length (dir_entries V c) = 32 * N" and "e < 32 * N \<Longrightarrow> dir_entries V c ! e = entry_at V c e"
proof -
  let ?f = "\<lambda>n. dir_block (V (file_blk V c n))"
  have N: "N < 65536" using assms by (simp add: whole_dir_def)
  have d: "dir_entries V c = concat (map ?f [0..<N])"
    unfolding dir_entries_def whole_dir_blocks[OF assms] map_map
    by (rule arg_cong[of _ _ concat], rule map_cong[OF refl]) (use N in \<open>simp add: comp_def unat_of_small\<close>)
  have l: "length (?f n) = 32" for n by (simp add: dir_block_def)
  show "length (dir_entries V c) = 32 * N" by (simp add: d length_concat comp_def l sum_list_triv)
  assume e: "e < 32 * N"
  have "dir_entries V c ! e = ?f (e div 32) ! (e mod 32)" unfolding d using l e by (rule concat_blocks_nth)
  also have "\<dots> = get_direct (V (file_blk V c (e div 32))) (16 * (e mod 32))"
    by (simp add: dir_block_def)
  also have "\<dots> = entry_at V c e"
  proof -
    have eN: "e div 32 < N" using e by (simp add: div_less_iff_less_mult mult.commute)
    have "file_byte V c (16 * e + k) = V (file_blk V c (e div 32)) (16 * (e mod 32) + k)" if "k < 16" for k
    proof -
      define q r where "q = e div 32" and "r = e mod 32"
      have "e = 32 * q + r" "r < 32" by (simp_all add: q_def r_def)
      then have "16 * e + k = 512 * q + (16 * r + k)" "16 * r + k < 512" using that by simp_all
      then have "(16 * e + k) div 512 = q" "(16 * e + k) mod 512 = 16 * r + k"
        by (simp_all only: div_mult_self4 mod_mult_self4) simp_all
      then show ?thesis using assms eN by (simp add: file_byte_def blk_byte_def whole_dir_def q_def r_def)
    qed
    then show ?thesis
      unfolding entry_at_def get_direct_shift[of _ "16 * (e mod 32)"] by (intro get_direct_cong) simp
  qed
  finally show "dir_entries V c ! e = entry_at V c e" .
qed

section \<open>Reading entry by entry\<close>

text \<open>From \<open>s\<close> to \<open>t\<close> only the entry in memory, the position and the cache have changed.\<close>

definition dir_read :: "kst \<Rightarrow> kst \<Rightarrow> bool" where
  "dir_read s t \<longleftrightarrow> idle t \<and> same_view s t \<and> i_tab t = i_tab s \<and> lnk t = lnk s \<and> u_error (udata t) = u_error (udata s) \<and>
     wf_off (u_offset (udata t))"

lemma dir_read_blocks:
  assumes "dir_read s t" and "wf_tree (bview s) c N"
  shows "wf_tree (bview t) c N" "\<And>n. n < N \<Longrightarrow> file_blk (bview t) c n = file_blk (bview s) c n"
    and "\<And>q. q < 512 * N \<Longrightarrow> file_byte (bview t) c q = file_byte (bview s) c q"
proof -
  have v: "bview t b k = bview s b k" if "unat b < 2048" "k < 512" for b k
    using assms(1) that by (simp add: dir_read_def same_view_def)
  note w = wf_tree_view[OF v assms(2)]
  show "wf_tree (bview t) c N" "\<And>n. n < N \<Longrightarrow> file_blk (bview t) c n = file_blk (bview s) c n" using w by simp_all
  fix q assume q: "q < 512 * N"
  then have "q div 512 < N" by (simp add: div_less_iff_less_mult mult.commute)
  then have "blk_ok (bview s) c (q div 512)" "q div 512 < 65536" using assms(2) by (auto simp: wf_tree_def)
  then show "file_byte (bview t) c q = file_byte (bview s) c q" by (intro file_byte_view[OF v])
qed

lemma dir_read_whole:
  assumes "dir_read s t" and "whole_dir (bview s) c N"
  shows "whole_dir (bview t) c N" and "e < 32 * N \<Longrightarrow> entry_at (bview t) c e = entry_at (bview s) c e"
proof -
  have w: "wf_tree (bview s) c N" using assms(2) by (simp add: whole_dir_def)
  show "whole_dir (bview t) c N" using assms(2) dir_read_blocks[OF assms(1) w] by (simp add: whole_dir_def)
  assume "e < 32 * N"
  then show "entry_at (bview t) c e = entry_at (bview s) c e"
    unfolding entry_at_def by (intro get_direct_cong dir_read_blocks(3)[OF assms(1) w]) simp
qed

lemma dir_read_trans: "dir_read s t \<Longrightarrow> dir_read t u \<Longrightarrow> dir_read s u"
  by (simp add: dir_read_def same_view_def)

text \<open>One round of the search: the next entry in memory, or nothing at the end.\<close>

definition next_entry :: "nat \<Rightarrow> unit k" where
  "next_entry wd = doK [(\<lambda>s. upd_ud (\<lambda>u. u\<lparr>u_count := 16, u_base := at_curentry (lnk s)\<rparr>) s), readi [] wd]"

lemma next_entry_spec:
  assumes "idle s" and c: "c = i_tab s ! wd" "c_dev c = 0" "getmode c = F_DIR" and dir: "whole_dir (bview s) c N"
    and wf: "wf_off (u_offset (udata s))" and e: "off_pos (u_offset (udata s)) = 16 * e" "e \<le> 32 * N"
  shows "wp (next_entry wd) (\<lambda>_ t. dir_read s t \<and>
     (if e < 32 * N then u_count (udata t) = 16 \<and> off_pos (u_offset (udata t)) = 16 * (e + 1) \<and>
        curentry_name t = d_name (entry_at (bview s) c e)
      else u_count (udata t) = 0 \<and> off_pos (u_offset (udata t)) = 16 * e)) s"
proof -
  let ?s = "s\<lparr>udata := (udata s)\<lparr>u_count := 16, u_base := at_curentry (lnk s)\<rparr>\<rparr>"
  define n :: nat where "n = (if e < 32 * N then 16 else 0)"
  note sz = whole_dir_size[OF dir]
  have N: "N < 65536" using dir by (simp add: whole_dir_def)
  have run: "wp (next_entry wd) Q s = wp (readi [] wd) Q ?s" for Q
    by (simp add: next_entry_def access_defs wp_def run_simps)
  have lim: "unat (read_limit c (udata ?s)) = n"
  proof -
    have "unat (read_limit c (udata ?s)) = min 16 (512 * N - 16 * e)"
      using sz e wf by (subst read_limit_min) simp_all
    also have "\<dots> = n"
    proof (cases "e < 32 * N")
      case True
      then have "16 * e + 16 \<le> 512 * N" by simp
      then show ?thesis using True by (simp add: n_def)
    qed (use e(2) in \<open>simp add: n_def\<close>)
    finally show ?thesis .
  qed
  have ok: "\<forall>q. 16 * e \<le> q \<and> q < 16 * e + n \<longrightarrow> blk_ok (bview ?s) c (q div 512)"
  proof (intro allI impI)
    fix q assume "16 * e \<le> q \<and> q < 16 * e + n"
    then have "q < 512 * N" by (auto simp: n_def split: if_splits)
    then have "q div 512 < N" by (simp add: div_less_iff_less_mult mult.commute)
    then show "blk_ok (bview ?s) c (q div 512)" using dir by (simp add: whole_dir_def wf_tree_def)
  qed
  have b: "idle ?s" "c = i_tab ?s ! wd" "getmode c = F_REG \<or> getmode c = F_DIR" "wf_off (u_offset (udata ?s))"
    "16 * e = off_pos (u_offset (udata ?s))" "n < 32768" "16 * e + n < 33554432"
    using assms N by (simp_all add: idle_def n_def)
  have un: "unat (of_nat n :: u16) = n" using b(6) by (intro unat_of_small) simp
  show ?thesis
    unfolding run
  proof (rule wp_mono[OF readi_delivers[OF b(1,2) c(2) b(3-5) lim b(6,7) ok]])
    fix x :: unit and t
    assume t: "unat (u_count (udata t)) = n \<and>
      mem t = copied (\<lambda>k. file_byte (bview ?s) c (16 * e + k)) (u_base (udata ?s)) (of_nat n) (mem ?s) \<and>
      off_pos (u_offset (udata t)) = 16 * e + n \<and> wf_off (u_offset (udata t)) \<and> idle t \<and> same_view ?s t \<and>
      i_tab t = i_tab ?s \<and> lnk t = lnk ?s \<and> u_error (udata t) = u_error (udata ?s)"
    have "u_count (udata t) = of_nat n" using t by (simp only: word_unat_eq_iff un)
    moreover have "dir_read s t" using t by (simp add: dir_read_def same_view_def)
    moreover have "curentry_name t = d_name (entry_at (bview s) c e)" if "n = 16"
    proof -
      have "mem t (at_curentry (lnk t) + 2 + of_nat k) = file_byte (bview s) c (16 * e + (2 + k))" if k: "k < 14" for k
      proof -
        have "unat (of_nat (2 + k) :: u16) = 2 + k" using k by (intro unat_of_small) simp
        then have u: "unat (2 + of_nat k :: u16) = 2 + k" by simp
        then have "(2 + of_nat k :: u16) < of_nat n" using un k \<open>n = 16\<close> by (simp add: word_less_nat_alt)
        then show ?thesis using t u by (simp add: copied_def add.assoc)
      qed
      then show ?thesis by (simp add: curentry_name_def entry_at_def get_direct_def)
    qed
    ultimately show "dir_read s t \<and> (if e < 32 * N then u_count (udata t) = 16 \<and> off_pos (u_offset (udata t)) = 16 * (e + 1) \<and>
        curentry_name t = d_name (entry_at (bview s) c e)
      else u_count (udata t) = 0 \<and> off_pos (u_offset (udata t)) = 16 * e)"
      using t by (simp add: n_def split: if_splits)
  qed
qed

text \<open>The search stops behind the first entry with the name.\<close>

lemma ch_link_find_spec:
  assumes "idle s" and "c = i_tab s ! wd" "c_dev c = 0" "getmode c = F_DIR" and "whole_dir (bview s) c N"
    and "wf_off (u_offset (udata s))" and "off_pos (u_offset (udata s)) = 16 * j" "j \<le> e" "e < 32 * N" "e - j < fuel"
    and "names oldname (entry_at (bview s) c e)" "\<forall>i. j \<le> i \<and> i < e \<longrightarrow> \<not> names oldname (entry_at (bview s) c i)"
  shows "wp (ch_link_find fuel wd oldname) (\<lambda>_ t. dir_read s t \<and> u_count (udata t) = 16 \<and>
     off_pos (u_offset (udata t)) = 16 * (e + 1)) s"
  using assms
proof (induction fuel arbitrary: s j)
  case (Suc fuel)
  note A = Suc.prems
  have run: "wp (ch_link_find (Suc fuel) wd oldname) Q s = wp (next_entry wd)
      (\<lambda>_ t. if u_count (udata t) = 0 \<or> namecomp oldname (curentry_name t) \<noteq> 0 then Q () t
        else wp (ch_link_find fuel wd oldname) Q t) s" for Q
    by (simp only: ch_link_find.simps next_entry_def[symmetric] wp_thenK wp_bindK wp_getK wp_if wp_retK)
  show ?case
    unfolding run
  proof (rule wp_mono[OF next_entry_spec[OF A(1-7)]])
    show "j \<le> 32 * N" using A(8,9) by simp
    fix x :: unit and t
    assume "dir_read s t \<and> (if j < 32 * N then u_count (udata t) = 16 \<and> off_pos (u_offset (udata t)) = 16 * (j + 1) \<and>
        curentry_name t = d_name (entry_at (bview s) c j) else u_count (udata t) = 0 \<and> off_pos (u_offset (udata t)) = 16 * j)"
    then have t: "dir_read s t" "u_count (udata t) = 16" "off_pos (u_offset (udata t)) = 16 * (j + 1)"
      and nm: "namecomp oldname (curentry_name t) \<noteq> 0 \<longleftrightarrow> names oldname (entry_at (bview s) c j)"
      using A(8,9) by (simp_all add: names_def)
    show "if u_count (udata t) = 0 \<or> namecomp oldname (curentry_name t) \<noteq> 0
        then dir_read s t \<and> u_count (udata t) = 16 \<and> off_pos (u_offset (udata t)) = 16 * (e + 1)
        else wp (ch_link_find fuel wd oldname) (\<lambda>_ t. dir_read s t \<and> u_count (udata t) = 16 \<and> off_pos (u_offset (udata t)) = 16 * (e + 1)) t"
    proof (cases "j = e")
      case True
      then show ?thesis using t nm A(11) by simp
    next
      case False
      then have j: "j < e" using A(8) by simp
      then have no: "\<not> names oldname (entry_at (bview s) c j)" using A(12) by simp
      have "wp (ch_link_find fuel wd oldname) (\<lambda>_ u. dir_read t u \<and> u_count (udata u) = 16 \<and> off_pos (u_offset (udata u)) = 16 * (e + 1)) t"
      proof (rule Suc.IH[where j = "j + 1"])
        show "idle t" "c = i_tab t ! wd" "wf_off (u_offset (udata t))" using t(1) A(2) by (simp_all add: dir_read_def)
        show "whole_dir (bview t) c N" by (rule dir_read_whole(1)[OF t(1) A(5)])
        show "names oldname (entry_at (bview t) c e)" using A(11) dir_read_whole(2)[OF t(1) A(5,9)] by simp
        show "\<forall>i. j + 1 \<le> i \<and> i < e \<longrightarrow> \<not> names oldname (entry_at (bview t) c i)"
          using A(12) dir_read_whole(2)[OF t(1) A(5)] A(9) by (metis Suc_eq_plus1 Suc_leD order.strict_trans)
      qed (use A j t in simp_all)
      then have "wp (ch_link_find fuel wd oldname) (\<lambda>_ u. dir_read s u \<and> u_count (udata u) = 16 \<and> off_pos (u_offset (udata u)) = 16 * (e + 1)) t"
        by (rule wp_mono) (use dir_read_trans[OF t(1)] in blast)
      then show ?thesis using no nm t(2) by simp
    qed
  qed
qed simp

section \<open>Writing an entry\<close>

definition new_entry :: "u16 \<Rightarrow> cstr \<Rightarrow> direct" where
  "new_entry inum name = \<lparr>d_ino = inum, d_name = map (char_at name) [0..<14]\<rparr>"

lemma component_char_at: "take n (component (map (char_at p) [0..<n])) = take n (component p)"
proof (induction n arbitrary: p)
  case (Suc n)
  have m: "map (char_at p) [0..<Suc n] = deref p # map (char_at (tl p)) [0..<n]"
    by (rule nth_equalityI) (auto simp: nth_Cons' char_at_def nth_tl deref_def hd_conv_nth split: list.split simp del: upt_Suc)
  show ?case
    unfolding m using Suc[of "tl p"] component_step[of p] component_deref[of p] by (cases "deref p = 0 \<or> deref p = 47") auto
qed simp

lemma names_new_entry: "names name (new_entry inum name)"
  by (simp add: names_def namecomp_def namecomp_loop_iff new_entry_def component_char_at)

lemma back_16_pos:
  assumes "wf_off p" and "off_pos p = 16 * (e + 1)"
  shows "wf_off (back_16 p) \<and> off_pos (back_16 p) = 16 * e"
proof -
  define b x where "b = unat (o_blkno p)" and "x = unat (o_offset p)"
  have x: "x < 512" "512 * b + x = 16 * (e + 1)" using assms by (simp_all add: wf_off_def off_pos_def b_def x_def)
  show ?thesis
  proof (cases "o_offset p = 0")
    case True
    then have "x = 0" by (simp add: x_def)
    then have "0 < b" using x by simp
    then have "unat (o_blkno p - 1) = b - 1" by (subst unat_sub_le) (simp_all add: b_def)
    moreover have "512 * (b - 1) + 496 = 16 * e" using x(2) \<open>x = 0\<close> \<open>0 < b\<close> by simp
    ultimately show ?thesis using True by (simp add: back_16_def Let_def wf_off_def off_pos_def)
  next
    case False
    then have "0 < x" by (simp add: x_def unat_gt_0)
    moreover have "16 dvd 512 * b + x" unfolding x(2) by simp
    then have "16 dvd x" by (subst (asm) dvd_add_right_iff) simp_all
    ultimately have "16 \<le> x" by (intro dvd_imp_le)
    then have u: "unat (o_offset p - 16) = x - 16" by (subst unat_sub_le) (simp_all add: x_def)
    have "512 * b + (x - 16) = 16 * e" using x(2) \<open>16 \<le> x\<close> by simp
    then show ?thesis using False u x(1) by (simp add: back_16_def Let_def wf_off_def off_pos_def b_def)
  qed
qed

lemma set_curentry_mem:
  assumes "set_curentry inum name s = Ret () t" and "k < 16"
  shows "mem t (at_curentry (lnk s) + of_nat k) = direct_byte (new_entry inum name) k"
proof -
  have "unat (of_nat k :: u16) = k" using assms(2) by (intro unat_of_small) simp
  moreover have "map (char_at name) [0..<14] ! (k - 2) = char_at name (k - 2)" if "2 \<le> k"
    using assms(2) that by (subst nth_map) simp_all
  ultimately show ?thesis
    using assms by (auto simp: set_curentry_def modK_def Let_def new_entry_def direct_byte_def)
qed

text \<open>Writing 16 bytes over entry \<open>e\<close> updates the list of entries there.\<close>

lemma wrote_entry:
  assumes w: "wrote c N (16 * e) 16 s t" and dir: "whole_dir (bview s) c N" and e: "e < 32 * N"
    and m: "\<And>k. k < 16 \<Longrightarrow> mem s (u_base (udata s) + of_nat k) = direct_byte d k" and d: "length (d_name d) = 14"
  shows "whole_dir (bview t) c N \<and> dir_entries (bview t) c = (dir_entries (bview s) c)[e := d]"
proof -
  have wt: "whole_dir (bview t) c N" using w dir by (simp add: wrote_def whole_dir_def)
  have "dir_entries (bview t) c = (dir_entries (bview s) c)[e := d]"
  proof (rule nth_equalityI)
    show "length (dir_entries (bview t) c) = length ((dir_entries (bview s) c)[e := d])"
      using dir_entries_at(1)[OF wt] dir_entries_at(1)[OF dir] by simp
    fix i assume "i < length (dir_entries (bview t) c)"
    then have i: "i < 32 * N" using dir_entries_at(1)[OF wt] by simp
    have b: "file_byte (bview t) c (16 * i + k) = (if i = e then direct_byte d k else file_byte (bview s) c (16 * i + k))" if k: "k < 16" for k
    proof -
      have "16 * i + k < 512 * N" using i k by linarith
      moreover have "16 * e \<le> 16 * i + k \<and> 16 * i + k < 16 * e + 16 \<longleftrightarrow> i = e" using k by auto
      ultimately show ?thesis using w m[OF k] by (auto simp: wrote_def)
    qed
    have "entry_at (bview t) c i = (if i = e then d else entry_at (bview s) c i)"
    proof (cases "i = e")
      case True
      then show ?thesis unfolding entry_at_def using b d by (subst get_put_direct[of _ 0 d]) simp_all
    next
      case False
      then show ?thesis unfolding entry_at_def using b by (auto intro!: get_direct_cong)
    qed
    then show "dir_entries (bview t) c ! i = (dir_entries (bview s) c)[e := d] ! i"
      using dir_entries_at[OF wt] dir_entries_at[OF dir] i e by (simp add: nth_list_update)
  qed
  then show ?thesis using wt by simp
qed

section \<open>ch_link\<close>

text \<open>The inode without its times and its dirty mark.\<close>

definition same_file :: "cinode \<Rightarrow> cinode \<Rightarrow> bool" where
  "same_file c d \<longleftrightarrow> i_addr (c_node d) = i_addr (c_node c) \<and> i_size (c_node d) = i_size (c_node c) \<and>
     i_mode (c_node d) = i_mode (c_node c) \<and> c_dev d = c_dev c \<and> c_num d = c_num c"

lemma same_file_dir:
  assumes "same_file c d"
  shows "dir_entries V d = dir_entries V c" "whole_dir V d N = whole_dir V c N" "getmode d = getmode c" "c_dev d = c_dev c"
proof -
  have a: "i_addr (c_node d) = i_addr (c_node c)" using assms by (simp add: same_file_def)
  note f = same_addr[OF a]
  have i: "ind_path V d n = ind_path V c n" for n using a by (simp add: ind_path_def Let_def)
  show "dir_entries V d = dir_entries V c"
    using assms by (simp add: dir_entries_def dir_blocks_def f same_file_def)
  show "whole_dir V d N = whole_dir V c N"
    using assms by (simp add: whole_dir_def wf_tree_def f i same_file_def)
  show "getmode d = getmode c" "c_dev d = c_dev c" using assms by (simp_all add: same_file_def getmode_def)
qed

lemma touch_dir_spec:
  assumes "wd < length (i_tab s)" and "o_offset (i_size (c_node (i_tab s ! wd))) = 0"
  shows "wp (touch_dir wd) (\<lambda>_ t. \<exists>d. t = s\<lparr>i_tab := (i_tab s)[wd := d]\<rparr> \<and> same_file (i_tab s ! wd) d) s"
  using assms by (auto simp: touch_dir_def setftime_def wp_def run_simps access_defs same_file_def)

lemma find_update:
  assumes "e < length xs" and "P d" and "\<forall>j<e. \<not> P (xs ! j)"
  shows "find P (xs[e := d]) = Some d"
  using assms
proof (induction xs arbitrary: e)
  case (Cons x xs)
  show ?case
  proof (cases e)
    case (Suc k)
    then have "\<not> P x" "\<forall>j<k. \<not> P (xs ! j)" using Cons.prems(3) by (auto dest: spec[of _ 0] spec[of _ "Suc _"])
    then show ?thesis using Cons Suc by simp
  qed (use Cons in simp)
qed simp

text \<open>The search of a whole directory.\<close>

lemma srch_whole_dir:
  assumes "idle s" and "c = i_tab s ! wd" "c_dev c = 0" "getmode c = F_DIR" and "whole_dir (bview s) c N"
    and "find (names name) (dir_entries (bview s) c) = Some d"
  shows "\<exists>t. cache_step s (bview s) t \<and> srch_dir wd name s = i_open 0 (d_ino d) t"
proof -
  have N: "N < 65536" using assms(5) by (simp add: whole_dir_def)
  have "\<forall>b\<in>set (dir_blocks c). real_blk (bview s) c (unat b)"
    unfolding whole_dir_blocks[OF assms(5)]
    using assms(5) N by (auto simp: real_blk_def whole_dir_def wf_tree_def unat_of_small)
  moreover have "srch_dir wd name s = srch_blocks wd name (dir_blocks c) s"
    using assms(2) by (simp add: srch_dir_def get_ino_def run_simps)
  ultimately show ?thesis
    using srch_blocks_find[OF assms(1-3) _ , of "dir_blocks c" name] assms(4,6) by (simp add: dir_entries_def)
qed

text \<open>From \<open>s\<close> to \<open>t\<close> entry \<open>e\<close> of the directory has become \<open>d\<close>; \<open>c'\<close> is its inode in \<open>t\<close>.\<close>

definition dir_updated :: "kst \<Rightarrow> cinode \<Rightarrow> nat \<Rightarrow> nat \<Rightarrow> direct \<Rightarrow> kst \<Rightarrow> cinode \<Rightarrow> bool" where
  "dir_updated s c N e d t c' \<longleftrightarrow> whole_dir (bview t) c' N \<and> dir_entries (bview t) c' = (dir_entries (bview s) c)[e := d] \<and>
     (\<forall>b k. unat b < 2048 \<longrightarrow> k < 512 \<longrightarrow> (\<forall>m<N. file_blk (bview s) c m \<noteq> b) \<longrightarrow> bview t b k = bview s b k)"

lemma dir_updated_read:
  assumes t: "dir_read s t" and dir: "whole_dir (bview s) c N"
  shows "dir_updated t c N e d u c' \<longleftrightarrow> dir_updated s c N e d u c'"
proof -
  have wt: "whole_dir (bview t) c N" by (rule dir_read_whole(1)[OF t dir])
  have "dir_entries (bview t) c = dir_entries (bview s) c"
  proof (rule nth_equalityI)
    show "length (dir_entries (bview t) c) = length (dir_entries (bview s) c)" by (simp add: dir_entries_at(1)[OF wt] dir_entries_at(1)[OF dir])
    fix i assume "i < length (dir_entries (bview t) c)"
    then have i: "i < 32 * N" by (simp add: dir_entries_at(1)[OF wt])
    then show "dir_entries (bview t) c ! i = dir_entries (bview s) c ! i"
      using dir_read_whole(2)[OF t dir i] by (simp add: dir_entries_at(2)[OF wt i] dir_entries_at(2)[OF dir i])
  qed
  moreover have "file_blk (bview t) c m = file_blk (bview s) c m" if "m < N" for m
    using dir_read_blocks(2)[OF t _ that] dir by (simp add: whole_dir_def)
  moreover have "bview t b k = bview s b k" if "unat b < 2048" "k < 512" for b k
    using t that by (simp add: dir_read_def same_view_def)
  ultimately show ?thesis by (auto simp: dir_updated_def)
qed

lemma dir_updated_same_file: "same_file c d \<Longrightarrow> bview v = bview u \<Longrightarrow> dir_updated s c0 N e x u c \<Longrightarrow> dir_updated s c0 N e x v d"
  by (simp add: dir_updated_def same_file_dir)

text \<open>The new entry is found, unless one before it has the name.\<close>

lemma dir_updated_found:
  assumes "idle t" and "c' = i_tab t ! wd" "c_dev c' = 0" "getmode c' = F_DIR"
    and up: "dir_updated s c N e (new_entry inum name) t c'" and dir: "whole_dir (bview s) c N" and "e < 32 * N"
    and "\<forall>j<e. \<not> names name (dir_entries (bview s) c ! j)"
  shows "\<exists>u. cache_step t (bview t) u \<and> srch_dir wd name t = i_open 0 inum u"
proof -
  have "e < length (dir_entries (bview s) c)" using assms(7) by (simp add: dir_entries_at(1)[OF dir])
  then have "find (names name) (dir_entries (bview t) c') = Some (new_entry inum name)"
    using up assms(8) by (simp add: dir_updated_def find_update names_new_entry)
  moreover have "whole_dir (bview t) c' N" using up by (simp add: dir_updated_def)
  moreover have "d_ino (new_entry inum name) = inum" by (simp add: new_entry_def)
  ultimately show ?thesis using srch_whole_dir[OF assms(1-4)] by metis
qed

text \<open>The new entry written over entry \<open>e\<close>, behind which the search has stopped.\<close>

lemma put_curentry_spec:
  assumes "idle s" and c: "c = i_tab s ! wd" "c_dev c = 0" "getmode c = F_DIR" "wd < length (i_tab s)"
    and dir: "whole_dir (bview s) c N" and at: "wf_off (u_offset (udata s))" "off_pos (u_offset (udata s)) = 16 * (e + 1)" "e < 32 * N"
    and cnt: "u_count (udata s) = 16" and inum: "inum = (case nindex of None \<Rightarrow> 0 | Some n \<Rightarrow> c_num (i_tab s ! n))"
  shows "wp (put_curentry wd newname nindex) (\<lambda>_ t. idle t \<and> dir_updated s c N e (new_entry inum newname) t c \<and>
     i_tab t = i_tab s \<and> u_error (udata t) = u_error (udata s)) s"
proof -
  obtain s1 where s1: "set_curentry inum newname s = Ret () s1" "\<exists>m. s1 = s\<lparr>mem := m\<rparr>"
    unfolding set_curentry_def modK_def by blast
  define u where "u = s1\<lparr>udata := (udata s1)\<lparr>u_offset := back_16 (u_offset (udata s1)), u_count := 16, u_base := at_curentry (lnk s1)\<rparr>\<rparr>"
  have run: "wp (put_curentry wd newname nindex) Q s = wp (writei [] wd) Q u" for Q
    using s1 cnt inum by (cases nindex) (auto simp: put_curentry_def wp_def run_simps access_defs u_def)
  have u: "bview u = bview s" "i_tab u = i_tab s" "u_count (udata u) = 16" "u_base (udata u) = at_curentry (lnk s)"
    "u_offset (udata u) = back_16 (u_offset (udata s))" "idle u" "u_error (udata u) = u_error (udata s)" "mem u = mem s1"
    using s1(2) assms(1) by (auto simp: u_def idle_def)
  have pos: "wf_off (u_offset (udata u))" "16 * e = off_pos (u_offset (udata u))"
    using back_16_pos[OF at(1,2)] u(5) by simp_all
  note sz = whole_dir_size[OF dir]
  have N: "N < 65536" "wf_tree (bview u) c N" using dir by (simp_all add: whole_dir_def u(1))
  have full: "\<forall>q. 16 * e \<le> q \<and> q < 16 * e + 16 \<longrightarrow> file_blk (bview u) c (q div 512) \<noteq> NULLBLK"
  proof (intro allI impI)
    fix q assume "16 * e \<le> q \<and> q < 16 * e + 16"
    then have "q < 512 * N" using at(3) by linarith
    then have "q div 512 < N" by (simp add: div_less_iff_less_mult mult.commute)
    then show "file_blk (bview u) c (q div 512) \<noteq> NULLBLK" using dir by (simp add: whole_dir_def u(1))
  qed
  have "wp (writei [] wd) (\<lambda>_ t. \<exists>p. off_pos p = 16 * e + 16 \<and> wf_off p \<and> u_offset (udata t) = p \<and>
     wrote c N (16 * e) 16 u t \<and> mem t = mem u \<and> u_count (udata t) = u_count (udata u) \<and>
     u_error (udata t) = u_error (udata u) \<and> i_tab t = (i_tab u)[wd := grown p c]) u"
    by (rule writei_spec[OF u(6) _ c(2) _ _ _ pos _ _ _ N(2) _ full]) (use u c sz at(3) N(1) in simp_all)
  then show ?thesis
    unfolding run
  proof (rule wp_mono)
    fix x :: unit and t
    assume "\<exists>p. off_pos p = 16 * e + 16 \<and> wf_off p \<and> u_offset (udata t) = p \<and>
     wrote c N (16 * e) 16 u t \<and> mem t = mem u \<and> u_count (udata t) = u_count (udata u) \<and>
     u_error (udata t) = u_error (udata u) \<and> i_tab t = (i_tab u)[wd := grown p c]"
    then obtain p where p: "off_pos p = 16 * e + 16" and w: "wrote c N (16 * e) 16 u t"
      and t: "u_error (udata t) = u_error (udata u)" "i_tab t = (i_tab u)[wd := grown p c]" by blast
    have "grown p c = c" using p sz at(3) by (simp add: grown_def)
    then have tab: "i_tab t = i_tab s" using t(2) u(2) c(1) by simp
    have m: "mem u (u_base (udata u) + of_nat k) = direct_byte (new_entry inum newname) k" if "k < 16" for k
      using set_curentry_mem[OF s1(1) that] u by simp
    have "length (d_name (new_entry inum newname)) = 14" by (simp add: new_entry_def)
    then have "whole_dir (bview t) c N \<and> dir_entries (bview t) c = (dir_entries (bview s) c)[e := new_entry inum newname]"
      using wrote_entry[OF w _ at(3) m] dir by (simp add: u(1))
    then show "idle t \<and> dir_updated s c N e (new_entry inum newname) t c \<and>
     i_tab t = i_tab s \<and> u_error (udata t) = u_error (udata s)"
      using w t(1) tab u by (simp add: wrote_def dir_updated_def)
  qed
qed

lemma ch_link_run:
  assumes "getperm (i_tab s ! wd) s AND OTH_WR \<noteq> 0"
    and "wp (ch_link_find 2097153 wd oldname) (\<lambda>_ t. u_count (udata t) \<noteq> 0 \<and> wp (put_curentry wd newname nindex) (\<lambda>_ u.
       u_error (udata u) = 0 \<and> wp (touch_dir wd) (\<lambda>_. Q True) u) t) (s\<lparr>udata := (udata s)\<lparr>u_offset := \<lparr>o_blkno = 0, o_offset = 0\<rparr>\<rparr>\<rparr>)"
  shows "wp (ch_link wd oldname newname nindex) Q s"
  using assms by (auto simp: ch_link_def elim!: wp_mono)

text \<open>
  C11: Over a directory as its list of entries, \<open>ch_link\<close> is the update of the first entry with the
  old name: in a writable directory of whole blocks where such an entry is, it succeeds, the
  entry is replaced by the new name and the number of the inode (0 for none), and every other
  entry, every block outside the directory and the length of the directory stay. When no entry
  before has the new name, \<open>srch_dir\<close> then finds it and opens that inode.
\<close>

theorem ch_link_updates:
  assumes "idle s" and "c = i_tab s ! wd" and "c_dev c = 0" and "getmode c = F_DIR" and "wd < length (i_tab s)"
    and "whole_dir (bview s) c N" and "getperm c s AND OTH_WR \<noteq> 0" and "u_error (udata s) = 0"
    and "e < 32 * N" and "names oldname (dir_entries (bview s) c ! e)" and "\<forall>j<e. \<not> names oldname (dir_entries (bview s) c ! j)"
    and "inum = (case nindex of None \<Rightarrow> 0 | Some n \<Rightarrow> c_num (i_tab s ! n))"
  shows "wp (ch_link wd oldname newname nindex) (\<lambda>r t. r \<and>
     dir_updated s c N e (new_entry inum newname) t (i_tab t ! wd) \<and>
     ((\<forall>j<e. \<not> names newname (dir_entries (bview s) c ! j)) \<longrightarrow>
       (\<exists>u. cache_step t (bview t) u \<and> srch_dir wd newname t = i_open 0 inum u))) s"
proof (rule ch_link_run)
  note dir = assms(6)
  let ?s = "s\<lparr>udata := (udata s)\<lparr>u_offset := \<lparr>o_blkno = 0, o_offset = 0\<rparr>\<rparr>\<rparr>"
  let ?Q = "\<lambda>r t. r \<and> dir_updated s c N e (new_entry inum newname) t (i_tab t ! wd) \<and>
     ((\<forall>j<e. \<not> names newname (dir_entries (bview s) c ! j)) \<longrightarrow>
       (\<exists>u. cache_step t (bview t) u \<and> srch_dir wd newname t = i_open 0 inum u))"
  show "getperm (i_tab s ! wd) s AND OTH_WR \<noteq> 0" using assms(2,7) by simp
  have dir0: "whole_dir (bview ?s) c N" using dir by simp
  have "wp (ch_link_find 2097153 wd oldname) (\<lambda>_ t. dir_read ?s t \<and> u_count (udata t) = 16 \<and>
     off_pos (u_offset (udata t)) = 16 * (e + 1)) ?s"
  proof (rule ch_link_find_spec[where j = 0 and c = c and N = N])
    show "idle ?s" "c = i_tab ?s ! wd" "c_dev c = 0" "getmode c = F_DIR" "whole_dir (bview ?s) c N"
      "wf_off (u_offset (udata ?s))" "off_pos (u_offset (udata ?s)) = 16 * 0" "0 \<le> e" "e < 32 * N"
      using assms by (simp_all add: idle_def wf_off_def off_pos_def)
    show "e - 0 < 2097153" using assms(9) dir by (simp add: whole_dir_def)
    show "names oldname (entry_at (bview ?s) c e)" "\<forall>i. 0 \<le> i \<and> i < e \<longrightarrow> \<not> names oldname (entry_at (bview ?s) c i)"
      using assms(9-11) dir_entries_at(2)[OF dir] by simp_all
  qed
  then show "wp (ch_link_find 2097153 wd oldname) (\<lambda>_ t. u_count (udata t) \<noteq> 0 \<and> wp (put_curentry wd newname nindex) (\<lambda>_ u.
       u_error (udata u) = 0 \<and> wp (touch_dir wd) (\<lambda>_. ?Q True) u) t) ?s"
  proof (rule wp_mono, elim conjE, intro conjI)
    fix x :: unit and t
    assume t: "dir_read ?s t" "u_count (udata t) = 16" "off_pos (u_offset (udata t)) = 16 * (e + 1)"
    show "u_count (udata t) \<noteq> 0" using t(2) by simp
    have tab: "i_tab t = i_tab s" "idle t" "wf_off (u_offset (udata t))" "u_error (udata t) = 0"
      using t(1) assms(8) by (simp_all add: dir_read_def)
    have inum: "inum = (case nindex of None \<Rightarrow> 0 | Some n \<Rightarrow> c_num (i_tab t ! n))" using assms(12) by (simp only: tab(1))
    have ct: "c = i_tab t ! wd" "wd < length (i_tab t)" using assms(2,5) tab(1) by simp_all
    show "wp (put_curentry wd newname nindex) (\<lambda>_ u. u_error (udata u) = 0 \<and> wp (touch_dir wd) (\<lambda>_. ?Q True) u) t"
    proof (rule wp_mono[OF put_curentry_spec[OF tab(2) ct(1) assms(3,4) ct(2) dir_read_whole(1)[OF t(1) dir0] tab(3) t(3) assms(9) t(2) inum]],
        elim conjE, intro conjI)
      fix y :: unit and u
      assume u: "idle u" "dir_updated t c N e (new_entry inum newname) u c" "i_tab u = i_tab t" "u_error (udata u) = u_error (udata t)"
      show "u_error (udata u) = 0" using u(4) tab(4) by simp
      have up: "dir_updated s c N e (new_entry inum newname) u c"
        using u(2) dir_updated_read[OF t(1) dir0] by (simp add: dir_updated_def)
      show "wp (touch_dir wd) (\<lambda>_. ?Q True) u"
      proof (rule wp_mono[OF touch_dir_spec], goal_cases)
        case (3 z v)
        then obtain d where v: "v = u\<lparr>i_tab := (i_tab u)[wd := d]\<rparr>" "same_file c d" using u(3) ct(1) by auto
        have d: "i_tab v ! wd = d" "bview v = bview u" "idle v" using v(1) u(1,3) ct(2) by (simp_all add: idle_def)
        have "dir_updated s c N e (new_entry inum newname) v d" by (rule dir_updated_same_file[OF v(2) d(2) up])
        moreover have "c_dev d = 0" "getmode d = F_DIR" using same_file_dir[OF v(2)] assms(3,4) by simp_all
        ultimately show ?case
          using dir_updated_found[OF d(3) d(1)[symmetric] _ _ _ dir assms(9)] by (simp add: d(1))
      qed (use u(3) ct dir in \<open>simp_all add: whole_dir_def\<close>)
    qed
  qed
qed

theorem ch_link_updates_witness:
  "wp (ch_link 3 [0] [97, 0] (Some 4)) (\<lambda>r t. r \<and> (\<exists>u. srch_dir 3 [97, 0] t = i_open 0 5 u))
     (one_dir\<lparr>i_tab := (i_tab one_dir)[4 := zero_cinode\<lparr>c_num := 5\<rparr>]\<rparr>)"
proof -
  define s where "s = one_dir\<lparr>i_tab := (i_tab one_dir)[4 := zero_cinode\<lparr>c_num := 5\<rparr>]\<rparr>"
  define c where "c = i_tab s ! 3"
  have c: "c = zero_cinode\<lparr>c_node := zero_dinode\<lparr>i_mode := F_DIR, i_size := \<lparr>o_blkno = 1, o_offset = 0\<rparr>, i_addr := 7 # replicate 19 0\<rparr>\<rparr>"
    by (simp add: c_def s_def one_dir_ino)
  have len: "length (i_tab one_dir) = ITABSIZE" by (simp add: one_dir_def empty_cache_def bss_def)
  have blk: "file_blk V c 0 = 7" for V by (simp add: file_blk_def c or_null_def)
  have view: "bview s b k = 0" for b k using one_dir_zero by (simp add: s_def)
  have dir: "whole_dir (bview s) c 1"
    by (simp add: whole_dir_def wf_tree_def c[symmetric] blk blk_ok_def good_blk_def ind_path_def) (simp add: c)
  have ent: "dir_entries (bview s) c ! 0 = entry_at (bview s) c 0" by (rule dir_entries_at(2)[OF dir]) simp
  have "file_byte (bview s) c k = 0" for k by (simp add: file_byte_def blk_byte_def view)
  then have "component (d_name (entry_at (bview s) c 0)) = []" by (simp add: entry_at_def get_direct_def component_deref upt_conv_Cons)
  then have nm: "names [0] (dir_entries (bview s) c ! 0)" unfolding ent names_def namecomp_def by (simp add: namecomp_loop_iff)
  have "idle s" using idle_empty_cache by (simp add: s_def one_dir_def idle_def)
  moreover have "getperm c s AND OTH_WR \<noteq> 0" "u_error (udata s) = 0" "c_dev c = 0" "getmode c = F_DIR" "3 < length (i_tab s)"
    using len by (simp_all add: getperm_def super_def s_def one_dir_def empty_cache_def bss_def zero_udata_def c zero_cinode_def getmode_def)
  moreover have "5 = (case Some 4 of None \<Rightarrow> 0 | Some n \<Rightarrow> c_num (i_tab s ! n))" using len by (simp add: s_def)
  ultimately have "wp (ch_link 3 [0] [97, 0] (Some 4)) (\<lambda>r t. r \<and> dir_updated s c 1 0 (new_entry 5 [97, 0]) t (i_tab t ! 3) \<and>
     ((\<forall>j<0. \<not> names [97, 0] (dir_entries (bview s) c ! j)) \<longrightarrow>
       (\<exists>u. cache_step t (bview t) u \<and> srch_dir 3 [97, 0] t = i_open 0 5 u))) s"
    using ch_link_updates[of s c 3 1 0 "[0]" 5 "Some 4" "[97, 0]"] dir nm by (simp add: c_def)
  then show ?thesis unfolding s_def[symmetric] by (rule wp_mono) auto
qed

end
