(* ===== verification/Free_Blocks.thy ===== *)
theory Free_Blocks
  imports Alloc
begin

text \<open>
  The free list of blocks - part in the superblock in memory, the rest chained through free
  blocks - abstracted to the list of free blocks in the order they will be allocated.
  \<open>blk_alloc\<close> and \<open>blk_free\<close> refine pop and push on it; the locale \<open>block_stack\<close> lifts this to
  sequences of requests.
\<close>

section \<open>The free list\<close>

text \<open>
  \<open>free_chain V chunk l\<close>: a chunk of the list - the first \<open>s_nfree\<close> entries - whose first
  entry is 0 (the end) or the number of the free block that holds the next chunk, stands for
  the free blocks \<open>l\<close>, the next one to be allocated first. \<open>V b k\<close> is word \<open>k\<close> of block \<open>b\<close>.
\<close>

inductive free_chain :: "(u16 \<Rightarrow> nat \<Rightarrow> u16) \<Rightarrow> u16 list \<Rightarrow> u16 list \<Rightarrow> bool" for V where
  chain_end: "free_chain V (0 # fs) (rev fs)"
| chain_link: "b \<noteq> 0 \<Longrightarrow> 1 \<le> unat (V b 0) \<Longrightarrow> unat (V b 0) \<le> 50 \<Longrightarrow>
    free_chain V (map (V b) [1..<Suc (unat (V b 0))]) l \<Longrightarrow> free_chain V (b # fs) (rev fs @ b # l)"

inductive_cases free_chain_ConsE: "free_chain V (b # fs) l"
inductive_simps free_chain_Cons: "free_chain V (b # fs) l"
inductive_simps free_chain_Nil: "free_chain V [] l"

lemma free_chain_push: "free_chain V fr l \<Longrightarrow> free_chain V (fr @ [b]) (b # l)"
proof (cases fr)
  case (Cons a fs)
  assume "free_chain V fr l"
  with Cons show ?thesis
    by (auto simp: free_chain_Cons)
qed (simp add: free_chain_Nil)

lemma free_chain_pop:
  assumes "free_chain V (fr @ [b]) l" and "fr \<noteq> []"
  shows "\<exists>l'. l = b # l' \<and> free_chain V fr l'"
  using assms by (cases fr) (auto simp: free_chain_Cons)

lemma free_chain_single:
  "free_chain V [b] l \<longleftrightarrow> (if b = 0 then l = [] else 1 \<le> unat (V b 0) \<and> unat (V b 0) \<le> 50 \<and>
     (\<exists>l'. l = b # l' \<and> free_chain V (map (V b) [1..<Suc (unat (V b 0))]) l'))"
  by (auto simp: free_chain_Cons)

lemma free_chain_cong:
  "free_chain V fr l \<Longrightarrow> (\<And>b k. b \<in> set l \<Longrightarrow> k \<le> 50 \<Longrightarrow> W b k = V b k) \<Longrightarrow> free_chain W fr l"
proof (induction rule: free_chain.induct)
  case (chain_end fs)
  show ?case by (rule free_chain.chain_end)
next
  case (chain_link b l fs)
  have w: "W b k = V b k" if "k \<le> 50" for k using chain_link.prems that by simp
  have m: "map (W b) [1..<Suc (unat (V b 0))] = map (V b) [1..<Suc (unat (V b 0))]"
    by (rule map_cong[OF refl]) (use w chain_link.hyps in auto)
  have "free_chain W (map (V b) [1..<Suc (unat (V b 0))]) l"
    using chain_link.prems by (intro chain_link.IH) simp
  then have "free_chain W (map (W b) [1..<Suc (unat (W b 0))]) l"
    unfolding w[of 0, simplified] m .
  then show ?case using chain_link.hyps w[of 0] by (intro free_chain.chain_link) simp_all
qed

text \<open>The free blocks of the root device, as the superblock in memory and the cache show them.\<close>

definition view_words :: "kst \<Rightarrow> u16 \<Rightarrow> nat \<Rightarrow> u16" where
  "view_words s b k = word_at (bview s b) k"

definition free_list :: "kst \<Rightarrow> u16 list \<Rightarrow> bool" where
  "free_list s l \<longleftrightarrow> (let fs = fs_tab s ! 0 in
     s_mounted fs = SMOUNTED \<and> length (s_free fs) = 50 \<and> length (s_inode fs) = 50 \<and>
     1 \<le> unat (s_nfree fs) \<and> unat (s_nfree fs) \<le> 50 \<and>
     free_chain (view_words s) (take (unat (s_nfree fs)) (s_free fs)) l \<and>
     unat (s_tfree fs) = length l \<and> distinct l \<and>
     (\<forall>b\<in>set l. b \<noteq> 0 \<and> s_isize fs \<le> b \<and> b < s_fsize fs \<and> unat b < 2048))"

section \<open>Block allocation and release on the free list\<close>

text \<open>What an allocation or release may change, besides showing \<open>v\<close> in the cache.\<close>

definition alloc_frame :: "kst \<Rightarrow> kst \<Rightarrow> bool" where
  "alloc_frame s t \<longleftrightarrow> (\<exists>bp bc cr ub er fs. t = s\<lparr>bufpool := bp, bufclock := bc, chr_ram := cr,
       udata := (udata s)\<lparr>u_buf := ub, u_error := er\<rparr>, fs_tab := (fs_tab s)[0 := fs]\<rparr> \<and>
     s_isize fs = s_isize (fs_tab s ! 0) \<and> s_fsize fs = s_fsize (fs_tab s ! 0) \<and>
     s_mounted fs = s_mounted (fs_tab s ! 0) \<and> s_mntpt fs = s_mntpt (fs_tab s ! 0) \<and>
     s_ninode fs = s_ninode (fs_tab s ! 0) \<and> s_inode fs = s_inode (fs_tab s ! 0) \<and>
     s_tinode fs = s_tinode (fs_tab s ! 0))"

definition alloc_step :: "kst \<Rightarrow> (u16 \<Rightarrow> bytes) \<Rightarrow> kst \<Rightarrow> bool" where
  "alloc_step s v t \<longleftrightarrow> buf_inv t \<and> busy_same s t \<and> alloc_frame s t \<and>
     (\<forall>c k. unat c < 2048 \<longrightarrow> k < 512 \<longrightarrow> bview t c k = v c k)"

lemma alloc_frameI:
  assumes "buf_frame (s\<lparr>fs_tab := (fs_tab s)[0 := fs], udata := (udata s)\<lparr>u_error := er\<rparr>\<rparr>) t"
    and "s_isize fs = s_isize (fs_tab s ! 0) \<and> s_fsize fs = s_fsize (fs_tab s ! 0) \<and>
     s_mounted fs = s_mounted (fs_tab s ! 0) \<and> s_mntpt fs = s_mntpt (fs_tab s ! 0) \<and>
     s_ninode fs = s_ninode (fs_tab s ! 0) \<and> s_inode fs = s_inode (fs_tab s ! 0) \<and>
     s_tinode fs = s_tinode (fs_tab s ! 0)"
  shows "alloc_frame s t"
proof -
  obtain bp bc cr ub where "t = s\<lparr>fs_tab := (fs_tab s)[0 := fs], udata := (udata s)\<lparr>u_error := er\<rparr>\<rparr>
      \<lparr>bufpool := bp, bufclock := bc, chr_ram := cr, udata := (udata s)\<lparr>u_error := er, u_buf := ub\<rparr>\<rparr>"
    using assms(1) unfolding buf_frame_def by auto
  then have "t = s\<lparr>bufpool := bp, bufclock := bc, chr_ram := cr,
       udata := (udata s)\<lparr>u_buf := ub, u_error := er\<rparr>, fs_tab := (fs_tab s)[0 := fs]\<rparr>" by simp
  then show ?thesis using assms(2) unfolding alloc_frame_def by blast
qed

lemma buf_frame_keeps: "buf_frame s t \<Longrightarrow> fs_tab t = fs_tab s \<and> u_error (udata t) = u_error (udata s)"
  unfolding buf_frame_def by auto

lemma buf_frame_fs:
  assumes "buf_frame (s\<lparr>fs_tab := x\<rparr>) t"
  shows "buf_frame (s\<lparr>fs_tab := y\<rparr>) (t\<lparr>fs_tab := y\<rparr>)"
proof -
  obtain bp bc cr ub where "t = s\<lparr>fs_tab := x, bufpool := bp, bufclock := bc, chr_ram := cr,
      udata := (udata s)\<lparr>u_buf := ub\<rparr>\<rparr>"
    using assms unfolding buf_frame_def by auto
  then have "t\<lparr>fs_tab := y\<rparr> = s\<lparr>fs_tab := y\<rparr>\<lparr>bufpool := bp, bufclock := bc, chr_ram := cr,
      udata := (udata (s\<lparr>fs_tab := y\<rparr>))\<lparr>u_buf := ub\<rparr>\<rparr>" by simp
  then show ?thesis by (rule buf_frameI)
qed

lemma word_at_cong: "(\<And>j. j < 512 \<Longrightarrow> d j = e j) \<Longrightarrow> k < 256 \<Longrightarrow> word_at d k = word_at e k"
  unfolding word_at_def by (rule get16_cong) simp_all

lemma block_fun_free_words: "block_fun free_words"
  unfolding block_fun_def free_words_def by (auto intro!: word_at_cong)

lemma block_fun_zero: "k < 512 \<Longrightarrow> block_fun (\<lambda>d. zero_block d k)"
  by (simp add: block_fun_def zero_block_def)

lemma free_chain_view:
  assumes "free_chain (view_words s) fr l"
    and "\<And>c k. c \<in> set l \<Longrightarrow> k < 512 \<Longrightarrow> bview t c k = bview s c k"
  shows "free_chain (view_words t) fr l"
  by (rule free_chain_cong[OF assms(1)]) (auto simp: view_words_def intro!: word_at_cong assms(2))

lemma blk_alloc_tail:
  assumes inv: "buf_inv u" and free: "some_free u" and nh: "\<not> held u b" and len: "length (fs_tab u) = NDEVS"
    and fs: "s_mounted (fs_tab u ! 0) = SMOUNTED" "s_isize (fs_tab u ! 0) \<le> b" "b < s_fsize (fs_tab u ! 0)"
    and b: "unat b < 2048" and tf: "s_tfree (fs_tab u ! 0) \<noteq> 0"
  shows "wp (blk_alloc_take 0 b)
    (\<lambda>r t. r = b \<and> cache_step (u\<lparr>fs_tab := (fs_tab u)[0 := (fs_tab u ! 0)\<lparr>s_tfree := s_tfree (fs_tab u ! 0) - 1\<rparr>]\<rparr>)
        ((bview u)(b := zero_block (bview u b))) t) u"
proof -
  let ?u = "u\<lparr>fs_tab := (fs_tab u)[0 := (fs_tab u ! 0)\<lparr>s_tfree := s_tfree (fs_tab u ! 0) - 1\<rparr>]\<rparr>"
  have "wp (write_buf 0 b 2 zero_block) (\<lambda>_ t. cache_step ?u ((bview ?u)(b := zero_block (bview ?u b))) t) ?u"
    by (rule write_buf_spec) (use inv free nh b in \<open>simp_all add: block_fun_zero\<close>, simp add: zero_block_def)
  then show ?thesis
    using fs tf by (simp add: blk_alloc_take_def validblk_def not_less[symmetric])
qed

lemma count_range: "1 \<le> unat (w :: u16) \<Longrightarrow> unat w \<le> 50 \<Longrightarrow> \<not> sint w \<le> 0 \<and> \<not> 50 < sint w"
  by (subst (1 2) sint_small) linarith+

lemma wp_getdev:
  "0 \<le> d \<Longrightarrow> d < 5 \<Longrightarrow> wp (getdev d) Q = (\<lambda>s. s_mounted (fs_tab s ! nat d) \<noteq> 0 \<and>
     Q () (s\<lparr>fs_tab := (fs_tab s)[nat d := (fs_tab s ! nat d)\<lparr>s_time := rdtime s, s_fmod := 1\<rparr>]\<rparr>))"
  by (rule ext) (auto simp: getdev_def wp_def upd_fs_def modK_def)

lemma free_chain_view_words:
  "free_chain (view_words s) fr l \<Longrightarrow> bview t = bview s \<Longrightarrow> free_chain (view_words t) fr l"
  by (simp add: view_words_def[abs_def])

text \<open>After \<open>blk_alloc\<close> has taken \<open>b\<close>, the chunk in the superblock is \<open>nf\<close>, \<open>ws\<close>.\<close>

lemma blk_alloc_finish:
  assumes inv: "buf_inv s" and len: "length (fs_tab s) = NDEVS" and fl: "free_list s (b # l')"
    and fr: "buf_frame (s\<lparr>fs_tab := (fs_tab s)[0 := g]\<rparr>) t"
    and g: "g = (fs_tab s ! 0)\<lparr>s_time := tm, s_fmod := 1, s_nfree := nf, s_free := ws,
       s_tfree := s_tfree (fs_tab s ! 0) - 1\<rparr>"
    and ws: "length ws = 50" "1 \<le> unat nf" "unat nf \<le> 50" "free_chain (view_words s) (take (unat nf) ws) l'"
    and t: "buf_inv t" "busy_same s t"
    and v: "\<And>c k. unat c < 2048 \<Longrightarrow> k < 512 \<Longrightarrow> bview t c k = ((bview s)(b := zero_block (bview s b))) c k"
  shows "free_list t l' \<and> u_error (udata t) = u_error (udata s) \<and> alloc_step s ((bview s)(b := (\<lambda>_. 0))) t"
proof -
  note f = fl[unfolded free_list_def Let_def]
  have fs: "fs_tab t ! 0 = g" using fr len unfolding buf_frame_def by auto
  have nb: "b \<notin> set l'" and small: "\<forall>c\<in>set l'. unat c < 2048" using f by auto
  have "free_chain (view_words t) (take (unat nf) ws) l'"
  proof (rule free_chain_view[OF ws(4)])
    fix c k assume c: "c \<in> set l'" and k: "k < (512 :: nat)"
    have "c \<noteq> b" using c nb by blast
    then show "bview t c k = bview s c k" using v[of c k] c k small by simp
  qed
  moreover have "unat (s_tfree (fs_tab s ! 0) - 1) = length l'"
    using f by (subst unat_minus_1) simp_all
  ultimately have "free_list t l'"
    using f ws(1-3) unfolding free_list_def Let_def fs g by simp
  moreover have "alloc_frame s t"
    by (rule alloc_frameI[where fs = g and er = "u_error (udata s)"]) (use fr in \<open>simp_all add: g\<close>)
  moreover have "bview t c k = ((bview s)(b := (\<lambda>_. 0))) c k" if "unat c < 2048" "k < 512" for c k
    using v[OF that] that by (auto simp: zero_block_def)
  ultimately show ?thesis
    using t fr unfolding alloc_step_def buf_frame_def by auto
qed

lemma blk_alloc_spec:
  assumes inv: "buf_inv s" and free: "some_free s" and len: "length (fs_tab s) = NDEVS"
    and fl: "free_list s l" and nh: "\<forall>b\<in>set l. \<not> held s b"
  shows "wp (blk_alloc 0) (\<lambda>r t. case l of
      [] \<Rightarrow> r = 0 \<and> free_list t [] \<and> u_error (udata t) = ENOSPC \<and> alloc_step s (bview s) t
    | b # l' \<Rightarrow> r = b \<and> free_list t l' \<and> u_error (udata t) = u_error (udata s) \<and>
        alloc_step s ((bview s)(b := (\<lambda>_. 0))) t) s"
    (is "wp _ ?Q s")
proof -
  note f = fl[unfolded free_list_def Let_def]
  define f0 where "f0 = fs_tab s ! 0"
  define n where "n = s_nfree f0 - 1"
  define newno where "newno = s_free f0 ! unat n"
  define g where "g = f0\<lparr>s_time := rdtime s, s_fmod := 1, s_nfree := n\<rparr>"
  define u where "u = s\<lparr>fs_tab := (fs_tab s)[0 := g]\<rparr>"
  have n: "unat n = unat (s_nfree f0) - 1" unfolding n_def using f by (simp add: unat_minus_1 f0_def)
  have nf: "\<not> sint (s_nfree f0) \<le> 0" "\<not> 50 < sint (s_nfree f0)"
    using f count_range[of "s_nfree f0"] by (simp_all add: f0_def)
  have mt: "s_mounted f0 = SMOUNTED" and l50: "length (s_free f0) = 50" using f by (simp_all add: f0_def)
  have chain: "free_chain (view_words s) (take (unat n) (s_free f0) @ [newno]) l"
    using f take_snoc[of "unat (s_nfree f0)" "s_free f0"] by (simp add: newno_def n f0_def)
  have u0: "buf_inv u" "some_free u" "length (fs_tab u) = NDEVS" "fs_tab u ! 0 = g" "bview u = bview s"
    "\<And>c. held u c = held s c"
    using inv free len by (simp_all add: u_def)
  have "blk_alloc 0 s = (if newno = 0
      then (if s_tfree f0 \<noteq> 0 then blk_alloc_corrupt 0
            else thenK (doK [set_error ENOSPC, upd_fs 0 (\<lambda>f. f\<lparr>s_nfree := s_nfree f + 1\<rparr>)]) (retK 0)) u
      else thenK (whenK (n = 0) (bindK (read_buf 0 newno free_words) (\<lambda>(nf, ws).
               upd_fs 0 (\<lambda>f. f\<lparr>s_nfree := nf, s_free := ws\<rparr>))))
             (blk_alloc_take 0 newno) u)"
  proof -
    have gd: "getdev 0 s = Ret () (s\<lparr>fs_tab := (fs_tab s)[0 := f0\<lparr>s_time := rdtime s, s_fmod := 1\<rparr>]\<rparr>)"
      using mt by (simp add: getdev_def upd_fs_def modK_def f0_def)
    have up: "upd_fs 0 (\<lambda>f. f\<lparr>s_nfree := n\<rparr>) (s\<lparr>fs_tab := (fs_tab s)[0 := f0\<lparr>s_time := rdtime s, s_fmod := 1\<rparr>]\<rparr>) = Ret () u"
      using len by (simp add: upd_fs_def modK_def u_def g_def)
    show ?thesis
      using nf mt len
      by (simp add: blk_alloc_def run_simps(1-2,7-8) gd baddev_def Let_def newno_def up[unfolded n_def] n_def del: doK.simps)
  qed
  then have start: "wp (blk_alloc 0) ?Q s = (if newno = 0
      then wp (if s_tfree f0 \<noteq> 0 then blk_alloc_corrupt 0
            else thenK (doK [set_error ENOSPC, upd_fs 0 (\<lambda>f. f\<lparr>s_nfree := s_nfree f + 1\<rparr>)]) (retK 0)) ?Q u
      else wp (thenK (whenK (n = 0) (bindK (read_buf 0 newno free_words) (\<lambda>(nf, ws).
               upd_fs 0 (\<lambda>f. f\<lparr>s_nfree := nf, s_free := ws\<rparr>))))
             (blk_alloc_take 0 newno)) ?Q u)"
    unfolding wp_def by simp
  show ?thesis
  proof (cases "newno = 0")
    case True
    have one: "unat n = 0"
    proof (rule ccontr)
      assume "unat n \<noteq> 0"
      then have "take (unat n) (s_free f0) \<noteq> []" using l50 by (cases "s_free f0") auto
      then show False using free_chain_pop[OF chain] True f by force
    qed
    then have l: "l = []" using chain True by (simp add: free_chain_single)
    have n1: "n + 1 = s_nfree f0" by (simp add: n_def)
    define g' where "g' = f0\<lparr>s_time := rdtime s, s_fmod := 1, s_nfree := s_nfree f0\<rparr>"
    define t where "t = s\<lparr>fs_tab := (fs_tab s)[0 := g'], udata := (udata s)\<lparr>u_error := ENOSPC\<rparr>\<rparr>"
    have tf: "s_tfree f0 = 0" using f l by (simp add: f0_def unat_eq_0)
    have "free_list t []"
      using f l len free_chain_view_words[of s _ "[]" t]
      by (simp add: free_list_def Let_def t_def g'_def f0_def)
    moreover have "alloc_frame s t"
      by (rule alloc_frameI[where fs = g' and er = ENOSPC]) (simp_all add: t_def g'_def f0_def)
    moreover have "thenK (doK [set_error ENOSPC, upd_fs 0 (\<lambda>f. f\<lparr>s_nfree := s_nfree f + 1\<rparr>)]) (retK 0) u = Ret (0 :: u16) t"
      using len by (simp add: run_simps access_defs u_def g_def t_def g'_def n1)
    then have "wp (blk_alloc 0) ?Q s = ?Q 0 t"
      unfolding start using True tf by (simp add: wp_def del: wp_thenK doK.simps)
    ultimately show ?thesis using l inv by (simp add: alloc_step_def t_def)
  next
    case False
    have "\<exists>l'. l = newno # l'"
    proof (cases "unat n = 0")
      case True
      then show ?thesis using chain False by (auto simp: free_chain_single)
    next
      case n0: False
      then have "take (unat n) (s_free f0) \<noteq> []" using l50 by (cases "s_free f0") auto
      then show ?thesis using free_chain_pop[OF chain] by blast
    qed
    then obtain l' where l: "l = newno # l'" by blast
    have b: "unat newno < 2048" "s_isize f0 \<le> newno" "newno < s_fsize f0" using f l by (simp_all add: f0_def)
    have tf: "s_tfree f0 \<noteq> 0" using f l by (auto simp: f0_def)
    have fin: "wp (blk_alloc_take 0 newno) ?Q w"
      if w: "buf_inv w" "some_free w" "\<not> held w newno" "length (fs_tab w) = NDEVS"
        "fs_tab w ! 0 = f0\<lparr>s_time := rdtime s, s_fmod := 1, s_nfree := nf, s_free := ws\<rparr>"
        "busy_same s w" "buf_frame (s\<lparr>fs_tab := (fs_tab s)[0 := fs_tab w ! 0]\<rparr>) w"
        "\<And>c k. unat c < 2048 \<Longrightarrow> k < 512 \<Longrightarrow> bview w c k = bview s c k"
        and ws: "length ws = 50" "1 \<le> unat nf" "unat nf \<le> 50" "free_chain (view_words s) (take (unat nf) ws) l'"
      for w nf ws
    proof (rule wp_mono[OF blk_alloc_tail[OF w(1-4)]])
      show "s_mounted (fs_tab w ! 0) = SMOUNTED" "s_isize (fs_tab w ! 0) \<le> newno" "newno < s_fsize (fs_tab w ! 0)"
        "unat newno < 2048" "s_tfree (fs_tab w ! 0) \<noteq> 0" using w(5) mt b tf by simp_all
      fix r t assume A: "r = newno \<and> cache_step (w\<lparr>fs_tab := (fs_tab w)[0 := (fs_tab w ! 0)\<lparr>s_tfree := s_tfree (fs_tab w ! 0) - 1\<rparr>]\<rparr>)
        ((bview w)(newno := zero_block (bview w newno))) t"
      then have st: "cache_step (w\<lparr>fs_tab := (fs_tab w)[0 := (fs_tab w ! 0)\<lparr>s_tfree := s_tfree (fs_tab w ! 0) - 1\<rparr>]\<rparr>)
        ((bview w)(newno := zero_block (bview w newno))) t" by blast
      have "free_list t l' \<and> u_error (udata t) = u_error (udata s) \<and> alloc_step s ((bview s)(newno := (\<lambda>_. 0))) t"
      proof (rule blk_alloc_finish[OF inv len fl[unfolded l] _ refl ws])
        show "buf_inv t" using st by (rule cache_stepD)
        show "busy_same s t" using cache_stepD(2)[OF st] w(6) busy_same_trans by simp
        show "bview t c k = ((bview s)(newno := zero_block (bview s newno))) c k" if "unat c < 2048" "k < 512" for c k
          using cache_stepD(15)[OF st that] w(8) that b by (simp add: zero_block_def)
        show "buf_frame (s\<lparr>fs_tab := (fs_tab s)[0 := (fs_tab s ! 0)\<lparr>s_time := rdtime s, s_fmod := 1, s_nfree := nf,
            s_free := ws, s_tfree := s_tfree (fs_tab s ! 0) - 1\<rparr>]\<rparr>) t"
          using cache_stepD(16)[OF st] w(7) unfolding w(5) f0_def buf_frame_def by fastforce
      qed
      then show "?Q r t" using A l by simp
    qed
    show ?thesis
    proof (cases "n = 0")
      case n0: False
      then have "take (unat n) (s_free f0) \<noteq> []" using l50 by (cases "s_free f0") (auto simp: unat_eq_0)
      then have ch: "free_chain (view_words s) (take (unat n) (s_free f0)) l'"
        using free_chain_pop[OF chain] l by simp
      have "unat n \<noteq> 0" using n0 by (simp add: unat_eq_0)
      then have "unat n \<ge> 1" by linarith
      moreover have "unat n \<le> 50" using n f unfolding f0_def by linarith
      ultimately have "wp (blk_alloc_take 0 newno) ?Q u"
        using u0 l nh l50 ch by (intro fin[where nf = n and ws = "s_free f0"]) (simp_all add: g_def, simp_all add: u_def)
      then show ?thesis unfolding start using False n0 by simp
    next
      case n0: True
      then have ch: "1 \<le> unat (view_words s newno 0)" "unat (view_words s newno 0) \<le> 50"
        "free_chain (view_words s) (map (view_words s newno) [1..<Suc (unat (view_words s newno 0))]) l'"
        using chain False l by (simp_all add: free_chain_single del: upt_Suc)
      have tk: "take (unat (view_words s newno 0)) (map (view_words s newno) [1..<51])
          = map (view_words s newno) [1..<Suc (unat (view_words s newno 0))]"
        using ch by (simp add: take_map del: upt_Suc)
      have fw: "free_words (bview u newno) = (view_words s newno 0, map (view_words s newno) [1..<51])"
        by (simp add: free_words_def u0 view_words_def[abs_def])
      have nhu: "\<not> held u newno" using nh l u0 by simp
      have "wp (read_buf 0 newno free_words) (\<lambda>a. wp (thenK (upd_fs 0 (\<lambda>f. f\<lparr>s_nfree := fst a, s_free := snd a\<rparr>))
           (blk_alloc_take 0 newno)) ?Q) u"
      proof (rule wp_mono[OF read_buf_spec[OF u0(1) b(1) nhu u0(2) block_fun_free_words]])
        fix a t assume A: "a = free_words (bview u newno) \<and> cache_step u (bview u) t"
        then have st: "cache_step u (bview u) t" by blast
        have a: "a = (view_words s newno 0, map (view_words s newno) [1..<51])" using A fw by simp
        note c = cache_stepD[OF st]
        let ?w = "t\<lparr>fs_tab := (fs_tab t)[0 := (fs_tab t ! 0)\<lparr>s_nfree := fst a, s_free := snd a\<rparr>]\<rparr>"
        have "wp (blk_alloc_take 0 newno) ?Q ?w"
        proof (rule fin[where nf = "fst a" and ws = "snd a"])
          show "buf_inv ?w" "some_free ?w" "\<not> held ?w newno" "length (fs_tab ?w) = NDEVS"
            using c u0 nhu busy_same_free[OF c(2)] busy_same_held[OF c(2)] by simp_all
          show "fs_tab ?w ! 0 = f0\<lparr>s_time := rdtime s, s_fmod := 1, s_nfree := fst a, s_free := snd a\<rparr>"
            using c(3) u0 by (simp add: g_def)
          show "busy_same s ?w" using c(2) by (simp add: u_def)
          show "buf_frame (s\<lparr>fs_tab := (fs_tab s)[0 := fs_tab ?w ! 0]\<rparr>) ?w"
            using buf_frame_fs[OF c(16)[unfolded u_def], of "fs_tab ?w"] c(3) len by (simp add: u_def)
          show "bview ?w c k = bview s c k" if "unat c < 2048" "k < 512" for c k
            using c(15)[OF that] u0 by simp
        qed (use ch tk a in simp_all)
        then show "wp (thenK (upd_fs 0 (\<lambda>f. f\<lparr>s_nfree := fst a, s_free := snd a\<rparr>)) (blk_alloc_take 0 newno)) ?Q t"
          by simp
      qed
      then show ?thesis unfolding start using False n0 by (simp add: case_prod_unfold)
    qed
  qed
qed

text \<open>The words from \<open>s_nfree\<close> on are the count and the table.\<close>

lemma word_at_nfree_mem:
  assumes "length (s_free (fs_tab s ! 0)) = 50" "length (s_inode (fs_tab s ! 0)) = 50" "k \<le> 50"
  shows "word_at (nfree_mem s 0) k = (s_nfree (fs_tab s ! 0) # s_free (fs_tab s ! 0)) ! k"
proof -
  let ?ws = "filesys_words (fs_tab s ! 0)"
  have len: "length ?ws = 111" using assms by (simp add: length_filesys_words)
  have "get16 (fs_mem s 0) (0 + 2 * (3 + k)) = ?ws ! (3 + k)"
    using len assms(3) by (intro get16_words_byte) (simp_all add: fs_mem_def)
  moreover have "?ws ! (3 + k) = (s_nfree (fs_tab s ! 0) # s_free (fs_tab s ! 0)) ! k"
    using assms by (cases k) (simp_all add: filesys_words_def nth_append)
  ultimately show ?thesis
    by (simp add: word_at_def get16_def nfree_mem_def algebra_simps)
qed

lemma free_words_nfree_mem:
  assumes "length (s_free (fs_tab s ! 0)) = 50" "length (s_inode (fs_tab s ! 0)) = 50"
  shows "map (word_at (nfree_mem s 0)) [1..<51] = s_free (fs_tab s ! 0)"
  by (rule nth_equalityI) (use assms in \<open>simp_all add: word_at_nfree_mem\<close>)

lemma length_small_words: "distinct l \<Longrightarrow> \<forall>b\<in>set l. unat (b :: u16) < n \<Longrightarrow> length l \<le> n"
proof -
  assume d: "distinct l" and r: "\<forall>b\<in>set l. unat (b :: u16) < n"
  have "distinct (map unat l)" using d by (simp add: distinct_map inj_on_def word_unat_eq_iff)
  then have "length l = card (set (map unat l))" by (simp only: distinct_card length_map)
  also have "\<dots> \<le> card {..<n}" using r by (intro card_mono) auto
  finally show ?thesis by simp
qed

lemma blk_free_spec:
  assumes inv: "buf_inv s" and free: "some_free s" and len: "length (fs_tab s) = NDEVS"
    and fl: "free_list s l"
    and b: "b \<noteq> 0" "s_isize (fs_tab s ! 0) \<le> b" "b < s_fsize (fs_tab s ! 0)" "unat b < 2048"
      "b \<notin> set l" "\<not> held s b"
  shows "wp (blk_free 0 b) (\<lambda>_ t. free_list t (b # l) \<and> u_error (udata t) = u_error (udata s) \<and>
     (\<exists>d. alloc_step s ((bview s)(b := d)) t)) s"
    (is "wp _ ?Q s")
proof -
  note f = fl[unfolded free_list_def Let_def]
  define f0 where "f0 = fs_tab s ! 0"
  have mt: "s_mounted f0 = SMOUNTED" and l50: "length (s_free f0) = 50" "length (s_inode f0) = 50"
    and n50: "unat (s_nfree f0) \<le> 50" "1 \<le> unat (s_nfree f0)"
    and chain: "free_chain (view_words s) (take (unat (s_nfree f0)) (s_free f0)) l" using f by (simp_all add: f0_def)
  have tl: "unat (s_tfree f0 + 1) = Suc (length l)"
    using f length_small_words[of l 2048] by (subst unat_plus_1) (simp_all add: f0_def)
  define g where "g = f0\<lparr>s_time := rdtime s, s_fmod := 1\<rparr>"
  define u where "u = s\<lparr>fs_tab := (fs_tab s)[0 := g]\<rparr>"
  have u0: "buf_inv u" "some_free u" "length (fs_tab u) = NDEVS" "fs_tab u ! 0 = g" "bview u = bview s"
    "\<And>c. held u c = held s c"
    using inv free len by (simp_all add: u_def)
  define fin where "fin = (doK [upd_fs 0 (\<lambda>f. f\<lparr>s_tfree := s_tfree f + 1\<rparr>),
          bindK (getK (\<lambda>s. unat (s_nfree (fs_tab s ! 0)))) (\<lambda>n.
            if n \<ge> 50 then haltK BadAccess
            else upd_fs 0 (\<lambda>f. f\<lparr>s_free := (s_free f)[n := b], s_nfree := s_nfree f + 1\<rparr>))] :: unit k)"
  have gd: "getdev 0 s = Ret () u"
    using mt by (simp add: getdev_def upd_fs_def modK_def u_def g_def f0_def)
  have start: "wp (blk_free 0 b) ?Q s = wp (thenK (whenK (s_nfree f0 = 50)
            (bindK (getK (\<lambda>s. nfree_mem s 0)) (\<lambda>m. doK [
               write_buf 0 b 1 (\<lambda>b k. if k < 512 then m k else b k),
               upd_fs 0 (\<lambda>f. f\<lparr>s_nfree := 0\<rparr>)])))
          fin) ?Q u"
    using mt b len
    by (simp add: wp_def blk_free_def run_simps gd u0 baddev_def g_def validblk_def Let_def fin_def
        f0_def[symmetric] not_less[symmetric] cong: if_cong)
  \<comment> \<open>the last two statements, with \<open>n\<close> entries in the table\<close>
  have finish: "wp fin ?Q w"
    if w: "buf_inv w" "length (fs_tab w) = NDEVS"
      "fs_tab w ! 0 = f0\<lparr>s_time := rdtime s, s_fmod := 1, s_nfree := nf\<rparr>" "unat nf < 50"
      "busy_same s w" "buf_frame (s\<lparr>fs_tab := (fs_tab s)[0 := fs_tab w ! 0]\<rparr>) w"
      "\<And>c k. unat c < 2048 \<Longrightarrow> k < 512 \<Longrightarrow> bview w c k = ((bview s)(b := d)) c k"
      and ch: "free_chain (view_words w) (take (unat nf) (s_free f0) @ [b]) (b # l)" for w nf d
  proof -
    define h where "h = f0\<lparr>s_time := rdtime s, s_fmod := 1, s_tfree := s_tfree f0 + 1,
      s_free := (s_free f0)[unat nf := b], s_nfree := nf + 1\<rparr>"
    define t where "t = w\<lparr>fs_tab := (fs_tab w)[0 := h]\<rparr>"
    have run: "fin w = Ret () t"
      using w(2-4) by (simp add: fin_def run_simps access_defs t_def h_def)
    have n1: "unat (nf + 1) = unat nf + 1" using w(4) by (intro unat_plus_1) linarith
    have tk: "take (Suc (unat nf)) ((s_free (fs_tab s ! 0))[unat nf := b]) = take (unat nf) (s_free (fs_tab s ! 0)) @ [b]"
      using w(4) l50 by (simp add: f0_def take_Suc_conv_app_nth)
    have "free_list t (b # l)"
      using f b n1 w(2,4) ch l50 tl free_chain_view_words[OF ch, of t]
      unfolding free_list_def Let_def
      by (simp add: t_def h_def f0_def tk)
    moreover have "buf_frame (s\<lparr>fs_tab := (fs_tab s)[0 := h], udata := (udata s)\<lparr>u_error := u_error (udata s)\<rparr>\<rparr>) t"
    proof -
      have e: "fs_tab w = (fs_tab s)[0 := fs_tab w ! 0]" using buf_frame_keeps[OF w(6)] by simp
      have "(fs_tab w)[0 := h] = (fs_tab s)[0 := h]" by (subst e) simp
      then show ?thesis using buf_frame_fs[OF w(6), of "(fs_tab s)[0 := h]"] by (simp add: t_def)
    qed
    then have "alloc_frame s t" by (rule alloc_frameI) (simp add: h_def f0_def)
    moreover have "u_error (udata t) = u_error (udata s)" using buf_frame_keeps[OF w(6)] by (simp add: t_def)
    ultimately have "?Q () t" using w by (auto simp: alloc_step_def t_def intro!: exI[of _ d])
    then show ?thesis by (simp add: wp_def run)
  qed
  show ?thesis
  proof (cases "s_nfree f0 = 50")
    case False
    then have lt: "unat (s_nfree f0) < 50"
      using n50 by (simp add: word_unat_eq_iff)
    have "free_chain (view_words u) (take (unat (s_nfree f0)) (s_free f0) @ [b]) (b # l)"
      by (rule free_chain_view_words[OF free_chain_push[OF chain] u0(5)])
    then have "wp fin ?Q u"
      using u0 lt by (intro finish[where nf = "s_nfree f0" and d = "bview s b"]) (simp_all add: g_def, simp_all add: u_def)
    then show ?thesis unfolding start using False by simp
  next
    case True
    define m where "m = nfree_mem u 0"
    have g50: "length (s_free (fs_tab u ! 0)) = 50" "length (s_inode (fs_tab u ! 0)) = 50"
      "s_nfree (fs_tab u ! 0) = 50" "s_free (fs_tab u ! 0) = s_free f0"
      using l50 True unfolding u0(4) g_def by simp_all
    have wm: "word_at m 0 = 50" "map (word_at m) [1..<51] = s_free f0"
      using word_at_nfree_mem[OF g50(1,2), of 0] free_words_nfree_mem[OF g50(1,2)] g50(3,4)
      unfolding m_def by (simp_all only: le0 nth_Cons_0)
    have nhu: "\<not> held u b" using b u0 by simp
    have "wp (write_buf 0 b 1 (\<lambda>b k. if k < 512 then m k else b k)) (\<lambda>_. wp (thenK (upd_fs 0 (\<lambda>f. f\<lparr>s_nfree := 0\<rparr>)) fin) ?Q) u"
    proof (rule wp_mono[OF write_buf_spec[OF u0(1) b(4) nhu u0(2)]])
      fix x :: unit and t
      let ?d = "\<lambda>k. if k < 512 then m k else bview u b k"
      assume st: "cache_step u ((bview u)(b := ?d)) t"
      note c = cache_stepD[OF st]
      let ?w = "t\<lparr>fs_tab := (fs_tab t)[0 := (fs_tab t ! 0)\<lparr>s_nfree := 0\<rparr>]\<rparr>"
      have v: "bview ?w c k = ((bview s)(b := ?d)) c k" if "unat c < 2048" "k < 512" for c k
        using c(15)[OF that] u0 by simp
      have vb: "view_words ?w b k = word_at m k" if "k < 256" for k
        unfolding view_words_def by (rule word_at_cong) (use v b that in simp_all)
      have mb: "map (view_words ?w b) [1..<51] = s_free f0"
        unfolding wm(2)[symmetric] by (rule map_cong[OF refl]) (simp add: vb)
      have small: "unat c < 2048 \<and> c \<noteq> b" if "c \<in> set l" for c using f b(5) that by blast
      have "free_chain (view_words s) (s_free f0) l" using chain True l50 by simp
      then have "free_chain (view_words ?w) (s_free f0) l"
      proof (rule free_chain_view)
        fix c k assume "c \<in> set l" "k < (512 :: nat)"
        then show "bview ?w c k = bview s c k" using v[of c k] small[of c] by simp
      qed
      moreover have v0: "unat (view_words ?w b 0) = 50" using vb[of 0] wm(1) by simp
      moreover have "Suc 50 = 51" by simp
      ultimately have "free_chain (view_words ?w) (map (view_words ?w b) [1..<Suc (unat (view_words ?w b 0))]) l"
        by (simp only: mb)
      then have "free_chain (view_words ?w) [b] (rev [] @ b # l)"
        by (rule free_chain.chain_link[OF b(1), rotated 2]) (use v0 in linarith)+
      then have "free_chain (view_words ?w) (take (unat 0) (s_free f0) @ [b]) (b # l)"
        by (simp only: unsigned_0 take0 append_Nil rev.simps)
      then have "wp fin ?Q ?w"
      proof (intro finish[where nf = 0 and d = ?d])
        show "buf_inv ?w" "length (fs_tab ?w) = NDEVS" using c u0 by simp_all
        show "fs_tab ?w ! 0 = f0\<lparr>s_time := rdtime s, s_fmod := 1, s_nfree := 0\<rparr>"
          using c(3) u0 by (simp add: g_def)
        show "busy_same s ?w" using c(2) by (simp add: u_def)
        show "buf_frame (s\<lparr>fs_tab := (fs_tab s)[0 := fs_tab ?w ! 0]\<rparr>) ?w"
          using buf_frame_fs[OF c(16)[unfolded u_def], of "fs_tab ?w"] c(3) len by (simp add: u_def)
      qed (use v in simp_all)
      then show "wp (thenK (upd_fs 0 (\<lambda>f. f\<lparr>s_nfree := 0\<rparr>)) fin) ?Q t" by simp
    qed (simp_all add: block_fun_def)
    then show ?thesis unfolding start using True by (simp add: m_def cong: if_cong)
  qed
qed

section \<open>The contract of the allocator\<close>

text \<open>
  A request takes a block or gives one back; on a stack of free blocks the answers are the
  popped blocks, 0 when there is none.
\<close>

datatype 'b blk_req = Take | Give 'b

primrec stack_ok :: "('b \<Rightarrow> bool) \<Rightarrow> 'b blk_req list \<Rightarrow> 'b list \<Rightarrow> bool" where
  "stack_ok valid [] l = True"
| "stack_ok valid (r # rs) l = (case r of
     Take \<Rightarrow> stack_ok valid rs (tl l)
   | Give b \<Rightarrow> valid b \<and> b \<notin> set l \<and> stack_ok valid rs (b # l))"

primrec stack_run :: "'b :: zero blk_req list \<Rightarrow> 'b list \<Rightarrow> 'b list \<times> 'b list" where
  "stack_run [] l = ([], l)"
| "stack_run (r # rs) l = (case r of
     Take \<Rightarrow> let (out, l') = stack_run rs (tl l) in ((if l = [] then 0 else hd l) # out, l')
   | Give b \<Rightarrow> stack_run rs (b # l))"

primrec run_reqs :: "('s, 'b) kop \<Rightarrow> ('b \<Rightarrow> ('s, unit) kop) \<Rightarrow> 'b blk_req list \<Rightarrow> ('s, 'b list) kop" where
  "run_reqs pp psh [] = retK []"
| "run_reqs pp psh (r # rs) = (case r of
     Take \<Rightarrow> bindK pp (\<lambda>b. bindK (run_reqs pp psh rs) (\<lambda>out. retK (b # out)))
   | Give b \<Rightarrow> thenK (psh b) (run_reqs pp psh rs))"

text \<open>Some number of blocks taken one after the other.\<close>

primrec take_blocks :: "nat \<Rightarrow> ('s, 'b) kop \<Rightarrow> ('s, 'b list) kop" where
  "take_blocks 0 pp = retK []"
| "take_blocks (Suc n) pp = bindK pp (\<lambda>b. bindK (take_blocks n pp) (\<lambda>out. retK (b # out)))"

text \<open>A source of blocks can be drained; a stack of blocks can also be given blocks back.\<close>

locale block_source =
  fixes pop :: "('s, 'b :: zero) kop"
    and stack :: "'s \<Rightarrow> 'b list \<Rightarrow> bool"
  assumes pop_hd: "stack s l \<Longrightarrow> wp pop (\<lambda>b t. b = (if l = [] then 0 else hd l) \<and> stack t (tl l)) s"
begin

lemma take_blocks_list:
  "stack s l \<Longrightarrow> wp (take_blocks n pop) (\<lambda>out t. out = take n l @ replicate (n - length l) 0 \<and> stack t (drop n l)) s"
proof (induction n arbitrary: s l)
  case 0
  then show ?case by simp
next
  case (Suc n)
  show ?case
    using Suc.IH[of _ "tl l"]
    by (cases l) (auto intro!: wp_mono[OF pop_hd[OF Suc.prems]] elim!: wp_mono)
qed

end

locale block_stack = block_source pop stack
  for pop :: "('s, 'b :: zero) kop" and stack :: "'s \<Rightarrow> 'b list \<Rightarrow> bool" +
  fixes push :: "'b \<Rightarrow> ('s, unit) kop"
    and valid :: "'s \<Rightarrow> 'b \<Rightarrow> bool"
  assumes pop_valid: "stack s l \<Longrightarrow> wp pop (\<lambda>b t. valid t = valid s) s"
    and push_law: "stack s l \<Longrightarrow> valid s b \<Longrightarrow> b \<notin> set l \<Longrightarrow>
      wp (push b) (\<lambda>_ t. stack t (b # l) \<and> valid t = valid s) s"
begin

lemma pop_law: "stack s l \<Longrightarrow>
    wp pop (\<lambda>b t. b = (if l = [] then 0 else hd l) \<and> stack t (tl l) \<and> valid t = valid s) s"
  using pop_hd[of s l] pop_valid[of s l] by (auto simp: wp_iff)

lemma run_reqs_stack:
  "stack s l \<Longrightarrow> stack_ok (valid s) rs l \<Longrightarrow>
   wp (run_reqs pop push rs) (\<lambda>out t. out = fst (stack_run rs l) \<and> stack t (snd (stack_run rs l))) s"
proof (induction rs arbitrary: s l)
  case Nil
  then show ?case by simp
next
  case (Cons r rs)
  show ?case
  proof (cases r)
    case Take
    then have "stack_ok (valid s) rs (tl l)" using Cons.prems by simp
    then show ?thesis
      using Take Cons.IH[of _ "tl l"]
      by (auto simp: case_prod_unfold Let_def intro!: wp_mono[OF pop_law[OF Cons.prems(1)]] elim!: wp_mono)
  next
    case (Give b)
    then have g: "valid s b" "b \<notin> set l" "stack_ok (valid s) rs (b # l)" using Cons.prems by simp_all
    then show ?thesis
      using Give Cons.IH[of _ "b # l"]
      by (auto intro!: wp_mono[OF push_law[OF Cons.prems(1) g(1,2)]])
  qed
qed

end

section \<open>The kernel's allocator meets it\<close>

definition free_stack :: "kst \<Rightarrow> u16 list \<Rightarrow> bool" where
  "free_stack s l \<longleftrightarrow> idle s \<and> length (fs_tab s) = NDEVS \<and> free_list s l"

definition data_block :: "kst \<Rightarrow> u16 \<Rightarrow> bool" where
  "data_block s b \<longleftrightarrow> b \<noteq> 0 \<and> s_isize (fs_tab s ! 0) \<le> b \<and> b < s_fsize (fs_tab s ! 0) \<and> unat b < 2048"

lemma alloc_step_idle:
  assumes "alloc_step s v t" and "idle s" and "length (fs_tab s) = NDEVS"
  shows "idle t \<and> length (fs_tab t) = NDEVS \<and> data_block t = data_block s"
  using assms
  by (auto simp: alloc_step_def alloc_frame_def idle_def busy_same_def data_block_def fun_eq_iff)

lemma blk_alloc_pop:
  assumes s: "free_stack s l"
  shows "wp (blk_alloc 0) (\<lambda>b t. b = (if l = [] then 0 else hd l) \<and> free_stack t (tl l) \<and> data_block t = data_block s) s"
proof -
  note f = s[unfolded free_stack_def]
  show ?thesis
  proof (rule wp_mono[OF blk_alloc_spec[of s l]])
    show "buf_inv s" "some_free s" "length (fs_tab s) = NDEVS" "free_list s l" "\<forall>b\<in>set l. \<not> held s b"
      using f idle_free by (auto simp: idle_def)
  next
    fix r t assume "case l of [] \<Rightarrow> r = 0 \<and> free_list t [] \<and> u_error (udata t) = ENOSPC \<and> alloc_step s (bview s) t
      | b # l' \<Rightarrow> r = b \<and> free_list t l' \<and> u_error (udata t) = u_error (udata s) \<and> alloc_step s ((bview s)(b := (\<lambda>_. 0))) t"
    then show "r = (if l = [] then 0 else hd l) \<and> free_stack t (tl l) \<and> data_block t = data_block s"
      using f alloc_step_idle[of s "bview s" t] alloc_step_idle[of s "(bview s)(r := (\<lambda>_. 0))" t]
      by (cases l) (simp_all add: free_stack_def)
  qed
qed

interpretation root_free: block_stack "blk_alloc 0" free_stack "blk_free 0" data_block
proof unfold_locales
  fix s l assume s: "free_stack s l"
  note f = s[unfolded free_stack_def]
  show "wp (blk_alloc 0) (\<lambda>b t. b = (if l = [] then 0 else hd l) \<and> free_stack t (tl l)) s"
    and "wp (blk_alloc 0) (\<lambda>b t. data_block t = data_block s) s"
    by (rule wp_mono[OF blk_alloc_pop[OF s]], simp)+
  fix b assume b: "data_block s b" "b \<notin> set l"
  show "wp (blk_free 0 b) (\<lambda>_ t. free_stack t (b # l) \<and> data_block t = data_block s) s"
  proof (rule wp_mono[OF blk_free_spec[of s l b]])
    show "buf_inv s" "some_free s" "length (fs_tab s) = NDEVS" "free_list s l" "\<not> held s b"
      using f idle_free by (auto simp: idle_def)
  next
    fix x :: unit and t
    assume "free_list t (b # l) \<and> u_error (udata t) = u_error (udata s) \<and> (\<exists>d. alloc_step s ((bview s)(b := d)) t)"
    then show "free_stack t (b # l) \<and> data_block t = data_block s"
      using f alloc_step_idle[of s _ t] by (auto simp: free_stack_def)
  qed (use b in \<open>simp_all add: data_block_def\<close>)
qed

text \<open>
  C4: On an idle cache whose superblock describes the free blocks \<open>l\<close>, any sequence of
  \<open>blk_alloc\<close> and \<open>blk_free\<close> calls (a block is freed only while it is not free) completes
  without panic and answers exactly as a stack of free blocks does - 0 once there is none -
  and leaves a free list that stands for that stack. The chunks written into freed blocks and
  read back when the superblock's table runs empty do not show.
\<close>

theorem blk_alloc_stack:
  assumes "free_stack s l" and "stack_ok (data_block s) rs l"
  shows "wp (run_reqs (blk_alloc 0) (blk_free 0) rs) (\<lambda>out t.
     out = fst (stack_run rs l) \<and> free_stack t (snd (stack_run rs l))) s"
  using root_free.run_reqs_stack[OF assms] by simp

text \<open>An idle machine whose root device has the two free blocks 6 and 7.\<close>

definition two_free :: kst where
  "two_free = empty_cache\<lparr>fs_tab := (fs_tab empty_cache)[0 := zero_fs\<lparr>s_mounted := SMOUNTED, s_isize := 4,
     s_fsize := 100, s_nfree := 3, s_free := [0, 7, 6] @ replicate 47 0, s_tfree := 2\<rparr>]\<rparr>"

lemma two_free_stack: "free_stack two_free [6, 7]"
proof -
  have "fs_tab two_free ! 0 = zero_fs\<lparr>s_mounted := SMOUNTED, s_isize := 4,
     s_fsize := 100, s_nfree := 3, s_free := [0, 7, 6] @ replicate 47 0, s_tfree := 2\<rparr>"
    by (simp add: two_free_def empty_cache_def bss_def)
  moreover have "free_chain (view_words two_free) [0, 7, 6] [6, 7]"
    by (simp add: free_chain_Cons)
  moreover have "idle two_free" using idle_empty_cache by (simp add: two_free_def idle_def)
  moreover have "length (fs_tab two_free) = 5" by (simp add: two_free_def empty_cache_def bss_def)
  ultimately show ?thesis
    by (simp add: free_stack_def free_list_def zero_fs_def)
qed

theorem blk_alloc_stack_witness:
  "wp (run_reqs (blk_alloc 0) (blk_free 0) [Take, Take, Take, Give 7, Give 6, Take])
     (\<lambda>out t. out = [6, 7, 0, 6] \<and> free_stack t [7]) two_free"
proof -
  have "stack_ok (data_block two_free) [Take, Take, Take, Give 7, Give 6, Take] [6, 7]"
    by (simp add: data_block_def two_free_def empty_cache_def bss_def)
  from blk_alloc_stack[OF two_free_stack this] show ?thesis by simp
qed

text \<open>
  A successful allocation hands out the first block of the free list zeroed, a full device
  gives 0 and \<open>ENOSPC\<close>; in both cases no other block's visible contents change, and in the
  superblock only the free list, its counts and the modification marks do.
\<close>

theorem blk_alloc_zeroed:
  assumes "buf_inv s" and "some_free s" and "length (fs_tab s) = NDEVS"
    and "free_list s l" and "\<forall>b\<in>set l. \<not> held s b"
  shows "wp (blk_alloc 0) (\<lambda>r t. case l of
      [] \<Rightarrow> r = 0 \<and> free_list t [] \<and> u_error (udata t) = ENOSPC \<and> alloc_step s (bview s) t
    | b # l' \<Rightarrow> r = b \<and> free_list t l' \<and> u_error (udata t) = u_error (udata s) \<and>
        alloc_step s ((bview s)(b := (\<lambda>_. 0))) t) s"
  by (rule blk_alloc_spec[OF assms])

theorem blk_alloc_zeroed_witness:
  "wp (blk_alloc 0) (\<lambda>r t. r = 6 \<and> free_list t [7] \<and> alloc_step two_free ((bview two_free)(6 := (\<lambda>_. 0))) t) two_free"
  using blk_alloc_zeroed[of two_free "[6, 7]"] two_free_stack idle_free[of two_free]
  by (auto simp: free_stack_def idle_def elim!: wp_mono)

end
