(* ===== verification/File_Free.thy ===== *)
theory File_Free
  imports Block_Map Free_Blocks
begin

text \<open>
  Freeing a file (\<open>fs/filesys.c\<close>: \<open>freeblk\<close>, \<open>f_trunc\<close>): the blocks of its tree, the indirect
  ones included, go to the free list and nothing else does.
\<close>

section \<open>The blocks of a tree\<close>

text \<open>In the order in which they are freed: what a block lists from its end on, then the block.\<close>

primrec tree_blocks :: "(u16 \<Rightarrow> bytes) \<Rightarrow> nat \<Rightarrow> u16 \<Rightarrow> u16 list" where
  "tree_blocks V 0 b = (if b = 0 then [] else [b])"
| "tree_blocks V (Suc l) b = (if b = 0 then []
     else concat (map (\<lambda>j. tree_blocks V l (word_at (V b) j)) (rev [0..<256])) @ [b])"

lemma tree_blocks_view:
  "(\<And>x k. x \<in> set (tree_blocks V l b) \<Longrightarrow> k < 512 \<Longrightarrow> W x k = V x k) \<Longrightarrow> tree_blocks W l b = tree_blocks V l b"
proof (induction l arbitrary: b)
  case (Suc l)
  show ?case
  proof (cases "b = 0")
    case False
    have w: "word_at (W b) j = word_at (V b) j" if "j < 256" for j
      using Suc.prems[of b] False that by (intro word_at_cong) simp_all
    have "tree_blocks W l (word_at (W b) j) = tree_blocks V l (word_at (V b) j)" if "j < 256" for j
      unfolding w[OF that] using False that by (intro Suc.IH Suc.prems) (auto simp: w)
    then have "map (\<lambda>j. tree_blocks W l (word_at (W b) j)) (rev [0..<256]) = map (\<lambda>j. tree_blocks V l (word_at (V b) j)) (rev [0..<256])"
      by (intro map_cong refl) simp
    then show ?thesis using False by (simp only: tree_blocks.simps if_False)
  qed simp
qed simp

section \<open>The medium under a block in use\<close>

lemma bread_disk:
  assumes inv: "buf_inv s" and h: "held s x" and x: "unat x < 2048" "k < 512" and r: "bread 0 blk rw s = Ret r t"
  shows "disk_block t x k = disk_block s x k"
proof (cases "bfind 0 blk s")
  case (Some i)
  then have "chr_ram t = chr_ram s"
    using r by (auto simp: bread_def run_simps bread_done_def upd_buf_def panic_def split: if_splits)
  then show ?thesis by (simp add: disk_block_def)
next
  case None
  obtain i tm where sc: "freebuf_scan s = (Some i, tm)"
    using r None by (cases "freebuf_scan s"; cases "fst (freebuf_scan s)") (auto simp: bread_def freebuf_def run_simps)
  have "i < NBUFS \<and> bf_busy (bufpool s ! i) = 0"
    using freebuf_scan_prefix[of s NBUFS "Some i" tm] sc by (simp add: freebuf_scan_def)
  then have i: "i < NBUFS" "bf_busy (bufpool s ! i) = 0" by simp_all
  let ?t = "flushed i s"
  have len: "length (bufpool s) = NBUFS" using inv by (simp add: buf_inv_def)
  have "chr_ram t = chr_ram ?t"
  proof -
    let ?t1 = "?t\<lparr>bufpool := (bufpool ?t)[i := (bufpool ?t ! i)\<lparr>bf_dev := 0, bf_blk := blk\<rparr>]\<rparr>"
    have "bdread i ?t1 = Ret 0 (?t1\<lparr>udata := (udata ?t)\<lparr>u_buf := Some i\<rparr>,
      bufpool := (bufpool ?t)[i := (bufpool ?t ! i)\<lparr>bf_dev := 0, bf_blk := blk, bf_data :=
        (\<lambda>k. if k < 512 then disk_block ?t blk k else bf_data (bufpool s ! i) k)\<rparr>]\<rparr>)"
      using bdread_eq[of ?t1 i] i len by (simp add: flushed_pool[OF len i(1)] disk_block_def cong: if_cong)
    then show ?thesis
      using r None freebuf_eq[OF inv sc i(1)] i len
      by (auto simp: bread_def run_simps upd_buf_def bread_done_def clear_data_def flushed_pool[OF len i(1)]
          cong: if_cong split: if_splits)
  qed
  moreover have "disk_block ?t x k = disk_block s x k"
  proof (cases "bf_dirty (bufpool s ! i) = 0")
    case False
    have "buf_ok (bufpool s ! i)" using inv i(1) unfolding buf_inv_def by blast
    then have d: "bf_dev (bufpool s ! i) = 0" "unat (bf_blk (bufpool s ! i)) < 2048" using False by (auto simp: buf_ok_def)
    obtain j where j: "holds s j x" using h by (auto simp: held_def)
    then have "j \<noteq> i" using i(2) by (auto simp: holds_def)
    then have "x \<noteq> bf_blk (bufpool s ! i)" using held_unique[OF inv j i(1)] d(1) by auto
    moreover have "chr_ram ?t = put_disk (bf_blk (bufpool s ! i)) (bf_data (bufpool s ! i)) (chr_ram s)"
      using False by (simp add: flushed_def Let_def)
    ultimately show ?thesis using disk_block_put_disk[OF d(2) x] by simp
  qed (simp add: flushed_def)
  ultimately show ?thesis by (simp add: disk_block_def)
qed

lemma write_buf_disk:
  assumes "buf_inv s" "held s x" "unat x < 2048" "k < 512" "write_buf 0 blk rw f s = Ret r t"
  shows "disk_block t x k = disk_block s x k"
proof -
  obtain i u where u: "bread 0 blk rw s = Ret i u" "chr_ram t = chr_ram u"
    using assms(5) by (auto simp: write_buf_def run_simps bawrite_def bfree_def upd_buf_def derefK_def split: outcome.splits option.splits)
  then show ?thesis using bread_disk[OF assms(1-4) u(1)] by (simp add: disk_block_def)
qed

lemma blk_free_disk:
  assumes "buf_inv s" "held s x" "unat x < 2048" "k < 512" "blk_free 0 blk s = Ret r t"
  shows "disk_block t x k = disk_block s x k"
proof -
  have d: "disk_block u x k = disk_block s x k" if "write_buf 0 blk 1 f (s\<lparr>fs_tab := y\<rparr>) = Ret z u" for f y z u
    using write_buf_disk[OF _ _ assms(3,4) that] assms(1,2) by (simp add: disk_block_def)
  have c: "disk_block (u\<lparr>fs_tab := y\<rparr>) x k = disk_block u x k" for u y by (simp add: disk_block_def)
  show ?thesis
    using assms(5)
    by (auto simp: blk_free_def getdev_def validblk_def run_simps upd_fs_def Let_def c d panic_def
        split: outcome.splits if_splits)
qed

section \<open>Steps that free blocks\<close>

text \<open>
  From \<open>s\<close>, whose free blocks are \<open>l\<close>, to \<open>t\<close> the blocks \<open>bs\<close> have been freed, one after the
  other: the contents of others, the buffers in use and the medium under these stay.
\<close>

definition freed :: "kst \<Rightarrow> u16 list \<Rightarrow> u16 list \<Rightarrow> kst \<Rightarrow> bool" where
  "freed s bs l t \<longleftrightarrow> buf_inv t \<and> busy_same s t \<and> alloc_frame s t \<and> u_error (udata t) = u_error (udata s) \<and>
     free_list t (rev bs @ l) \<and>
     (\<forall>x k. unat x < 2048 \<longrightarrow> k < 512 \<longrightarrow> x \<notin> set bs \<longrightarrow> bview t x k = bview s x k) \<and>
     (\<forall>x k. held s x \<longrightarrow> unat x < 2048 \<longrightarrow> k < 512 \<longrightarrow> disk_block t x k = disk_block s x k)"

lemma buf_frame_alloc: "buf_frame s t \<Longrightarrow> alloc_frame s t"
  by (rule alloc_frameI[where fs = "fs_tab s ! 0" and er = "u_error (udata s)"]) simp_all

lemma alloc_frame_trans:
  assumes st: "alloc_frame s t" and tu: "alloc_frame t u" and len: "length (fs_tab s) = NDEVS"
  shows "alloc_frame s u"
proof -
  obtain bp bc cr ub er fs where t: "t = s\<lparr>bufpool := bp, bufclock := bc, chr_ram := cr,
       udata := (udata s)\<lparr>u_buf := ub, u_error := er\<rparr>, fs_tab := (fs_tab s)[0 := fs]\<rparr>"
    and a: "s_isize fs = s_isize (fs_tab s ! 0) \<and> s_fsize fs = s_fsize (fs_tab s ! 0) \<and>
     s_mounted fs = s_mounted (fs_tab s ! 0) \<and> s_mntpt fs = s_mntpt (fs_tab s ! 0) \<and>
     s_ninode fs = s_ninode (fs_tab s ! 0) \<and> s_inode fs = s_inode (fs_tab s ! 0) \<and>
     s_tinode fs = s_tinode (fs_tab s ! 0)"
    using st unfolding alloc_frame_def by blast
  obtain bp' bc' cr' ub' er' fs' where u: "u = t\<lparr>bufpool := bp', bufclock := bc', chr_ram := cr',
       udata := (udata t)\<lparr>u_buf := ub', u_error := er'\<rparr>, fs_tab := (fs_tab t)[0 := fs']\<rparr>"
    and b: "s_isize fs' = s_isize (fs_tab t ! 0) \<and> s_fsize fs' = s_fsize (fs_tab t ! 0) \<and>
     s_mounted fs' = s_mounted (fs_tab t ! 0) \<and> s_mntpt fs' = s_mntpt (fs_tab t ! 0) \<and>
     s_ninode fs' = s_ninode (fs_tab t ! 0) \<and> s_inode fs' = s_inode (fs_tab t ! 0) \<and>
     s_tinode fs' = s_tinode (fs_tab t ! 0)"
    using tu unfolding alloc_frame_def by blast
  have "fs_tab t ! 0 = fs" using len by (simp add: t)
  then have "s_isize fs' = s_isize (fs_tab s ! 0) \<and> s_fsize fs' = s_fsize (fs_tab s ! 0) \<and>
     s_mounted fs' = s_mounted (fs_tab s ! 0) \<and> s_mntpt fs' = s_mntpt (fs_tab s ! 0) \<and>
     s_ninode fs' = s_ninode (fs_tab s ! 0) \<and> s_inode fs' = s_inode (fs_tab s ! 0) \<and>
     s_tinode fs' = s_tinode (fs_tab s ! 0)" using a b by simp
  moreover have "u = s\<lparr>bufpool := bp', bufclock := bc', chr_ram := cr',
       udata := (udata s)\<lparr>u_buf := ub', u_error := er'\<rparr>, fs_tab := (fs_tab s)[0 := fs']\<rparr>"
    by (simp add: u t)
  ultimately show ?thesis unfolding alloc_frame_def by blast
qed

lemma alloc_frame_keeps:
  assumes "alloc_frame s t" and "length (fs_tab s) = NDEVS"
  shows "length (fs_tab t) = NDEVS" "data_block t = data_block s" "i_tab t = i_tab s"
  using assms by (auto simp: alloc_frame_def data_block_def fun_eq_iff)

lemma freed_refl: "buf_inv s \<Longrightarrow> free_list s l \<Longrightarrow> freed s [] l s"
  by (simp add: freed_def buf_frame_alloc)

lemma freed_trans:
  assumes st: "freed s as l t" and tu: "freed t bs (rev as @ l) u" and len: "length (fs_tab s) = NDEVS"
  shows "freed s (as @ bs) l u"
proof -
  have "alloc_frame s u" using alloc_frame_trans[of s t u] st tu len by (simp add: freed_def)
  moreover have "held t x" if "held s x" for x using that busy_same_held[of s t x] st by (simp add: freed_def)
  ultimately show ?thesis
    using st tu busy_same_trans[of s t u] by (simp add: freed_def)
qed

lemma free_list_view:
  assumes "free_list s l" and "fs_tab t = fs_tab s" and "\<And>x k. x \<in> set l \<Longrightarrow> k < 512 \<Longrightarrow> bview t x k = bview s x k"
  shows "free_list t l"
  using assms free_chain_view[of s _ l t] by (auto simp: free_list_def Let_def)

text \<open>Buffers not in use.\<close>

definition n_idle :: "kst \<Rightarrow> nat" where
  "n_idle s = card {i. i < NBUFS \<and> bf_busy (bufpool s ! i) = 0}"

lemma n_idle_some: "0 < n_idle s \<Longrightarrow> some_free s"
  by (auto simp: n_idle_def some_free_def card_gt_0_iff)

lemma n_idle_same:
  assumes "busy_same s t"
  shows "n_idle t = n_idle s"
proof -
  have "i < NBUFS \<and> bf_busy (bufpool t ! i) = 0 \<longleftrightarrow> i < NBUFS \<and> bf_busy (bufpool s ! i) = 0" for i
    using assms unfolding busy_same_def by metis
  then show ?thesis by (simp add: n_idle_def)
qed

lemma blk_free_freed:
  assumes "buf_inv s" and "0 < n_idle s" and "length (fs_tab s) = NDEVS" and "free_list s l"
    and b: "data_block s b" "b \<notin> set l" "\<not> held s b"
  shows "wp (blk_free 0 b) (\<lambda>_. freed s [b] l) s"
proof -
  have "wp (blk_free 0 b) (\<lambda>_ t. free_list t (b # l) \<and> u_error (udata t) = u_error (udata s) \<and>
     (\<exists>d. alloc_step s ((bview s)(b := d)) t)) s"
    using b n_idle_some[OF assms(2)] by (intro blk_free_spec assms) (simp_all add: data_block_def)
  then obtain t where t: "blk_free 0 b s = Ret () t" "free_list t (b # l)" "u_error (udata t) = u_error (udata s)"
    and "\<exists>d. alloc_step s ((bview s)(b := d)) t" by (auto simp: wp_iff)
  then have "buf_inv t" "busy_same s t" "alloc_frame s t" "\<forall>x k. unat x < 2048 \<longrightarrow> k < 512 \<longrightarrow> x \<noteq> b \<longrightarrow> bview t x k = bview s x k"
    by (auto simp: alloc_step_def)
  then have "freed s [b] l t" using t blk_free_disk[OF assms(1) _ _ _ t(1)] by (simp add: freed_def)
  then show ?thesis by (simp add: wp_def t(1))
qed

section \<open>A block held while what it lists is freed\<close>

lemma hold_block:
  assumes inv: "buf_inv s" and "0 < n_idle s" and b: "unat b < 2048" "\<not> held s b" and fl: "free_list s l"
  shows "\<exists>i s'. bread 0 b 0 s = Ret (Some i) s' \<and> buf_inv s' \<and> buf_frame s s' \<and> holds s' i b \<and> bf_busy (bufpool s ! i) = 0 \<and>
     only_buf i s s' \<and> (\<forall>x k. unat x < 2048 \<longrightarrow> k < 512 \<longrightarrow> bview s' x k = bview s x k) \<and> agrees s' (bufpool s' ! i) \<and>
     free_list s' l \<and> n_idle s' = n_idle s - 1 \<and> (\<forall>x. held s' x \<longrightarrow> x = b \<or> held s x) \<and>
     (\<forall>x k. held s x \<longrightarrow> unat x < 2048 \<longrightarrow> k < 512 \<longrightarrow> disk_block s' x k = disk_block s x k)"
proof -
  obtain i s' where r: "bread 0 b 0 s = Ret (Some i) s'" and "bread_post b True s i s'"
    using bread_spec[OF inv b n_idle_some[OF assms(2)], of 0] by (auto simp: wp_iff)
  note p = this(2)[unfolded bread_post_def]
  have i: "i < NBUFS" "holds s' i b" "bf_busy (bufpool s ! i) = 0" "bf_busy (bufpool s' ! i) \<noteq> 0"
    and o: "only_buf i s s'" and fr: "buf_frame s s'"
    using p by (auto simp: holds_def only_buf_def)
  have v: "\<forall>x k. unat x < 2048 \<longrightarrow> k < 512 \<longrightarrow> bview s' x k = bview s x k" using p by metis
  have "free_list s' l"
  proof (rule free_list_view[OF fl])
    show "fs_tab s' = fs_tab s" using fr by (auto simp: buf_frame_def)
    show "bview s' x k = bview s x k" if "x \<in> set l" "k < 512" for x k
      using v fl that by (simp add: free_list_def Let_def)
  qed
  moreover have "n_idle s' = n_idle s - 1"
  proof -
    have "{j. j < NBUFS \<and> bf_busy (bufpool s' ! j) = 0} = {j. j < NBUFS \<and> bf_busy (bufpool s ! j) = 0} - {i}"
      using o i(4) by (auto simp: only_buf_def)
    then show ?thesis using i(1,3) by (simp add: n_idle_def)
  qed
  moreover have "x = b \<or> held s x" if "held s' x" for x
  proof -
    from that obtain j where j: "holds s' j x" unfolding held_def by blast
    show ?thesis
    proof (cases "j = i")
      case True
      then show ?thesis using j i(2) by (simp add: holds_def)
    next
      case False
      then have "holds s j x" using j o by (simp add: holds_def only_buf_def)
      then show ?thesis by (auto simp: held_def)
    qed
  qed
  ultimately show ?thesis using r p i o fr v bread_disk[OF inv _ _ _ r] by blast
qed

lemma release_held:
  assumes hold: "holds s' i b" "agrees s' (bufpool s' ! i)" "buf_frame s s'" "bf_busy (bufpool s ! i) = 0" "only_buf i s s'"
    and b: "unat b < 2048" and v: "\<forall>x k. unat x < 2048 \<longrightarrow> k < 512 \<longrightarrow> bview s' x k = bview s x k"
    and d: "\<forall>x k. held s x \<longrightarrow> unat x < 2048 \<longrightarrow> k < 512 \<longrightarrow> disk_block s' x k = disk_block s x k"
    and f: "freed s' bs l u" and len: "length (fs_tab s) = NDEVS"
  shows "wp (brelse i) (\<lambda>_. freed s bs l) u"
proof -
  have busy: "busy_same s' u" "buf_inv u" using f by (simp_all add: freed_def)
  have i: "i < NBUFS" "bf_busy (bufpool s' ! i) \<noteq> 0" "bf_blk (bufpool s' ! i) = b" using hold(1) by (simp_all add: holds_def)
  have same: "bufpool u ! i = bufpool s' ! i" using busy(1) i unfolding busy_same_def by metis
  have h: "holds u i b" using hold(1) by (simp add: holds_def same)
  have "held s' b" using hold(1) by (auto simp: held_def)
  then have "agrees u (bufpool u ! i)"
    using hold(2) f b i(3) unfolding same agrees_def freed_def by metis
  from brelse_spec[OF busy(2) h this] obtain w where w: "brelse i u = Ret () w" "release_post u i w"
    by (auto simp: wp_iff)
  have cr: "chr_ram w = chr_ram u"
    using w(1) by (auto simp: brelse_def bfree_def run_simps upd_buf_def)
  have ow: "only_buf i u w" "bf_busy (bufpool w ! i) = 0" "buf_frame u w" "bview w = bview u"
    using w(2) by (auto simp: release_post_def fun_eq_iff)
  have "busy_same s w"
    using hold(4,5) busy(1) ow(1,2) unfolding busy_same_def only_buf_def by (metis (full_types))
  moreover have "alloc_frame s w"
  proof -
    have "alloc_frame s u" using alloc_frame_trans[OF buf_frame_alloc[OF hold(3)] _ len] f by (simp add: freed_def)
    then show ?thesis using alloc_frame_trans[OF _ buf_frame_alloc[OF ow(3)] len] by simp
  qed
  moreover have "fs_tab w = fs_tab u \<and> u_error (udata w) = u_error (udata u)" by (rule buf_frame_keeps[OF ow(3)])
  moreover have "free_list w (rev bs @ l)"
    using f free_list_view[of u "rev bs @ l" w] \<open>fs_tab w = fs_tab u \<and> _\<close> by (simp add: freed_def ow(4))
  moreover have "u_error (udata s') = u_error (udata s)" using buf_frame_keeps[OF hold(3)] by simp
  moreover have "held s' x" if "held s x" for x
  proof -
    from that obtain j where j: "holds s j x" unfolding held_def by blast
    then have "j \<noteq> i" using hold(4) by (auto simp: holds_def)
    then have "holds s' j x" using j hold(5) by (simp add: holds_def only_buf_def)
    then show ?thesis by (auto simp: held_def)
  qed
  ultimately have "freed s bs l w"
    using f w(2) v d cr by (simp add: freed_def release_post_def disk_block_def[abs_def] ow(4))
  then show ?thesis by (simp add: wp_def w(1))
qed

section \<open>freeblk\<close>

text \<open>Blocks that may be freed: of the data area, no two the same, none free already or in use.\<close>

definition to_free :: "kst \<Rightarrow> u16 list \<Rightarrow> u16 list \<Rightarrow> bool" where
  "to_free s bs l \<longleftrightarrow> distinct (bs @ l) \<and> (\<forall>x\<in>set bs. data_block s x \<and> \<not> held s x)"

lemma to_free_append:
  assumes "to_free s (as @ bs) l"
  shows "to_free s as l" and "freed s as l t \<Longrightarrow> length (fs_tab s) = NDEVS \<Longrightarrow> to_free t bs (rev as @ l)"
proof -
  show "to_free s as l" using assms by (auto simp: to_free_def)
  assume f: "freed s as l t" and len: "length (fs_tab s) = NDEVS"
  have "data_block t = data_block s" using alloc_frame_keeps(2)[of s t] f len by (simp add: freed_def)
  moreover have "held t x \<longleftrightarrow> held s x" for x using f busy_same_held[of s t x] by (simp add: freed_def)
  ultimately show "to_free t bs (rev as @ l)" using assms by (auto simp: to_free_def)
qed

text \<open>The freeing at one level, as the hypothesis of the next.\<close>

definition frees_level :: "nat \<Rightarrow> bool" where
  "frees_level k \<longleftrightarrow> (\<forall>s b l. buf_inv s \<longrightarrow> k < n_idle s \<longrightarrow> length (fs_tab s) = NDEVS \<longrightarrow> free_list s l \<longrightarrow>
     to_free s (tree_blocks (bview s) k b) l \<longrightarrow> wp (freeblk k 0 b) (\<lambda>_. freed s (tree_blocks (bview s) k b) l) s)"

lemma tree_blocks_freed:
  assumes "freed s bs l t" and "\<forall>x\<in>set (tree_blocks (bview s) k b). unat x < 2048 \<and> x \<notin> set bs"
  shows "tree_blocks (bview t) k b = tree_blocks (bview s) k b"
  using assms by (intro tree_blocks_view) (simp add: freed_def)

lemma free_listed:
  assumes "frees_level k" and "buf_inv s" and "k < n_idle s" and "length (fs_tab s) = NDEVS" and "free_list s l"
    and "holds s i b" and "unat b < 2048" and "\<forall>j\<in>set js. j < 256"
    and "bs = concat (map (\<lambda>j. tree_blocks (bview s) k (word_at (bview s b) j)) js)" and "to_free s bs l"
  shows "wp (forK js (\<lambda>j. bindK (getK (\<lambda>s. word_at (bf_data (bufpool s ! i)) j)) (freeblk k 0))) (\<lambda>_. freed s bs l) s"
  using assms
proof (induction js arbitrary: s l bs)
  case Nil
  then show ?case using freed_refl[of s l] by simp
next
  case (Cons j js)
  note A = Cons.prems
  define as where "as = tree_blocks (bview s) k (word_at (bview s b) j)"
  define cs where "cs = concat (map (\<lambda>j. tree_blocks (bview s) k (word_at (bview s b) j)) js)"
  have bs: "bs = as @ cs" using A(9) by (simp add: as_def cs_def)
  have data: "bf_data (bufpool s ! i) = bview s b" using bview_cached[OF A(2), of i] A(6) by (simp add: holds_def)
  note tf = to_free_append[OF A(10)[unfolded bs]]
  have ok: "unat x < 2048" "\<not> held s x" if "x \<in> set bs" for x
    using A(10) that by (auto simp: to_free_def data_block_def)
  have hb: "b \<notin> set bs" using A(6,10) by (auto simp: to_free_def held_def)
  have "wp (freeblk k 0 (word_at (bview s b) j)) (\<lambda>_. freed s as l) s"
    using A(1-5) tf(1) unfolding frees_level_def as_def by blast
  then have "wp (freeblk k 0 (word_at (bview s b) j))
      (\<lambda>_. wp (forK js (\<lambda>j. bindK (getK (\<lambda>s. word_at (bf_data (bufpool s ! i)) j)) (freeblk k 0))) (\<lambda>_. freed s bs l)) s"
  proof (rule wp_mono)
    fix x :: unit and t
    assume f: "freed s as l t"
    have inv: "buf_inv t" "busy_same s t" "alloc_frame s t" "free_list t (rev as @ l)" using f by (simp_all add: freed_def)
    have h: "holds t i b" using A(6) inv(2) by (auto simp: holds_def busy_same_def)
    have len: "length (fs_tab t) = NDEVS" by (rule alloc_frame_keeps(1)[OF inv(3) A(4)])
    have idle: "k < n_idle t" using A(3) n_idle_same[OF inv(2)] by simp
    have wb: "word_at (bview t b) m = word_at (bview s b) m" if "m < 256" for m
      using f A(7) hb bs that by (intro word_at_cong) (simp_all add: freed_def)
    have cs: "cs = concat (map (\<lambda>j. tree_blocks (bview t) k (word_at (bview t b) j)) js)"
    proof -
      have "tree_blocks (bview t) k (word_at (bview t b) m) = tree_blocks (bview s) k (word_at (bview s b) m)" if m: "m \<in> set js" for m
      proof -
        have "set (tree_blocks (bview s) k (word_at (bview s b) m)) \<subseteq> set cs" using m by (auto simp: cs_def)
        then have "\<forall>x\<in>set (tree_blocks (bview s) k (word_at (bview s b) m)). unat x < 2048 \<and> x \<notin> set as"
          using ok A(10) unfolding bs by (auto simp: to_free_def)
        moreover have "m < 256" using A(8) m by simp
        ultimately show ?thesis using tree_blocks_freed[OF f] wb by simp
      qed
      then show ?thesis unfolding cs_def by (intro arg_cong[of _ _ concat] map_cong refl) simp
    qed
    have "wp (forK js (\<lambda>j. bindK (getK (\<lambda>s. word_at (bf_data (bufpool s ! i)) j)) (freeblk k 0))) (\<lambda>_. freed t cs (rev as @ l)) t"
      using A(8) by (intro Cons.IH[OF A(1) inv(1) idle len inv(4) h A(7) _ cs tf(2)[OF f A(4)]]) simp
    then show "wp (forK js (\<lambda>j. bindK (getK (\<lambda>s. word_at (bf_data (bufpool s ! i)) j)) (freeblk k 0))) (\<lambda>_. freed s bs l) t"
      unfolding bs by (rule wp_mono) (rule freed_trans[OF f _ A(4)])
  qed
  then show ?case by (simp add: data)
qed

lemma frees_all: "frees_level k"
proof (induction k)
  case 0
  have "wp (freeblk 0 0 b) (\<lambda>_. freed s (tree_blocks (bview s) 0 b) l) s"
    if "buf_inv s" "0 < n_idle s" "length (fs_tab s) = NDEVS" "free_list s l" "to_free s (tree_blocks (bview s) 0 b) l" for s b l
    using that freed_refl[of s l] blk_free_freed[of s l b] by (cases "b = 0") (simp_all add: to_free_def)
  then show ?case unfolding frees_level_def by blast
next
  case (Suc k)
  have "wp (freeblk (Suc k) 0 b) (\<lambda>_. freed s (tree_blocks (bview s) (Suc k) b) l) s"
    if A: "buf_inv s" "Suc k < n_idle s" "length (fs_tab s) = NDEVS" "free_list s l" "to_free s (tree_blocks (bview s) (Suc k) b) l" for s b l
  proof (cases "b = 0")
    case True
    then show ?thesis using freed_refl[OF A(1,4)] by simp
  next
    case False
    define js :: "nat list" where "js = rev [0..<256]"
    define cs where "cs = concat (map (\<lambda>j. tree_blocks (bview s) k (word_at (bview s b) j)) js)"
    have bs: "tree_blocks (bview s) (Suc k) b = cs @ [b]" using False by (simp only: tree_blocks.simps cs_def js_def if_False)
    note tf = to_free_append[OF A(5)[unfolded bs]]
    have b: "unat b < 2048" "\<not> held s b" "data_block s b" using A(5) unfolding bs by (simp_all add: to_free_def data_block_def)
    have "0 < n_idle s" using A(2) by simp
    from hold_block[OF A(1) this b(1,2) A(4)] obtain i s' where r: "bread 0 b 0 s = Ret (Some i) s'"
      and h: "buf_inv s'" "buf_frame s s'" "holds s' i b" "bf_busy (bufpool s ! i) = 0" "only_buf i s s'"
      and v: "\<forall>x k. unat x < 2048 \<longrightarrow> k < 512 \<longrightarrow> bview s' x k = bview s x k" and ag: "agrees s' (bufpool s' ! i)"
      and fl: "free_list s' l" and ni: "n_idle s' = n_idle s - 1" and hd: "\<forall>x. held s' x \<longrightarrow> x = b \<or> held s x"
      and d: "\<forall>x k. held s x \<longrightarrow> unat x < 2048 \<longrightarrow> k < 512 \<longrightarrow> disk_block s' x k = disk_block s x k" by blast
    have len: "length (fs_tab s') = NDEVS" using buf_frame_keeps[OF h(2)] A(3) by simp
    have small: "unat x < 2048" if "x \<in> set cs" for x using tf(1) that by (auto simp: to_free_def data_block_def)
    have cs': "cs = concat (map (\<lambda>j. tree_blocks (bview s') k (word_at (bview s' b) j)) js)"
    proof -
      have "tree_blocks (bview s') k (word_at (bview s' b) m) = tree_blocks (bview s) k (word_at (bview s b) m)" if m: "m \<in> set js" for m
      proof -
        have "word_at (bview s' b) m = word_at (bview s b) m" using v b(1) m by (intro word_at_cong) (simp_all add: js_def)
        moreover have "set (tree_blocks (bview s) k (word_at (bview s b) m)) \<subseteq> set cs" using m by (auto simp: cs_def)
        ultimately show ?thesis using v small by (auto intro!: tree_blocks_view)
      qed
      then show ?thesis unfolding cs_def by (intro arg_cong[of _ _ concat] map_cong refl) simp
    qed
    have "data_block s' = data_block s" using alloc_frame_keeps(2)[OF buf_frame_alloc[OF h(2)] A(3)] .
    moreover have "b \<notin> set cs" using A(5) unfolding bs by (auto simp: to_free_def)
    ultimately have tf': "to_free s' cs l" using tf(1) hd by (auto simp: to_free_def)
    have js: "\<forall>j\<in>set js. j < 256" by (simp add: js_def)
    have "k < n_idle s'" using ni A(2) by simp
    note L = free_listed[OF Suc.IH h(1) this len fl h(3) b(1) js cs' tf']
    have "wp (forK js (\<lambda>j. bindK (getK (\<lambda>s. word_at (bf_data (bufpool s ! i)) j)) (freeblk k 0)))
        (\<lambda>_. wp (brelse i) (\<lambda>_. wp (blk_free 0 b) (\<lambda>_. freed s (cs @ [b]) l))) s'"
    proof (rule wp_mono[OF L], rule wp_mono[OF release_held[OF h(3) ag h(2,4,5) b(1) v d _ A(3)]], assumption)
      fix x y :: unit and u w
      assume f: "freed s cs l w"
      have w: "buf_inv w" "busy_same s w" "alloc_frame s w" "free_list w (rev cs @ l)" using f by (simp_all add: freed_def)
      have tw: "to_free w [b] (rev cs @ l)" by (rule tf(2)[OF f A(3)])
      have "wp (blk_free 0 b) (\<lambda>_. freed w [b] (rev cs @ l)) w"
        using w A(2) n_idle_same[OF w(2)] alloc_frame_keeps(1)[OF w(3) A(3)] tw
        by (intro blk_free_freed) (simp_all add: to_free_def)
      then show "wp (blk_free 0 b) (\<lambda>_. freed s (cs @ [b]) l) w"
        by (rule wp_mono) (rule freed_trans[OF f _ A(3)])
    qed
    then show ?thesis
      unfolding bs using False by (simp add: wp_def[of "bread 0 b 0"] r js_def)
  qed
  then show ?case unfolding frees_level_def by blast
qed

section \<open>f_trunc\<close>

text \<open>All blocks of a file, in the order \<open>f_trunc\<close> frees them.\<close>

definition roots :: "cinode \<Rightarrow> (nat \<times> u16) list" where
  "roots c = (let a = i_addr (c_node c) in (2, a ! 19) # (1, a ! 18) # map (\<lambda>j. (0, a ! j)) (rev [0..<18]))"

definition all_blocks :: "(u16 \<Rightarrow> bytes) \<Rightarrow> (nat \<times> u16) list \<Rightarrow> u16 list" where
  "all_blocks V ps = concat (map (\<lambda>(k, b). tree_blocks V k b) ps)"

definition file_blocks :: "(u16 \<Rightarrow> bytes) \<Rightarrow> cinode \<Rightarrow> u16 list" where
  "file_blocks V c = all_blocks V (roots c)"

text \<open>They contain every block of the file.\<close>

lemma tree_word_in_blocks:
  "tree_word V b k \<noteq> 0 \<Longrightarrow> k < 256 \<Longrightarrow> x \<in> set (tree_blocks V l (tree_word V b k)) \<Longrightarrow> x \<in> set (tree_blocks V (Suc l) b)"
  by (auto simp: tree_word_def split: if_splits)

lemma file_blk_in_blocks:
  assumes "n < 65536" and "file_blk V c n \<noteq> NULLBLK"
  shows "file_blk V c n \<in> set (file_blocks V c)"
proof -
  let ?a = "i_addr (c_node c)"
  consider "n < 18" | "18 \<le> n" "n < 274" | "274 \<le> n" by linarith
  then show ?thesis
  proof cases
    case 1
    then have "(0, ?a ! n) \<in> set (roots c)" by (simp add: roots_def Let_def)
    moreover have "?a ! n \<noteq> 0" "file_blk V c n = ?a ! n" using 1 assms(2) by (auto simp: file_blk_def or_null_def Let_def split: if_splits)
    ultimately show ?thesis by (force simp: file_blocks_def all_blocks_def)
  next
    case 2
    define w where "w = tree_word V (?a ! 18) (n - 18)"
    have w: "w \<noteq> 0" "file_blk V c n = w" using 2 assms(2) by (auto simp: file_blk_def or_null_def w_def Let_def split: if_splits)
    have "w \<in> set (tree_blocks V 0 w)" "n - 18 < 256" using w(1) 2 by (simp, linarith)
    then have "w \<in> set (tree_blocks V (Suc 0) (?a ! 18))"
      using w(1) tree_word_in_blocks[of V "?a ! 18" "n - 18" w 0] by (simp add: w_def del: tree_blocks.simps(2))
    moreover have "(Suc 0, ?a ! 18) \<in> set (roots c)" by (simp add: roots_def Let_def)
    ultimately show ?thesis unfolding w(2) file_blocks_def all_blocks_def by (auto simp del: tree_blocks.simps intro!: bexI)
  next
    case 3
    define m where "m = tree_word V (?a ! 19) ((n - 274) div 256)"
    define w where "w = tree_word V m ((n - 274) mod 256)"
    have w: "w \<noteq> 0" "file_blk V c n = w" using 3 assms(2) by (auto simp: file_blk_def or_null_def w_def m_def Let_def split: if_splits)
    then have m: "m \<noteq> 0" by (auto simp: w_def tree_word_def)
    have "w \<in> set (tree_blocks V 0 w)" "(n - 274) mod 256 < 256" using w(1) by simp_all
    then have "w \<in> set (tree_blocks V (Suc 0) m)"
      using w(1) tree_word_in_blocks[of V m "(n - 274) mod 256" w 0] by (simp add: w_def del: tree_blocks.simps(2))
    moreover have "(n - 274) div 256 < 256" using assms(1) by (simp add: div_less_iff_less_mult)
    ultimately have "w \<in> set (tree_blocks V (Suc (Suc 0)) (?a ! 19))"
      using m unfolding m_def by (intro tree_word_in_blocks[where l = "Suc 0"])
    moreover have "(Suc (Suc 0), ?a ! 19) \<in> set (roots c)" by (simp add: roots_def Let_def)
    ultimately show ?thesis unfolding w(2) file_blocks_def all_blocks_def by (auto simp del: tree_blocks.simps intro!: bexI)
  qed
qed

lemma free_roots:
  assumes "buf_inv s" and "\<forall>(k, b)\<in>set ps. k < n_idle s" and "length (fs_tab s) = NDEVS" and "free_list s l"
    and "to_free s (all_blocks (bview s) ps) l"
  shows "wp (forK ps (\<lambda>(k, b). freeblk k 0 b)) (\<lambda>_. freed s (all_blocks (bview s) ps) l) s"
  using assms
proof (induction ps arbitrary: s l)
  case Nil
  then show ?case using freed_refl[of s l] by (simp add: all_blocks_def)
next
  case (Cons p ps)
  obtain k b where p: "p = (k, b)" by (cases p)
  note A = Cons.prems
  let ?as = "tree_blocks (bview s) k b" and ?cs = "all_blocks (bview s) ps"
  have bs: "all_blocks (bview s) (p # ps) = ?as @ ?cs" by (simp add: all_blocks_def p)
  note tf = to_free_append[OF A(5)[unfolded bs]]
  have "wp (freeblk k 0 b) (\<lambda>_. freed s ?as l) s"
    using frees_all[of k] A(1-4) tf(1) p unfolding frees_level_def by simp
  then have "wp (freeblk k 0 b) (\<lambda>_. wp (forK ps (\<lambda>(k, b). freeblk k 0 b)) (\<lambda>_. freed s (?as @ ?cs) l)) s"
  proof (rule wp_mono)
    fix x :: unit and t
    assume f: "freed s ?as l t"
    have t: "buf_inv t" "busy_same s t" "alloc_frame s t" "free_list t (rev ?as @ l)" using f by (simp_all add: freed_def)
    have "all_blocks (bview t) ps = ?cs"
      unfolding all_blocks_def
    proof (intro arg_cong[of _ _ concat] map_cong refl)
      fix q assume q: "q \<in> set ps"
      obtain m y where qq: "q = (m, y)" by (cases q)
      have "set (tree_blocks (bview s) m y) \<subseteq> set ?cs" using q by (auto simp: all_blocks_def qq)
      then have "\<forall>x\<in>set (tree_blocks (bview s) m y). unat x < 2048 \<and> x \<notin> set ?as"
        using A(5) unfolding bs by (auto simp: to_free_def data_block_def)
      then show "(case q of (k, b) \<Rightarrow> tree_blocks (bview t) k b) = (case q of (k, b) \<Rightarrow> tree_blocks (bview s) k b)"
        using tree_blocks_freed[OF f] by (simp add: qq)
    qed
    then have "wp (forK ps (\<lambda>(k, b). freeblk k 0 b)) (\<lambda>_. freed t ?cs (rev ?as @ l)) t"
      using Cons.IH[OF t(1) _ alloc_frame_keeps(1)[OF t(3) A(3)] t(4)] A(2) n_idle_same[OF t(2)] tf(2)[OF f A(3)] by simp
    then show "wp (forK ps (\<lambda>(k, b). freeblk k 0 b)) (\<lambda>_. freed s (?as @ ?cs) l) t"
      by (rule wp_mono) (rule freed_trans[OF f _ A(3)])
  qed
  then show ?case unfolding bs by (simp add: p)
qed

lemma n_idle_idle: "idle s \<Longrightarrow> n_idle s = NBUFS"
proof -
  assume "idle s"
  then have "{i. i < NBUFS \<and> bf_busy (bufpool s ! i) = 0} = {..<NBUFS}" by (auto simp: idle_def)
  then show ?thesis by (simp add: n_idle_def)
qed

definition emptied :: "cinode \<Rightarrow> cinode" where
  "emptied c = c\<lparr>c_dirty := 1, c_node := (c_node c)\<lparr>i_addr := replicate 20 0, i_size := \<lparr>o_blkno = 0, o_offset = 0\<rparr>\<rparr>\<rparr>"

text \<open>
  C6: \<open>f_trunc\<close> gives back exactly the file's blocks. When the blocks of the tree of a file - data
  and indirect ones - are blocks of the data area, each there once and none of them free, they
  become the first blocks of the free list, every block of the file is among them, every other
  block keeps its contents, and the inode is left with no block and length 0.
\<close>

theorem f_trunc_frees:
  assumes "free_stack s l" and "c = i_tab s ! ino" and "c_dev c = 0" and "ino < length (i_tab s)"
    and "distinct (file_blocks (bview s) c @ l)" and "\<forall>b\<in>set (file_blocks (bview s) c). data_block s b"
  shows "wp (f_trunc ino) (\<lambda>_ t. free_stack t (rev (file_blocks (bview s) c) @ l) \<and> i_tab t = (i_tab s)[ino := emptied c] \<and>
     (\<forall>n<65536. file_blk (bview s) c n \<noteq> NULLBLK \<longrightarrow> file_blk (bview s) c n \<in> set (rev (file_blocks (bview s) c))) \<and>
     (\<forall>b k. unat b < 2048 \<longrightarrow> k < 512 \<longrightarrow> b \<notin> set (file_blocks (bview s) c) \<longrightarrow> bview t b k = bview s b k)) s"
proof -
  have s: "idle s" "length (fs_tab s) = NDEVS" "free_list s l" using assms(1) by (simp_all add: free_stack_def)
  let ?done = "doK [upd_node ino (\<lambda>n. n\<lparr>i_addr := replicate 20 0\<rparr>), upd_ino ino (\<lambda>c. c\<lparr>c_dirty := 1\<rparr>),
     upd_node ino (\<lambda>n. n\<lparr>i_size := \<lparr>o_blkno = 0, o_offset = 0\<rparr>\<rparr>)]"
  have fk: "forK (map (\<lambda>j. (0, a ! j)) js) (\<lambda>(k, b). freeblk k 0 b) = forK js (\<lambda>j. freeblk 0 0 (a ! j))" for js a
    by (induction js) simp_all
  have run: "wp (f_trunc ino) Q s = wp (forK (roots c) (\<lambda>(k, b). freeblk k 0 b)) (\<lambda>_. wp ?done Q) s" for Q
    using assms(2,3) by (simp add: f_trunc_def roots_def Let_def fk numeral_2_eq_2 del: upt_rec_numeral freeblk.simps)
  have tf: "to_free s (all_blocks (bview s) (roots c)) l"
    using assms(5,6) s(1) idle_free[OF s(1)] by (simp add: to_free_def file_blocks_def)
  have "\<forall>(k, b)\<in>set (roots c). k < n_idle s" using n_idle_idle[OF s(1)] by (auto simp: roots_def Let_def)
  note F = free_roots[OF _ this s(2,3) tf, folded file_blocks_def]
  show ?thesis
    unfolding run
  proof (rule wp_mono[OF F])
    show "buf_inv s" using s(1) by (simp add: idle_def)
    fix x :: unit and t
    assume f: "freed s (file_blocks (bview s) c) l t"
    have t: "idle t" "length (fs_tab t) = NDEVS" "i_tab t = i_tab s" "free_list t (rev (file_blocks (bview s) c) @ l)"
      using f s alloc_frame_keeps[of s t] by (auto simp: freed_def idle_def busy_same_def)
    have "free_list (t\<lparr>i_tab := y\<rparr>) m = free_list t m" for y m
      by (simp add: free_list_def view_words_def[abs_def])
    then show "wp ?done (\<lambda>_ t. free_stack t (rev (file_blocks (bview s) c) @ l) \<and> i_tab t = (i_tab s)[ino := emptied c] \<and>
     (\<forall>n<65536. file_blk (bview s) c n \<noteq> NULLBLK \<longrightarrow> file_blk (bview s) c n \<in> set (rev (file_blocks (bview s) c))) \<and>
     (\<forall>b k. unat b < 2048 \<longrightarrow> k < 512 \<longrightarrow> b \<notin> set (file_blocks (bview s) c) \<longrightarrow> bview t b k = bview s b k)) t"
      using t f assms(2,4) file_blk_in_blocks by (simp add: free_stack_def idle_def freed_def emptied_def)
  qed
qed

text \<open>A file of the blocks 8 and 9 with an empty indirect block 10; 6 and 7 are free.\<close>

definition small_file :: kst where
  "small_file = two_free\<lparr>i_tab := (i_tab two_free)[3 := zero_cinode\<lparr>c_node := zero_dinode\<lparr>
     i_addr := [8, 9] @ replicate 16 0 @ [10, 0]\<rparr>\<rparr>]\<rparr>"

theorem f_trunc_frees_witness:
  "wp (f_trunc 3) (\<lambda>_ t. free_stack t [8, 9, 10, 6, 7]) small_file"
proof -
  let ?c = "zero_cinode\<lparr>c_node := zero_dinode\<lparr>i_addr := [8, 9] @ replicate 16 0 @ [10, 0]\<rparr>\<rparr>"
  have len: "length (i_tab two_free) = ITABSIZE" by (simp add: two_free_def empty_cache_def bss_def)
  then have c: "?c = i_tab small_file ! 3" "c_dev ?c = 0" "3 < length (i_tab small_file)"
    by (simp_all add: small_file_def zero_cinode_def)
  have view: "bview small_file b k = 0" for b k
  proof -
    have "bufpool small_file ! i = zero_buf\<lparr>bf_dev := 255\<rparr>" if "i < NBUFS" for i
      using empty_cache_pool[OF that] by (simp add: small_file_def two_free_def)
    then have "bview small_file b = disk_block small_file b" by (intro bview_disk) simp
    then show ?thesis by (simp add: disk_block_def small_file_def two_free_def empty_cache_def bss_def)
  qed
  have "word_at (bview small_file b) j = 0" for b j by (simp add: word_at_def get16_def view)
  moreover have "tree_blocks (bview small_file) 2 0 = []" by (simp add: numeral_2_eq_2)
  ultimately have b: "file_blocks (bview small_file) ?c = [10, 9, 8]"
    by (simp add: file_blocks_def all_blocks_def roots_def upt_conv_Cons nth_append nth_Cons')
  have f: "free_stack small_file [6, 7]"
    using two_free_stack by (simp add: small_file_def free_stack_def free_list_def view_words_def[abs_def] idle_def)
  have d: "data_block small_file x" if "x \<in> {8, 9, 10}" for x
    using that by (auto simp: data_block_def small_file_def two_free_def empty_cache_def bss_def)
  show ?thesis
    using f_trunc_frees[OF f c] d unfolding b by (auto elim!: wp_mono)
qed

end
