(* ===== verification/File_Tree.thy ===== *)
theory File_Tree
  imports File_Free File_Write "HOL-Library.Multiset"
begin

text \<open>
  The tree of blocks of a file when it grows (\<open>fs/filesys.c\<close>: \<open>bmap\<close> for writing): blocks the
  file lacks, indirect ones included, come from the free list; nothing else changes.
\<close>

section \<open>One indirect block\<close>

text \<open>Entry \<open>i\<close> of the indirect block \<open>nb\<close>, filled when it is 0; 0 when no block is left.\<close>

definition ind_entry :: "int \<Rightarrow> nat \<Rightarrow> u16 \<Rightarrow> u16 k" where
  "ind_entry dev i nb = bindK (bread dev nb 0) (\<lambda>r. bindK (derefK r) (\<lambda>bp.
     bindK (getK (\<lambda>s. word_at (bf_data (bufpool s ! bp)) i)) (\<lambda>nb'.
     if nb' \<noteq> 0 then thenK (brelse bp) (retK nb')
     else bindK (blk_alloc dev) (\<lambda>new.
       if new = 0 then thenK (brelse bp) (retK 0)
       else thenK (doK [
           upd_buf bp (\<lambda>b. b\<lparr>bf_data := put16 (2 * i) new (bf_data b)\<rparr>),
           bawrite bp])
         (retK new)))))"

lemma bmap_ind_write:
  "bmap_ind (Suc n) dev bn sh 0 nb = bindK (ind_entry dev (unat (drop_bit sh bn AND 0xff)) nb)
     (\<lambda>nb'. if nb' \<noteq> 0 then bmap_ind n dev bn (sh - 8) 0 nb' else retK NULLBLK)"
  by (rule ext) (auto simp: ind_entry_def run_simps Let_def split: outcome.splits)

text \<open>With no block left the allocator touches no buffer.\<close>

lemma free_chain_empty: "free_chain V fr [] \<Longrightarrow> fr = [0]"
  by (erule free_chain.cases) auto

lemma blk_alloc_full:
  assumes "free_list s []" and "length (fs_tab s) = NDEVS" and "blk_alloc 0 s = Ret r t"
  shows "chr_ram t = chr_ram s"
proof -
  note f = assms(1)[unfolded free_list_def Let_def]
  have c: "take (unat (s_nfree (fs_tab s ! 0))) (s_free (fs_tab s ! 0)) = [0]" using f free_chain_empty by blast
  then have "length (take (unat (s_nfree (fs_tab s ! 0))) (s_free (fs_tab s ! 0))) = 1" by simp
  then have "unat (s_nfree (fs_tab s ! 0)) = unat (1 :: u16)" using f by simp
  then have n: "s_nfree (fs_tab s ! 0) = 1" by (simp only: word_unat_eq_iff)
  then have z: "s_free (fs_tab s ! 0) ! 0 = 0" using c f by (cases "s_free (fs_tab s ! 0)") auto
  show ?thesis
    using assms(2,3) f n z
    by (auto simp: blk_alloc_def getdev_def run_simps upd_fs_def upd_ud_def set_error_def baddev_def Let_def unat_eq_0)
qed

lemma busy_same_trans3:
  assumes "only_buf i s s'" and "bf_busy (bufpool s ! i) = 0" and "busy_same s' t" and "only_buf i t w" and "bf_busy (bufpool w ! i) = 0"
  shows "busy_same s w"
  using assms unfolding busy_same_def only_buf_def by (metis (full_types))

lemma ind_entry_spec:
  assumes s: "free_stack s l" and nb: "unat nb < 2048" "nb \<notin> set l" and i: "i < 256"
  shows "wp (ind_entry 0 i nb) (\<lambda>r t. let w = word_at (bview s nb) i in
     if w \<noteq> 0 then r = w \<and> cache_step s (bview s) t
     else case l of
       [] \<Rightarrow> r = 0 \<and> free_list t [] \<and> u_error (udata t) = ENOSPC \<and> alloc_step s (bview s) t
     | b # l' \<Rightarrow> r = b \<and> free_list t l' \<and> u_error (udata t) = u_error (udata s) \<and>
         alloc_step s ((bview s)(b := (\<lambda>_. 0), nb := put16 (2 * i) b (bview s nb))) t) s"
    (is "wp _ ?Q s")
proof -
  note f = s[unfolded free_stack_def]
  have s0: "buf_inv s" "length (fs_tab s) = NDEVS" "free_list s l" "\<not> held s x" for x
    using f idle_free[of s] by (simp_all add: idle_def)
  have ni: "0 < n_idle s" using n_idle_idle[of s] f by simp
  obtain j s' where r: "bread 0 nb 0 s = Ret (Some j) s'" and s': "buf_inv s'" "buf_frame s s'" "holds s' j nb"
    "bf_busy (bufpool s ! j) = 0" "only_buf j s s'" "agrees s' (bufpool s' ! j)" "free_list s' l" "n_idle s' = n_idle s - 1"
    and v: "\<And>x k. unat x < 2048 \<Longrightarrow> k < 512 \<Longrightarrow> bview s' x k = bview s x k" and h: "\<And>x. held s' x \<Longrightarrow> x = nb \<or> held s x"
    using hold_block[OF s0(1) ni nb(1) s0(4,3)] by blast
  have n3: "n_idle s' = 3" using s'(8) n_idle_idle[of s] f by simp
  have data: "bview s' nb = bf_data (bufpool s' ! j)"
    using s'(3) bview_cached[OF s'(1), of j] by (simp add: holds_def)
  have word: "word_at (bf_data (bufpool s' ! j)) i = word_at (bview s nb) i"
    unfolding data[symmetric] using v[OF nb(1)] i by (intro word_at_cong)
  define w where "w = word_at (bview s nb) i"
  have len': "length (fs_tab s') = NDEVS" using buf_frame_keeps[OF s'(2)] s0(2) by simp
  have e: "wp (ind_entry 0 i nb) ?Q s = (if w \<noteq> 0 then wp (brelse j) (\<lambda>_. ?Q w) s'
      else wp (bindK (blk_alloc 0) (\<lambda>new.
       if new = 0 then thenK (brelse j) (retK 0)
       else thenK (doK [
           upd_buf j (\<lambda>b. b\<lparr>bf_data := put16 (2 * i) new (bf_data b)\<rparr>),
           bawrite j])
         (retK new))) ?Q s')"
    unfolding w_def ind_entry_def wp_bindK
    by (simp add: wp_def[of "bread 0 nb 0"] r word del: wp_access)
  show ?thesis
  proof (cases "w = 0")
    case False
    have "wp (brelse j) (\<lambda>_. ?Q w) s'"
    proof (rule wp_mono[OF brelse_spec[OF s'(1,3,6)]])
      fix x :: unit and t assume t: "release_post s' j t"
      have "buf_frame s t" using t s'(2) buf_frame_trans unfolding release_post_def by blast
      moreover have "busy_same s t"
        using busy_same_trans3[OF s'(5,4) busy_same_refl] t by (simp add: release_post_def)
      ultimately show "?Q w t" using t v False by (simp add: cache_step_def release_post_def w_def)
    qed
    then show ?thesis unfolding e using False by simp
  next
    case True
    have nh: "\<forall>b\<in>set l. \<not> held s' b" using h s0(4) nb(2) by blast
    have some: "some_free s'" using n3 by (intro n_idle_some) simp
    note A = blk_alloc_spec[OF s'(1) some len' s'(7) nh]
    have err: "u_error (udata s') = u_error (udata s)" using buf_frame_keeps[OF s'(2)] by simp
    have fin: "alloc_step s V w" if st: "alloc_step s' U t" and iv: "buf_inv w" "buf_frame t w" "only_buf j t w"
        "bf_busy (bufpool w ! j) = 0" "\<And>c k. unat c < 2048 \<Longrightarrow> k < 512 \<Longrightarrow> bview w c k = V c k" for U V t w
    proof -
      note st = st[unfolded alloc_step_def]
      have "busy_same s w" by (rule busy_same_trans3[OF s'(5,4) _ iv(3,4)]) (use st in simp)
      moreover have "length (fs_tab t) = NDEVS" using st alloc_frame_keeps(1)[of s' t] len' by simp
      then have "alloc_frame s w"
        using alloc_frame_trans[OF alloc_frame_trans[OF buf_frame_alloc[OF s'(2)] _ s0(2)] buf_frame_alloc[OF iv(2)] s0(2)] st by blast
      ultimately show ?thesis using iv by (simp add: alloc_step_def)
    qed
    have "wp (blk_alloc 0) (\<lambda>new. wp (if new = 0 then thenK (brelse j) (retK 0)
       else thenK (doK [
           upd_buf j (\<lambda>b. b\<lparr>bf_data := put16 (2 * i) new (bf_data b)\<rparr>),
           bawrite j])
         (retK new)) ?Q) s'"
    proof (cases l)
      case Nil
      obtain t where t: "blk_alloc 0 s' = Ret 0 t" and p: "free_list t []" "u_error (udata t) = ENOSPC" "alloc_step s' (bview s') t"
        using A Nil by (auto simp: wp_iff)
      have cr: "chr_ram t = chr_ram s'" using blk_alloc_full[OF _ len' t] s'(7) Nil by simp
      have same: "bufpool t ! j = bufpool s' ! j" using p(3) s'(3) unfolding alloc_step_def busy_same_def holds_def by metis
      have "holds t j nb" "agrees t (bufpool t ! j)" "buf_inv t"
        using s'(3,6) p(3) by (simp_all add: holds_def agrees_def same disk_block_def cr alloc_step_def)
      then have "wp (brelse j) (\<lambda>_. release_post t j) t" by (intro brelse_spec)
      then have "wp (brelse j) (\<lambda>_. ?Q 0) t"
      proof (rule wp_mono)
        fix x :: unit and u assume u: "release_post t j u"
        note u' = u[unfolded release_post_def]
        have "alloc_step s (bview s) u"
          by (rule fin[OF p(3)]) (use u' p(3) v in \<open>simp_all add: alloc_step_def\<close>)
        moreover have "free_list u []" "u_error (udata u) = ENOSPC"
          using buf_frame_keeps[of t u] u' p(1,2) free_list_view[of t "[]" u] by simp_all
        ultimately show "?Q 0 u" using True Nil by (simp add: w_def)
      qed
      then show ?thesis by (simp add: wp_def[of "blk_alloc 0"] t)
    next
      case (Cons b l')
      obtain t where t: "blk_alloc 0 s' = Ret b t" and p: "free_list t l'" "u_error (udata t) = u_error (udata s')"
        "alloc_step s' ((bview s')(b := (\<lambda>_. 0))) t"
        using A Cons by (auto simp: wp_iff)
      have b0: "b \<noteq> 0" "b \<noteq> nb" "nb \<notin> set l'" using s'(7) nb(2) Cons by (auto simp: free_list_def Let_def)
      have same: "bufpool t ! j = bufpool s' ! j" using p(3) s'(3) unfolding alloc_step_def busy_same_def holds_def by metis
      have ht: "holds t j nb" "buf_inv t" using s'(3) p(3) by (simp_all add: holds_def same alloc_step_def)
      let ?d = "put16 (2 * i) b (bf_data (bufpool t ! j))"
      note sd = set_data_spec[OF ht(2,1), of ?d]
      have up: "upd_buf j (\<lambda>b'. b'\<lparr>bf_data := put16 (2 * i) b (bf_data b')\<rparr>) t = Ret () (set_data j ?d t)"
        by (simp add: upd_buf_def run_simps set_data_def)
      have "wp (bawrite j) (\<lambda>_. ?Q b) (set_data j ?d t)"
      proof (rule wp_mono[OF bawrite_spec[OF sd(1,2)]])
        fix x :: unit and u assume u: "release_post (set_data j ?d t) j u"
        note u' = u[unfolded release_post_def]
        have fr: "buf_frame t u" using u' sd(3) buf_frame_trans by blast
        have ob: "only_buf j t u" using u' sd(5) by (simp add: only_buf_def)
        let ?V = "(bview s)(b := (\<lambda>_. 0), nb := put16 (2 * i) b (bview s nb))"
        have vw: "bview u c k = ?V c k" if "unat c < 2048" "k < 512" for c k
        proof -
          have "bview u c k = (if c = nb then ?d k else bview t c k)" using u' sd(4) by simp
          moreover have "?d k = put16 (2 * i) b (bview s nb) k"
            using v[OF nb(1) that(2)] by (simp add: same data[symmetric] put16_def)
          moreover have "bview t c k = ((bview s)(b := (\<lambda>_. 0))) c k" if "c \<noteq> nb"
            using p(3) v that \<open>unat c < 2048\<close> \<open>k < 512\<close> by (simp add: alloc_step_def)
          ultimately show ?thesis using b0(2) by simp
        qed
        have "alloc_step s ?V u" by (rule fin[OF p(3)]) (use u' fr ob vw in simp_all)
        moreover have "fs_tab u = fs_tab t \<and> u_error (udata u) = u_error (udata t)" by (rule buf_frame_keeps[OF fr])
        moreover have "free_list u l'"
        proof (rule free_list_view[OF p(1)])
          show "fs_tab u = fs_tab t" using buf_frame_keeps[OF fr] by simp
          show "bview u x k = bview t x k" if "x \<in> set l'" "k < 512" for x k
            using u' sd(4) b0(3) that by auto
        qed
        ultimately show "?Q b u" using True Cons p(2) err by (simp add: w_def)
      qed
      then show ?thesis using b0(1) by (simp add: wp_def[of "blk_alloc 0"] t wp_def[of "upd_buf j _"] up del: wp_access split del: if_split)
    qed
    then show ?thesis unfolding e using True by (simp del: wp_if wp_access)
  qed
qed

section \<open>A tree and its leaves\<close>

text \<open>The block reached from \<open>b\<close> through the entries of a path, 0 when one of them is.\<close>

primrec tree_get :: "(u16 \<Rightarrow> bytes) \<Rightarrow> nat list \<Rightarrow> u16 \<Rightarrow> u16" where
  "tree_get V [] b = b"
| "tree_get V (i # p) b = tree_get V p (tree_word V b i)"

definition path_of :: "nat \<Rightarrow> nat list \<Rightarrow> bool" where
  "path_of l p \<longleftrightarrow> length p = l \<and> (\<forall>i\<in>set p. i < 256)"

lemma path_of_simps [simp]:
  "path_of 0 p \<longleftrightarrow> p = []" "path_of (Suc l) [] = False" "path_of (Suc l) (i # p) \<longleftrightarrow> i < 256 \<and> path_of l p"
  by (auto simp: path_of_def)

lemma path_of_Suc: "path_of (Suc l) q \<longleftrightarrow> (\<exists>j r. q = j # r \<and> j < 256 \<and> path_of l r)"
  by (cases q) auto

lemma tree_get_0 [simp]: "tree_get V p 0 = 0"
  by (induction p) (simp_all add: tree_word_def)

text \<open>The blocks below \<open>b\<close> as a multiset, entry by entry.\<close>

abbreviation tree_mset :: "(u16 \<Rightarrow> bytes) \<Rightarrow> nat \<Rightarrow> u16 \<Rightarrow> u16 multiset" where
  "tree_mset V d b \<equiv> mset (tree_blocks V d b)"

lemma tree_mset_Suc:
  assumes "b \<noteq> 0"
  shows "tree_mset V (Suc d) b = add_mset b (\<Sum>j<256. tree_mset V d (word_at (V b) j))"
proof -
  have c: "mset (concat (map f (rev [0..<n]))) = (\<Sum>j<n. mset (f j))" for f :: "nat \<Rightarrow> u16 list" and n
    by (induction n) (simp_all add: lessThan_Suc)
  show ?thesis using assms c[of "\<lambda>j. tree_blocks V d (word_at (V b) j)" 256] by simp
qed

lemma sum_entry: "i < n \<Longrightarrow> (\<Sum>j<n. f j) = f i + (\<Sum>j\<in>{..<n} - {i}. f j)" for f :: "nat \<Rightarrow> 'a multiset"
  by (rule sum.remove) simp_all

lemma entry_in_sum: "j < n \<Longrightarrow> x \<in># f j \<Longrightarrow> x \<in># (\<Sum>j<n. f j)" for f :: "nat \<Rightarrow> 'a multiset"
  by (auto simp: sum_entry[of j n f])

text \<open>Blocks each there once, and none the null block or beyond the device.\<close>

definition clean :: "u16 multiset \<Rightarrow> bool" where
  "clean M \<longleftrightarrow> (\<forall>x. count M x \<le> 1) \<and> (\<forall>x\<in>#M. x \<noteq> 0 \<and> unat x < 2048)"

lemma clean_sub: "clean M \<Longrightarrow> N \<subseteq># M \<Longrightarrow> clean N"
  unfolding clean_def by (meson le_trans mset_subset_eqD mset_subset_eq_count)

lemma clean_add: "clean (A + B) \<Longrightarrow> x \<in># A \<Longrightarrow> x \<notin># B"
proof -
  assume "clean (A + B)" "x \<in># A"
  then have "count A x + count B x \<le> 1" "0 < count A x" by (simp_all add: clean_def)
  then have "count B x = 0" by linarith
  then show ?thesis by (simp add: not_in_iff)
qed

lemma clean_mset: "clean (mset l) \<longleftrightarrow> distinct l \<and> (\<forall>x\<in>set l. x \<noteq> 0 \<and> unat x < 2048)"
  by (simp add: clean_def distinct_count_atmost_1 le_Suc_eq count_mset)
    (metis One_nat_def count_mset count_mset_0_iff not_in_iff set_mset_mset)

text \<open>One of several entries: what is in it, in another one, among the free blocks and above.\<close>

lemma clean_entry:
  fixes f :: "nat \<Rightarrow> u16 multiset"
  assumes "clean (N + (\<Sum>j<n. f j) + F)" and "i < n"
  shows "clean (f i + F)" and "x \<in># N \<Longrightarrow> x \<notin># f i \<and> x \<notin># F"
    and "j < n \<Longrightarrow> j \<noteq> i \<Longrightarrow> x \<in># f j \<Longrightarrow> x \<notin># f i \<and> x \<notin># F \<and> x \<notin># N"
proof -
  have e: "N + (\<Sum>j<n. f j) + F = (f i + F) + ((\<Sum>j\<in>{..<n} - {i}. f j) + N)" by (simp add: sum_entry[OF assms(2)])
  note c = assms(1)[unfolded e]
  show "clean (f i + F)" using clean_sub[OF c] by simp
  show "x \<in># N \<Longrightarrow> x \<notin># f i \<and> x \<notin># F"
    using clean_add[OF c[unfolded add.commute[of "f i + F"]], of x] by simp
  assume j: "j < n" "j \<noteq> i" "x \<in># f j"
  then have "x \<in># (\<Sum>j\<in>{..<n} - {i}. f j)" using sum.remove[of "{..<n} - {i}" j f] by simp
  moreover have "clean ((\<Sum>j\<in>{..<n} - {i}. f j) + (N + (f i + F)))" using c by (simp add: ac_simps)
  ultimately show "x \<notin># f i \<and> x \<notin># F \<and> x \<notin># N" using clean_add by fastforce
qed

lemma tree_get_in: "path_of d p \<Longrightarrow> tree_get V p b \<noteq> 0 \<Longrightarrow> tree_get V p b \<in># tree_mset V d b"
proof (induction d arbitrary: b p)
  case (Suc d)
  then obtain i r where p: "p = i # r" "i < 256" "path_of d r" by (auto simp: path_of_Suc)
  have b: "b \<noteq> 0" using Suc.prems(2) by (cases "b = 0") simp_all
  have "tree_get V p b \<in># tree_mset V d (word_at (V b) i)"
    using Suc.IH[OF p(3), of "word_at (V b) i"] Suc.prems(2) b p by (simp add: tree_word_def)
  then show ?case unfolding tree_mset_Suc[OF b] using entry_in_sum[OF p(2), of _ "\<lambda>j. tree_mset V d (word_at (V b) j)"] by simp
qed simp

lemma tree_get_view:
  "path_of d p \<Longrightarrow> (\<And>x k. x \<in># tree_mset V d b \<Longrightarrow> k < 512 \<Longrightarrow> W x k = V x k) \<Longrightarrow> tree_get W p b = tree_get V p b"
proof (induction d arbitrary: b p)
  case (Suc d)
  then obtain i r where p: "p = i # r" "i < 256" "path_of d r" by (auto simp: path_of_Suc)
  show ?case
  proof (cases "b = 0")
    case False
    note m = tree_mset_Suc[OF False, of V d]
    have "word_at (W b) i = word_at (V b) i" using Suc.prems(2)[of b] p(2) unfolding m by (intro word_at_cong) simp_all
    moreover have "tree_get W r (word_at (V b) i) = tree_get V r (word_at (V b) i)"
      using entry_in_sum[OF p(2), of _ "\<lambda>j. tree_mset V d (word_at (V b) j)"] Suc.prems(2) unfolding m
      by (intro Suc.IH[OF p(3)]) simp
    ultimately show ?thesis using False p(1) by (simp add: tree_word_def)
  qed simp
qed simp

section \<open>Growing at one leaf\<close>

text \<open>
  Leaves \<open>g\<close> of a structure of blocks \<open>M\<close> become \<open>g'\<close> of \<open>M'\<close>, and the free blocks \<open>F\<close> become
  \<open>F'\<close>: blocks only move from one to the other, other blocks and the contents of leaves stay,
  and only leaf \<open>p\<close> may be new, if it was 0; then it is a zeroed block that was free.
\<close>

definition grows :: "('q \<Rightarrow> bool) \<Rightarrow> 'q \<Rightarrow> ('q \<Rightarrow> u16) \<Rightarrow> ('q \<Rightarrow> u16) \<Rightarrow> u16 multiset \<Rightarrow> u16 multiset \<Rightarrow>
    u16 multiset \<Rightarrow> u16 multiset \<Rightarrow> (u16 \<Rightarrow> bytes) \<Rightarrow> (u16 \<Rightarrow> bytes) \<Rightarrow> bool" where
  "grows Q p g g' M M' F F' V V' \<longleftrightarrow> M' + F' = M + F \<and>
     (\<forall>x. unat x < 2048 \<longrightarrow> x \<notin># M \<longrightarrow> x \<notin># F \<longrightarrow> (\<forall>k<512. V' x k = V x k)) \<and>
     (\<forall>q. Q q \<longrightarrow> q \<noteq> p \<or> g p \<noteq> 0 \<longrightarrow> g' q = g q) \<and>
     (\<forall>q. Q q \<longrightarrow> g q \<noteq> 0 \<longrightarrow> (\<forall>k<512. V' (g q) k = V (g q) k)) \<and>
     (g p = 0 \<longrightarrow> g' p \<noteq> 0 \<longrightarrow> g' p \<in># F \<and> (\<forall>k<512. V' (g' p) k = 0))"

lemma growsD:
  assumes "grows Q p g g' M M' F F' V V'"
  shows "M' + F' = M + F" and "unat x < 2048 \<Longrightarrow> x \<notin># M \<Longrightarrow> x \<notin># F \<Longrightarrow> k < 512 \<Longrightarrow> V' x k = V x k"
    and "Q q \<Longrightarrow> q \<noteq> p \<Longrightarrow> g' q = g q" and "Q q \<Longrightarrow> g q \<noteq> 0 \<Longrightarrow> g' q = g q"
    and "Q q \<Longrightarrow> g q \<noteq> 0 \<Longrightarrow> k < 512 \<Longrightarrow> V' (g q) k = V (g q) k"
    and "g p = 0 \<Longrightarrow> g' p \<noteq> 0 \<Longrightarrow> g' p \<in># F" and "g p = 0 \<Longrightarrow> g' p \<noteq> 0 \<Longrightarrow> k < 512 \<Longrightarrow> V' (g' p) k = 0"
  using assms unfolding grows_def by blast+

lemma grows_refl: "(\<And>x k. unat x < 2048 \<Longrightarrow> k < 512 \<Longrightarrow> V' x k = V x k) \<Longrightarrow>
   (\<And>q. Q q \<Longrightarrow> g q \<noteq> 0 \<Longrightarrow> unat (g q) < 2048) \<Longrightarrow> Q p \<Longrightarrow> (\<And>q. Q q \<Longrightarrow> g' q = g q) \<Longrightarrow> grows Q p g g' M M F F V V'"
  by (simp add: grows_def)

text \<open>Growing below one entry, seen from the block that lists the entries.\<close>

lemma grows_entry:
  fixes f :: "nat \<Rightarrow> u16 multiset"
  assumes gr: "grows (Q i) p (G i) (G' i) (f i) (f' i) F F' V V'"
    and clean: "clean (N + (\<Sum>j<n. f j) + F)" and i: "i < n" "Q i p"
    and leaf: "\<And>j q. j < n \<Longrightarrow> Q j q \<Longrightarrow> G j q \<noteq> 0 \<Longrightarrow> G j q \<in># f j"
    and same: "\<And>j. j < n \<Longrightarrow> j \<noteq> i \<Longrightarrow> (\<forall>x\<in>#f j. \<forall>k<512. V' x k = V x k) \<Longrightarrow>
       f' j = f j \<and> (\<forall>q. Q j q \<longrightarrow> G' j q = G j q)"
  shows "grows (\<lambda>(j, q). j < n \<and> Q j q) (i, p) (\<lambda>(j, q). G j q) (\<lambda>(j, q). G' j q)
     (N + (\<Sum>j<n. f j)) (N + (\<Sum>j<n. f' j)) F F' V V'"
proof -
  note D = growsD[OF gr]
  have valid: "unat x < 2048" if "x \<in># f j" "j < n" for x j
    using clean entry_in_sum[of j n x f] that by (auto simp: clean_def)
  have far: "V' x k = V x k" if "j < n" "j \<noteq> i" "x \<in># f j" "k < 512" for j x k
    using clean_entry(3)[OF clean i(1) that(1,2,3)] that by (intro D(2) valid) auto
  have other: "f' j = f j" "Q j q \<Longrightarrow> G' j q = G j q" if "j < n" "j \<noteq> i" for j q
    using same[OF that] far[OF that] by auto
  have "(\<Sum>j\<in>{..<n} - {i}. f' j) = (\<Sum>j\<in>{..<n} - {i}. f j)" by (intro sum.cong) (use other(1) in auto)
  then have "N + (\<Sum>j<n. f' j) + F' = N + (\<Sum>j<n. f j) + F"
    unfolding sum_entry[OF i(1)] using D(1) by (simp add: ac_simps)
  moreover have "V' x k = V x k" if "unat x < 2048" "x \<notin># N + (\<Sum>j<n. f j)" "x \<notin># F" "k < 512" for x k
    using that entry_in_sum[OF i(1), of x f] by (intro D(2)) auto
  moreover have "G' j q = G j q" if "j < n" "Q j q" "(j, q) \<noteq> (i, p) \<or> G i p \<noteq> 0" for j q
    using that other(2) D(3,4) i(2) by (cases "j = i"; cases "q = p") auto
  moreover have "V' (G j q) k = V (G j q) k" if "j < n" "Q j q" "G j q \<noteq> 0" "k < 512" for j q k
    using that D(5) far leaf by (cases "j = i") auto
  ultimately show ?thesis
    unfolding grows_def using D(6,7) by auto
qed

text \<open>The same leaves under other names.\<close>

lemma grows_map:
  assumes gr: "grows P (e p) g g' M M' F F' V V'" and p: "Q p"
    and e: "\<And>q. Q q \<Longrightarrow> P (e q) \<and> (e q = e p \<longrightarrow> q = p) \<and> h q = g (e q) \<and> h' q = g' (e q)"
  shows "grows Q p h h' M M' F F' V V'"
proof -
  note D = growsD[OF gr]
  have "h' q = h q" if "Q q" "q \<noteq> p \<or> h p \<noteq> 0" for q
    using D(3)[of "e q"] D(4)[of "e q"] e[OF that(1)] e[OF p] that(2) by metis
  moreover have "V' (h q) k = V (h q) k" if "Q q" "h q \<noteq> 0" "k < 512" for q k using D(5)[of "e q" k] e[OF that(1)] that by simp
  ultimately show ?thesis unfolding grows_def using D(1,2,6,7) e[OF p] by auto
qed

text \<open>A zeroed block added first, as the leaf itself or on the way to it.\<close>

lemma grows_new:
  assumes gr: "grows Q p g1 g' M1 M' F F' W V'" and M: "M1 = add_mset new M" and p: "g p = 0" "Q p"
    and g1: "g1 p = 0 \<or> g1 p = new \<and> new \<noteq> 0 \<and> (\<forall>k<512. W new k = 0)"
    and same: "\<And>q. Q q \<Longrightarrow> q \<noteq> p \<Longrightarrow> g1 q = g q"
    and leaf: "\<And>q k. Q q \<Longrightarrow> g q \<noteq> 0 \<Longrightarrow> k < 512 \<Longrightarrow> W (g q) k = V (g q) k"
    and far: "\<And>x k. unat x < 2048 \<Longrightarrow> x \<notin># M \<Longrightarrow> x \<noteq> new \<Longrightarrow> k < 512 \<Longrightarrow> W x k = V x k"
  shows "grows Q p g g' M M' (add_mset new F) F' V V'"
proof -
  note D = growsD[OF gr]
  have "g' q = g q" if "Q q" "q \<noteq> p" for q using D(3)[OF that] same[OF that] by simp
  moreover have "V' (g q) k = V (g q) k" if q: "Q q" "g q \<noteq> 0" "k < 512" for q k
  proof -
    have "q \<noteq> p" using q(2) p(1) by auto
    then show ?thesis using D(5)[OF q(1) _ q(3)] same[OF q(1)] leaf[OF q] q(2) by simp
  qed
  moreover have "g' p \<in># add_mset new F \<and> (\<forall>k<512. V' (g' p) k = 0)" if nz: "g' p \<noteq> 0"
    using g1
  proof
    assume "g1 p = 0"
    then show ?thesis using D(6,7)[OF _ nz] by simp
  next
    assume n: "g1 p = new \<and> new \<noteq> 0 \<and> (\<forall>k<512. W new k = 0)"
    then have "g' p = new" using D(4)[OF p(2)] by simp
    then show ?thesis using n D(5)[OF p(2)] by simp
  qed
  moreover have "V' x k = V x k" if "unat x < 2048" "x \<notin># M" "x \<notin># add_mset new F" "k < 512" for x k
    using D(2)[of x k] far[of x k] that M by simp
  ultimately show ?thesis using D(1) p(1) unfolding grows_def M by auto
qed

lemma grows_tree:
  assumes gr: "grows (path_of d) p (\<lambda>q. tree_get V q w) (\<lambda>q. tree_get V' q w) (tree_mset V d w) (tree_mset V' d w) F F' V V'"
    and w: "w = word_at (V b) i" and b: "b \<noteq> 0" and i: "i < 256" "path_of d p"
    and clean: "clean (tree_mset V (Suc d) b + F)"
  shows "grows (path_of (Suc d)) (i # p) (\<lambda>q. tree_get V q b) (\<lambda>q. tree_get V' q b)
     (tree_mset V (Suc d) b) (tree_mset V' (Suc d) b) F F' V V'"
proof -
  let ?w = "\<lambda>j. word_at (V b) j"
  have cl: "clean ({#b#} + (\<Sum>j<256. tree_mset V d (?w j)) + F)" using clean unfolding tree_mset_Suc[OF b] by simp
  have "b \<notin># tree_mset V d w" "b \<notin># F" using clean_entry(2)[OF cl i(1), of b] by (simp_all add: w)
  moreover have "unat b < 2048" using cl by (simp add: clean_def)
  ultimately have vb: "V' b k = V b k" if "k < 512" for k using growsD(2)[OF gr] that by blast
  have w': "word_at (V' b) j = ?w j" if "j < 256" for j using vb that by (intro word_at_cong)
  have "grows (\<lambda>(j, q). j < 256 \<and> path_of d q) (i, p) (\<lambda>(j, q). tree_get V q (?w j)) (\<lambda>(j, q). tree_get V' q (?w j))
     ({#b#} + (\<Sum>j<256. tree_mset V d (?w j))) ({#b#} + (\<Sum>j<256. tree_mset V' d (?w j))) F F' V V'"
  proof (rule grows_entry[where Q = "\<lambda>_. path_of d" and i = i and p = p and n = 256])
    show "clean ({#b#} + (\<Sum>j<256. tree_mset V d (?w j)) + F)" "i < 256" "path_of d p" by fact+
    show "grows (path_of d) p (\<lambda>q. tree_get V q (?w i)) (\<lambda>q. tree_get V' q (?w i)) (tree_mset V d (?w i)) (tree_mset V' d (?w i)) F F' V V'"
      using gr unfolding w .
    show "tree_get V q (?w j) \<in># tree_mset V d (?w j)" if "path_of d q" "tree_get V q (?w j) \<noteq> 0" for j q
      using that by (rule tree_get_in)
    show "tree_mset V' d (?w j) = tree_mset V d (?w j) \<and> (\<forall>q. path_of d q \<longrightarrow> tree_get V' q (?w j) = tree_get V q (?w j))"
      if "\<forall>x\<in>#tree_mset V d (?w j). \<forall>k<512. V' x k = V x k" for j
      using that tree_get_view[of d _ V "?w j" V'] tree_blocks_view[of V d "?w j" V'] by simp
  qed
  moreover have "(\<Sum>j<256. tree_mset V' d (word_at (V' b) j)) = (\<Sum>j<256. tree_mset V' d (?w j))"
    by (intro sum.cong) (simp_all add: w')
  ultimately have g: "grows (\<lambda>(j, q). j < 256 \<and> path_of d q) (i, p) (\<lambda>(j, q). tree_get V q (?w j)) (\<lambda>(j, q). tree_get V' q (?w j))
     (tree_mset V (Suc d) b) (tree_mset V' (Suc d) b) F F' V V'"
    unfolding tree_mset_Suc[OF b] by simp
  show ?thesis
    by (rule grows_map[where e = "\<lambda>q. (hd q, tl q)"])
      (use g i b w' in \<open>auto simp: path_of_Suc tree_word_def\<close>)
qed

text \<open>A zeroed block as a tree.\<close>

lemma zero_tree:
  assumes "\<And>k. k < 512 \<Longrightarrow> V x k = 0" and "x \<noteq> 0"
  shows "tree_blocks V d x = [x]" and "path_of d q \<Longrightarrow> tree_get V q x = (if d = 0 then x else 0)"
proof -
  have w: "word_at (V x) j = 0" if "j < 256" for j
    using assms(1) that by (simp add: word_at_def get16_def)
  have z: "tree_blocks V e 0 = []" for e by (cases e) simp_all
  show "tree_blocks V d x = [x]"
  proof (cases d)
    case (Suc e)
    have "concat (map (\<lambda>j. tree_blocks V e (word_at (V x) j)) (rev [0..<256])) = []" using w z by (auto simp del: upt_rec_numeral)
    then show ?thesis using assms(2) Suc by (simp only: tree_blocks.simps) simp
  qed (simp add: assms(2))
  show "path_of d q \<Longrightarrow> tree_get V q x = (if d = 0 then x else 0)"
    using w assms(2) by (cases d) (auto simp: path_of_Suc tree_word_def)
qed

lemma tree_blocks_0 [simp]: "tree_blocks V d 0 = []"
  by (cases d) simp_all

declare tree_blocks.simps(2) [simp del]

text \<open>A zeroed block put into an empty entry.\<close>

lemma attached:
  assumes W0: "\<forall>x k. unat x < 2048 \<longrightarrow> k < 512 \<longrightarrow> W x k = (V(new := (\<lambda>_. 0), b := put16 (2 * i) new (V b))) x k"
    and b: "b \<noteq> 0" "word_at (V b) i = 0" and i: "i < 256"
    and clean: "clean (tree_mset V (Suc d) b + add_mset new F)"
  shows "tree_mset W (Suc d) b = add_mset new (tree_mset V (Suc d) b)"
    and "j < 256 \<Longrightarrow> path_of d r \<Longrightarrow>
      tree_get W (j # r) b = (if j = i then if d = 0 then new else 0 else tree_get V (j # r) b)"
    and "j < 256 \<Longrightarrow> j \<noteq> i \<Longrightarrow> x \<in># tree_mset V d (word_at (V b) j) \<Longrightarrow> k < 512 \<Longrightarrow> W x k = V x k"
    and "k < 512 \<Longrightarrow> W new k = 0" and "new \<noteq> 0" and "word_at (W b) i = new"
proof -
  have W: "W x k = (V(new := (\<lambda>_. 0), b := put16 (2 * i) new (V b))) x k" if "unat x < 2048" "k < 512" for x k using W0 that by blast
  let ?w = "\<lambda>j. word_at (V b) j" and ?f = "\<lambda>j. tree_mset V d (word_at (V b) j)"
  have cl: "clean ({#b#} + (\<Sum>j<256. ?f j) + add_mset new F)" using clean unfolding tree_mset_Suc[OF b(1)] by simp
  have bn: "b \<noteq> new" "b \<notin># F" using clean_entry(2)[OF cl i, of b] by simp_all
  have ok: "unat b < 2048" "unat new < 2048" "new \<noteq> 0" using cl by (simp_all add: clean_def)
  have zero: "W new k = 0" if "k < 512" for k using W[OF ok(2) that] bn(1) by simp
  have w1: "word_at (W b) j = (if j = i then new else ?w j)" if "j < 256" for j
  proof -
    have "word_at (W b) j = word_at (put16 (2 * i) new (V b)) j" using W[OF ok(1)] that by (intro word_at_cong) simp_all
    then show ?thesis by simp
  qed
  have far: "x \<noteq> b \<and> x \<noteq> new \<and> (\<forall>k<512. W x k = V x k)" if "j < 256" "j \<noteq> i" "x \<in># ?f j" for j x
  proof -
    have "x \<noteq> b" "x \<noteq> new" using clean_entry(3)[OF cl i that] by simp_all
    moreover have "unat x < 2048" using cl entry_in_sum[of j 256 x ?f] that by (simp add: clean_def)
    ultimately show ?thesis using W by simp
  qed
  have same: "tree_blocks W d (?w j) = tree_blocks V d (?w j) \<and> (\<forall>r. path_of d r \<longrightarrow> tree_get W r (?w j) = tree_get V r (?w j))"
    if "j < 256" "j \<noteq> i" for j
    using far[OF that] tree_get_view[of d _ V "?w j" W] tree_blocks_view[of V d "?w j" W] by simp
  have z: "?f i = {#}" unfolding b(2) by (cases d) simp_all
  have "(\<Sum>j\<in>{..<256} - {i}. tree_mset W d (word_at (W b) j)) = (\<Sum>j\<in>{..<256} - {i}. ?f j)"
    by (intro sum.cong) (use same w1 in auto)
  then show "tree_mset W (Suc d) b = add_mset new (tree_mset V (Suc d) b)"
    unfolding tree_mset_Suc[OF b(1)] sum_entry[OF i] z using w1[OF i] zero_tree(1)[of W new d] zero ok(3) by simp
  show "j < 256 \<Longrightarrow> path_of d r \<Longrightarrow>
      tree_get W (j # r) b = (if j = i then if d = 0 then new else 0 else tree_get V (j # r) b)"
    using w1 same b(1) zero_tree(2)[of W new d r] zero ok(3) by (simp add: tree_word_def)
  show "j < 256 \<Longrightarrow> j \<noteq> i \<Longrightarrow> x \<in># ?f j \<Longrightarrow> k < 512 \<Longrightarrow> W x k = V x k" using far by blast
  show "k < 512 \<Longrightarrow> W new k = 0" "new \<noteq> 0" "word_at (W b) i = new" using zero ok(3) w1[OF i] by simp_all
qed

lemma grows_attach:
  assumes gr: "grows (path_of (Suc d)) (i # p) (\<lambda>q. tree_get W q b) (\<lambda>q. tree_get V' q b)
     (tree_mset W (Suc d) b) (tree_mset V' (Suc d) b) F F' W V'"
    and W0: "\<forall>x k. unat x < 2048 \<longrightarrow> k < 512 \<longrightarrow> W x k = (V(new := (\<lambda>_. 0), b := put16 (2 * i) new (V b))) x k"
    and b: "b \<noteq> 0" "word_at (V b) i = 0" and i: "i < 256" "path_of d p"
    and clean: "clean (tree_mset V (Suc d) b + add_mset new F)"
  shows "grows (path_of (Suc d)) (i # p) (\<lambda>q. tree_get V q b) (\<lambda>q. tree_get V' q b)
     (tree_mset V (Suc d) b) (tree_mset V' (Suc d) b) (add_mset new F) F' V V'"
proof (rule grows_new[OF gr])
  note T = attached[OF W0 b i(1) clean]
  have get0: "tree_get V (i # r) b = 0" for r using b by (simp add: tree_word_def)
  have bM: "b \<in># tree_mset V (Suc d) b" unfolding tree_mset_Suc[OF b(1)] by simp
  show "tree_mset W (Suc d) b = add_mset new (tree_mset V (Suc d) b)" "tree_get V (i # p) b = 0" "path_of (Suc d) (i # p)"
    using T(1) get0 i by simp_all
  show "tree_get W (i # p) b = 0 \<or> tree_get W (i # p) b = new \<and> new \<noteq> 0 \<and> (\<forall>k<512. W new k = 0)"
    using T(2)[OF i] T(4,5) by simp
  show "tree_get W q b = tree_get V q b" if q: "path_of (Suc d) q" "q \<noteq> i # p" for q
  proof -
    obtain j r where r: "q = j # r" "j < 256" "path_of d r" using q(1) by (auto simp: path_of_Suc)
    show ?thesis using q(2) i(2) r T(2)[OF r(2,3)] get0[of r] by (auto simp: path_of_def)
  qed
  show "W (tree_get V q b) k = V (tree_get V q b) k" if q: "path_of (Suc d) q" "tree_get V q b \<noteq> 0" "k < 512" for q k
  proof -
    obtain j r where r: "q = j # r" "j < 256" "path_of d r" using q(1) by (auto simp: path_of_Suc)
    have j: "j \<noteq> i" using q(2) get0 r(1) by auto
    have "tree_get V q b \<in># tree_mset V d (word_at (V b) j)"
      using tree_get_in[OF r(3), of V "word_at (V b) j"] q(2) r(1) b(1) by (simp add: tree_word_def)
    then show ?thesis using T(3)[OF r(2) j] q(3) by blast
  qed
  show "W x k = V x k" if "unat x < 2048" "x \<notin># tree_mset V (Suc d) b" "x \<noteq> new" "k < 512" for x k
    using W0 that bM by auto
qed

lemma grows_view:
  assumes gr: "grows (path_of d) p (\<lambda>q. tree_get W q b) (\<lambda>q. tree_get V' q b) (tree_mset W d b) (tree_mset V' d b) F F' W V'"
    and W0: "\<forall>x k. unat x < 2048 \<longrightarrow> k < 512 \<longrightarrow> W x k = V x k" and clean: "clean (tree_mset V d b + F)" and p: "path_of d p"
  shows "grows (path_of d) p (\<lambda>q. tree_get V q b) (\<lambda>q. tree_get V' q b) (tree_mset V d b) (tree_mset V' d b) F F' V V'"
proof -
  have W: "W x k = V x k" if "unat x < 2048" "k < 512" for x k using W0 that by blast
  have v: "W x k = V x k" if "x \<in># tree_mset V d b" "k < 512" for x k using clean that by (intro W) (auto simp: clean_def)
  have e: "tree_blocks W d b = tree_blocks V d b" "\<And>q. path_of d q \<Longrightarrow> tree_get W q b = tree_get V q b"
    using v tree_blocks_view[of V d b W] tree_get_view[of d _ V b W] by simp_all
  have l: "unat (tree_get V q b) < 2048" if "path_of d q" "tree_get V q b \<noteq> 0" for q
    using tree_get_in[OF that] clean by (auto simp: clean_def)
  show ?thesis using gr e(2) p W l unfolding grows_def e(1) by simp
qed

section \<open>bmap through the indirect blocks\<close>

primrec ind_idx :: "nat \<Rightarrow> u16 \<Rightarrow> nat \<Rightarrow> nat list" where
  "ind_idx 0 bn sh = []"
| "ind_idx (Suc n) bn sh = unat (drop_bit sh bn AND 0xff) # ind_idx n bn (sh - 8)"

lemma path_of_ind_idx: "path_of d (ind_idx d bn sh)"
  by (induction d arbitrary: sh) (simp_all add: unat_and_ff)

definition bmap_grown :: "kst \<Rightarrow> u16 \<Rightarrow> kst \<Rightarrow> u16 list \<Rightarrow> bool" where
  "bmap_grown s r t l' \<longleftrightarrow> free_stack t l' \<and> alloc_frame s t \<and>
     (if r = NULLBLK then l' = [] \<and> u_error (udata t) = ENOSPC else u_error (udata t) = u_error (udata s))"

lemma bmap_grown_trans:
  "alloc_frame s t \<Longrightarrow> length (fs_tab s) = NDEVS \<Longrightarrow> u_error (udata t) = u_error (udata s) \<Longrightarrow> bmap_grown t r u l' \<Longrightarrow> bmap_grown s r u l'"
  unfolding bmap_grown_def using alloc_frame_trans by auto

lemma alloc_step_stack:
  assumes "alloc_step s v t" and "free_stack s l" and "free_list t l'"
  shows "free_stack t l'" and "alloc_frame s t"
  using assms alloc_step_idle[of s v t] by (auto simp: free_stack_def alloc_step_def)

lemma cache_step_stack:
  assumes "cache_step s (bview s) t" and "free_stack s l"
  shows "free_stack t l" and "alloc_frame s t" and "u_error (udata t) = u_error (udata s)"
proof -
  note f = assms(2)[unfolded free_stack_def] and d = cache_stepD[OF assms(1)]
  have k: "fs_tab t = fs_tab s \<and> u_error (udata t) = u_error (udata s)" by (rule buf_frame_keeps[OF d(16)])
  have "free_list t l"
  proof (rule free_list_view)
    show "free_list s l" "fs_tab t = fs_tab s" using f k by simp_all
    show "bview t x k = bview s x k" if "x \<in> set l" "k < 512" for x k
      using d(15) f that by (simp add: free_list_def Let_def)
  qed
  then show "free_stack t l" using f k cache_step_idle[OF assms(1)] by (simp add: free_stack_def)
  show "alloc_frame s t" "u_error (udata t) = u_error (udata s)" using k buf_frame_alloc[OF d(16)] by simp_all
qed

lemma clean_blk: "clean M \<Longrightarrow> x \<in># M \<Longrightarrow> x \<noteq> 0 \<and> x \<noteq> NULLBLK \<and> unat x < 2048"
  by (auto simp: clean_def)

lemma bmap_ind_grows:
  assumes "free_stack s l" and "b \<noteq> 0" and "clean (tree_mset (bview s) d b + mset l)"
  shows "wp (bmap_ind d 0 bn sh 0 b) (\<lambda>r t. \<exists>l'. bmap_grown s r t l' \<and> r = or_null (tree_get (bview t) (ind_idx d bn sh) b) \<and>
     grows (path_of d) (ind_idx d bn sh) (\<lambda>q. tree_get (bview s) q b) (\<lambda>q. tree_get (bview t) q b)
       (tree_mset (bview s) d b) (tree_mset (bview t) d b) (mset l) (mset l') (bview s) (bview t)) s"
  using assms
proof (induction d arbitrary: s l b sh)
  case 0
  have m: "b \<in># tree_mset (bview s) 0 b + mset l" using 0(2) by simp
  have "b \<noteq> NULLBLK" "unat b < 2048" using clean_blk[OF 0(3) m] by blast+
  then have "bmap_grown s b s l" using 0(1) buf_frame_alloc[of s s] by (simp add: bmap_grown_def)
  moreover have "or_null b = b" using 0(2) by (simp add: or_null_def)
  moreover have "grows (path_of 0) [] (\<lambda>q. tree_get (bview s) q b) (\<lambda>q. tree_get (bview s) q b)
      (tree_mset (bview s) 0 b) (tree_mset (bview s) 0 b) (mset l) (mset l) (bview s) (bview s)"
    using \<open>unat b < 2048\<close> by (intro grows_refl) simp_all
  ultimately show ?case by (simp only: bmap_ind.simps(1) ind_idx.simps(1) wp_retK tree_get.simps(1)) blast
next
  case (Suc d)
  let ?V = "bview s" and ?i = "unat (drop_bit sh bn AND 0xff)" and ?p = "ind_idx d bn (sh - 8)"
  define w where "w = word_at (?V b) ?i"
  note A = Suc.prems
  have i: "?i < 256" "path_of d ?p" by (simp_all add: unat_and_ff path_of_ind_idx)
  have b: "unat b < 2048" "b \<notin> set l" "b \<noteq> NULLBLK"
  proof -
    have m: "b \<in># tree_mset ?V (Suc d) b" unfolding tree_mset_Suc[OF A(2)] by simp
    then show "unat b < 2048" "b \<noteq> NULLBLK" using clean_blk[OF A(3), of b] by simp_all
    show "b \<notin> set l" using clean_add[OF A(3) m] by simp
  qed
  have P: "path_of (Suc d) (?i # ?p)" using i by simp
  let ?Q = "\<lambda>r t. \<exists>l'. bmap_grown s r t l' \<and> r = or_null (tree_get (bview t) (?i # ?p) b) \<and>
     grows (path_of (Suc d)) (?i # ?p) (\<lambda>q. tree_get ?V q b) (\<lambda>q. tree_get (bview t) q b)
       (tree_mset ?V (Suc d) b) (tree_mset (bview t) (Suc d) b) (mset l) (mset l') ?V (bview t)"
  have down: "wp (bmap_ind d 0 bn (sh - 8) 0 x) (\<lambda>r u. \<exists>l'. bmap_grown t r u l' \<and> r = or_null (tree_get (bview u) (?i # ?p) b) \<and>
     grows (path_of (Suc d)) (?i # ?p) (\<lambda>q. tree_get (bview t) q b) (\<lambda>q. tree_get (bview u) q b)
       (tree_mset (bview t) (Suc d) b) (tree_mset (bview u) (Suc d) b) (mset m) (mset l') (bview t) (bview u)) t"
    if t: "free_stack t m" "x = word_at (bview t b) ?i" "x \<noteq> 0" "clean (tree_mset (bview t) (Suc d) b + mset m)" for t m x
  proof -
    have cl: "clean ({#b#} + (\<Sum>j<256. tree_mset (bview t) d (word_at (bview t b) j)) + mset m)"
      using t(4) unfolding tree_mset_Suc[OF A(2)] by simp
    have "clean (tree_mset (bview t) d x + mset m)" using clean_entry(1)[OF cl i(1)] t(2) by simp
    from Suc.IH[OF t(1,3) this] show ?thesis
    proof (rule wp_mono, elim exE conjE)
      fix r u l'
      assume u: "bmap_grown t r u l'" "r = or_null (tree_get (bview u) ?p x)" and g: "grows (path_of d) ?p (\<lambda>q. tree_get (bview t) q x) (\<lambda>q. tree_get (bview u) q x)
        (tree_mset (bview t) d x) (tree_mset (bview u) d x) (mset m) (mset l') (bview t) (bview u)"
      note G = grows_tree[OF g t(2) A(2) i t(4)]
      have "b \<notin># tree_mset (bview t) d x" "b \<notin># mset m" using clean_entry(2)[OF cl i(1), of b] t(2) by simp_all
      then have "bview u b k = bview t b k" if "k < 512" for k using growsD(2)[OF g b(1)] that by blast
      then have "word_at (bview u b) ?i = x" unfolding t(2) using i(1) by (intro word_at_cong)
      then have "tree_get (bview u) (?i # ?p) b = tree_get (bview u) ?p x" using A(2) by (simp add: tree_word_def)
      then show "\<exists>l'. bmap_grown t r u l' \<and> r = or_null (tree_get (bview u) (?i # ?p) b) \<and>
        grows (path_of (Suc d)) (?i # ?p) (\<lambda>q. tree_get (bview t) q b) (\<lambda>q. tree_get (bview u) q b)
        (tree_mset (bview t) (Suc d) b) (tree_mset (bview u) (Suc d) b) (mset m) (mset l') (bview t) (bview u)"
        using u G by auto
    qed
  qed
  have len: "length (fs_tab s) = NDEVS" using A(1) by (simp add: free_stack_def)
  have "wp (ind_entry 0 ?i b) (\<lambda>x. wp (if x \<noteq> 0 then bmap_ind d 0 bn (sh - 8) 0 x else retK NULLBLK) ?Q) s"
  proof (rule wp_mono[OF ind_entry_spec[OF A(1) b(1,2) i(1)]])
    fix x t
    assume E: "let w = word_at (?V b) ?i in if w \<noteq> 0 then x = w \<and> cache_step s ?V t
      else case l of [] \<Rightarrow> x = 0 \<and> free_list t [] \<and> u_error (udata t) = ENOSPC \<and> alloc_step s ?V t
      | b' # l' \<Rightarrow> x = b' \<and> free_list t l' \<and> u_error (udata t) = u_error (udata s) \<and>
          alloc_step s (?V(b' := (\<lambda>_. 0), b := put16 (2 * ?i) b' (?V b))) t"
    show "wp (if x \<noteq> 0 then bmap_ind d 0 bn (sh - 8) 0 x else retK NULLBLK) ?Q t"
    proof (cases "w = 0")
      case False
      then have x: "x = w" "cache_step s ?V t" using E by (simp_all add: w_def Let_def)
      note C = cache_step_stack[OF x(2) A(1)] and d = cache_stepD[OF x(2)]
      have v: "bview t y k = ?V y k" if "unat y < 2048" "k < 512" for y k using d(15)[OF that] .
      have "tree_blocks (bview t) (Suc d) b = tree_blocks ?V (Suc d) b"
        using A(3) v by (intro tree_blocks_view) (auto simp: clean_def simp del: tree_blocks.simps)
      moreover have "word_at (bview t b) ?i = w" unfolding w_def using v[OF b(1)] i(1) by (intro word_at_cong)
      ultimately have cl: "x = word_at (bview t b) ?i" "x \<noteq> 0" "clean (tree_mset (bview t) (Suc d) b + mset l)"
        using x(1) False A(3) by simp_all
      have "wp (bmap_ind d 0 bn (sh - 8) 0 x) ?Q t"
      proof (rule wp_mono[OF down[OF C(1) cl]], elim exE conjE)
        fix r u l'
        assume u: "bmap_grown t r u l'" "r = or_null (tree_get (bview u) (?i # ?p) b)"
          and g: "grows (path_of (Suc d)) (?i # ?p) (\<lambda>q. tree_get (bview t) q b) (\<lambda>q. tree_get (bview u) q b)
            (tree_mset (bview t) (Suc d) b) (tree_mset (bview u) (Suc d) b) (mset l) (mset l') (bview t) (bview u)"
        show "?Q r u" using bmap_grown_trans[OF C(2) len C(3) u(1)] u(2) grows_view[OF g _ A(3) P] v by blast
      qed
      then show ?thesis using x(1) False by simp
    next
      case True
      have z: "word_at (?V b) ?i = 0" using True by (simp add: w_def)
      show ?thesis
      proof (cases l)
        case Nil
        then have x: "x = 0" "free_list t []" "u_error (udata t) = ENOSPC" "alloc_step s ?V t" using E z by simp_all
        have v: "bview t y k = ?V y k" if "unat y < 2048" "k < 512" for y k using x(4) that by (simp add: alloc_step_def)
        have g: "tree_get (bview t) q b = tree_get ?V q b" if "path_of (Suc d) q" for q
          using A(3) v by (intro tree_get_view[OF that]) (auto simp: clean_def)
        have e: "tree_blocks (bview t) (Suc d) b = tree_blocks ?V (Suc d) b"
          using A(3) v by (intro tree_blocks_view) (auto simp: clean_def)
        have "unat (tree_get ?V q b) < 2048" if "path_of (Suc d) q" "tree_get ?V q b \<noteq> 0" for q
          using tree_get_in[OF that] A(3) by (auto simp: clean_def)
        then have "grows (path_of (Suc d)) (?i # ?p) (\<lambda>q. tree_get ?V q b) (\<lambda>q. tree_get (bview t) q b)
           (tree_mset ?V (Suc d) b) (tree_mset (bview t) (Suc d) b) (mset []) (mset []) ?V (bview t)"
          unfolding e using P by (intro grows_refl v g)
        moreover have "tree_get (bview t) (?i # ?p) b = 0" using g[OF P] z A(2) by (simp add: tree_word_def)
        ultimately have "?Q NULLBLK t"
          using alloc_step_stack[OF x(4) A(1) x(2)] x(3) Nil
          by (intro exI[of _ "[]"]) (simp add: bmap_grown_def or_null_def del: tree_get.simps)
        then show ?thesis using x(1) by simp
      next
        case (Cons b' l')
        then have x: "x = b'" "free_list t l'" "u_error (udata t) = u_error (udata s)"
          and st: "alloc_step s (?V(b' := (\<lambda>_. 0), b := put16 (2 * ?i) b' (?V b))) t" using E z by simp_all
        note S = alloc_step_stack[OF st A(1) x(2)]
        have V1': "\<forall>y k. unat y < 2048 \<longrightarrow> k < 512 \<longrightarrow> bview t y k = (?V(b' := (\<lambda>_. 0), b := put16 (2 * ?i) b' (?V b))) y k"
          using st by (simp add: alloc_step_def)
        have cl: "clean (tree_mset ?V (Suc d) b + add_mset b' (mset l'))" using A(3) Cons by simp
        note T = attached[OF V1' A(2) z i(1) cl]
        have "clean (tree_mset (bview t) (Suc d) b + mset l')" using cl by (simp add: T(1))
        note D = down[OF S(1) T(6)[symmetric] T(5) this]
        have "wp (bmap_ind d 0 bn (sh - 8) 0 b') ?Q t"
        proof (rule wp_mono[OF D], elim exE conjE)
          fix r u m
          assume u: "bmap_grown t r u m" "r = or_null (tree_get (bview u) (?i # ?p) b)"
            and g: "grows (path_of (Suc d)) (?i # ?p) (\<lambda>q. tree_get (bview t) q b) (\<lambda>q. tree_get (bview u) q b)
              (tree_mset (bview t) (Suc d) b) (tree_mset (bview u) (Suc d) b) (mset l') (mset m) (bview t) (bview u)"
          have "grows (path_of (Suc d)) (?i # ?p) (\<lambda>q. tree_get ?V q b) (\<lambda>q. tree_get (bview u) q b)
              (tree_mset ?V (Suc d) b) (tree_mset (bview u) (Suc d) b) (mset l) (mset m) ?V (bview u)"
            using grows_attach[OF g V1' A(2) z i cl] Cons by simp
          then show "?Q r u" using bmap_grown_trans[OF S(2) len x(3) u(1)] u(2) by blast
        qed
        then show ?thesis using x(1) T(5) by simp
      qed
    qed
  qed
  then show ?case unfolding bmap_ind_write wp_bindK ind_idx.simps .
qed

section \<open>The blocks of a file\<close>

text \<open>Which of the 20 addresses of the inode leads to block \<open>n\<close>, and through which entries.\<close>

definition blk_root :: "nat \<Rightarrow> nat" where
  "blk_root n = (if n < 18 then n else if n < 274 then 18 else 19)"

definition blk_path :: "nat \<Rightarrow> nat list" where
  "blk_path n = (if n < 18 then [] else if n < 274 then [n - 18] else [(n - 274) div 256, (n - 274) mod 256])"

definition file_leaf :: "(u16 \<Rightarrow> bytes) \<Rightarrow> cinode \<Rightarrow> nat \<Rightarrow> u16" where
  "file_leaf V c n = tree_get V (blk_path n) (i_addr (c_node c) ! blk_root n)"

lemma file_blk_leaf: "file_blk V c n = or_null (file_leaf V c n)"
  by (simp add: file_blk_def file_leaf_def blk_root_def blk_path_def Let_def)

lemma blk_root_path: "n < 65536 \<Longrightarrow> blk_root n < 20 \<and> path_of (blk_root n - 17) (blk_path n)"
  by (auto simp: blk_root_def blk_path_def path_of_def)

lemma blk_place_inj:
  assumes "blk_root m = blk_root n" and "blk_path m = blk_path n"
  shows "m = n"
proof -
  have "(m - 274) div 256 = (n - 274) div 256 \<Longrightarrow> (m - 274) mod 256 = (n - 274) mod 256 \<Longrightarrow> m - 274 = n - 274"
    by (metis mult_div_mod_eq)
  then show ?thesis using assms by (auto simp: blk_root_def blk_path_def split: if_splits)
qed

lemma file_mset: "mset (file_blocks V c) = (\<Sum>k<20. tree_mset V (k - 17) (i_addr (c_node c) ! k))"
proof -
  let ?f = "\<lambda>k. tree_mset V (k - 17) (i_addr (c_node c) ! k)"
  have "mset (concat (map (\<lambda>j. tree_blocks V 0 (g j)) (rev [0..<n]))) = (\<Sum>j<n. tree_mset V 0 (g j))" for g n
    by (induction n) (simp_all add: lessThan_Suc del: tree_blocks.simps)
  note this[of "\<lambda>j. i_addr (c_node c) ! j" 18]
  moreover have "(\<Sum>k<20. ?f k) = ?f 19 + (?f 18 + (\<Sum>k<18. ?f k))"
    using sum.lessThan_Suc[of ?f 19] sum.lessThan_Suc[of ?f 18] by (simp add: add.commute)
  moreover have "(\<Sum>k<18. ?f k) = (\<Sum>k<18. tree_mset V 0 (i_addr (c_node c) ! k))" by (intro sum.cong) auto
  ultimately show ?thesis
    by (simp add: file_blocks_def all_blocks_def roots_def Let_def comp_def del: tree_blocks.simps upt_rec_numeral)
qed

text \<open>Growing a file whose block \<open>n\<close> is missing.\<close>

definition file_grows :: "nat \<Rightarrow> (u16 \<Rightarrow> bytes) \<Rightarrow> cinode \<Rightarrow> u16 list \<Rightarrow> (u16 \<Rightarrow> bytes) \<Rightarrow> cinode \<Rightarrow> u16 list \<Rightarrow> bool" where
  "file_grows n V c l V' c' l' \<longleftrightarrow> grows (\<lambda>m. m < 65536) n (file_leaf V c) (file_leaf V' c')
     (mset (file_blocks V c)) (mset (file_blocks V' c')) (mset l) (mset l') V V'"

lemma file_grows_tree:
  assumes gr: "grows (path_of (k - 17)) (blk_path n) (\<lambda>q. tree_get V q b) (\<lambda>q. tree_get V' q b)
      (tree_mset V (k - 17) b) (tree_mset V' (k - 17) b) (mset l) (mset l') V V'"
    and k: "k = blk_root n" "b = i_addr (c_node c) ! k" and n: "n < 65536" and clean: "clean (mset (file_blocks V c) + mset l)"
  shows "file_grows n V c l V' c l'"
proof -
  let ?a = "\<lambda>j. i_addr (c_node c) ! j"
  have "grows (\<lambda>(j, q). j < 20 \<and> path_of (j - 17) q) (k, blk_path n) (\<lambda>(j, q). tree_get V q (?a j)) (\<lambda>(j, q). tree_get V' q (?a j))
     ({#} + (\<Sum>j<20. tree_mset V (j - 17) (?a j))) ({#} + (\<Sum>j<20. tree_mset V' (j - 17) (?a j))) (mset l) (mset l') V V'"
  proof (rule grows_entry[where Q = "\<lambda>j. path_of (j - 17)" and i = k and p = "blk_path n" and n = 20])
    show "grows (path_of (k - 17)) (blk_path n) (\<lambda>q. tree_get V q (?a k)) (\<lambda>q. tree_get V' q (?a k))
        (tree_mset V (k - 17) (?a k)) (tree_mset V' (k - 17) (?a k)) (mset l) (mset l') V V'"
      using gr unfolding k(2) .
    show "clean ({#} + (\<Sum>j<20. tree_mset V (j - 17) (?a j)) + mset l)" using clean by (simp add: file_mset)
    show "k < 20" "path_of (k - 17) (blk_path n)" using blk_root_path[OF n] k(1) by simp_all
    show "tree_get V q (?a j) \<in># tree_mset V (j - 17) (?a j)" if "path_of (j - 17) q" "tree_get V q (?a j) \<noteq> 0" for j q
      using that by (rule tree_get_in)
    show "tree_mset V' (j - 17) (?a j) = tree_mset V (j - 17) (?a j) \<and> (\<forall>q. path_of (j - 17) q \<longrightarrow> tree_get V' q (?a j) = tree_get V q (?a j))"
      if "\<forall>x\<in>#tree_mset V (j - 17) (?a j). \<forall>k<512. V' x k = V x k" for j
      using that tree_get_view[of "j - 17" _ V "?a j" V'] tree_blocks_view[of V "j - 17" "?a j" V'] by simp
  qed
  then have g: "grows (\<lambda>(j, q). j < 20 \<and> path_of (j - 17) q) (blk_root n, blk_path n) (\<lambda>(j, q). tree_get V q (?a j))
     (\<lambda>(j, q). tree_get V' q (?a j)) (mset (file_blocks V c)) (mset (file_blocks V' c)) (mset l) (mset l') V V'"
    by (simp add: file_mset k(1))
  show ?thesis
    unfolding file_grows_def
    by (rule grows_map[where e = "\<lambda>m. (blk_root m, blk_path m)"]) (use g n blk_root_path blk_place_inj in \<open>auto simp: file_leaf_def\<close>)
qed

text \<open>The address in the inode filled with a zeroed block.\<close>

definition with_addr :: "nat \<Rightarrow> u16 \<Rightarrow> cinode \<Rightarrow> cinode" where
  "with_addr k b c = c\<lparr>c_node := (c_node c)\<lparr>i_addr := (i_addr (c_node c))[k := b]\<rparr>, c_dirty := 1\<rparr>"

lemma file_grows_root:
  assumes k: "k = blk_root n" "i_addr (c_node c) ! k = 0"
    and len: "length (i_addr (c_node c)) = 20" and n: "n < 65536" and clean: "clean (mset (file_blocks V c) + mset (b # l))"
    and W0: "\<forall>x k. unat x < 2048 \<longrightarrow> k < 512 \<longrightarrow> W x k = (V(b := (\<lambda>_. 0))) x k"
  shows "mset (file_blocks W (with_addr k b c)) = add_mset b (mset (file_blocks V c))"
    and "file_grows n W (with_addr k b c) l V' c' l' \<Longrightarrow> file_grows n V c (b # l) V' c' l'"
proof -
  let ?a = "\<lambda>j. i_addr (c_node c) ! j" and ?a' = "\<lambda>j. i_addr (c_node (with_addr k b c)) ! j"
  have k20: "k < 20" using blk_root_path[OF n] k(1) by simp
  have a': "?a' j = (if j = k then b else ?a j)" for j using k20 len by (simp add: with_addr_def nth_list_update)
  have cl: "clean ({#} + (\<Sum>j<20. tree_mset V (j - 17) (?a j)) + mset (b # l))" using clean by (simp add: file_mset)
  have b: "b \<noteq> 0" "unat b < 2048" using clean by (simp_all add: clean_def)
  have zero: "W b k = 0" if "k < 512" for k using W0 b(2) that by simp
  have far: "\<forall>x\<in>#tree_mset V (j - 17) (?a j). \<forall>k<512. W x k = V x k" if "j < 20" for j
  proof (intro ballI allI impI)
    fix x i assume x: "x \<in># tree_mset V (j - 17) (?a j)" and i: "i < (512 :: nat)"
    have m: "x \<in># mset (file_blocks V c)" unfolding file_mset using that x by (intro entry_in_sum[where j = j]) simp_all
    then have "x \<noteq> b" "unat x < 2048" using clean_add[OF clean m] clean by (auto simp: clean_def)
    then show "W x i = V x i" using W0 i by simp
  qed
  have same: "tree_blocks W (j - 17) (?a j) = tree_blocks V (j - 17) (?a j) \<and>
      (\<forall>q. path_of (j - 17) q \<longrightarrow> tree_get W q (?a j) = tree_get V q (?a j))" if "j < 20" for j
    using far[OF that] tree_get_view[of "j - 17" _ V "?a j" W] tree_blocks_view[of V "j - 17" "?a j" W] by simp
  have "(\<Sum>j\<in>{..<20} - {k}. tree_mset W (j - 17) (?a' j)) = (\<Sum>j\<in>{..<20} - {k}. tree_mset V (j - 17) (?a j))"
    by (intro sum.cong) (use same a' in auto)
  then show M: "mset (file_blocks W (with_addr k b c)) = add_mset b (mset (file_blocks V c))"
    unfolding file_mset sum_entry[OF k20] using a' k(2) zero_tree(1)[of W b "k - 17"] zero b(1) by simp
  have leaf: "file_leaf W (with_addr k b c) m = (if blk_root m = k then if k - 17 = 0 then b else 0 else file_leaf V c m)" if "m < 65536" for m
    using blk_root_path[OF that] same a' zero_tree(2)[of W b "k - 17" "blk_path m"] zero b(1) by (auto simp: file_leaf_def)
  have leaf0: "file_leaf V c m = 0" if "blk_root m = k" for m using that k(2) by (simp add: file_leaf_def)
  assume gr: "file_grows n W (with_addr k b c) l V' c' l'"
  show "file_grows n V c (b # l) V' c' l'"
    unfolding file_grows_def mset.simps
  proof (rule grows_new[OF gr[unfolded file_grows_def] M])
    show "file_leaf V c n = 0" "n < 65536" using leaf0 k(1) n by simp_all
    show "file_leaf W (with_addr k b c) n = 0 \<or> file_leaf W (with_addr k b c) n = b \<and> b \<noteq> 0 \<and> (\<forall>k<512. W b k = 0)"
      using leaf[OF n] k(1) zero b(1) by simp
    show "file_leaf W (with_addr k b c) m = file_leaf V c m" if "m < 65536" "m \<noteq> n" for m
    proof (cases "blk_root m = k \<and> k - 17 = 0")
      case True
      then have "m = n" using k(1) by (auto simp: blk_root_def split: if_splits)
      then show ?thesis using that(2) by simp
    qed (use leaf[OF that(1)] leaf0[of m] in auto)
    show "W (file_leaf V c m) i = V (file_leaf V c m) i" if m: "m < 65536" "file_leaf V c m \<noteq> 0" "i < 512" for m i
    proof -
      have "file_leaf V c m \<in># tree_mset V (blk_root m - 17) (?a (blk_root m))"
        using tree_get_in[of "blk_root m - 17" "blk_path m" V "?a (blk_root m)"] blk_root_path[OF m(1)] m(2) by (simp add: file_leaf_def)
      then show ?thesis using far blk_root_path[OF m(1)] m(3) by blast
    qed
    show "W x i = V x i" if "unat x < 2048" "x \<notin># mset (file_blocks V c)" "x \<noteq> b" "i < 512" for x i using W0 that by simp
  qed
qed

section \<open>bmap for writing\<close>

text \<open>
  From \<open>s\<close> to \<open>t\<close> block \<open>n\<close> of the file of inode \<open>ip\<close> has been made present if there were enough
  free blocks; \<open>c'\<close> is the inode afterwards.
\<close>

definition mapped :: "kst \<Rightarrow> nat \<Rightarrow> u16 list \<Rightarrow> nat \<Rightarrow> u16 \<Rightarrow> kst \<Rightarrow> cinode \<Rightarrow> u16 list \<Rightarrow> bool" where
  "mapped s ip l n r t c' l' \<longleftrightarrow> bmap_grown (s\<lparr>i_tab := (i_tab s)[ip := c']\<rparr>) r t l' \<and>
     r = file_blk (bview t) c' n \<and> file_grows n (bview s) (i_tab s ! ip) l (bview t) c' l' \<and>
     c' \<in> {i_tab s ! ip} \<union> (\<lambda>b. with_addr (blk_root n) b (i_tab s ! ip)) ` set l"

lemma ind_idx_path:
  assumes "18 \<le> unat bn"
  shows "unat bn < 274 \<Longrightarrow> ind_idx 1 (bn - 18) 0 = blk_path (unat bn)"
    and "274 \<le> unat bn \<Longrightarrow> ind_idx 2 (bn - 18 - 256) 8 = blk_path (unat bn)"
proof -
  have u: "unat (bn - 18) = unat bn - 18" using assms by (simp add: unat_sub word_le_nat_alt)
  show "unat bn < 274 \<Longrightarrow> ind_idx 1 (bn - 18) 0 = blk_path (unat bn)"
    using assms by (simp add: blk_path_def unat_and_ff u)
  assume n: "274 \<le> unat bn"
  then have u2: "unat (bn - 274) = unat bn - 274" using assms by (simp add: unat_sub word_le_nat_alt)
  have "(unat bn - 274) div 256 < 256" using u16_lt[of bn] by (simp add: div_less_iff_less_mult del: u16_lt)
  then show "ind_idx 2 (bn - 18 - 256) 8 = blk_path (unat bn)"
    using n by (simp add: blk_path_def unat_and_ff unat_drop_8 u2 numeral_2_eq_2)
qed

lemma bmap_write_run:
  assumes "c = i_tab s ! ip" and "getmode c \<noteq> F_BDEV"
  shows "\<exists>bn' sh. ind_idx (blk_root (unat bn) - 17) bn' sh = blk_path (unat bn) \<and>
     (\<forall>Q. wp (bmap ip bn 0) Q s = wp (bmap_addr ip (blk_root (unat bn)) 0) (\<lambda>r. wp (case r of None \<Rightarrow> retK NULLBLK
       | Some nb \<Rightarrow> bmap_ind (blk_root (unat bn) - 17) (c_dev c) bn' sh 0 nb) Q) s)"
proof -
  define n where "n = unat bn"
  have lt18: "bn < 18 \<longleftrightarrow> n < 18" by (simp add: n_def word_less_nat_alt)
  have d: "18 - 17 = Suc 0" "19 - 17 = Suc (Suc 0)" by simp_all
  consider "n < 18" | "18 \<le> n" "n < 274" | "274 \<le> n" by linarith
  then show ?thesis
  proof cases
    case 1
    then show ?thesis using lt18 assms unfolding n_def[symmetric]
      by (intro exI[of _ 0]) (simp add: bmap_def blk_root_def blk_path_def n_def[symmetric] retK_def cong: option.case_cong)
  next
    case 2
    then have "unat (bn - 18) = n - 18" by (simp add: n_def unat_sub word_le_nat_alt)
    then have z: "(bn - 18) AND 0xff00 = 0" using 2 by (simp add: and_ff00)
    have r: "blk_root n = 18" using 2 by (simp add: blk_root_def)
    show ?thesis using lt18 assms(2) 2 z ind_idx_path(1)[of bn] unfolding n_def[symmetric] r assms(1) d
      by (intro exI[of _ "bn - 18"] exI[of _ 0]) (simp add: bmap_def Let_def)
  next
    case 3
    then have "unat (bn - 18) = n - 18" by (simp add: n_def unat_sub word_le_nat_alt)
    then have z: "(bn - 18) AND 0xff00 \<noteq> 0" using 3 by (simp add: and_ff00)
    have r: "blk_root n = 19" using 3 by (simp add: blk_root_def)
    show ?thesis using lt18 assms(2) 3 z ind_idx_path(2)[of bn] unfolding n_def[symmetric] r assms(1) d
      by (intro exI[of _ "bn - 274"] exI[of _ 8]) (simp add: bmap_def Let_def numeral_2_eq_2 del: ind_idx.simps bmap_ind.simps)
  qed
qed

lemma bmap_grown_itab:
  "bmap_grown (s\<lparr>i_tab := x\<rparr>) r t l' \<Longrightarrow> i_tab t = x"
  using alloc_frame_keeps(3)[of "s\<lparr>i_tab := x\<rparr>" t] by (auto simp: bmap_grown_def alloc_frame_def)

lemma alloc_frame_upd_itab:
  assumes "alloc_frame s t"
  shows "alloc_frame (s\<lparr>i_tab := x\<rparr>) (t\<lparr>i_tab := x\<rparr>)"
proof -
  obtain bp bc cr ub er fs where "t = s\<lparr>bufpool := bp, bufclock := bc, chr_ram := cr,
       udata := (udata s)\<lparr>u_buf := ub, u_error := er\<rparr>, fs_tab := (fs_tab s)[0 := fs]\<rparr>"
    and "s_isize fs = s_isize (fs_tab s ! 0) \<and> s_fsize fs = s_fsize (fs_tab s ! 0) \<and>
     s_mounted fs = s_mounted (fs_tab s ! 0) \<and> s_mntpt fs = s_mntpt (fs_tab s ! 0) \<and>
     s_ninode fs = s_ninode (fs_tab s ! 0) \<and> s_inode fs = s_inode (fs_tab s ! 0) \<and>
     s_tinode fs = s_tinode (fs_tab s ! 0)"
    using assms unfolding alloc_frame_def by blast
  then show ?thesis
    unfolding alloc_frame_def
    by (intro exI[of _ bp] exI[of _ bc] exI[of _ cr] exI[of _ ub] exI[of _ er] exI[of _ fs]) simp
qed

lemma root_zero_tree:
  assumes "n < 65536" and "\<forall>k<512. V b k = 0" and "b \<noteq> 0"
  shows "tree_mset V (blk_root n - 17) b = {#b#}"
  using zero_tree(1)[of V b "blk_root n - 17"] assms by simp

lemma root_mset_sub: "n < 65536 \<Longrightarrow> tree_mset V (blk_root n - 17) (i_addr (c_node c) ! blk_root n) \<subseteq># mset (file_blocks V c)"
  unfolding file_mset by (subst sum_entry[of "blk_root n"]) (use blk_root_path[of n] in simp_all)

text \<open>A file looks the same in views that agree on its blocks.\<close>

lemma file_view:
  assumes "\<forall>x\<in>#mset (file_blocks V c). \<forall>k<512. W x k = V x k"
  shows "mset (file_blocks W c) = mset (file_blocks V c)" and "n < 65536 \<Longrightarrow> file_leaf W c n = file_leaf V c n"
proof -
  let ?a = "\<lambda>j. i_addr (c_node c) ! j"
  have same: "tree_blocks W (j - 17) (?a j) = tree_blocks V (j - 17) (?a j) \<and>
      (\<forall>q. path_of (j - 17) q \<longrightarrow> tree_get W q (?a j) = tree_get V q (?a j))" if "j < 20" for j
  proof -
    have "x \<in># mset (file_blocks V c)" if "x \<in># tree_mset V (j - 17) (?a j)" for x
      unfolding file_mset using that \<open>j < 20\<close> by (intro entry_in_sum[where j = j])
    then have v: "W x k = V x k" if "x \<in># tree_mset V (j - 17) (?a j)" "k < 512" for x k
      using assms that by blast
    then show ?thesis using tree_get_view[of "j - 17" _ V "?a j" W] tree_blocks_view[of V "j - 17" "?a j" W] by simp
  qed
  then show "mset (file_blocks W c) = mset (file_blocks V c)" unfolding file_mset by (intro sum.cong) auto
  show "n < 65536 \<Longrightarrow> file_leaf W c n = file_leaf V c n" using same blk_root_path[of n] by (simp add: file_leaf_def)
qed

lemma file_leaf_in: "n < 65536 \<Longrightarrow> file_leaf V c n \<noteq> 0 \<Longrightarrow> file_leaf V c n \<in># mset (file_blocks V c)"
  unfolding file_mset file_leaf_def
  by (intro entry_in_sum[where j = "blk_root n"] tree_get_in) (simp_all add: blk_root_path)

lemma file_grows_refl:
  assumes "\<And>x k. unat x < 2048 \<Longrightarrow> k < 512 \<Longrightarrow> W x k = V x k" and clean: "clean (mset (file_blocks V c) + mset l)" and n: "n < 65536"
  shows "file_grows n V c l W c l"
proof -
  have v: "\<forall>x\<in>#mset (file_blocks V c). \<forall>k<512. W x k = V x k" using clean assms(1) by (simp add: clean_def)
  have "unat (file_leaf V c m) < 2048" if "m < 65536" "file_leaf V c m \<noteq> 0" for m
    using file_leaf_in[OF that] clean by (auto simp: clean_def)
  then show ?thesis
    unfolding file_grows_def file_view(1)[OF v] using n file_view(2)[OF v] by (intro grows_refl assms(1))
qed

lemma list_update_again: "xs[i := f (xs[i := a] ! i)] = xs[i := f a]"
  by (cases "i < length xs") (simp_all add: list_update_beyond)

lemma bmap_addr_fill:
  assumes "i_addr (c_node (i_tab s ! ip)) ! k = 0" and "c_dev (i_tab s ! ip) = 0"
  shows "wp (bmap_addr ip k 0) P s = wp (blk_alloc 0) (\<lambda>nb t. if nb = 0 then P None t else P (Some nb)
        (t\<lparr>i_tab := (i_tab t)[ip := with_addr k nb (i_tab t ! ip)]\<rparr>)) s"
proof -
  have "wp (thenK (doK [upd_node ip (\<lambda>n. n\<lparr>i_addr := (i_addr n)[k := nb]\<rparr>), upd_ino ip (\<lambda>c. c\<lparr>c_dirty := 1\<rparr>)])
      (retK (Some nb))) P = (\<lambda>t. P (Some nb) (t\<lparr>i_tab := (i_tab t)[ip := with_addr k nb (i_tab t ! ip)]\<rparr>))" for nb
    by (simp add: with_addr_def list_update_again[where f = "\<lambda>c. c\<lparr>c_dirty := 1\<rparr>"])
  then show ?thesis using assms by (simp add: bmap_addr_def Let_def cong: if_cong)
qed

lemma bmap_write_spec:
  assumes s: "free_stack s l" and c: "c = i_tab s ! ip" "c_dev c = 0" "getmode c \<noteq> F_BDEV" "ip < length (i_tab s)"
    and len: "length (i_addr (c_node c)) = 20" and clean: "clean (mset (file_blocks (bview s) c) + mset l)"
  shows "wp (bmap ip bn 0) (\<lambda>r t. \<exists>c' l'. mapped s ip l (unat bn) r t c' l') s"
proof -
  let ?n = "unat bn" and ?V = "bview s"
  define k where "k = blk_root ?n"
  define a where "a = i_addr (c_node c) ! k"
  have n: "?n < 65536" by (rule u16_lt)
  obtain bn' sh where idx: "ind_idx (k - 17) bn' sh = blk_path ?n"
    and run: "\<And>Q. wp (bmap ip bn 0) Q s = wp (bmap_addr ip k 0) (\<lambda>r. wp (case r of None \<Rightarrow> retK NULLBLK
       | Some nb \<Rightarrow> bmap_ind (k - 17) (c_dev c) bn' sh 0 nb) Q) s"
    using bmap_write_run[OF c(1,3), of bn] unfolding k_def by blast
  let ?Q = "\<lambda>r t. \<exists>c' l'. mapped s ip l ?n r t c' l'"
  have fleaf: "tree_get (bview t) (blk_path ?n) (i_addr (c_node d) ! k) = file_leaf (bview t) d ?n" for t d
    by (simp add: file_leaf_def k_def)
  have fs: "length (fs_tab s) = NDEVS" "free_list s l" "idle s" using s by (simp_all add: free_stack_def)
  show ?thesis
  proof (cases "a = 0")
    case False
    have "clean (tree_mset ?V (k - 17) a + mset l)"
      using clean_sub[OF clean] root_mset_sub[OF n, of ?V c] by (simp add: k_def a_def)
    note B = bmap_ind_grows[OF s False this, of bn' sh, unfolded idx]
    have "wp (bmap_ind (k - 17) 0 bn' sh 0 a) ?Q s"
    proof (rule wp_mono[OF B], elim exE conjE)
      fix r t l'
      assume u: "bmap_grown s r t l'" "r = or_null (tree_get (bview t) (blk_path ?n) a)"
        and g: "grows (path_of (k - 17)) (blk_path ?n) (\<lambda>q. tree_get ?V q a) (\<lambda>q. tree_get (bview t) q a)
          (tree_mset ?V (k - 17) a) (tree_mset (bview t) (k - 17) a) (mset l) (mset l') ?V (bview t)"
      have "file_grows ?n ?V c l (bview t) c l'" by (rule file_grows_tree[OF g k_def a_def n clean])
      moreover have "r = file_blk (bview t) c ?n" using u(2) by (simp add: file_blk_leaf fleaf[symmetric] a_def)
      moreover have "s\<lparr>i_tab := (i_tab s)[ip := c]\<rparr> = s" using c(1) by simp
      ultimately have "mapped s ip l ?n r t c l'" using u(1) c(1) by (simp add: mapped_def)
      then show "?Q r t" by blast
    qed
    then show ?thesis unfolding run using False c(1,2) bmap_addr_run(2)[of s ip k] by (simp add: a_def wp_def)
  next
    case True
    have h: "\<forall>b\<in>set l. \<not> held s b" "buf_inv s" "some_free s" using fs(3) idle_free by (simp_all add: idle_def)
    note A = blk_alloc_spec[OF h(2,3) fs(1,2) h(1)]
    have e: "wp (bmap_addr ip k 0) P s = wp (blk_alloc 0) (\<lambda>nb t. if nb = 0 then P None t else P (Some nb)
        (t\<lparr>i_tab := (i_tab t)[ip := with_addr k nb (i_tab t ! ip)]\<rparr>)) s" for P
      using bmap_addr_fill[of s ip k P] True c(1,2) by (simp add: a_def)
    have "wp (blk_alloc 0) (\<lambda>nb t. if nb = 0 then wp (retK NULLBLK) ?Q t else wp (bmap_ind (k - 17) (c_dev c) bn' sh 0 nb) ?Q
        (t\<lparr>i_tab := (i_tab t)[ip := with_addr k nb (i_tab t ! ip)]\<rparr>)) s"
    proof (cases l)
      case Nil
      show ?thesis
      proof (rule wp_mono[OF A])
        fix r t assume "case l of [] \<Rightarrow> r = 0 \<and> free_list t [] \<and> u_error (udata t) = ENOSPC \<and> alloc_step s ?V t
          | b # l' \<Rightarrow> r = b \<and> free_list t l' \<and> u_error (udata t) = u_error (udata s) \<and> alloc_step s (?V(b := (\<lambda>_. 0))) t"
        then have t: "r = 0" "free_list t []" "u_error (udata t) = ENOSPC" "alloc_step s ?V t" using Nil by simp_all
        have "file_grows ?n ?V c l (bview t) c []"
          using file_grows_refl[of "bview t" ?V c "[]" ?n] t(4) clean n Nil by (simp add: alloc_step_def)
        moreover have "file_blk (bview t) c ?n = NULLBLK"
          using True by (simp add: file_blk_leaf file_leaf_def k_def[symmetric] a_def[symmetric] or_null_def)
        moreover have "s\<lparr>i_tab := (i_tab s)[ip := c]\<rparr> = s" using c(1) by simp
        ultimately have "mapped s ip l ?n NULLBLK t c []"
          using alloc_step_stack[OF t(4) s t(2)] t(3) c(1) by (simp add: mapped_def bmap_grown_def)
        then have "?Q NULLBLK t" by blast
        then show "if r = 0 then wp (retK NULLBLK) ?Q t else wp (bmap_ind (k - 17) (c_dev c) bn' sh 0 r) ?Q
          (t\<lparr>i_tab := (i_tab t)[ip := with_addr k r (i_tab t ! ip)]\<rparr>)" using t(1) by simp
      qed
    next
      case (Cons b l')
      show ?thesis
      proof (rule wp_mono[OF A])
        fix r t assume "case l of [] \<Rightarrow> r = 0 \<and> free_list t [] \<and> u_error (udata t) = ENOSPC \<and> alloc_step s ?V t
          | b # l' \<Rightarrow> r = b \<and> free_list t l' \<and> u_error (udata t) = u_error (udata s) \<and> alloc_step s (?V(b := (\<lambda>_. 0))) t"
        then have t: "r = b" "free_list t l'" "u_error (udata t) = u_error (udata s)" "alloc_step s (?V(b := (\<lambda>_. 0))) t"
          using Cons by simp_all
        note S = alloc_step_stack[OF t(4) s t(2)]
        define d where "d = with_addr k b c"
        define x where "x = (i_tab s)[ip := d]"
        define u where "u = t\<lparr>i_tab := x\<rparr>"
        have it: "i_tab t = i_tab s" by (rule alloc_frame_keeps(3)[OF S(2) fs(1)])
        have u: "free_stack u l'" "alloc_frame (s\<lparr>i_tab := x\<rparr>) u" "u_error (udata u) = u_error (udata s)" "bview u = bview t"
          using S(1) alloc_frame_upd_itab[OF S(2)] t(3)
          by (simp_all add: u_def free_stack_def idle_def free_list_def view_words_def[abs_def])
        have W: "\<forall>y k. unat y < 2048 \<longrightarrow> k < 512 \<longrightarrow> bview u y k = (?V(b := (\<lambda>_. 0))) y k"
          using t(4) u(4) by (simp add: alloc_step_def)
        have b: "b \<noteq> 0" "unat b < 2048" using clean Cons by (simp_all add: clean_def)
        have cl: "clean (mset (file_blocks ?V c) + mset (b # l'))" using clean Cons by simp
        note R = file_grows_root[OF k_def True[unfolded a_def] len n cl W, folded d_def]
        have cl2: "clean (mset (file_blocks (bview u) d) + mset l')" using cl by (simp add: R(1))
        have z: "\<forall>k<512. bview u b k = 0" using W b(2) by simp
        have "clean (tree_mset (bview u) (k - 17) b + mset l')"
          using clean_sub[OF cl] root_zero_tree[of ?n "bview u" b, OF n z b(1)] by (simp add: k_def)
        note B = bmap_ind_grows[OF u(1) b(1) this, of bn' sh, unfolded idx]
        have a': "b = i_addr (c_node d) ! k" using len blk_root_path[OF n] by (simp add: d_def with_addr_def k_def)
        have "wp (bmap_ind (k - 17) 0 bn' sh 0 b) ?Q u"
        proof (rule wp_mono[OF B], elim exE conjE)
          fix r v m
          assume v: "bmap_grown u r v m" "r = or_null (tree_get (bview v) (blk_path ?n) b)"
            and g: "grows (path_of (k - 17)) (blk_path ?n) (\<lambda>q. tree_get (bview u) q b) (\<lambda>q. tree_get (bview v) q b)
              (tree_mset (bview u) (k - 17) b) (tree_mset (bview v) (k - 17) b) (mset l') (mset m) (bview u) (bview v)"
          have "file_grows ?n ?V c l (bview v) d m"
            unfolding Cons by (rule R(2)[OF file_grows_tree[OF g k_def a' n cl2]])
          moreover have "r = file_blk (bview v) d ?n" using v(2) by (simp add: file_blk_leaf fleaf[symmetric] a'[symmetric])
          moreover have "bmap_grown (s\<lparr>i_tab := x\<rparr>) r v m"
            using bmap_grown_trans[OF u(2) _ _ v(1)] fs(1) u(3) by simp
          moreover have "b \<in> set l" using Cons by simp
          ultimately have "mapped s ip l ?n r v d m" using c(1) by (simp add: mapped_def x_def d_def k_def)
          then show "?Q r v" by blast
        qed
        then show "if r = 0 then wp (retK NULLBLK) ?Q t else wp (bmap_ind (k - 17) (c_dev c) bn' sh 0 r) ?Q
          (t\<lparr>i_tab := (i_tab t)[ip := with_addr k r (i_tab t ! ip)]\<rparr>)"
          using t(1) b(1) c(1,2) it by (simp add: u_def x_def d_def)
      qed
    qed
    then show ?thesis unfolding run e by (simp cong: if_cong)
  qed
qed

section \<open>Writing a leaf\<close>

text \<open>
  A leaf is listed once, and not as an indirect block: with new contents the tree has the same
  blocks and leaves.
\<close>

lemma tree_leaf_write:
  assumes "clean (tree_mset V d b)" and "path_of d p" and "x = tree_get V p b" and "x \<noteq> 0"
  shows "tree_blocks (V(x := g)) d b = tree_blocks V d b \<and> (\<forall>q. path_of d q \<longrightarrow> tree_get (V(x := g)) q b = tree_get V q b) \<and>
     (\<forall>q. path_of d q \<longrightarrow> tree_get V q b = x \<longrightarrow> q = p)"
  using assms
proof (induction d arbitrary: b p)
  case (Suc d)
  let ?f = "\<lambda>j. tree_mset V d (word_at (V b) j)" and ?W = "V(x := g)"
  obtain i r where p: "p = i # r" "i < 256" "path_of d r" using Suc.prems(2) by (auto simp: path_of_Suc)
  have b: "b \<noteq> 0" using Suc.prems(3,4) by (cases "b = 0") simp_all
  have cl: "clean ({#b#} + (\<Sum>j<256. ?f j) + {#})" using Suc.prems(1) unfolding tree_mset_Suc[OF b] by simp
  have x: "x = tree_get V r (word_at (V b) i)" using Suc.prems(3) p(1) b by (simp add: tree_word_def)
  have xi: "x \<in># ?f i" using tree_get_in[OF p(3), of V "word_at (V b) i"] x Suc.prems(4) by simp
  have "x \<noteq> b" using clean_entry(2)[OF cl p(2), of b] xi by auto
  then have wb: "?W b = V b" by simp
  have ci: "clean (?f i)" using clean_entry(1)[OF cl p(2)] by simp
  note IH = Suc.IH[OF ci p(3) x Suc.prems(4)]
  have at: "tree_blocks ?W d (word_at (V b) j) = tree_blocks V d (word_at (V b) j) \<and>
      (\<forall>q. path_of d q \<longrightarrow> tree_get ?W q (word_at (V b) j) = tree_get V q (word_at (V b) j)) \<and>
      (\<forall>q. path_of d q \<longrightarrow> tree_get V q (word_at (V b) j) = x \<longrightarrow> j = i \<and> q = r)" if "j < 256" for j
  proof (cases "j = i")
    case False
    have n: "x \<notin># ?f j" using clean_entry(3)[OF cl p(2) that False] xi by blast
    then have v: "?W y k = V y k" if "y \<in># ?f j" for y k using that by auto
    then show ?thesis
      using tree_get_view[of d _ V "word_at (V b) j" ?W] tree_blocks_view[of V d "word_at (V b) j" ?W]
        tree_get_in[of d _ V "word_at (V b) j"] n Suc.prems(4) by auto
  next
    case True
    show ?thesis unfolding True using IH by blast
  qed
  have "map (\<lambda>j. tree_blocks ?W d (word_at (V b) j)) (rev [0..<256]) = map (\<lambda>j. tree_blocks V d (word_at (V b) j)) (rev [0..<256])"
    using at by (intro map_cong refl) simp
  then have "tree_blocks ?W (Suc d) b = tree_blocks V (Suc d) b" using b wb by (simp only: tree_blocks.simps)
  moreover have "tree_get ?W q b = tree_get V q b \<and> (tree_get V q b = x \<longrightarrow> q = p)" if q: "path_of (Suc d) q" for q
  proof -
    obtain j t where t: "q = j # t" "j < 256" "path_of d t" using q by (auto simp: path_of_Suc)
    have get: "tree_get U q b = tree_get U t (word_at (U b) j)" for U using b t(1) by (simp add: tree_word_def)
    show ?thesis unfolding get wb using at[OF t(2)] t(1,3) p(1) by blast
  qed
  ultimately show ?case by blast
qed simp

lemma file_leaf_write:
  assumes clean: "clean (mset (file_blocks V c))" and n: "n < 65536" and x: "x = file_leaf V c n" "x \<noteq> 0"
  shows "mset (file_blocks (V(x := g)) c) = mset (file_blocks V c)" and "m < 65536 \<Longrightarrow> file_leaf (V(x := g)) c m = file_leaf V c m"
    and "m < 65536 \<Longrightarrow> file_leaf V c m = x \<Longrightarrow> m = n"
proof -
  let ?a = "\<lambda>j. i_addr (c_node c) ! j" and ?k = "blk_root n" and ?W = "V(x := g)"
  let ?f = "\<lambda>j. tree_mset V (j - 17) (?a j)"
  have cl: "clean ({#} + (\<Sum>j<20. ?f j) + {#})" using clean by (simp add: file_mset)
  note k = blk_root_path[OF n]
  have xk: "x = tree_get V (blk_path n) (?a ?k)" using x(1) by (simp add: file_leaf_def)
  have xi: "x \<in># ?f ?k" using tree_get_in[of "?k - 17" "blk_path n" V "?a ?k"] k x(2) xk by simp
  have ck: "clean (?f ?k)" using clean_entry(1)[OF cl] k by simp
  have at: "tree_blocks ?W (j - 17) (?a j) = tree_blocks V (j - 17) (?a j) \<and>
      (\<forall>q. path_of (j - 17) q \<longrightarrow> tree_get ?W q (?a j) = tree_get V q (?a j)) \<and>
      (\<forall>q. path_of (j - 17) q \<longrightarrow> tree_get V q (?a j) = x \<longrightarrow> j = ?k \<and> q = blk_path n)" if "j < 20" for j
  proof (cases "j = ?k")
    case True
    then show ?thesis using tree_leaf_write[OF ck conjunct2[OF k] xk x(2)] by simp
  next
    case False
    have n: "x \<notin># ?f j" using clean_entry(3)[OF cl conjunct1[OF k] that False] xi by blast
    then have v: "?W y k = V y k" if "y \<in># ?f j" for y k using that by auto
    then show ?thesis
      using tree_get_view[of "j - 17" _ V "?a j" ?W] tree_blocks_view[of V "j - 17" "?a j" ?W]
        tree_get_in[of "j - 17" _ V "?a j"] n x(2) by auto
  qed
  show "mset (file_blocks ?W c) = mset (file_blocks V c)" unfolding file_mset using at by (intro sum.cong) auto
  show "m < 65536 \<Longrightarrow> file_leaf ?W c m = file_leaf V c m" using at blk_root_path[of m] by (simp add: file_leaf_def)
  show "m < 65536 \<Longrightarrow> file_leaf V c m = x \<Longrightarrow> m = n"
    using at[of "blk_root m"] blk_root_path[of m] blk_place_inj[of m n] unfolding file_leaf_def by blast
qed

end
