(* ===== verification/File_Grow.thy ===== *)
theory File_Grow
  imports File_Tree
begin

text \<open>
  Growing a file (\<open>fs/filesys.c\<close>: \<open>bmap\<close> for writing, \<open>kernel/scall1.c\<close>: \<open>writei\<close>): a write past the
  blocks of a file takes what it needs from the free list, and no block is lost or used twice.
\<close>

section \<open>What bmap for writing does\<close>

lemma clean_file:
  assumes "free_stack s l" and "distinct (file_blocks (bview s) c @ l)" and "\<forall>b\<in>set (file_blocks (bview s) c). data_block s b"
  shows "clean (mset (file_blocks (bview s) c) + mset l)"
proof -
  have "\<forall>b\<in>set l. b \<noteq> 0 \<and> unat b < 2048" using assms(1) by (simp add: free_stack_def free_list_def Let_def)
  then have "clean (mset (file_blocks (bview s) c @ l))"
    using assms(2,3) unfolding clean_mset by (auto simp: data_block_def)
  then show ?thesis by simp
qed

lemma file_byte_leaf: "clean (mset (file_blocks V c)) \<Longrightarrow> q div 512 < 65536 \<Longrightarrow>
   file_byte V c q = (if file_leaf V c (q div 512) = 0 then 0 else V (file_leaf V c (q div 512)) (q mod 512))"
  using file_leaf_in[of "q div 512" V c] clean_blk[of "mset (file_blocks V c)" "file_leaf V c (q div 512)"]
  by (auto simp: file_byte_def blk_byte_def file_blk_leaf or_null_def)

text \<open>A file that grows at block \<open>n\<close> keeps its bytes: the new block is as zero as the hole was.\<close>

lemma file_grows_facts:
  assumes g: "file_grows n V c l V' c' l'" and n: "n < 65536" and clean: "clean (mset (file_blocks V c) + mset l)"
  shows "mset (file_blocks V' c') + mset l' = mset (file_blocks V c) + mset l"
    and "clean (mset (file_blocks V' c') + mset l')"
    and "m < 65536 \<Longrightarrow> m \<noteq> n \<or> file_blk V c n \<noteq> NULLBLK \<Longrightarrow> file_blk V' c' m = file_blk V c m"
    and "q div 512 < 65536 \<Longrightarrow> file_byte V' c' q = file_byte V c q"
    and "unat x < 2048 \<Longrightarrow> x \<notin> set (file_blocks V c @ l) \<Longrightarrow> k < 512 \<Longrightarrow> V' x k = V x k"
proof -
  note D = growsD[OF g[unfolded file_grows_def]]
  show M: "mset (file_blocks V' c') + mset l' = mset (file_blocks V c) + mset l" by (rule D(1))
  show cl': "clean (mset (file_blocks V' c') + mset l')" using clean unfolding M .
  have cl: "clean (mset (file_blocks V c))" "clean (mset (file_blocks V' c'))"
    using clean_sub[OF clean] clean_sub[OF cl'] by simp_all
  have nn: "file_leaf V c n \<noteq> 0" if "file_blk V c n \<noteq> NULLBLK" using that by (auto simp: file_blk_leaf or_null_def)
  show "m < 65536 \<Longrightarrow> m \<noteq> n \<or> file_blk V c n \<noteq> NULLBLK \<Longrightarrow> file_blk V' c' m = file_blk V c m"
    using D(3)[of m] D(4)[of n] nn n unfolding file_blk_leaf by metis
  show "unat x < 2048 \<Longrightarrow> x \<notin> set (file_blocks V c @ l) \<Longrightarrow> k < 512 \<Longrightarrow> V' x k = V x k" using D(2) by simp
  assume q: "q div 512 < 65536"
  have k: "q mod 512 < 512" by simp
  show "file_byte V' c' q = file_byte V c q"
  proof (cases "file_leaf V c (q div 512) = 0")
    case True
    then show ?thesis
      using D(3)[OF q] D(7)[OF _ _ k] by (cases "q div 512 = n") (auto simp: file_byte_leaf[OF cl(1) q] file_byte_leaf[OF cl(2) q])
  next
    case False
    then show ?thesis using D(4)[OF q False] D(5)[OF q False k] by (simp add: file_byte_leaf[OF cl(1) q] file_byte_leaf[OF cl(2) q])
  qed
qed

text \<open>
  C5: \<open>bmap\<close> for writing gives a file the block it lacks. When the blocks of the tree of a file -
  data and indirect ones - and the free blocks are each there once, it returns the block of the
  file at that position; what the tree gains, indirect blocks on the way included, the free list
  loses, so that together they stay the same blocks; every other block of the file, every byte of
  the file and every block of others stay; and it fails only when no block is left, with
  \<open>ENOSPC\<close>.
\<close>

theorem bmap_allocates:
  assumes "free_stack s l" and "c = i_tab s ! ip" and "c_dev c = 0" and "getmode c \<noteq> F_BDEV" and "ip < length (i_tab s)"
    and "length (i_addr (c_node c)) = 20"
    and "distinct (file_blocks (bview s) c @ l)" and "\<forall>b\<in>set (file_blocks (bview s) c). data_block s b"
  shows "wp (bmap ip bn 0) (\<lambda>r t. \<exists>l'. let c' = i_tab t ! ip in
     free_stack t l' \<and> mset (file_blocks (bview t) c' @ l') = mset (file_blocks (bview s) c @ l) \<and>
     r = file_blk (bview t) c' (unat bn) \<and> (r = NULLBLK \<longrightarrow> l' = [] \<and> u_error (udata t) = ENOSPC) \<and>
     (\<forall>m<65536. m \<noteq> unat bn \<or> file_blk (bview s) c m \<noteq> NULLBLK \<longrightarrow> file_blk (bview t) c' m = file_blk (bview s) c m) \<and>
     (\<forall>q<33554432. file_byte (bview t) c' q = file_byte (bview s) c q) \<and>
     (\<forall>x k. unat x < 2048 \<longrightarrow> k < 512 \<longrightarrow> x \<notin> set (file_blocks (bview s) c @ l) \<longrightarrow> bview t x k = bview s x k)) s"
proof (rule wp_mono[OF bmap_write_spec[OF assms(1-6) clean_file[OF assms(1,7,8)]]], elim exE)
  fix r t c' l'
  note clean = clean_file[OF assms(1,7,8)]
  assume m: "mapped s ip l (unat bn) r t c' l'"
  note M = m[unfolded mapped_def]
  have g: "file_grows (unat bn) (bview s) c l (bview t) c' l'" using M assms(2) by simp
  note F = file_grows_facts[OF g u16_lt clean]
  have c': "i_tab t ! ip = c'" using bmap_grown_itab[OF conjunct1[OF M]] assms(5) by simp
  have q: "q div 512 < 65536" if "q < 33554432" for q :: nat using that by (simp add: div_less_iff_less_mult)
  show "\<exists>l'. let c' = i_tab t ! ip in
     free_stack t l' \<and> mset (file_blocks (bview t) c' @ l') = mset (file_blocks (bview s) c @ l) \<and>
     r = file_blk (bview t) c' (unat bn) \<and> (r = NULLBLK \<longrightarrow> l' = [] \<and> u_error (udata t) = ENOSPC) \<and>
     (\<forall>m<65536. m \<noteq> unat bn \<or> file_blk (bview s) c m \<noteq> NULLBLK \<longrightarrow> file_blk (bview t) c' m = file_blk (bview s) c m) \<and>
     (\<forall>q<33554432. file_byte (bview t) c' q = file_byte (bview s) c q) \<and>
     (\<forall>x k. unat x < 2048 \<longrightarrow> k < 512 \<longrightarrow> x \<notin> set (file_blocks (bview s) c @ l) \<longrightarrow> bview t x k = bview s x k)"
    unfolding c' Let_def using M F(1,3,4,5) q by (intro exI[of _ l']) (simp add: bmap_grown_def split: if_splits)
qed

text \<open>A file without blocks whose block 20, behind the single indirect one, is asked for.\<close>

definition empty_file :: kst where
  "empty_file = two_free\<lparr>i_tab := (i_tab two_free)[3 := zero_cinode\<lparr>c_node := zero_dinode\<lparr>i_mode := F_REG,
     i_addr := replicate 20 0\<rparr>\<rparr>]\<rparr>"

lemma empty_file_facts:
  "i_tab empty_file ! 3 = zero_cinode\<lparr>c_node := zero_dinode\<lparr>i_mode := F_REG, i_addr := replicate 20 0\<rparr>\<rparr>"
  "3 < length (i_tab empty_file)" "free_stack empty_file [6, 7]" "file_blocks V (i_tab empty_file ! 3) = []"
proof -
  have len: "length (i_tab two_free) = ITABSIZE" by (simp add: two_free_def empty_cache_def bss_def)
  then show i: "i_tab empty_file ! 3 = zero_cinode\<lparr>c_node := zero_dinode\<lparr>i_mode := F_REG, i_addr := replicate 20 0\<rparr>\<rparr>"
    and "3 < length (i_tab empty_file)" by (simp_all add: empty_file_def)
  show "free_stack empty_file [6, 7]"
    using two_free_stack by (simp add: empty_file_def free_stack_def free_list_def view_words_def[abs_def] idle_def)
  have "mset (file_blocks V (i_tab empty_file ! 3)) = {#}" unfolding file_mset i by (simp add: sum.neutral)
  then show "file_blocks V (i_tab empty_file ! 3) = []" by simp
qed

theorem bmap_allocates_witness:
  "wp (bmap 3 20 0) (\<lambda>r t. \<exists>l'. mset (file_blocks (bview t) (i_tab t ! 3) @ l') = {#6, 7#} \<and>
     r = file_blk (bview t) (i_tab t ! 3) 20 \<and> (r = NULLBLK \<longrightarrow> l' = [])) empty_file"
proof (rule wp_mono[OF bmap_allocates[OF empty_file_facts(3) refl _ _ empty_file_facts(2)]], goal_cases)
  case (6 r t)
  then show ?case by (auto simp: Let_def empty_file_facts(4))
qed (simp_all add: empty_file_facts(4) free_stack_def, simp_all add: empty_file_facts(1) zero_cinode_def getmode_def)

section \<open>Writing past the blocks of a file\<close>

lemma file_byte_leaf_write:
  assumes clean: "clean (mset (file_blocks V c))" and n: "n < 65536" and b: "b = file_leaf V c n" "b \<noteq> 0" and q: "q div 512 < 65536"
  shows "file_byte (V(b := g)) c q = (if q div 512 = n then g (q mod 512) else file_byte V c q)"
proof -
  note W = file_leaf_write(1,2)[OF clean n b, where g = g] and inj = file_leaf_write(3)[OF clean n b]
  have cl: "clean (mset (file_blocks (V(b := g)) c))" using clean W(1) by simp
  have "file_leaf V c (q div 512) = b \<longleftrightarrow> q div 512 = n" using inj[OF q] b(1) by blast
  then show ?thesis unfolding file_byte_leaf[OF cl q] file_byte_leaf[OF clean q] W(2)[OF q]
    using b(1)[symmetric] b(2) by (cases "q div 512 = n") auto
qed

lemma file_byte_same:
  assumes "\<forall>x\<in>#mset (file_blocks V c). \<forall>k<512. W x k = V x k" and clean: "clean (mset (file_blocks V c))" and q: "q div 512 < 65536"
  shows "file_byte W c q = file_byte V c q"
proof -
  have cl: "clean (mset (file_blocks W c))" using clean file_view(1)[OF assms(1)] by simp
  show ?thesis
    using file_view(2)[OF assms(1) q] file_leaf_in[OF q, of V c] assms(1)
    by (simp add: file_byte_leaf[OF cl q] file_byte_leaf[OF clean q])
qed

text \<open>
  From \<open>s\<close> to \<open>t\<close> the bytes \<open>P\<close> to \<open>P + n\<close> of file \<open>ino\<close> have become those at the user's
  address, with blocks taken from the free list \<open>l\<close>, of which \<open>l'\<close> is left.
\<close>

definition same_but_addr :: "cinode \<Rightarrow> cinode \<Rightarrow> bool" where
  "same_but_addr c d \<longleftrightarrow> d = c \<or> (\<exists>a. d = c\<lparr>c_node := (c_node c)\<lparr>i_addr := a\<rparr>, c_dirty := 1\<rparr>)"

definition grew :: "nat \<Rightarrow> u16 list \<Rightarrow> nat \<Rightarrow> nat \<Rightarrow> kst \<Rightarrow> kst \<Rightarrow> cinode \<Rightarrow> u16 list \<Rightarrow> bool" where
  "grew ino l P n s t d l' \<longleftrightarrow> free_stack t l' \<and>
     (\<exists>p. off_pos p = P + n \<and> wf_off p \<and> alloc_frame ((moved n p s)\<lparr>i_tab := (i_tab s)[ino := d]\<rparr>) t) \<and>
     same_but_addr (i_tab s ! ino) d \<and> length (i_addr (c_node d)) = 20 \<and>
     mset (file_blocks (bview t) d) + mset l' = mset (file_blocks (bview s) (i_tab s ! ino)) + mset l \<and>
     (\<forall>q<33554432. file_byte (bview t) d q = (if P \<le> q \<and> q < P + n then mem s (u_base (udata s) + of_nat (q - P))
        else file_byte (bview s) (i_tab s ! ino) q)) \<and>
     (\<forall>m<65536. file_blk (bview s) (i_tab s ! ino) m \<noteq> NULLBLK \<longrightarrow> file_blk (bview t) d m = file_blk (bview s) (i_tab s ! ino) m) \<and>
     (\<forall>x k. unat x < 2048 \<longrightarrow> k < 512 \<longrightarrow> x \<notin># mset (file_blocks (bview s) (i_tab s ! ino)) + mset l \<longrightarrow> bview t x k = bview s x k)"

lemma alloc_frame_ud:
  assumes "alloc_frame s t"
  shows "mem t = mem s" "u_base (udata t) = u_base (udata s)" "u_offset (udata t) = u_offset (udata s)" "i_tab t = i_tab s"
    "u_count (udata t) = u_count (udata s)" "length (fs_tab t) = length (fs_tab s)"
    "of_tab t = of_tab s" "u_files (udata t) = u_files (udata s)"
  using assms by (auto simp: alloc_frame_def)

lemma alloc_frame_moved:
  assumes "alloc_frame s t"
  shows "alloc_frame (moved n p s) (moved n p t)"
proof -
  obtain bp bc cr ub er fs where "t = s\<lparr>bufpool := bp, bufclock := bc, chr_ram := cr,
       udata := (udata s)\<lparr>u_buf := ub, u_error := er\<rparr>, fs_tab := (fs_tab s)[0 := fs]\<rparr>"
    and "s_isize fs = s_isize (fs_tab s ! 0) \<and> s_fsize fs = s_fsize (fs_tab s ! 0) \<and>
     s_mounted fs = s_mounted (fs_tab s ! 0) \<and> s_mntpt fs = s_mntpt (fs_tab s ! 0) \<and>
     s_ninode fs = s_ninode (fs_tab s ! 0) \<and> s_inode fs = s_inode (fs_tab s ! 0) \<and>
     s_tinode fs = s_tinode (fs_tab s ! 0)"
    using assms unfolding alloc_frame_def by blast
  then show ?thesis
    unfolding alloc_frame_def moved_def
    by (intro exI[of _ bp] exI[of _ bc] exI[of _ cr] exI[of _ ub] exI[of _ er] exI[of _ fs]) simp
qed

lemma grew_tab:
  assumes "grew ino l P n s t d l'"
  shows "i_tab t = (i_tab s)[ino := d]" "mem t = mem s" "u_base (udata t) = u_base (udata s) + of_nat n"
    "off_pos (u_offset (udata t)) = P + n" "wf_off (u_offset (udata t))" "u_count (udata t) = u_count (udata s)"
    "length (fs_tab t) = length (fs_tab s)" "of_tab t = of_tab s" "u_files (udata t) = u_files (udata s)"
proof -
  obtain p where p: "off_pos p = P + n" "wf_off p" "alloc_frame ((moved n p s)\<lparr>i_tab := (i_tab s)[ino := d]\<rparr>) t"
    using assms unfolding grew_def by blast
  show "i_tab t = (i_tab s)[ino := d]" "mem t = mem s" "u_base (udata t) = u_base (udata s) + of_nat n"
    "off_pos (u_offset (udata t)) = P + n" "wf_off (u_offset (udata t))" "u_count (udata t) = u_count (udata s)"
    "length (fs_tab t) = length (fs_tab s)" "of_tab t = of_tab s" "u_files (udata t) = u_files (udata s)"
    using p(1,2) alloc_frame_ud[OF p(3)] by (simp_all add: moved_def)
qed

lemma grewD:
  assumes "grew ino l P n s t d l'"
  shows "free_stack t l'" and "\<exists>p. off_pos p = P + n \<and> wf_off p \<and> alloc_frame ((moved n p s)\<lparr>i_tab := (i_tab s)[ino := d]\<rparr>) t"
    and "same_but_addr (i_tab s ! ino) d" and "length (i_addr (c_node d)) = 20"
    and "mset (file_blocks (bview t) d) + mset l' = mset (file_blocks (bview s) (i_tab s ! ino)) + mset l"
    and "q < 33554432 \<Longrightarrow> file_byte (bview t) d q = (if P \<le> q \<and> q < P + n then mem s (u_base (udata s) + of_nat (q - P))
        else file_byte (bview s) (i_tab s ! ino) q)"
    and "m < 65536 \<Longrightarrow> file_blk (bview s) (i_tab s ! ino) m \<noteq> NULLBLK \<Longrightarrow> file_blk (bview t) d m = file_blk (bview s) (i_tab s ! ino) m"
    and "unat x < 2048 \<Longrightarrow> k < 512 \<Longrightarrow> x \<notin># mset (file_blocks (bview s) (i_tab s ! ino)) + mset l \<Longrightarrow> bview t x k = bview s x k"
  using assms unfolding grew_def by blast+

lemma grew_trans:
  assumes st: "grew ino l P a s t d l1" and tu: "grew ino l1 (P + a) n t u e l'" and ino: "ino < length (i_tab s)"
    and len: "length (fs_tab s) = NDEVS"
  shows "grew ino l P (a + n) s u e l'"
proof -
  note T = grew_tab[OF st] and S = grewD[OF st]
  have d: "i_tab t ! ino = d" using T(1) ino by simp
  note U = grewD[OF tu, unfolded d]
  obtain p p' where p: "alloc_frame ((moved a p s)\<lparr>i_tab := (i_tab s)[ino := d]\<rparr>) t"
    and p': "off_pos p' = P + a + n" "wf_off p'" "alloc_frame ((moved n p' t)\<lparr>i_tab := (i_tab t)[ino := e]\<rparr>) u"
    using S(2) U(2) by blast
  have "alloc_frame ((moved (a + n) p' s)\<lparr>i_tab := (i_tab s)[ino := e]\<rparr>) u"
  proof -
    have "alloc_frame ((moved n p' ((moved a p s)\<lparr>i_tab := (i_tab s)[ino := d]\<rparr>))\<lparr>i_tab := (i_tab t)[ino := e]\<rparr>)
        ((moved n p' t)\<lparr>i_tab := (i_tab t)[ino := e]\<rparr>)"
      by (rule alloc_frame_upd_itab[OF alloc_frame_moved[OF p]])
    moreover have "(moved n p' ((moved a p s)\<lparr>i_tab := (i_tab s)[ino := d]\<rparr>))\<lparr>i_tab := (i_tab t)[ino := e]\<rparr> =
        (moved (a + n) p' s)\<lparr>i_tab := (i_tab s)[ino := e]\<rparr>"
      using T by (simp add: moved_def add.assoc)
    ultimately show ?thesis using alloc_frame_trans[OF _ p'(3)] len by (simp add: moved_def)
  qed
  moreover have "same_but_addr (i_tab s ! ino) e" using S(3) U(3) by (auto simp: same_but_addr_def)
  moreover have "mset (file_blocks (bview u) e) + mset l' = mset (file_blocks (bview s) (i_tab s ! ino)) + mset l"
    using S(5) U(5) by simp
  moreover have "file_byte (bview u) e q = (if P \<le> q \<and> q < P + (a + n) then mem s (u_base (udata s) + of_nat (q - P))
      else file_byte (bview s) (i_tab s ! ino) q)" if "q < 33554432" for q
    using bytes_join[of "file_byte (bview t) d q" P q a "mem s" "u_base (udata s)" _ n, OF S(6)[OF that]]
    unfolding U(6)[OF that] T(2,3) .
  moreover have "bview u x k = bview s x k" if x: "unat x < 2048" "k < 512" "x \<notin># mset (file_blocks (bview s) (i_tab s ! ino)) + mset l" for x k
  proof -
    have "x \<notin># mset (file_blocks (bview t) d) + mset l1" using S(5) x(3) by simp
    then have "bview u x k = bview t x k" using U(8) x(1,2) by simp
    then show ?thesis using S(8)[OF x] by simp
  qed
  moreover have "file_blk (bview u) e m = file_blk (bview s) (i_tab s ! ino) m" if "m < 65536" "file_blk (bview s) (i_tab s ! ino) m \<noteq> NULLBLK" for m
  proof -
    have "file_blk (bview t) d m = file_blk (bview s) (i_tab s ! ino) m" using S(7)[OF that] .
    then show ?thesis using U(7) that by simp
  qed
  moreover have "off_pos p' = P + (a + n)" using p'(1) by simp
  ultimately show ?thesis using U(1,4) p'(2) unfolding grew_def by blast
qed

text \<open>A block mapped in, and a block written.\<close>

lemma moved_0 [simp]: "moved 0 (u_offset (udata s)) s = s"
  by (simp add: moved_def)

lemma grew_bmap:
  fixes bn :: u16
  assumes m: "mapped s ino l (unat bn) r t d l'" and clean: "clean (mset (file_blocks (bview s) (i_tab s ! ino)) + mset l)"
    and len: "length (i_addr (c_node (i_tab s ! ino))) = 20" and wf: "wf_off (u_offset (udata s))"
  shows "grew ino l (off_pos (u_offset (udata s))) 0 s t d l'"
proof -
  note M = m[unfolded mapped_def]
  have g: "file_grows (unat bn) (bview s) (i_tab s ! ino) l (bview t) d l'" using M by simp
  note F = file_grows_facts[OF g u16_lt clean]
  have q: "q div 512 < 65536" if "q < 33554432" for q :: nat using that by (simp add: div_less_iff_less_mult)
  have "same_but_addr (i_tab s ! ino) d" "length (i_addr (c_node d)) = 20"
    using M len by (auto simp: same_but_addr_def with_addr_def)
  moreover have "alloc_frame (s\<lparr>i_tab := (i_tab s)[ino := d]\<rparr>) t" "free_stack t l'" using M by (simp_all add: bmap_grown_def)
  moreover have "file_blk (bview t) d m = file_blk (bview s) (i_tab s ! ino) m" if "m < 65536" "file_blk (bview s) (i_tab s ! ino) m \<noteq> NULLBLK" for m
    using F(3)[OF that(1)] that(2) by (cases "m = unat bn") auto
  ultimately show ?thesis using F(1,4,5) q wf unfolding grew_def by auto
qed

lemma grew_put:
  assumes s: "free_stack s l" and c: "c = i_tab s ! ino" and clean: "clean (mset (file_blocks (bview s) c) + mset l)"
    and len: "length (i_addr (c_node c)) = 20" and b: "b = file_blk (bview s) c (P div 512)" "b \<noteq> NULLBLK"
    and a: "P mod 512 + a \<le> 512" and P: "P < 33554432" and p: "off_pos p = P + a" "wf_off p"
    and st: "cache_step s ((bview s)(b := patched (P mod 512) a (\<lambda>k. mem s (u_base (udata s) + of_nat k)) (bview s b))) t"
  shows "grew ino l P a s (moved a p t) c l"
proof -
  let ?V = "bview s" and ?g = "patched (P mod 512) a (\<lambda>k. mem s (u_base (udata s) + of_nat k)) (bview s b)"
  have n: "P div 512 < 65536" using P by (simp add: div_less_iff_less_mult)
  have lf: "b = file_leaf ?V c (P div 512)" "b \<noteq> 0" using b by (auto simp: file_blk_leaf or_null_def split: if_splits)
  have cl: "clean (mset (file_blocks ?V c))" using clean_sub[OF clean] by simp
  note W = file_leaf_write(1,2)[OF cl n lf, where g = ?g]
  have bm: "b \<in># mset (file_blocks ?V c)" using file_leaf_in[OF n] lf by simp
  have clW: "clean (mset (file_blocks (?V(b := ?g)) c))" using cl W(1) by simp
  note d = cache_stepD[OF st]
  have v: "bview t x k = (?V(b := ?g)) x k" if "unat x < 2048" "k < 512" for x k using d(15)[OF that] .
  have same: "\<forall>x\<in>#mset (file_blocks (?V(b := ?g)) c). \<forall>k<512. bview t x k = (?V(b := ?g)) x k"
    using clW v by (simp add: clean_def)
  have M: "mset (file_blocks (bview t) c) = mset (file_blocks ?V c)" using file_view(1)[OF same] W(1) by simp
  have leaf: "file_leaf (bview t) c m = file_leaf ?V c m" if "m < 65536" for m using file_view(2)[OF same that] W(2)[OF that] by simp
  have byte: "file_byte (bview t) c q = (if P \<le> q \<and> q < P + a then mem s (u_base (udata s) + of_nat (q - P)) else file_byte ?V c q)"
    if q: "q < 33554432" for q
  proof -
    have q: "q div 512 < 65536" using q by (simp add: div_less_iff_less_mult)
    have "file_byte (bview t) c q = (if q div 512 = P div 512 then ?g (q mod 512) else file_byte ?V c q)"
      unfolding file_byte_same[OF same clW q] by (rule file_byte_leaf_write[OF cl n lf q])
    also have "\<dots> = (if P \<le> q \<and> q < P + a then mem s (u_base (udata s) + of_nat (q - P))
        else if q div 512 = P div 512 then ?V b (q mod 512) else file_byte ?V c q)" by (rule patch_byte[OF a])
    finally show ?thesis using b by (auto simp: file_byte_def blk_byte_def)
  qed
  have bl: "b \<notin> set l" using clean_add[OF clean bm] by simp
  have fs: "fs_tab t = fs_tab s \<and> u_error (udata t) = u_error (udata s)" by (rule buf_frame_keeps[OF d(16)])
  have "free_list t l"
    by (rule free_list_view[of s]) (use s fs v bl in \<open>auto simp: free_stack_def free_list_def Let_def\<close>)
  then have "free_stack (moved a p t) l"
    using s fs cache_step_idle[OF st] by (simp add: free_stack_def free_list_def moved_def idle_def view_words_def[abs_def])
  moreover have "alloc_frame ((moved a p s)\<lparr>i_tab := (i_tab s)[ino := c]\<rparr>) (moved a p t)"
    using alloc_frame_moved[OF buf_frame_alloc[OF d(16)]] c by (simp add: moved_def)
  moreover have "bview t x k = bview s x k" if "unat x < 2048" "k < 512" "x \<notin># mset (file_blocks ?V c)" for x k
    using v[OF that(1,2)] bm that(3) by auto
  ultimately show ?thesis
    using p M byte leaf len c unfolding grew_def by (auto simp: same_but_addr_def file_blk_leaf)
qed


lemma same_but_addr_keeps:
  assumes "same_but_addr c d"
  shows "c_dev d = c_dev c" "getmode d = getmode c" "i_size (c_node d) = i_size (c_node c)" "c_magic d = c_magic c"
  using assms by (auto simp: same_but_addr_def getmode_def)

lemma grew_clean:
  assumes "grew ino l P n s t d l'" and "clean (mset (file_blocks (bview s) (i_tab s ! ino)) + mset l)"
  shows "clean (mset (file_blocks (bview t) d) + mset l')"
  using grewD(5)[OF assms(1)] assms(2) by simp

lemma write_chunk_grow:
  assumes s: "free_stack s l" and c: "c = i_tab s ! ino" "c_dev c = 0" "getmode c \<noteq> F_BDEV" "ino < length (i_tab s)"
    and len: "length (i_addr (c_node c)) = 20" and clean: "clean (mset (file_blocks (bview s) c) + mset l)"
    and fs: "length (fs_tab s) = NDEVS"
    and wf: "wf_off (u_offset (udata s))" and P: "P = off_pos (u_offset (udata s))"
    and n: "0 < unat towrite" "unat towrite < 32768" "P + unat towrite < 33554432"
  shows "wp (write_chunk ino 0 False towrite) (\<lambda>r t. \<exists>d l' a. grew ino l P a s t d l' \<and>
     (case r of None \<Rightarrow> a = 0 \<and> l' = [] \<and> u_error (udata t) = ENOSPC
      | Some w \<Rightarrow> 0 < a \<and> a \<le> unat towrite \<and> unat w = unat towrite - a \<and> u_error (udata t) = u_error (udata s))) s"
    (is "wp _ ?Q s")
  unfolding write_chunk_run
proof (rule wp_mono[OF bmap_write_spec[OF s c len clean, of "o_blkno (u_offset (udata s))"]], elim exE)
  let ?bn = "o_blkno (u_offset (udata s))"
  fix b t d l1 assume m: "mapped s ino l (unat ?bn) b t d l1"
  have bn: "unat ?bn = P div 512" using wf P by (simp add: wf_off_def off_pos_def)
  have G: "grew ino l P 0 s t d l1"
    unfolding P by (rule grew_bmap[OF m clean[unfolded c(1)] len[unfolded c(1)] wf])
  note T = grew_tab[OF G] and D = grewD[OF G] and M = m[unfolded mapped_def bmap_grown_def]
  have d: "i_tab t ! ino = d" using T(1) c(4) by simp
  show "wp (if b = NULLBLK then retK None else chunk_rest (u_offset (udata s)) towrite b) ?Q t"
  proof (cases "b = NULLBLK")
    case True
    then have "?Q None t" using G M by auto
    then show ?thesis using True by simp
  next
    case False
    have cl1: "clean (mset (file_blocks (bview t) d) + mset l1)" by (rule grew_clean[OF G clean[unfolded c(1)]])
    have b: "b = file_blk (bview t) d (P div 512)" using M bn by simp
    have idle: "idle t" using D(1) by (simp add: free_stack_def)
    have off: "u_offset (udata t) = u_offset (udata s)"
      using M by (auto simp: alloc_frame_def)
    have b2: "unat b < 2048"
    proof -
      have n: "P div 512 < 65536" using u16_lt[of ?bn] bn by simp
      have "b = file_leaf (bview t) d (P div 512)" "b \<noteq> 0"
        using b False by (auto simp: file_blk_leaf or_null_def split: if_splits)
      then have "b \<in># mset (file_blocks (bview t) d) + mset l1" using file_leaf_in[OF n] by simp
      then show ?thesis using clean_blk[OF cl1] by blast
    qed
    have e: "u_error (udata t) = u_error (udata s)" using M False by simp
    have "wp (chunk_rest (u_offset (udata t)) towrite b) ?Q t"
    proof (rule wp_mono[OF chunk_rest_spec[OF idle _ _ b2 n]], goal_cases)
      case (3 r u)
      then obtain w a p t' where r: "r = Some w" "u = moved a p t'" "0 < a" "a \<le> unat towrite" "unat w = unat towrite - a"
          "P mod 512 + a \<le> 512" and p: "off_pos p = P + a" "wf_off p"
        and st: "cache_step t ((bview t)(b := patched (P mod 512) a (\<lambda>k. mem t (u_base (udata t) + of_nat k)) (bview t b))) t'"
        by blast
      have "grew ino l1 (P + 0) a t u d l1"
        unfolding r(2) add_0_right
        by (rule grew_put[OF D(1) d[symmetric] cl1 D(4) b False r(6) _ p st]) (use n in linarith)
      then have "grew ino l P (0 + a) s u d l1" by (rule grew_trans[OF G _ c(4) fs])
      moreover have "u_error (udata u) = u_error (udata s)"
        using buf_frame_keeps[OF cache_stepD(16)[OF st]] e r(2) by (simp add: moved_def)
      ultimately show ?case using r by auto
    qed (use off wf P in simp_all)
    then show ?thesis using False off by simp
  qed
qed


lemma grew_refl:
  assumes "free_stack s l" and "length (i_addr (c_node (i_tab s ! ino))) = 20" and "wf_off (u_offset (udata s))"
  shows "grew ino l (off_pos (u_offset (udata s))) 0 s s (i_tab s ! ino) l"
proof -
  have "alloc_frame s s" using buf_frame_alloc[of s s] by simp
  then show ?thesis using assms unfolding grew_def same_but_addr_def
    by (intro conjI exI[of _ "u_offset (udata s)"]) auto
qed

lemma write_loop_grow:
  assumes "free_stack s l" and "c = i_tab s ! ino" and "c_dev c = 0" and "getmode c \<noteq> F_BDEV" and "ino < length (i_tab s)"
    and "length (i_addr (c_node c)) = 20" and "clean (mset (file_blocks (bview s) c) + mset l)" and "length (fs_tab s) = NDEVS"
    and "wf_off (u_offset (udata s))" and "P = off_pos (u_offset (udata s))"
    and "unat towrite \<le> fuel" and "unat towrite < 32768" and "P + unat towrite < 33554432"
  shows "wp (write_loop fuel ino 0 False towrite) (\<lambda>_ t. \<exists>d l' a. grew ino l P a s t d l' \<and> a \<le> unat towrite \<and>
     (if a = unat towrite then u_error (udata t) = u_error (udata s) else l' = [] \<and> u_error (udata t) = ENOSPC)) s"
  using assms
proof (induction fuel arbitrary: s l c P towrite)
  case 0
  have "grew ino l P 0 s s c l" using grew_refl[of s l ino] 0 by simp
  moreover have "towrite = 0" using 0 by (simp add: unsigned_eq_0_iff)
  ultimately show ?case by (auto intro!: exI[of _ 0])
next
  case (Suc fuel)
  note A = Suc.prems
  let ?n = "unat towrite"
  define R where "R = (\<lambda>(x :: unit) t. \<exists>d l' a. grew ino l P a s t d l' \<and> a \<le> ?n \<and>
     (if a = ?n then u_error (udata t) = u_error (udata s) else l' = [] \<and> u_error (udata t) = ENOSPC))"
  show ?case
  proof (cases "towrite = 0")
    case True
    have "grew ino l P 0 s s c l" using grew_refl[of s l ino] A by simp
    then show ?thesis using True by (auto intro!: exI[of _ 0])
  next
    case False
    then have pos: "0 < ?n" by (simp add: unat_gt_0)
    have "wp (write_chunk ino 0 False towrite) (\<lambda>r. wp (case r of None \<Rightarrow> retK () | Some m \<Rightarrow> write_loop fuel ino 0 False m) R) s"
    proof (rule wp_mono[OF write_chunk_grow[OF A(1-10) pos A(12,13)]], elim exE conjE)
      fix r :: "u16 option" and t d l1 a
      assume G: "grew ino l P a s t d l1" and r: "case r of None \<Rightarrow> a = 0 \<and> l1 = [] \<and> u_error (udata t) = ENOSPC
        | Some w \<Rightarrow> 0 < a \<and> a \<le> ?n \<and> unat w = ?n - a \<and> u_error (udata t) = u_error (udata s)"
      note T = grew_tab[OF G] and D = grewD[OF G]
      show "wp (case r of None \<Rightarrow> retK () | Some m \<Rightarrow> write_loop fuel ino 0 False m) R t"
      proof (cases r)
        case None
        then have "R () t" using G r pos unfolding R_def by (intro exI[of _ d] exI[of _ "[]"] exI[of _ 0]) auto
        then show ?thesis using None by simp
      next
        case (Some w)
        then have w: "0 < a" "a \<le> ?n" "unat w = ?n - a" "u_error (udata t) = u_error (udata s)" using r by simp_all
        have d: "d = i_tab t ! ino" using T(1) A(5) by simp
        note K = same_but_addr_keeps[OF D(3)[folded A(2)]]
        have an: "a + unat w = ?n" using w by linarith
        show ?thesis
          unfolding Some option.case
        proof (rule wp_mono[OF Suc.IH[where P = "P + a", OF D(1) d]], goal_cases)
          case (12 x u)
          then obtain e l2 a2 where H: "grew ino l1 (P + a) a2 t u e l2" "a2 \<le> unat w"
            "if a2 = unat w then u_error (udata u) = u_error (udata t) else l2 = [] \<and> u_error (udata u) = ENOSPC" by blast
          have "grew ino l P (a + a2) s u e l2" by (rule grew_trans[OF G H(1) A(5,8)])
          moreover have "a + a2 \<le> ?n" "a + a2 = ?n \<longleftrightarrow> a2 = unat w" using H(2) an by linarith+
          ultimately show ?case
            using H(3) w(4) unfolding R_def by (intro exI[of _ e] exI[of _ l2] exI[of _ "a + a2"]) (simp split: if_splits)
        qed (use K A T D(4) w grew_clean[OF G] in simp_all)
      qed
    qed
    then have "wp (write_loop (Suc fuel) ino 0 False towrite) R s" using False by simp
    then show ?thesis unfolding R_def .
  qed
qed


lemma same_addr_blocks:
  assumes "i_addr (c_node c) = i_addr (c_node d)"
  shows "mset (file_blocks V c) = mset (file_blocks V d)"
  unfolding file_mset assms ..

lemma writei_grow_spec:
  assumes "free_stack s l" and "c = i_tab s ! ino" and "c_dev c = 0" and "getmode c = F_REG \<or> getmode c = F_DIR"
    and "ino < length (i_tab s)" and "length (i_addr (c_node c)) = 20" and "clean (mset (file_blocks (bview s) c) + mset l)"
    and "wf_off (i_size (c_node c))" and "wf_off (u_offset (udata s))" and "P = off_pos (u_offset (udata s))"
    and "n = unat (u_count (udata s))" and "n < 32768" and "P + n < 33554432"
  shows "wp (writei env ino) (\<lambda>_ t. \<exists>a l' d f u. a \<le> n \<and> grew ino l P a s u d l' \<and>
     (if a = n then u_error (udata u) = u_error (udata s) else l' = [] \<and> u_error (udata u) = ENOSPC) \<and>
     f = grown (u_offset (udata u)) d \<and> off_pos (i_size (c_node f)) = max (off_pos (i_size (c_node c))) (P + a) \<and>
     wf_off (i_size (c_node f)) \<and> t = u\<lparr>i_tab := (i_tab s)[ino := f]\<rparr>) s"
proof -
  let ?u = "u_count (udata s)"
  have fs: "length (fs_tab s) = NDEVS" using assms(1) by (simp add: free_stack_def)
  have nb: "getmode c \<noteq> F_BDEV" using assms(4) by auto
  have e: "wp (writei env ino) Q s = wp (write_loop 65535 ino 0 False ?u) (\<lambda>_. wp (grow_size ino) Q) s" for Q
    using assms(2-4) unfolding writei_def by (auto simp: Let_def)
  show ?thesis
    unfolding e
  proof (rule wp_mono[OF write_loop_grow[OF assms(1-3) nb assms(5-7) fs assms(9,10)]], goal_cases)
    case (4 x u)
    then obtain d l' a where G: "grew ino l P a s u d l'" and a: "a \<le> n"
      and err: "if a = n then u_error (udata u) = u_error (udata s) else l' = [] \<and> u_error (udata u) = ENOSPC"
      unfolding assms(11)[symmetric] by blast
    note T = grew_tab[OF G] and K = same_but_addr_keeps[OF grewD(3)[OF G]]
    define f where "f = grown (u_offset (udata u)) d"
    have d: "i_tab u ! ino = d" using T(1) assms(5) by simp
    have f: "off_pos (i_size (c_node f)) = max (off_pos (i_size (c_node c))) (P + a)" "wf_off (i_size (c_node f))"
      using K T(4,5) assms(2,8) by (auto simp: f_def grown_def)
    have run: "grow_size ino u = Ret () (u\<lparr>i_tab := (i_tab s)[ino := f]\<rparr>)"
      using T(1,5) K assms(2,5,8) d unfolding f_def by (subst grow_size_run) simp_all
    show ?case
      unfolding wp_def run outcome.case
      using G a err f f_def by (intro exI[of _ a] exI[of _ l'] exI[of _ d] exI[of _ f] exI[of _ u]) simp
  qed (use assms(11-13) in simp_all)
qed

lemma grown_keeps:
  "i_addr (c_node (grown p d)) = i_addr (c_node d)" "c_dev (grown p d) = c_dev d" "getmode (grown p d) = getmode d"
  "c_magic (grown p d) = c_magic d"
  by (simp_all add: grown_def getmode_def)

lemma free_stack_itab: "free_stack (t\<lparr>i_tab := x\<rparr>) l = free_stack t l"
  by (simp add: free_stack_def free_list_def idle_def view_words_def[abs_def])

text \<open>
  C3: \<open>writei\<close> makes a file longer. Into a regular file or directory whose tree of blocks and the
  free blocks are each there once, it writes the bytes asked for at the position, wherever that
  is: the file then has the user's bytes there and its old bytes - zeroes in its holes - at every
  other position, its size is the end of the write when that is past the old end, and what its
  tree gains the free list loses, so that no block is lost, shared or changed for others. It
  stops early only when no block is left, with \<open>ENOSPC\<close>, having written the bytes before that;
  the count it reports is then still the whole one.
\<close>

theorem writei_grows:
  assumes "free_stack s l" and "c = i_tab s ! ino" and "c_dev c = 0" and "getmode c = F_REG \<or> getmode c = F_DIR"
    and "ino < length (i_tab s)" and "length (i_addr (c_node c)) = 20"
    and "distinct (file_blocks (bview s) c @ l)" and "\<forall>b\<in>set (file_blocks (bview s) c). data_block s b"
    and "wf_off (i_size (c_node c))" and "wf_off (u_offset (udata s))" and "P = off_pos (u_offset (udata s))"
    and "n = unat (u_count (udata s))" and "n < 32768" and "P + n < 33554432"
  shows "wp (writei env ino) (\<lambda>_ t. \<exists>a l'. let c' = i_tab t ! ino in
     a \<le> n \<and> (if a = n then u_error (udata t) = u_error (udata s) else l' = [] \<and> u_error (udata t) = ENOSPC) \<and>
     free_stack t l' \<and> mset (file_blocks (bview t) c' @ l') = mset (file_blocks (bview s) c @ l) \<and>
     (\<forall>q<33554432. file_byte (bview t) c' q =
        (if P \<le> q \<and> q < P + a then mem s (u_base (udata s) + of_nat (q - P)) else file_byte (bview s) c q)) \<and>
     (\<forall>x k. unat x < 2048 \<longrightarrow> k < 512 \<longrightarrow> x \<notin> set (file_blocks (bview s) c @ l) \<longrightarrow> bview t x k = bview s x k) \<and>
     off_pos (u_offset (udata t)) = P + a \<and> off_pos (i_size (c_node c')) = max (off_pos (i_size (c_node c))) (P + a) \<and>
     u_count (udata t) = u_count (udata s)) s"
proof (rule wp_mono[OF writei_grow_spec[OF assms(1-6) clean_file[OF assms(1,7,8)] assms(9-14)]], goal_cases)
  case (1 x t)
  then obtain a l' d f u where a: "a \<le> n" and G: "grew ino l P a s u d l'"
    and err: "if a = n then u_error (udata u) = u_error (udata s) else l' = [] \<and> u_error (udata u) = ENOSPC"
    and f: "f = grown (u_offset (udata u)) d" "off_pos (i_size (c_node f)) = max (off_pos (i_size (c_node c))) (P + a)"
    and t: "t = u\<lparr>i_tab := (i_tab s)[ino := f]\<rparr>" by blast
  note T = grew_tab[OF G] and D = grewD[OF G]
  have fa: "i_addr (c_node f) = i_addr (c_node d)" by (simp add: f(1) grown_keeps)
  have M: "mset (file_blocks (bview u) f) + mset l' = mset (file_blocks (bview s) c) + mset l"
    using D(5) same_addr_blocks[OF fa] assms(2) by simp
  show ?case
    unfolding Let_def t
    using a err D(1,6,8) M T assms(2,5) f(2)
    by (intro exI[of _ a] exI[of _ l']) (simp add: same_addr[OF fa] free_stack_itab)
qed

text \<open>Ten bytes at the position 10740 of the empty file, in its block 20.\<close>

definition sparse_write :: kst where
  "sparse_write = empty_file\<lparr>udata := (udata empty_file)\<lparr>u_base := 0x6000, u_count := 10, u_offset := \<lparr>o_blkno = 20, o_offset = 500\<rparr>\<rparr>\<rparr>"

lemma sparse_write_facts:
  "i_tab sparse_write = i_tab empty_file" "u_offset (udata sparse_write) = \<lparr>o_blkno = 20, o_offset = 500\<rparr>"
  "u_count (udata sparse_write) = 10" "u_base (udata sparse_write) = 0x6000" "free_stack sparse_write [6, 7]"
  "mem sparse_write = mem empty_file"
  using empty_file_facts(3)
  by (simp_all add: sparse_write_def free_stack_def free_list_def view_words_def[abs_def] idle_def)

theorem writei_grows_witness:
  "wp (writei [] 3) (\<lambda>_ t. \<exists>a l'. a \<le> 10 \<and> (a < 10 \<longrightarrow> l' = [] \<and> u_error (udata t) = ENOSPC) \<and>
     mset (file_blocks (bview t) (i_tab t ! 3) @ l') = {#6, 7#} \<and> off_pos (i_size (c_node (i_tab t ! 3))) = 10740 + a \<and>
     (0 < a \<longrightarrow> file_byte (bview t) (i_tab t ! 3) 10740 = mem sparse_write 0x6000)) sparse_write"
proof (rule wp_mono[OF writei_grows[where P = 10740 and n = 10, OF sparse_write_facts(5) refl]], goal_cases)
  case (13 x t)
  have c: "file_blocks V (i_tab sparse_write ! 3) = []" "off_pos (i_size (c_node (i_tab sparse_write ! 3))) = 0" for V
    by (simp_all add: sparse_write_facts(1) empty_file_facts(4))
      (simp add: empty_file_facts(1) off_pos_def zero_dinode_def zero_cinode_def zero_off_def)
  from 13 obtain a l' where "a \<le> 10" "if a = 10 then u_error (udata t) = u_error (udata sparse_write) else l' = [] \<and> u_error (udata t) = ENOSPC"
    "mset (file_blocks (bview t) (i_tab t ! 3) @ l') = {#6, 7#}" "off_pos (i_size (c_node (i_tab t ! 3))) = 10740 + a"
    and B: "\<forall>q<33554432. file_byte (bview t) (i_tab t ! 3) q = (if 10740 \<le> q \<and> q < 10740 + a
      then mem sparse_write (0x6000 + of_nat (q - 10740)) else file_byte (bview sparse_write) (i_tab sparse_write ! 3) q)"
    unfolding Let_def c sparse_write_facts(4) by auto
  moreover have "0 < a \<longrightarrow> file_byte (bview t) (i_tab t ! 3) 10740 = mem sparse_write 0x6000" using B by simp
  ultimately show ?case by (intro exI[of _ a] exI[of _ l']) (simp split: if_splits)
qed (simp_all add: sparse_write_facts empty_file_facts(2,4), simp_all add: empty_file_facts(1) zero_cinode_def getmode_def
  wf_off_def zero_dinode_def zero_off_def off_pos_def)

end
