(* ===== verification/File_Store.thy ===== *)
theory File_Store
  imports File_Grow
begin

text \<open>
  The files of a table of inodes as one store (\<open>kernel/scall1.c\<close>: \<open>readi\<close>, \<open>writei\<close>): their trees
  and the free list share out the blocks of the device, and reading or writing one file leaves
  the others alone.
\<close>

section \<open>The store\<close>

text \<open>The files with the inodes \<open>I\<close> of the table; \<open>l\<close> are the free blocks.\<close>

definition stored_file :: "cinode \<Rightarrow> bool" where
  "stored_file c \<longleftrightarrow> c_dev c = 0 \<and> (getmode c = F_REG \<or> getmode c = F_DIR) \<and> length (i_addr (c_node c)) = 20 \<and>
     wf_off (i_size (c_node c)) \<and> c_magic c = CMAGIC"

definition store_mset :: "kst \<Rightarrow> nat set \<Rightarrow> u16 multiset" where
  "store_mset s I = (\<Sum>i\<in>I. mset (file_blocks (bview s) (i_tab s ! i)))"

definition file_store :: "kst \<Rightarrow> nat set \<Rightarrow> u16 list \<Rightarrow> bool" where
  "file_store s I l \<longleftrightarrow> finite I \<and> free_stack s l \<and> (\<forall>i\<in>I. i < length (i_tab s) \<and> stored_file (i_tab s ! i)) \<and>
     clean (store_mset s I + mset l)"

text \<open>The bytes and the length of a file.\<close>

definition content :: "kst \<Rightarrow> nat \<Rightarrow> (nat \<Rightarrow> byte) \<times> nat" where
  "content s i = ((\<lambda>q. if q < 33554432 then file_byte (bview s) (i_tab s ! i) q else 0),
     off_pos (i_size (c_node (i_tab s ! i))))"

lemma store_mset_split:
  "finite I \<Longrightarrow> i \<in> I \<Longrightarrow> store_mset s I = mset (file_blocks (bview s) (i_tab s ! i)) + store_mset s (I - {i})"
  unfolding store_mset_def by (rule sum.remove)

lemma file_storeD:
  assumes "file_store s I l" and "i \<in> I"
  shows "clean (mset (file_blocks (bview s) (i_tab s ! i)) + mset l)" and "stored_file (i_tab s ! i)" and "i < length (i_tab s)"
    and "j \<in> I \<Longrightarrow> j \<noteq> i \<Longrightarrow> x \<in># mset (file_blocks (bview s) (i_tab s ! j)) \<Longrightarrow>
      unat x < 2048 \<and> x \<notin># mset (file_blocks (bview s) (i_tab s ! i)) + mset l"
proof -
  let ?M = "\<lambda>i. mset (file_blocks (bview s) (i_tab s ! i))"
  have fin: "finite I" using assms(1) by (simp add: file_store_def)
  have c: "clean ((?M i + mset l) + store_mset s (I - {i}))"
    using assms store_mset_split[OF fin assms(2), of s] by (simp add: file_store_def ac_simps)
  show "clean (?M i + mset l)" by (rule clean_sub[OF c]) simp
  show "stored_file (i_tab s ! i)" "i < length (i_tab s)" using assms by (simp_all add: file_store_def)
  assume j: "j \<in> I" "j \<noteq> i" "x \<in># ?M j"
  then have x: "x \<in># store_mset s (I - {i})" using fin store_mset_split[of "I - {i}" j s] by simp
  have c': "clean (store_mset s (I - {i}) + (?M i + mset l))" using c by (simp add: ac_simps)
  show "unat x < 2048 \<and> x \<notin># ?M i + mset l" using clean_add[OF c' x] x c by (auto simp: clean_def)
qed

text \<open>One file changes, with blocks from the free list; the others keep theirs.\<close>

lemma store_change:
  assumes s: "file_store s I l" and i: "i \<in> I" and t: "free_stack t l'" "i_tab t = (i_tab s)[i := f]" "stored_file f"
    and m: "mset (file_blocks (bview t) f) + mset l' = mset (file_blocks (bview s) (i_tab s ! i)) + mset l"
    and v: "\<And>x k. unat x < 2048 \<Longrightarrow> k < 512 \<Longrightarrow> x \<notin># mset (file_blocks (bview s) (i_tab s ! i)) + mset l \<Longrightarrow> bview t x k = bview s x k"
  shows "file_store t I l'" and "store_mset t I + mset l' = store_mset s I + mset l"
    and "j \<in> I \<Longrightarrow> j \<noteq> i \<Longrightarrow> content t j = content s j"
proof -
  have fin: "finite I" using s by (simp add: file_store_def)
  note D = file_storeD[OF s i]
  have at: "i_tab t ! i = f" "\<And>j. j \<noteq> i \<Longrightarrow> i_tab t ! j = i_tab s ! j" using t(2) D(3) by simp_all
  have same: "\<forall>x\<in>#mset (file_blocks (bview s) (i_tab s ! j)). \<forall>k<512. bview t x k = bview s x k" if "j \<in> I" "j \<noteq> i" for j
    using D(4)[OF that] v by blast
  have "store_mset t (I - {i}) = store_mset s (I - {i})"
    unfolding store_mset_def using file_view(1)[OF same] at(2) by (intro sum.cong) auto
  then show M: "store_mset t I + mset l' = store_mset s I + mset l"
    using m store_mset_split[OF fin i, of t] store_mset_split[OF fin i, of s] at(1) by (simp add: ac_simps)
  show "file_store t I l'"
    using s t D(3) at unfolding file_store_def M by (metis length_list_update)
  assume j: "j \<in> I" "j \<noteq> i"
  have cl: "clean (mset (file_blocks (bview s) (i_tab s ! j)))" using clean_sub[OF file_storeD(1)[OF s j(1)]] by simp
  have "file_byte (bview t) (i_tab s ! j) q = file_byte (bview s) (i_tab s ! j) q" if "q < 33554432" for q
    using file_byte_same[OF same[OF j] cl] that by (simp add: div_less_iff_less_mult)
  then show "content t j = content s j" using at(2)[OF j(2)] by (simp add: content_def cong: if_cong)
qed

text \<open>All of a file can be read.\<close>

lemma tree_root_in: "b \<noteq> 0 \<Longrightarrow> b \<in> set (tree_blocks V d b)"
  by (cases d) (simp, simp only: tree_blocks.simps if_False set_append, simp)

lemma clean_blk_ok:
  assumes clean: "clean (mset (file_blocks V c))" and n: "n < 65536"
  shows "blk_ok V c n"
proof -
  let ?a = "\<lambda>j. i_addr (c_node c) ! j"
  have root: "unat x < 2048" if "j < 20" "x \<in># tree_mset V (j - 17) (?a j)" for x j
    using clean entry_in_sum[OF that(1), of x "\<lambda>j. tree_mset V (j - 17) (?a j)"] that(2) by (simp add: file_mset clean_def)
  have a: "unat (?a j) < 2048" if j: "j < 20" for j
  proof (cases "?a j = 0")
    case False
    then show ?thesis using root[OF j] tree_root_in[of "?a j"] by simp
  qed simp
  have w: "unat (tree_word V (?a 19) k) < 2048" if k: "k < 256" for k
  proof (cases "tree_word V (?a 19) k = 0")
    case False
    let ?w = "tree_word V (?a 19) k"
    have "?w \<in> set (tree_blocks V (Suc (Suc 0)) (?a 19))" by (rule tree_word_in_blocks[OF False k tree_root_in[OF False]])
    then show ?thesis using root[of 19 ?w] by (simp add: numeral_2_eq_2 del: tree_blocks.simps)
  qed simp
  have "good_blk (file_blk V c n)"
    using file_leaf_in[OF n, of V c] clean by (auto simp: good_blk_def file_blk_leaf or_null_def clean_def)
  moreover have "(n - 274) div 256 < 256" using n by (simp add: div_less_iff_less_mult)
  ultimately show ?thesis using a w by (simp add: blk_ok_def Let_def)
qed

section \<open>Reading and writing in the store\<close>

lemma store_same:
  assumes s: "file_store s I l" and i: "i \<in> I" and t: "idle t" "fs_tab t = fs_tab s" "i_tab t = (i_tab s)[i := f]"
    and f: "stored_file f" "i_addr (c_node f) = i_addr (c_node (i_tab s ! i))" "i_size (c_node f) = i_size (c_node (i_tab s ! i))"
    and v: "same_view s t"
  shows "file_store t I l \<and> store_mset t I = store_mset s I \<and> (\<forall>j\<in>I. content t j = content s j)"
proof -
  let ?c = "i_tab s ! i"
  note D = file_storeD[OF s i]
  have v: "bview t x k = bview s x k" if "unat x < 2048" "k < 512" for x k using v that by (simp add: same_view_def)
  have same: "\<forall>x\<in>#mset (file_blocks (bview s) ?c). \<forall>k<512. bview t x k = bview s x k" using v D(1) by (simp add: clean_def)
  have m: "mset (file_blocks (bview t) f) = mset (file_blocks (bview s) ?c)"
    using same_addr_blocks[OF f(2)] file_view(1)[OF same] by simp
  have l: "free_stack s l" using s by (simp add: file_store_def)
  have "free_list t l"
    by (rule free_list_view[of s]) (use l t(2) v in \<open>auto simp: free_stack_def free_list_def Let_def\<close>)
  then have fl: "free_stack t l" using l t(1,2) by (simp add: free_stack_def)
  note C = store_change[OF s i fl t(3) f(1)]
  have "file_byte (bview t) f q = file_byte (bview s) ?c q" if "q < 33554432" for q
    using file_byte_same[OF same] clean_sub[OF D(1)] that by (simp add: same_addr[OF f(2)] div_less_iff_less_mult)
  then have "content t i = content s i" using t(3) D(3) f(3) by (simp add: content_def cong: if_cong)
  then show ?thesis using C m v by auto
qed

lemma off_pos_behind:
  assumes "wf_off p" and "wf_off q"
  shows "o_blkno q = o_blkno p \<and> o_offset p < o_offset q \<longleftrightarrow> off_pos q div 512 = off_pos p div 512 \<and> off_pos p < off_pos q"
  using off_pos_parts[OF assms(1)] off_pos_parts[OF assms(2)]
  by (auto simp: word_unat_eq_iff word_less_nat_alt off_pos_def)

text \<open>
  \<open>readi\<close> from any position except one behind the end in the last block of the file, for any
  count below 32768; there it overruns its buffer.
\<close>

lemma readi_store:
  assumes s: "file_store s I l" and i: "i \<in> I" and wf: "wf_off (u_offset (udata s))" and P: "P = off_pos (u_offset (udata s))"
    and g: "content s i = (g, len)" and n: "\<not> (P div 512 = len div 512 \<and> len < P)" "unat (u_count (udata s)) < 32768"
      "P + unat (u_count (udata s)) < 33554432" "n = read_amount len P (unat (u_count (udata s)))"
  shows "wp (readi env i) (\<lambda>_ t. unat (u_count (udata t)) = n \<and> off_pos (u_offset (udata t)) = P + n \<and> wf_off (u_offset (udata t)) \<and>
     mem t = copied (\<lambda>k. g (P + k)) (u_base (udata s)) (of_nat n) (mem s) \<and>
     file_store t I l \<and> store_mset t I = store_mset s I \<and> (\<forall>j\<in>I. content t j = content s j) \<and>
     i_tab t = i_tab s \<and> of_tab t = of_tab s \<and> u_files (udata t) = u_files (udata s) \<and> u_error (udata t) = u_error (udata s)) s"
proof -
  define c where "c = i_tab s ! i"
  define w where "w = read_limit c (udata s)"
  note D = file_storeD[OF s i, folded c_def]
  have c: "c_dev c = 0" "getmode c = F_REG \<or> getmode c = F_DIR" "wf_off (i_size (c_node c))" using D(2) by (simp_all add: stored_file_def)
  have idle: "idle s" using s by (simp add: file_store_def free_stack_def)
  have len: "len = off_pos (i_size (c_node c))" and g: "g = (\<lambda>q. if q < 33554432 then file_byte (bview s) c q else 0)"
    using g by (auto simp: content_def c_def)
  have "\<not> (o_blkno (u_offset (udata s)) = o_blkno (i_size (c_node c)) \<and> o_offset (i_size (c_node c)) < o_offset (u_offset (udata s)))"
    using n(1) off_pos_behind[OF c(3) wf] unfolding P len by blast
  then have w: "unat w = n" using read_limit_amount[OF c(3) wf] n P len by (simp add: w_def)
  have n2: "n \<le> unat (u_count (udata s))" using n(4) by (simp add: read_amount_def Let_def)
  have "blk_ok (bview s) c (q div 512)" if "q < P + n" for q
  proof -
    have "q < 33554432" using that n(3) n2 by linarith
    then show ?thesis using clean_blk_ok[OF clean_sub[OF D(1)]] by (simp add: div_less_iff_less_mult)
  qed
  then have ok: "\<forall>q. P \<le> q \<and> q < P + unat w \<longrightarrow> blk_ok (bview s) c (q div 512)" using w by simp
  show ?thesis
  proof (rule wp_mono[OF readi_step[OF idle c_def c(1,2) wf P w_def[symmetric] _ _ ok]], goal_cases)
    case (3 x t)
    let ?s = "s\<lparr>udata := (udata s)\<lparr>u_count := w\<rparr>\<rparr>"
    from 3 obtain p where p: "off_pos p = P + n" "wf_off p"
      and st: "cache_step (delivered (\<lambda>k. file_byte (bview s) c (P + k)) n p ?s) (bview s) t" unfolding w by blast
    note d = cache_stepD[OF st]
    have "idle ?s" using idle by (simp add: idle_def)
    then have it: "idle t" using cache_step_idle[OF st] by simp
    obtain ub where ub: "udata t = (udata (delivered (\<lambda>k. file_byte (bview s) c (P + k)) n p ?s))\<lparr>u_buf := ub\<rparr>" using d(14) by blast
    have "unat (of_nat n :: u16) = n" using n2 n(2) by (intro unat_of_small) linarith
    then have m: "copied (\<lambda>k. file_byte (bview s) c (P + k)) (u_base (udata s)) (of_nat n) (mem s) =
        copied (\<lambda>k. g (P + k)) (u_base (udata s)) (of_nat n) (mem s)"
      using n2 n(3) by (intro copied_cong) (simp add: g)
    have f: "fs_tab t = fs_tab s" "i_tab t = (i_tab s)[i := i_tab s ! i]" "same_view s t"
      using d(3,4,15) by (simp_all add: delivered_def same_view_def)
    show ?case
      using store_same[OF s i it f(1,2) D(2)[unfolded c_def] refl refl f(3)] d(4,5,10) p w m ub
      by (simp add: delivered_def)
  qed (use w n2 n(2,3) in linarith)+
qed

text \<open>The reads left out do overrun the buffer.\<close>

lemma readi_store_overrun:
  assumes s: "file_store s I l" and i: "i \<in> I" and wf: "wf_off (u_offset (udata s))" and P: "P = off_pos (u_offset (udata s))"
    and g: "content s i = (g, len)" and n: "P div 512 = len div 512 \<and> len < P \<or> 32768 \<le> unat (u_count (udata s))"
  shows "readi env i s = Halt BadAccess"
proof -
  define c where "c = i_tab s ! i"
  note D = file_storeD[OF s i, folded c_def]
  have c: "c_dev c = 0" "getmode c = F_REG \<or> getmode c = F_DIR" "wf_off (i_size (c_node c))" using D(2) by (simp_all add: stored_file_def)
  have idle: "idle s" using s by (simp add: file_store_def free_stack_def)
  have len: "len = off_pos (i_size (c_node c))" using g by (simp add: content_def c_def)
  have ok: "blk_ok (bview s) c (unat (o_blkno (u_offset (udata s))))"
    using clean_blk_ok[OF clean_sub[OF D(1)]] u16_lt by simp
  show ?thesis
  proof (cases "32768 \<le> unat (u_count (udata s))")
    case True
    then show ?thesis by (rule readi_big_count[OF idle c_def c(1,2) wf _ ok])
  next
    case False
    then have "o_blkno (u_offset (udata s)) = o_blkno (i_size (c_node c)) \<and> o_offset (i_size (c_node c)) < o_offset (u_offset (udata s))"
      using n off_pos_behind[OF c(3) wf] unfolding P len by blast
    then show ?thesis using False by (intro readi_past_end_in_block[OF idle c_def c(1,2,3) wf _ _ _ ok]) simp_all
  qed
qed

text \<open>\<open>writei\<close> at any position.\<close>

lemma writei_store:
  assumes s: "file_store s I l" and i: "i \<in> I" and wf: "wf_off (u_offset (udata s))" and P: "P = off_pos (u_offset (udata s))"
    and g: "content s i = (g, len)" and n: "n = unat (u_count (udata s))" "n < 32768" "P + n < 33554432"
  shows "wp (writei env i) (\<lambda>_ t. \<exists>a l'. a \<le> n \<and> u_error (udata t) = (if a = n then u_error (udata s) else ENOSPC) \<and>
     file_store t I l' \<and> store_mset t I + mset l' = store_mset s I + mset l \<and>
     content t i = (\<lambda>q. if P \<le> q \<and> q < P + a then mem s (u_base (udata s) + of_nat (q - P)) else g q, max len (P + a)) \<and>
     (\<forall>j\<in>I. j \<noteq> i \<longrightarrow> content t j = content s j) \<and> u_count (udata t) = u_count (udata s) \<and>
     off_pos (u_offset (udata t)) = P + a \<and> wf_off (u_offset (udata t)) \<and> mem t = mem s \<and>
     c_magic (i_tab t ! i) = CMAGIC \<and> (\<forall>j. j \<noteq> i \<longrightarrow> i_tab t ! j = i_tab s ! j) \<and>
     of_tab t = of_tab s \<and> u_files (udata t) = u_files (udata s)) s"
proof -
  define c where "c = i_tab s ! i"
  note D = file_storeD[OF s i, folded c_def]
  have c: "c_dev c = 0" "getmode c = F_REG \<or> getmode c = F_DIR" "wf_off (i_size (c_node c))" "length (i_addr (c_node c)) = 20"
    using D(2) by (simp_all add: stored_file_def)
  have fl: "free_stack s l" using s by (simp add: file_store_def)
  show ?thesis
  proof (rule wp_mono[OF writei_grow_spec[OF fl c_def c(1,2) D(3) c(4) D(1) c(3) wf P n]], goal_cases)
    case (1 x t)
    then obtain a l' d f u where a: "a \<le> n" and G: "grew i l P a s u d l'"
      and err: "if a = n then u_error (udata u) = u_error (udata s) else l' = [] \<and> u_error (udata u) = ENOSPC"
      and f: "f = grown (u_offset (udata u)) d" "off_pos (i_size (c_node f)) = max (off_pos (i_size (c_node c))) (P + a)"
        "wf_off (i_size (c_node f))" and t: "t = u\<lparr>i_tab := (i_tab s)[i := f]\<rparr>" by blast
    note T = grew_tab[OF G] and E = grewD[OF G, folded c_def]
    note K = same_but_addr_keeps[OF E(3)]
    have fa: "i_addr (c_node f) = i_addr (c_node d)" by (simp add: f(1) grown_keeps)
    have sf: "stored_file f" using D(2) K E(4) f(3) fa by (simp add: stored_file_def f(1) grown_keeps)
    have ft: "free_stack t l'" using E(1) by (simp add: t free_stack_itab)
    have it: "i_tab t = (i_tab s)[i := f]" by (simp add: t)
    have M: "mset (file_blocks (bview t) f) + mset l' = mset (file_blocks (bview s) c) + mset l"
      using E(5) same_addr_blocks[OF fa] by (simp add: t)
    have v: "bview t x k = bview s x k" if "unat x < 2048" "k < 512" "x \<notin># mset (file_blocks (bview s) c) + mset l" for x k
      using E(8)[OF that] by (simp add: t)
    note C = store_change[OF s i ft it sf M[unfolded c_def] v[unfolded c_def]]
    have "P + a < 33554432" using a n(3) by linarith
    then have "content t i = (\<lambda>q. if P \<le> q \<and> q < P + a then mem s (u_base (udata s) + of_nat (q - P)) else g q, max len (P + a))"
      using g D(3) f(2) E(6) by (auto simp: content_def t same_addr[OF fa] c_def)
    moreover have "c_magic (i_tab t ! i) = CMAGIC" using sf it D(3) by (simp add: stored_file_def)
    ultimately show ?case
      using a err C T it by (intro exI[of _ a] exI[of _ l']) (simp add: t)
  qed
qed

end
