(* ===== verification/Descriptors.thy ===== *)
theory Descriptors
  imports File_Calls
begin

text \<open>
  Properties of the calls on file descriptors: \<open>_seek\<close>, \<open>_dup\<close>, \<open>_dup2\<close> and the permission bits
  of \<open>getperm\<close>.
\<close>

section \<open>Open descriptors\<close>

text \<open>Descriptor \<open>d\<close> refers to entry \<open>i\<close> of the open file table, which has inode \<open>ino\<close>.\<close>

definition open_fd :: "kst \<Rightarrow> int \<Rightarrow> nat \<Rightarrow> nat \<Rightarrow> bool" where
  "open_fd s d i ino \<longleftrightarrow> 0 \<le> d \<and> d < 10 \<and> unat (u_files (udata s) ! nat d) = i \<and> i < OFTSIZE \<and>
     o_inode (of_tab s ! i) = Some ino \<and> c_magic (i_tab s ! ino) = CMAGIC"

lemma byte_top: "unat (b :: byte) < 128 \<Longrightarrow> b AND 0x80 = 0"
proof -
  assume b: "unat b < 128"
  have e: "(0x80 :: byte) = 2 ^ 7" by simp
  have "bit b n \<Longrightarrow> n < 7" for n using b by (intro bit_small[of b 7 n]) simp_all
  then show ?thesis unfolding e by (intro bit_word_eqI) (auto simp: bit_simps simp del: power_numeral)
qed

lemma getinode_open: "open_fd s d i ino \<Longrightarrow> getinode d s = Ret (Some ino) s"
  using byte_top[of "u_files (udata s) ! nat d"]
  by (simp add: open_fd_def getinode_def magic_def run_simps access_defs)

section \<open>seek\<close>

lemma norm_off_div:
  assumes "unat (o_offset p) < 512 * Suc n"
  shows "norm_off n p = p\<lparr>o_offset := of_nat (unat (o_offset p) mod 512),
     o_blkno := o_blkno p + of_nat (unat (o_offset p) div 512)\<rparr>"
  using assms
proof (induction n arbitrary: p)
  case 0
  then show ?case by simp
next
  case (Suc n)
  show ?case
  proof (cases "o_offset p \<ge> 512")
    case True
    then have le: "512 \<le> unat (o_offset p)" by (simp add: word_le_nat_alt)
    let ?q = "p\<lparr>o_offset := o_offset p - 512, o_blkno := o_blkno p + 1\<rparr>"
    have u: "unat (o_offset ?q) = unat (o_offset p) - 512" using le by (simp add: unat_sub_le)
    have m: "(unat (o_offset p) - 512) mod 512 = unat (o_offset p) mod 512" using le by (simp add: le_mod_geq)
    have d: "unat (o_offset p) div 512 = Suc ((unat (o_offset p) - 512) div 512)" using le by (simp add: le_div_geq)
    have "norm_off n ?q = ?q\<lparr>o_offset := of_nat (unat (o_offset ?q) mod 512),
       o_blkno := o_blkno ?q + of_nat (unat (o_offset ?q) div 512)\<rparr>"
      by (rule Suc.IH) (simp only: u, use Suc.prems le in simp)
    then show ?thesis using True by (simp only: norm_off.simps if_True u m d) simp
  next
    case False
    then have lt: "unat (o_offset p) < 512" by (simp add: word_le_nat_alt)
    then show ?thesis using False by simp
  qed
qed

lemma norm_off_pos: "off_pos (norm_off 127 p) = off_pos p mod 33554432 \<and> wf_off (norm_off 127 p)"
proof -
  define x where "x = unat (o_offset p)"
  define b where "b = unat (o_blkno p)"
  have e: "norm_off 127 p = p\<lparr>o_offset := of_nat (x mod 512), o_blkno := o_blkno p + of_nat (x div 512)\<rparr>"
    unfolding x_def by (rule norm_off_div) (use u16_lt[of "o_offset p"] in simp)
  have o: "unat (of_nat (x mod 512) :: u16) = x mod 512" by (rule unat_of_small) (rule less_trans[of _ 512], simp_all)
  have "x div 512 < 65536" using u16_lt[of "o_offset p"] unfolding x_def by (rule le_less_trans[OF div_le_dividend])
  then have "unat (o_blkno p + of_nat (x div 512)) = (b + x div 512) mod 65536"
    by (simp add: unat_word_ariths b_def unat_of_small)
  moreover have "512 * ((b + x div 512) mod 65536) + x mod 512 = (512 * b + x) mod 33554432"
  proof -
    have "(512 * b + x) mod (512 * 65536) = 512 * ((512 * b + x) div 512 mod 65536) + (512 * b + x) mod 512"
      by (rule mod_mult2_eq)
    moreover have "(512 * b + x) div 512 = b + x div 512" "(512 * b + x) mod 512 = x mod 512" by simp_all
    ultimately show ?thesis by simp
  qed
  ultimately show ?thesis by (simp add: e off_pos_def wf_off_def o x_def[symmetric] b_def[symmetric])
qed

text \<open>
  \<open>_seek\<close> on an open file that is not a pipe gives back the old offset or block and leaves the
  requested position with an offset below 512: the offset from the start, or added to the current
  or final offset in 16 bits, for flags 0 to 2; the block likewise for 3 to 5. Any other flag is
  \<open>EINVAL\<close> and changes no position.
\<close>

lemma seek_run:
  assumes "open_fd s d e i" and "getmode (i_tab s ! i) \<noteq> F_PIPE"
  shows "sys_seek d offset flag s = (case seek_to flag offset (i_size (c_node (i_tab s ! i))) (o_ptr (of_tab s ! e)) of
     None \<Rightarrow> Ret (- 1) (s\<lparr>udata := (udata s)\<lparr>u_error := EINVAL\<rparr>\<rparr>)
   | Some p \<Rightarrow> Ret (sint (if flag \<le> 2 then o_offset (o_ptr (of_tab s ! e)) else o_blkno (o_ptr (of_tab s ! e))))
       (s\<lparr>of_tab := (of_tab s)[e := (of_tab s ! e)\<lparr>o_ptr := norm_off 127 p\<rparr>]\<rparr>))"
proof -
  have e: "e < OFTSIZE" "unat (u_files (udata s) ! nat d) = e" using assms(1) by (simp_all add: open_fd_def)
  show ?thesis
    using getinode_open[OF assms(1)] e assms(2)
    by (auto simp: sys_seek_def run_simps access_defs fail_def Let_def split: option.split)
qed

text \<open>Descriptor 2 is the open file 4, whose inode is entry 3 of the table, a regular file.\<close>

definition one_open :: kst where
  "one_open = bss\<lparr>udata := (udata bss)\<lparr>u_files := [0xFF, 0xFF, 4, 0xFF, 0xFF, 0xFF, 0xFF, 0xFF, 0xFF, 0xFF]\<rparr>,
     of_tab := (of_tab bss)[4 := zero_oft\<lparr>o_inode := Some 3, o_refs := 2, o_ptr := \<lparr>o_blkno = 1, o_offset = 7\<rparr>\<rparr>],
     i_tab := (i_tab bss)[3 := zero_cinode\<lparr>c_magic := CMAGIC, c_refs := 1, c_node := zero_dinode\<lparr>i_mode := F_REG\<rparr>\<rparr>]\<rparr>"

lemma one_open_at:
  "i_tab one_open ! 3 = zero_cinode\<lparr>c_magic := CMAGIC, c_refs := 1, c_node := zero_dinode\<lparr>i_mode := F_REG\<rparr>\<rparr>"
  "of_tab one_open ! 4 = zero_oft\<lparr>o_inode := Some 3, o_refs := 2, o_ptr := \<lparr>o_blkno = 1, o_offset = 7\<rparr>\<rparr>"
  "u_files (udata one_open) = [0xFF, 0xFF, 4, 0xFF, 0xFF, 0xFF, 0xFF, 0xFF, 0xFF, 0xFF]" "length (of_tab one_open) = OFTSIZE"
  "i < OFTSIZE \<Longrightarrow> i \<noteq> 4 \<Longrightarrow> of_tab one_open ! i = zero_oft"
  by (simp_all add: one_open_def bss_def)

lemma one_open_fd: "open_fd one_open 2 4 3"
  by (simp add: open_fd_def one_open_at zero_oft_def)

section \<open>dup\<close>

text \<open>
  The reference count of an open file is the number of descriptors that refer to it, here and in
  the processes that are not running (\<open>other\<close>).
\<close>

definition fd_count :: "byte list \<Rightarrow> nat \<Rightarrow> nat" where
  "fd_count files i = length (filter (\<lambda>v. unat v = i) files)"

definition oft_counts :: "(nat \<Rightarrow> nat) \<Rightarrow> kst \<Rightarrow> bool" where
  "oft_counts other s \<longleftrightarrow> (\<forall>i<OFTSIZE. unat (o_refs (of_tab s ! i)) = fd_count (u_files (udata s)) i + other i)"

lemma fd_count_update:
  "d < length files \<Longrightarrow> fd_count (files[d := v]) i + (if unat (files ! d) = i then 1 else 0) =
     fd_count files i + (if unat v = i then 1 else 0)"
proof (induction files arbitrary: d)
  case (Cons a files)
  then show ?case by (cases d) (auto simp: fd_count_def)
qed simp

lemma byte_top_ge: "(b :: byte) AND 0x80 \<noteq> 0 \<Longrightarrow> 128 \<le> unat b"
  using byte_top[of b] by (cases "unat b < 128") auto

text \<open>\<open>_dup\<close> takes the lowest closed descriptor.\<close>

lemma dup_run:
  assumes "open_fd s d e i" and "length (u_files (udata s)) = UFTSIZE"
  shows "sys_dup d s = (case find (\<lambda>j. u_files (udata s) ! j AND 0x80 \<noteq> 0) [0..<UFTSIZE] of
     None \<Rightarrow> Ret (- 1) (s\<lparr>udata := (udata s)\<lparr>u_error := ENFILE\<rparr>\<rparr>)
   | Some j \<Rightarrow> Ret (int j) (s\<lparr>udata := (udata s)\<lparr>u_files := (u_files (udata s))[j := u_files (udata s) ! nat d]\<rparr>,
       of_tab := (of_tab s)[e := (of_tab s ! e)\<lparr>o_refs := o_refs (of_tab s ! e) + 1\<rparr>]\<rparr>))"
proof (cases "find (\<lambda>j. u_files (udata s) ! j AND 0x80 \<noteq> 0) [0..<UFTSIZE]")
  case None
  then show ?thesis
    using getinode_open[OF assms(1)] by (simp add: sys_dup_def uf_alloc_def run_simps access_defs fail_def del: upt_Suc)
next
  case (Some j)
  note o = assms(1)[unfolded open_fd_def]
  have "j < UFTSIZE" "nat d \<noteq> j" using Some o byte_top_ge[of "u_files (udata s) ! j"] by (auto simp: find_Some_iff)
  then show ?thesis
    using getinode_open[OF assms(1)] Some o
    by (simp add: sys_dup_def uf_alloc_def run_simps access_defs share_oft_def set_ufile_def del: upt_Suc)
qed

text \<open>
  C29: \<open>_dup\<close> keeps the reference counts of the open files equal to the number of descriptors
  that refer to them. It takes the lowest closed descriptor and makes it refer to the same open
  file, so that the position is shared; with none closed it fails with \<open>ENFILE\<close> and changes
  neither table.
\<close>

theorem dup_keeps_counts:
  assumes "open_fd s d i ino" and "oft_counts other s" and "length (u_files (udata s)) = UFTSIZE"
    and "length (of_tab s) = OFTSIZE" and "unat (o_refs (of_tab s ! i)) < 255"
  shows "wp (sys_dup d) (\<lambda>r t. oft_counts other t \<and>
     (if \<exists>j<UFTSIZE. u_files (udata s) ! j AND 0x80 \<noteq> 0
      then \<exists>j<UFTSIZE. r = int j \<and> u_files (udata s) ! j AND 0x80 \<noteq> 0 \<and> (\<forall>k<j. u_files (udata s) ! k AND 0x80 = 0) \<and>
        u_files (udata t) = (u_files (udata s))[j := u_files (udata s) ! nat d] \<and> open_fd t (int j) i ino
      else r = - 1 \<and> u_error (udata t) = ENFILE \<and> u_files (udata t) = u_files (udata s) \<and> of_tab t = of_tab s)) s"
    (is "wp _ ?Q s")
proof -
  note o = assms(1)[unfolded open_fd_def]
  show ?thesis
  proof (cases "find (\<lambda>j. u_files (udata s) ! j AND 0x80 \<noteq> 0) [0..<UFTSIZE]")
    case None
    then have no: "\<not> (\<exists>j<UFTSIZE. u_files (udata s) ! j AND 0x80 \<noteq> 0)" by (auto simp: find_None_iff)
    have "sys_dup d s = Ret (- 1) (s\<lparr>udata := (udata s)\<lparr>u_error := ENFILE\<rparr>\<rparr>)"
      using dup_run[OF assms(1,3)] None by simp
    then show ?thesis using no assms(2) by (simp add: wp_def oft_counts_def)
  next
    case (Some j)
    then have j: "j < UFTSIZE" "u_files (udata s) ! j AND 0x80 \<noteq> 0" "\<forall>k<j. u_files (udata s) ! k AND 0x80 = 0"
      by (auto simp: find_Some_iff)
    define t where "t = s\<lparr>udata := (udata s)\<lparr>u_files := (u_files (udata s))[j := u_files (udata s) ! nat d]\<rparr>,
        of_tab := (of_tab s)[i := (of_tab s ! i)\<lparr>o_refs := o_refs (of_tab s ! i) + 1\<rparr>]\<rparr>"
    have "sys_dup d s = Ret (int j) t"
      using dup_run[OF assms(1,3)] Some by (simp add: t_def)
    moreover have "oft_counts other t"
      unfolding oft_counts_def
    proof (intro allI impI)
      fix k assume k: "k < OFTSIZE"
      have "fd_count (u_files (udata t)) k = fd_count (u_files (udata s)) k + (if k = i then 1 else 0)"
        using fd_count_update[of j "u_files (udata s)" "u_files (udata s) ! nat d" k] j(1) k o assms(3)
          byte_top_ge[OF j(2)] by (auto simp: t_def split: if_splits)
      moreover have "unat (o_refs (of_tab t ! k)) = unat (o_refs (of_tab s ! k)) + (if k = i then 1 else 0)"
        using k assms(4,5) by (simp add: t_def nth_list_update unat_word_ariths)
      ultimately show "unat (o_refs (of_tab t ! k)) = fd_count (u_files (udata t)) k + other k"
        using assms(2) k unfolding oft_counts_def by simp
    qed
    moreover have "open_fd t (int j) i ino"
      using o j(1) assms(3,4) by (simp add: open_fd_def t_def)
    ultimately show ?thesis using j by (auto simp: wp_def t_def)
  qed
qed

theorem dup_keeps_counts_witness:
  "wp (sys_dup 2) (\<lambda>r t. r = 0 \<and> open_fd t 0 4 3 \<and> o_refs (of_tab t ! 4) = 3) one_open"
proof -
  have "oft_counts (\<lambda>i. if i = 4 then 1 else 0) one_open"
    unfolding oft_counts_def
  proof (intro allI impI)
    fix i assume "i < OFTSIZE"
    then show "unat (o_refs (of_tab one_open ! i)) = fd_count (u_files (udata one_open)) i + (if i = 4 then 1 else 0)"
      by (cases "i = 4") (auto simp: one_open_at zero_oft_def fd_count_def)
  qed
  note D = dup_keeps_counts[OF one_open_fd this]
  have c: "\<exists>j<UFTSIZE. u_files (udata one_open) ! j AND 0x80 \<noteq> 0" by (intro exI[of _ 0]) (simp add: one_open_at)
  show ?thesis
  proof (rule wp_mono[OF D[unfolded if_P[OF c]]])
    fix r t
    assume A: "oft_counts (\<lambda>i. if i = 4 then 1 else 0) t \<and>
      (\<exists>j<UFTSIZE. r = int j \<and> u_files (udata one_open) ! j AND 0x80 \<noteq> 0 \<and> (\<forall>k<j. u_files (udata one_open) ! k AND 0x80 = 0) \<and>
        u_files (udata t) = (u_files (udata one_open))[j := u_files (udata one_open) ! nat 2] \<and> open_fd t (int j) 4 3)"
    then obtain j where j: "r = int j" "\<forall>k<j. u_files (udata one_open) ! k AND 0x80 = 0"
      "u_files (udata t) = (u_files (udata one_open))[j := u_files (udata one_open) ! nat 2]" "open_fd t (int j) 4 3" by blast
    have "j = 0" using j(2) by (cases j) (auto simp: one_open_at)
    moreover have "unat (o_refs (of_tab t ! 4)) = 3"
      using A j(3) \<open>j = 0\<close> by (simp add: oft_counts_def one_open_at fd_count_def)
    then have "o_refs (of_tab t ! 4) = 3" by (simp add: word_unat_eq_iff)
    ultimately show "r = 0 \<and> open_fd t 0 4 3 \<and> o_refs (of_tab t ! 4) = 3" using j by simp
  qed (simp_all add: one_open_at)
qed

text \<open>
  \<open>_dup2\<close> of an open descriptor onto itself does not leave it alone, as it should: it closes
  the descriptor and then takes the mark of the closed one for an index into the open file table.
\<close>

theorem dup2_self:
  assumes "open_fd s d i ino" and "\<not> isdevice (i_tab s ! ino)" and "o_refs (of_tab s ! i) \<noteq> 1"
    and "length (u_files (udata s)) = UFTSIZE" and "length (of_tab s) = OFTSIZE"
  shows "sys_dup2 d d s = Halt BadAccess"
proof -
  note o = assms(1)[unfolded open_fd_def]
  have top: "u_files (udata s) ! nat d AND 0x80 = 0" using o byte_top[of "u_files (udata s) ! nat d"] by simp
  have nz: "o_refs (of_tab s ! i) - 1 \<noteq> 0" using assms(3) by simp
  have "doclose d s = Ret 0 (s\<lparr>udata := (udata s)\<lparr>u_files := (u_files (udata s))[nat d := - 1]\<rparr>,
     of_tab := (of_tab s)[i := (of_tab s ! i)\<lparr>o_refs := o_refs (of_tab s ! i) - 1\<rparr>]\<rparr>)"
    using getinode_open[OF assms(1)] o assms(2,5) nz
    by (simp add: doclose_def oft_deref_def set_ufile_def run_simps access_defs)
  moreover have "unat (- 1 :: byte) = 255" by (simp add: unsigned_minus_1_eq_mask mask_eq_exp_minus_1)
  ultimately show ?thesis
    using getinode_open[OF assms(1)] o top assms(4)
    by (simp add: nat_less_iff sys_dup2_def share_oft_def set_ufile_def run_simps access_defs)
qed

theorem dup2_self_witness: "sys_dup2 2 2 one_open = Halt BadAccess"
  by (rule dup2_self[OF one_open_fd]) (simp_all add: one_open_at isdevice_def zero_cinode_def zero_oft_def)

section \<open>Permissions\<close>

lemma bit_7: "k < 3 \<Longrightarrow> bit (7 :: u16) k"
proof -
  assume "k < 3"
  then have "k = 0 \<or> k = 1 \<or> k = 2" by linarith
  then show ?thesis by (auto simp: bit_numeral_rec)
qed

text \<open>
  C40: \<open>getperm\<close> answers with the three permission bits and nothing else: each is set for the
  super-user, and otherwise exactly when the mode has it for the first class the process belongs
  to - owner, group, others.
\<close>

theorem getperm_bits:
  "unat (getperm c s) < 8 \<and> (\<forall>k<3. bit (getperm c s) k \<longleftrightarrow> super s \<or>
     bit (i_mode (c_node c)) (k + (if i_uid (c_node c) = u_euid (udata s) then 6
       else if i_gid (c_node c) = u_egid (udata s) then 3 else 0)))"
proof -
  have lt: "unat (w AND 7 :: u16) < 8" for w
  proof -
    have "w AND 7 = take_bit 3 w" by (simp add: take_bit_eq_mask mask_eq_exp_minus_1)
    moreover have "unat (take_bit 3 w) < 2 ^ 3" by (simp only: unsigned_take_bit_eq take_bit_nat_less_exp)
    ultimately show ?thesis by simp
  qed
  have "unat (getperm c s) < 8" unfolding getperm_def Let_def using lt by auto
  moreover have "bit (getperm c s) k \<longleftrightarrow> super s \<or>
     bit (i_mode (c_node c)) (k + (if i_uid (c_node c) = u_euid (udata s) then 6
       else if i_gid (c_node c) = u_egid (udata s) then 3 else 0))" if "k < 3" for k
    using bit_7[OF that] unfolding getperm_def Let_def by (auto simp: bit_and_iff bit_drop_bit_eq add.commute)
  ultimately show ?thesis by blast
qed

theorem getperm_bits_witness:
  "unat (getperm (zero_cinode\<lparr>c_node := zero_dinode\<lparr>i_mode := 0x1A4, i_uid := 5\<rparr>\<rparr>)
     (bss\<lparr>udata := (udata bss)\<lparr>u_euid := 5\<rparr>\<rparr>)) < 8"
  using getperm_bits[of "zero_cinode\<lparr>c_node := zero_dinode\<lparr>i_mode := 0x1A4, i_uid := 5\<rparr>\<rparr>"
      "bss\<lparr>udata := (udata bss)\<lparr>u_euid := 5\<rparr>\<rparr>"] by blast

end
