(* ===== verification/File_Sessions.thy ===== *)
theory File_Sessions
  imports File_Store Descriptors
begin

text \<open>
  A process at work on its open files (\<open>kernel/scall1.c\<close>, \<open>kernel/scall1b.c\<close>: \<open>_read\<close>,
  \<open>_write\<close>, \<open>_seek\<close>, \<open>_dup\<close>): sequences of these calls against files that are arrays of bytes
  with a length, open files that are positions in them, and descriptors that name open files,
  and the calls with which the kernel overruns its buffer.
\<close>

section \<open>Sequences of calls\<close>

primrec run_calls :: "('c \<Rightarrow> ('s, 'r) kop) \<Rightarrow> 'c list \<Rightarrow> ('s, 'r list) kop" where
  "run_calls call [] = retK []"
| "run_calls call (c # cs) = bindK (call c) (\<lambda>r. bindK (run_calls call cs) (\<lambda>rs. retK (r # rs)))"

text \<open>What a specification, which may leave a choice, allows for a sequence; and when it speaks of it.\<close>

primrec run_spec :: "('c \<Rightarrow> 'a \<Rightarrow> 'a \<Rightarrow> 'r \<Rightarrow> bool) \<Rightarrow> 'c list \<Rightarrow> 'a \<Rightarrow> 'a \<Rightarrow> 'r list \<Rightarrow> bool" where
  "run_spec spec [] a a' rs \<longleftrightarrow> a' = a \<and> rs = []"
| "run_spec spec (c # cs) a a' rs \<longleftrightarrow> (\<exists>b r qs. spec c a b r \<and> run_spec spec cs b a' qs \<and> rs = r # qs)"

primrec run_legal :: "('c \<Rightarrow> 'a \<Rightarrow> 'a \<Rightarrow> 'r \<Rightarrow> bool) \<Rightarrow> ('c \<Rightarrow> 'a \<Rightarrow> bool) \<Rightarrow> 'c list \<Rightarrow> 'a \<Rightarrow> bool" where
  "run_legal spec legal [] a \<longleftrightarrow> True"
| "run_legal spec legal (c # cs) a \<longleftrightarrow> legal c a \<and> (\<forall>b r. spec c a b r \<longrightarrow> run_legal spec legal cs b)"

locale call_simulation =
  fixes call :: "'c \<Rightarrow> ('s, 'r) kop"
    and spec :: "'c \<Rightarrow> 'a \<Rightarrow> 'a \<Rightarrow> 'r \<Rightarrow> bool"
    and legal :: "'c \<Rightarrow> 'a \<Rightarrow> bool"
    and rel :: "'s \<Rightarrow> 'a \<Rightarrow> bool"
  assumes call_law: "rel s a \<Longrightarrow> legal c a \<Longrightarrow> wp (call c) (\<lambda>r t. \<exists>b. spec c a b r \<and> rel t b) s"
begin

lemma run_law:
  "rel s a \<Longrightarrow> run_legal spec legal cs a \<Longrightarrow> wp (run_calls call cs) (\<lambda>rs t. \<exists>b. run_spec spec cs a b rs \<and> rel t b) s"
proof (induction cs arbitrary: s a)
  case (Cons c cs)
  have "wp (call c) (\<lambda>r. wp (run_calls call cs) (\<lambda>rs t. \<exists>b. run_spec spec (c # cs) a b (r # rs) \<and> rel t b)) s"
  proof (rule wp_mono[OF call_law[OF Cons.prems(1)]])
    show "legal c a" using Cons.prems(2) by simp
    fix r t assume "\<exists>b. spec c a b r \<and> rel t b"
    then obtain b where b: "spec c a b r" "rel t b" by blast
    then have "run_legal spec legal cs b" using Cons.prems(2) by auto
    then show "wp (run_calls call cs) (\<lambda>rs t. \<exists>b. run_spec spec (c # cs) a b (r # rs) \<and> rel t b) t"
      by (rule wp_mono[OF Cons.IH[OF b(2)]]) (use b(1) in auto)
  qed
  then show ?case by simp
qed simp

end

section \<open>The calls and what they do to files\<close>

datatype fd_call = Read int u16 u16 | Write int u16 u16 | Seek int u16 int | Dup int

primrec do_call :: "fd_call \<Rightarrow> int k" where
  "do_call (Read d buf n) = sys_read [] d buf n"
| "do_call (Write d buf n) = sys_write [] d buf n"
| "do_call (Seek d offset flag) = sys_seek d offset flag"
| "do_call (Dup d) = sys_dup d"

primrec call_fd :: "fd_call \<Rightarrow> int" where
  "call_fd (Read d buf n) = d" | "call_fd (Write d buf n) = d" | "call_fd (Seek d offset flag) = d" | "call_fd (Dup d) = d"

text \<open>
  What the process sees: its memory, the bytes and the length of each file by inode, position,
  inode and mode of each open file, its descriptors and the error number.
\<close>

record fd_view =
  v_mem :: "u16 \<Rightarrow> byte"
  v_file :: "nat \<Rightarrow> (nat \<Rightarrow> byte) \<times> nat"
  v_pos :: "nat \<Rightarrow> nat"
  v_ino :: "nat \<Rightarrow> nat option"
  v_acc :: "nat \<Rightarrow> int"
  v_fds :: "byte list"
  v_err :: int

definition fd_target :: "byte list \<Rightarrow> int \<Rightarrow> nat option" where
  "fd_target fds d = (if d < 0 \<or> d \<ge> 10 \<or> fds ! nat d AND 0x80 \<noteq> 0 then None else Some (unat (fds ! nat d)))"

definition fails :: "int \<Rightarrow> fd_view \<Rightarrow> fd_view \<Rightarrow> int \<Rightarrow> bool" where
  "fails e v v' r \<longleftrightarrow> r = - 1 \<and> v' = v\<lparr>v_err := e\<rparr>"

text \<open>Positions and lengths as numbers of bytes; the sums are those of 16-bit offsets and blocks.\<close>

definition seek_pos :: "int \<Rightarrow> nat \<Rightarrow> nat \<Rightarrow> nat \<Rightarrow> nat option" where
  "seek_pos flag off len P =
     (if flag = 0 then Some off
      else if flag = 1 then Some ((512 * (P div 512) + (P mod 512 + off) mod 65536) mod 33554432)
      else if flag = 2 then Some ((512 * (len div 512) + (len mod 512 + off) mod 65536) mod 33554432)
      else if flag = 3 then Some (512 * off + P mod 512)
      else if flag = 4 then Some (512 * ((P div 512 + off) mod 65536) + P mod 512)
      else if flag = 5 then Some (512 * ((len div 512 + off) mod 65536) + P mod 512)
      else None)"

text \<open>\<open>a\<close> bytes taken from a file into memory at \<open>buf\<close>, or put into it from there.\<close>

definition get_bytes :: "fd_view \<Rightarrow> nat \<Rightarrow> u16 \<Rightarrow> nat \<Rightarrow> fd_view" where
  "get_bytes v e buf a = (let P = v_pos v e in
     v\<lparr>v_mem := copied (\<lambda>k. fst (v_file v (the (v_ino v e))) (P + k)) buf (of_nat a) (v_mem v), v_pos := (v_pos v)(e := P + a)\<rparr>)"

definition put_bytes :: "fd_view \<Rightarrow> nat \<Rightarrow> u16 \<Rightarrow> nat \<Rightarrow> fd_view" where
  "put_bytes v e buf a = (let i = the (v_ino v e); (g, len) = v_file v i; P = v_pos v e in
     v\<lparr>v_file := (v_file v)(i := (\<lambda>q. if P \<le> q \<and> q < P + a then v_mem v (buf + of_nat (q - P)) else g q, max len (P + a))),
       v_pos := (v_pos v)(e := P + a)\<rparr>)"

text \<open>
  A read delivers \<open>read_amount\<close> bytes: those up to the end of the file, or as many as asked for
  (\<open>read_amount_inside\<close>); behind the last block of the file nothing limits it, and it
  delivers what the array holds there. A write moves the position by the \<open>a\<close> bytes for which there was
  room, but answers with all.
\<close>

primrec fd_spec :: "fd_call \<Rightarrow> fd_view \<Rightarrow> fd_view \<Rightarrow> int \<Rightarrow> bool" where
  "fd_spec (Read d buf n) v v' r = (case fd_target (v_fds v) d of
     None \<Rightarrow> fails EBADF v v' r
   | Some e \<Rightarrow> if v_acc v e = O_WRONLY then fails EBADF v v' r
       else (let a = read_amount (snd (v_file v (the (v_ino v e)))) (v_pos v e) (unat n) in r = int a \<and> v' = get_bytes v e buf a))"
| "fd_spec (Write d buf n) v v' r = (case fd_target (v_fds v) d of
     None \<Rightarrow> fails EBADF v v' r
   | Some e \<Rightarrow> if v_acc v e = O_RDONLY then fails EBADF v v' r
       else (\<exists>a\<le>unat n. r = int (unat n) \<and>
         v' = (put_bytes v e buf a)\<lparr>v_err := (if a = unat n then v_err v else ENOSPC)\<rparr>))"
| "fd_spec (Seek d offset flag) v v' r = (case fd_target (v_fds v) d of
     None \<Rightarrow> fails EBADF v v' r
   | Some e \<Rightarrow> (let P = v_pos v e in
       case seek_pos flag (unat offset) (snd (v_file v (the (v_ino v e)))) P of
         None \<Rightarrow> fails EINVAL v v' r
       | Some p \<Rightarrow> r = sint (of_nat (if flag \<le> 2 then P mod 512 else P div 512) :: u16) \<and> v' = v\<lparr>v_pos := (v_pos v)(e := p)\<rparr>))"
| "fd_spec (Dup d) v v' r = (case fd_target (v_fds v) d of
     None \<Rightarrow> fails EBADF v v' r
   | Some e \<Rightarrow> (case find (\<lambda>j. v_fds v ! j AND 0x80 \<noteq> 0) [0..<UFTSIZE] of
         None \<Rightarrow> fails ENFILE v v' r
       | Some j \<Rightarrow> r = int j \<and> v' = v\<lparr>v_fds := (v_fds v)[j := v_fds v ! nat d]\<rparr>))"

text \<open>
  Calls on files of the store that do not make the kernel run out of its buffer or of block
  numbers. A count of 32768 or more is negative for \<open>min\<close>, and a read behind the end of the
  file but still in its last block has a negative number of bytes left: both copy over the end of
  the buffer (\<open>read_overruns\<close> for the reads). At byte 33554432 the 16-bit block number wraps around.
\<close>

definition fd_legal :: "nat set \<Rightarrow> fd_call \<Rightarrow> fd_view \<Rightarrow> bool" where
  "fd_legal I c v \<longleftrightarrow> (case fd_target (v_fds v) (call_fd c) of
     None \<Rightarrow> True
   | Some e \<Rightarrow> e < OFTSIZE \<and> (case v_ino v e of None \<Rightarrow> False | Some i \<Rightarrow> i \<in> I \<and> (case c of
        Read d buf n \<Rightarrow> \<not> (v_pos v e div 512 = snd (v_file v i) div 512 \<and> snd (v_file v i) < v_pos v e) \<and>
          unat n < 32768 \<and> v_pos v e + unat n < 33554432
      | Write d buf n \<Rightarrow> unat n < 32768 \<and> v_pos v e + unat n < 33554432
      | _ \<Rightarrow> True)))"

definition view_of :: "nat set \<Rightarrow> kst \<Rightarrow> fd_view" where
  "view_of I s = \<lparr>v_mem = mem s, v_file = (\<lambda>i. if i \<in> I then content s i else (\<lambda>_. 0, 0)),
     v_pos = (\<lambda>e. off_pos (o_ptr (of_tab s ! e))), v_ino = (\<lambda>e. o_inode (of_tab s ! e)),
     v_acc = (\<lambda>e. o_access (of_tab s ! e)), v_fds = u_files (udata s), v_err = u_error (udata s)\<rparr>"

definition fd_tables :: "kst \<Rightarrow> bool" where
  "fd_tables s \<longleftrightarrow> length (of_tab s) = OFTSIZE \<and> length (u_files (udata s)) = UFTSIZE \<and>
     (\<forall>e<OFTSIZE. o_inode (of_tab s ! e) \<noteq> None \<longrightarrow> wf_off (o_ptr (of_tab s ! e)))"

definition fd_rel :: "nat set \<Rightarrow> u16 multiset \<Rightarrow> kst \<Rightarrow> fd_view \<Rightarrow> bool" where
  "fd_rel I B s v \<longleftrightarrow> v = view_of I s \<and> fd_tables s \<and> (\<exists>l. file_store s I l \<and> store_mset s I + mset l = B)"

section \<open>The beginning of a call\<close>

lemma getinode_none: "fd_target (u_files (udata s)) d = None \<Longrightarrow>
   getinode d s = Ret None (s\<lparr>udata := (udata s)\<lparr>u_error := EBADF\<rparr>\<rparr>)"
  by (auto simp: fd_target_def getinode_def run_simps access_defs split: if_splits)

text \<open>What \<open>rwsetup\<close> does to the inode of an open file.\<close>

definition timed :: "bool \<Rightarrow> uzi_time \<Rightarrow> cinode \<Rightarrow> cinode" where
  "timed rd t c = (let n = (c_node c)\<lparr>i_atime := t\<rparr> in
     c\<lparr>c_dirty := 1, c_node := (if rd then n else n\<lparr>i_mtime := t, i_ctime := t\<rparr>)\<rparr>)"

lemma timed_keeps:
  "i_addr (c_node (timed rd t c)) = i_addr (c_node c)" "i_size (c_node (timed rd t c)) = i_size (c_node c)"
  "stored_file (timed rd t c) = stored_file c" "c_magic (timed rd t c) = c_magic c" "getmode (timed rd t c) = getmode c"
  by (simp_all add: timed_def stored_file_def getmode_def Let_def)

definition set_up :: "int \<Rightarrow> nat \<Rightarrow> nat \<Rightarrow> u16 \<Rightarrow> u16 \<Rightarrow> bool \<Rightarrow> kst \<Rightarrow> kst" where
  "set_up d e i buf n rd s = s\<lparr>i_tab := (i_tab s)[i := timed rd (rdtime s) (i_tab s ! i)],
     udata := (udata s)\<lparr>u_base := buf, u_count := n, u_offset := o_ptr (of_tab s ! e)\<rparr>\<rparr>"

lemma rwsetup_closed: "fd_target (u_files (udata s)) d = None \<Longrightarrow>
   rwsetup d buf n rd s = Ret None (s\<lparr>udata := (udata s)\<lparr>u_base := buf, u_count := n, u_error := EBADF\<rparr>\<rparr>)"
  by (simp add: rwsetup_def run_simps access_defs getinode_none)

lemma rwsetup_open:
  assumes "open_fd s d e i" and "i < length (i_tab s)"
  shows "rwsetup d buf n rd s = (if o_access (of_tab s ! e) = (if rd then O_WRONLY else O_RDONLY)
     then Ret None (s\<lparr>udata := (udata s)\<lparr>u_base := buf, u_count := n, u_error := EBADF\<rparr>\<rparr>)
     else Ret (Some i) (set_up d e i buf n rd s))"
proof -
  have o: "open_fd (s\<lparr>udata := (udata s)\<lparr>u_base := buf, u_count := n\<rparr>\<rparr>) d e i" using assms(1) by (simp add: open_fd_def)
  have e: "unat (u_files (udata s) ! nat d) = e" "e < OFTSIZE" using assms(1) by (simp_all add: open_fd_def)
  show ?thesis
    using e assms(2) getinode_open[OF o]
    by (cases rd) (simp_all add: rwsetup_def run_simps access_defs set_up_def setftime_def timed_def rdtime_def Let_def)
qed

text \<open>A legal call on a descriptor that is open.\<close>

lemma fd_open:
  assumes r: "fd_rel I B s v" and "fd_legal I c v" and t: "fd_target (v_fds v) (call_fd c) = Some e"
  shows "\<exists>i. i \<in> I \<and> v_ino v e = Some i \<and> open_fd s (call_fd c) e i \<and> e < OFTSIZE \<and> wf_off (o_ptr (of_tab s ! e)) \<and>
     i < length (i_tab s) \<and> stored_file (i_tab s ! i)"
proof -
  obtain l where l: "file_store s I l" and v: "v = view_of I s" "fd_tables s" using r by (auto simp: fd_rel_def)
  obtain i where i: "i \<in> I" "v_ino v e = Some i" "e < OFTSIZE"
    using assms(2) t by (auto simp: fd_legal_def split: option.splits)
  note D = file_storeD(2,3)[OF l i(1)]
  have o: "o_inode (of_tab s ! e) = Some i" using i(2) v(1) by (simp add: view_of_def)
  then have "wf_off (o_ptr (of_tab s ! e))" using v(2) i(3) by (auto simp: fd_tables_def)
  moreover have "open_fd s (call_fd c) e i"
    using t i(3) o D(1) v(1) by (auto simp: fd_target_def open_fd_def view_of_def stored_file_def split: if_splits)
  ultimately show ?thesis using i D by blast
qed

lemma store_set_up:
  assumes s: "file_store s I l" and i: "i \<in> I"
  shows "file_store (set_up d e i buf n rd s) I l \<and> store_mset (set_up d e i buf n rd s) I = store_mset s I \<and>
     (\<forall>j\<in>I. content (set_up d e i buf n rd s) j = content s j)"
proof (rule store_same[OF s i, where f = "timed rd (rdtime s) (i_tab s ! i)"])
  show "stored_file (timed rd (rdtime s) (i_tab s ! i))" using file_storeD(2)[OF s i] by (simp add: timed_keeps)
  show "idle (set_up d e i buf n rd s)" using s by (simp add: file_store_def free_stack_def idle_def set_up_def)
qed (simp_all add: timed_keeps set_up_def same_view_def)

section \<open>Each call does what it should\<close>

lemma store_frame:
  "file_store (s\<lparr>udata := u\<rparr>) I l = file_store s I l" "store_mset (s\<lparr>udata := u\<rparr>) I = store_mset s I" "content (s\<lparr>udata := u\<rparr>) = content s"
  "file_store (s\<lparr>of_tab := x\<rparr>) I l = file_store s I l" "store_mset (s\<lparr>of_tab := x\<rparr>) I = store_mset s I" "content (s\<lparr>of_tab := x\<rparr>) = content s"
  by (simp_all add: file_store_def store_mset_def content_def[abs_def] free_stack_def free_list_def idle_def view_words_def[abs_def]
      cong: if_cong)

text \<open>A call that fails leaves its mark in the error number.\<close>

lemma rel_fails:
  "fd_rel I B s v \<Longrightarrow> udata t = (udata s)\<lparr>u_base := b, u_count := n, u_error := e\<rparr> \<Longrightarrow> t = s\<lparr>udata := udata t\<rparr> \<Longrightarrow>
   \<exists>v'. fails e v v' (- 1) \<and> fd_rel I B t v'"
proof -
  assume r: "fd_rel I B s v" and u: "udata t = (udata s)\<lparr>u_base := b, u_count := n, u_error := e\<rparr>" and t: "t = s\<lparr>udata := udata t\<rparr>"
  have "fd_rel I B (s\<lparr>udata := udata t\<rparr>) (v\<lparr>v_err := e\<rparr>)"
    using r by (simp add: fd_rel_def view_of_def store_frame fd_tables_def u cong: if_cong)
  then show ?thesis using t by (auto simp: fails_def)
qed

lemma rel_error:
  "fd_rel I B s v \<Longrightarrow> \<exists>v'. fails e v v' (- 1) \<and> fd_rel I B (s\<lparr>udata := (udata s)\<lparr>u_error := e\<rparr>\<rparr>) v'"
  by (rule rel_fails[where b = "u_base (udata s)" and n = "u_count (udata s)"]) simp_all

text \<open>A transfer ends with the new position in the open file.\<close>

lemma updoff_rel:
  assumes r: "fd_rel I B s v" and o: "open_fd s d e i" and t: "of_tab t = of_tab s" "u_files (udata t) = u_files (udata s)"
    and w: "wf_off (u_offset (udata t))" and st: "file_store t I l" "store_mset t I + mset l = B"
  shows "\<exists>u. updoff d t = Ret () u \<and> udata u = udata t \<and> fd_rel I B u (v\<lparr>v_mem := mem t, v_file := v_file (view_of I t),
     v_pos := (v_pos v)(e := off_pos (u_offset (udata t))), v_err := u_error (udata t)\<rparr>)"
proof -
  have e: "e < OFTSIZE" "unat (u_files (udata s) ! nat d) = e" using o by (simp_all add: open_fd_def)
  have v: "v = view_of I s" "fd_tables s" using r by (auto simp: fd_rel_def)
  have len: "length (of_tab s) = OFTSIZE" using v(2) by (simp add: fd_tables_def)
  define u where "u = t\<lparr>of_tab := (of_tab s)[e := (of_tab s ! e)\<lparr>o_ptr := u_offset (udata t)\<rparr>]\<rparr>"
  have run: "updoff d t = Ret () u" using e t by (simp add: updoff_def run_simps access_defs u_def)
  have "fd_tables u" using v(2) t(2) w e(1) by (auto simp: fd_tables_def u_def nth_list_update)
  moreover have "view_of I u = v\<lparr>v_mem := mem t, v_file := v_file (view_of I t),
      v_pos := (v_pos v)(e := off_pos (u_offset (udata t))), v_err := u_error (udata t)\<rparr>"
    using e(1) len t(2) by (auto simp: v(1) view_of_def u_def store_frame fun_eq_iff nth_list_update cong: if_cong)
  moreover have "file_store u I l" "store_mset u I + mset l = B" using st by (simp_all add: u_def store_frame)
  moreover have "udata u = udata t" by (simp add: u_def)
  ultimately show ?thesis using run by (auto simp: fd_rel_def)
qed

lemma fd_view_files: "fd_rel I B s v \<Longrightarrow> i \<in> I \<Longrightarrow> v_file v i = content s i"
  by (simp add: fd_rel_def view_of_def)

text \<open>
  What \<open>_read\<close> and \<open>_write\<close> share: a transfer \<open>io\<close> between \<open>rwsetup\<close> and \<open>updoff\<close>, for a
  specification \<open>Q\<close> of the call that lets it fail on a bad descriptor.
\<close>

definition after :: "nat set \<Rightarrow> fd_view \<Rightarrow> nat \<Rightarrow> kst \<Rightarrow> fd_view" where
  "after I v e t = v\<lparr>v_mem := mem t, v_file := v_file (view_of I t), v_pos := (v_pos v)(e := off_pos (u_offset (udata t))),
     v_err := u_error (udata t)\<rparr>"

definition transferred :: "nat set \<Rightarrow> u16 multiset \<Rightarrow> kst \<Rightarrow> kst \<Rightarrow> bool" where
  "transferred I B s t \<longleftrightarrow> of_tab t = of_tab s \<and> u_files (udata t) = u_files (udata s) \<and> wf_off (u_offset (udata t)) \<and>
     (\<exists>l. file_store t I l \<and> store_mset t I + mset l = B)"

lemma transfer_law:
  assumes r: "fd_rel I B s v" and c: "fd_legal I c v" "call_fd c = d"
    and bad: "\<And>v'. fails EBADF v v' (- 1) \<Longrightarrow> (\<And>e. fd_target (v_fds v) d = Some e \<Longrightarrow> v_acc v e = no) \<Longrightarrow> Q v' (- 1)"
    and no: "no = (if rd then O_WRONLY else O_RDONLY)"
    and good: "\<And>e i l. fd_target (v_fds v) d = Some e \<Longrightarrow> v_acc v e \<noteq> no \<Longrightarrow> i \<in> I \<Longrightarrow> v_ino v e = Some i \<Longrightarrow>
      wf_off (o_ptr (of_tab s ! e)) \<Longrightarrow> file_store (set_up d e i buf n rd s) I l \<Longrightarrow>
      store_mset (set_up d e i buf n rd s) I + mset l = B \<Longrightarrow> view_of I (set_up d e i buf n rd s) = v \<Longrightarrow>
      wp (io i) (\<lambda>_ t. transferred I B s t \<and> Q (after I v e t) (sint (u_count (udata t)))) (set_up d e i buf n rd s)"
  shows "wp (bindK (rwsetup d buf n rd) (\<lambda>r. case r of None \<Rightarrow> fail
     | Some ino \<Rightarrow> thenK (doK [io ino, updoff d]) (getK (\<lambda>s. sint (u_count (udata s)))))) (\<lambda>r t. \<exists>v'. Q v' r \<and> fd_rel I B t v') s"
    (is "wp _ ?R s")
proof -
  let ?bad = "s\<lparr>udata := (udata s)\<lparr>u_base := buf, u_count := n, u_error := EBADF\<rparr>\<rparr>"
  have v: "v = view_of I s" using r by (simp add: fd_rel_def)
  obtain v' where f: "fails EBADF v v' (- 1)" "fd_rel I B ?bad v'" using rel_fails[OF r, where b = buf and n = n] by auto
  show ?thesis
  proof (cases "fd_target (v_fds v) d")
    case None
    have "fd_target (u_files (udata s)) d = None" using v None by (simp add: view_of_def)
    then have "rwsetup d buf n rd s = Ret None ?bad" by (rule rwsetup_closed)
    moreover have "Q v' (- 1)" by (rule bad[OF f(1)]) (simp add: None)
    ultimately show ?thesis using f(2) by (auto simp: wp_def run_simps fail_def)
  next
    case (Some e)
    obtain i where i: "i \<in> I" "v_ino v e = Some i" and o: "open_fd s d e i" and w: "wf_off (o_ptr (of_tab s ! e))"
      and len: "i < length (i_tab s)"
      using fd_open[OF r c(1), of e] Some c(2) by auto
    note run = rwsetup_open[OF o len, of buf n rd, folded no]
    have acc: "v_acc v e = o_access (of_tab s ! e)" by (simp add: v view_of_def)
    show ?thesis
    proof (cases "v_acc v e = no")
      case True
      moreover have "Q v' (- 1)" by (rule bad[OF f(1)]) (use True Some in simp)
      ultimately show ?thesis using f(2) run acc by (auto simp: wp_def run_simps fail_def)
    next
      case False
      obtain l where l: "file_store s I l" "store_mset s I + mset l = B" using r by (auto simp: fd_rel_def)
      let ?s = "set_up d e i buf n rd s"
      note S = store_set_up[OF l(1) i(1), of d e buf n rd]
      have "view_of I ?s = v"
        unfolding v using S by (intro fd_view.equality ext) (simp_all add: view_of_def, simp_all add: set_up_def)
      note G = good[OF Some False i w conjunct1[OF S] _ this]
      have "wp (io i) (\<lambda>_. wp (updoff d) (\<lambda>_ t. ?R (sint (u_count (udata t))) t)) ?s"
      proof (rule wp_mono[OF G], goal_cases)
        case (2 x t)
        then show ?case
          using updoff_rel[OF r o, of t] unfolding transferred_def after_def wp_def by fastforce
      qed (use S l(2) in simp)
      then show ?thesis using run False acc by (simp add: wp_def[of "rwsetup d buf n rd"])
    qed
  qed
qed

lemma read_law:
  assumes r: "fd_rel I B s v" and c: "fd_legal I (Read d buf n) v"
  shows "wp (sys_read [] d buf n) (\<lambda>r t. \<exists>v'. fd_spec (Read d buf n) v v' r \<and> fd_rel I B t v') s"
  unfolding sys_read_def
proof (rule transfer_law[OF r c call_fd.simps(1) _ refl])
  fix v' assume "fails EBADF v v' (- 1)" "\<And>e. fd_target (v_fds v) d = Some e \<Longrightarrow> v_acc v e = (if True then O_WRONLY else O_RDONLY)"
  then show "fd_spec (Read d buf n) v v' (- 1)" by (auto split: option.split)
next
  fix e i l
  let ?s = "set_up d e i buf n True s"
  assume A: "fd_target (v_fds v) d = Some e" "v_acc v e \<noteq> (if True then O_WRONLY else O_RDONLY)" "i \<in> I" "v_ino v e = Some i"
    "wf_off (o_ptr (of_tab s ! e))" "file_store ?s I l" "store_mset ?s I + mset l = B" "view_of I ?s = v"
  obtain g flen where g: "v_file v i = (g, flen)" by (cases "v_file v i")
  define P where "P = v_pos v e"
  define a where "a = read_amount flen P (unat n)"
  have n: "\<not> (P div 512 = flen div 512 \<and> flen < P)" "unat n < 32768" "P + unat n < 33554432" using c A(1,4) g by (simp_all add: fd_legal_def P_def)
  have ud: "u_offset (udata ?s) = o_ptr (of_tab s ! e)" "u_count (udata ?s) = n" "u_base (udata ?s) = buf"
    "of_tab ?s = of_tab s" "u_files (udata ?s) = u_files (udata s)"
    by (simp_all add: set_up_def)
  have P: "P = off_pos (o_ptr (of_tab s ! e))" using ud(4) by (simp add: P_def A(8)[symmetric] view_of_def)
  have cs: "content ?s i = (g, flen)" using g A(3) by (simp add: A(8)[symmetric] view_of_def)
  show "wp (readi [] i) (\<lambda>_ t. transferred I B s t \<and> fd_spec (Read d buf n) v (after I v e t) (sint (u_count (udata t)))) ?s"
  proof (rule wp_mono[OF readi_store[OF A(6,3), unfolded ud, OF A(5) P cs n a_def]], elim conjE, intro conjI)
    fix x :: unit and t
    assume t: "unat (u_count (udata t)) = a" "off_pos (u_offset (udata t)) = P + a" "wf_off (u_offset (udata t))"
      "mem t = copied (\<lambda>k. g (P + k)) buf (of_nat a) (mem ?s)" "file_store t I l" "store_mset t I = store_mset ?s I"
      "\<forall>j\<in>I. content t j = content ?s j" "of_tab t = of_tab s" "u_files (udata t) = u_files (udata s)" "u_error (udata t) = u_error (udata ?s)"
    show "transferred I B s t" using t A(7) by (auto simp: transferred_def)
    have "after I v e t = get_bytes v e buf a"
      using t A(4) g by (intro fd_view.equality)
        (simp_all add: after_def get_bytes_def P_def[symmetric], simp_all add: A(8)[symmetric] view_of_def cong: if_cong)
    moreover have "a \<le> unat n" by (simp add: a_def read_amount_def Let_def)
    then have "sint (u_count (udata t)) = int a" using t(1) n(2) sint_small[of "u_count (udata t)"] by simp
    ultimately show "fd_spec (Read d buf n) v (after I v e t) (sint (u_count (udata t)))"
      using A(1,2,4) g by (simp add: a_def P_def)
  qed
qed

text \<open>The reads that are not legal for their count, or for a position just behind the end.\<close>

lemma read_overruns:
  assumes r: "fd_rel I B s v" and c: "fd_legal I (Dup d) v" and t: "fd_target (v_fds v) d = Some e" "v_ino v e = Some i"
    and acc: "v_acc v e \<noteq> O_WRONLY"
    and n: "v_pos v e div 512 = snd (v_file v i) div 512 \<and> snd (v_file v i) < v_pos v e \<or> 32768 \<le> unat n"
  shows "sys_read [] d buf n s = Halt BadAccess"
proof -
  have v: "v = view_of I s" using r by (simp add: fd_rel_def)
  obtain l where l: "file_store s I l" using r by (auto simp: fd_rel_def)
  have i: "i \<in> I" and o: "open_fd s d e i" and w: "wf_off (o_ptr (of_tab s ! e))" and len: "i < length (i_tab s)"
    using fd_open[OF r c, of e] t by auto
  let ?s = "set_up d e i buf n True s"
  have S: "file_store ?s I l" "content ?s i = content s i" using store_set_up[OF l i, of d e buf n True] i by auto
  have ud: "u_offset (udata ?s) = o_ptr (of_tab s ! e)" "u_count (udata ?s) = n" by (simp_all add: set_up_def)
  obtain g flen where g: "content s i = (g, flen)" by (cases "content s i")
  have at: "v_pos v e = off_pos (o_ptr (of_tab s ! e))" "snd (v_file v i) = flen" "v_acc v e = o_access (of_tab s ! e)"
    using i g by (simp_all add: v view_of_def)
  have "readi [] i ?s = Halt BadAccess"
    by (rule readi_store_overrun[OF S(1) i _ _ S(2)[unfolded g], unfolded ud]) (use w n at in simp_all)
  then show ?thesis
    using rwsetup_open[OF o len, of buf n True] acc at(3) by (simp add: sys_read_def run_simps)
qed

lemma write_law:
  assumes r: "fd_rel I B s v" and c: "fd_legal I (Write d buf n) v"
  shows "wp (sys_write [] d buf n) (\<lambda>r t. \<exists>v'. fd_spec (Write d buf n) v v' r \<and> fd_rel I B t v') s"
  unfolding sys_write_def
proof (rule transfer_law[OF r c call_fd.simps(2) _ refl])
  fix v' assume "fails EBADF v v' (- 1)" "\<And>e. fd_target (v_fds v) d = Some e \<Longrightarrow> v_acc v e = (if False then O_WRONLY else O_RDONLY)"
  then show "fd_spec (Write d buf n) v v' (- 1)" by (auto split: option.split)
next
  fix e i l
  let ?s = "set_up d e i buf n False s"
  assume A: "fd_target (v_fds v) d = Some e" "v_acc v e \<noteq> (if False then O_WRONLY else O_RDONLY)" "i \<in> I" "v_ino v e = Some i"
    "wf_off (o_ptr (of_tab s ! e))" "file_store ?s I l" "store_mset ?s I + mset l = B" "view_of I ?s = v"
  obtain g flen where g: "v_file v i = (g, flen)" by (cases "v_file v i")
  define P where "P = v_pos v e"
  have n: "unat n < 32768" "P + unat n < 33554432" using c A(1,4) g by (simp_all add: fd_legal_def P_def)
  have ud: "u_offset (udata ?s) = o_ptr (of_tab s ! e)" "u_count (udata ?s) = n" "u_base (udata ?s) = buf"
    "of_tab ?s = of_tab s" "u_files (udata ?s) = u_files (udata s)"
    by (simp_all add: set_up_def)
  have vs: "mem ?s = v_mem v" "u_error (udata ?s) = v_err v" by (simp_all add: A(8)[symmetric] view_of_def)
  have P: "P = off_pos (o_ptr (of_tab s ! e))" using ud(4) by (simp add: P_def A(8)[symmetric] view_of_def)
  have cs: "content ?s i = (g, flen)" using g A(3) by (simp add: A(8)[symmetric] view_of_def)
  show "wp (writei [] i) (\<lambda>_ t. transferred I B s t \<and> fd_spec (Write d buf n) v (after I v e t) (sint (u_count (udata t)))) ?s"
  proof (rule wp_mono[OF writei_store[OF A(6,3), unfolded ud vs, OF A(5) P cs refl n]], elim exE conjE, intro conjI)
    fix x :: unit and t a l'
    let ?h = "\<lambda>q. if P \<le> q \<and> q < P + a then v_mem v (buf + of_nat (q - P)) else g q"
    assume t: "a \<le> unat n" "u_error (udata t) = (if a = unat n then v_err v else ENOSPC)" "file_store t I l'"
      "store_mset t I + mset l' = store_mset ?s I + mset l" "content t i = (?h, max flen (P + a))"
      "\<forall>j\<in>I. j \<noteq> i \<longrightarrow> content t j = content ?s j" "u_count (udata t) = n" "off_pos (u_offset (udata t)) = P + a"
      "wf_off (u_offset (udata t))" "mem t = v_mem v" "of_tab t = of_tab s" "u_files (udata t) = u_files (udata s)"
    show "transferred I B s t" using t A(7) by (auto simp: transferred_def)
    have "v_file (view_of I t) = (v_file v)(i := (?h, max flen (P + a)))"
      using t(5,6) A(3) by (auto simp: A(8)[symmetric] view_of_def)
    then have "after I v e t = (put_bytes v e buf a)\<lparr>v_err := (if a = unat n then v_err v else ENOSPC)\<rparr>"
      using t(2,8,10) A(4) g by (intro fd_view.equality) (simp_all add: after_def put_bytes_def P_def[symmetric])
    moreover have "sint (u_count (udata t)) = int (unat n)" using t(7) n(1) sint_small[of n] by simp
    ultimately show "fd_spec (Write d buf n) v (after I v e t) (sint (u_count (udata t)))"
      using A(1,2) t(1) by auto
  qed
qed

lemma seek_pos_norm:
  assumes "wf_off p" and "wf_off sz"
  shows "seek_pos flag (unat offset) (off_pos sz) (off_pos p) = map_option (\<lambda>q. off_pos (norm_off 127 q)) (seek_to flag offset sz p)"
proof -
  have d: "off_pos x div 512 = unat (o_blkno x)" "off_pos x mod 512 = unat (o_offset x)" if "wf_off x" for x
    using that by (simp_all add: off_pos_def wf_off_def)
  have m: "(512 * b + c) mod 33554432 = 512 * b + c" if "b < 65536" "c < 512" for b c :: nat
    using that by (intro mod_less) linarith
  have u: "unat (x + y) = (unat x + unat y) mod 65536" for x y :: u16 by (simp add: unat_word_ariths)
  have s: "unat (o_offset x) < 512" if "wf_off x" for x using that by (simp add: wf_off_def)
  have lt: "unat x < 65536" for x :: u16 by (rule u16_lt)
  have z: "unat offset mod 33554432 = unat offset" using lt[of offset] by (intro mod_less) linarith
  show ?thesis
    using lt[of offset] lt[of "o_blkno p"] lt[of "o_blkno sz"] assms
    by (auto simp: seek_pos_def seek_to_def norm_off_pos off_pos_def[of "_\<lparr>o_blkno := _\<rparr>"] off_pos_def[of "_\<lparr>o_offset := _\<rparr>"]
        off_pos_def[of "_\<lparr>o_blkno := _, o_offset := _\<rparr>"] d u m s z)
qed

lemma seek_law:
  assumes r: "fd_rel I B s v" and c: "fd_legal I (Seek d offset flag) v"
  shows "wp (sys_seek d offset flag) (\<lambda>r t. \<exists>v'. fd_spec (Seek d offset flag) v v' r \<and> fd_rel I B t v') s"
proof (cases "fd_target (v_fds v) d")
  case None
  have v: "v = view_of I s" using r by (simp add: fd_rel_def)
  then have "fd_target (u_files (udata s)) d = None" using None by (simp add: view_of_def)
  then show ?thesis
    using None rel_error[OF r, of EBADF]
    by (simp add: wp_def sys_seek_def run_simps getinode_none fail_def)
next
  case (Some e)
  obtain i where i: "i \<in> I" "v_ino v e = Some i" and o: "open_fd s d e i" "e < OFTSIZE" and w: "wf_off (o_ptr (of_tab s ! e))"
    and f: "stored_file (i_tab s ! i)"
    using fd_open[OF r c, of e] Some by auto
  obtain l where v: "v = view_of I s" "fd_tables s" and l: "file_store s I l" "store_mset s I + mset l = B"
    using r by (auto simp: fd_rel_def)
  have len: "length (of_tab s) = OFTSIZE" using v(2) by (simp add: fd_tables_def)
  have "getmode (i_tab s ! i) \<noteq> F_PIPE" "wf_off (i_size (c_node (i_tab s ! i)))" using f by (auto simp: stored_file_def)
  note run = seek_run[OF o(1) this(1), of offset flag] and P = seek_pos_norm[OF w this(2), of flag offset]
  have at: "snd (v_file v i) = off_pos (i_size (c_node (i_tab s ! i)))" "v_pos v e = off_pos (o_ptr (of_tab s ! e))"
    using i(1) by (simp_all add: v view_of_def content_def)
  have ans: "(of_nat (if flag \<le> 2 then v_pos v e mod 512 else v_pos v e div 512) :: u16) =
      (if flag \<le> 2 then o_offset (o_ptr (of_tab s ! e)) else o_blkno (o_ptr (of_tab s ! e)))"
    using w by (simp add: at(2) off_pos_def wf_off_def)
  show ?thesis
  proof (cases "seek_to flag offset (i_size (c_node (i_tab s ! i))) (o_ptr (of_tab s ! e))")
    case None
    then show ?thesis
      using rel_error[OF r, of EINVAL] P
      by (simp add: wp_def run Some i(2) at)
  next
    case p: (Some p)
    let ?t = "s\<lparr>of_tab := (of_tab s)[e := (of_tab s ! e)\<lparr>o_ptr := norm_off 127 p\<rparr>]\<rparr>"
    let ?v = "v\<lparr>v_pos := (v_pos v)(e := off_pos (norm_off 127 p))\<rparr>"
    have "fd_tables ?t" using v(2) o(2) norm_off_pos[of p] by (auto simp: fd_tables_def nth_list_update)
    moreover have "view_of I ?t = ?v" using o(2) len by (auto simp: v(1) view_of_def store_frame fun_eq_iff nth_list_update cong: if_cong)
    ultimately have "fd_rel I B ?t ?v" using l by (auto simp: fd_rel_def store_frame)
    then show ?thesis
      using p P at Some i(2) ans by (auto simp: wp_def run Let_def intro!: exI[of _ ?v])
  qed
qed

lemma dup_law:
  assumes r: "fd_rel I B s v" and c: "fd_legal I (Dup d) v"
  shows "wp (sys_dup d) (\<lambda>r t. \<exists>v'. fd_spec (Dup d) v v' r \<and> fd_rel I B t v') s"
proof (cases "fd_target (v_fds v) d")
  case None
  have v: "v = view_of I s" using r by (simp add: fd_rel_def)
  then have "fd_target (u_files (udata s)) d = None" using None by (simp add: view_of_def)
  then show ?thesis
    using None rel_error[OF r, of EBADF]
    by (simp add: wp_def sys_dup_def run_simps getinode_none fail_def)
next
  case (Some e)
  obtain i where o: "open_fd s d e i" "e < OFTSIZE" using fd_open[OF r c, of e] Some by auto
  obtain l where v: "v = view_of I s" "fd_tables s" and l: "file_store s I l" "store_mset s I + mset l = B"
    using r by (auto simp: fd_rel_def)
  have len: "length (of_tab s) = OFTSIZE" "length (u_files (udata s)) = UFTSIZE" using v(2) by (simp_all add: fd_tables_def)
  note run = dup_run[OF o(1) len(2)]
  have fds: "v_fds v = u_files (udata s)" by (simp add: v(1) view_of_def)
  show ?thesis
  proof (cases "find (\<lambda>j. u_files (udata s) ! j AND 0x80 \<noteq> 0) [0..<UFTSIZE]")
    case None
    then show ?thesis
      using rel_error[OF r, of ENFILE]
      by (simp add: wp_def run Some[unfolded fds] fds del: upt_Suc upt_rec_numeral)
  next
    case j: (Some j)
    let ?t = "s\<lparr>udata := (udata s)\<lparr>u_files := (u_files (udata s))[j := u_files (udata s) ! nat d]\<rparr>,
       of_tab := (of_tab s)[e := (of_tab s ! e)\<lparr>o_refs := o_refs (of_tab s ! e) + 1\<rparr>]\<rparr>"
    let ?v = "v\<lparr>v_fds := (v_fds v)[j := v_fds v ! nat d]\<rparr>"
    have "fd_tables ?t" using v(2) o(2) by (auto simp: fd_tables_def nth_list_update)
    moreover have "view_of I ?t = ?v"
      using o(2) len(1) by (auto simp: v(1) view_of_def store_frame fun_eq_iff nth_list_update cong: if_cong)
    ultimately have "fd_rel I B ?t ?v" using l by (auto simp: fd_rel_def store_frame)
    then show ?thesis using j by (simp add: wp_def run Some[unfolded fds] fds del: upt_Suc upt_rec_numeral)
  qed
qed

interpretation fd_calls: call_simulation do_call fd_spec "fd_legal I" "fd_rel I B" for I B
proof unfold_locales
  fix s v and c :: fd_call
  assume A: "fd_rel I B s v" "fd_legal I c v"
  show "wp (do_call c) (\<lambda>r t. \<exists>v'. fd_spec c v v' r \<and> fd_rel I B t v') s"
    by (cases c) (use A read_law write_law seek_law dup_law in \<open>simp_all del: fd_spec.simps\<close>)
qed

section \<open>A process and its files\<close>

text \<open>
  C2: A process that reads, writes, seeks and duplicates descriptors sees files as arrays of
  bytes. A sequence of \<open>_read\<close>, \<open>_write\<close>, \<open>_seek\<close> and \<open>_dup\<close> calls on regular files and
  directories of the root device completes, with answers and effects a store of such arrays
  allows: a read delivers the bytes from the position to the end or to the number asked for, a
  write replaces or appends bytes of its file and of no other, positions belong to open files, so
  that duplicated descriptors share them, and a descriptor that is closed or not open for the
  transfer changes nothing. Behind the last block of the file a read is not limited and delivers
  what the array holds there. Only when the device is full a write falls short, with \<open>ENOSPC\<close>.
  The blocks of the files and the free blocks are still each there once, and the same as before.

  Three kinds of calls are not allowed in the sequence (\<open>fd_legal\<close>): transfers of 32768 bytes or
  more and reads that start behind the end of the file but in its last block, which overrun the
  buffer (\<open>read_overruns\<close> for the reads), and transfers that reach byte 33554432, where positions wrap around.
\<close>

theorem calls_on_files:
  assumes "file_store s I l" and "fd_tables s" and "run_legal fd_spec (fd_legal I) calls (view_of I s)"
  shows "wp (run_calls do_call calls) (\<lambda>rs t. run_spec fd_spec calls (view_of I s) (view_of I t) rs \<and> fd_tables t \<and>
     (\<exists>l'. file_store t I l' \<and> store_mset t I + mset l' = store_mset s I + mset l)) s"
proof -
  have "fd_rel I (store_mset s I + mset l) s (view_of I s)" using assms(1,2) by (auto simp: fd_rel_def)
  from fd_calls.run_law[OF this assms(3)] show ?thesis by (rule wp_mono) (auto simp: fd_rel_def)
qed

text \<open>Two empty files, of which descriptor 0 has the first one open for reading and writing.\<close>

definition at_work :: kst where
  "at_work = (let c = zero_cinode\<lparr>c_magic := CMAGIC, c_node := zero_dinode\<lparr>i_mode := F_REG, i_addr := replicate 20 0\<rparr>\<rparr> in
     two_free\<lparr>i_tab := (i_tab two_free)[3 := c, 4 := c], of_tab := (of_tab two_free)[0 := zero_oft\<lparr>o_inode := Some 3, o_access := O_RDWR\<rparr>],
       udata := (udata two_free)\<lparr>u_files := [0, 0xFF, 0xFF, 0xFF, 0xFF, 0xFF, 0xFF, 0xFF, 0xFF, 0xFF]\<rparr>\<rparr>)"

lemma at_work_files:
  "i \<in> {3, 4} \<Longrightarrow> i_tab at_work ! i = zero_cinode\<lparr>c_magic := CMAGIC, c_node := zero_dinode\<lparr>i_mode := F_REG, i_addr := replicate 20 0\<rparr>\<rparr>"
  "length (i_tab at_work) = ITABSIZE" "i \<in> {3, 4} \<Longrightarrow> file_blocks V (i_tab at_work ! i) = []" "free_stack at_work [6, 7]"
proof -
  have len: "length (i_tab two_free) = ITABSIZE" by (simp add: two_free_def empty_cache_def bss_def)
  then show i: "i_tab at_work ! i = zero_cinode\<lparr>c_magic := CMAGIC, c_node := zero_dinode\<lparr>i_mode := F_REG, i_addr := replicate 20 0\<rparr>\<rparr>"
    if "i \<in> {3, 4}" for i using that by (auto simp: at_work_def Let_def)
  show "length (i_tab at_work) = ITABSIZE" using len by (simp add: at_work_def Let_def)
  show "file_blocks V (i_tab at_work ! i) = []" if "i \<in> {3, 4}"
  proof -
    have "mset (file_blocks V (i_tab at_work ! i)) = {#}" unfolding file_mset i[OF that] by (simp add: sum.neutral)
    then show ?thesis by simp
  qed
  show "free_stack at_work [6, 7]"
    using two_free_stack by (simp add: at_work_def Let_def free_stack_def free_list_def view_words_def[abs_def] idle_def)
qed

lemma at_work_store: "file_store at_work {3, 4} [6, 7]"
proof -
  have "stored_file (i_tab at_work ! i)" if "i \<in> {3, 4}" for i
    unfolding at_work_files(1)[OF that] by (simp add: stored_file_def getmode_def wf_off_def zero_cinode_def zero_dinode_def zero_off_def)
  then show ?thesis
    using at_work_files(2,4) by (auto simp: file_store_def store_mset_def at_work_files(3) clean_mset[of "[6, 7]", simplified])
qed

lemma at_work_tables: "fd_tables at_work"
proof -
  have "of_tab two_free = replicate OFTSIZE zero_oft" by (simp add: two_free_def empty_cache_def bss_def)
  then have "of_tab at_work = (replicate OFTSIZE zero_oft)[0 := zero_oft\<lparr>o_inode := Some 3, o_access := O_RDWR\<rparr>]"
    by (simp add: at_work_def Let_def)
  then show ?thesis
    by (auto simp: fd_tables_def nth_list_update at_work_def Let_def zero_oft_def wf_off_def zero_off_def)
qed

lemma put_bytes_at:
  "v_fds (put_bytes v e b a) = v_fds v" "v_ino (put_bytes v e b a) = v_ino v" "v_acc (put_bytes v e b a) = v_acc v"
  "v_mem (put_bytes v e b a) = v_mem v" "v_pos (put_bytes v e b a) = (v_pos v)(e := v_pos v e + a)"
  "v_file (put_bytes v e b a) = (v_file v)(the (v_ino v e) :=
     (\<lambda>q. if v_pos v e \<le> q \<and> q < v_pos v e + a then v_mem v (b + of_nat (q - v_pos v e)) else fst (v_file v (the (v_ino v e))) q,
      max (snd (v_file v (the (v_ino v e)))) (v_pos v e + a)))"
  by (simp_all add: put_bytes_def Let_def case_prod_beta)

lemma get_bytes_at:
  "v_file (get_bytes v e b a) = v_file v" "v_fds (get_bytes v e b a) = v_fds v" "v_ino (get_bytes v e b a) = v_ino v"
  "v_acc (get_bytes v e b a) = v_acc v" "v_pos (get_bytes v e b a) = (v_pos v)(e := v_pos v e + a)"
  "v_mem (get_bytes v e b a) =
     copied (\<lambda>k. fst (v_file v (the (v_ino v e))) (v_pos v e + k)) b (of_nat a) (v_mem v)"
  by (simp_all add: get_bytes_def Let_def)

lemma at_work_view:
  "v_fds (view_of I at_work) = [0, 0xFF, 0xFF, 0xFF, 0xFF, 0xFF, 0xFF, 0xFF, 0xFF, 0xFF]" "v_ino (view_of I at_work) 0 = Some 3" "v_acc (view_of I at_work) 0 = O_RDWR"
  "v_pos (view_of I at_work) 0 = 0" "v_mem (view_of I at_work) = mem at_work"
  "snd (v_file (view_of I at_work) 3) = 0"
proof -
  have "of_tab two_free = replicate OFTSIZE zero_oft" by (simp add: two_free_def empty_cache_def bss_def)
  then have o: "of_tab at_work ! 0 = zero_oft\<lparr>o_inode := Some 3, o_access := O_RDWR\<rparr>"
    by (simp add: at_work_def Let_def)
  show "v_fds (view_of I at_work) = [0, 0xFF, 0xFF, 0xFF, 0xFF, 0xFF, 0xFF, 0xFF, 0xFF, 0xFF]" by (simp add: view_of_def at_work_def Let_def)
  show "v_ino (view_of I at_work) 0 = Some 3" "v_acc (view_of I at_work) 0 = O_RDWR" "v_pos (view_of I at_work) 0 = 0"
    "v_mem (view_of I at_work) = mem at_work"
    by (simp_all add: view_of_def o) (simp add: zero_oft_def zero_off_def off_pos_def)
  show "snd (v_file (view_of I at_work) 3) = 0"
    by (simp add: view_of_def content_def at_work_files(1)) (simp add: zero_cinode_def zero_dinode_def zero_off_def off_pos_def)
qed

lemma at_work_fds:
  "fd_target (0 # fds) 0 = Some 0" "fd_target (0 # 0 # fds) 1 = Some 0"
  "find (\<lambda>j. (0 # (0xFF :: byte) # fds) ! j AND 0x80 \<noteq> 0) [0..<UFTSIZE] = Some 1"
  by (simp_all add: fd_target_def upt_conv_Cons)

lemma at_work_amounts:
  "a \<le> 5 \<Longrightarrow> read_amount a 0 5 = a" "a \<le> 5 \<Longrightarrow> read_amount a (2048 + a) 3 = 3"
proof -
  assume a: "a \<le> 5"
  then show "read_amount a 0 5 = a" using read_amount_inside[of 0 a 5] by simp
  have "(2048 + a) div 512 = 4" "a div 512 = 0" using a by (intro div_nat_eqI; simp)+
  then show "read_amount a (2048 + a) 3 = 3" by (simp add: read_amount_def Let_def)
qed

theorem calls_on_files_witness:
  "wp (run_calls do_call [Write 0 0x6000 5, Dup 0, Seek 1 0 0, Read 0 0x7000 5, Seek 1 4 3, Read 0 0x7800 3]) (\<lambda>rs t. \<exists>a\<le>5.
     rs = [5, 1, int a, int a, 0, 3] \<and> (0 < a \<longrightarrow> mem t 0x7000 = mem at_work 0x6000) \<and> content t 4 = content at_work 4) at_work"
proof -
  let ?calls = "[Write 0 0x6000 5, Dup 0, Seek 1 0 0, Read 0 0x7000 5, Seek 1 4 3, Read 0 0x7800 3]" and ?v = "view_of {3, 4} at_work"
  note at = at_work_view put_bytes_at fd_target_def
  have "run_legal fd_spec (fd_legal {3, 4}) ?calls ?v"
    by (auto simp: fd_legal_def at_work_view put_bytes_at get_bytes_at at_work_fds at_work_amounts seek_pos_def fails_def
        Let_def simp del: upt_Suc upt_rec_numeral)
  from calls_on_files[OF at_work_store at_work_tables this] show ?thesis
  proof (rule wp_mono, elim conjE)
    fix rs t
    assume "run_spec fd_spec ?calls ?v (view_of {3, 4} t) rs"
    then obtain a w where a: "a \<le> 5" "rs = [5, 1, sint (of_nat a :: u16), int a, 0, 3]"
      and w: "w = get_bytes ((put_bytes ?v 0 0x6000 a)\<lparr>v_err := if a = 5 then v_err ?v else ENOSPC,
         v_fds := [0, 0, 255, 255, 255, 255, 255, 255, 255, 255], v_pos := (v_pos ?v)(0 := 0)\<rparr>) 0 0x7000 a"
      and t: "view_of {3, 4} t = get_bytes (w\<lparr>v_pos := (v_pos w)(0 := 2048 + a)\<rparr>) 0 0x7800 3"
      by (auto simp: at_work_view put_bytes_at get_bytes_at at_work_fds at_work_amounts seek_pos_def fails_def Let_def
          simp del: upt_Suc upt_rec_numeral)
    have u: "unat (of_nat a :: u16) = a" using a(1) by (intro unat_of_small) linarith
    then have "sint (of_nat a :: u16) = int a" using a(1) sint_small[of "of_nat a :: u16"] by simp
    moreover have "v_mem (view_of {3, 4} t) 0x7000 = mem at_work 0x6000" if "0 < a"
      using that u by (simp add: t w get_bytes_at put_bytes_at at_work_view copied_def word_less_nat_alt cong: if_cong)
    moreover have "v_file (view_of {3, 4} t) 4 = v_file ?v 4" by (simp add: t w get_bytes_at put_bytes_at at_work_view)
    ultimately show "\<exists>a\<le>5. rs = [5, 1, int a, int a, 0, 3] \<and> (0 < a \<longrightarrow> mem t 0x7000 = mem at_work 0x6000) \<and> content t 4 = content at_work 4"
      using a by (auto simp: view_of_def)
  qed
qed

end
