(* ===== verification/Inode_Table.thy ===== *)
theory Inode_Table
  imports Inode Free_Blocks
begin

text \<open>
  The table of inodes in memory: what the search of \<open>i_open\<close> finds, the invariant that no inode
  is in the table twice, and that an inode written by \<open>wr_inode\<close> is read back by \<open>i_open\<close>.
\<close>

section \<open>The search\<close>

definition entry_is :: "int \<Rightarrow> u16 \<Rightarrow> cinode \<Rightarrow> bool" where
  "entry_is dev ino c \<longleftrightarrow> c_dev c = dev \<and> c_num c = ino"

definition next_entry :: "nat \<Rightarrow> nat" where
  "next_entry j = (if Suc j \<ge> ITABSIZE then 0 else Suc j)"

lemma next_entry: "j < ITABSIZE \<Longrightarrow> next_entry j = Suc j mod ITABSIZE"
proof -
  assume "j < ITABSIZE"
  then have "j = 19 \<or> Suc j < ITABSIZE" by linarith
  then show ?thesis by (auto simp: next_entry_def)
qed

text \<open>The entries the search looks at, in order.\<close>

definition visited :: "nat \<Rightarrow> nat \<Rightarrow> nat list" where
  "visited j n = map (\<lambda>i. (j + Suc i) mod ITABSIZE) [0..<n]"

lemma visited_Suc: "j < ITABSIZE \<Longrightarrow> visited j (Suc n) = next_entry j # visited (next_entry j) n"
proof -
  assume j: "j < ITABSIZE"
  have "visited j (Suc n) = Suc j mod ITABSIZE # map (\<lambda>i. (j + Suc (Suc i)) mod ITABSIZE) [0..<n]"
    unfolding visited_def by (simp add: upt_conv_Cons map_Suc_upt[symmetric] del: upt_Suc)
  moreover have "(j + Suc (Suc i)) mod ITABSIZE = (Suc j mod ITABSIZE + Suc i) mod ITABSIZE" for i
    by (simp add: mod_add_left_eq del: add_Suc_right) (simp add: mod_Suc_eq)
  ultimately show ?thesis using next_entry[OF j] by (simp add: visited_def)
qed

lemma visited_all: "j < ITABSIZE \<Longrightarrow> set (visited j ITABSIZE) = {0..<ITABSIZE}"
proof -
  assume j: "j < ITABSIZE"
  have "m \<in> set (visited j ITABSIZE)" if "m < ITABSIZE" for m
  proof -
    define i where "i = (m + ITABSIZE - Suc j) mod ITABSIZE"
    have "(j + Suc i) mod ITABSIZE = (j + Suc (m + ITABSIZE - Suc j)) mod ITABSIZE"
      unfolding i_def by (metis add_Suc_right mod_Suc_eq mod_add_right_eq)
    also have "\<dots> = m" using j that by simp
    finally show ?thesis unfolding visited_def i_def[symmetric] by (force simp: i_def)
  qed
  then show ?thesis by (auto simp: visited_def)
qed

lemma i_scan_visits:
  assumes "j < ITABSIZE"
  shows "case i_scan n dev ino tab nxt j r0 of (nxt', found, r) \<Rightarrow>
    if found then \<exists>k\<in>set (visited j n). r = Some k \<and> entry_is dev ino (tab ! k)
    else (\<forall>k\<in>set (visited j n). \<not> entry_is dev ino (tab ! k)) \<and>
      (r = r0 \<or> (\<exists>k\<in>set (visited j n). r = Some k \<and> c_refs (tab ! k) = 0)) \<and>
      (r = None \<longrightarrow> r0 = None \<and> (\<forall>k\<in>set (visited j n). c_refs (tab ! k) \<noteq> 0))"
  using assms
proof (induction n arbitrary: nxt j r0)
  case 0
  then show ?case by (simp add: visited_def)
next
  case (Suc n)
  let ?k = "next_entry j"
  have k: "?k < ITABSIZE" by (simp add: next_entry_def)
  let ?r = "if c_refs (tab ! ?k) = 0 then Some ?k else r0"
  have step: "i_scan (Suc n) dev ino tab nxt j r0 =
     (if entry_is dev ino (tab ! ?k) then (j, True, Some ?k) else i_scan n dev ino tab j ?k ?r)"
    by (simp add: next_entry_def entry_is_def Let_def)
  show ?case
  proof (cases "entry_is dev ino (tab ! ?k)")
    case True
    then show ?thesis unfolding step visited_Suc[OF Suc.prems] by simp
  next
    case False
    note ih = Suc.IH[OF k, where nxt = j and ?r0.0 = ?r]
    obtain nxt' found r where i: "i_scan n dev ino tab j ?k ?r = (nxt', found, r)" by (cases "i_scan n dev ino tab j ?k ?r")
    show ?thesis
      using False ih unfolding step visited_Suc[OF Suc.prems] i by (auto split: if_splits)
  qed
qed

lemma i_scan_all:
  assumes "j < ITABSIZE" and "i_scan ITABSIZE dev ino tab nxt j None = (nxt', found, r)"
  shows "if found then \<exists>k<ITABSIZE. r = Some k \<and> entry_is dev ino (tab ! k)
    else (\<forall>k<ITABSIZE. \<not> entry_is dev ino (tab ! k)) \<and>
      (case r of None \<Rightarrow> \<forall>k<ITABSIZE. c_refs (tab ! k) \<noteq> 0 | Some k \<Rightarrow> k < ITABSIZE \<and> c_refs (tab ! k) = 0)"
  using i_scan_visits[OF assms(1), where n = ITABSIZE and nxt = nxt and ?r0.0 = None and dev = dev and ino = ino and tab = tab] visited_all[OF assms(1)]
  unfolding assms(2) by (auto split: if_splits option.splits)

lemma i_scan_next:
  "j < ITABSIZE \<Longrightarrow> nxt < ITABSIZE \<Longrightarrow> fst (i_scan n dev ino tab nxt j r0) < ITABSIZE"
  by (induction n arbitrary: nxt j r0) (auto simp: Let_def)

section \<open>What i_open does\<close>

definition inode_blk :: "u16 \<Rightarrow> u16" where
  "inode_blk ino = drop_bit 3 ino + 2"

definition inode_at :: "(u16 \<Rightarrow> bytes) \<Rightarrow> u16 \<Rightarrow> dinode" where
  "inode_at V ino = get_dinode (V (inode_blk ino)) (unat (ino AND 7) * 64)"

definition live :: "dinode \<Rightarrow> bool" where
  "live d \<longleftrightarrow> i_nlink d \<noteq> 0 \<and> i_mode d AND F_MASK \<noteq> 0"

text \<open>The entry used for inode \<open>ino\<close>: as it is when the inode is there, else loaded.\<close>

definition entry_for :: "(u16 \<Rightarrow> bytes) \<Rightarrow> u16 \<Rightarrow> cinode \<Rightarrow> cinode" where
  "entry_for V ino c = (if entry_is 0 ino c then c
     else c\<lparr>c_node := inode_at V ino, c_dev := 0, c_num := ino, c_magic := CMAGIC\<rparr>)"

text \<open>Entry \<open>n\<close> is the one the inode has or, when it has none, one that is not in use.\<close>

definition usable :: "kst \<Rightarrow> u16 \<Rightarrow> nat \<Rightarrow> bool" where
  "usable s ino n \<longleftrightarrow> n < ITABSIZE \<and> (entry_is 0 ino (i_tab s ! n) \<or>
     c_refs (i_tab s ! n) = 0 \<and> (\<forall>k<ITABSIZE. \<not> entry_is 0 ino (i_tab s ! k)))"

definition opened :: "u16 \<Rightarrow> kst \<Rightarrow> nat option \<Rightarrow> cinode list \<Rightarrow> bool" where
  "opened ino s r tab \<longleftrightarrow>
     r = None \<and> tab = i_tab s \<and> (\<forall>k<ITABSIZE. c_refs (i_tab s ! k) \<noteq> 0 \<and> \<not> entry_is 0 ino (i_tab s ! k)) \<or>
     (\<exists>n c. usable s ino n \<and> c = entry_for (bview s) ino (i_tab s ! n) \<and> live (c_node c) \<and>
        r = Some n \<and> tab = (i_tab s)[n := c\<lparr>c_refs := c_refs c + 1\<rparr>]) \<or>
     (\<exists>n c. usable s ino n \<and> c = entry_for (bview s) ino (i_tab s ! n) \<and> \<not> live (c_node c) \<and>
        r = None \<and> tab = (i_tab s)[n := c])"

definition good_ino :: "kst \<Rightarrow> u16 \<Rightarrow> bool" where
  "good_ino s ino \<longleftrightarrow> ino \<noteq> 0 \<and> ino < ino_limit (fs_tab s ! 0) \<and> unat (inode_blk ino) < 2048 \<and> \<not> held s (inode_blk ino)"

definition cache_same :: "kst \<Rightarrow> kst \<Rightarrow> bool" where
  "cache_same s t \<longleftrightarrow> buf_inv t \<and> busy_same s t \<and> same_view s t \<and> fs_tab t = fs_tab s"

lemma unat_and_7: "unat (w AND 7 :: u16) < 8"
proof -
  have "w AND 7 = take_bit 3 w" by (simp add: take_bit_eq_mask mask_eq_exp_minus_1)
  moreover have "unat (take_bit 3 w) < 2 ^ 3" by (simp only: unsigned_take_bit_eq take_bit_nat_less_exp)
  ultimately show ?thesis by simp
qed

lemma block_fun_inode: "block_fun (\<lambda>b. get_dinode b (unat ((ino :: u16) AND 7) * 64))"
  unfolding block_fun_def
proof (intro allI impI get_dinode_cong)
  fix d e :: bytes and k :: nat
  assume "\<forall>k<512. d k = e k" "k < 64"
  then show "d (unat (ino AND 7) * 64 + k) = e (unat (ino AND 7) * 64 + k)"
    using unat_and_7[of ino] by simp
qed

lemma wp_i_open_found:
  "wp (i_open_found False n) Q s = (if live (c_node (i_tab s ! n))
     then Q (Some n) (s\<lparr>i_tab := (i_tab s)[n := (i_tab s ! n)\<lparr>c_refs := c_refs (i_tab s ! n) + 1\<rparr>]\<rparr>)
     else Q None (s\<lparr>klog := ''i_open: bad disk inode'' # klog s\<rparr>))"
  by (simp add: i_open_found_def live_def Let_def)

lemma i_open_spec:
  assumes inv: "buf_inv s" "some_free s" and nx: "nexti s < ITABSIZE" "length (i_tab s) = ITABSIZE" and ino: "good_ino s ino"
  shows "wp (i_open 0 ino) (\<lambda>r t. cache_same s t \<and> nexti t < ITABSIZE \<and> of_tab t = of_tab s \<and>
     opened ino s r (i_tab t)) s"
    (is "wp _ ?Q s")
proof -
  obtain nxt found r where sc: "i_scan ITABSIZE 0 ino (i_tab s) (nexti s) (nexti s) None = (nxt, found, r)"
    by (cases "i_scan ITABSIZE 0 ino (i_tab s) (nexti s) (nexti s) None")
  note all = i_scan_all[OF nx(1) sc]
  have nxt: "nxt < ITABSIZE" using i_scan_next[OF nx(1) nx(1), of ITABSIZE 0 ino "i_tab s" None] by (simp only: sc fst_conv)
  have ok: "ino \<noteq> 0" "\<not> (ino < ROOTINODE \<or> ino \<ge> ino_limit (fs_tab s ! 0))"
    using ino unsigned_eq_0_iff[of ino] by (auto simp: good_ino_def not_le)
  let ?s1 = "s\<lparr>nexti := nxt\<rparr>"
  have run: "wp (i_open 0 ino) ?Q s = wp (case r of
      None \<Rightarrow> thenK (set_error ENFILE) (retK None)
    | Some n \<Rightarrow> thenK (whenK (\<not> found)
        (bindK (read_buf 0 (inode_blk ino) (\<lambda>b. get_dinode b (unat (ino AND 7) * 64)))
          (\<lambda>d. upd_ino n (\<lambda>c. c\<lparr>c_node := d, c_dev := 0, c_num := ino, c_magic := CMAGIC\<rparr>))))
        (i_open_found False n)) ?Q ?s1"
    using ok by (simp add: i_open_def sc inode_blk_def cong: option.case_cong)
  have same: "cache_same s u" if "buf_inv u" "busy_same s u" "bview u = bview s" "fs_tab u = fs_tab s" for u
    using that by (simp add: cache_same_def same_view_def)
  show ?thesis
  proof (cases r)
    case None
    then have "\<forall>k<ITABSIZE. c_refs (i_tab s ! k) \<noteq> 0 \<and> \<not> entry_is 0 ino (i_tab s ! k)"
      using all by (auto split: if_splits)
    then have "opened ino s None (i_tab s)" by (simp add: opened_def)
    then show ?thesis unfolding run using None nxt inv(1) by (simp add: same)
  next
    case (Some n)
    show ?thesis
    proof (cases found)
      case True
      then have n: "n < ITABSIZE" "entry_is 0 ino (i_tab s ! n)" using all Some by auto
      then have e: "entry_for (bview s) ino (i_tab s ! n) = i_tab s ! n" and u: "usable s ino n"
        by (simp_all add: entry_for_def usable_def)
      let ?t1 = "(i_tab s)[n := (i_tab s ! n)\<lparr>c_refs := c_refs (i_tab s ! n) + 1\<rparr>]"
      have "opened ino s (Some n) ?t1" if "live (c_node (i_tab s ! n))"
        unfolding opened_def using u that e by (intro disjI2 disjI1 exI[of _ n] exI[of _ "i_tab s ! n"]) simp
      moreover have "opened ino s None (i_tab s)" if "\<not> live (c_node (i_tab s ! n))"
        unfolding opened_def using u that e by (intro disjI2 exI[of _ n] exI[of _ "i_tab s ! n"]) simp
      ultimately show ?thesis
        unfolding run using Some True nxt inv(1) by (simp add: wp_i_open_found same)
    next
      case False
      then have n: "n < ITABSIZE" "c_refs (i_tab s ! n) = 0" "\<forall>k<ITABSIZE. \<not> entry_is 0 ino (i_tab s ! k)"
        using all Some by auto
      define c where "c = entry_for (bview s) ino (i_tab s ! n)"
      have "wp (read_buf 0 (inode_blk ino) (\<lambda>b. get_dinode b (unat (ino AND 7) * 64)))
          (\<lambda>d. wp (upd_ino n (\<lambda>c. c\<lparr>c_node := d, c_dev := 0, c_num := ino, c_magic := CMAGIC\<rparr>))
            (\<lambda>_. wp (i_open_found False n) ?Q)) ?s1"
      proof (rule wp_mono[OF read_buf_spec[OF _ _ _ _ block_fun_inode]])
        show "buf_inv ?s1" "unat (inode_blk ino) < 2048" "\<not> held ?s1 (inode_blk ino)" "some_free ?s1"
          using inv ino by (simp_all add: good_ino_def)
        fix d t assume A: "d = get_dinode (bview ?s1 (inode_blk ino)) (unat (ino AND 7) * 64) \<and> cache_step ?s1 (bview ?s1) t"
        then have d: "d = inode_at (bview s) ino" and st: "cache_step ?s1 (bview s) t" by (simp_all add: inode_at_def)
        note e = cache_stepD[OF st]
        have cs: "cache_same s t" using e by (simp add: cache_same_def same_view_def)
        have c: "(i_tab s ! n)\<lparr>c_node := d, c_dev := 0, c_num := ino, c_magic := CMAGIC\<rparr> = c"
          using n by (simp add: c_def entry_for_def d)
        have u: "usable s ino n" using n by (simp add: usable_def)
        have o1: "opened ino s (Some n) ((i_tab s)[n := c\<lparr>c_refs := c_refs c + 1\<rparr>])" if "live (c_node c)"
          unfolding opened_def using u that by (intro disjI2 disjI1 exI[of _ n] exI[of _ c]) (simp add: c_def)
        have o2: "opened ino s None ((i_tab s)[n := c])" if "\<not> live (c_node c)"
          unfolding opened_def using u that by (intro disjI2 exI[of _ n] exI[of _ c]) (simp add: c_def)
        have cs': "cache_same s (t\<lparr>i_tab := x\<rparr>)" "cache_same s (t\<lparr>i_tab := x, klog := l\<rparr>)" for x l
          using cs by (simp_all add: cache_same_def same_view_def)
        show "wp (upd_ino n (\<lambda>c. c\<lparr>c_node := d, c_dev := 0, c_num := ino, c_magic := CMAGIC\<rparr>))
            (\<lambda>_. wp (i_open_found False n) ?Q) t"
          using n(1) nx(2) nxt e(5,11) o1 o2 cs' by (simp add: e(4) c wp_i_open_found)
      qed
      then show ?thesis unfolding run using Some False by simp
    qed
  qed
qed

section \<open>The invariant of the table\<close>

text \<open>No inode twice; an entry that has been loaded is marked, a referenced one has been loaded.\<close>

definition itab_inv :: "kst \<Rightarrow> bool" where
  "itab_inv s \<longleftrightarrow> length (i_tab s) = ITABSIZE \<and> nexti s < ITABSIZE \<and>
     (\<forall>i<ITABSIZE. \<forall>j<ITABSIZE. c_num (i_tab s ! i) \<noteq> 0 \<longrightarrow>
        entry_is (c_dev (i_tab s ! i)) (c_num (i_tab s ! i)) (i_tab s ! j) \<longrightarrow> i = j) \<and>
     (\<forall>i<ITABSIZE. (c_num (i_tab s ! i) \<noteq> 0 \<longrightarrow> c_magic (i_tab s ! i) = CMAGIC) \<and>
        (c_refs (i_tab s ! i) \<noteq> 0 \<longrightarrow> c_num (i_tab s ! i) \<noteq> 0))"

lemma itab_inv_update:
  assumes inv: "itab_inv s" and n: "n < ITABSIZE" and c: "entry_is 0 ino c" "ino \<noteq> 0" "c_magic c = CMAGIC"
    and fresh: "entry_is 0 ino (i_tab s ! n) \<or> (\<forall>k<ITABSIZE. \<not> entry_is 0 ino (i_tab s ! k))"
    and t: "i_tab t = (i_tab s)[n := c]" "nexti t < ITABSIZE"
  shows "itab_inv t"
proof -
  have len: "length (i_tab s) = ITABSIZE" using inv by (simp add: itab_inv_def)
  have at: "i_tab t ! k = (if k = n then c else i_tab s ! k)" if "k < ITABSIZE" for k
    using that n len by (simp add: t nth_list_update)
  have no: "k = n" if "k < ITABSIZE" "entry_is 0 ino (i_tab s ! k)" for k
    using fresh that inv n c(2) unfolding itab_inv_def entry_is_def by metis
  have "i = j" if "i < ITABSIZE" "j < ITABSIZE" "c_num (i_tab t ! i) \<noteq> 0"
    "entry_is (c_dev (i_tab t ! i)) (c_num (i_tab t ! i)) (i_tab t ! j)" for i j
  proof -
    consider "i = n" "j = n" | "i = n" "j \<noteq> n" | "i \<noteq> n" "j = n" | "i \<noteq> n" "j \<noteq> n" by blast
    then show ?thesis
    proof cases
      case 2
      then have "entry_is 0 ino (i_tab s ! j)" using that at c(1) by (simp add: entry_is_def)
      then show ?thesis using no[of j] that 2 by simp
    next
      case 3
      then have "entry_is 0 ino (i_tab s ! i)" using that at c(1) by (simp add: entry_is_def)
      then show ?thesis using no[of i] that 3 by simp
    next
      case 4
      then show ?thesis using that at inv unfolding itab_inv_def by simp
    qed simp
  qed
  moreover have "(c_num (i_tab t ! i) \<noteq> 0 \<longrightarrow> c_magic (i_tab t ! i) = CMAGIC) \<and>
        (c_refs (i_tab t ! i) \<noteq> 0 \<longrightarrow> c_num (i_tab t ! i) \<noteq> 0)" if "i < ITABSIZE" for i
    using that at[OF that] inv c unfolding itab_inv_def by (auto simp: entry_is_def)
  ultimately show ?thesis using len t by (simp add: itab_inv_def)
qed

lemma entry_facts:
  assumes inv: "itab_inv s" and nz: "ino \<noteq> 0" and u: "usable s ino n" and c: "c = entry_for (bview s) ino (i_tab s ! n)"
  shows "n < ITABSIZE" "entry_is 0 ino c" "c_refs c = c_refs (i_tab s ! n)" "c_magic c = CMAGIC"
    "c = i_tab s ! n \<or> c_refs (i_tab s ! n) = 0"
    "entry_is 0 ino (i_tab s ! n) \<or> (\<forall>k<ITABSIZE. \<not> entry_is 0 ino (i_tab s ! k))"
    "k < ITABSIZE \<Longrightarrow> entry_is 0 ino (i_tab s ! k) \<Longrightarrow> k = n"
proof -
  show n: "n < ITABSIZE" using u by (simp add: usable_def)
  show "entry_is 0 ino c" "c_refs c = c_refs (i_tab s ! n)" by (simp_all add: c entry_for_def entry_is_def)
  show "c_magic c = CMAGIC" using inv n nz unfolding c entry_for_def itab_inv_def entry_is_def by auto
  show "c = i_tab s ! n \<or> c_refs (i_tab s ! n) = 0"
    "entry_is 0 ino (i_tab s ! n) \<or> (\<forall>k<ITABSIZE. \<not> entry_is 0 ino (i_tab s ! k))"
    using u by (auto simp: c entry_for_def usable_def)
  show "k = n" if "k < ITABSIZE" "entry_is 0 ino (i_tab s ! k)"
    using that u inv nz unfolding usable_def itab_inv_def entry_is_def by metis
qed

text \<open>
  C12: \<open>i_open\<close> keeps the inode table consistent: no inode is in it twice, loaded entries are
  marked. It never gives up an entry that is in use: every other referenced entry is unchanged,
  and the one it returns is the inode asked for, alive, with one more reference - the entry it
  already had if there was one.
\<close>

theorem i_open_keeps_table:
  assumes "itab_inv s" and "buf_inv s" and "some_free s" and "good_ino s ino"
  shows "wp (i_open 0 ino) (\<lambda>r t. itab_inv t \<and>
     (\<forall>k<ITABSIZE. r \<noteq> Some k \<and> c_refs (i_tab s ! k) \<noteq> 0 \<longrightarrow> i_tab t ! k = i_tab s ! k) \<and>
     (case r of None \<Rightarrow> (\<forall>k<ITABSIZE. c_refs (i_tab t ! k) = c_refs (i_tab s ! k))
      | Some n \<Rightarrow> n < ITABSIZE \<and> entry_is 0 ino (i_tab t ! n) \<and> live (c_node (i_tab t ! n)) \<and>
          c_refs (i_tab t ! n) = c_refs (i_tab s ! n) + 1 \<and>
          (\<forall>k<ITABSIZE. entry_is 0 ino (i_tab s ! k) \<longrightarrow> k = n))) s"
proof -
  have len: "nexti s < ITABSIZE" "length (i_tab s) = ITABSIZE" using assms(1) by (simp_all add: itab_inv_def)
  have nz: "ino \<noteq> 0" using assms(4) by (simp add: good_ino_def)
  show ?thesis
  proof (rule wp_mono[OF i_open_spec[OF assms(2,3) len assms(4)]])
    fix r t
    assume A: "cache_same s t \<and> nexti t < ITABSIZE \<and> of_tab t = of_tab s \<and> opened ino s r (i_tab t)"
    then consider "r = None" "i_tab t = i_tab s"
      | n c where "usable s ino n" "c = entry_for (bview s) ino (i_tab s ! n)" "live (c_node c)"
          "r = Some n" "i_tab t = (i_tab s)[n := c\<lparr>c_refs := c_refs c + 1\<rparr>]"
      | n c where "usable s ino n" "c = entry_for (bview s) ino (i_tab s ! n)" "\<not> live (c_node c)"
          "r = None" "i_tab t = (i_tab s)[n := c]"
      unfolding opened_def by blast
    then show "itab_inv t \<and>
     (\<forall>k<ITABSIZE. r \<noteq> Some k \<and> c_refs (i_tab s ! k) \<noteq> 0 \<longrightarrow> i_tab t ! k = i_tab s ! k) \<and>
     (case r of None \<Rightarrow> (\<forall>k<ITABSIZE. c_refs (i_tab t ! k) = c_refs (i_tab s ! k))
      | Some n \<Rightarrow> n < ITABSIZE \<and> entry_is 0 ino (i_tab t ! n) \<and> live (c_node (i_tab t ! n)) \<and>
          c_refs (i_tab t ! n) = c_refs (i_tab s ! n) + 1 \<and>
          (\<forall>k<ITABSIZE. entry_is 0 ino (i_tab s ! k) \<longrightarrow> k = n))"
    proof cases
      case 1
      then have "itab_inv t" using assms(1) A by (simp add: itab_inv_def)
      then show ?thesis using 1 by simp
    next
      case 2
      note f = entry_facts[OF assms(1) nz 2(1,2)]
      let ?c = "c\<lparr>c_refs := c_refs c + 1\<rparr>"
      have c': "entry_is 0 ino ?c" "c_magic ?c = CMAGIC" using f(2,4) by (simp_all add: entry_is_def)
      have inv: "itab_inv t"
        by (rule itab_inv_update[OF assms(1) f(1) c'(1) nz c'(2) f(6) 2(5)]) (use A in simp)
      have n: "i_tab t ! n = ?c" using 2(5) f(1) len(2) by simp
      have o: "i_tab t ! k = i_tab s ! k" if "k \<noteq> n" for k using 2(5) that by simp
      have uniq: "k = n" if "k < ITABSIZE" "entry_is 0 ino (i_tab s ! k)" for k
        by (rule entry_facts(7)[OF assms(1) nz 2(1,2) that])
      show ?thesis
        unfolding 2(4) option.case option.inject
        using inv c'(1) 2(3) f(1,3) o uniq by (simp add: n)
    next
      case 3
      note f = entry_facts[OF assms(1) nz 3(1,2)]
      have inv: "itab_inv t"
        by (rule itab_inv_update[OF assms(1) f(1,2) nz f(4) f(6) 3(5)]) (use A in simp)
      have n: "i_tab t ! n = c" using 3(5) f(1) len(2) by simp
      have o: "i_tab t ! k = i_tab s ! k" if "k \<noteq> n" for k using 3(5) that by simp
      have "c_refs (i_tab t ! k) = c_refs (i_tab s ! k)" for k using o[of k] n f(3) by (cases "k = n") simp_all
      moreover have "i_tab t ! k = i_tab s ! k" if "c_refs (i_tab s ! k) \<noteq> 0" for k
        using that o[of k] n f(5) by (cases "k = n") auto
      ultimately show ?thesis unfolding 3(4) using inv by simp
    qed
  qed
qed

text \<open>A mounted root device and one live inode, number 3, in the table.\<close>

definition live_ino :: kst where
  "live_ino = two_free\<lparr>i_tab := (i_tab two_free)[4 := zero_cinode\<lparr>c_magic := CMAGIC, c_num := 3, c_refs := 1,
     c_node := zero_dinode\<lparr>i_nlink := 1, i_mode := F_REG\<rparr>\<rparr>]\<rparr>"

lemma live_ino_tab: "k < ITABSIZE \<Longrightarrow> i_tab live_ino ! k = (if k = 4 then zero_cinode\<lparr>c_magic := CMAGIC, c_num := 3, c_refs := 1,
     c_node := zero_dinode\<lparr>i_nlink := 1, i_mode := F_REG\<rparr>\<rparr> else zero_cinode)"
  by (simp add: live_ino_def two_free_def empty_cache_def bss_def nth_list_update)

lemma live_ino_inv: "itab_inv live_ino"
proof -
  have "length (i_tab live_ino) = 20" "nexti live_ino = 0"
    by (simp_all add: live_ino_def two_free_def empty_cache_def bss_def)
  then show ?thesis unfolding itab_inv_def by (auto simp: live_ino_tab zero_cinode_def entry_is_def split: if_splits)
qed

lemma live_ino_idle: "idle live_ino"
  using two_free_stack by (simp add: free_stack_def live_ino_def idle_def)

lemma live_ino_good: "good_ino live_ino 3"
proof -
  have "fs_tab live_ino ! 0 = fs_tab two_free ! 0" by (simp add: live_ino_def)
  then have "s_isize (fs_tab live_ino ! 0) = 4" by (simp add: two_free_def empty_cache_def bss_def)
  then show ?thesis
    using idle_free[OF live_ino_idle] by (simp add: good_ino_def ino_limit_def inode_blk_def)
qed

theorem i_open_keeps_table_witness:
  "wp (i_open 0 3) (\<lambda>r t. itab_inv t \<and> (\<forall>n. r = Some n \<longrightarrow> n = 4 \<and> c_refs (i_tab t ! 4) = 2)) live_ino"
proof (rule wp_mono[OF i_open_keeps_table[OF live_ino_inv _ _ live_ino_good]])
  show "buf_inv live_ino" "some_free live_ino"
    using live_ino_idle idle_free[OF live_ino_idle] by (simp_all add: idle_def)
  have e: "entry_is 0 3 (i_tab live_ino ! 4)" "c_refs (i_tab live_ino ! 4) = 1"
    by (simp_all add: live_ino_tab entry_is_def zero_cinode_def)
  fix r t assume "itab_inv t \<and>
     (\<forall>k<ITABSIZE. r \<noteq> Some k \<and> c_refs (i_tab live_ino ! k) \<noteq> 0 \<longrightarrow> i_tab t ! k = i_tab live_ino ! k) \<and>
     (case r of None \<Rightarrow> (\<forall>k<ITABSIZE. c_refs (i_tab t ! k) = c_refs (i_tab live_ino ! k))
      | Some n \<Rightarrow> n < ITABSIZE \<and> entry_is 0 3 (i_tab t ! n) \<and> live (c_node (i_tab t ! n)) \<and>
          c_refs (i_tab t ! n) = c_refs (i_tab live_ino ! n) + 1 \<and>
          (\<forall>k<ITABSIZE. entry_is 0 3 (i_tab live_ino ! k) \<longrightarrow> k = n))"
  then show "itab_inv t \<and> (\<forall>n. r = Some n \<longrightarrow> n = 4 \<and> c_refs (i_tab t ! 4) = 2)"
  proof (cases r)
    case (Some a)
    then have "4 = a" using \<open>itab_inv t \<and> _\<close> e(1) by simp
    then show ?thesis using Some \<open>itab_inv t \<and> _\<close> e(2) by simp
  qed simp
qed

section \<open>Writing an inode and opening it again\<close>

lemma inode_split: "unat (ino :: u16) = 8 * unat (drop_bit 3 ino) + unat (ino AND 7)"
proof -
  have "ino AND 7 = take_bit 3 ino" by (simp add: take_bit_eq_mask mask_eq_exp_minus_1)
  then have "unat (ino AND 7) = take_bit 3 (unat ino)" by (simp only: unsigned_take_bit_eq)
  then have "unat (ino AND 7) = unat ino mod 8" by (simp only: take_bit_eq_mod) simp
  moreover have "unat (drop_bit 3 ino) = drop_bit 3 (unat ino)" by (rule unat_drop_bit_eq)
  then have "unat (drop_bit 3 ino) = unat ino div 8" by (simp only: drop_bit_eq_div) simp
  ultimately show ?thesis by simp
qed

lemma inode_other:
  assumes "inode_blk ino = inode_blk ino'" and "ino \<noteq> ino'"
  shows "unat (ino AND 7) \<noteq> unat (ino' AND 7)"
proof
  assume "unat (ino AND 7) = unat (ino' AND 7)"
  moreover have "drop_bit 3 ino = drop_bit 3 ino'" using assms(1) by (simp add: inode_blk_def)
  ultimately have "unat ino = unat ino'" using inode_split[of ino] inode_split[of ino'] by simp
  then show False using assms(2) by (simp add: word_unat_eq_iff)
qed

lemma inode_at_cong:
  assumes "\<And>c k. unat c < 2048 \<Longrightarrow> k < 512 \<Longrightarrow> V c k = W c k" and "unat (inode_blk ino) < 2048"
  shows "inode_at V ino = inode_at W ino"
  unfolding inode_at_def using assms by (intro block_funD[OF block_fun_inode]) simp_all

lemma wr_inode_spec:
  assumes inv: "buf_inv s" "some_free s" and n: "n < length (i_tab s)" and c: "c = i_tab s ! n" "c_magic c = CMAGIC" "c_dev c = 0"
    and len: "length (i_addr (c_node c)) = 20" and blk: "unat (inode_blk (c_num c)) < 2048" "\<not> held s (inode_blk (c_num c))"
  shows "wp (wr_inode n) (\<lambda>_ t. buf_inv t \<and> busy_same s t \<and> fs_tab t = fs_tab s \<and>
     i_tab t = (i_tab s)[n := c\<lparr>c_dirty := 0\<rparr>] \<and> inode_at (bview t) (c_num c) = c_node c \<and>
     (\<forall>ino. unat (inode_blk ino) < 2048 \<and> ino \<noteq> c_num c \<longrightarrow> inode_at (bview t) ino = inode_at (bview s) ino)) s"
proof -
  define b where "b = unat (c_num c AND 7) * 64"
  define f where "f = put_dinode b (c_node c)"
  have b: "b + 64 \<le> 512" using unat_and_7[of "c_num c"] by (simp add: b_def)
  have hb: "block_fun (\<lambda>d. f d k)" if "k < 512" for k
    unfolding block_fun_def f_def put_dinode_def using that by auto
  have "wp (write_buf_now 0 (inode_blk (c_num c)) 0 f) (\<lambda>_. wp (upd_ino n (\<lambda>c. c\<lparr>c_dirty := 0\<rparr>)) (\<lambda>_ t.
     buf_inv t \<and> busy_same s t \<and> fs_tab t = fs_tab s \<and>
     i_tab t = (i_tab s)[n := c\<lparr>c_dirty := 0\<rparr>] \<and> inode_at (bview t) (c_num c) = c_node c \<and>
     (\<forall>ino. unat (inode_blk ino) < 2048 \<and> ino \<noteq> c_num c \<longrightarrow> inode_at (bview t) ino = inode_at (bview s) ino))) s"
  proof (rule wp_mono[OF write_buf_now_spec[OF inv(1) blk inv(2) _ hb]])
    fix x :: unit and t
    let ?V = "(bview s)(inode_blk (c_num c) := f (bview s (inode_blk (c_num c))))"
    assume "cache_step s ?V t \<and> (\<forall>k<512. disk_block t (inode_blk (c_num c)) k = f (bview s (inode_blk (c_num c))) k)"
    then have st: "cache_step s ?V t" by simp
    note d = cache_stepD[OF st]
    have v: "bview t a k = ?V a k" if "unat a < 2048" "k < 512" for a k using d(15)[OF that] .
    have "inode_at (bview t) (c_num c) = inode_at ?V (c_num c)" by (rule inode_at_cong[OF v blk(1)])
    also have "\<dots> = c_node c" using len by (simp add: inode_at_def f_def b_def)
    finally have self: "inode_at (bview t) (c_num c) = c_node c" .
    have other: "inode_at (bview t) ino = inode_at (bview s) ino" if "unat (inode_blk ino) < 2048" "ino \<noteq> c_num c" for ino
    proof -
      have "inode_at (bview t) ino = inode_at ?V ino" by (rule inode_at_cong[OF v that(1)])
      also have "\<dots> = inode_at (bview s) ino"
      proof (cases "inode_blk ino = inode_blk (c_num c)")
        case True
        then have "unat (ino AND 7) \<noteq> unat (c_num c AND 7)" using inode_other that(2) by blast
        then have "b + 64 \<le> unat (ino AND 7) * 64 \<or> unat (ino AND 7) * 64 + 64 \<le> b" unfolding b_def by linarith
        then have "get_dinode (put_dinode b (c_node c) g) (unat (ino AND 7) * 64) = get_dinode g (unat (ino AND 7) * 64)" for g
          by (intro get_put_dinode_other) linarith
        then show ?thesis using True by (simp add: inode_at_def f_def)
      qed (simp add: inode_at_def)
      finally show ?thesis .
    qed
    show "wp (upd_ino n (\<lambda>c. c\<lparr>c_dirty := 0\<rparr>)) (\<lambda>_ t.
     buf_inv t \<and> busy_same s t \<and> fs_tab t = fs_tab s \<and>
     i_tab t = (i_tab s)[n := c\<lparr>c_dirty := 0\<rparr>] \<and> inode_at (bview t) (c_num c) = c_node c \<and>
     (\<forall>ino. unat (inode_blk ino) < 2048 \<and> ino \<noteq> c_num c \<longrightarrow> inode_at (bview t) ino = inode_at (bview s) ino)) t"
      using d(1-4) self other c(1) by simp
  qed simp
  then show ?thesis
    using c by (simp add: wr_inode_def magic_def f_def b_def inode_blk_def)
qed

text \<open>
  C13: An inode written by \<open>wr_inode\<close> is the one \<open>i_open\<close> reads back: once it is no longer in the
  table, opening its number - with an entry free - loads exactly the attributes, size and block
  addresses that were written, with one reference; the other inodes on the device, those of the
  same block included, are as before.
\<close>

theorem wr_inode_i_open:
  assumes "buf_inv s" and "some_free s" and "n < length (i_tab s)" and "c = i_tab s ! n" and "c_magic c = CMAGIC"
    and "c_dev c = 0" and "length (i_addr (c_node c)) = 20" and "good_ino s (c_num c)" and "live (c_node c)"
    and "length tab = ITABSIZE" and "\<forall>k<ITABSIZE. \<not> entry_is 0 (c_num c) (tab ! k)"
    and "free < ITABSIZE" and "c_refs (tab ! free) = 0" and "nxt < ITABSIZE"
  shows "wp (wr_inode n) (\<lambda>_ t.
     (\<forall>ino. unat (inode_blk ino) < 2048 \<and> ino \<noteq> c_num c \<longrightarrow> inode_at (bview t) ino = inode_at (bview s) ino) \<and>
     wp (i_open 0 (c_num c)) (\<lambda>r u. \<exists>m<ITABSIZE. r = Some m \<and> c_node (i_tab u ! m) = c_node c \<and> c_refs (i_tab u ! m) = 1)
       (t\<lparr>i_tab := tab, nexti := nxt\<rparr>)) s"
proof -
  have blk: "unat (inode_blk (c_num c)) < 2048" "\<not> held s (inode_blk (c_num c))"
    using assms(8) by (simp_all add: good_ino_def)
  show ?thesis
  proof (rule wp_mono[OF wr_inode_spec[OF assms(1-7) blk]])
    fix x :: unit and t
    assume t: "buf_inv t \<and> busy_same s t \<and> fs_tab t = fs_tab s \<and>
     i_tab t = (i_tab s)[n := c\<lparr>c_dirty := 0\<rparr>] \<and> inode_at (bview t) (c_num c) = c_node c \<and>
     (\<forall>ino. unat (inode_blk ino) < 2048 \<and> ino \<noteq> c_num c \<longrightarrow> inode_at (bview t) ino = inode_at (bview s) ino)"
    let ?t = "t\<lparr>i_tab := tab, nexti := nxt\<rparr>"
    have "wp (i_open 0 (c_num c)) (\<lambda>r u. \<exists>m<ITABSIZE. r = Some m \<and> c_node (i_tab u ! m) = c_node c \<and> c_refs (i_tab u ! m) = 1) ?t"
    proof (rule wp_mono[OF i_open_spec[of ?t]])
      show "buf_inv ?t" "some_free ?t" "nexti ?t < ITABSIZE" "length (i_tab ?t) = ITABSIZE"
        using t assms(2,10,14) busy_same_free by auto
      show "good_ino ?t (c_num c)" using assms(8) t busy_same_held[of s t] by (simp add: good_ino_def)
      fix r u assume u: "cache_same ?t u \<and> nexti u < ITABSIZE \<and> of_tab u = of_tab ?t \<and> opened (c_num c) ?t r (i_tab u)"
      have load: "entry_for (bview ?t) (c_num c) (tab ! m) = (tab ! m)\<lparr>c_node := c_node c, c_dev := 0, c_num := c_num c, c_magic := CMAGIC\<rparr>"
        if "m < ITABSIZE" for m using that assms(11) t by (simp add: entry_for_def)
      have use_refs: "m < ITABSIZE \<and> c_refs (tab ! m) = 0" if "usable ?t (c_num c) m" for m
        using that assms(11) by (auto simp: usable_def)
      show "\<exists>m<ITABSIZE. r = Some m \<and> c_node (i_tab u ! m) = c_node c \<and> c_refs (i_tab u ! m) = 1"
        using u assms(9,10,12,13) load use_refs unfolding opened_def by auto
    qed
    then show "(\<forall>ino. unat (inode_blk ino) < 2048 \<and> ino \<noteq> c_num c \<longrightarrow> inode_at (bview t) ino = inode_at (bview s) ino) \<and>
     wp (i_open 0 (c_num c)) (\<lambda>r u. \<exists>m<ITABSIZE. r = Some m \<and> c_node (i_tab u ! m) = c_node c \<and> c_refs (i_tab u ! m) = 1) ?t"
      using t by simp
  qed
qed

theorem wr_inode_i_open_witness:
  "wp (wr_inode 4) (\<lambda>_ t. wp (i_open 0 3) (\<lambda>r u. \<exists>m<ITABSIZE. r = Some m \<and> i_mode (c_node (i_tab u ! m)) = F_REG)
     (t\<lparr>i_tab := i_tab bss, nexti := 7\<rparr>)) live_ino"
proof -
  have c: "c_num (i_tab live_ino ! 4) = 3" by (simp add: live_ino_tab)
  have "wp (wr_inode 4) (\<lambda>_ t.
     (\<forall>ino. unat (inode_blk ino) < 2048 \<and> ino \<noteq> c_num (i_tab live_ino ! 4) \<longrightarrow> inode_at (bview t) ino = inode_at (bview live_ino) ino) \<and>
     wp (i_open 0 (c_num (i_tab live_ino ! 4))) (\<lambda>r u. \<exists>m<ITABSIZE. r = Some m \<and> c_node (i_tab u ! m) = c_node (i_tab live_ino ! 4) \<and>
       c_refs (i_tab u ! m) = 1) (t\<lparr>i_tab := i_tab bss, nexti := 7\<rparr>)) live_ino"
  proof (rule wr_inode_i_open[where free = 0])
    show "buf_inv live_ino" "some_free live_ino"
      using live_ino_idle idle_free[OF live_ino_idle] by (simp_all add: idle_def)
    show "4 < length (i_tab live_ino)" using live_ino_inv by (simp add: itab_inv_def)
    show "good_ino live_ino (c_num (i_tab live_ino ! 4))" using live_ino_good by (simp add: c)
  qed (simp_all add: live_ino_tab live_def zero_cinode_def zero_dinode_def bss_def entry_is_def)
  then show ?thesis unfolding c by (rule wp_mono) (auto elim!: wp_mono simp: live_ino_tab)
qed

end
