(* ===== verification/Exit_Wait.thy ===== *)
theory Exit_Wait
  imports Process
begin

text \<open>
  Properties of the process calls: signals at the return from a call, swapping a process in,
  fork with closed descriptors, a process's exit seen by its parent's \<open>_wait\<close>, and sleeping.
\<close>

section \<open>Signals at the return from a call\<close>

definition pending_of :: "kst \<Rightarrow> u16" where
  "pending_of s = p_pending (me_proc s)"

definition takes_signal :: "kst \<Rightarrow> nat \<Rightarrow> bool" where
  "takes_signal s j \<longleftrightarrow> sigmask j AND pending_of s \<noteq> 0 \<and> u_sigvec (udata s) ! j \<noteq> SIG_IGN"

text \<open>The state after the signal \<open>j\<close> has been chosen for its handler.\<close>

definition caught :: "nat \<Rightarrow> kst \<Rightarrow> kst" where
  "caught j s = s\<lparr>ptab := (ptab s)[u_ptab (udata s) := (me_proc s)\<lparr>p_pending := 0\<rparr>],
     udata := (udata s)\<lparr>u_cursig := j\<rparr>\<rparr>"

lemma sigmask_nz: "0 < j \<Longrightarrow> j < NSIGS \<Longrightarrow> sigmask j \<noteq> 0"
proof -
  assume "0 < j" "j < NSIGS"
  then have "bit (sigmask j) j" by (simp add: sigmask_def bit_simps)
  then show ?thesis by auto
qed

lemma chksig_skip: "\<not> takes_signal s j \<Longrightarrow> u_sigvec (udata s) ! j \<noteq> SIG_DFL \<or> sigmask j AND pending_of s = 0 \<Longrightarrow> chksig j s = Ret () s"
  by (auto simp: chksig_def takes_signal_def pending_of_def me_proc_def run_simps)

lemma chksig_take:
  assumes "takes_signal s j" and "u_sigvec (udata s) ! j \<noteq> SIG_DFL" and "0 < j" and "j < NSIGS"
  shows "chksig j s = Ret () (caught j s)"
  using assms sigmask_nz[OF assms(3,4)]
  by (simp add: chksig_def takes_signal_def pending_of_def me_proc_def run_simps access_defs caught_def)

lemma pending_caught: "u_ptab (udata s) < length (ptab s) \<Longrightarrow> pending_of (caught j s) = 0"
  by (simp add: pending_of_def caught_def me_proc_def)

lemma chksig_loop_none: "pending_of s = 0 \<Longrightarrow> forK js chksig s = Ret () s"
proof (induction js)
  case (Cons j js)
  then have "chksig j s = Ret () s" by (intro chksig_skip) (simp_all add: takes_signal_def)
  then show ?case using Cons by (simp add: run_simps)
qed (simp add: run_simps)

lemma chksig_loop:
  assumes "\<forall>j\<in>set js. 0 < j \<and> j < NSIGS" and "\<forall>j\<in>set js. u_sigvec (udata s) ! j \<noteq> SIG_DFL \<or> sigmask j AND pending_of s = 0"
    and "u_ptab (udata s) < length (ptab s)"
  shows "forK js chksig s = Ret () (case find (takes_signal s) js of None \<Rightarrow> s | Some j \<Rightarrow> caught j s)"
  using assms(1,2)
proof (induction js)
  case (Cons j js)
  show ?case
  proof (cases "takes_signal s j")
    case True
    then have "u_sigvec (udata s) ! j \<noteq> SIG_DFL" using Cons.prems by (auto simp: takes_signal_def)
    then have "chksig j s = Ret () (caught j s)" using True Cons.prems by (intro chksig_take) simp_all
    then show ?thesis
      using True chksig_loop_none[OF pending_caught[OF assms(3), of j], of js] by (simp add: run_simps)
  next
    case False
    then have "chksig j s = Ret () s" using Cons.prems by (intro chksig_skip) simp_all
    then show ?thesis using False Cons by (simp add: run_simps)
  qed
qed (simp add: run_simps)

text \<open>
  When several caught signals are pending, \<open>chksigs\<close> chooses the lowest one for its handler
  and clears the pending bits of all of them, because it masks with the logical negation of the
  signal's bit: the other signals are lost.
\<close>

theorem chksigs_forgets:
  assumes "u_ptab (udata s) < length (ptab s)"
    and "\<forall>j. 0 < j \<and> j < NSIGS \<longrightarrow> u_sigvec (udata s) ! j \<noteq> SIG_DFL \<or> sigmask j AND p_pending (me_proc s) = 0"
    and "0 < j" and "j < NSIGS" and "sigmask j AND p_pending (me_proc s) \<noteq> 0" and "u_sigvec (udata s) ! j \<noteq> SIG_IGN"
    and "\<forall>i. 0 < i \<and> i < j \<longrightarrow> sigmask i AND p_pending (me_proc s) = 0 \<or> u_sigvec (udata s) ! i = SIG_IGN"
  shows "wp chksigs (\<lambda>_ t. p_pending (me_proc t) = 0 \<and> u_cursig (udata t) = j \<and> u_sigvec (udata t) = u_sigvec (udata s)) s"
proof -
  have t: "takes_signal s j" using assms by (simp add: takes_signal_def pending_of_def)
  have "find (takes_signal s) [1..<NSIGS] = Some j"
    unfolding find_Some_iff
    using t assms(3,4,7) by (intro exI[of _ "j - 1"]) (auto simp: takes_signal_def pending_of_def)
  then have "forK [1..<NSIGS] chksig s = Ret () (caught j s)"
    using assms(2) by (subst chksig_loop[OF _ _ assms(1)]) (simp_all add: pending_of_def del: upt_Suc)
  moreover have "p_pending (ptab s ! u_ptab (udata s)) \<noteq> 0" using assms(5) by (auto simp: me_proc_def)
  ultimately have "chksigs s = Ret () (caught j s)"
    by (simp add: chksigs_def run_simps)
  then show ?thesis using assms(1) by (simp add: wp_def caught_def me_proc_def)
qed

theorem chksigs_forgets_witness:
  "wp chksigs (\<lambda>_ t. p_pending (me_proc t) = 0 \<and> u_cursig (udata t) = 3)
     (bss\<lparr>ptab := (ptab bss)[0 := zero_proc\<lparr>p_pending := sigmask 3 OR sigmask 14\<rparr>],
        udata := (udata bss)\<lparr>u_sigvec := replicate 16 0x7000\<rparr>\<rparr>)" (is "wp _ _ ?s")
proof (rule wp_mono[OF chksigs_forgets[of ?s 3]])
  have me: "me_proc ?s = zero_proc\<lparr>p_pending := sigmask 3 OR sigmask 14\<rparr>"
    by (simp add: me_proc_def bss_def zero_udata_def)
  show "u_ptab (udata ?s) < length (ptab ?s)" by (simp add: bss_def zero_udata_def)
  show "sigmask 3 AND p_pending (me_proc ?s) \<noteq> 0" unfolding me by (simp add: sigmask_def)
  show "\<forall>i. 0 < i \<and> i < 3 \<longrightarrow> sigmask i AND p_pending (me_proc ?s) = 0 \<or> u_sigvec (udata ?s) ! i = SIG_IGN"
  proof (intro allI impI disjI1)
    fix i :: nat assume "0 < i \<and> i < 3"
    then have "i = 1 \<or> i = 2" by linarith
    then show "sigmask i AND p_pending (me_proc ?s) = 0" unfolding me by (auto simp: sigmask_def)
  qed
qed simp_all

section \<open>Swapping a process in\<close>

definition refilled :: "nat \<Rightarrow> kst \<Rightarrow> blkbuf list" where
  "refilled i s = (bufpool s)[i := (bufpool s ! i)\<lparr>bf_data :=
     (\<lambda>k. if k < 512 then disk_block s (bf_blk (bufpool s ! i)) k else bf_data (bufpool s ! i) k)\<rparr>]"

lemma swapread_eq:
  assumes len: "length (bufpool s) = NBUFS" and "u_buf (udata s) = Some i" and "i < NBUFS"
  shows "swapread SWAPDEV blkno nbytes buf s =
     Ret 0 (s\<lparr>swapbase := buf, swapcnt := nbytes, swapblk := blkno, bufpool := refilled i s\<rparr>)"
proof -
  let ?s = "s\<lparr>swapbase := buf, swapcnt := nbytes, swapblk := blkno\<rparr>"
  have e: "dev_entry SWAPDEV = retK (dev_tab ! 1)" by (simp add: dev_entry_def)
  have off: "disk_off (bf_blk (bufpool s ! i) + word_of_int 4096) = disk_off (bf_blk (bufpool s ! i))"
    using blk_base_addr_4096[of "bf_blk (bufpool s ! i)"] by (simp add: blk_base_addr_off)
  have "ppuwd_read 4096 2 ?s = Ret 0 (?s\<lparr>bufpool := refilled i s\<rparr>)"
    using ppuwd_read_eq[of ?s i "bf_blk (bufpool s ! i)" 4096 2] assms(2,3) len off[simplified]
    by (simp add: disk_block_def refilled_def cong: if_cong)
  then show ?thesis
    using assms(3) len by (simp add: swapread_def run_simps e dev_tab_def)
qed

text \<open>
  Switching to another process never succeeds. The swap reads do not move memory, so
  the \<open>udata\<close> in place is still the old process's, and \<open>swapin\<close> panics.
\<close>

theorem swapin_mangled:
  assumes "length (bufpool s) = NBUFS" and "u_buf (udata s) = Some i" and "i < NBUFS"
    and "newp \<noteq> u_ptab (udata s)"
  shows "swapin newp s = Halt (Panic ''mangled swapin'')"
proof -
  have l: "length (refilled i t) = length (bufpool t)" for t by (simp add: refilled_def)
  show ?thesis
    using assms(4) swapread_eq[OF assms(1-3)] l
    by (simp add: swapin_def run_simps swapread_eq[OF _ _ assms(3)] assms(1,2) access_defs)
qed

theorem swapin_mangled_witness:
  "swapin 1 (empty_cache\<lparr>udata := (udata empty_cache)\<lparr>u_buf := Some 2\<rparr>\<rparr>) = Halt (Panic ''mangled swapin'')"
  using swapin_mangled[of "empty_cache\<lparr>udata := (udata empty_cache)\<lparr>u_buf := Some 2\<rparr>\<rparr>" 2 1]
  by (simp add: empty_cache_def bss_def zero_udata_def)

section \<open>fork\<close>

definition ref_files :: "nat list \<Rightarrow> unit k" where
  "ref_files js = forK js (\<lambda>j. bindK (getK (\<lambda>s. u_files (udata s) ! j)) (\<lambda>fd.
     upd_oft (unat fd) (\<lambda>f. f\<lparr>o_refs := o_refs f + 1\<rparr>)))"

lemma thenK_assoc: "thenK (thenK a b) c = thenK a (thenK b c)"
  by (rule ext) (simp add: run_simps split: outcome.splits)

lemma thenK_ret: "thenK m (retK ()) = (m :: ('s, unit) kop)"
  by (rule ext) (simp add: run_simps split: outcome.splits)

lemma ret_thenK: "thenK (retK ()) m = m"
  by (rule ext) (simp add: run_simps)

lemma ref_files_closed: "j \<in> set js \<Longrightarrow> u_files (udata s) ! j = 0xFF \<Longrightarrow> ref_files js s = Halt BadAccess"
  by (induction js arbitrary: s) (auto simp: ref_files_def run_simps upd_oft_def)

text \<open>
  A process with a closed descriptor cannot fork: \<open>newproc\<close> takes the mark \<open>0xFF\<close> of a
  closed descriptor for an index into the open file table and leaves the table.
\<close>

theorem newproc_closed_descriptor:
  assumes "j < UFTSIZE" and "u_files (udata s) ! j = 0xFF"
    and "u_cwd (udata s) = Some d" and "d < length (i_tab s)" and "unat (c_refs (i_tab s ! d)) < 39"
  shows "newproc p s = Halt BadAccess"
proof -
  define me where "me = u_ptab (udata s)"
  define pre where "pre = doK [
     upd_proc p (\<lambda>e. e\<lparr>p_swap := of_nat (p * 65 + 1)\<rparr>),
     upd_proc p (\<lambda>e. e\<lparr>p_status := P_RUNNING\<rparr>),
     upd_proc p (\<lambda>e. e\<lparr>p_pptr := Some me\<rparr>),
     (\<lambda>s. upd_proc p (\<lambda>e. e\<lparr>p_ignored := p_ignored (ptab s ! me)\<rparr>) s),
     (\<lambda>s. upd_proc p (\<lambda>e. e\<lparr>p_uid := p_uid (ptab s ! me)\<rparr>) s),
     upd_ud (\<lambda>u. u\<lparr>u_ptab := p, u_utime := zero_time, u_stime := zero_time, u_cutime := zero_time,
       u_cstime := zero_time\<rparr>),
     (\<lambda>s. upd_ud (\<lambda>u. u\<lparr>u_time := rdtime s\<rparr>) s),
     bindK (getK (\<lambda>s. u_cwd (udata s))) i_ref_ptr,
     upd_ud (\<lambda>u. u\<lparr>u_cursig := 0, u_error := 0\<rparr>)]"
  have run: "newproc p s = thenK pre (ref_files [0..<UFTSIZE]) s"
    unfolding newproc_def bindK_getK me_def[symmetric] pre_def ref_files_def
    by (simp only: doK.simps thenK_assoc thenK_ret ret_thenK)
  have "unat (c_refs (i_tab s ! d) + 1) = (unat (c_refs (i_tab s ! d)) + 1) mod 256"
    by (simp add: unat_word_ariths)
  then have "unat (c_refs (i_tab s ! d) + 1) \<noteq> 40" using assms(5) by simp
  then have "wp pre (\<lambda>_ t. u_files (udata t) = u_files (udata s)) s"
    using assms(3,4) by (simp add: pre_def wp_def run_simps access_defs i_ref_ptr_def i_ref_def)
  then obtain t where "pre s = Ret () t" and "u_files (udata t) = u_files (udata s)" by (auto simp: wp_iff)
  then show ?thesis
    using run ref_files_closed[of j "[0..<UFTSIZE]" t] assms(1,2) by (simp add: run_simps del: upt_Suc)
qed

theorem newproc_closed_descriptor_witness:
  "newproc 1 (bss\<lparr>udata := (udata bss)\<lparr>u_cwd := Some 0, u_files := 2 # replicate 9 0xFF\<rparr>\<rparr>) = Halt BadAccess"
  using newproc_closed_descriptor[of 1 "bss\<lparr>udata := (udata bss)\<lparr>u_cwd := Some 0, u_files := 2 # replicate 9 0xFF\<rparr>\<rparr>" 0 1]
  by (simp add: bss_def zero_cinode_def)

lemma access_run:
  "upd_ud f s = Ret () (s\<lparr>udata := f (udata s)\<rparr>)"
  "set_error e s = Ret () (s\<lparr>udata := (udata s)\<lparr>u_error := e\<rparr>\<rparr>)"
  "upd_proc p y s = Ret () (s\<lparr>ptab := (ptab s)[p := y (ptab s ! p)]\<rparr>)"
  "derefK (Some i) s = Ret i s"
  by (simp_all add: access_defs run_simps)

section \<open>exit and wait\<close>

lemma close_all_closed:
  assumes "\<forall>j<UFTSIZE. u_files (udata s) ! j AND 0x80 \<noteq> 0"
  shows "close_all s = Ret () s"
proof -
  have "forK js (\<lambda>j. bindK (getK (\<lambda>s. u_files (udata s) ! j)) (\<lambda>fd.
     whenK (fd AND 0x80 = 0) (bindK (doclose (int j)) (\<lambda>_. retK ())))) s = Ret () s"
    if "\<forall>j\<in>set js. j < UFTSIZE" for js
    using that assms by (induction js) (simp_all add: run_simps)
  then show ?thesis unfolding close_all_def by simp
qed

definition keeps_cwd :: "cinode \<Rightarrow> bool" where
  "keeps_cwd c \<longleftrightarrow> c_magic c = CMAGIC \<and> 2 \<le> unat (c_refs c) \<and> getmode c \<noteq> F_PIPE"

lemma i_deref_keeps:
  assumes "keeps_cwd (i_tab s ! d)" and "d < length (i_tab s)"
  shows "i_deref d s = Ret () (s\<lparr>i_tab := (i_tab s)[d := (i_tab s ! d)\<lparr>c_refs := c_refs (i_tab s ! d) - 1\<rparr>]\<rparr>)"
proof -
  have nz: "c_refs (i_tab s ! d) \<noteq> 0" "c_refs (i_tab s ! d) \<noteq> 1" using assms by (auto simp: keeps_cwd_def)
  then have n1: "c_refs (i_tab s ! d) - 1 \<noteq> 0" by simp
  show ?thesis
    using assms nz n1 by (simp add: i_deref_def magic_def run_simps access_defs keeps_cwd_def)
qed

text \<open>The process table after the exit of process \<open>c\<close>.\<close>

definition exit_udata :: "u_data \<Rightarrow> u_data" where
  "exit_udata u = u\<lparr>u_utime := addtick (u_utime u) (u_cutime u), u_stime := addtick (u_stime u) (u_cstime u)\<rparr>"

definition exit_entry :: "u16 \<Rightarrow> u_data \<Rightarrow> p_tab \<Rightarrow> p_tab" where
  "exit_entry st u p = stash_times (exit_udata u) (p\<lparr>p_exitval := st\<rparr>)"

definition exit_table :: "nat \<Rightarrow> nat option \<Rightarrow> u16 \<Rightarrow> u16 \<Rightarrow> u_data \<Rightarrow> p_tab list \<Rightarrow> p_tab list" where
  "exit_table c init st ev u tab = (map (wakeup_entry ev) ((map (reparent c init) (tab[c := (tab ! c)\<lparr>p_exitval := st\<rparr>]))
     [c := exit_entry st u (tab ! c)]))[c := (exit_entry st u (tab ! c))\<lparr>p_status := P_ZOMBIE\<rparr>]"

lemma doexit_cleanup_eq:
  assumes len: "length (ptab s) = PTABSIZE" and c: "c = u_ptab (udata s)" "c < PTABSIZE"
    and child: "p_status (ptab s ! c) = P_RUNNING" "p_pptr (ptab s ! c) = Some q" "q \<noteq> c" and init: "initproc s \<noteq> Some c"
    and files: "\<forall>j<UFTSIZE. u_files (udata s) ! j AND 0x80 \<noteq> 0"
    and cwd: "u_cwd (udata s) = Some d" "keeps_cwd (i_tab s ! d)" and cwd_range: "d < length (i_tab s)"
  shows "doexit_cleanup val val2 s = Ret () (s\<lparr>
     i_tab := (i_tab s)[d := (i_tab s ! d)\<lparr>c_refs := c_refs (i_tab s ! d) - 1\<rparr>],
     udata := exit_udata (udata s),
     ptab := exit_table c (initproc s) (exit_status val val2) (ptab_ptr s q) (udata s) (ptab s)\<rparr>)"
proof -
  have me: "u_ptab (udata s) = c" using c by simp
  show ?thesis
    using len c(2) child init cwd close_all_closed[OF files] cwd_range
    by (simp add: doexit_cleanup_def run_simps access_run me i_deref_keeps wakeup_eq for_all_procs reparent_def
        ptab_ptr_def wakeup_entry_def exit_table_def exit_entry_def exit_udata_def stash_times_def del: upt_Suc
        cong: if_cong option.case_cong)
qed

lemma exit_table_child:
  assumes "length tab = PTABSIZE" and "c < PTABSIZE"
  shows "exit_table c init st ev u tab ! c = (exit_entry st u (tab ! c))\<lparr>p_status := P_ZOMBIE\<rparr>"
  using assms by (simp add: exit_table_def)

lemma exit_table_other:
  assumes "length tab = PTABSIZE" and "i < PTABSIZE" and "i \<noteq> c"
  shows "exit_table c init st ev u tab ! i = wakeup_entry ev (reparent c init (tab ! i))"
  using assms by (simp add: exit_table_def)

lemma length_exit_table: "length (exit_table c init st ev u tab) = length tab"
  by (simp add: exit_table_def)

lemma exit_entry_simps:
  "p_status (exit_entry st u p) = p_status p" "p_pptr (exit_entry st u p) = p_pptr p"
  "p_pid (exit_entry st u p) = p_pid p" "p_exitval (exit_entry st u p) = st"
  "stashed_utime (exit_entry st u p) = addtick (u_utime u) (u_cutime u)"
  "stashed_stime (exit_entry st u p) = addtick (u_stime u) (u_cstime u)"
  by (simp_all add: exit_entry_def exit_udata_def stash_times_def stashed_utime_def stashed_stime_def)

lemma stash_status: "stashed_utime (p\<lparr>p_status := st\<rparr>) = stashed_utime p" "stashed_stime (p\<lparr>p_status := st\<rparr>) = stashed_stime p"
  by (simp_all add: stashed_utime_def stashed_stime_def)

text \<open>Reaping the first dead child in one round.\<close>

lemma sys_wait_reaps:
  assumes me: "u_ptab (udata s) = q" and quiet: "u_cursig (udata s) = 0" "p_pending (ptab s ! q) = 0"
    and loc: "\<not> statloc > at_udata (lnk s)"
    and c: "c < PTABSIZE" "c \<noteq> q" "dead_child q (ptab s ! c)" "\<forall>i<c. \<not> dead_child q (ptab s ! i)"
    and len: "length (ptab s) = PTABSIZE"
  shows "wp (sys_wait env statloc) (\<lambda>r t. r = p_pid (ptab s ! c) \<and>
     ptab t = (ptab s)[c := (ptab s ! c)\<lparr>p_status := P_EMPTY\<rparr>] \<and>
     u_cutime (udata t) = addtick (u_cutime (udata s)) (stashed_utime (ptab s ! c)) \<and>
     u_cstime (udata t) = addtick (u_cstime (udata s)) (stashed_stime (ptab s ! c)) \<and>
     (statloc \<noteq> 0 \<longrightarrow> mem t statloc = lo8 (p_exitval (ptab s ! c)) \<and> mem t (statloc + 1) = hi8 (p_exitval (ptab s ! c)))) s"
proof -
  have f: "find (\<lambda>i. dead_child q (ptab s ! i)) [0..<PTABSIZE] = Some c"
    unfolding find_Some_iff using c by (intro exI[of _ c]) auto
  have has: "\<exists>i<PTABSIZE. is_child q i (ptab s ! i)"
    using c by (auto simp: is_child_def dead_child_def)
  have w: "wp (wait_round statloc) (\<lambda>r t. r = Some (p_pid (ptab s ! c)) \<and>
     ptab t = (ptab s)[c := (ptab s ! c)\<lparr>p_status := P_EMPTY\<rparr>] \<and>
     u_cutime (udata t) = addtick (u_cutime (udata s)) (stashed_utime (ptab s ! c)) \<and>
     u_cstime (udata t) = addtick (u_cstime (udata s)) (stashed_stime (ptab s ! c)) \<and>
     (statloc \<noteq> 0 \<longrightarrow> mem t statloc = lo8 (p_exitval (ptab s ! c)) \<and> mem t (statloc + 1) = hi8 (p_exitval (ptab s ! c)))) s"
    using me quiet f by (simp add: wait_round_def chksigs_def put_mem_def words_byte_def del: upt_Suc)
  have "wp (wait_loop env statloc) (\<lambda>r t. r = p_pid (ptab s ! c) \<and>
     ptab t = (ptab s)[c := (ptab s ! c)\<lparr>p_status := P_EMPTY\<rparr>] \<and>
     u_cutime (udata t) = addtick (u_cutime (udata s)) (stashed_utime (ptab s ! c)) \<and>
     u_cstime (udata t) = addtick (u_cstime (udata s)) (stashed_stime (ptab s ! c)) \<and>
     (statloc \<noteq> 0 \<longrightarrow> mem t statloc = lo8 (p_exitval (ptab s ! c)) \<and> mem t (statloc + 1) = hi8 (p_exitval (ptab s ! c)))) s"
    by (cases env) (use w in \<open>auto elim!: wp_mono\<close>)
  then show ?thesis using me has loc by (auto simp: sys_wait_def)
qed

text \<open>
  C14: The exit of a process with its files closed makes it a zombie and wakes the parent that
  waits for it; the parent's \<open>_wait\<close> - with no signal pending and no other dead child before
  it in the table - then returns the child's process number, stores the status made of the exit
  code and the signal, adds the child's times, with those of its own children, to the parent's
  and frees the table entry.
\<close>

theorem exit_then_wait:
  assumes "length (ptab s) = PTABSIZE" and "c = u_ptab (udata s)" and "c < PTABSIZE"
    and "p_status (ptab s ! c) = P_RUNNING" and "p_pptr (ptab s ! c) = Some q" and "q \<noteq> c" and "q < PTABSIZE"
    and "initproc s \<noteq> Some c" and "\<forall>j<UFTSIZE. u_files (udata s) ! j AND 0x80 \<noteq> 0"
    and "u_cwd (udata s) = Some d" and "keeps_cwd (i_tab s ! d)" and "d < length (i_tab s)"
    and "\<forall>i<c. p_status (ptab s ! i) \<noteq> P_ZOMBIE" and "p_pending (ptab s ! q) = 0"
    and "u_ptab up = q" and "u_cursig up = 0" and "\<not> statloc > at_udata (lnk s)" and "statloc \<noteq> 0"
  shows "wp (doexit_cleanup val val2) (\<lambda>_ t. p_status (ptab t ! c) = P_ZOMBIE \<and>
     (p_status (ptab s ! q) = P_WAIT \<and> p_wait (ptab s ! q) = ptab_ptr s q \<longrightarrow> p_status (ptab t ! q) = P_READY) \<and>
     wp (sys_wait env statloc) (\<lambda>r w. r = p_pid (ptab s ! c) \<and> p_status (ptab w ! c) = P_EMPTY \<and>
        u_cutime (udata w) = addtick (u_cutime up) (addtick (u_utime (udata s)) (u_cutime (udata s))) \<and>
        u_cstime (udata w) = addtick (u_cstime up) (addtick (u_stime (udata s)) (u_cstime (udata s))) \<and>
        mem w statloc = lo8 (exit_status val val2) \<and> mem w (statloc + 1) = hi8 (exit_status val val2))
       (t\<lparr>udata := up\<rparr>)) s"
proof -
  let ?tab = "exit_table c (initproc s) (exit_status val val2) (ptab_ptr s q) (udata s) (ptab s)"
  define t where "t = s\<lparr>i_tab := (i_tab s)[d := (i_tab s ! d)\<lparr>c_refs := c_refs (i_tab s ! d) - 1\<rparr>],
     udata := exit_udata (udata s), ptab := ?tab\<rparr>"
  have run: "doexit_cleanup val val2 s = Ret () t"
    unfolding t_def by (rule doexit_cleanup_eq[OF assms(1-6,8-12)])
  have len: "length ?tab = PTABSIZE" using assms(1) by (simp add: length_exit_table)
  have child: "?tab ! c = (exit_entry (exit_status val val2) (udata s) (ptab s ! c))\<lparr>p_status := P_ZOMBIE\<rparr>"
    by (rule exit_table_child[OF assms(1,3)])
  have other: "?tab ! i = wakeup_entry (ptab_ptr s q) (reparent c (initproc s) (ptab s ! i))" if "i < PTABSIZE" "i \<noteq> c" for i
    by (rule exit_table_other[OF assms(1) that])
  have "p_status (?tab ! i) \<noteq> P_ZOMBIE" if "i < c" for i
    using that assms(3,13) other[of i] by (simp add: wakeup_entry_def reparent_def)
  then have dead: "\<forall>i<c. \<not> dead_child q (?tab ! i)" by (simp add: dead_child_def)
  have q: "p_pending (?tab ! q) = 0"
    using assms(7,6,14) other[of q] by (simp add: wakeup_entry_def reparent_def)
  have w: "wp (sys_wait env statloc) (\<lambda>r w. r = p_pid (?tab ! c) \<and>
     ptab w = ?tab[c := (?tab ! c)\<lparr>p_status := P_EMPTY\<rparr>] \<and>
     u_cutime (udata w) = addtick (u_cutime up) (stashed_utime (?tab ! c)) \<and>
     u_cstime (udata w) = addtick (u_cstime up) (stashed_stime (?tab ! c)) \<and>
     (statloc \<noteq> 0 \<longrightarrow> mem w statloc = lo8 (p_exitval (?tab ! c)) \<and> mem w (statloc + 1) = hi8 (p_exitval (?tab ! c))))
     (t\<lparr>udata := up\<rparr>)"
    using sys_wait_reaps[of "t\<lparr>udata := up\<rparr>" q statloc c env] assms(3,5,6,15-17) q dead len
    by (simp add: t_def dead_child_def child exit_entry_simps)
  show ?thesis
    unfolding wp_def run
    using w assms(3,6,7,18) other[of q] len
    by (auto simp: t_def child exit_entry_simps stash_status wakeup_entry_def reparent_def wp_def split: outcome.splits)
qed

definition two_procs :: kst where
  "two_procs = bss\<lparr>
     ptab := (ptab bss)[0 := zero_proc\<lparr>p_status := P_WAIT, p_pid := 1, p_wait := 0x0A00\<rparr>,
       1 := zero_proc\<lparr>p_status := P_RUNNING, p_pid := 7, p_pptr := Some 0\<rparr>],
     i_tab := (i_tab bss)[3 := zero_cinode\<lparr>c_magic := CMAGIC, c_refs := 3\<rparr>],
     initproc := Some 0, lnk := (lnk bss)\<lparr>at_udata := 0xAE00\<rparr>,
     udata := zero_udata\<lparr>u_ptab := 1, u_cwd := Some 3, u_files := replicate 10 0xFF\<rparr>\<rparr>"

theorem exit_then_wait_witness:
  "wp (doexit_cleanup 5 0) (\<lambda>_ t. p_status (ptab t ! 0) = P_READY \<and>
     wp (sys_wait [] 0x7000) (\<lambda>r w. r = 7 \<and> mem w 0x7000 = 0 \<and> mem w 0x7001 = 5) (t\<lparr>udata := zero_udata\<rparr>)) two_procs"
proof -
  have p: "ptab two_procs ! 0 = zero_proc\<lparr>p_status := P_WAIT, p_pid := 1, p_wait := 0x0A00\<rparr>"
    "ptab two_procs ! 1 = zero_proc\<lparr>p_status := P_RUNNING, p_pid := 7, p_pptr := Some 0\<rparr>"
    "length (ptab two_procs) = PTABSIZE"
    by (simp_all add: two_procs_def bss_def)
  have d: "keeps_cwd (i_tab two_procs ! 3)" "3 < length (i_tab two_procs)"
    by (simp_all add: two_procs_def bss_def keeps_cwd_def zero_cinode_def getmode_def zero_dinode_def)
  have l: "at_udata (lnk two_procs) = 0xAE00" "ptab_ptr two_procs 0 = 0x0A00"
    by (simp_all add: two_procs_def ptab_ptr_def bss_def)
  have u: "udata two_procs = zero_udata\<lparr>u_ptab := 1, u_cwd := Some 3, u_files := replicate 10 0xFF\<rparr>"
    "initproc two_procs = Some 0" by (simp_all add: two_procs_def)
  have z: "u_ptab zero_udata = 0" "u_cursig zero_udata = 0" by (simp_all add: zero_udata_def)
  have f: "\<forall>j<UFTSIZE. u_files (udata two_procs) ! j AND 0x80 \<noteq> 0" by (simp add: u)
  have e: "lo8 (exit_status 5 0) = 0" "hi8 (exit_status 5 0) = 5" by (simp_all add: exit_status_def lo8_def hi8_def)
  show ?thesis
    by (rule wp_mono[OF exit_then_wait[where s = two_procs and c = 1 and q = 0 and d = 3 and up = zero_udata
            and statloc = "0x7000" and val = 5 and ?val2.0 = 0 and env = "[]"]])
      (use p d l u z f e in \<open>auto simp: zero_proc_def elim!: wp_mono\<close>)
qed

section \<open>Sleeping and waking\<close>








end
