(* ===== verification/Exec_Args.thy ===== *)
theory Exec_Args
  imports Exec
begin

text \<open>
  The arguments of \<open>execve\<close> (\<open>kernel/scall2.c\<close>: \<open>wargs\<close>, \<open>rargs\<close>): the strings that are put
  away before the old program goes are those the new one finds.
\<close>

section \<open>Memory at addresses below 65536\<close>

definition at_nat :: "kst \<Rightarrow> nat \<Rightarrow> byte" where
  "at_nat s k = mem s (of_nat k)"

lemma mem_word_at: "mem_word s (of_nat k) = get16 (at_nat s) k"
  by (simp add: mem_word_def get16_def at_nat_def algebra_simps)

lemma of_nat_diff_u16: "y < 65536 \<Longrightarrow> x < 65536 \<Longrightarrow> unat (of_nat y - of_nat x :: u16) = (if x \<le> y then y - x else 65536 + y - x)"
proof -
  assume a: "y < 65536" "x < 65536"
  have "(of_nat y - of_nat x :: u16) = of_nat (if x \<le> y then y - x else 65536 + y - x)"
    using a by (simp add: of_nat_diff)
  moreover have "unat (of_nat (if x \<le> y then y - x else 65536 + y - x) :: u16) = (if x \<le> y then y - x else 65536 + y - x)"
    by (rule unat_of_small) (use a in auto)
  ultimately show ?thesis by simp
qed

definition poked :: "nat \<Rightarrow> u16 \<Rightarrow> kst \<Rightarrow> kst" where
  "poked x w s = s\<lparr>mem := (\<lambda>b. let k = unat (b - of_nat x) in if k < 2 then words_byte [w] k else mem s b)\<rparr>"

lemma put_word_run: "put_mem (of_nat x) [w] s = Ret () (poked x w s)"
  by (simp add: put_mem_def run_simps poked_def)

lemma at_poked:
  assumes "x < 65535" and "y < 65536"
  shows "at_nat (poked x w s) y = put16 x w (at_nat s) y"
proof -
  have u: "unat (of_nat y - of_nat x :: u16) = (if x \<le> y then y - x else 65536 + y - x)"
    using assms by (intro of_nat_diff_u16) simp_all
  consider "y = x" | "y = Suc x" | "y < x \<or> Suc x < y" by linarith
  then show ?thesis
  proof cases
    case 3
    then have "\<not> unat (of_nat y - of_nat x :: u16) < 2" using assms u by auto
    then show ?thesis using 3 by (auto simp: poked_def at_nat_def Let_def put16_def)
  qed (use assms u in \<open>simp_all add: poked_def at_nat_def Let_def words_byte_def put16_def\<close>)
qed

lemma get_poked:
  assumes "x < 65535" and "y < 65535"
  shows "get16 (at_nat (poked x w s)) y = get16 (put16 x w (at_nat s)) y"
  using assms by (intro get16_cong) (simp_all add: at_poked)

text \<open>A string in memory.\<close>

lemma strlen_at:
  assumes "p \<noteq> 0" and "p + length l < 65536" and "length l < 32768" and "0 \<notin> set l"
    and m: "\<And>k. k < length l \<Longrightarrow> at_nat s (p + k) = l ! k" and z: "at_nat s (p + length l) = 0"
  shows "strlen (mem s) (of_nat p) = Some (int (length l))"
proof -
  have "(of_nat p :: u16) \<noteq> 0" using assms(1,2) unat_of_small[of p] by (metis add_lessD1 unat_0)
  moreover have "strlen_loop 65536 (mem s) (of_nat p) 0 = Some (sint (0 + of_nat (length l) :: u16))"
  proof (rule strlen_loop_at)
    show "mem s (of_nat p + of_nat (length l)) = 0" using z by (simp add: at_nat_def)
    show "mem s (of_nat p + of_nat k) \<noteq> 0" if "k < length l" for k
    proof
      assume "mem s (of_nat p + of_nat k) = 0"
      then have "l ! k = 0" using m[OF that] by (simp add: at_nat_def)
      then show False using assms(4) nth_mem[OF that] by simp
    qed
  qed (use assms(2) in simp)
  moreover have "sint (of_nat (length l) :: u16) = int (length l)"
    using assms(3) by (subst sint_small) (simp_all add: unat_of_small)
  ultimately show ?thesis by (simp add: strlen_def)
qed

lemma mem_str_at:
  assumes "p + length l < 65536" and "0 \<notin> set l"
    and m: "\<And>k. k < length l \<Longrightarrow> at_nat s (p + k) = l ! k" and z: "at_nat s (p + length l) = 0"
  shows "mem_str s (of_nat p) = l"
proof -
  let ?f = "\<lambda>k. mem s (of_nat p + of_nat k)"
  have "[0..<65536] = [0..<length l] @ [length l..<65536]"
    using assms(1) upt_add_eq_append[of 0 "length l" "65536 - length l"] by simp
  also have "[length l..<65536] = length l # [Suc (length l)..<65536]" using assms(1) by (intro upt_conv_Cons) simp
  finally have "ustr s (of_nat p) = map ?f [0..<length l] @ ?f (length l) # map ?f [Suc (length l)..<65536]"
    by (simp add: ustr_def del: upt_Suc)
  moreover have "map ?f [0..<length l] = l"
    using m by (intro nth_equalityI) (simp_all add: at_nat_def)
  moreover have "?f (length l) = 0" using z by (simp add: at_nat_def)
  moreover have "takeWhile (\<lambda>c. c \<noteq> 0) (l @ 0 # r) = l" for r
    using assms(2) by (subst takeWhile_append2) auto
  ultimately show ?thesis by (simp add: mem_str_def)
qed


section \<open>The vector of pointers\<close>

text \<open>
  From \<open>x\<close> on the words of \<open>m\<close> point to the strings \<open>args\<close>, which lie one behind the other
  from \<open>p\<close> on, each with its terminator.
\<close>

primrec points :: "bytes \<Rightarrow> nat \<Rightarrow> nat \<Rightarrow> byte list list \<Rightarrow> bool" where
  "points m x p [] = True"
| "points m x p (a # as) = (get16 m x = of_nat p \<and> points m (x + 2) (p + length a + 1) as)"

definition strs_at :: "bytes \<Rightarrow> nat \<Rightarrow> byte list list \<Rightarrow> bool" where
  "strs_at m p args \<longleftrightarrow> (\<forall>k<length (arg_bytes args). m (p + k) = arg_bytes args ! k)"

lemma arg_bytes_simps [simp]: "arg_bytes [] = []" "arg_bytes (a # as) = a @ 0 # arg_bytes as"
  by (simp_all add: arg_bytes_def)

lemma strs_at_Cons:
  "strs_at m p (a # as) \<longleftrightarrow> (\<forall>k<length a. m (p + k) = a ! k) \<and> m (p + length a) = 0 \<and> strs_at m (p + length a + 1) as"
proof
  assume s: "strs_at m p (a # as)"
  have all: "m (p + k) = (a @ 0 # arg_bytes as) ! k" if "k < Suc (length a + length (arg_bytes as))" for k
    using s that by (simp add: strs_at_def)
  show "(\<forall>k<length a. m (p + k) = a ! k) \<and> m (p + length a) = 0 \<and> strs_at m (p + length a + 1) as"
    using all[of "length a"] all by (auto simp: strs_at_def nth_append)
      (use all[of "Suc (length a + k)" for k] in \<open>auto simp: nth_append add.assoc\<close>)
next
  assume s: "(\<forall>k<length a. m (p + k) = a ! k) \<and> m (p + length a) = 0 \<and> strs_at m (p + length a + 1) as"
  show "strs_at m p (a # as)"
    unfolding strs_at_def
  proof (intro allI impI)
    fix k assume k: "k < length (arg_bytes (a # as))"
    consider "k < length a" | "k = length a" | "length a < k" by linarith
    then show "m (p + k) = arg_bytes (a # as) ! k"
    proof cases
      case 3
      define j where "j = k - length a - 1"
      have j: "k = length a + 1 + j" "j < length (arg_bytes as)" using 3 k by (simp_all add: j_def)
      have "m (p + length a + 1 + j) = arg_bytes as ! j" using s j(2) by (simp add: strs_at_def)
      then show ?thesis using j by (simp add: nth_append add.assoc)
    qed (use s in \<open>simp_all add: nth_append\<close>)
  qed
qed

lemma points_cong:
  assumes "points m x p args" and "\<And>y. x \<le> y \<Longrightarrow> y < x + 2 * length args \<Longrightarrow> n y = m y"
  shows "points n x p args"
  using assms
proof (induction args arbitrary: x p)
  case (Cons a as)
  have "get16 n x = get16 m x" using Cons.prems(2) by (intro get16_cong) simp_all
  then show ?case using Cons by simp
qed simp

text \<open>
  What such a vector, ended by \<open>NULL\<close>, means to a program: its strings, each up to its
  terminator; \<open>None\<close> when no \<open>NULL\<close> comes among the first \<open>n\<close> entries.
\<close>

primrec arg_strings :: "nat \<Rightarrow> kst \<Rightarrow> u16 \<Rightarrow> byte list list option" where
  "arg_strings 0 s argv = None"
| "arg_strings (Suc n) s argv = (if mem_word s argv = 0 then Some []
     else map_option (\<lambda>l. mem_str s (mem_word s argv) # l) (arg_strings n s (argv + 2)))"

lemma arg_strings_points:
  assumes "points (at_nat s) x p args" and "strs_at (at_nat s) p args" and "get16 (at_nat s) (x + 2 * length args) = 0"
    and "0 < p" and "p + length (arg_bytes args) < 65536" and "\<forall>a\<in>set args. 0 \<notin> set a"
  shows "arg_strings (Suc (length args)) s (of_nat x) = Some args"
  using assms
proof (induction args arbitrary: x p)
  case Nil
  then show ?case by (simp add: mem_word_at)
next
  case (Cons a as)
  have w: "mem_word s (of_nat x) = of_nat p" using Cons.prems(1) by (simp add: mem_word_at)
  have "(of_nat p :: u16) \<noteq> 0" using Cons.prems(4,5) unat_of_small[of p] by (metis add_lessD1 less_irrefl unat_0)
  moreover have "mem_str s (of_nat p) = a"
    using Cons.prems(2,5,6) by (intro mem_str_at) (simp_all add: strs_at_Cons)
  moreover have "arg_strings (Suc (length as)) s (of_nat (x + 2)) = Some as"
    using Cons.prems by (intro Cons.IH[of _ "p + length a + 1"]) (simp_all add: strs_at_Cons algebra_simps)
  moreover have "(of_nat x + 2 :: u16) = of_nat (x + 2)" by simp
  ultimately show ?case
    unfolding arg_strings.simps(2)[of "length (a # as)"] w by (simp only: length_Cons if_False option.map)
qed


lemma wp_put_word: "wp (put_mem (of_nat x) [w]) Q s \<longleftrightarrow> Q () (poked x w s)"
  by (simp add: wp_def put_word_run)

lemma poked_mem: "poked x w s = s\<lparr>mem := mem (poked x w s)\<rparr>"
  by (simp add: poked_def)

lemma poked_only_mem: "t = s\<lparr>mem := mem t\<rparr> \<Longrightarrow> poked x w t = s\<lparr>mem := mem (poked x w t)\<rparr>"
proof -
  assume "t = s\<lparr>mem := mem t\<rparr>"
  then obtain m where "t = s\<lparr>mem := m\<rparr>" by blast
  then show ?thesis by (simp add: poked_def)
qed

lemma strs_at_cong: "strs_at m p args \<Longrightarrow> (\<And>y. p \<le> y \<Longrightarrow> y < p + length (arg_bytes args) \<Longrightarrow> n y = m y) \<Longrightarrow> strs_at n p args"
  by (simp add: strs_at_def)

text \<open>The loop of \<open>rargs\<close> fills in the pointers from the second on.\<close>

lemma rargs_fill_spec:
  assumes "strs_at (at_nat s) p (a # rest)" and "\<forall>a\<in>set (a # rest). 0 \<notin> set a" and "0 < p"
    and "p + length (arg_bytes (a # rest)) < 65536" and "length (arg_bytes (a # rest)) < 500" and "x + 2 + 2 * length rest \<le> p"
  shows "wp (rargs_fill (length rest) (of_nat x) (of_nat p)) (\<lambda>_ t. t = s\<lparr>mem := mem t\<rparr> \<and>
     points (at_nat t) (x + 2) (p + length a + 1) rest \<and>
     (\<forall>y<65536. y < x + 2 \<or> x + 2 + 2 * length rest \<le> y \<longrightarrow> at_nat t y = at_nat s y)) s"
  using assms
proof (induction rest arbitrary: a p x s)
  case Nil
  then show ?case by simp
next
  case (Cons b rest)
  let ?p = "p + length a + 1"
  note P = Cons.prems
  have str: "\<forall>k<length a. at_nat s (p + k) = a ! k" "at_nat s (p + length a) = 0" "strs_at (at_nat s) ?p (b # rest)"
    using P(1) unfolding strs_at_Cons[of _ p] by blast+
  have len: "strlen (mem s) (of_nat p) = Some (int (length a))"
    using P str by (intro strlen_at) simp_all
  have x: "x + 2 < 65535" using P(4,6) by simp
  define t where "t = poked (x + 2) (of_nat ?p) s"
  have t: "at_nat t y = at_nat s y" if "y < 65536" "y < x + 2 \<or> x + 4 \<le> y" for y
    using that x by (auto simp: t_def at_poked put16_def)
  have "strs_at (at_nat t) ?p (b # rest)"
    using str(3) by (rule strs_at_cong) (rule t, use P(4,6) in simp_all)
  then have "wp (rargs_fill (length rest) (of_nat (x + 2)) (of_nat ?p)) (\<lambda>_ u. u = t\<lparr>mem := mem u\<rparr> \<and>
     points (at_nat u) (x + 2 + 2) (?p + length b + 1) rest \<and>
     (\<forall>y<65536. y < x + 2 + 2 \<or> x + 2 + 2 + 2 * length rest \<le> y \<longrightarrow> at_nat u y = at_nat t y)) t"
    using P by (intro Cons.IH) simp_all
  then have "wp (rargs_fill (length rest) (of_nat (x + 2)) (of_nat ?p)) (\<lambda>_ u. u = s\<lparr>mem := mem u\<rparr> \<and>
     points (at_nat u) (x + 2) ?p (b # rest) \<and>
     (\<forall>y<65536. y < x + 2 \<or> x + 2 + 2 * length (b # rest) \<le> y \<longrightarrow> at_nat u y = at_nat s y)) t"
  proof (rule wp_mono, elim conjE)
    fix r :: unit and u
    assume u: "u = t\<lparr>mem := mem u\<rparr>" and pt: "points (at_nat u) (x + 2 + 2) (?p + length b + 1) rest"
      and same: "\<forall>y<65536. y < x + 2 + 2 \<or> x + 2 + 2 + 2 * length rest \<le> y \<longrightarrow> at_nat u y = at_nat t y"
    have "get16 (at_nat u) (x + 2) = get16 (at_nat t) (x + 2)" using same x by (intro get16_cong) simp_all
    also have "\<dots> = of_nat ?p" unfolding t_def using x by (subst get_poked) simp_all
    finally have "points (at_nat u) (x + 2) ?p (b # rest)" using pt by (simp only: points.simps)
    moreover have "u = s\<lparr>mem := mem u\<rparr>" by (subst u) (simp add: t_def poked_def)
    moreover have "at_nat u y = at_nat s y" if "y < 65536" "y < x + 2 \<or> x + 2 + 2 * length (b # rest) \<le> y" for y
      using same t that by auto
    ultimately show "u = s\<lparr>mem := mem u\<rparr> \<and> points (at_nat u) (x + 2) ?p (b # rest) \<and>
     (\<forall>y<65536. y < x + 2 \<or> x + 2 + 2 * length (b # rest) \<le> y \<longrightarrow> at_nat u y = at_nat s y)" by blast
  qed
  moreover have "(of_nat x + 2 :: u16) = of_nat (x + 2)" "(of_nat p + word_of_int (int (length a)) + 1 :: u16) = of_nat ?p" by simp_all
  ultimately show ?case
    by (simp add: len Let_def wp_put_word t_def del: points.simps of_nat_add of_nat_Suc)
qed


text \<open>The vector as a whole, with the strings in place behind it.\<close>

lemma rargs_vector:
  assumes str: "strs_at (at_nat s) p args" "\<forall>a\<in>set args. 0 \<notin> set a" and x: "x + 2 * length args + 2 = p"
    and p: "p + length (arg_bytes args) < 65536" "length (arg_bytes args) < 500"
  shows "wp (put_mem (of_nat x) [of_nat p]) (\<lambda>_. wp (rargs_fill (length args - 1) (of_nat x) (of_nat p))
     (\<lambda>_. wp (put_mem (of_nat (x + 2 * length args)) [0]) (\<lambda>_ t. t = s\<lparr>mem := mem t\<rparr> \<and> points (at_nat t) x p args \<and>
       get16 (at_nat t) (x + 2 * length args) = 0 \<and> (\<forall>y<65536. y < x \<or> p \<le> y \<longrightarrow> at_nat t y = at_nat s y)))) s"
    (is "wp _ (\<lambda>_. wp _ (\<lambda>_. wp _ ?Q)) s")
proof -
  let ?n = "length args"
  define t where "t = poked x (of_nat p) s"
  have t: "at_nat t y = at_nat s y" if "y < 65536" "y < x \<or> x + 2 \<le> y" for y
    using that x p by (auto simp: t_def at_poked put16_def)
  have fill: "wp (rargs_fill (?n - 1) (of_nat x) (of_nat p)) (\<lambda>_ u. u = t\<lparr>mem := mem u\<rparr> \<and>
      (args \<noteq> [] \<longrightarrow> points (at_nat u) x p args) \<and>
      (\<forall>y<65536. y < x \<or> x + 2 * ?n \<le> y \<longrightarrow> y < x \<or> x + 2 \<le> y \<longrightarrow> at_nat u y = at_nat t y)) t"
  proof (cases args)
    case Nil
    then show ?thesis by simp
  next
    case (Cons a rest)
    have "strs_at (at_nat t) p (a # rest)"
      using str(1) unfolding Cons by (rule strs_at_cong) (rule t, use p x Cons in simp_all)
    then have "wp (rargs_fill (length rest) (of_nat x) (of_nat p)) (\<lambda>_ u. u = t\<lparr>mem := mem u\<rparr> \<and>
     points (at_nat u) (x + 2) (p + length a + 1) rest \<and>
     (\<forall>y<65536. y < x + 2 \<or> x + 2 + 2 * length rest \<le> y \<longrightarrow> at_nat u y = at_nat t y)) t"
      using str(2) x p Cons by (intro rargs_fill_spec) simp_all
    then show ?thesis
      unfolding Cons
    proof (simp only: length_Cons diff_Suc_1, elim wp_mono, elim conjE)
      fix r :: unit and u
      assume u: "u = t\<lparr>mem := mem u\<rparr>" "points (at_nat u) (x + 2) (p + length a + 1) rest"
        and same: "\<forall>y<65536. y < x + 2 \<or> x + 2 + 2 * length rest \<le> y \<longrightarrow> at_nat u y = at_nat t y"
      have "get16 (at_nat u) x = get16 (at_nat t) x" using same x p by (intro get16_cong) simp_all
      also have "\<dots> = of_nat p" unfolding t_def using x p by (subst get_poked) simp_all
      finally have "points (at_nat u) x p (a # rest)" using u(2) by simp
      then show "u = t\<lparr>mem := mem u\<rparr> \<and> (a # rest \<noteq> [] \<longrightarrow> points (at_nat u) x p (a # rest)) \<and>
        (\<forall>y<65536. y < x \<or> x + 2 * Suc (length rest) \<le> y \<longrightarrow> y < x \<or> x + 2 \<le> y \<longrightarrow> at_nat u y = at_nat t y)"
        using u(1) same by auto
    qed
  qed
  have "wp (rargs_fill (?n - 1) (of_nat x) (of_nat p)) (\<lambda>_. wp (put_mem (of_nat (x + 2 * ?n)) [0]) ?Q) t"
  proof (rule wp_mono[OF fill], elim conjE)
    fix r :: unit and u
    assume u: "u = t\<lparr>mem := mem u\<rparr>" "args \<noteq> [] \<longrightarrow> points (at_nat u) x p args"
      and same: "\<forall>y<65536. y < x \<or> x + 2 * ?n \<le> y \<longrightarrow> y < x \<or> x + 2 \<le> y \<longrightarrow> at_nat u y = at_nat t y"
    define v where "v = poked (x + 2 * ?n) 0 u"
    have v: "at_nat v y = at_nat u y" if "y < 65536" "y < x + 2 * ?n \<or> p \<le> y" for y
      using that x p by (auto simp: v_def at_poked put16_def)
    have "points (at_nat v) x p args"
    proof (cases "args = []")
      case False
      then have "points (at_nat u) x p args" using u(2) by blast
      then show ?thesis by (rule points_cong) (rule v, use x p in simp_all)
    qed simp
    moreover have "get16 (at_nat v) (x + 2 * ?n) = 0" unfolding v_def using x p by (subst get_poked) simp_all
    moreover have "v = s\<lparr>mem := mem v\<rparr>" unfolding v_def by (rule poked_only_mem, subst u(1)) (simp add: t_def poked_def)
    moreover have "at_nat v y = at_nat s y" if "y < 65536" "y < x \<or> p \<le> y" for y
      using v[of y] same t[of y] that x by auto
    ultimately have "?Q () v" by blast
    then show "wp (put_mem (of_nat (x + 2 * ?n)) [0]) ?Q u" unfolding wp_put_word v_def .
  qed
  then show ?thesis by (simp only: wp_put_word t_def)
qed


section \<open>The block of the swap device\<close>

text \<open>
  Block \<open>b\<close> of the swap device is in buffer \<open>i\<close> and in no other, with the contents \<open>d\<close>.
\<close>

definition swap_buf :: "kst \<Rightarrow> nat \<Rightarrow> u16 \<Rightarrow> bytes \<Rightarrow> bool" where
  "swap_buf s i b d \<longleftrightarrow> i < NBUFS \<and> length (bufpool s) = NBUFS \<and> bf_dev (bufpool s ! i) = 1 \<and> bf_blk (bufpool s ! i) = b \<and>
     (\<forall>j<NBUFS. j \<noteq> i \<longrightarrow> bf_dev (bufpool s ! j) \<noteq> 1) \<and> bf_data (bufpool s ! i) = d"

lemma swap_buf_find: "swap_buf s i b d \<Longrightarrow> bfind SWAPDEV b s = Some i"
proof -
  assume s: "swap_buf s i b d"
  have "uint (bf_dev (bufpool s ! j)) = 1 \<longleftrightarrow> j = i" if "j < NBUFS" for j
    using s that unfolding swap_buf_def by (metis uint_1 word_uint_eq_iff)
  then have "bfind 1 b s = find (\<lambda>j. j = i) [0..<NBUFS]"
    unfolding bfind_def using s by (intro find_cong) (auto simp: swap_buf_def)
  also have "\<dots> = Some i" using s by (auto simp: swap_buf_def upt_rec less_Suc_eq numeral_eq_Suc)
  finally show ?thesis by simp
qed

lemma bread_swap_new:
  assumes inv: "buf_inv s" and free: "some_free s"
  shows "wp (bread SWAPDEV b 2) (\<lambda>r t. \<exists>i d. r = Some i \<and> swap_buf t i b d \<and> buf_frame s t) s"
proof -
  obtain i tm where sc: "freebuf_scan s = (Some i, tm)" and i: "i < NBUFS" and nb: "bf_busy (bufpool s ! i) = 0"
    using freebuf_scan_some free unfolding some_free_def by blast
  let ?t = "flushed i s"
  have len: "length (bufpool s) = NBUFS" using inv by (simp add: buf_inv_def)
  note pool = flushed_pool[OF len i]
  have dev: "bf_dev (bufpool s ! j) \<noteq> 1" if "j < NBUFS" for j
    using inv that unfolding buf_inv_def buf_ok_def by force
  have "uint (bf_dev (bufpool s ! j)) \<noteq> 1" if "j < NBUFS" for j
    using dev[OF that] by (metis uint_1 word_uint_eq_iff)
  then have none: "bfind SWAPDEV b s = None" unfolding bfind_def by (auto simp: find_None_iff)
  define c where "c = clear_data ((bufpool ?t ! i)\<lparr>bf_dev := 1, bf_blk := b\<rparr>)\<lparr>bf_busy := 1, bf_time := bufclock ?t + 1\<rparr>"
  define u where "u = ?t\<lparr>bufclock := bufclock ?t + 1, bufpool := (bufpool ?t)[i := c]\<rparr>"
  have run: "bread SWAPDEV b 2 s = Ret (Some i) u"
    using none freebuf_eq[OF inv sc i] i len
    by (simp add: bread_def run_simps upd_buf_def bread_done_def clear_data_def c_def u_def pool cong: if_cong)
  have "swap_buf u i b (bf_data c)"
    using i dev by (simp add: swap_buf_def u_def pool) (simp add: c_def clear_data_def)
  moreover have "buf_frame ?t u" unfolding u_def by (rule frame_simps)
  then have "buf_frame s u" by (rule buf_frame_trans[OF flushed_frame])
  ultimately show ?thesis using run by (auto simp: wp_def)
qed

lemma bread_swap_hit:
  assumes s: "swap_buf s i b d" and nb: "bf_busy (bufpool s ! i) = 0"
  shows "wp (bread SWAPDEV b 0) (\<lambda>r t. r = Some i \<and> swap_buf t i b d \<and> buf_frame s t) s"
proof -
  let ?u = "s\<lparr>bufclock := bufclock s + 1, bufpool := (bufpool s)[i := (bufpool s ! i)\<lparr>bf_busy := 1, bf_time := bufclock s + 1\<rparr>]\<rparr>"
  have "swap_buf ?u i b d" using s by (simp add: swap_buf_def)
  moreover have "buf_frame s ?u" by (rule frame_simps)
  moreover have "i < length (bufpool s)" using s by (simp add: swap_buf_def)
  ultimately show ?thesis
    using swap_buf_find[OF s] nb by (simp add: bread_def wp_bread_done)
qed


lemma arg_strings_mem: "mem t = mem s \<Longrightarrow> arg_strings n t a = arg_strings n s a"
  by (induction n arbitrary: a) (simp_all add: mem_word_def mem_str_def ustr_def del: upt_rec_numeral)

section \<open>Away and back\<close>

definition holds_args :: "bytes \<Rightarrow> byte list list \<Rightarrow> bool" where
  "holds_args d args \<longleftrightarrow> get16 d 0 = of_nat (length args) \<and> get16 d 2 = of_nat (length (arg_bytes args)) \<and>
     (\<forall>k<length (arg_bytes args). d (6 + k) = arg_bytes args ! k)"

definition args_stored :: "byte list list \<Rightarrow> bytes \<Rightarrow> bytes" where
  "args_stored args d = (if length (arg_bytes args) < 500
     then put16 2 (of_nat (length (arg_bytes args))) (put16 0 (of_nat (length args)) (store_args (arg_bytes args) d))
     else store_args (List.take 500 (arg_bytes args)) d)"

lemma wargs_run:
  assumes inv: "buf_inv s" and free: "some_free s"
  shows "wp (wargs args blk) (\<lambda>bad t. bad = (500 \<le> length (arg_bytes args)) \<and> mem t = mem s \<and> me_proc t = me_proc s \<and>
     (bad \<longrightarrow> u_error (udata t) = E2BIG) \<and>
     (\<exists>i d. swap_buf t i (p_swap (me_proc s) + blk) (args_stored args d) \<and> bf_busy (bufpool t ! i) = 0)) s"
    (is "wp _ ?Q s")
proof -
  let ?b = "p_swap (me_proc s) + blk"
  show ?thesis
    unfolding wargs_def wp_bindK wp_getK
  proof (rule wp_mono[OF bread_swap_new[OF inv free]], elim exE conjE)
    fix r t i d assume r: "r = Some i" and sw: "swap_buf t i ?b d" and fr: "buf_frame s t"
    have i: "i < length (bufpool t)" "i < NBUFS" and d: "bf_data (bufpool t ! i) = d" using sw by (simp_all add: swap_buf_def)
    have m: "mem t = mem s" "me_proc t = me_proc s" using fr by (auto simp: buf_frame_def me_proc_def)
    define c where "c = (bufpool t ! i)\<lparr>bf_data := args_stored args d, bf_dirty := bf_dirty (bufpool t ! i) OR 1, bf_busy := 0\<rparr>"
    define u where "u = t\<lparr>bufpool := (bufpool t)[i := c]\<rparr>"
    have sw': "swap_buf (t\<lparr>udata := x, bufpool := (bufpool t)[i := c]\<rparr>) i ?b (args_stored args d)" "swap_buf u i ?b (args_stored args d)" for x
      using sw by (simp_all add: swap_buf_def u_def c_def)
    have busy: "bf_busy (bufpool u ! i) = 0" using i by (simp add: u_def c_def)
    have mu: "mem u = mem s" "me_proc u = me_proc s" using m by (simp_all add: u_def me_proc_def)
    show "wp (derefK r) (\<lambda>argbuf. wp (let all = arg_bytes args in
     if length all \<ge> 500 then thenK (doK [
         upd_buf argbuf (\<lambda>d. d\<lparr>bf_data := store_args (List.take 500 all) (bf_data d)\<rparr>),
         set_error E2BIG,
         bawrite argbuf]) (retK True)
     else thenK (doK [
         upd_buf argbuf (\<lambda>d. d\<lparr>bf_data := store_args all (bf_data d)\<rparr>),
         upd_buf argbuf (\<lambda>d. d\<lparr>bf_data := put16 0 (of_nat (length args)) (bf_data d)\<rparr>),
         upd_buf argbuf (\<lambda>d. d\<lparr>bf_data := put16 2 (of_nat (length all)) (bf_data d)\<rparr>),
         bawrite argbuf]) (retK False)) ?Q) t"
    proof (cases "500 \<le> length (arg_bytes args)")
      case True
      have "?Q True (t\<lparr>udata := (udata t)\<lparr>u_error := E2BIG\<rparr>, bufpool := (bufpool t)[i := c]\<rparr>)"
        using True m sw'(1) busy by (auto simp: me_proc_def u_def)
      then show ?thesis
        using True r i d
        by (simp add: wp_def run_simps derefK_def bawrite_def bfree_def upd_buf_def access_defs u_def c_def args_stored_def Let_def)
    next
      case False
      have "?Q False u" using False mu sw'(2) busy by auto
      then show ?thesis
        using False r i d
        by (simp add: wp_def run_simps derefK_def bawrite_def bfree_def upd_buf_def u_def c_def args_stored_def Let_def)
    qed
  qed
qed

lemma holds_args_stored: "length (arg_bytes args) < 500 \<Longrightarrow> holds_args (args_stored args d) args"
  by (simp add: holds_args_def args_stored_def) (simp add: put16_def store_args_def)

lemma rargs_spec:
  assumes sw: "swap_buf s i (p_swap (me_proc s) + blk) d" and nb: "bf_busy (bufpool s ! i) = 0" and h: "holds_args d args"
    and nul: "\<forall>a\<in>set args. 0 \<notin> set a" and L: "length (arg_bytes args) < 500"
    and room: "2 * length args + 2 + length (arg_bytes args) \<le> unat stk"
  shows "wp (rargs stk blk) (\<lambda>(argv, argc) t. argc = of_nat (length args) \<and>
     unat argv = unat stk - length (arg_bytes args) - (2 * length args + 2) \<and>
     arg_strings (Suc (length args)) t argv = Some args \<and>
     (\<forall>a. a < argv \<or> stk \<le> a \<longrightarrow> mem t a = mem s a)) s"
proof -
  let ?n = "length args" and ?L = "length (arg_bytes args)" and ?T = "unat stk"
  define p where "p = ?T - ?L"
  define x where "x = p - (2 * ?n + 2)"
  have xp: "x + 2 * ?n + 2 = p" "p + ?L = ?T" "p < 65536" "?T < 65536"
    unfolding x_def p_def using room u16_lt[of stk] by linarith+
  have n: "?n \<le> ?L" by (induction args) simp_all
  have ptr: "stk - of_nat ?L = of_nat p" "of_nat p - 2 * (of_nat ?n + 1) = (of_nat x :: u16)"
  proof -
    have "stk = of_nat (p + ?L)" unfolding xp by simp
    then show "stk - of_nat ?L = of_nat p" by simp
    have "(of_nat p :: u16) = of_nat (x + 2 * ?n + 2)" unfolding xp ..
    then show "of_nat p - 2 * (of_nat ?n + 1) = (of_nat x :: u16)" by simp
  qed
  have end2: "of_nat x + 2 * of_nat ?n = (of_nat p - 2 :: u16)" unfolding xp(1)[symmetric] by simp
  have sn: "nat (sint (of_nat ?n :: u16) - 1) = ?n - 1"
    using n L by (subst sint_small) (simp_all add: unat_of_small nat_diff_distrib)
  have uL: "unat (of_nat ?L :: u16) = ?L" using L by (intro unat_of_small) simp
  have ux: "unat (of_nat x :: u16) = x" using xp by (intro unat_of_small) linarith
  define Q where "Q = (\<lambda>(_ :: unit) t. arg_strings (Suc ?n) t (of_nat x) = Some args \<and>
     (\<forall>y<65536. y < x \<or> ?T \<le> y \<longrightarrow> at_nat t y = at_nat s y))"
  have vec: "wp (put_mem (of_nat x) [of_nat p]) (\<lambda>_. wp (rargs_fill (?n - 1) (of_nat x) (of_nat p))
     (\<lambda>_. wp (put_mem (of_nat x + 2 * of_nat ?n) [0]) (\<lambda>_. wp (bfree i 0) (\<lambda>_. Q ()))))
     (t\<lparr>mem := (\<lambda>a. if a - of_nat p < of_nat ?L then d (6 + unat (a - of_nat p)) else mem t a)\<rparr>)"
    if t: "swap_buf t i b d" "mem t = mem s" for t b
  proof -
    define v where "v = t\<lparr>mem := (\<lambda>a. if a - of_nat p < of_nat ?L then d (6 + unat (a - of_nat p)) else mem t a)\<rparr>"
    have v: "at_nat v y = (if p \<le> y \<and> y < ?T then arg_bytes args ! (y - p) else at_nat s y)" if y: "y < 65536" for y
    proof -
      have d: "unat (of_nat y - of_nat p :: u16) = (if p \<le> y then y - p else 65536 + y - p)"
        by (rule of_nat_diff_u16[OF y xp(3)])
      have "(of_nat y - of_nat p :: u16) < of_nat ?L \<longleftrightarrow> p \<le> y \<and> y < ?T"
      proof (cases "p \<le> y")
        case True
        then have "y - p < ?L \<longleftrightarrow> y < ?T" using xp(2) by linarith
        then show ?thesis unfolding word_less_nat_alt d uL using True by simp
      next
        case False
        then have "\<not> 65536 + y - p < ?L" using xp(2,4) y by linarith
        then show ?thesis unfolding word_less_nat_alt d uL using False by simp
      qed
      note in_strs = this
      have e: "at_nat v y = (if (of_nat y - of_nat p :: u16) < of_nat ?L then d (6 + unat (of_nat y - of_nat p :: u16)) else at_nat s y)"
        using t(2) by (simp add: v_def at_nat_def)
      show ?thesis
      proof (cases "p \<le> y \<and> y < ?T")
        case True
        then have "y - p < ?L" using xp(2) by linarith
        then have "d (6 + (y - p)) = arg_bytes args ! (y - p)" using h by (simp add: holds_args_def)
        then show ?thesis unfolding e in_strs d using True by simp
      next
        case False
        then show ?thesis unfolding e in_strs by (simp only: if_False)
      qed
    qed
    have vs: "at_nat v (p + k) = arg_bytes args ! k" if "k < ?L" for k
    proof -
      have k: "p + k < 65536" "p + k < ?T" using that xp(2,4) by linarith+
      show ?thesis unfolding v[OF k(1)] using k(2) by simp
    qed
    have pk: "p + k < 65536" if "k < ?L" for k using that xp(2,4) by linarith
    have "strs_at (at_nat v) p args" using vs by (simp add: strs_at_def)
    then have "wp (put_mem (of_nat x) [of_nat p]) (\<lambda>_. wp (rargs_fill (?n - 1) (of_nat x) (of_nat p))
     (\<lambda>_. wp (put_mem (of_nat (x + 2 * ?n)) [0]) (\<lambda>_ t. t = v\<lparr>mem := mem t\<rparr> \<and> points (at_nat t) x p args \<and>
       get16 (at_nat t) (x + 2 * ?n) = 0 \<and> (\<forall>y<65536. y < x \<or> p \<le> y \<longrightarrow> at_nat t y = at_nat v y)))) v"
      using nul xp L by (intro rargs_vector) simp_all
    moreover have "wp (bfree i 0) (\<lambda>_. Q ()) u"
      if u: "u = v\<lparr>mem := mem u\<rparr>" "points (at_nat u) x p args" "get16 (at_nat u) (x + 2 * ?n) = 0"
        "\<forall>y<65536. y < x \<or> p \<le> y \<longrightarrow> at_nat u y = at_nat v y" for u
    proof -
      have i: "i < NBUFS" using t(1) by (simp add: swap_buf_def)
      have pool: "length (bufpool u) = NBUFS"
        using t(1) by (subst u(1)) (simp add: v_def swap_buf_def)
      have "strs_at (at_nat u) p args" using u(4) vs pk by (simp add: strs_at_def)
      then have "arg_strings (Suc ?n) u (of_nat x) = Some args"
        using u(2,3) xp nul by (intro arg_strings_points[of u x p]) simp_all
      then have "Q () u" using u(4) v xp unfolding Q_def by auto
      then have "Q () (u\<lparr>bufpool := c\<rparr>)" for c
        using arg_strings_mem[of "u\<lparr>bufpool := c\<rparr>" u] by (simp add: Q_def at_nat_def del: arg_strings.simps)
      then show ?thesis using pool i by (simp add: bfree_def wp_def run_simps upd_buf_def)
    qed
    moreover have "(of_nat (x + 2 * ?n) :: u16) = of_nat x + 2 * of_nat ?n" by simp
    ultimately show ?thesis unfolding v_def[symmetric] by (simp only:) (elim wp_mono, blast)
  qed
  define R where "R = (\<lambda>(argv, argc :: u16) t. argc = of_nat ?n \<and> unat argv = ?T - ?L - (2 * ?n + 2) \<and>
     arg_strings (Suc ?n) t argv = Some args \<and> (\<forall>a. a < argv \<or> stk \<le> a \<longrightarrow> mem t a = mem s a))"
  have QR: "R (of_nat x, of_nat ?n) t" if "Q () t" for t
  proof -
    have "mem t a = mem s a" if "a < of_nat x \<or> stk \<le> a" for a
    proof -
      have m: "mem r a = at_nat r (unat a)" for r by (simp add: at_nat_def)
      have "unat a < x \<or> ?T \<le> unat a" using that unfolding word_less_nat_alt word_le_nat_alt ux .
      then show ?thesis using \<open>Q () t\<close> u16_lt[of a] unfolding m Q_def by blast
    qed
    then show ?thesis using that ux by (simp add: R_def Q_def x_def p_def)
  qed
  show ?thesis
    unfolding rargs_def wp_bindK wp_getK R_def[symmetric]
  proof (rule wp_mono[OF bread_swap_hit[OF sw nb]], elim conjE)
    fix r t assume t: "r = Some i" "swap_buf t i (p_swap (me_proc s) + blk) d" "buf_frame s t"
    have m: "mem t = mem s" "bf_data (bufpool t ! i) = d" using t(2,3) by (auto simp: buf_frame_def swap_buf_def)
    have "wp (put_mem (of_nat x) [of_nat p]) (\<lambda>_. wp (rargs_fill (?n - 1) (of_nat x) (of_nat p))
       (\<lambda>_. wp (put_mem (of_nat x + 2 * of_nat ?n) [0]) (\<lambda>_. wp (bfree i 0) (\<lambda>_. R (of_nat x, of_nat ?n)))))
       (t\<lparr>mem := (\<lambda>a. if a - of_nat p < of_nat ?L then d (6 + unat (a - of_nat p)) else mem t a)\<rparr>)"
      using vec[OF t(2) m(1)] by (elim wp_mono) (rule QR)
    then show "wp (derefK r) (\<lambda>argbuf s. wp (let argc = get16 (bf_data (bufpool s ! argbuf)) 0; arglen = get16 (bf_data (bufpool s ! argbuf)) 2;
        ptr = stk - arglen; argv = ptr - 2 * (argc + 1) in
     thenK (doK [
       modK (\<lambda>s'. s'\<lparr>mem := (\<lambda>a. if a - ptr < arglen then bf_data (bufpool s ! argbuf) (6 + unat (a - ptr)) else mem s' a)\<rparr>),
       put_mem argv [ptr],
       rargs_fill (nat (sint argc - 1)) argv ptr,
       put_mem (argv + 2 * argc) [0],
       bindK (bfree argbuf 0) (\<lambda>_. retK ())]) (retK (argv, argc))) R s) t"
      using t(1) m(2) h ptr sn end2 by (simp add: Let_def holds_args_def cong: if_cong)
  qed
qed


lemma arg_strings_nul: "arg_strings n s a = Some args \<Longrightarrow> \<forall>x\<in>set args. 0 \<notin> set x"
proof (induction n arbitrary: a args)
  case (Suc n)
  show ?case
  proof (cases "mem_word s a = 0")
    case False
    then obtain l where "arg_strings n s (a + 2) = Some l" "args = mem_str s (mem_word s a) # l"
      using Suc.prems by auto
    moreover have "0 \<notin> set (mem_str s p)" for p by (auto simp: mem_str_def dest: set_takeWhileD)
    ultimately show ?thesis using Suc.IH by simp
  qed (use Suc.prems in simp)
qed simp

lemma args_count: "length args \<le> length (arg_bytes args)"
  by (induction args) simp_all

lemma arg_list_strings: "arg_strings m s a = Some args \<Longrightarrow> arg_list n s a = List.take n args"
proof (induction m arbitrary: n a args)
  case (Suc m)
  then show ?case by (cases n) (auto split: if_splits)
qed simp

lemma arg_bytes_append: "arg_bytes (as @ bs) = arg_bytes as @ arg_bytes bs"
  by (simp add: arg_bytes_def)

lemma arg_list_endless: "arg_strings n s a = None \<Longrightarrow> length (arg_list n s a) = n"
  by (induction n arbitrary: a) (auto split: if_splits)

text \<open>More than 500 strings are as good as the first 500: they fill the buffer already.\<close>

lemma wargs_first:
  assumes "500 \<le> length args"
  shows "wargs (List.take 500 args) blk = wargs args blk"
proof -
  let ?f = "arg_bytes (List.take 500 args)"
  have all: "arg_bytes args = ?f @ arg_bytes (drop 500 args)"
    by (metis append_take_drop_id arg_bytes_append)
  have "500 \<le> length ?f" using args_count[of "List.take 500 args"] assms by simp
  then have l: "500 \<le> length ?f" "500 \<le> length (arg_bytes args)" "List.take 500 (arg_bytes args) = List.take 500 ?f"
    by (simp_all add: all)
  show ?thesis unfolding wargs_def Let_def l(3) using l(1,2) by simp
qed

lemma wargs_list: "arg_strings m s a = Some args \<Longrightarrow> wargs (arg_list 500 s a) blk = wargs args blk"
  using arg_list_strings[of m s a args 500] wargs_first[of args blk] by (cases "500 \<le> length args") simp_all

text \<open>A vector without a \<open>NULL\<close> is too big, whatever its pointers point to.\<close>

lemma wargs_endless:
  assumes "buf_inv s" and "some_free s" and "arg_strings 500 s argv0 = None"
  shows "wp (wargs (arg_list 500 s argv0) blk) (\<lambda>bad t. bad \<and> u_error (udata t) = E2BIG \<and> mem t = mem s) s"
  using arg_list_endless[OF assms(3)] args_count[of "arg_list 500 s argv0"]
  by (intro wp_mono[OF wargs_run[OF assms(1,2)]]) auto

text \<open>
  C15: the arguments of \<open>execve\<close> survive the change of program. When the strings of a vector
  that ends with \<open>NULL\<close> fit in 499 bytes with their terminators, \<open>wargs\<close> puts them away without touching the program's
  memory, and \<open>rargs\<close>, run directly after it, lays out below the address it is given a
  \<open>NULL\<close>-terminated vector of pointers to exactly these strings, in order, returns its address and their number, and
  changes no memory below the vector or from that address on. When they do not fit, \<open>wargs\<close>
  refuses with \<open>E2BIG\<close>; the same holds without a \<open>NULL\<close> (\<open>wargs_endless\<close>).
\<close>

theorem execve_args_roundtrip:
  assumes "buf_inv s" and "some_free s" and "arg_strings m s argv0 = Some args" and "1500 \<le> unat stk"
  shows "wp (wargs (arg_list 500 s argv0) blk) (\<lambda>bad t. mem t = mem s \<and>
     (if length (arg_bytes args) < 500
      then \<not> bad \<and> wp (rargs stk blk) (\<lambda>(argv, argc) u. argc = of_nat (length args) \<and>
          unat argv = unat stk - length (arg_bytes args) - (2 * length args + 2) \<and>
          arg_strings (Suc (length args)) u argv = Some args \<and>
          (\<forall>a. a < argv \<or> stk \<le> a \<longrightarrow> mem u a = mem s a)) t
      else bad \<and> u_error (udata t) = E2BIG)) s"
  unfolding wargs_list[OF assms(3)]
proof (rule wp_mono[OF wargs_run[OF assms(1,2)]], elim conjE exE)
  fix bad t i d
  assume bad: "bad = (500 \<le> length (arg_bytes args))" "bad \<longrightarrow> u_error (udata t) = E2BIG" and m: "mem t = mem s" "me_proc t = me_proc s"
    and sw: "swap_buf t i (p_swap (me_proc s) + blk) (args_stored args d)" "bf_busy (bufpool t ! i) = 0"
  have "wp (rargs stk blk) (\<lambda>(argv, argc) u. argc = of_nat (length args) \<and>
          unat argv = unat stk - length (arg_bytes args) - (2 * length args + 2) \<and>
          arg_strings (Suc (length args)) u argv = Some args \<and>
          (\<forall>a. a < argv \<or> stk \<le> a \<longrightarrow> mem u a = mem s a)) t" if fits: "length (arg_bytes args) < 500"
    unfolding m(1)[symmetric]
    by (rule rargs_spec[OF _ sw(2) holds_args_stored[OF fits] arg_strings_nul[OF assms(3)] fits])
      (use sw(1) m(2) args_count[of args] fits assms(4) in simp_all)
  then show "mem t = mem s \<and> (if length (arg_bytes args) < 500
      then \<not> bad \<and> wp (rargs stk blk) (\<lambda>(argv, argc) u. argc = of_nat (length args) \<and>
          unat argv = unat stk - length (arg_bytes args) - (2 * length args + 2) \<and>
          arg_strings (Suc (length args)) u argv = Some args \<and>
          (\<forall>a. a < argv \<or> stk \<le> a \<longrightarrow> mem u a = mem s a)) t
      else bad \<and> u_error (udata t) = E2BIG)"
    using bad m(1) by simp
qed


text \<open>A program that passes the one string \<open>hi\<close>.\<close>

definition says_hi :: kst where
  "says_hi = empty_cache\<lparr>mem := (\<lambda>_. 0)(0x6001 := 0x61, 0x6100 := 104, 0x6101 := 105)\<rparr>"

lemma says_hi_args: "arg_strings 2 says_hi 0x6000 = Some [[104, 105]]"
proof -
  have b: "arg_bytes [[104, 105]] = [104, 105, 0]" by simp
  have "strs_at (at_nat says_hi) 0x6100 [[104, 105]]"
    unfolding strs_at_def b by (auto simp: says_hi_def at_nat_def less_Suc_eq)
  moreover have "points (at_nat says_hi) 0x6000 0x6100 [[104, 105]]" "get16 (at_nat says_hi) (0x6000 + 2 * length [[104, 105 :: byte]]) = 0"
    by (simp_all add: says_hi_def at_nat_def get16_def)
  ultimately have "arg_strings (Suc (length [[104, 105 :: byte]])) says_hi (of_nat 0x6000) = Some [[104, 105]]"
    by (intro arg_strings_points[where p = "0x6100"]) auto
  then show ?thesis by (simp add: numeral_2_eq_2)
qed

theorem execve_args_roundtrip_witness:
  "wp (wargs (arg_list 500 says_hi 0x6000) 0) (\<lambda>bad t. \<not> bad \<and> wp (rargs 0x9000 0) (\<lambda>(argv, argc) u. argc = 1 \<and>
     arg_strings 2 u argv = Some [[104, 105]]) t) says_hi"
proof -
  have "buf_inv says_hi" "some_free says_hi"
    using idle_empty_cache idle_free[OF idle_empty_cache] by (simp_all add: says_hi_def idle_def some_free_def)
  note W = execve_args_roundtrip[OF this says_hi_args, where stk = "0x9000" and blk = 0]
  show ?thesis
  proof (rule wp_mono[OF W], goal_cases)
    case (2 bad t)
    then have "\<not> bad \<and> wp (rargs 0x9000 0) (\<lambda>(argv, argc) u. argc = of_nat (length [[104, 105 :: byte]]) \<and>
          unat argv = unat (0x9000 :: u16) - length (arg_bytes [[104, 105]]) - (2 * length [[104, 105 :: byte]] + 2) \<and>
          arg_strings (Suc (length [[104, 105 :: byte]])) u argv = Some [[104, 105]] \<and>
          (\<forall>a. a < argv \<or> 0x9000 \<le> a \<longrightarrow> mem u a = mem says_hi a)) t" by simp
    then show ?case by (intro conjI, blast, elim conjE wp_mono) (auto simp: numeral_2_eq_2 simp del: arg_strings.simps)
  qed simp
qed

end
