(* ===== verification/Host_Image.thy ===== *)
theory Host_Image
  imports Free_Blocks
begin

text \<open>
  What the host tools \<open>mkfs\<close> and \<open>fsck\<close> share: a superblock in a byte buffer of the host, as
  the record \<open>filesys\<close>; the blocks of an image; \<open>for\<close> loops over 16-bit counters; and the step
  by which both build the list of free blocks. The host's \<open>int\<close> has 32 bits, \<open>uint16\<close>,
  \<open>int16\<close> and \<open>blkno_t\<close> are the kernel's, and the byte order is the same.
\<close>

section \<open>A superblock in memory\<close>

text \<open>
  The fields of \<open>struct filesys\<close> up to \<open>s_tinode\<close> lie where the kernel has them; the word after
  them is padding here, and the tools never change it.
\<close>

definition put_filesys :: "filesys \<Rightarrow> bytes \<Rightarrow> bytes" where
  "put_filesys fs m = (\<lambda>n. if n < 222 then words_byte (filesys_words fs) n else m n)"

definition wf_sb :: "filesys \<Rightarrow> bool" where
  "wf_sb fs \<longleftrightarrow> length (s_free fs) = 50 \<and> length (s_inode fs) = 50"

lemma wf_sb_get [simp]: "wf_sb (get_filesys m)"
  by (simp add: wf_sb_def get_filesys_def)

lemma get_put_filesys [simp]: "wf_sb fs \<Longrightarrow> get_filesys (put_filesys fs m) = fs"
  by (rule get_filesys_words) (simp_all add: put_filesys_def wf_sb_def)

lemma wf_sb_upd [simp]:
  "wf_sb (f\<lparr>s_mounted := w\<rparr>) = wf_sb f" "wf_sb (f\<lparr>s_isize := w\<rparr>) = wf_sb f"
  "wf_sb (f\<lparr>s_fsize := w\<rparr>) = wf_sb f" "wf_sb (f\<lparr>s_nfree := w\<rparr>) = wf_sb f"
  "wf_sb (f\<lparr>s_tfree := w\<rparr>) = wf_sb f" "wf_sb (f\<lparr>s_ninode := w\<rparr>) = wf_sb f"
  "wf_sb (f\<lparr>s_tinode := w\<rparr>) = wf_sb f" "wf_sb (f\<lparr>s_free := (s_free f)[n := w]\<rparr>) = wf_sb f"
  by (simp_all add: wf_sb_def)

lemma put_put_filesys [simp]: "put_filesys f (put_filesys g m) = put_filesys f m"
  by (simp add: put_filesys_def fun_eq_iff)

text \<open>The words from \<open>s_nfree\<close> on: the count and the table of free blocks.\<close>

definition nfree_bytes :: "bytes \<Rightarrow> bytes" where
  "nfree_bytes m = (\<lambda>k. m (6 + k))"

lemma word_at_nfree_bytes:
  assumes "k \<le> 50"
  shows "word_at (nfree_bytes m) k = (s_nfree (get_filesys m) # s_free (get_filesys m)) ! k"
proof -
  have "word_at (nfree_bytes m) k = get16 m (6 + 2 * k)"
    by (simp add: word_at_def nfree_bytes_def get16_def)
  then show ?thesis using assms by (cases k) (simp_all add: get_filesys_def)
qed

section \<open>Entries and inodes in memory\<close>

definition put_direct :: "nat \<Rightarrow> direct \<Rightarrow> bytes \<Rightarrow> bytes" where
  "put_direct b e f = (\<lambda>n. if b \<le> n \<and> n < b + 16 then direct_byte e (n - b) else f n)"

lemma get_put_direct_at:
  assumes "length (d_name e) = 14" shows "get_direct (put_direct b e f) b = e"
  by (rule get_put_direct) (simp_all add: put_direct_def assms)

lemma get_put_direct_other:
  assumes "b + 16 \<le> c \<or> c + 16 \<le> b" shows "get_direct (put_direct b e f) c = get_direct f c"
proof -
  have "put_direct b e f n = f n" if "c \<le> n" "n < c + 16" for n
    using assms that by (auto simp: put_direct_def)
  then show ?thesis by (simp add: get_direct_def get16_def)
qed

lemma put_put_dinode [simp]: "put_dinode b d (put_dinode b e f) = put_dinode b d f"
  by (simp add: put_dinode_def fun_eq_iff)

lemma get_dinode_len [simp]: "length (i_addr (get_dinode f b)) = 20"
  by (simp add: get_dinode_def)

section \<open>Blocks of an image\<close>

definition img_block :: "bytes \<Rightarrow> nat \<Rightarrow> bytes" where
  "img_block f b = (\<lambda>k. f (512 * b + k))"

definition img_word :: "bytes \<Rightarrow> u16 \<Rightarrow> nat \<Rightarrow> u16" where
  "img_word f b k = word_at (img_block f (unat b)) k"

text \<open>The image after 512 bytes have been written at block \<open>b\<close>.\<close>

definition put_block :: "nat \<Rightarrow> bytes \<Rightarrow> bytes \<Rightarrow> bytes" where
  "put_block b d f = (\<lambda>a. if 512 * b \<le> a \<and> a < 512 * b + 512 then d (a - 512 * b) else f a)"

lemma put_block_same: "k < 512 \<Longrightarrow> img_block (put_block b d f) b k = d k"
  by (simp add: img_block_def put_block_def)

lemma put_block_other: "c \<noteq> b \<Longrightarrow> k < 512 \<Longrightarrow> img_block (put_block b d f) c k = img_block f c k"
  by (auto simp: img_block_def put_block_def)

lemma img_word_put:
  "k < 256 \<Longrightarrow> img_word (put_block (unat b) d f) c k = (if c = b then word_at d k else img_word f c k)"
  by (auto simp: img_word_def word_at_def get16_def put_block_same put_block_other word_unat_eq_iff)

section \<open>Loops over 16-bit counters\<close>

text \<open>A loop that passes a local variable on.\<close>

primrec foldK :: "'i list \<Rightarrow> ('i \<Rightarrow> 'a \<Rightarrow> ('s, 'a) kop) \<Rightarrow> 'a \<Rightarrow> ('s, 'a) kop" where
  "foldK [] f a = retK a"
| "foldK (i # is) f a = bindK (f i a) (foldK is f)"

text \<open>
  \<open>for (n = lo; n < hi; ++n)\<close> with a 16-bit \<open>n\<close> and a bound computed in 32 bits: with a bound
  above 65535 the condition is always true, and after 65535 the loop begins again at 0.
  \<open>Diverges\<close> stands for all that follows: the loop never returns, it can only be left by an exit
  of the program inside the body.
\<close>

definition for_u16 :: "nat \<Rightarrow> nat \<Rightarrow> (u16 \<Rightarrow> 'a \<Rightarrow> ('s, 'a) kop) \<Rightarrow> 'a \<Rightarrow> ('s, 'a) kop" where
  "for_u16 lo hi body a = (if hi \<le> 65535 then foldK (map of_nat [lo..<hi]) body a
     else bindK (foldK (map of_nat [lo..<65536]) body a) (\<lambda>_. haltK Diverges))"

text \<open>\<open>for (n = hi; n >= lo; --n)\<close>: with the bound 0 it does not end.\<close>

definition for_down :: "nat \<Rightarrow> nat \<Rightarrow> (u16 \<Rightarrow> ('s, unit) kop) \<Rightarrow> ('s, unit) kop" where
  "for_down hi lo body = thenK (forK (map of_nat (rev [lo..<Suc hi])) body)
     (if lo = 0 then haltK Diverges else retK ())"

section \<open>Building the list of free blocks\<close>

text \<open>A superblock and the blocks of the image that stand for the free blocks \<open>l\<close>.\<close>

definition chain_sb :: "(u16 \<Rightarrow> nat \<Rightarrow> u16) \<Rightarrow> filesys \<Rightarrow> u16 list \<Rightarrow> bool" where
  "chain_sb V fs l \<longleftrightarrow> 1 \<le> unat (s_nfree fs) \<and> unat (s_nfree fs) \<le> 50 \<and>
     free_chain V (take (unat (s_nfree fs)) (s_free fs)) l \<and> s_tfree fs = of_nat (length l)"

lemma chain_sb_cong:
  assumes "chain_sb V fs l" and "\<And>b k. b \<in> set l \<Longrightarrow> k \<le> 50 \<Longrightarrow> W b k = V b k"
  shows "chain_sb W fs l"
  using assms free_chain_cong[of V _ l W] by (auto simp: chain_sb_def)

lemma chain_sb_fields:
  "s_nfree g = s_nfree fs \<Longrightarrow> s_free g = s_free fs \<Longrightarrow> s_tfree g = s_tfree fs \<Longrightarrow>
   chain_sb V g l = chain_sb V fs l"
  by (simp add: chain_sb_def)

text \<open>
  One more block: the table in memory is saved in it when it is full, and then it is the first
  entry of the new table.
\<close>

definition release_sb :: "u16 \<Rightarrow> filesys \<Rightarrow> filesys" where
  "release_sb b fs = (let f = (if s_nfree fs = 50 then fs\<lparr>s_nfree := 0\<rparr> else fs) in
     f\<lparr>s_tfree := s_tfree f + 1, s_free := (s_free f)[unat (s_nfree f) := b], s_nfree := s_nfree f + 1\<rparr>)"

lemma wf_release_sb [simp]: "wf_sb (release_sb b fs) = wf_sb fs"
  by (simp add: release_sb_def Let_def wf_sb_def)

lemma release_sb_fixed [simp]:
  "s_isize (release_sb b fs) = s_isize fs" "s_fsize (release_sb b fs) = s_fsize fs"
  "s_mounted (release_sb b fs) = s_mounted fs" "s_ninode (release_sb b fs) = s_ninode fs"
  "s_tinode (release_sb b fs) = s_tinode fs" "s_inode (release_sb b fs) = s_inode fs"
  by (simp_all add: release_sb_def Let_def)

lemma chain_sb_release:
  assumes c: "chain_sb V fs l" and wf: "wf_sb fs" and b: "b \<noteq> 0" "b \<notin> set l"
    and W: "\<And>c k. c \<noteq> b \<Longrightarrow> k \<le> 50 \<Longrightarrow> W c k = V c k"
    and Wb: "s_nfree fs = 50 \<Longrightarrow> (\<And>k. k \<le> 50 \<Longrightarrow> W b k = (s_nfree fs # s_free fs) ! k)"
  shows "chain_sb W (release_sb b fs) (b # l)"
proof -
  have len: "length (s_free fs) = 50" using wf by (simp add: wf_sb_def)
  have ch: "free_chain W (take (unat (s_nfree fs)) (s_free fs)) l"
  proof (rule free_chain_cong)
    show "free_chain V (take (unat (s_nfree fs)) (s_free fs)) l" using c by (simp add: chain_sb_def)
    show "W c k = V c k" if "c \<in> set l" "k \<le> 50" for c k
      using that b(2) by (intro W) auto
  qed
  show ?thesis
  proof (cases "s_nfree fs = 50")
    case True
    have m: "map (W b) [1..<51] = s_free fs"
        by (rule nth_equalityI) (use len Wb[OF True] in \<open>simp_all del: upt_Suc\<close>)
    have "W b 0 = 50" using Wb[OF True, of 0] True by simp
    then have m': "unat (W b 0) = 50" "map (W b) [1..<Suc (unat (W b 0))] = s_free fs"
      using m by (simp_all del: upt_Suc)
    have "free_chain W (s_free fs) l" using ch len True by simp
    then have one: "free_chain W [b] (b # l)"
      using b(1) m' by (simp add: free_chain_single del: upt_Suc)
    have tk: "take 1 ((s_free fs)[0 := b]) = [b]" using len by (cases "s_free fs") simp_all
    show ?thesis
      using True c one tk by (simp add: chain_sb_def release_sb_def Let_def)
  next
    case False
    define n where "n = unat (s_nfree fs)"
    have n: "1 \<le> n" "n < 50"
      using c False by (auto simp: chain_sb_def n_def word_unat_eq_iff)
    have n1: "unat (s_nfree fs + 1) = Suc n"
      using n by (subst unat_plus_1) (simp_all add: n_def)
    have "take (Suc n) ((s_free fs)[n := b]) = take n (s_free fs) @ [b]"
      using n len by (simp add: take_Suc_conv_app_nth)
    then show ?thesis
      using False c n n1 free_chain_push[OF ch, of b]
      by (simp add: chain_sb_def release_sb_def Let_def n_def[symmetric])
  qed
qed

lemma chain_sb_start: "s_nfree fs = 1 \<Longrightarrow> s_free fs ! 0 = 0 \<Longrightarrow> s_tfree fs = 0 \<Longrightarrow> wf_sb fs \<Longrightarrow> chain_sb V fs []"
  using chain_end[of V "[]"] by (cases "s_free fs") (simp_all add: chain_sb_def wf_sb_def)

end
