(* ===== verification/Mkfs.thy ===== *)
theory Mkfs
  imports Host_Image
begin

text \<open>
  \<open>uzi-nes-utils/fs/mkfs.c\<close>: making an empty file system of \<open>fsize\<close> blocks in a buffer that
  \<open>main\<close> then writes to the image file. The state is the buffer and the static variables;
  messages are left out. The main result is that the superblock, the chained free blocks and
  the root directory are what the kernel's allocator and directory code expect.
\<close>

section \<open>The program\<close>

record mkfs_st =
  fs_buffer :: bytes
  buf_size :: nat
  sb_buf :: bytes
  dirbuf :: bytes
  inode_buf :: bytes

type_synonym 'a mk = "(mkfs_st, 'a) kop"

text \<open>What \<open>main\<close> refuses.\<close>

definition bad_params :: "u16 \<Rightarrow> u16 \<Rightarrow> bool" where
  "bad_params fsize isize \<longleftrightarrow> fsize < 3 \<or> isize < 2 \<or> isize \<ge> fsize"

text \<open>\<open>dwrite\<close>; a block that does not lie in the buffer is a bad access.\<close>

definition mk_dwrite :: "u16 \<Rightarrow> bytes \<Rightarrow> unit mk" where
  "mk_dwrite blk addr = (\<lambda>s. if 512 * unat blk + 512 \<le> buf_size s
     then Ret () (s\<lparr>fs_buffer := put_block (unat blk) addr (fs_buffer s)\<rparr>) else Halt BadAccess)"

definition mk_sb :: "mkfs_st \<Rightarrow> filesys" where
  "mk_sb s = get_filesys (sb_buf s)"

definition upd_sb :: "(filesys \<Rightarrow> filesys) \<Rightarrow> unit mk" where
  "upd_sb f = modK (\<lambda>s. s\<lparr>sb_buf := put_filesys (f (mk_sb s)) (sb_buf s)\<rparr>)"

definition upd_inode :: "nat \<Rightarrow> (dinode \<Rightarrow> dinode) \<Rightarrow> unit mk" where
  "upd_inode i f = modK (\<lambda>s. s\<lparr>inode_buf := put_dinode (64 * i) (f (get_dinode (inode_buf s) (64 * i))) (inode_buf s)\<rparr>)"

definition set_dirbuf :: "nat \<Rightarrow> direct \<Rightarrow> unit mk" where
  "set_dirbuf i e = modK (\<lambda>s. s\<lparr>dirbuf := put_direct (16 * i) e (dirbuf s)\<rparr>)"

text \<open>One round of the loop that builds the free list.\<close>

definition mk_release :: "u16 \<Rightarrow> unit mk" where
  "mk_release j = doK [
     bindK (getK (\<lambda>s. s_nfree (mk_sb s))) (\<lambda>nfree. whenK (nfree = 50) (doK [
       bindK (getK (\<lambda>s. nfree_bytes (sb_buf s))) (mk_dwrite j),
       upd_sb (\<lambda>f. f\<lparr>s_nfree := 0\<rparr>)])),
     upd_sb (\<lambda>f. f\<lparr>s_tfree := s_tfree f + 1\<rparr>),
     bindK (getK (\<lambda>s. unat (s_nfree (mk_sb s)))) (\<lambda>n.
       if n \<ge> 50 then haltK BadAccess
       else upd_sb (\<lambda>f. f\<lparr>s_free := (s_free f)[n := j], s_nfree := s_nfree f + 1\<rparr>))]"

text \<open>
  The directory entry \<open>tempdir\<close> is all zero but for what is assigned; \<open>sprintf\<close> writes the name
  and its terminator. \<open>(8 * (isize - 2)) - 2\<close> is an \<open>int\<close> cut to 16 bits.
\<close>

definition mk_setup :: "u16 \<Rightarrow> u16 \<Rightarrow> unit mk" where
  "mk_setup fsize isize = doK [
     modK (\<lambda>s. s\<lparr>fs_buffer := (\<lambda>_. 0), buf_size := 512 * unat fsize\<rparr>),
     set_dirbuf 0 \<lparr>d_ino = ROOTINODE, d_name = 46 # replicate 13 0\<rparr>,
     set_dirbuf 1 \<lparr>d_ino = ROOTINODE, d_name = 46 # 46 # replicate 12 0\<rparr>,
     upd_sb (\<lambda>sb. sb\<lparr>s_mounted := SMOUNTED\<rparr>),
     upd_sb (\<lambda>sb. sb\<lparr>s_isize := isize\<rparr>),
     upd_sb (\<lambda>sb. sb\<lparr>s_fsize := fsize\<rparr>),
     upd_sb (\<lambda>sb. sb\<lparr>s_nfree := 1\<rparr>),
     upd_sb (\<lambda>sb. sb\<lparr>s_free := (s_free sb)[0 := 0]\<rparr>),
     upd_sb (\<lambda>sb. sb\<lparr>s_tfree := 0\<rparr>),
     upd_sb (\<lambda>sb. sb\<lparr>s_ninode := 0\<rparr>),
     upd_sb (\<lambda>sb. sb\<lparr>s_tinode := 8 * (isize - 2) - 2\<rparr>)]"

definition mk_finish :: "u16 \<Rightarrow> unit mk" where
  "mk_finish isize = doK [
     upd_inode 1 (\<lambda>d. d\<lparr>i_mode := F_DIR OR (0x1FF AND MODE_MASK)\<rparr>),
     upd_inode 1 (\<lambda>d. d\<lparr>i_nlink := 3\<rparr>),
     upd_inode 1 (\<lambda>d. d\<lparr>i_size := (i_size d)\<lparr>o_blkno := 0\<rparr>\<rparr>),
     upd_inode 1 (\<lambda>d. d\<lparr>i_size := (i_size d)\<lparr>o_offset := 32\<rparr>\<rparr>),
     upd_inode 1 (\<lambda>d. d\<lparr>i_addr := (i_addr d)[0 := isize]\<rparr>),
     upd_inode 0 (\<lambda>d. d\<lparr>i_nlink := 1\<rparr>),
     upd_inode 0 (\<lambda>d. d\<lparr>i_mode := NOT 0\<rparr>),
     bindK (getK inode_buf) (mk_dwrite 2),
     bindK (getK dirbuf) (mk_dwrite isize),
     bindK (getK sb_buf) (mk_dwrite 1)]"

definition mkfs :: "u16 \<Rightarrow> u16 \<Rightarrow> unit mk" where
  "mkfs fsize isize = doK [
     mk_setup fsize isize,
     forK (map of_nat (rev [Suc (unat isize)..<unat fsize])) mk_release,
     mk_finish isize]"

text \<open>The static variables before the run.\<close>

definition mk_start :: mkfs_st where
  "mk_start = \<lparr>fs_buffer = (\<lambda>_. 0), buf_size = 0, sb_buf = (\<lambda>_. 0), dirbuf = (\<lambda>_. 0), inode_buf = (\<lambda>_. 0)\<rparr>"

section \<open>The free list\<close>

lemma wp_mk [simp]:
  "wp (upd_sb f) Q = (\<lambda>s. Q () (s\<lparr>sb_buf := put_filesys (f (mk_sb s)) (sb_buf s)\<rparr>))"
  "wp (upd_inode i g) Q = (\<lambda>s. Q () (s\<lparr>inode_buf := put_dinode (64 * i) (g (get_dinode (inode_buf s) (64 * i))) (inode_buf s)\<rparr>))"
  "wp (set_dirbuf i e) Q = (\<lambda>s. Q () (s\<lparr>dirbuf := put_direct (16 * i) e (dirbuf s)\<rparr>))"
  "wp (mk_dwrite blk d) Q = (\<lambda>s. 512 * unat blk + 512 \<le> buf_size s \<and> Q () (s\<lparr>fs_buffer := put_block (unat blk) d (fs_buffer s)\<rparr>))"
  by (simp_all add: upd_sb_def upd_inode_def set_dirbuf_def mk_dwrite_def wp_def modK_def fun_eq_iff)

lemma mk_sb_put [simp]:
  "wf_sb f \<Longrightarrow> mk_sb (s\<lparr>sb_buf := put_filesys f m\<rparr>) = f"
  "mk_sb (s\<lparr>fs_buffer := b\<rparr>) = mk_sb s" "mk_sb (s\<lparr>inode_buf := b\<rparr>) = mk_sb s"
  "mk_sb (s\<lparr>dirbuf := b\<rparr>) = mk_sb s" "mk_sb (s\<lparr>buf_size := n\<rparr>) = mk_sb s"
  by (simp_all add: mk_sb_def)

lemma wf_mk_sb [simp]: "wf_sb (mk_sb s)"
  by (simp add: mk_sb_def)

text \<open>The round is \<open>release_sb\<close> on the superblock and, when the table is full, a block written.\<close>

definition released :: "u16 \<Rightarrow> mkfs_st \<Rightarrow> mkfs_st" where
  "released j s = s\<lparr>fs_buffer := (if s_nfree (mk_sb s) = 50 then put_block (unat j) (nfree_bytes (sb_buf s)) (fs_buffer s) else fs_buffer s),
     sb_buf := put_filesys (release_sb j (mk_sb s)) (sb_buf s)\<rparr>"

lemma released_simps [simp]:
  "mk_sb (released j s) = release_sb j (mk_sb s)"
  "buf_size (released j s) = buf_size s" "dirbuf (released j s) = dirbuf s"
  "inode_buf (released j s) = inode_buf s"
  "222 \<le> n \<Longrightarrow> sb_buf (released j s) n = sb_buf s n"
  "a < 512 * unat j \<Longrightarrow> fs_buffer (released j s) a = fs_buffer s a"
  by (simp_all add: released_def) (simp_all add: mk_sb_def put_filesys_def put_block_def)

lemma mk_release_run:
  assumes "1 \<le> unat (s_nfree (mk_sb s))" "unat (s_nfree (mk_sb s)) \<le> 50"
    and "512 * unat j + 512 \<le> buf_size s"
  shows "mk_release j s = Ret () (released j s)"
proof (cases "s_nfree (mk_sb s) = 50")
  case True
  then show ?thesis using assms
    by (simp add: mk_release_def run_simps upd_sb_def mk_dwrite_def released_def release_sb_def Let_def)
next
  case False
  then have "unat (s_nfree (mk_sb s)) \<noteq> 50" by (simp add: word_unat_eq_iff)
  then show ?thesis using assms False
    by (simp add: mk_release_def run_simps upd_sb_def released_def release_sb_def Let_def)
qed

text \<open>
  The state of the loop: the blocks from \<open>k\<close> on are free, and nothing up to block \<open>i\<close> has been
  written.
\<close>

definition mk_inv :: "nat \<Rightarrow> nat \<Rightarrow> mkfs_st \<Rightarrow> nat \<Rightarrow> mkfs_st \<Rightarrow> bool" where
  "mk_inv i n s0 k s \<longleftrightarrow> buf_size s = 512 * n \<and>
     chain_sb (img_word (fs_buffer s)) (mk_sb s) (map of_nat [k..<n]) \<and>
     (\<forall>a < 512 * i + 512. fs_buffer s a = 0) \<and>
     dirbuf s = dirbuf s0 \<and> inode_buf s = inode_buf s0 \<and> (\<forall>n\<ge>222. sb_buf s n = sb_buf s0 n) \<and>
     s_isize (mk_sb s) = s_isize (mk_sb s0) \<and> s_fsize (mk_sb s) = s_fsize (mk_sb s0) \<and>
     s_mounted (mk_sb s) = s_mounted (mk_sb s0) \<and> s_ninode (mk_sb s) = s_ninode (mk_sb s0) \<and>
     s_tinode (mk_sb s) = s_tinode (mk_sb s0)"

lemma of_nat_notin: "k < 65536 \<Longrightarrow> n \<le> 65536 \<Longrightarrow> (of_nat k :: u16) \<notin> set (map of_nat [Suc k..<n])"
proof
  assume k: "k < 65536" "n \<le> 65536" and "(of_nat k :: u16) \<in> set (map of_nat [Suc k..<n])"
  then obtain j where j: "Suc k \<le> j" "j < n" "(of_nat k :: u16) = of_nat j" by auto
  have "k = unat (of_nat k :: u16)" using k by (simp add: unat_of_small)
  also have "\<dots> = j" unfolding j(3) using j k by (intro unat_of_small) simp
  finally show False using j by simp
qed

lemma mk_release_inv:
  assumes inv: "mk_inv i n s0 (Suc k) s" and k: "i < k" "k < n" and n: "n \<le> 65535"
  shows "wp (mk_release (of_nat k)) (\<lambda>_. mk_inv i n s0 k) s"
proof -
  note v = inv[unfolded mk_inv_def]
  define b :: u16 where "b = of_nat k"
  have ub: "unat b = k" unfolding b_def using k n by (intro unat_of_small) simp
  have ch: "chain_sb (img_word (fs_buffer s)) (mk_sb s) (map of_nat [Suc k..<n])" using v by blast
  have run: "mk_release b s = Ret () (released b s)"
    using ch v k ub by (intro mk_release_run) (simp_all add: chain_sb_def)
  have l: "map of_nat [k..<n] = b # map of_nat [Suc k..<n]"
    using k by (simp add: upt_rec[of k] b_def)
  have "chain_sb (img_word (fs_buffer (released b s))) (release_sb b (mk_sb s)) (b # map of_nat [Suc k..<n])"
    using ch
  proof (rule chain_sb_release)
    show "b \<noteq> 0" using ub k by auto
    show "b \<notin> set (map of_nat [Suc k..<n])" unfolding b_def using k n by (intro of_nat_notin) simp_all
    show "img_word (fs_buffer (released b s)) c j = img_word (fs_buffer s) c j" if "c \<noteq> b" "j \<le> 50" for c j
      using that by (simp add: released_def img_word_put)
    show "img_word (fs_buffer (released b s)) b j = (s_nfree (mk_sb s) # s_free (mk_sb s)) ! j"
      if "s_nfree (mk_sb s) = 50" "j \<le> 50" for j
      using that by (simp add: released_def img_word_put word_at_nfree_bytes mk_sb_def)
  qed simp
  then have "mk_inv i n s0 k (released b s)"
    using v k ub unfolding mk_inv_def l
    by (simp add: b_def[symmetric])
  then show ?thesis by (simp add: wp_def run b_def[symmetric])
qed

lemma mk_loop:
  assumes "mk_inv i n s0 k s" and "i < k" and "k \<le> n" and n: "n \<le> 65535"
  shows "wp (forK (map of_nat (rev [Suc i..<k])) mk_release) (\<lambda>_. mk_inv i n s0 (Suc i)) s"
  using assms(1-3)
proof (induction k arbitrary: s)
  case 0
  then show ?case by simp
next
  case (Suc k)
  show ?case
  proof (cases "i < k")
    case True
    have "rev [Suc i..<Suc k] = k # rev [Suc i..<k]" using True by simp
    moreover have "wp (mk_release (of_nat k)) (\<lambda>_. mk_inv i n s0 k) s"
      using Suc.prems True n by (intro mk_release_inv) simp_all
    ultimately show ?thesis
      using Suc.IH True Suc.prems(3) by (auto elim!: wp_mono)
  next
    case False
    then have "k = i" using Suc.prems by simp
    then show ?thesis using Suc.prems by simp
  qed
qed

section \<open>The image\<close>

text \<open>The state in which the loop starts.\<close>

definition mk_ready :: "u16 \<Rightarrow> u16 \<Rightarrow> mkfs_st \<Rightarrow> mkfs_st" where
  "mk_ready fsize isize s = s\<lparr>fs_buffer := (\<lambda>_. 0), buf_size := 512 * unat fsize,
     sb_buf := put_filesys ((mk_sb s)\<lparr>s_mounted := SMOUNTED, s_isize := isize, s_fsize := fsize,
        s_nfree := 1, s_free := (s_free (mk_sb s))[0 := 0], s_tfree := 0, s_ninode := 0,
        s_tinode := 8 * (isize - 2) - 2\<rparr>) (sb_buf s),
     dirbuf := put_direct 16 \<lparr>d_ino = ROOTINODE, d_name = 46 # 46 # replicate 12 0\<rparr>
       (put_direct 0 \<lparr>d_ino = ROOTINODE, d_name = 46 # replicate 13 0\<rparr> (dirbuf s))\<rparr>"

definition root_dinode :: "u16 \<Rightarrow> dinode" where
  "root_dinode isize = zero_dinode\<lparr>i_mode := F_DIR OR 0x1FF, i_nlink := 3,
     i_size := \<lparr>o_blkno = 0, o_offset = 32\<rparr>, i_addr := (replicate 20 0)[0 := isize]\<rparr>"

definition reserved_dinode :: dinode where
  "reserved_dinode = zero_dinode\<lparr>i_nlink := 1, i_mode := NOT 0\<rparr>"

definition first_inodes :: "u16 \<Rightarrow> bytes" where
  "first_inodes isize = put_dinode 0 reserved_dinode (put_dinode 64 (root_dinode isize) (\<lambda>_. 0))"

definition mk_done :: "u16 \<Rightarrow> mkfs_st \<Rightarrow> mkfs_st" where
  "mk_done isize s = s\<lparr>inode_buf := first_inodes isize,
     fs_buffer := put_block 1 (sb_buf s) (put_block (unat isize) (dirbuf s)
       (put_block 2 (first_inodes isize) (fs_buffer s)))\<rparr>"

lemma mk_sb_lengths: "length (s_free (mk_sb s)) = 50" "length (s_inode (mk_sb s)) = 50"
  using wf_mk_sb[of s] by (simp_all add: wf_sb_def)

lemma zero_dinode_addr [simp]: "length (i_addr zero_dinode) = 20" "i_addr zero_dinode = replicate 20 0"
  "i_size zero_dinode = \<lparr>o_blkno = 0, o_offset = 0\<rparr>"
  by (simp_all add: zero_dinode_def zero_off_def)

lemma mk_setup_run: "mk_setup fsize isize s = Ret () (mk_ready fsize isize s)"
  by (simp add: mk_setup_def run_simps upd_sb_def set_dirbuf_def mk_ready_def wf_sb_def mk_sb_lengths)

lemma get_dinode_zero: "get_dinode (\<lambda>_. 0) b = zero_dinode"
  by (simp add: get_dinode_def get16_def zero_dinode_def zero_off_def zero_time_def upt_rec numeral_eq_Suc)

lemma mk_finish_run:
  assumes "inode_buf u = (\<lambda>_. 0)" and "buf_size u = 512 * unat (fsize :: u16)" and "3 \<le> unat fsize"
    and "unat isize < unat fsize"
  shows "mk_finish isize u = Ret () (mk_done isize u)"
proof -
  have w: "unat (2 :: u16) = 2" "unat (1 :: u16) = 1" by simp_all
  show ?thesis
  using assms
  by (simp add: mk_finish_def run_simps upd_inode_def mk_dwrite_def mk_done_def first_inodes_def
      root_dinode_def reserved_dinode_def get_dinode_zero get_put_dinode_other)
qed

lemma mk_ready_inv:
  assumes "0 < unat fsize"
  shows "mk_inv i (unat fsize) (mk_ready fsize isize s) (unat fsize) (mk_ready fsize isize s)"
  using assms
  by (auto simp: mk_inv_def mk_ready_def wf_sb_def mk_sb_lengths intro!: chain_sb_start)

lemma mkfs_result:
  assumes p: "\<not> bad_params fsize isize"
  shows "wp (mkfs fsize isize) (\<lambda>_ t. \<exists>u. t = mk_done isize u \<and>
     mk_inv (unat isize) (unat fsize) (mk_ready fsize isize mk_start) (Suc (unat isize)) u) mk_start"
proof -
  have u: "3 \<le> unat fsize" "unat isize < unat fsize" "2 \<le> unat isize"
    using p by (simp_all add: bad_params_def word_less_nat_alt word_le_nat_alt)
  have f: "unat fsize \<le> 65535" using u16_lt[of fsize] by linarith
  have s: "inode_buf (mk_ready fsize isize mk_start) = (\<lambda>_. 0)" by (simp add: mk_ready_def mk_start_def)
  have "wp (forK (map of_nat (rev [Suc (unat isize)..<unat fsize])) mk_release)
     (\<lambda>_. mk_inv (unat isize) (unat fsize) (mk_ready fsize isize mk_start) (Suc (unat isize)))
     (mk_ready fsize isize mk_start)"
    using u f by (intro mk_loop mk_ready_inv) simp_all
  then obtain t where t: "forK (map of_nat (rev [Suc (unat isize)..<unat fsize])) mk_release (mk_ready fsize isize mk_start) = Ret () t"
    and inv: "mk_inv (unat isize) (unat fsize) (mk_ready fsize isize mk_start) (Suc (unat isize)) t"
    by (auto simp: wp_iff)
  have "mk_finish isize t = Ret () (mk_done isize t)"
    using inv s u by (intro mk_finish_run) (simp_all add: mk_inv_def)
  then show ?thesis
    using inv by (auto simp: wp_def mkfs_def run_simps mk_setup_run t)
qed

lemma mk_done_block:
  "k < 512 \<Longrightarrow> img_block (fs_buffer (mk_done isize u)) 1 k = sb_buf u k"
  "k < 512 \<Longrightarrow> unat isize \<noteq> 1 \<Longrightarrow> img_block (fs_buffer (mk_done isize u)) (unat isize) k = dirbuf u k"
  "k < 512 \<Longrightarrow> unat isize \<noteq> 2 \<Longrightarrow> img_block (fs_buffer (mk_done isize u)) 2 k = first_inodes isize k"
  by (simp_all add: mk_done_def put_block_same put_block_other)

section \<open>Properties\<close>

lemma mkfs_result_image:
  assumes p: "\<not> bad_params fsize isize" and i: "2 < unat isize"
  shows "wp (mkfs fsize isize) (\<lambda>_ t. let img = fs_buffer t; sb = get_filesys (img_block img 1) in
     s_mounted sb = SMOUNTED \<and> s_isize sb = isize \<and> s_fsize sb = fsize \<and>
     s_ninode sb = 0 \<and> s_tinode sb = 8 * (isize - 2) - 2 \<and>
     chain_sb (img_word img) sb (map of_nat [Suc (unat isize)..<unat fsize]) \<and>
     get_dinode (img_block img 2) 64 = root_dinode isize \<and>
     get_direct (img_block img (unat isize)) 0 = \<lparr>d_ino = ROOTINODE, d_name = 46 # replicate 13 0\<rparr> \<and>
     get_direct (img_block img (unat isize)) 16 = \<lparr>d_ino = ROOTINODE, d_name = 46 # 46 # replicate 12 0\<rparr>)
     mk_start"
proof (rule wp_mono[OF mkfs_result[OF p]])
  fix r :: unit and t
  assume "\<exists>u. t = mk_done isize u \<and>
     mk_inv (unat isize) (unat fsize) (mk_ready fsize isize mk_start) (Suc (unat isize)) u"
  then obtain u where t: "t = mk_done isize u"
    and inv: "mk_inv (unat isize) (unat fsize) (mk_ready fsize isize mk_start) (Suc (unat isize)) u" by blast
  have u: "unat isize < unat fsize" using p by (simp add: bad_params_def word_less_nat_alt word_le_nat_alt)
  define s1 where "s1 = mk_ready fsize isize mk_start"
  have sb: "get_filesys (img_block (fs_buffer t) 1) = mk_sb u"
    unfolding t mk_sb_def by (rule get_filesys_cong) (simp add: mk_done_block del: One_nat_def)
  have s1: "s_isize (mk_sb s1) = isize" "s_fsize (mk_sb s1) = fsize" "s_mounted (mk_sb s1) = SMOUNTED"
    "s_ninode (mk_sb s1) = 0" "s_tinode (mk_sb s1) = 8 * (isize - 2) - 2"
    by (simp_all add: s1_def mk_ready_def wf_sb_def mk_sb_lengths)
  have d: "dirbuf u = dirbuf s1" using inv by (simp add: mk_inv_def s1_def)
  have c: "chain_sb (img_word (fs_buffer t)) (mk_sb u) (map of_nat [Suc (unat isize)..<unat fsize])"
  proof (rule chain_sb_cong)
    show "chain_sb (img_word (fs_buffer u)) (mk_sb u) (map of_nat [Suc (unat isize)..<unat fsize])"
      using inv by (simp add: mk_inv_def)
    fix b :: u16 and k :: nat assume b: "b \<in> set (map of_nat [Suc (unat isize)..<unat fsize])" "k \<le> 50"
    then obtain x where x: "b = of_nat x" "unat isize < x" "x < unat fsize" by auto
    then have "unat b = x" using u16_lt[of fsize] by (simp only: x(1)) (rule unat_of_small, linarith)
    then have "unat isize < unat b" using x by simp
    then have ne: "unat b \<noteq> 1" "unat b \<noteq> unat isize" "unat b \<noteq> 2" using i by simp_all
    have "img_block (fs_buffer t) (unat b) n = img_block (fs_buffer u) (unat b) n" if "n < 512" for n
      using ne that by (simp add: t mk_done_def put_block_other del: One_nat_def)
    then show "img_word (fs_buffer t) b k = img_word (fs_buffer u) b k"
      using b(2) by (simp add: img_word_def word_at_def get16_def)
  qed
  have n: "get_dinode (img_block (fs_buffer t) 2) 64 = get_dinode (first_inodes isize) 64"
    unfolding t using i by (intro get_dinode_cong) (simp add: mk_done_block)
  have g: "get_direct (img_block (fs_buffer t) (unat isize)) b = get_direct (dirbuf s1) b" if "b \<le> 16" for b
    unfolding t d[symmetric] using i that by (intro get_direct_cong) (simp add: mk_done_block)
  show "let img = fs_buffer t; sb = get_filesys (img_block img 1) in
     s_mounted sb = SMOUNTED \<and> s_isize sb = isize \<and> s_fsize sb = fsize \<and>
     s_ninode sb = 0 \<and> s_tinode sb = 8 * (isize - 2) - 2 \<and>
     chain_sb (img_word img) sb (map of_nat [Suc (unat isize)..<unat fsize]) \<and>
     get_dinode (img_block img 2) 64 = root_dinode isize \<and>
     get_direct (img_block img (unat isize)) 0 = \<lparr>d_ino = ROOTINODE, d_name = 46 # replicate 13 0\<rparr> \<and>
     get_direct (img_block img (unat isize)) 16 = \<lparr>d_ino = ROOTINODE, d_name = 46 # 46 # replicate 12 0\<rparr>"
    unfolding Let_def sb n
    using inv s1 c g[of 0] g[of 16]
    by (simp add: mk_inv_def s1_def[symmetric] first_inodes_def get_put_dinode_other root_dinode_def)
      (simp add: s1_def mk_ready_def get_put_direct_at get_put_direct_other)
qed

text \<open>
  C17: with more than two inode blocks, \<open>mkfs\<close> makes a file system whose superblock carries the
  magic number, the sizes and the counts, whose free list stands for exactly the blocks after
  the root directory in ascending order, and whose inode 1 is a directory of mode 0777 with
  three links that holds the entries \<open>.\<close> and \<open>..\<close> for itself.
\<close>

theorem mkfs_image:
  assumes p: "\<not> bad_params fsize isize" and i: "2 < unat isize"
  shows "wp (mkfs fsize isize) (\<lambda>_ t. let img = fs_buffer t; sb = get_filesys (img_block img 1) in
     s_mounted sb = SMOUNTED \<and> s_isize sb = isize \<and> s_fsize sb = fsize \<and>
     s_ninode sb = 0 \<and> s_tinode sb = 8 * (isize - 2) - 2 \<and>
     chain_sb (img_word img) sb (map of_nat [Suc (unat isize)..<unat fsize]) \<and>
     get_dinode (img_block img 2) 64 = root_dinode isize \<and>
     get_direct (img_block img (unat isize)) 0 = \<lparr>d_ino = ROOTINODE, d_name = 46 # replicate 13 0\<rparr> \<and>
     get_direct (img_block img (unat isize)) 16 = \<lparr>d_ino = ROOTINODE, d_name = 46 # 46 # replicate 12 0\<rparr>)
     mk_start"
  using p i by (rule mkfs_result_image)

theorem mkfs_image_witness:
  "wp (mkfs 10 4) (\<lambda>_ t. let img = fs_buffer t; sb = get_filesys (img_block img 1) in
     s_tinode sb = 14 \<and> chain_sb (img_word img) sb [5, 6, 7, 8, 9] \<and>
     get_dinode (img_block img 2) 64 = root_dinode 4) mk_start"
proof -
  have l: "map of_nat [Suc 4..<10] = [5, 6, 7, 8, 9 :: u16]" by (simp add: upt_rec)
  have "\<not> bad_params 10 4" "2 < unat (4 :: u16)" by (simp_all add: bad_params_def)
  from mkfs_image[OF this] show ?thesis
    by (rule wp_mono) (simp add: Let_def l)
qed

text \<open>
  \<open>main\<close> also accepts two as the number of inode blocks, which leaves none: the block of the
  root directory is then written over the block of the root inode.
\<close>

lemma mkfs_isize_2:
  assumes "3 \<le> unat fsize"
  shows "wp (mkfs fsize 2) (\<lambda>_ t. i_mode (get_dinode (img_block (fs_buffer t) 2) 64) = 0) mk_start \<and>
     \<not> bad_params fsize 2"
proof
  show p: "\<not> bad_params fsize 2"
    using assms by (simp add: bad_params_def word_less_nat_alt word_le_nat_alt)
  show "wp (mkfs fsize 2) (\<lambda>_ t. i_mode (get_dinode (img_block (fs_buffer t) 2) 64) = 0) mk_start"
  proof (rule wp_mono[OF mkfs_result[OF p]])
    fix r :: unit and t
    assume "\<exists>u. t = mk_done 2 u \<and> mk_inv (unat (2 :: u16)) (unat fsize) (mk_ready fsize 2 mk_start) (Suc (unat (2 :: u16))) u"
    then obtain u where t: "t = mk_done 2 u" and d: "dirbuf u = dirbuf (mk_ready fsize 2 mk_start)"
      by (auto simp: mk_inv_def)
    have "img_block (fs_buffer t) 2 k = dirbuf u k" if "k < 512" for k
      using mk_done_block(2)[OF that, of 2 u] t by simp
    then show "i_mode (get_dinode (img_block (fs_buffer t) 2) 64) = 0"
      by (simp add: d mk_ready_def put_direct_def mk_start_def get_dinode_def get16_def)
  qed
qed

end
