(* ===== verification/Mkfs_Mount.thy ===== *)
theory Mkfs_Mount
  imports Mkfs Inode_Table Directory
begin

text \<open>
  The image that \<open>mkfs\<close> makes, in the kernel: a device that holds it can be mounted by
  \<open>fmount\<close>, its free list is the stack the allocator works on, and opening inode 1 gives the
  root directory.
\<close>

text \<open>The first \<open>n\<close> blocks of the root device, as the cache shows them, are those of the image.\<close>

definition shows_image :: "kst \<Rightarrow> bytes \<Rightarrow> nat \<Rightarrow> bool" where
  "shows_image s img n \<longleftrightarrow> (\<forall>b<n. \<forall>k<512. bview s (of_nat b) k = img_block img b k)"

lemma block_fun_get_filesys: "block_fun get_filesys"
  unfolding block_fun_def by (intro allI impI get_filesys_cong) simp

lemma shows_image_block:
  assumes "shows_image s img n" and "unat b < n" and "k < 512"
  shows "bview s b k = img_block img (unat b) k"
  using assms(1)[unfolded shows_image_def, rule_format, of "unat b" k] assms(2,3) by simp

lemma free_list_image:
  assumes v: "shows_image s img (unat fsize)" and f: "fs_tab s ! 0 = sb\<lparr>s_mntpt := m\<rparr>"
    and sb: "s_mounted sb = SMOUNTED" "s_isize sb = isize" "s_fsize sb = fsize" "wf_sb sb"
    and c: "chain_sb (img_word img) sb (map of_nat [Suc (unat isize)..<unat fsize])"
    and n: "unat fsize \<le> 2048"
  shows "free_list s (map of_nat [Suc (unat isize)..<unat fsize])"
proof -
  let ?l = "map of_nat [Suc (unat isize)..<unat fsize] :: u16 list"
  have u: "unat (of_nat j :: u16) = j" if "j < 2048" for j using that by (intro unat_of_small) simp
  have mem: "unat isize < unat b \<and> unat b < unat fsize" if "b \<in> set ?l" for b
    using that n u by auto
  have c': "chain_sb (view_words s) sb ?l"
  proof (rule chain_sb_cong[OF c])
    fix b k assume b: "b \<in> set ?l" "k \<le> (50 :: nat)"
    have "bview s b j = img_block img (unat b) j" if "j < 512" for j
      using shows_image_block[OF v _ that] mem[OF b(1)] by blast
    then show "view_words s b k = img_word img b k"
      using b(2) by (simp add: view_words_def img_word_def word_at_def get16_def)
  qed
  have d: "distinct ?l"
    unfolding distinct_map using n u by (auto intro!: inj_onI dest!: arg_cong[where f = unat])
  have t: "unat (of_nat (length ?l) :: u16) = length ?l" using n by (intro unat_of_small) simp
  have r: "\<forall>b\<in>set ?l. b \<noteq> 0 \<and> isize \<le> b \<and> b < fsize \<and> unat b < 2048"
    using mem n by (force simp: word_less_nat_alt word_le_nat_alt)
  show ?thesis
    unfolding free_list_def Let_def f
    using sb c' d t r by (simp add: chain_sb_def wf_sb_def)
qed

lemma image_root:
  assumes "shows_image s img n" and "2 < n"
  shows "inode_at (bview s) ROOTINODE = get_dinode (img_block img 2) 64"
proof -
  have b: "inode_blk 1 = 2" "unat (1 AND 7 :: u16) * 64 = 64" by (simp_all add: inode_blk_def)
  show ?thesis
    unfolding inode_at_def b using assms shows_image_block[OF assms(1), of 2] by (intro get_dinode_cong) simp
qed

lemma live_root: "live (root_dinode isize)"
  by (simp add: live_def root_dinode_def)

lemma good_root:
  assumes "s_isize (fs_tab s ! 0) = isize" and "2 < unat isize" "unat isize < 2048" and "\<And>b. \<not> held s b"
  shows "good_ino s ROOTINODE"
proof -
  have d: "unat (isize - 2) = unat isize - 2" using assms(2) by (subst unat_sub_le) simp_all
  have "unat ((isize - 2) * 8) = (unat isize - 2) * 8"
    using assms(2,3) by (subst unat_mult_lem[THEN iffD1]) (simp_all add: d)
  then have "ROOTINODE < ino_limit (fs_tab s ! 0)"
    unfolding ino_limit_def assms(1) word_less_nat_alt using assms(2) by simp
  then show ?thesis using assms(4) by (simp add: good_ino_def inode_blk_def)
qed

lemma mkfs_mounted:
  assumes p: "\<not> bad_params fsize isize" "2 < unat isize" "unat fsize \<le> 2048"
    and m: "mkfs fsize isize mk_start = Ret () t"
    and v: "shows_image s (fs_buffer t) (unat fsize)"
    and s: "idle s" "length (fs_tab s) = NDEVS"
    and i: "length (i_tab s) = ITABSIZE" "nexti s < ITABSIZE"
      "\<forall>k<ITABSIZE. c_refs (i_tab s ! k) = 0 \<and> \<not> entry_is 0 ROOTINODE (i_tab s ! k)"
  shows "wp (bindK (fmount 0 None) (\<lambda>r. bindK (i_open 0 ROOTINODE) (\<lambda>ino. retK (r, ino))))
     (\<lambda>(r, ino) u. r = 0 \<and> (\<exists>n. ino = Some n \<and> c_node (i_tab u ! n) = root_dinode isize \<and> c_refs (i_tab u ! n) = 1) \<and>
        free_stack u (map of_nat [Suc (unat isize)..<unat fsize])) s"
proof -
  let ?l = "map of_nat [Suc (unat isize)..<unat fsize] :: u16 list"
  let ?img = "fs_buffer t"
  define sb where "sb = get_filesys (img_block ?img 1)"
  have im: "s_mounted sb = SMOUNTED" "s_isize sb = isize" "s_fsize sb = fsize" "wf_sb sb"
    "chain_sb (img_word ?img) sb ?l" "get_dinode (img_block ?img 2) 64 = root_dinode isize"
    using mkfs_result_image[OF p(1,2)] m by (simp_all add: wp_def Let_def sb_def)
  have u: "unat isize < unat fsize" using p(1) by (simp add: bad_params_def word_less_nat_alt word_le_nat_alt)
  have blk: "get_filesys (bview s 1) = sb"
    unfolding sb_def using u shows_image_block[OF v, of 1] p(2) by (intro get_filesys_cong) simp
  have free: "some_free s" "\<And>b. \<not> held s b" "buf_inv s" using idle_free[OF s(1)] s(1) by (simp_all add: idle_def)
  let ?Q = "\<lambda>(r, ino) u. r = (0 :: int) \<and> (\<exists>n. ino = Some n \<and> c_node (i_tab u ! n) = root_dinode isize \<and> c_refs (i_tab u ! n) = 1) \<and>
        free_stack u ?l"
  have mnt: "wp (fmount 0 None) (\<lambda>r u. r = 0 \<and> (\<exists>u1. cache_step s (bview s) u1 \<and>
     u = u1\<lparr>fs_tab := (fs_tab u1)[0 := sb\<lparr>s_mntpt := 0\<rparr>]\<rparr>)) s" (is "wp _ ?R s")
  proof -
    have "wp (read_buf 0 1 get_filesys) (\<lambda>fp. wp (thenK (upd_fs (nat 0) (\<lambda>_. fp))
       (if s_mounted fp \<noteq> SMOUNTED \<or> s_isize fp \<ge> s_fsize fp then retK (- 1)
        else thenK (doK [(\<lambda>s. upd_fs (nat 0) (\<lambda>f. f\<lparr>s_mntpt := 0\<rparr>) s), retK ()]) (retK 0))) ?R) s"
    proof (rule wp_mono[OF read_buf_spec])
      fix fp u1 assume a: "fp = get_filesys (bview s 1) \<and> cache_step s (bview s) u1"
      then have "length (fs_tab u1) = NDEVS" using cache_stepD(3)[of s "bview s" u1] s(2) by simp
      then show "wp (thenK (upd_fs (nat 0) (\<lambda>_. fp))
       (if s_mounted fp \<noteq> SMOUNTED \<or> s_isize fp \<ge> s_fsize fp then retK (- 1)
        else thenK (doK [(\<lambda>s. upd_fs (nat 0) (\<lambda>f. f\<lparr>s_mntpt := 0\<rparr>) s), retK ()]) (retK 0))) ?R u1"
        using a blk im(1-3) p(1) by (auto simp: bad_params_def)
    qed (use free block_fun_get_filesys in simp_all)
    then show ?thesis
      by (simp add: fmount_def d_open_def validdev_def dev_entry_def dev_tab_def ppuwd_open_def cong: if_cong)
  qed
  show ?thesis
  proof (simp only: wp_bindK, rule wp_mono[OF mnt])
    fix r u2 assume "?R r u2"
    then obtain u1 where r: "r = 0" and c: "cache_step s (bview s) u1"
      and u2: "u2 = u1\<lparr>fs_tab := (fs_tab u1)[0 := sb\<lparr>s_mntpt := 0\<rparr>]\<rparr>" by blast
    show "wp (i_open 0 ROOTINODE) (\<lambda>ino. wp (retK (r, ino)) ?Q) u2"
    proof -
      have len: "length (fs_tab u1) = NDEVS" using cache_stepD(3)[OF c] s(2) by simp
      then have f0: "fs_tab u2 ! 0 = sb\<lparr>s_mntpt := 0\<rparr>" "length (fs_tab u2) = NDEVS" by (simp_all add: u2)
      have b2: "buf_inv u2" "some_free u2" "\<And>b. \<not> held u2 b"
        using cache_stepD(1,2)[OF c] free by (simp_all add: u2 busy_same_free busy_same_held)
      have id: "idle u2" using cache_stepD(1,2)[OF c] s(1) by (auto simp: idle_def busy_same_def u2)
      have v2: "shows_image u2 ?img (unat fsize)"
        using v cache_stepD(15)[OF c] p(3) by (simp add: shows_image_def u2 unat_of_small)
      have it: "i_tab u2 = i_tab s" "nexti u2 = nexti s"
        using cache_stepD(4,11)[OF c] by (simp_all add: u2)
      have good: "good_ino u2 ROOTINODE"
      proof (rule good_root)
        show "unat isize < 2048" using p(3) u by linarith
      qed (use p(2) b2(3) im(2) f0 in simp_all)
      have root: "inode_at (bview u2) ROOTINODE = root_dinode isize"
        using image_root[OF v2] u p(2) im(6) by simp
      show ?thesis
      proof (rule wp_mono[OF i_open_spec[OF b2(1,2) _ _ good]])
        show "nexti u2 < ITABSIZE" "length (i_tab u2) = ITABSIZE" using it i by simp_all
        fix ino u3 assume o: "cache_same u2 u3 \<and> nexti u3 < ITABSIZE \<and> of_tab u3 = of_tab u2 \<and> opened ROOTINODE u2 ino (i_tab u3)"
        then obtain n where n: "n < ITABSIZE" "ino = Some n"
          "i_tab u3 = (i_tab u2)[n := (entry_for (bview u2) ROOTINODE (i_tab u2 ! n))
             \<lparr>c_refs := c_refs (entry_for (bview u2) ROOTINODE (i_tab u2 ! n)) + 1\<rparr>]"
          using i(1,3) it live_root[of isize] root
          by (auto simp: opened_def usable_def entry_for_def)
        have "entry_for (bview u2) ROOTINODE (i_tab u2 ! n) = (i_tab u2 ! n)\<lparr>c_node := root_dinode isize,
            c_dev := 0, c_num := ROOTINODE, c_magic := CMAGIC\<rparr>"
          using i(3) n(1) it root by (simp add: entry_for_def)
        then have "c_node (i_tab u3 ! n) = root_dinode isize" "c_refs (i_tab u3 ! n) = 1"
          using n i it by simp_all
        moreover have "idle u3" using o id by (auto simp: idle_def busy_same_def cache_same_def)
        moreover have f3: "fs_tab u3 = fs_tab u2" using o by (simp add: cache_same_def)
        moreover have "free_list u3 ?l"
        proof (rule free_list_image[OF _ _ im(1-5) p(3)])
          show "shows_image u3 ?img (unat fsize)"
            using v2 o p(3) by (simp add: shows_image_def cache_same_def same_view_def unat_of_small)
          show "fs_tab u3 ! 0 = sb\<lparr>s_mntpt := 0\<rparr>" using f3 f0 by simp
        qed
        ultimately show "wp (retK (r, ino)) ?Q u3"
          using r n(2) f0(2) by (simp add: free_stack_def)
      qed
    qed
  qed
qed

text \<open>
  C16: the root device that holds what \<open>mkfs\<close> made, with sizes that \<open>mkfs\<close> accepts, more than two
  for \<open>isize\<close> and at most 2048 blocks, can be mounted by a kernel with an idle cache and no open
  inode; the allocator's free list is then exactly the blocks after the root directory, and
  opening inode 1 gives the root directory. Both limits are the code's: with \<open>isize\<close> 2 the image
  has no block for inodes and so no root inode, and the block driver loses the upper bits of the
  bank, so that of a larger image (4096 blocks in the documentation) the blocks from 2048 on are
  the lower ones again.
\<close>

theorem mkfs_mount:
  assumes p: "\<not> bad_params fsize isize" "2 < unat isize" "unat fsize \<le> 2048"
    and m: "mkfs fsize isize mk_start = Ret () t"
    and v: "shows_image s (fs_buffer t) (unat fsize)"
    and s: "idle s" "length (fs_tab s) = NDEVS"
    and i: "length (i_tab s) = ITABSIZE" "nexti s < ITABSIZE"
      "\<forall>k<ITABSIZE. c_refs (i_tab s ! k) = 0 \<and> \<not> entry_is 0 ROOTINODE (i_tab s ! k)"
  shows "wp (bindK (fmount 0 None) (\<lambda>r. bindK (i_open 0 ROOTINODE) (\<lambda>ino. retK (r, ino))))
     (\<lambda>(r, ino) u. r = 0 \<and> (\<exists>n. ino = Some n \<and> c_node (i_tab u ! n) = root_dinode isize \<and> c_refs (i_tab u ! n) = 1) \<and>
        free_stack u (map of_nat [Suc (unat isize)..<unat fsize])) s"
  by (rule mkfs_mounted[OF assms])

text \<open>A machine at rest whose disk holds an image.\<close>

definition disk_with :: "bytes \<Rightarrow> kst" where
  "disk_with img = empty_cache\<lparr>chr_ram := (\<lambda>bank off. img (4096 * bank + off))\<rparr>"

lemma disk_with_rest:
  "bufpool (disk_with img) = bufpool empty_cache" "fs_tab (disk_with img) = replicate 5 zero_fs"
  "i_tab (disk_with img) = replicate 20 zero_cinode" "nexti (disk_with img) = 0"
  by (simp_all add: disk_with_def empty_cache_def bss_def)

lemma idle_disk_with: "idle (disk_with img)"
  unfolding idle_def buf_inv_def disk_with_rest(1)
  by (simp add: empty_cache_pool buf_ok_def agrees_def zero_buf_def)
    (simp add: disk_with_def empty_cache_def bss_def)

lemma disk_with_shows:
  assumes "n \<le> 2048" shows "shows_image (disk_with img) img n"
  unfolding shows_image_def
proof (intro allI impI)
  fix b k :: nat assume b: "b < n" "k < 512"
  have u: "unat (of_nat b :: u16) = b" using b(1) assms by (intro unat_of_small) simp
  have "bview (disk_with img) (of_nat b) = disk_block (disk_with img) (of_nat b)"
    by (rule bview_disk) (simp add: disk_with_rest empty_cache_pool)
  moreover have "disk_block (disk_with img) (of_nat b) k = img (4096 * (b div 8 mod 256) + ((b mod 8) * 512 + k))"
    by (simp add: disk_block_def disk_with_def disk_bank_def disk_off_def bank_lower_byte_def blk_bank_def u)
  ultimately have e: "bview (disk_with img) (of_nat b) k = img (4096 * (b div 8 mod 256) + ((b mod 8) * 512 + k))"
    by simp
  show "bview (disk_with img) (of_nat b) k = img_block img b k"
  proof -
    have "b div 8 mod 256 = b div 8" using b(1) assms by simp
    moreover have "4096 * (b div 8) + ((b mod 8) * 512 + k) = 512 * b + k"
      using div_mult_mod_eq[of b 8] by linarith
    ultimately show ?thesis
      using e
      by (simp only: img_block_def)
  qed
qed

theorem mkfs_mount_witness:
  "\<exists>t. mkfs 10 4 mk_start = Ret () t \<and>
     wp (bindK (fmount 0 None) (\<lambda>r. bindK (i_open 0 ROOTINODE) (\<lambda>ino. retK (r, ino))))
       (\<lambda>(r, ino) u. r = 0 \<and> (\<exists>n. ino = Some n \<and> c_node (i_tab u ! n) = root_dinode 4 \<and> c_refs (i_tab u ! n) = 1) \<and>
          free_stack u [5, 6, 7, 8, 9]) (disk_with (fs_buffer t))"
proof -
  have p: "\<not> bad_params 10 4" "2 < unat (4 :: u16)" "unat (10 :: u16) \<le> 2048" by (simp_all add: bad_params_def)
  obtain t where t: "mkfs 10 4 mk_start = Ret () t"
    using mkfs_result[OF p(1)] by (auto simp: wp_iff)
  have l: "map of_nat [Suc (unat (4 :: u16))..<unat (10 :: u16)] = [5, 6, 7, 8, 9 :: u16]" by (simp add: upt_rec)
  have "wp (bindK (fmount 0 None) (\<lambda>r. bindK (i_open 0 ROOTINODE) (\<lambda>ino. retK (r, ino))))
     (\<lambda>(r, ino) u. r = 0 \<and> (\<exists>n. ino = Some n \<and> c_node (i_tab u ! n) = root_dinode 4 \<and> c_refs (i_tab u ! n) = 1) \<and>
        free_stack u (map of_nat [Suc (unat (4 :: u16))..<unat (10 :: u16)])) (disk_with (fs_buffer t))"
    by (rule mkfs_mount[OF p t])
      (simp_all add: disk_with_shows idle_disk_with disk_with_rest zero_cinode_def entry_is_def)
  then show ?thesis unfolding l using t by blast
qed

end
