(* ===== verification/Fsck_Disk.thy ===== *)
theory Fsck_Disk
  imports Host_Image "HOL-Library.Signed_Division"
begin

text \<open>
  \<open>uzi-nes-utils/fs/fsck.c\<close>, the part below the passes: access to the image file, to inodes,
  directory entries and the blocks of a file, the allocator, and \<open>yes\<close> of \<open>linux_fs.c\<close>. The
  state is the image, the static variables and what is left of the standard input; messages
  are left out. The pointer that \<open>daread\<close> returns is always that of \<open>readbuf\<close>, so a later read
  replaces what an earlier one returned. \<open>exit\<close> is the outcome \<open>Halt\<close>.
\<close>

section \<open>State\<close>

text \<open>\<open>bitmap\<close> and \<open>linkmap\<close> are arrays of the length they were allocated with.\<close>

record fsck_st =
  img :: bytes
  img_len :: nat
  readbuf :: bytes
  fs_buf :: bytes
  bitmap :: "byte list"
  linkmap :: "u16 list"
  depth :: int
  stdin :: "byte list"

type_synonym 'a fk = "(fsck_st, 'a) kop"

definition sb :: "fsck_st \<Rightarrow> filesys" where
  "sb s = get_filesys (fs_buf s)"

definition upd_sb :: "(filesys \<Rightarrow> filesys) \<Rightarrow> unit fk" where
  "upd_sb f = modK (\<lambda>s. s\<lparr>fs_buf := put_filesys (f (sb s)) (fs_buf s)\<rparr>)"

definition get_bit :: "u16 \<Rightarrow> byte fk" where
  "get_bit b = (\<lambda>s. if unat b < length (bitmap s) then Ret (bitmap s ! unat b) s else Halt BadAccess)"

definition set_bit :: "u16 \<Rightarrow> byte \<Rightarrow> unit fk" where
  "set_bit b v = (\<lambda>s. if unat b < length (bitmap s) then Ret () (s\<lparr>bitmap := (bitmap s)[unat b := v]\<rparr>) else Halt BadAccess)"

definition get_link :: "u16 \<Rightarrow> u16 fk" where
  "get_link n = (\<lambda>s. if unat n < length (linkmap s) then Ret (linkmap s ! unat n) s else Halt BadAccess)"

definition set_link :: "u16 \<Rightarrow> u16 \<Rightarrow> unit fk" where
  "set_link n v = (\<lambda>s. if unat n < length (linkmap s) then Ret () (s\<lparr>linkmap := (linkmap s)[unat n := v]\<rparr>) else Halt BadAccess)"

section \<open>Input\<close>

text \<open>What \<open>fgets\<close> takes for a buffer with room for \<open>n\<close> characters, and the rest.\<close>

fun fgets_split :: "nat \<Rightarrow> byte list \<Rightarrow> byte list \<times> byte list" where
  "fgets_split 0 inp = ([], inp)"
| "fgets_split (Suc n) [] = ([], [])"
| "fgets_split (Suc n) (c # r) = (if c = 10 then ([c], r)
     else let (l, r') = fgets_split n r in (c # l, r'))"

definition yes :: "bool fk" where
  "yes = (\<lambda>s. let (line, rest) = fgets_split 19 (stdin s) in
     Ret (deref line = 121 \<or> deref line = 89) (s\<lparr>stdin := rest\<rparr>))"

section \<open>The image file\<close>

text \<open>A read at or past the end of the file leaves the buffer, or its rest, as it was.\<close>

definition daread :: "u16 \<Rightarrow> unit fk" where
  "daread blk = modK (\<lambda>s. s\<lparr>readbuf := (\<lambda>k. if k < 512 \<and> 512 * unat blk + k < img_len s
     then img s (512 * unat blk + k) else readbuf s k)\<rparr>)"

text \<open>A write past the end of the file fills the gap with zeros.\<close>

definition fsck_dwrite :: "u16 \<Rightarrow> bytes \<Rightarrow> unit fk" where
  "fsck_dwrite blk addr = modK (\<lambda>s. s\<lparr>
     img := put_block (unat blk) addr (\<lambda>a. if a < img_len s then img s a else 0),
     img_len := max (img_len s) (512 * unat blk + 512)\<rparr>)"

definition write_readbuf :: "u16 \<Rightarrow> unit fk" where
  "write_readbuf blk = bindK (getK readbuf) (fsck_dwrite blk)"

text \<open>\<open>dwrite(1, filsys)\<close>.\<close>

definition write_sb :: "unit fk" where
  "write_sb = bindK (getK fs_buf) (fsck_dwrite 1)"

definition buf_word :: "nat \<Rightarrow> u16 fk" where
  "buf_word i = getK (\<lambda>s. word_at (readbuf s) i)"

definition set_buf_word :: "nat \<Rightarrow> u16 \<Rightarrow> unit fk" where
  "set_buf_word i v = modK (\<lambda>s. s\<lparr>readbuf := put16 (2 * i) v (readbuf s)\<rparr>)"

definition iread :: "u16 \<Rightarrow> dinode fk" where
  "iread ino = thenK (daread (drop_bit 3 ino + 2)) (getK (\<lambda>s. get_dinode (readbuf s) (64 * unat (ino AND 7))))"

definition iwrite :: "u16 \<Rightarrow> dinode \<Rightarrow> unit fk" where
  "iwrite ino d = doK [
     daread (drop_bit 3 ino + 2),
     modK (\<lambda>s. s\<lparr>readbuf := put_dinode (64 * unat (ino AND 7)) d (readbuf s)\<rparr>),
     write_readbuf (drop_bit 3 ino + 2)]"

section \<open>The blocks of a file\<close>

definition getblkno :: "dinode \<Rightarrow> u16 \<Rightarrow> u16 fk" where
  "getblkno ino num =
     (if num < 18 then retK (i_addr ino ! unat num)
      else if num < 274 then
        let indb = i_addr ino ! 18 in
        if indb = 0 then retK 0
        else thenK (daread indb) (buf_word (unat num - 18))
      else
        let indb = i_addr ino ! 19 in
        if indb = 0 then retK 0
        else thenK (daread indb)
          (bindK (buf_word ((unat num - 274) div 256)) (\<lambda>dindb.
           thenK (daread dindb) (buf_word ((unat num - 274) mod 256)))))"

text \<open>
  In the double indirect case the code stores \<open>num\<close>, not \<open>dnum\<close>, and writes the second level
  over the first. The result is the inode, which the caller passes by reference.
\<close>

definition setblkno :: "dinode \<Rightarrow> u16 \<Rightarrow> u16 \<Rightarrow> dinode fk" where
  "setblkno ino num dnum =
     (if num < 18 then retK (ino\<lparr>i_addr := (i_addr ino)[unat num := dnum]\<rparr>)
      else if num < 274 then
        let indb = i_addr ino ! 18 in
        if indb = 0 then panic ''Missing indirect block''
        else thenK (doK [daread indb, set_buf_word (unat num - 18) dnum, write_readbuf indb]) (retK ino)
      else
        let indb = i_addr ino ! 19 in
        if indb = 0 then panic ''Missing indirect block''
        else thenK (daread indb)
          (bindK (buf_word ((unat num - 274) div 256)) (\<lambda>dindb.
           if dindb = 0 then panic ''Missing indirect block''
           else thenK (doK [daread dindb, set_buf_word ((unat num - 274) mod 256) num, write_readbuf indb])
             (retK ino))))"

text \<open>\<open>int16\<close> arithmetic on \<open>s_nfree\<close>; an index outside \<open>s_free\<close> is a bad access.\<close>

definition fsck_blk_alloc :: "u16 fk" where
  "fsck_blk_alloc = bindK (getK sb) (\<lambda>fs.
     let n = s_nfree fs - 1; newno = s_free fs ! unat n in
     if sint n < 0 \<or> sint n \<ge> 50 then haltK BadAccess
     else thenK (upd_sb (\<lambda>f. f\<lparr>s_nfree := n\<rparr>))
       (if newno = 0 then thenK (upd_sb (\<lambda>f. f\<lparr>s_nfree := s_nfree f + 1\<rparr>)) (retK 0)
        else thenK (doK [
            whenK (n = 0) (doK [
              daread newno,
              bindK (getK readbuf) (\<lambda>buf. upd_sb (\<lambda>f. f\<lparr>s_nfree := word_at buf 0,
                s_free := map (word_at buf) [1..<51]\<rparr>))]),
            upd_sb (\<lambda>f. f\<lparr>s_tfree := s_tfree f - 1\<rparr>)])
          (if newno < s_isize fs \<or> newno \<ge> s_fsize fs then retK 0
           else thenK write_sb (retK newno))))"

section \<open>Directory entries\<close>

text \<open>
  The entry is taken at \<open>buf + 16 * j\<close> although the block read holds 32 entries only: from
  \<open>j = 32\<close> on this lies behind the 512 bytes of \<open>readbuf\<close>. What the linker puts there are the
  bytes of \<open>readbuf\<close> from 512 on: \<open>daread\<close> leaves them alone, \<open>fsck_dwrite\<close> does not write them
  to the image, nothing else uses them, and they hold anything at the start.
\<close>

definition dirread :: "dinode \<Rightarrow> u16 \<Rightarrow> direct fk" where
  "dirread ino j = bindK (getblkno ino (j div 32)) (\<lambda>blkno.
     if blkno = 0 then panic ''Missing block in directory''
     else thenK (daread blkno) (getK (\<lambda>s. get_direct (readbuf s) (16 * unat j))))"

definition dirwrite :: "dinode \<Rightarrow> u16 \<Rightarrow> direct \<Rightarrow> unit fk" where
  "dirwrite ino j e = bindK (getblkno ino (j div 32)) (\<lambda>blkno.
     if blkno = 0 then panic ''Missing block in directory''
     else doK [
       daread blkno,
       modK (\<lambda>s. s\<lparr>readbuf := put_direct (16 * unat j) e (readbuf s)\<rparr>),
       write_readbuf blkno])"

end
