(* ===== verification/Fsck.thy ===== *)
theory Fsck
  imports Fsck_Disk
begin

text \<open>
  \<open>uzi-nes-utils/fs/fsck.c\<close>: the five passes and \<open>main\<close>. Every question is a call of \<open>yes\<close>.
  A local variable that a loop changes (the inode under inspection, the count of inodes) is
  passed from round to round.
\<close>

section \<open>Pass 1: inodes\<close>

text \<open>\<open>if (yes()) ...\<close>, with what to go on with otherwise.\<close>

definition if_yes :: "'a fk \<Rightarrow> 'a fk \<Rightarrow> 'a fk" where
  "if_yes m n = bindK yes (\<lambda>y. if y then m else n)"

definition out_of_range :: "fsck_st \<Rightarrow> u16 \<Rightarrow> bool" where
  "out_of_range s b \<longleftrightarrow> b \<noteq> 0 \<and> (b < s_isize (sb s) \<or> b \<ge> s_fsize (sb s))"

text \<open>The loop that carries whole blocks over from \<open>o_offset\<close> to \<open>o_blkno\<close>: at most 63 rounds.\<close>

primrec carry_off :: "nat \<Rightarrow> uzi_off \<Rightarrow> uzi_off" where
  "carry_off 0 sz = sz"
| "carry_off (Suc n) sz = (if sint (o_offset sz) \<ge> 512
     then carry_off n (sz\<lparr>o_offset := o_offset sz - 512, o_blkno := o_blkno sz + 1\<rparr>) else sz)"

definition p1_size :: "u16 \<Rightarrow> dinode \<Rightarrow> dinode fk" where
  "p1_size n ino0 =
     bindK (if sint (o_offset (i_size ino0)) \<ge> 512
       then if_yes (let ino = ino0\<lparr>i_size := carry_off 64 (i_size ino0)\<rparr> in thenK (iwrite n ino) (retK ino)) (retK ino0)
       else retK ino0) (\<lambda>ino1.
     if sint (o_offset (i_size ino1)) < 0
       then if_yes (let ino = ino1\<lparr>i_size := (i_size ino1)\<lparr>o_offset := 0\<rparr>\<rparr> in thenK (iwrite n ino) (retK ino)) (retK ino1)
       else retK ino1)"

text \<open>\<open>ino.i_addr[b] = 0\<close> and the inode written back, after a yes.\<close>

definition zap_addr :: "u16 \<Rightarrow> nat \<Rightarrow> dinode \<Rightarrow> dinode fk" where
  "zap_addr n b ino = if_yes
     (let ino1 = ino\<lparr>i_addr := (i_addr ino)[b := 0]\<rparr> in thenK (iwrite n ino1) (retK ino1)) (retK ino)"

definition p1_ind :: "u16 \<Rightarrow> nat \<Rightarrow> dinode \<Rightarrow> dinode fk" where
  "p1_ind n b ino0 =
     bindK (bindK (getK (\<lambda>s. out_of_range s (i_addr ino0 ! b))) (\<lambda>bad.
       if bad then zap_addr n b ino0 else retK ino0)) (\<lambda>ino1.
     bindK (if i_addr ino1 ! b \<noteq> 0 \<and> o_blkno (i_size ino1) < 18 then zap_addr n b ino1 else retK ino1) (\<lambda>ino2.
     thenK (whenK (i_addr ino2 ! b \<noteq> 0) (set_bit (i_addr ino2 ! b) 1)) (retK ino2)))"

text \<open>
  One entry of the double indirect block, which is in \<open>readbuf\<close>. After a change the code
  writes the buffer to block \<open>b\<close>, the index, and not to the block it came from.
\<close>

definition p1_dbl :: "nat \<Rightarrow> unit fk" where
  "p1_dbl b = doK [
     bindK (bindK (buf_word b) (\<lambda>w. getK (\<lambda>s. out_of_range s w))) (\<lambda>bad.
       whenK bad (if_yes (doK [set_buf_word b 0, write_readbuf (of_nat b)]) (retK ()))),
     bindK (buf_word b) (\<lambda>w. whenK (w \<noteq> 0) (set_bit w 1))]"

text \<open>One block of the file. A number that has been zapped is still marked in the bitmap.\<close>

definition p1_blk :: "u16 \<Rightarrow> u16 \<Rightarrow> dinode \<Rightarrow> dinode fk" where
  "p1_blk n bno ino =
     bindK (getblkno ino bno) (\<lambda>b.
     bindK (bindK (getK (\<lambda>s. out_of_range s b)) (\<lambda>bad.
       if bad then if_yes (bindK (setblkno ino bno 0) (\<lambda>ino1. thenK (iwrite n ino1) (retK ino1))) (retK ino)
       else retK ino)) (\<lambda>ino1.
     thenK (whenK (b \<noteq> 0) (set_bit b 1)) (retK ino1)))"

definition p1_blocks :: "u16 \<Rightarrow> dinode \<Rightarrow> unit fk" where
  "p1_blocks n ino0 =
     bindK (foldK [18, 19] (p1_ind n) ino0) (\<lambda>ino.
     thenK (whenK (i_addr ino ! 19 \<noteq> 0) (thenK (daread (i_addr ino ! 19)) (forK [0..<256] p1_dbl)))
     (bindK (for_u16 0 (unat (o_blkno (i_size ino)) + 1) (p1_blk n) ino) (\<lambda>_. retK ())))"

text \<open>Whether an inode of unknown type is cleared and skipped.\<close>

definition p1_mode :: "u16 \<Rightarrow> dinode \<Rightarrow> bool fk" where
  "p1_mode n ino = (let mode = i_mode ino AND F_MASK in
     if mode \<noteq> F_REG \<and> mode \<noteq> F_DIR \<and> mode \<noteq> F_BDEV \<and> mode \<noteq> F_CDEV
     then if_yes (thenK (iwrite n (ino\<lparr>i_mode := 0, i_nlink := 0\<rparr>)) (retK True)) (retK False)
     else retK False)"

definition p1_inode :: "u16 \<Rightarrow> u16 \<Rightarrow> u16 fk" where
  "p1_inode n icount =
     bindK (iread n) (\<lambda>ino.
     thenK (set_link n 0xFFFF)
     (if i_mode ino = 0 then retK icount
      else let mode = i_mode ino AND F_MASK in
        bindK (p1_mode n ino) (\<lambda>zapped.
        if zapped then retK icount
        else thenK (set_link n 0)
          (bindK (p1_size n ino) (\<lambda>ino1.
           thenK (whenK (mode = F_REG \<or> mode = F_DIR) (p1_blocks n ino1)) (retK (icount + 1)))))))"

text \<open>The inodes are numbered below \<open>8 * (isize - 2)\<close>, computed in 32 bits.\<close>

definition ino_end :: "fsck_st \<Rightarrow> int" where
  "ino_end s = 8 * (uint (s_isize (sb s)) - 2)"

text \<open>The number of free inodes in the superblock; \<open>bound\<close> is the number of inodes.\<close>

definition p1_tinode :: "int \<Rightarrow> u16 \<Rightarrow> unit fk" where
  "p1_tinode bound icount =
     bindK (getK (\<lambda>s. uint (s_tinode (sb s)))) (\<lambda>tinode.
     whenK (tinode \<noteq> bound - 1 - uint icount)
       (if_yes (thenK (upd_sb (\<lambda>f. f\<lparr>s_tinode := word_of_int (bound - 1 - uint icount)\<rparr>)) write_sb) (retK ())))"

definition pass1 :: "unit fk" where
  "pass1 =
     bindK (getK ino_end) (\<lambda>bound.
     bindK (for_u16 1 (nat bound) p1_inode 0) (p1_tinode bound))"

section \<open>Pass 2: the free list\<close>

definition p2_block :: "u16 \<Rightarrow> unit fk" where
  "p2_block j = bindK (get_bit j) (\<lambda>bit. whenK (bit = 0) (doK [
     bindK (getK (\<lambda>s. s_nfree (sb s))) (\<lambda>nfree. whenK (nfree = 50) (doK [
       bindK (getK (\<lambda>s. nfree_bytes (fs_buf s))) (fsck_dwrite j),
       upd_sb (\<lambda>f. f\<lparr>s_nfree := 0\<rparr>)])),
     upd_sb (\<lambda>f. f\<lparr>s_tfree := s_tfree f + 1\<rparr>),
     bindK (getK (\<lambda>s. unat (s_nfree (sb s)))) (\<lambda>n.
       if n \<ge> 50 then haltK BadAccess
       else upd_sb (\<lambda>f. f\<lparr>s_free := (s_free f)[n := j], s_nfree := s_nfree f + 1\<rparr>))]))"

definition pass2 :: "unit fk" where
  "pass2 = if_yes
     (doK [
       upd_sb (\<lambda>f. f\<lparr>s_ninode := 0\<rparr>),
       upd_sb (\<lambda>f. f\<lparr>s_nfree := 1\<rparr>),
       upd_sb (\<lambda>f. f\<lparr>s_free := (s_free f)[0 := 0]\<rparr>),
       upd_sb (\<lambda>f. f\<lparr>s_tfree := 0\<rparr>),
       bindK (getK sb) (\<lambda>f. for_down (unat (s_fsize f - 1)) (unat (s_isize f)) p2_block),
       write_sb])
     (retK ())"

section \<open>Pass 3: blocks allocated twice\<close>

text \<open>A fresh copy of block \<open>b\<close>: its number, or 0 when there is none.\<close>

definition copy_block :: "u16 \<Rightarrow> u16 fk" where
  "copy_block b = bindK fsck_blk_alloc (\<lambda>newno.
     if newno = 0 then retK 0 else thenK (doK [daread b, write_readbuf newno]) (retK newno))"

definition p3_ind :: "u16 \<Rightarrow> nat \<Rightarrow> dinode \<Rightarrow> dinode fk" where
  "p3_ind n b ino = (let a = i_addr ino ! b in
     if a = 0 then retK ino
     else bindK (get_bit a) (\<lambda>bit.
       if bit \<noteq> 0 then if_yes
         (bindK (copy_block a) (\<lambda>newno.
            if newno = 0 then retK ino
            else let ino1 = ino\<lparr>i_addr := (i_addr ino)[b := newno]\<rparr> in thenK (iwrite n ino1) (retK ino1)))
         (retK ino)
       else thenK (set_bit a 1) (retK ino)))"

definition p3_blk :: "u16 \<Rightarrow> u16 \<Rightarrow> dinode \<Rightarrow> dinode fk" where
  "p3_blk n bno ino =
     bindK (getblkno ino bno) (\<lambda>b.
     if b = 0 then retK ino
     else bindK (get_bit b) (\<lambda>bit.
       if bit \<noteq> 0 then if_yes
         (bindK (copy_block b) (\<lambda>newno.
            if newno = 0 then retK ino
            else bindK (setblkno ino bno newno) (\<lambda>ino1. thenK (iwrite n ino1) (retK ino1))))
         (retK ino)
       else thenK (set_bit b 1) (retK ino)))"

definition p3_inode :: "u16 \<Rightarrow> unit \<Rightarrow> unit fk" where
  "p3_inode n = (\<lambda>_. bindK (iread n) (\<lambda>ino0.
     let mode = i_mode ino0 AND F_MASK in
     whenK (mode = F_REG \<or> mode = F_DIR)
       (bindK (foldK [18, 19] (p3_ind n) ino0) (\<lambda>ino.
        bindK (for_u16 0 (unat (o_blkno (i_size ino)) + 1) (p3_blk n) ino) (\<lambda>_. retK ())))))"

definition pass3 :: "unit fk" where
  "pass3 = doK [
     bindK (getK sb) (\<lambda>f. forK (map of_nat [unat (s_isize f)..<unat (s_fsize f)]) (\<lambda>b. set_bit b 0)),
     bindK (getK ino_end) (\<lambda>top. for_u16 1 (nat top) p3_inode ())]"

section \<open>Pass 4: directories\<close>

text \<open>The characters of a name before its terminator, as \<open>strncmp\<close> up to 14 sees them.\<close>

definition dname :: "direct \<Rightarrow> byte list" where
  "dname e = takeWhile (\<lambda>c. c \<noteq> 0) (take 14 (d_name e))"

text \<open>\<open>dentry.d_ino = 0; dentry.d_name[0] = '\0'; dirwrite(...)\<close> after a yes: whether the entry is gone.\<close>

definition zap_entry :: "dinode \<Rightarrow> u16 \<Rightarrow> direct \<Rightarrow> bool fk" where
  "zap_entry ino j e = if_yes
     (thenK (dirwrite ino j (e\<lparr>d_ino := 0, d_name := (d_name e)[0 := 0]\<rparr>)) (retK True)) (retK False)"

text \<open>Slashes in the name: the loop stops at the terminator.\<close>

primrec fix_slashes :: "dinode \<Rightarrow> u16 \<Rightarrow> nat list \<Rightarrow> direct \<Rightarrow> direct fk" where
  "fix_slashes ino j [] e = retK e"
| "fix_slashes ino j (c # cs) e =
     (if d_name e ! c = 0 then retK e
      else bindK (if d_name e ! c = 47 then if_yes
          (let e1 = e\<lparr>d_name := (d_name e)[c := 88]\<rparr> in thenK (dirwrite ino j e1) (retK e1)) (retK e)
        else retK e) (fix_slashes ino j cs))"

definition fix_ino :: "dinode \<Rightarrow> u16 \<Rightarrow> byte list \<Rightarrow> u16 \<Rightarrow> direct \<Rightarrow> direct fk" where
  "fix_ino ino j name num e = (if dname e = name \<and> d_ino e \<noteq> num then if_yes
     (let e1 = e\<lparr>d_ino := num\<rparr> in thenK (dirwrite ino j e1) (retK e1)) (retK e) else retK e)"

text \<open>
  \<open>strcpy\<close> and \<open>strcat\<close> into \<open>ename[150]\<close>. A name of 14 characters has no terminator, so that
  \<open>strcat\<close> reads on behind the entry: a bad access, as is a path that does not fit.
\<close>

definition mk_ename :: "byte list \<Rightarrow> direct \<Rightarrow> byte list fk" where
  "mk_ename name e = (if length (dname e) \<ge> 14 \<or> length name + length (dname e) + 1 \<ge> 150
     then haltK BadAccess else retK (name @ dname e @ [47]))"

text \<open>
  One entry of a directory; \<open>rec\<close> is the recursive call. The first result of the checks says
  whether the entry is to be skipped.
\<close>

definition ck_checks :: "dinode \<Rightarrow> u16 \<Rightarrow> direct \<Rightarrow> bool fk" where
  "ck_checks ino j e =
     (if d_ino e = 0 then retK True
      else bindK (getK (\<lambda>s. uint (d_ino e) \<ge> 8 * uint (s_isize (sb s)))) (\<lambda>beyond.
        bindK (if d_ino e < ROOTINODE \<or> beyond then zap_entry ino j e else retK False) (\<lambda>gone.
        if gone then retK True
        else bindK (get_link (d_ino e)) (\<lambda>l. if l = 0xFFFF then zap_entry ino j e else retK False))))"

definition ck_entry :: "(u16 \<Rightarrow> u16 \<Rightarrow> byte list \<Rightarrow> unit fk) \<Rightarrow> u16 \<Rightarrow> u16 \<Rightarrow> byte list \<Rightarrow> dinode \<Rightarrow> u16 \<Rightarrow> unit fk" where
  "ck_entry rec inum pnum name ino j =
     bindK (dirread ino j) (\<lambda>e0.
     bindK (ck_checks ino j e0) (\<lambda>skip.
     if skip then retK ()
     else thenK (bindK (get_link (d_ino e0)) (\<lambda>l. set_link (d_ino e0) (l + 1)))
       (bindK (fix_slashes ino j [0..<14] e0) (\<lambda>e1.
        bindK (fix_ino ino j [46] inum e1) (\<lambda>e2.
        bindK (fix_ino ino j [46, 46] pnum e2) (\<lambda>e3.
        bindK (getK depth) (\<lambda>d.
        if d_ino e3 \<noteq> pnum \<and> d_ino e3 \<noteq> inum \<and> d < 20
        then bindK (mk_ename name e3) (rec (d_ino e3) inum) else retK ())))))))"

text \<open>\<open>o_offset &= ~0x0f; ++o_offset\<close>, as the code has it.\<close>

definition fix_length :: "u16 \<Rightarrow> dinode \<Rightarrow> dinode fk" where
  "fix_length inum ino = (if sint (o_offset (i_size ino)) smod 16 \<noteq> 0 then if_yes
     (let ino1 = ino\<lparr>i_size := (i_size ino)\<lparr>o_offset := (o_offset (i_size ino) AND NOT 0x0f) + 1\<rparr>\<rparr>
      in thenK (iwrite inum ino1) (retK ino1)) (retK ino) else retK ino)"

definition nentries :: "dinode \<Rightarrow> int" where
  "nentries ino = 8 * uint (o_blkno (i_size ino)) + sint (o_offset (i_size ino)) sdiv 16"

text \<open>
  The depth counts up by one for every directory on the path and is below 20 at every
  recursive call, so the first argument, 21 less the depth, is never used up.
\<close>

primrec ckdir :: "nat \<Rightarrow> u16 \<Rightarrow> u16 \<Rightarrow> byte list \<Rightarrow> unit fk" where
  "ckdir 0 inum pnum name = haltK Diverges"
| "ckdir (Suc fuel) inum pnum name =
     bindK (iread inum) (\<lambda>ino0.
     if i_mode ino0 AND F_MASK \<noteq> F_DIR then retK ()
     else thenK (modK (\<lambda>s. s\<lparr>depth := depth s + 1\<rparr>))
       (bindK (fix_length inum ino0) (\<lambda>ino.
        thenK (for_u16 0 (nat (nentries ino)) (\<lambda>j _. ck_entry (ckdir fuel) inum pnum name ino j) ())
          (modK (\<lambda>s. s\<lparr>depth := depth s - 1\<rparr>)))))"

definition pass4 :: "unit fk" where
  "pass4 = doK [
     modK (\<lambda>s. s\<lparr>depth := 0\<rparr>),
     set_link ROOTINODE 1,
     ckdir 21 ROOTINODE ROOTINODE [47],
     bindK (getK depth) (\<lambda>d. whenK (d \<noteq> 0) (panic ''Inconsistent depth''))]"

section \<open>Pass 5: link counts\<close>

text \<open>\<open>%d\<close> of a number that is not negative.\<close>

fun decimal :: "nat \<Rightarrow> byte list" where
  "decimal n = (if n < 10 then [of_nat (48 + n)] else decimal (n div 10) @ [of_nat (48 + n mod 10)])"

text \<open>\<open>sprintf\<close> writes the text and its terminator over the start of the name.\<close>

definition put_name :: "byte list \<Rightarrow> direct \<Rightarrow> direct" where
  "put_name txt e = e\<lparr>d_name := txt @ [0] @ drop (length txt + 1) (d_name e)\<rparr>"

text \<open>\<open>stop\<close> is what happens behind the last slot.\<close>

primrec mkentry_loop :: "u16 \<Rightarrow> dinode \<Rightarrow> unit fk \<Rightarrow> u16 list \<Rightarrow> unit fk" where
  "mkentry_loop inum rootino stop [] = stop"
| "mkentry_loop inum rootino stop (d # ds) =
     bindK (dirread rootino d) (\<lambda>e.
     if d_ino e = 0 \<and> d_name e ! 0 = 0
     then dirwrite rootino d (put_name ([108, 43, 102] @ decimal (unat inum)) (e\<lparr>d_ino := inum\<rparr>))
     else mkentry_loop inum rootino stop ds)"

text \<open>The counter has 16 bits and the bound 32: with a bound above 65535 the loop does not end.\<close>

definition mkentry :: "u16 \<Rightarrow> unit fk" where
  "mkentry inum = bindK (iread ROOTINODE) (\<lambda>rootino.
     let n = nat (32 * uint (o_blkno (i_size rootino)) + sint (o_offset (i_size rootino)) sdiv 16)
     in mkentry_loop inum rootino (if n \<le> 65535 then retK () else haltK Diverges)
       (map of_nat [0..<min n 65536]))"

definition p5_detached :: "u16 \<Rightarrow> dinode \<Rightarrow> unit fk" where
  "p5_detached n ino =
     (let mode = i_mode ino AND F_MASK in
      if mode = F_BDEV \<or> mode = F_CDEV \<or> o_blkno (i_size ino) = 0 \<and> o_offset (i_size ino) = 0
      then if_yes (doK [iwrite n (ino\<lparr>i_nlink := 0, i_mode := 0\<rparr>),
             upd_sb (\<lambda>f. f\<lparr>s_tinode := s_tinode f + 1\<rparr>), write_sb]) (retK ())
      else if_yes (doK [iwrite n (ino\<lparr>i_nlink := 1\<rparr>), mkentry n]) (retK ()))"

definition p5_inode :: "u16 \<Rightarrow> unit \<Rightarrow> unit fk" where
  "p5_inode n = (\<lambda>_. bindK (iread n) (\<lambda>ino. bindK (get_link n) (\<lambda>l.
     if i_mode ino = 0 then whenK (l \<noteq> 0xFFFF) (panic ''Inconsistent linkmap'')
     else if l = 0xFFFF then panic ''Inconsistent linkmap''
     else bindK (if sint l > 0 \<and> uint (i_nlink ino) \<noteq> sint l
          then if_yes (let ino1 = ino\<lparr>i_nlink := l\<rparr> in thenK (iwrite n ino1) (retK ino1)) (retK ino)
          else retK ino) (\<lambda>ino1.
       whenK (l = 0) (p5_detached n ino1)))))"

definition pass5 :: "unit fk" where
  "pass5 = bindK (getK ino_end) (\<lambda>top. for_u16 1 (nat top) p5_inode ())"

section \<open>main\<close>

text \<open>
  From the reading of the superblock on. \<open>sizeof(struct filesys)\<close> is 232 on the host, where
  \<open>s_mntpt\<close> is an 8-byte pointer. \<open>calloc\<close> is taken to succeed.
\<close>

definition load_sb :: "unit fk" where
  "load_sb = thenK (daread 1) (modK (\<lambda>s. s\<lparr>fs_buf := (\<lambda>k. if k < 232 then readbuf s k else fs_buf s k)\<rparr>))"

definition fsck_exit :: "'a fk" where
  "fsck_exit = haltK (Panic ''exit'')"

definition alloc_maps :: "unit fk" where
  "alloc_maps = modK (\<lambda>s. s\<lparr>bitmap := replicate (unat (s_fsize (sb s))) 0,
     linkmap := replicate (8 * unat (s_isize (sb s))) 0\<rparr>)"

definition fsck_main :: "unit fk" where
  "fsck_main = doK [
     load_sb,
     bindK (getK (\<lambda>s. s_mounted (sb s))) (\<lambda>m. whenK (m \<noteq> SMOUNTED)
       (if_yes (doK [upd_sb (\<lambda>f. f\<lparr>s_mounted := SMOUNTED\<rparr>), write_sb]) fsck_exit)),
     if_yes (retK ()) fsck_exit,
     alloc_maps,
     pass1, pass2, pass3, pass4, pass5]"

end
