(* ===== verification/Fsck_Free.thy ===== *)
theory Fsck_Free
  imports Fsck
begin

text \<open>
  The free list in \<open>fsck\<close>: pass 2 rebuilds it from the bitmap, and \<open>blk_alloc\<close> takes blocks
  from it one by one, as the kernel does.
\<close>

section \<open>Reading and writing the image\<close>

lemma wf_sb_sb [simp]: "wf_sb (sb s)"
  by (simp add: sb_def)

lemma sb_simps [simp]:
  "wf_sb f \<Longrightarrow> sb (s\<lparr>fs_buf := put_filesys f m\<rparr>) = f"
  "sb (s\<lparr>img := x1\<rparr>) = sb s" "sb (s\<lparr>img_len := x2\<rparr>) = sb s" "sb (s\<lparr>readbuf := x3\<rparr>) = sb s"
  "sb (s\<lparr>bitmap := x4\<rparr>) = sb s" "sb (s\<lparr>linkmap := x5\<rparr>) = sb s" "sb (s\<lparr>depth := x6\<rparr>) = sb s"
  "sb (s\<lparr>stdin := x7\<rparr>) = sb s"
  by (simp_all add: sb_def)

text \<open>A written block is there, the other blocks of the file are as before.\<close>

definition dwritten :: "u16 \<Rightarrow> bytes \<Rightarrow> fsck_st \<Rightarrow> fsck_st" where
  "dwritten b d s = s\<lparr>img := put_block (unat b) d (\<lambda>a. if a < img_len s then img s a else 0),
     img_len := max (img_len s) (512 * unat b + 512)\<rparr>"

lemma fsck_dwrite_run: "fsck_dwrite b d s = Ret () (dwritten b d s)"
  by (simp add: fsck_dwrite_def run_simps dwritten_def)

text \<open>The buffer after a read.\<close>

definition loaded :: "u16 \<Rightarrow> fsck_st \<Rightarrow> fsck_st" where
  "loaded b s = s\<lparr>readbuf := (\<lambda>k. if k < 512 \<and> 512 * unat b + k < img_len s
     then img s (512 * unat b + k) else readbuf s k)\<rparr>"

lemma daread_run: "daread b s = Ret () (loaded b s)"
  by (simp add: daread_def run_simps loaded_def)

lemma wp_fsck [simp]:
  "wp (Fsck_Disk.upd_sb f) Q = (\<lambda>s. Q () (s\<lparr>fs_buf := put_filesys (f (sb s)) (fs_buf s)\<rparr>))"
  "wp (daread b) Q = (\<lambda>s. Q () (loaded b s))"
  "wp (fsck_dwrite b d) Q = (\<lambda>s. Q () (dwritten b d s))"
  by (simp_all add: Fsck_Disk.upd_sb_def wp_def daread_run fsck_dwrite_run run_simps fun_eq_iff)

lemma dwritten_simps [simp]:
  "sb (dwritten b d s) = sb s" "fs_buf (dwritten b d s) = fs_buf s" "bitmap (dwritten b d s) = bitmap s"
  "linkmap (dwritten b d s) = linkmap s" "stdin (dwritten b d s) = stdin s" "depth (dwritten b d s) = depth s"
  "readbuf (dwritten b d s) = readbuf s" "img_len s \<le> img_len (dwritten b d s)"
  by (simp_all add: dwritten_def)

lemma dwritten_block:
  assumes "512 * c + 512 \<le> img_len s" and "k < 512"
  shows "img_block (img (dwritten b d s)) c k = (if c = unat b then d k else img_block (img s) c k)"
  using assms by (auto simp: dwritten_def img_block_def put_block_def)

lemma dwritten_word:
  assumes "512 * unat c + 512 \<le> img_len s" and "k < 256"
  shows "img_word (img (dwritten b d s)) c k = (if c = b then word_at d k else img_word (img s) c k)"
  using assms by (auto simp: img_word_def word_at_def get16_def dwritten_block word_unat_eq_iff)

section \<open>Pass 2\<close>

definition p2_released :: "u16 \<Rightarrow> fsck_st \<Rightarrow> fsck_st" where
  "p2_released j s = (if s_nfree (sb s) = 50 then dwritten j (nfree_bytes (fs_buf s)) s else s)
     \<lparr>fs_buf := put_filesys (release_sb j (sb s)) (fs_buf s)\<rparr>"

lemma p2_released_simps [simp]:
  "sb (p2_released j s) = release_sb j (sb s)" "bitmap (p2_released j s) = bitmap s"
  "stdin (p2_released j s) = stdin s" "linkmap (p2_released j s) = linkmap s"
  "img_len s \<le> img_len (p2_released j s)"
  by (simp_all add: p2_released_def)

lemma p2_block_marked:
  assumes "unat j < length (bitmap s)" and "bitmap s ! unat j \<noteq> 0"
  shows "p2_block j s = Ret () s"
  using assms by (simp add: p2_block_def run_simps get_bit_def)

lemma p2_block_free:
  assumes "unat j < length (bitmap s)" and "bitmap s ! unat j = 0"
    and "1 \<le> unat (s_nfree (sb s))" "unat (s_nfree (sb s)) \<le> 50"
  shows "p2_block j s = Ret () (p2_released j s)"
proof (cases "s_nfree (sb s) = 50")
  case True
  then show ?thesis using assms
    by (simp add: p2_block_def run_simps get_bit_def fsck_dwrite_run Fsck_Disk.upd_sb_def p2_released_def release_sb_def Let_def)
next
  case False
  then have "unat (s_nfree (sb s)) \<noteq> 50" by (simp add: word_unat_eq_iff)
  then show ?thesis using assms False
    by (simp add: p2_block_def run_simps get_bit_def Fsck_Disk.upd_sb_def p2_released_def release_sb_def Let_def)
qed

text \<open>The blocks from \<open>k\<close> on that the bitmap leaves free.\<close>

definition unmarked :: "byte list \<Rightarrow> nat \<Rightarrow> nat \<Rightarrow> u16 list" where
  "unmarked bm k n = map of_nat (filter (\<lambda>j. bm ! j = 0) [k..<n])"

lemma unmarked_Suc: "k < n \<Longrightarrow> unmarked bm k n =
   (if bm ! k = 0 then of_nat k # unmarked bm (Suc k) n else unmarked bm (Suc k) n)"
  by (simp add: unmarked_def upt_rec[of k])

lemma unmarked_mem:
  assumes "b \<in> set (unmarked bm k n)" and "n \<le> 65536"
  shows "k \<le> unat b \<and> unat b < n \<and> bm ! unat b = 0"
  using assms by (auto simp: unmarked_def unat_of_small)

definition p2_inv :: "fsck_st \<Rightarrow> nat \<Rightarrow> nat \<Rightarrow> fsck_st \<Rightarrow> bool" where
  "p2_inv s0 n k s \<longleftrightarrow> 512 * n \<le> img_len s \<and> bitmap s = bitmap s0 \<and> stdin s = stdin s0 \<and> linkmap s = linkmap s0 \<and>
     chain_sb (img_word (img s)) (sb s) (unmarked (bitmap s0) k n) \<and>
     s_isize (sb s) = s_isize (sb s0) \<and> s_fsize (sb s) = s_fsize (sb s0) \<and>
     s_mounted (sb s) = s_mounted (sb s0) \<and> s_tinode (sb s) = s_tinode (sb s0) \<and> s_ninode (sb s) = s_ninode (sb s0) \<and>
     (\<forall>c<n. c < k \<or> bitmap s0 ! c \<noteq> 0 \<longrightarrow> (\<forall>j<512. img_block (img s) c j = img_block (img s0) c j))"

lemma p2_block_inv:
  assumes inv: "p2_inv s0 n (Suc k) s" and k: "0 < k" "k < n" and n: "n \<le> 65535" "n \<le> length (bitmap s0)"
  shows "wp (p2_block (of_nat k)) (\<lambda>_. p2_inv s0 n k) s"
proof -
  note v = inv[unfolded p2_inv_def]
  define b :: u16 where "b = of_nat k"
  have ub: "unat b = k" unfolding b_def using k n by (intro unat_of_small) simp
  have ch: "chain_sb (img_word (img s)) (sb s) (unmarked (bitmap s0) (Suc k) n)" using v by blast
  show ?thesis
  proof (cases "bitmap s0 ! k = 0")
    case False
    then have "p2_block b s = Ret () s" using v ub k n by (intro p2_block_marked) simp_all
    moreover have "p2_inv s0 n k s"
      using v False k unfolding p2_inv_def unmarked_Suc[OF k(2)] by (auto simp: less_Suc_eq)
    ultimately show ?thesis by (simp add: wp_def b_def[symmetric])
  next
    case True
    have run: "p2_block b s = Ret () (p2_released b s)"
      using v True ub k n ch by (intro p2_block_free) (simp_all add: chain_sb_def)
    have out: "b \<notin> set (unmarked (bitmap s0) (Suc k) n)"
      using unmarked_mem[of b "bitmap s0" "Suc k" n] ub n by auto
    have im: "512 * c + 512 \<le> img_len s" if "c < n" for c using v that by linarith
    have wd: "img_block (img (p2_released b s)) c j = (if c = k \<and> s_nfree (sb s) = 50 then nfree_bytes (fs_buf s) j else img_block (img s) c j)"
      if "c < n" "j < 512" for c j
      using dwritten_block[OF im[OF that(1)] that(2), where b = b and d = "nfree_bytes (fs_buf s)"] ub
      by (auto simp: p2_released_def)
    have ww: "img_word (img (p2_released b s)) c j = (if c = b \<and> s_nfree (sb s) = 50 then word_at (nfree_bytes (fs_buf s)) j else img_word (img s) c j)"
      if "unat c < n" "j \<le> 50" for c j
    proof -
      have "c = b \<longleftrightarrow> unat c = k" unfolding ub[symmetric] by (rule word_unat_eq_iff)
      then show ?thesis using that by (simp add: img_word_def word_at_def get16_def wd)
    qed
    define W where "W c j = (if unat c < n then img_word (img (p2_released b s)) c j else img_word (img s) c j)" for c j
    have "chain_sb W (release_sb b (sb s)) (b # unmarked (bitmap s0) (Suc k) n)"
      using ch
    proof (rule chain_sb_release)
      show "b \<noteq> 0" using ub k by auto
      show "W c j = img_word (img s) c j" if "c \<noteq> b" "j \<le> 50" for c j
        using that ww by (simp add: W_def)
      show "W b j = (s_nfree (sb s) # s_free (sb s)) ! j" if "s_nfree (sb s) = 50" "j \<le> 50" for j
        using that ww ub k by (simp add: W_def word_at_nfree_bytes sb_def)
    qed (use out in simp_all)
    then have "chain_sb (img_word (img (p2_released b s))) (release_sb b (sb s)) (b # unmarked (bitmap s0) (Suc k) n)"
    proof (rule chain_sb_cong)
      show "img_word (img (p2_released b s)) c j = W c j" if "c \<in> set (b # unmarked (bitmap s0) (Suc k) n)" "j \<le> 50" for c j
        using that unmarked_mem[of c "bitmap s0" "Suc k" n] n ub k by (auto simp: W_def)
    qed
    then have "p2_inv s0 n k (p2_released b s)"
      using v True wd order_trans[OF _ p2_released_simps(5)] unfolding p2_inv_def unmarked_Suc[OF k(2)]
      by (auto simp: b_def)
    then show ?thesis by (simp add: wp_def run b_def[symmetric])
  qed
qed

lemma p2_loop:
  assumes "p2_inv s0 n k s" and "lo \<le> k" and "k \<le> n" and lo: "0 < lo" and n: "n \<le> 65535" "n \<le> length (bitmap s0)"
  shows "wp (forK (map of_nat (rev [lo..<k])) p2_block) (\<lambda>_. p2_inv s0 n lo) s"
  using assms(1-3)
proof (induction k arbitrary: s)
  case 0
  then show ?case using lo by simp
next
  case (Suc k)
  show ?case
  proof (cases "lo \<le> k")
    case True
    have "rev [lo..<Suc k] = k # rev [lo..<k]" using True by simp
    moreover have "wp (p2_block (of_nat k)) (\<lambda>_. p2_inv s0 n k) s"
      using Suc.prems True lo n by (intro p2_block_inv) simp_all
    ultimately show ?thesis
      using Suc.IH True Suc.prems(3) by (auto elim!: wp_mono)
  next
    case False
    then have "lo = Suc k" using Suc.prems by simp
    then show ?thesis using Suc.prems by simp
  qed
qed

text \<open>The answer yes.\<close>

definition says_yes :: "fsck_st \<Rightarrow> bool" where
  "says_yes s \<longleftrightarrow> (\<exists>rest. stdin s = 121 # 10 # rest)"

lemma yes_run: "says_yes s \<Longrightarrow> yes s = Ret True (s\<lparr>stdin := drop 2 (stdin s)\<rparr>)"
proof -
  assume "says_yes s"
  then obtain rest where r: "stdin s = 121 # 10 # rest" by (auto simp: says_yes_def)
  have n: "(19 :: nat) = Suc (Suc 17)" by simp
  have "fgets_split (Suc (Suc m)) (121 # 10 # rest) = ([121, 10], rest)" for m by simp
  then have "fgets_split 19 (121 # 10 # rest) = ([121, 10], rest)" unfolding n by blast
  then show ?thesis by (simp add: yes_def r)
qed

definition p2_start :: "fsck_st \<Rightarrow> fsck_st" where
  "p2_start s = s\<lparr>stdin := drop 2 (stdin s), fs_buf := put_filesys ((sb s)\<lparr>s_ninode := 0, s_nfree := 1,
     s_free := (s_free (sb s))[0 := 0], s_tfree := 0\<rparr>) (fs_buf s)\<rparr>"

lemma sb_lengths [simp]: "length (s_free (sb s)) = 50" "length (s_inode (sb s)) = 50"
  using wf_sb_sb[of s] unfolding wf_sb_def by blast+

lemma p2_start_sb: "sb (p2_start s) = (sb s)\<lparr>s_ninode := 0, s_nfree := 1, s_free := (s_free (sb s))[0 := 0], s_tfree := 0\<rparr>"
  by (simp add: p2_start_def wf_sb_def)

lemma pass2_run:
  assumes "says_yes s"
  shows "pass2 s = (thenK (for_down (unat (s_fsize (sb s) - 1)) (unat (s_isize (sb s))) p2_block) write_sb) (p2_start s)"
  using assms
  by (simp add: pass2_def if_yes_def run_simps yes_run Fsck_Disk.upd_sb_def wf_sb_def)
    (simp add: p2_start_def sb_def wf_sb_def write_sb_def fsck_dwrite_run run_simps split: outcome.split)

lemma pass2_rebuilds:
  assumes y: "says_yes s" and sz: "2 \<le> unat (s_isize (sb s))" "unat (s_isize (sb s)) < unat (s_fsize (sb s))"
    and bm: "length (bitmap s) = unat (s_fsize (sb s))" and len: "512 * unat (s_fsize (sb s)) \<le> img_len s"
  shows "wp pass2 (\<lambda>_ t. stdin t = drop 2 (stdin s) \<and> bitmap t = bitmap s \<and> linkmap t = linkmap s \<and>
     s_isize (sb t) = s_isize (sb s) \<and> s_fsize (sb t) = s_fsize (sb s) \<and> 512 * unat (s_fsize (sb s)) \<le> img_len t \<and>
     get_filesys (img_block (img t) 1) = sb t \<and>
     chain_sb (img_word (img t)) (sb t) (unmarked (bitmap s) (unat (s_isize (sb s))) (unat (s_fsize (sb s)))) \<and>
     (\<forall>c < unat (s_fsize (sb s)). c \<noteq> 1 \<longrightarrow> c < unat (s_isize (sb s)) \<or> bitmap s ! c \<noteq> 0 \<longrightarrow>
        (\<forall>j<512. img_block (img t) c j = img_block (img s) c j))) s"
proof -
  define n lo where "n = unat (s_fsize (sb s))" and "lo = unat (s_isize (sb s))"
  have "n \<le> 65535" unfolding n_def using u16_lt[of "s_fsize (sb s)"] by linarith
  then have n: "lo < n" "2 \<le> lo" "n \<le> 65535" using sz by (simp_all add: n_def lo_def)
  have last: "Suc (unat (s_fsize (sb s) - 1)) = n"
    using n by (simp add: n_def unat_minus_1)
  have start: "p2_inv (p2_start s) n n (p2_start s)"
    using len by (auto simp: p2_inv_def unmarked_def p2_start_sb wf_sb_def n_def intro!: chain_sb_start) (simp add: p2_start_def)
  have bm0: "bitmap (p2_start s) = bitmap s" "img (p2_start s) = img s" by (simp_all add: p2_start_def)
  have "wp (forK (map of_nat (rev [lo..<n])) p2_block) (\<lambda>_. p2_inv (p2_start s) n lo) (p2_start s)"
    using start n bm by (intro p2_loop) (simp_all add: bm0 n_def lo_def)
  then obtain u where u: "forK (map of_nat (rev [lo..<n])) p2_block (p2_start s) = Ret () u"
    and inv: "p2_inv (p2_start s) n lo u" by (auto simp: wp_iff)
  note v = inv[unfolded p2_inv_def bm0]
  have run: "pass2 s = Ret () (dwritten 1 (fs_buf u) u)"
    using n unfolding pass2_run[OF y] for_down_def last
    by (simp add: run_simps lo_def[symmetric] u write_sb_def fsck_dwrite_run)
  let ?t = "dwritten 1 (fs_buf u) u"
  have im: "512 * c + 512 \<le> img_len u" if "c < n" for c using v that by linarith
  have "get_filesys (img_block (img ?t) 1) = sb ?t"
    unfolding sb_def dwritten_simps
    by (rule get_filesys_cong) (use im[of 1] n in \<open>simp add: dwritten_block del: One_nat_def\<close>)
  moreover have "chain_sb (img_word (img ?t)) (sb ?t) (unmarked (bitmap s) lo n)"
    unfolding dwritten_simps
  proof (rule chain_sb_cong)
    show "chain_sb (img_word (img u)) (sb u) (unmarked (bitmap s) lo n)" using v by blast
    fix c :: u16 and k :: nat assume c: "c \<in> set (unmarked (bitmap s) lo n)" "k \<le> 50"
    have "lo \<le> unat c" "unat c < n" using unmarked_mem[OF c(1)] n by simp_all
    then show "img_word (img ?t) c k = img_word (img u) c k"
      using c(2) n im[of "unat c"] by (subst dwritten_word) auto
  qed
  moreover have "img_block (img ?t) c j = img_block (img s) c j"
    if "c < n" "c \<noteq> 1" "c < lo \<or> bitmap s ! c \<noteq> 0" "j < 512" for c j
    using v that im[of c] by (subst dwritten_block) auto
  moreover have "512 * n \<le> img_len ?t" using v order_trans[OF _ dwritten_simps(8)] by blast
  moreover have "stdin u = drop 2 (stdin s) \<and> bitmap u = bitmap s \<and> linkmap u = linkmap s \<and>
      s_isize (sb u) = s_isize (sb s) \<and> s_fsize (sb u) = s_fsize (sb s)"
    using v by (simp add: p2_start_sb) (simp add: p2_start_def)
  ultimately show ?thesis
    by (simp add: wp_def run n_def[symmetric] lo_def[symmetric])
qed

text \<open>
  C19: answered with yes, pass 2 ends with a superblock, written to block 1, whose free list
  stands for exactly the data blocks the bitmap leaves unmarked, in ascending order; blocks in
  use and the blocks before the data area, block 1 apart, are not touched.
\<close>

theorem pass2_free_list:
  assumes y: "says_yes s" and sz: "2 \<le> unat (s_isize (sb s))" "unat (s_isize (sb s)) < unat (s_fsize (sb s))"
    and bm: "length (bitmap s) = unat (s_fsize (sb s))" and len: "512 * unat (s_fsize (sb s)) \<le> img_len s"
  shows "wp pass2 (\<lambda>_ t. get_filesys (img_block (img t) 1) = sb t \<and>
     chain_sb (img_word (img t)) (sb t) (unmarked (bitmap s) (unat (s_isize (sb s))) (unat (s_fsize (sb s)))) \<and>
     (\<forall>c < unat (s_fsize (sb s)). c \<noteq> 1 \<longrightarrow> c < unat (s_isize (sb s)) \<or> bitmap s ! c \<noteq> 0 \<longrightarrow>
        (\<forall>j<512. img_block (img t) c j = img_block (img s) c j))) s"
  by (rule wp_mono[OF pass2_rebuilds[OF assms]]) blast

definition small_fs :: fsck_st where
  "small_fs = \<lparr>img = (\<lambda>_. 0), img_len = 5120, readbuf = (\<lambda>_. 0),
     fs_buf = put_filesys (zero_fs\<lparr>s_mounted := SMOUNTED, s_isize := 4, s_fsize := 10\<rparr>) (\<lambda>_. 0),
     bitmap = (replicate 10 0)[4 := 1, 7 := 1], linkmap = replicate 32 0, depth = 0,
     stdin = [121, 10]\<rparr>"

lemma small_fs_sb: "sb small_fs = zero_fs\<lparr>s_mounted := SMOUNTED, s_isize := 4, s_fsize := 10\<rparr>"
  by (simp add: small_fs_def sb_def wf_sb_def zero_fs_def)

theorem pass2_free_list_witness:
  "wp pass2 (\<lambda>_ t. chain_sb (img_word (img t)) (sb t) [5, 6, 8, 9]) small_fs"
proof -
  have l: "unmarked (bitmap small_fs) 4 10 = [5, 6, 8, 9]"
    by (simp add: unmarked_def small_fs_def upt_rec nth_list_update)
  show ?thesis
    by (rule wp_mono[OF pass2_free_list])
      (use l in \<open>simp_all add: says_yes_def small_fs_sb zero_fs_def\<close>, simp_all add: small_fs_def)
qed

section \<open>The allocator\<close>

text \<open>The free blocks of the image, all of them data blocks of the file system.\<close>

definition fsck_stack :: "fsck_st \<Rightarrow> u16 list \<Rightarrow> bool" where
  "fsck_stack s l \<longleftrightarrow> chain_sb (img_word (img s)) (sb s) l \<and>
     2 \<le> unat (s_isize (sb s)) \<and> 512 * unat (s_fsize (sb s)) \<le> img_len s \<and>
     (\<forall>b\<in>set l. s_isize (sb s) \<le> b \<and> b < s_fsize (sb s))"

lemma sb_dwritten_stack:
  assumes "fsck_stack s l"
  shows "fsck_stack (dwritten 1 d s) l"
proof -
  note f = assms[unfolded fsck_stack_def]
  have "chain_sb (img_word (img (dwritten 1 d s))) (sb s) l"
  proof (rule chain_sb_cong)
    show "chain_sb (img_word (img s)) (sb s) l" using f by blast
    fix c k assume c: "c \<in> set l" "k \<le> (50 :: nat)"
    then have "2 \<le> unat c" "unat c < unat (s_fsize (sb s))"
      using f by (auto simp: word_le_nat_alt word_less_nat_alt intro: order_trans)
    then show "img_word (img (dwritten 1 d s)) c k = img_word (img s) c k"
      using c(2) f by (subst dwritten_word) auto
  qed
  then show ?thesis using f order_trans[OF _ dwritten_simps(8)] by (auto simp: fsck_stack_def)
qed

lemma chain_top:
  assumes c: "chain_sb V fs l" and len: "length (s_free fs) = 50" and nz: "0 \<notin> set l"
    and n: "n = unat (s_nfree fs) - 1"
  shows "unat (s_nfree fs) = Suc n \<and> n < 50 \<and> s_free fs ! n = (if l = [] then 0 else hd l) \<and>
    (l = [] \<longrightarrow> n = 0) \<and>
    (l \<noteq> [] \<longrightarrow> (if n = 0 then 1 \<le> unat (V (hd l) 0) \<and> unat (V (hd l) 0) \<le> 50 \<and>
        free_chain V (map (V (hd l)) [1..<Suc (unat (V (hd l) 0))]) (tl l)
      else free_chain V (take n (s_free fs)) (tl l)))"
proof -
  have n1: "unat (s_nfree fs) = Suc n" "n < 50" using c n by (auto simp: chain_sb_def)
  have ch: "free_chain V (take n (s_free fs) @ [s_free fs ! n]) l"
    using c n1 len by (simp add: chain_sb_def take_Suc_conv_app_nth)
  show ?thesis
  proof (cases "n = 0")
    case True
    then have "free_chain V [s_free fs ! 0] l" using ch by simp
    then show ?thesis unfolding free_chain_single using True n1 by (auto split: if_splits simp del: upt_Suc)
  next
    case False
    then have "take n (s_free fs) \<noteq> []" using len by auto
    from free_chain_pop[OF ch this] obtain l' where "l = s_free fs ! n # l'" "free_chain V (take n (s_free fs)) l'" by blast
    then show ?thesis using False n1 by simp
  qed
qed

lemma chain_sb_pop:
  assumes c: "chain_sb V fs (b # l)" and len: "length (s_free fs) = 50" and nz: "0 \<notin> set (b # l)"
    and n: "n = unat (s_nfree fs) - 1"
    and g: "g = (if n = 0 then fs\<lparr>s_nfree := V b 0, s_free := map (V b) [1..<51]\<rparr> else fs\<lparr>s_nfree := s_nfree fs - 1\<rparr>)"
  shows "chain_sb V (g\<lparr>s_tfree := s_tfree fs - 1\<rparr>) l"
proof -
  note top = chain_top[OF c len nz n]
  have tf: "s_tfree fs - 1 = of_nat (length l)" using c by (simp add: chain_sb_def)
  show ?thesis
  proof (cases "n = 0")
    case True
    let ?m = "unat (V b 0)"
    have m: "1 \<le> ?m" "?m \<le> 50" "free_chain V (map (V b) [1..<Suc ?m]) l" using top True by (auto simp del: upt_Suc)
    have "take ?m (map (V b) [1..<51]) = map (V b) [1..<Suc ?m]"
      using m(2) by (simp add: take_map del: upt_Suc)
    then show ?thesis using True m tf by (simp add: g chain_sb_def del: upt_Suc)
  next
    case False
    have "unat (s_nfree fs - 1) = n" using top by (simp add: unat_minus_1)
    then show ?thesis using top False tf by (simp add: g chain_sb_def)
  qed
qed

lemma fsck_blk_alloc_pop:
  assumes st: "fsck_stack s l"
  shows "wp fsck_blk_alloc (\<lambda>b t. b = (if l = [] then 0 else hd l) \<and> fsck_stack t (tl l)) s"
proof -
  note f = st[unfolded fsck_stack_def]
  define n where "n = unat (s_nfree (sb s)) - 1"
  have nz: "0 \<notin> set l" using f by (auto simp: word_le_nat_alt)
  have c: "chain_sb (img_word (img s)) (sb s) l" using f by blast
  note top = chain_top[OF c sb_lengths(1) nz n_def]
  have n: "unat (s_nfree (sb s) - 1) = n" using top by (simp add: unat_minus_1)
  have sn: "\<not> (sint (s_nfree (sb s) - 1) < 0 \<or> sint (s_nfree (sb s) - 1) \<ge> 50)"
    using n top by (simp add: sint_small del: uint_nat)
  have n0: "s_nfree (sb s) - 1 = 0 \<longleftrightarrow> n = 0" using n by (metis unat_eq_zero)
  show ?thesis
  proof (cases l)
    case Nil
    have "fsck_stack (s\<lparr>fs_buf := put_filesys ((sb s)\<lparr>s_nfree := s_nfree (sb s)\<rparr>) (fs_buf s)\<rparr>) []"
      using f Nil by (simp add: fsck_stack_def wf_sb_def)
    moreover have "s_free (sb s) ! unat (s_nfree (sb s) - 1) = 0" unfolding n using top Nil by auto
    then have "fsck_blk_alloc s = Ret 0 (s\<lparr>fs_buf := put_filesys ((sb s)\<lparr>s_nfree := s_nfree (sb s)\<rparr>) (fs_buf s)\<rparr>)"
      using sn by (simp add: fsck_blk_alloc_def run_simps Fsck_Disk.upd_sb_def Let_def wf_sb_def)
    ultimately show ?thesis by (simp add: wp_def Nil)
  next
    case (Cons b l')
    have b: "s_isize (sb s) \<le> b" "b < s_fsize (sb s)" "b \<noteq> 0" "\<not> b < s_isize (sb s)" "\<not> s_fsize (sb s) \<le> b"
      using f Cons nz by (auto simp: not_less not_le)
    have top': "s_free (sb s) ! n = b" using top Cons by simp
    define rb where "rb = (\<lambda>k. if k < 512 \<and> 512 * unat b + k < img_len s then img s (512 * unat b + k) else readbuf s k)"
    have "512 * unat b + 512 \<le> img_len s" using f b(2) by (auto simp: word_less_nat_alt)
    then have rbw: "word_at rb k = img_word (img s) b k" if "k \<le> 50" for k
      using that by (simp add: word_at_def img_word_def get16_def rb_def img_block_def)
    define g where "g = (if n = 0 then (sb s)\<lparr>s_nfree := word_at rb 0, s_free := map (word_at rb) [1..<51]\<rparr>
      else (sb s)\<lparr>s_nfree := s_nfree (sb s) - 1\<rparr>)"
    define u where "u = (if n = 0 then s\<lparr>readbuf := rb\<rparr> else s)
      \<lparr>fs_buf := put_filesys (g\<lparr>s_tfree := s_tfree (sb s) - 1\<rparr>) (fs_buf s)\<rparr>"
    have run: "fsck_blk_alloc s = Ret b (dwritten 1 (fs_buf u) u)"
    proof (cases "n = 0")
      case True
      then have "s_nfree (sb s) - 1 = 0" using n0 by blast
      then show ?thesis
        using sn b top' True unfolding u_def g_def rb_def
        by (simp add: fsck_blk_alloc_def run_simps Fsck_Disk.upd_sb_def Let_def wf_sb_def daread_def write_sb_def fsck_dwrite_run del: upt_Suc cong: if_cong)
    next
      case False
      then have "s_nfree (sb s) - 1 \<noteq> 0" using n0 by blast
      then show ?thesis
        using sn b top' False n unfolding u_def g_def
        by (simp add: fsck_blk_alloc_def run_simps Fsck_Disk.upd_sb_def Let_def wf_sb_def write_sb_def fsck_dwrite_run)
    qed
    have g': "g = (if n = 0 then (sb s)\<lparr>s_nfree := img_word (img s) b 0, s_free := map (img_word (img s) b) [1..<51]\<rparr>
      else (sb s)\<lparr>s_nfree := s_nfree (sb s) - 1\<rparr>)"
    proof -
      have "map (word_at rb) [1..<51] = map (img_word (img s) b) [1..<51]" by (rule map_cong[OF refl], rule rbw) simp
      then show ?thesis using rbw[of 0] by (simp add: g_def del: upt_Suc)
    qed
    have "chain_sb (img_word (img s)) (g\<lparr>s_tfree := s_tfree (sb s) - 1\<rparr>) l'"
      by (rule chain_sb_pop[where V = "img_word (img s)" and fs = "sb s" and b = b and n = n])
        (use c nz Cons n_def g' in simp_all)
    moreover have sbu: "sb u = g\<lparr>s_tfree := s_tfree (sb s) - 1\<rparr>"
      by (simp add: u_def wf_sb_def g_def del: upt_Suc)
    moreover have "img u = img s" "img_len u = img_len s" by (simp_all add: u_def)
    ultimately have "fsck_stack u l'"
      using f Cons by (auto simp: fsck_stack_def g_def simp del: upt_Suc)
    then show ?thesis
      using sb_dwritten_stack by (simp add: wp_def run Cons)
  qed
qed

interpretation fsck_free: block_source fsck_blk_alloc fsck_stack
  by unfold_locales (rule fsck_blk_alloc_pop)

text \<open>
  on an image whose superblock in memory describes the free blocks \<open>l\<close>, \<open>n\<close> calls of
  \<open>blk_alloc\<close> of \<open>fsck\<close> return the first \<open>n\<close> of them and, when they are used up, zeros; what
  is left is described by the superblock again.
\<close>

theorem fsck_alloc_list:
  assumes "fsck_stack s l"
  shows "wp (take_blocks n fsck_blk_alloc) (\<lambda>out t. out = take n l @ replicate (n - length l) 0 \<and> fsck_stack t (drop n l)) s"
  by (rule fsck_free.take_blocks_list[OF assms])

theorem fsck_alloc_list_witness: "wp (take_blocks 3 fsck_blk_alloc) (\<lambda>out t. out = [5, 6, 0] \<and> fsck_stack t [])
   (small_fs\<lparr>fs_buf := put_filesys (zero_fs\<lparr>s_mounted := SMOUNTED, s_isize := 4, s_fsize := 10,
      s_nfree := 3, s_free := [0, 6, 5] @ replicate 47 0, s_tfree := 2\<rparr>) (\<lambda>_. 0)\<rparr>)" (is "wp _ _ ?s")
proof -
  have sb: "sb ?s = zero_fs\<lparr>s_mounted := SMOUNTED, s_isize := 4, s_fsize := 10,
      s_nfree := 3, s_free := [0, 6, 5] @ replicate 47 0, s_tfree := 2\<rparr>"
    by (simp add: wf_sb_def zero_fs_def)
  have "free_chain (img_word (img ?s)) [0, 6, 5] [5, 6]" by (simp add: free_chain_Cons)
  then have "fsck_stack ?s [5, 6]"
    unfolding fsck_stack_def chain_sb_def sb by (simp add: zero_fs_def small_fs_def)
  from fsck_alloc_list[OF this, of 3] show ?thesis by simp
qed

end
