(* ===== verification/Fsck_Files.thy ===== *)
theory Fsck_Files
  imports Fsck_Free Block_Map Inode_Table
begin

text \<open>
  Inodes, file blocks and directories in \<open>fsck\<close>: an inode written is read back, \<open>getblkno\<close> is
  the kernel's block tree, \<open>setblkno\<close> changes the one entry except in the double indirect case,
  and the walk of pass 4 ends when no question is answered with yes, except for directories
  with more entries than a 16-bit counter counts.
\<close>

section \<open>Blocks in range\<close>

definition in_img :: "fsck_st \<Rightarrow> u16 \<Rightarrow> bool" where
  "in_img s b \<longleftrightarrow> 512 * unat b + 512 \<le> img_len s"

definition img_view :: "fsck_st \<Rightarrow> u16 \<Rightarrow> bytes" where
  "img_view s b = img_block (img s) (unat b)"

lemma loaded_simps [simp]:
  "img (loaded b s) = img s" "img_len (loaded b s) = img_len s" "fs_buf (loaded b s) = fs_buf s"
  "bitmap (loaded b s) = bitmap s" "linkmap (loaded b s) = linkmap s" "stdin (loaded b s) = stdin s"
  "depth (loaded b s) = depth s" "in_img (loaded b s) c = in_img s c" "img_view (loaded b s) = img_view s"
  by (simp_all add: loaded_def in_img_def img_view_def fun_eq_iff)

lemma loaded_buf: "in_img s b \<Longrightarrow> k < 512 \<Longrightarrow> readbuf (loaded b s) k = img_view s b k"
  by (simp add: loaded_def in_img_def img_view_def img_block_def)

lemma loaded_word: "in_img s b \<Longrightarrow> k < 256 \<Longrightarrow> word_at (readbuf (loaded b s)) k = word_at (img_view s b) k"
  by (simp add: word_at_def get16_def loaded_buf)

section \<open>Inodes\<close>

lemma iread_run: "iread ino s = Ret (get_dinode (readbuf (loaded (drop_bit 3 ino + 2) s)) (64 * unat (ino AND 7))) (loaded (drop_bit 3 ino + 2) s)"
  by (simp add: iread_def run_simps daread_run)

lemma iread_value:
  assumes "in_img s (drop_bit 3 ino + 2)"
  shows "get_dinode (readbuf (loaded (drop_bit 3 ino + 2) s)) (64 * unat (ino AND 7)) =
     get_dinode (img_view s (drop_bit 3 ino + 2)) (64 * unat (ino AND 7))"
proof (rule get_dinode_cong)
  show "readbuf (loaded (drop_bit 3 ino + 2) s) (64 * unat (ino AND 7) + k) = img_view s (drop_bit 3 ino + 2) (64 * unat (ino AND 7) + k)"
    if "k < 64" for k
    using that unat_and_7[of ino] by (intro loaded_buf[OF assms]) simp
qed

section \<open>The blocks of a file\<close>

text \<open>
  C20: \<open>getblkno\<close> finds the block the kernel's block tree has, 0 standing for a hole, provided
  the blocks on the way lie in the image and the double indirect block, where there is one, has
  no hole at the place looked up; \<open>getblkno\<close> would read block 0 there.
\<close>

theorem getblkno_tree:
  assumes len: "length (i_addr d) = 20"
    and r1: "18 \<le> unat num \<and> unat num < 274 \<longrightarrow> in_img s (i_addr d ! 18)"
    and r2: "274 \<le> unat num \<longrightarrow> in_img s (i_addr d ! 19) \<and> i_addr d ! 19 \<noteq> 0 \<longrightarrow>
       (let e = tree_word (img_view s) (i_addr d ! 19) ((unat num - 274) div 256) in e \<noteq> 0 \<and> in_img s e)"
    and r3: "274 \<le> unat num \<longrightarrow> in_img s (i_addr d ! 19)"
  shows "wp (getblkno d num) (\<lambda>b t. or_null b = file_blk (img_view s) (zero_cinode\<lparr>c_node := d\<rparr>) (unat num) \<and>
     img t = img s \<and> img_len t = img_len s \<and> fs_buf t = fs_buf s) s"
proof -
  consider "unat num < 18" | "18 \<le> unat num" "unat num < 274" | "274 \<le> unat num" by linarith
  then show ?thesis
  proof cases
    case 1
    then have "num < 18" by (simp add: word_less_nat_alt)
    then show ?thesis using 1 by (simp add: getblkno_def file_blk_def)
  next
    case 2
    then have n: "\<not> num < 18" "num < 274" by (simp_all add: word_less_nat_alt)
    show ?thesis
      using 2 n r1 by (simp add: getblkno_def buf_word_def loaded_word file_blk_def tree_word_def Let_def)
  next
    case 3
    then have n: "\<not> num < 18" "\<not> num < 274" by (simp_all add: word_less_nat_alt)
    have w: "(unat num - 274) div 256 < 256" "(unat num - 274) mod 256 < 256"
      using u16_lt[of num] by linarith+
    show ?thesis
      using 3 n r2 r3 w
      by (simp add: getblkno_def buf_word_def loaded_word file_blk_def tree_word_def Let_def)
  qed
qed

lemma getblkno_frame: "wp (getblkno d num) (\<lambda>b t. img t = img s \<and> img_len t = img_len s \<and> fs_buf t = fs_buf s) s"
  by (simp add: getblkno_def buf_word_def Let_def)

definition ino_blk :: "u16 \<Rightarrow> u16" where
  "ino_blk ino = drop_bit 3 ino + 2"

text \<open>
  an inode written by \<open>iwrite\<close> is what \<open>iread\<close> gives back, and the other inodes of the
  image are unchanged.
\<close>

theorem iwrite_iread:
  assumes len: "length (i_addr d) = 20" and r: "in_img s (ino_blk ino)"
  shows "wp (iwrite ino d) (\<lambda>_ t. wp (iread ino) (\<lambda>e _. e = d) t \<and>
     (\<forall>j. j \<noteq> ino \<longrightarrow> in_img s (ino_blk j) \<longrightarrow>
        wp (iread j) (\<lambda>e _. wp (iread j) (\<lambda>e' _. e = e') s) t)) s"
proof -
  let ?b = "ino_blk ino" and ?o = "64 * unat (ino AND 7)"
  define new where "new = put_dinode ?o d (readbuf (loaded ?b s))"
  define t where "t = dwritten ?b new ((loaded ?b s)\<lparr>readbuf := new\<rparr>)"
  have run: "iwrite ino d s = Ret () t"
    by (simp add: iwrite_def run_simps daread_run write_readbuf_def fsck_dwrite_run t_def new_def ino_blk_def)
  have o: "?o + 64 \<le> 512" using unat_and_7[of ino] by simp
  have blk: "img_view t c k = (if c = ?b then new k else img_view s c k)" if "in_img s c" "k < 512" for c k
    using dwritten_block[of "unat c" "(loaded ?b s)\<lparr>readbuf := new\<rparr>" k ?b new] that
    by (simp add: t_def img_view_def in_img_def word_unat_eq_iff)
  have rng: "in_img t c" if "in_img s c" for c
    using that by (simp add: t_def in_img_def dwritten_def)
  have rd: "iread j u = Ret (get_dinode (img_view u (ino_blk j)) (64 * unat (j AND 7))) (loaded (ino_blk j) u)" if "in_img u (ino_blk j)" for j u
    using that by (simp add: iread_run iread_value ino_blk_def)
  have "get_dinode (img_view t ?b) ?o = get_dinode new ?o"
    using o by (intro get_dinode_cong) (simp add: blk r)
  also have "\<dots> = d" by (simp add: new_def len)
  finally have same: "get_dinode (img_view t ?b) ?o = d" .
  have other: "get_dinode (img_view t (ino_blk j)) (64 * unat (j AND 7)) = get_dinode (img_view s (ino_blk j)) (64 * unat (j AND 7))"
    if j: "j \<noteq> ino" "in_img s (ino_blk j)" for j
  proof (cases "ino_blk j = ?b")
    case False
    then show ?thesis using j unat_and_7[of j] by (intro get_dinode_cong) (simp add: blk)
  next
    case True
    then have "drop_bit 3 j = drop_bit 3 ino" by (simp add: ino_blk_def)
    then have ne: "unat (j AND 7) \<noteq> unat (ino AND 7)"
      using j(1) inode_split[of j] inode_split[of ino] by (auto simp: word_unat_eq_iff)
    have "get_dinode (img_view t ?b) (64 * unat (j AND 7)) = get_dinode new (64 * unat (j AND 7))"
      using unat_and_7[of j] by (intro get_dinode_cong) (simp add: blk r)
    also have "\<dots> = get_dinode (readbuf (loaded ?b s)) (64 * unat (j AND 7))"
      unfolding new_def using ne by (intro get_put_dinode_other) linarith
    also have "\<dots> = get_dinode (img_view s ?b) (64 * unat (j AND 7))"
      using unat_and_7[of j] by (intro get_dinode_cong loaded_buf r) simp
    finally show ?thesis using True by simp
  qed
  show ?thesis
    by (simp add: wp_def run rd rng r same other)
qed

lemma dwritten_view:
  "in_img s c \<Longrightarrow> k < 512 \<Longrightarrow> img_view (dwritten b d s) c k = (if c = b then d k else img_view s c k)"
  using dwritten_block[of "unat c" s k b d] by (simp add: img_view_def in_img_def word_unat_eq_iff)

lemma in_img_dwritten: "in_img s c \<Longrightarrow> in_img (dwritten b d s) c"
  by (simp add: in_img_def dwritten_def)

text \<open>
  below the double indirect range, \<open>setblkno\<close> sets the one block number: \<open>getblkno\<close> then
  finds the new number there and the old ones at every other place of the same file.
\<close>

theorem setblkno_get:
  assumes len: "length (i_addr d) = 20" and num: "unat num < 274"
    and ind: "18 \<le> unat num \<Longrightarrow> i_addr d ! 18 \<noteq> 0" "in_img s (i_addr d ! 18)"
  shows "wp (setblkno d num v) (\<lambda>d' t. wp (getblkno d' num) (\<lambda>b _. b = v) t \<and>
     (\<forall>m. m \<noteq> num \<longrightarrow> unat m < 274 \<longrightarrow> wp (getblkno d' m) (\<lambda>b _. wp (getblkno d m) (\<lambda>b' _. b = b') s) t)) s"
proof (cases "unat num < 18")
  case True
  then have n: "num < 18" by (simp add: word_less_nat_alt)
  have "wp (getblkno (d\<lparr>i_addr := (i_addr d)[unat num := v]\<rparr>) m) (\<lambda>b _. wp (getblkno d m) (\<lambda>b' _. b = b') s) s"
    if m: "m \<noteq> num" "unat m < 274" for m
  proof (cases "m < 18")
    case True
    have "unat m \<noteq> unat num" using m(1) by (simp add: word_unat_eq_iff)
    then show ?thesis using True by (simp add: getblkno_def)
  next
    case False
    then have "m < 274" using m(2) by (simp add: word_less_nat_alt)
    then show ?thesis using False True by (simp add: getblkno_def buf_word_def Let_def)
  qed
  then show ?thesis using n True len by (simp add: setblkno_def) (simp add: getblkno_def len)
next
  case False
  then have n: "\<not> num < 18" "num < 274" using num by (simp_all add: word_less_nat_alt)
  let ?b = "i_addr d ! 18" and ?i = "unat num - 18"
  have b: "?b \<noteq> 0" "in_img s ?b" using False ind by simp_all
  define new where "new = put16 (2 * ?i) v (readbuf (loaded ?b s))"
  define t where "t = dwritten ?b new ((loaded ?b s)\<lparr>readbuf := new\<rparr>)"
  have run: "setblkno d num v s = Ret d t"
    using n b by (simp add: setblkno_def run_simps daread_run set_buf_word_def write_readbuf_def fsck_dwrite_run t_def new_def Let_def)
  have u: "in_img ((loaded ?b s)\<lparr>readbuf := new\<rparr>) ?b" using b(2) by (simp add: in_img_def)
  then have bt: "in_img t ?b" unfolding t_def by (rule in_img_dwritten)
  have w: "word_at (readbuf (loaded ?b t)) i = (if i = ?i then v else word_at (readbuf (loaded ?b s)) i)" if "i < 256" for i
  proof -
    have "word_at (readbuf (loaded ?b t)) i = word_at (img_view t ?b) i" using bt that by (rule loaded_word)
    also have "\<dots> = word_at new i" using u that by (intro word_at_cong) (simp_all add: t_def dwritten_view)
    finally show ?thesis by (simp add: new_def)
  qed
  have g: "wp (getblkno d num) (\<lambda>b _. b = v) t"
    using n b num False w[of ?i] by (simp add: getblkno_def buf_word_def Let_def)
  have "wp (getblkno d m) (\<lambda>b _. wp (getblkno d m) (\<lambda>b' _. b = b') s) t" if m: "m \<noteq> num" "unat m < 274" for m
  proof (cases "m < 18")
    case True
    then show ?thesis by (simp add: getblkno_def)
  next
    case F: False
    then have m1: "\<not> m < 18" "m < 274" "unat m - 18 < 256" using m(2) by (simp_all add: word_less_nat_alt)
    have "unat m \<noteq> unat num" using m(1) by (simp add: word_unat_eq_iff)
    then have "unat m - 18 \<noteq> ?i" using m1 F False by (simp add: word_less_nat_alt)
    then show ?thesis using m1 w[of "unat m - 18"] b by (simp add: getblkno_def buf_word_def Let_def)
  qed
  then show ?thesis using g by (simp add: wp_def run)
qed

text \<open>
  in the double indirect range it does not: the new number is nowhere used, and the first
  level block is overwritten with the second level one in which the entry has become the
  number of the block within the file.
\<close>

theorem setblkno_double:
  assumes len: "length (i_addr d) = 20" and num: "274 \<le> unat num"
    and i1: "i_addr d ! 19 \<noteq> 0" "in_img s (i_addr d ! 19)"
    and i2: "e = tree_word (img_view s) (i_addr d ! 19) ((unat num - 274) div 256)" "e \<noteq> 0" "in_img s e"
  shows "wp (setblkno d num v) (\<lambda>d' t. d' = d \<and> (\<forall>i<256. word_at (img_view t (i_addr d ! 19)) i =
     (if i = (unat num - 274) mod 256 then num else word_at (img_view s e) i))) s"
proof -
  have n: "\<not> num < 18" "\<not> num < 274" using num by (simp_all add: word_less_nat_alt)
  let ?b = "i_addr d ! 19" and ?i = "(unat num - 274) mod 256"
  have w: "(unat num - 274) div 256 < 256" using u16_lt[of num] by linarith
  have e: "word_at (readbuf (loaded ?b s)) ((unat num - 274) div 256) = e"
    using i1 i2(1) w by (simp add: loaded_word tree_word_def)
  define u where "u = loaded e (loaded ?b s)"
  define new where "new = put16 (2 * ?i) num (readbuf u)"
  have run: "setblkno d num v s = Ret d (dwritten ?b new (u\<lparr>readbuf := new\<rparr>))"
    using n i1 i2(2) e by (simp add: setblkno_def run_simps daread_run buf_word_def set_buf_word_def
        write_readbuf_def fsck_dwrite_run new_def u_def Let_def)
  have "word_at (img_view (dwritten ?b new (u\<lparr>readbuf := new\<rparr>)) ?b) i = (if i = ?i then num else word_at (img_view s e) i)"
    if "i < 256" for i
  proof -
    have "in_img (u\<lparr>readbuf := new\<rparr>) ?b" using i1(2) by (simp add: in_img_def u_def)
    then have "word_at (img_view (dwritten ?b new (u\<lparr>readbuf := new\<rparr>)) ?b) i = word_at new i"
      using that by (intro word_at_cong) (simp_all add: dwritten_view)
    moreover have "word_at (readbuf u) i = word_at (img_view s e) i"
      using i2(3) that by (simp add: u_def loaded_word)
    ultimately show ?thesis by (simp add: new_def)
  qed
  then show ?thesis by (simp add: wp_def run)
qed

text \<open>A file of one direct and one single indirect block, in an image whose block 7 lists block 9.\<close>

definition ind_dinode :: dinode where
  "ind_dinode = zero_dinode\<lparr>i_mode := F_REG, i_nlink := 1, i_addr := (replicate 20 0)[0 := 5, 18 := 7, 19 := 8]\<rparr>"

definition ind_fs :: fsck_st where
  "ind_fs = small_fs\<lparr>img := (\<lambda>a. if a = 512 * 7 + 4 then 9 else if a = 512 * 8 then 6 else 0)\<rparr>"

lemma ind_fs_facts: "length (i_addr ind_dinode) = 20" "i_addr ind_dinode ! 18 = 7" "i_addr ind_dinode ! 19 = 8"
  "in_img ind_fs 7" "in_img ind_fs 8" "in_img ind_fs 6" "word_at (img_view ind_fs 7) 2 = 9" "word_at (img_view ind_fs 8) 0 = 6"
  by (simp_all add: ind_dinode_def ind_fs_def small_fs_def in_img_def img_view_def img_block_def word_at_def get16_def)

theorem getblkno_tree_witness:
  "wp (getblkno ind_dinode 20) (\<lambda>b t. or_null b = 9 \<and> img t = img ind_fs) ind_fs"
  by (rule wp_mono[OF getblkno_tree[of ind_dinode 20 ind_fs]])
    (simp_all add: ind_fs_facts file_blk_def tree_word_def or_null_def)

theorem iwrite_iread_witness:
  "wp (iwrite 9 ind_dinode) (\<lambda>_ t. wp (iread 9) (\<lambda>e _. e = ind_dinode) t) ind_fs"
  by (rule wp_mono[OF iwrite_iread[of ind_dinode ind_fs 9]])
    (simp_all add: ind_fs_facts ino_blk_def in_img_def, simp add: ind_fs_def small_fs_def)

theorem setblkno_get_witness:
  "wp (setblkno ind_dinode 20 6) (\<lambda>d' t. wp (getblkno d' 20) (\<lambda>b _. b = 6) t) ind_fs"
  by (rule wp_mono[OF setblkno_get[of ind_dinode 20 ind_fs 6]]) (simp_all add: ind_fs_facts)

theorem setblkno_double_witness:
  "wp (setblkno ind_dinode 274 5) (\<lambda>d' t. word_at (img_view t 8) 0 = 274) ind_fs"
  by (rule wp_mono[OF setblkno_double[of ind_dinode 274 ind_fs 6 5]])
    (simp_all add: ind_fs_facts tree_word_def)

section \<open>Pass 4 ends\<close>

text \<open>
  Runs in which every question is answered with no: the input has no line that begins with a
  \<open>y\<close>. They leave the image as it is, the depth where it was, and read inodes below the length
  of \<open>linkmap\<close> only.
\<close>

definition calm :: "fsck_st \<Rightarrow> int \<Rightarrow> fsck_st \<Rightarrow> bool" where
  "calm s0 d t \<longleftrightarrow> img t = img s0 \<and> img_len t = img_len s0 \<and> length (linkmap t) = length (linkmap s0) \<and>
     depth t = d \<and> (\<forall>c\<in>set (stdin t). c \<noteq> 121 \<and> c \<noteq> 89)"

text \<open>
  Started in a calm state the operation does not run for ever, and where it returns the state
  is calm again and its result satisfies \<open>P\<close>. It may stop with \<open>panic\<close> or a bad access.
\<close>

definition calm_op :: "fsck_st \<Rightarrow> int \<Rightarrow> ('a \<Rightarrow> bool) \<Rightarrow> 'a fk \<Rightarrow> bool" where
  "calm_op s0 d P m \<longleftrightarrow> (\<forall>s. calm s0 d s \<longrightarrow> (case m s of Ret a t \<Rightarrow> P a \<and> calm s0 d t
     | Switch t \<Rightarrow> True | Halt h \<Rightarrow> h \<noteq> Diverges))"

named_theorems calms

lemma calm_basic [calms]:
  "P a \<Longrightarrow> calm_op s0 d P (retK a)" "calm_op s0 d P (panic msg)" "calm_op s0 d P (haltK BadAccess)"
  "(\<And>s. P (f s)) \<Longrightarrow> calm_op s0 d P (getK f)"
  by (simp_all add: calm_op_def run_simps)

lemma calm_bindK:
  assumes "calm_op s0 d P m" and "\<And>a. P a \<Longrightarrow> calm_op s0 d R (f a)"
  shows "calm_op s0 d R (bindK m f)"
  unfolding calm_op_def
proof (intro allI impI)
  fix s assume c: "calm s0 d s"
  then have m: "case m s of Ret a t \<Rightarrow> P a \<and> calm s0 d t | Switch t \<Rightarrow> True | Halt h \<Rightarrow> h \<noteq> Diverges"
    using assms(1) by (simp add: calm_op_def)
  show "case bindK m f s of Ret a t \<Rightarrow> R a \<and> calm s0 d t | Switch t \<Rightarrow> True | Halt h \<Rightarrow> h \<noteq> Diverges"
  proof (cases "m s")
    case (Ret a t)
    then show ?thesis using m assms(2)[of a] by (simp add: bindK_def calm_op_def)
  qed (use m in \<open>simp_all add: bindK_def\<close>)
qed

lemma calm_bindK_any [calms]:
  "calm_op s0 d (\<lambda>_. True) m \<Longrightarrow> (\<And>a. calm_op s0 d R (f a)) \<Longrightarrow> calm_op s0 d R (bindK m f)"
  by (rule calm_bindK)

lemma calm_thenK [calms]: "calm_op s0 d (\<lambda>_. True) m \<Longrightarrow> calm_op s0 d R n \<Longrightarrow> calm_op s0 d R (thenK m n)"
  unfolding thenK_def by (rule calm_bindK_any)

lemma calm_if [calms]: "(b \<Longrightarrow> calm_op s0 d P m) \<Longrightarrow> (\<not> b \<Longrightarrow> calm_op s0 d P n) \<Longrightarrow> calm_op s0 d P (if b then m else n)"
  by simp

lemma calm_any: "calm_op s0 d P m \<Longrightarrow> calm_op s0 d (\<lambda>_. True) m"
  by (auto simp: calm_op_def split: outcome.splits)

lemma calm_foldK: "(\<And>i a. calm_op s0 d (\<lambda>_. True) (f i a)) \<Longrightarrow> calm_op s0 d (\<lambda>_. True) (foldK is f a)"
  by (induction "is" arbitrary: a) (auto intro: calms)

lemma calm_links [calms]:
  "calm_op s0 d (\<lambda>_. unat n < length (linkmap s0)) (get_link n)" "calm_op s0 d (\<lambda>_. unat n < length (linkmap s0)) (set_link n v)"
  by (simp_all add: calm_op_def get_link_def set_link_def calm_def)

lemmas calm_link_any [calms] = calm_links[THEN calm_any]

lemma calm_reads [calms]: "calm_op s0 d (\<lambda>_. True) (daread b)" "calm_op s0 d (\<lambda>_. True) (buf_word i)"
  by (simp_all add: calm_op_def calm_def daread_run buf_word_def run_simps)

lemma fgets_split_set: "set (fst (fgets_split n inp)) \<union> set (snd (fgets_split n inp)) \<subseteq> set inp"
  by (induction n inp rule: fgets_split.induct) (auto split: prod.splits)

lemma calm_if_yes [calms]:
  assumes "calm_op s0 d P n"
  shows "calm_op s0 d P (if_yes m n)"
proof -
  have "deref l \<noteq> 121 \<and> deref l \<noteq> 89" if "\<forall>c\<in>set l. c \<noteq> 121 \<and> c \<noteq> (89 :: byte)" for l
    using that by (cases l) simp_all
  moreover have "\<forall>c\<in>set (fst (fgets_split 19 i)) \<union> set (snd (fgets_split 19 i)). c \<noteq> 121 \<and> c \<noteq> 89"
    if "\<forall>c\<in>set i. c \<noteq> 121 \<and> c \<noteq> (89 :: byte)" for i
    using that fgets_split_set[of 19 i] by blast
  ultimately have no: "\<not> (deref (fst (fgets_split 19 i)) = 121 \<or> deref (fst (fgets_split 19 i)) = 89)"
      "\<forall>c\<in>set (snd (fgets_split 19 i)). c \<noteq> 121 \<and> c \<noteq> 89"
    if "\<forall>c\<in>set i. c \<noteq> 121 \<and> c \<noteq> (89 :: byte)" for i
    using that unfolding ball_Un by blast+
  have "calm_op s0 d (\<lambda>y. \<not> y) yes"
    unfolding calm_op_def
  proof (intro allI impI)
    fix s assume c: "calm s0 d s"
    define l where "l = fgets_split 19 (stdin s)"
    have y: "yes s = Ret (deref (fst l) = 121 \<or> deref (fst l) = 89) (s\<lparr>stdin := snd l\<rparr>)"
      by (simp only: yes_def case_prod_unfold Let_def l_def)
    have "\<forall>c\<in>set (stdin s). c \<noteq> 121 \<and> c \<noteq> 89" using c unfolding calm_def by blast
    note l = no[OF this, folded l_def]
    have "calm s0 d (s\<lparr>stdin := snd l\<rparr>)"
      using c l(2) unfolding calm_def by simp
    then show "case yes s of Ret y t \<Rightarrow> \<not> y \<and> calm s0 d t | Switch t \<Rightarrow> True | Halt h \<Rightarrow> h \<noteq> Diverges"
      unfolding y outcome.case using l(1) by (intro conjI)
  qed
  then show ?thesis unfolding if_yes_def by (rule calm_bindK) (simp add: assms)
qed

lemma calm_getblkno [calms]: "calm_op s0 d (\<lambda>_. True) (getblkno ino num)"
  unfolding getblkno_def Let_def by (intro calms TrueI)

lemma calm_dirread [calms]: "calm_op s0 d (\<lambda>_. True) (dirread ino j)"
  unfolding dirread_def by (intro calms TrueI)

lemma calm_fix_slashes: "calm_op s0 d (\<lambda>e'. e' = e) (fix_slashes ino j cs e)"
proof (induction cs)
  case (Cons c cs)
  have "calm_op s0 d (\<lambda>e'. e' = e) (if d_name e ! c = 47 then if_yes n (retK e) else retK e)" for n
    by (intro calms refl)
  then have "calm_op s0 d (\<lambda>e'. e' = e) (bindK (if d_name e ! c = 47 then if_yes n (retK e) else retK e) (fix_slashes ino j cs))" for n
    by (rule calm_bindK) (simp add: Cons)
  then show ?case by (auto simp: Let_def intro: calms)
qed (auto intro: calms)

lemma calm_fix_ino: "calm_op s0 d (\<lambda>e'. e' = e) (fix_ino ino j nm num e)"
  unfolding fix_ino_def Let_def by (intro calms refl)

lemma calm_fix_length: "calm_op s0 d (\<lambda>i. i = ino) (fix_length inum ino)"
  unfolding fix_length_def Let_def by (intro calms refl)

lemma calm_checks [calms]: "calm_op s0 d (\<lambda>_. True) (ck_checks ino j e)"
  unfolding ck_checks_def zap_entry_def by (intro calms TrueI)

lemma calm_depth:
  assumes "calm_op s0 d R (f d)"
  shows "calm_op s0 d R (bindK (getK depth) f)"
  using assms by (auto simp: calm_op_def bindK_def getK_def calm_def)

lemma calm_ck_entry:
  assumes "\<And>i p nm. d < 20 \<Longrightarrow> unat i < length (linkmap s0) \<Longrightarrow> calm_op s0 d (\<lambda>_. True) (rec i p nm)"
  shows "calm_op s0 d (\<lambda>_. True) (ck_entry rec inum pnum name ino j)"
proof -
  have walk: "calm_op s0 d (\<lambda>_. True)
      (bindK (fix_slashes ino j [0..<14] e0) (\<lambda>e1. bindK (fix_ino ino j [46] inum e1) (\<lambda>e2.
       bindK (fix_ino ino j [46, 46] pnum e2) (\<lambda>e3. bindK (getK depth) (\<lambda>d.
       if d_ino e3 \<noteq> pnum \<and> d_ino e3 \<noteq> inum \<and> d < 20
       then bindK (mk_ename name e3) (rec (d_ino e3) inum) else retK ())))))"
    if l: "unat (d_ino e0) < length (linkmap s0)" for e0
    unfolding mk_ename_def
    by (rule calm_bindK[OF calm_fix_slashes], rule calm_bindK[OF calm_fix_ino], rule calm_bindK[OF calm_fix_ino],
        rule calm_depth, intro calms TrueI assms) (use l in auto)
  have "calm_op s0 d (\<lambda>_. unat n < length (linkmap s0)) (bindK (get_link n) (\<lambda>l. set_link n (l + 1)))" for n
    by (rule calm_bindK[OF calm_links(1)]) (rule calm_links(2))
  then show ?thesis
    unfolding ck_entry_def thenK_def
    by (intro calm_bindK_any[OF calm_dirread] calm_bindK_any[OF calm_checks] calm_if calm_basic TrueI)
      (rule calm_bindK, assumption, rule walk)
qed

text \<open>The inode of an entry that is followed, as \<open>iread\<close> finds it in the image.\<close>

definition img_dinode :: "fsck_st \<Rightarrow> u16 \<Rightarrow> dinode" where
  "img_dinode s n = get_dinode (img_view s (ino_blk n)) (64 * unat (n AND 7))"

definition dirs_short :: "fsck_st \<Rightarrow> bool" where
  "dirs_short s \<longleftrightarrow> (\<forall>n. unat n < length (linkmap s) \<longrightarrow> in_img s (ino_blk n) \<and>
     (i_mode (img_dinode s n) AND F_MASK = F_DIR \<longrightarrow> nentries (img_dinode s n) \<le> 65535))"

lemma calm_iread:
  assumes "dirs_short s0" and "unat n < length (linkmap s0)"
  shows "calm_op s0 d (\<lambda>i. i = img_dinode s0 n) (iread n)"
proof -
  have "in_img t (ino_blk n) \<and> img_view t = img_view s0" if "calm s0 d t" for t
    using that assms by (simp add: dirs_short_def in_img_def calm_def img_view_def[abs_def])
  then show ?thesis
    using iread_value[of _ n]
    by (auto simp: calm_op_def iread_run ino_blk_def[symmetric] img_dinode_def, simp add: calm_def)
qed

lemma calm_loop:
  "(\<And>j. calm_op s0 d (\<lambda>_. True) (f j)) \<Longrightarrow> n \<le> 65535 \<Longrightarrow> calm_op s0 d (\<lambda>_. True) (for_u16 0 n (\<lambda>j _. f j) ())"
  by (simp add: for_u16_def calm_foldK)

text \<open>A body one level deeper, between counting the depth up and down.\<close>

lemma calm_deeper:
  assumes "calm_op s0 (d + 1) (\<lambda>_. True) m"
  shows "calm_op s0 d (\<lambda>_. True) (thenK (modK (\<lambda>s. s\<lparr>depth := depth s + 1\<rparr>)) (thenK m (modK (\<lambda>s. s\<lparr>depth := depth s - 1\<rparr>))))"
proof -
  have "calm s0 (d + 1) (s\<lparr>depth := depth s + 1\<rparr>)" if "calm s0 d s" for s
    using that by (simp add: calm_def)
  moreover have "calm s0 d (t\<lparr>depth := depth t - 1\<rparr>)" if "calm s0 (d + 1) t" for t
    using that by (simp add: calm_def)
  ultimately show ?thesis
    using assms by (fastforce simp: calm_op_def thenK_def bindK_def modK_def split: outcome.splits)
qed

lemma ckdir_calm:
  assumes dirs: "dirs_short s0"
  shows "d + int fuel = 21 \<Longrightarrow> 0 < fuel \<Longrightarrow> unat inum < length (linkmap s0) \<Longrightarrow>
     calm_op s0 d (\<lambda>_. True) (ckdir fuel inum pnum name)"
proof (induction fuel arbitrary: d inum pnum name)
  case (Suc fuel)
  let ?ino = "img_dinode s0 inum"
  have rec: "calm_op s0 (d + 1) (\<lambda>_. True) (ckdir fuel i p nm)"
    if "d + 1 < 20" "unat i < length (linkmap s0)" for i p nm
    using Suc.prems that by (intro Suc.IH) simp_all
  have loop: "calm_op s0 (d + 1) (\<lambda>_. True) (for_u16 0 (nat (nentries ?ino)) (\<lambda>j _. ck_entry (ckdir fuel) inum pnum name ?ino j) ())"
    if "i_mode ?ino AND F_MASK = F_DIR"
  proof (rule calm_loop[OF calm_ck_entry])
    show "nat (nentries ?ino) \<le> 65535" using dirs Suc.prems(3) that by (auto simp: dirs_short_def nat_le_iff)
  qed (rule rec)
  have eq: "thenK (modK u) (bindK (fix_length inum ino) (\<lambda>i. thenK (f i) (modK v))) =
     thenK (modK u) (thenK (bindK (fix_length inum ino) f) (modK v))" for u v ino and f :: "dinode \<Rightarrow> unit fk"
    by (simp add: thenK_def bindK_def modK_def fun_eq_iff split: outcome.splits)
  show ?case
    unfolding ckdir.simps eq
  proof (rule calm_bindK[OF calm_iread[OF dirs Suc.prems(3)]])
    fix i assume i: "i = ?ino"
    have "calm_op s0 (d + 1) (\<lambda>_. True) (bindK (fix_length inum ?ino) (\<lambda>ino.
       for_u16 0 (nat (nentries ino)) (\<lambda>j _. ck_entry (ckdir fuel) inum pnum name ino j) ()))"
      if "i_mode ?ino AND F_MASK = F_DIR"
      by (rule calm_bindK[OF calm_fix_length]) (use loop[OF that] in simp)
    then show "calm_op s0 d (\<lambda>_. True) (if i_mode i AND F_MASK \<noteq> F_DIR then retK ()
       else thenK (modK (\<lambda>s. s\<lparr>depth := depth s + 1\<rparr>)) (thenK (bindK (fix_length inum i) (\<lambda>ino.
         for_u16 0 (nat (nentries ino)) (\<lambda>j _. ck_entry (ckdir fuel) inum pnum name ino j) ()))
         (modK (\<lambda>s. s\<lparr>depth := depth s - 1\<rparr>))))"
      unfolding i by (intro calm_if calm_basic calm_deeper TrueI) simp_all
  qed
qed simp

text \<open>
  C24: pass 4, with every question answered with no, on an image that holds all the inodes
  \<open>linkmap\<close> has a place for and in which none of these is a directory of more than 65535 entries
  by the count of \<open>ckdir\<close>. Whatever the directories hold (cycles, entries that are wrong, holes,
  blocks out of range) the pass does not run for ever, and when it comes to its end the image is
  as it was. It may stop with a message or a bad access on the way.
\<close>

theorem pass4_ends:
  assumes no: "\<forall>c\<in>set (stdin s). c \<noteq> 121 \<and> c \<noteq> 89" and dirs: "dirs_short s"
  shows "pass4 s \<noteq> Halt Diverges \<and> (\<forall>t. pass4 s = Ret () t \<longrightarrow> img t = img s \<and> img_len t = img_len s \<and> depth t = 0)"
proof -
  let ?s = "s\<lparr>depth := 0\<rparr>"
  have d: "dirs_short ?s" using dirs by (simp add: dirs_short_def in_img_def img_dinode_def img_view_def)
  have c: "calm ?s 0 ?s" using no by (simp add: calm_def)
  have "calm_op ?s 0 (\<lambda>_. True) (bindK (set_link ROOTINODE 1) (\<lambda>_.
     thenK (ckdir 21 ROOTINODE ROOTINODE [47]) (thenK (bindK (getK depth) (\<lambda>d. whenK (d \<noteq> 0) (panic ''Inconsistent depth''))) (retK ()))))"
    by (rule calm_bindK[OF calm_links(2)], intro calm_thenK ckdir_calm[OF d] calm_depth) (simp_all add: calms whenK_def)
  moreover have "pass4 s = bindK (set_link ROOTINODE 1) (\<lambda>_.
     thenK (ckdir 21 ROOTINODE ROOTINODE [47]) (thenK (bindK (getK depth) (\<lambda>d. whenK (d \<noteq> 0) (panic ''Inconsistent depth''))) (retK ()))) ?s"
    by (simp add: pass4_def run_simps del: ckdir.simps)
  ultimately have "case pass4 s of Ret a t \<Rightarrow> True \<and> calm ?s 0 t | Switch t \<Rightarrow> True | Halt h \<Rightarrow> h \<noteq> Diverges"
    using c unfolding calm_op_def by metis
  then show ?thesis by (auto simp: calm_def split: outcome.splits)
qed

text \<open>
  Without the bound on the entries the pass does not come to an end: a root directory of more
  than 65535 entries has the loop count beyond its 16 bits, whatever is answered.
\<close>

theorem pass4_long_root:
  assumes i: "in_img s 2" and long: "nentries (img_dinode s 1) > 65535"
    and dir: "i_mode (img_dinode s 1) AND F_MASK = F_DIR"
    and even: "sint (o_offset (i_size (img_dinode s 1))) smod 16 = 0"
  shows "pass4 s \<noteq> Ret () t"
proof -
  have d: "drop_bit 3 (1 :: u16) + 2 = 2" by code_simp
  have rd: "iread 1 u = Ret (img_dinode s 1) (loaded 2 u)" if "img u = img s" "img_len u = img_len s" for u
    using iread_run[of 1 u] iread_value[of u 1] that i
    by (simp add: d in_img_def img_dinode_def ino_blk_def img_view_def[abs_def])
  have loop: "for_u16 0 (nat (nentries (img_dinode s 1))) f () u \<noteq> Ret () v" for f u v
  proof -
    have "\<not> nat (nentries (img_dinode s 1)) \<le> 65535" using long by linarith
    then show ?thesis by (simp add: for_u16_def bindK_def haltK_def split: outcome.splits)
  qed
  have c21: "ckdir 21 = ckdir (Suc 20)" by simp
  have "ckdir 21 1 1 [47] u \<noteq> Ret () v" if "img u = img s" "img_len u = img_len s" for u v
    unfolding c21 ckdir.simps(2) using even dir
    by (auto simp: bindK_def[of "iread 1"] rd[OF that] fix_length_def run_simps dest: loop[THEN notE] split: outcome.splits)
  then show ?thesis
    by (auto simp: pass4_def run_simps set_link_def simp del: ckdir.simps split: outcome.splits if_splits)
qed

text \<open>Three directories in a circle, 1, 2, 3 and 1 again, each with one entry \<open>a\<close>; no input.\<close>

definition circle_fs :: fsck_st where
  "circle_fs = small_fs\<lparr>stdin := [], img := (\<lambda>a.
     if a \<in> {1089, 1153, 1217} then 64 else if a \<in> {1098, 1162, 1226} then 16
     else if a = 1112 then 6 else if a = 1176 then 7 else if a = 1240 then 8
     else if a = 3072 then 2 else if a = 3584 then 3 else if a = 4096 then 1
     else if a \<in> {3074, 3586, 4098} then 97 else 0)\<rparr>"

lemma circle_short: "dirs_short circle_fs"
proof -
  have z: "o_blkno (i_size (img_dinode circle_fs n)) = 0" "in_img circle_fs (ino_blk n)" if n: "unat n < 32" for n
  proof -
    have b: "unat (ino_blk n) = unat n div 8 + 2"
      using n by (simp add: ino_blk_def unat_word_ariths unat_drop_bit_eq drop_bit_eq_div)
    then show "in_img circle_fs (ino_blk n)" using n by (simp add: in_img_def circle_fs_def small_fs_def)
    let ?a = "512 * unat (ino_blk n) + (64 * unat (n AND 7) + 8)"
    let ?m = "8 * (unat n div 8) + 16 + unat (n AND 7)"
    have m: "?a = 64 * ?m + 8" using b by simp
    have "unat (drop_bit 3 n) = unat n div 8" by (simp add: unat_drop_bit_eq drop_bit_eq_div unat_div)
    then have q: "?m < 48" using inode_split[of n] n by linarith
    have "(64 * k + 8) mod 64 = 8 \<and> Suc (64 * k + 8) mod 64 = 9 \<and> Suc (64 * k + 8) < 3072" if "k < 48" for k :: nat
      using that by (simp add: mod_Suc)
    from this[OF q] have a: "?a mod 64 = 8 \<and> Suc ?a mod 64 = 9 \<and> Suc ?a < 3072" unfolding m .
    have "a \<notin> {1089, 1153, 1217, 1098, 1162, 1226, 1112, 1176, 1240}" if "a mod 64 = 8 \<or> a mod 64 = 9" for a :: nat
      using that by auto
    then have "img circle_fs ?a = 0" "img circle_fs (?a + 1) = 0" using a by (auto simp: circle_fs_def)
    then show "o_blkno (i_size (img_dinode circle_fs n)) = 0"
      by (simp add: img_dinode_def get_dinode_def get16_def img_view_def img_block_def ac_simps)
  qed
  have "sint (w :: u16) sdiv 16 \<le> 65535" for w
    using sint_lt[of w] by (simp add: signed_divide_int_def sgn_if) linarith
  then show ?thesis using z by (simp add: dirs_short_def nentries_def) (simp add: circle_fs_def small_fs_def)
qed

theorem pass4_ends_witness: "pass4 circle_fs \<noteq> Halt Diverges"
  by (rule conjunct1[OF pass4_ends]) (simp add: circle_fs_def small_fs_def, rule circle_short)

end
