(* ===== verification/Fsck_Fresh.thy ===== *)
theory Fsck_Fresh
  imports Fsck_Files Mkfs
begin

text \<open>
  The tools together: \<open>fsck\<close> over an image that \<open>mkfs\<close> made asks its two standing questions and
  no other.
\<close>

section \<open>Loops\<close>

lemma wp_foldK_upt:
  assumes "I lo a s" and "lo \<le> hi" and "\<And>n a s. lo \<le> n \<Longrightarrow> n < hi \<Longrightarrow> I n a s \<Longrightarrow> wp (f (of_nat n) a) (I (Suc n)) s"
  shows "wp (foldK (map of_nat [lo..<hi]) f a) (I hi) s"
  using assms
proof (induction "hi - lo" arbitrary: lo a s)
  case 0
  then show ?case by simp
next
  case (Suc k)
  have l: "[lo..<hi] = lo # [Suc lo..<hi]" using Suc.hyps(2) by (intro upt_conv_Cons) simp
  have "wp (f (of_nat lo) a) (I (Suc lo)) s" using Suc.hyps(2) Suc.prems by simp
  then show ?case unfolding l
    by (simp, elim wp_mono) (use Suc in simp)
qed

lemma wp_for_u16:
  assumes "I lo a s" and "lo \<le> hi" and "hi \<le> 65535"
    and "\<And>n a s. lo \<le> n \<Longrightarrow> n < hi \<Longrightarrow> I n a s \<Longrightarrow> wp (f (of_nat n) a) (I (Suc n)) s"
  shows "wp (for_u16 lo hi f a) (I hi) s"
  using wp_foldK_upt[of I lo a s hi f] assms by (simp add: for_u16_def)

lemma wp_maps [simp]:
  "wp (get_bit b) Q = (\<lambda>s. unat b < length (bitmap s) \<and> Q (bitmap s ! unat b) s)"
  "wp (set_bit b v) R = (\<lambda>s. unat b < length (bitmap s) \<and> R () (s\<lparr>bitmap := (bitmap s)[unat b := v]\<rparr>))"
  "wp (get_link n) P = (\<lambda>s. unat n < length (linkmap s) \<and> P (linkmap s ! unat n) s)"
  "wp (set_link n w) R = (\<lambda>s. unat n < length (linkmap s) \<and> R () (s\<lparr>linkmap := (linkmap s)[unat n := w]\<rparr>))"
  by (simp_all add: wp_def get_bit_def set_bit_def get_link_def set_link_def fun_eq_iff)

section \<open>The image\<close>

text \<open>What \<open>mkfs\<close> leaves in the blocks of inodes and in the block of the root directory.\<close>

definition fresh_img :: "bytes \<Rightarrow> u16 \<Rightarrow> u16 \<Rightarrow> bool" where
  "fresh_img f fsize isize \<longleftrightarrow> 2 < unat isize \<and> unat isize < unat fsize \<and>
     (\<forall>k<512. img_block f 2 k = first_inodes isize k) \<and>
     (\<forall>b k. 2 < b \<longrightarrow> b < unat isize \<longrightarrow> k < 512 \<longrightarrow> img_block f b k = 0) \<and>
     get_direct (img_block f (unat isize)) 0 = \<lparr>d_ino = ROOTINODE, d_name = 46 # replicate 13 0\<rparr> \<and>
     get_direct (img_block f (unat isize)) 16 = \<lparr>d_ino = ROOTINODE, d_name = 46 # 46 # replicate 12 0\<rparr>"

lemma mkfs_fresh:
  assumes p: "\<not> bad_params fsize isize" and i: "2 < unat isize"
  shows "wp (mkfs fsize isize) (\<lambda>_ t. fresh_img (fs_buffer t) fsize isize) mk_start"
proof (rule wp_mono[OF mkfs_result[OF p]])
  fix r :: unit and t
  assume "\<exists>u. t = mk_done isize u \<and>
     mk_inv (unat isize) (unat fsize) (mk_ready fsize isize mk_start) (Suc (unat isize)) u"
  then obtain u where t: "t = mk_done isize u"
    and inv: "mk_inv (unat isize) (unat fsize) (mk_ready fsize isize mk_start) (Suc (unat isize)) u" by blast
  have d: "dirbuf u = dirbuf (mk_ready fsize isize mk_start)" and z: "\<forall>a < 512 * unat isize + 512. fs_buffer u a = 0"
    using inv by (simp_all add: mk_inv_def)
  have g: "get_direct (img_block (fs_buffer t) (unat isize)) b = get_direct (dirbuf (mk_ready fsize isize mk_start)) b" if "b \<le> 16" for b
    unfolding t d[symmetric] using i that by (intro get_direct_cong) (simp add: mk_done_block)
  have "img_block (fs_buffer t) b k = 0" if "2 < b" "b < unat isize" "k < 512" for b k
    using that z by (simp add: t mk_done_def put_block_other img_block_def[of "fs_buffer u"] del: One_nat_def)
  moreover have "unat isize < unat fsize" using p by (simp add: bad_params_def word_le_nat_alt)
  ultimately show "fresh_img (fs_buffer t) fsize isize"
    using i g[of 0] g[of 16] unfolding fresh_img_def
    by (simp add: t mk_done_block) (simp add: mk_ready_def get_put_direct_at get_put_direct_other)
qed


text \<open>Inode \<open>n\<close> of the image.\<close>

definition fresh_inode :: "u16 \<Rightarrow> nat \<Rightarrow> dinode" where
  "fresh_inode isize n = (if n = 1 then root_dinode isize else zero_dinode)"

lemma fresh_inode_at:
  assumes f: "fresh_img f fsize isize" and n: "1 \<le> n" "n < 8 * (unat isize - 2)"
  shows "get_dinode (img_block f (n div 8 + 2)) (64 * (n mod 8)) = fresh_inode isize n"
proof (cases "n div 8 = 0")
  case True
  then have n8: "n < 8" by simp
  have o: "64 * (n mod 8) + 64 \<le> 512" by simp
  have "get_dinode (img_block f (n div 8 + 2)) (64 * (n mod 8)) = get_dinode (first_inodes isize) (64 * (n mod 8))"
    using f n8 by (intro get_dinode_cong) (simp add: fresh_img_def True numeral_2_eq_2[symmetric])
  also have "\<dots> = fresh_inode isize n"
  proof (cases "n = 1")
    case False
    then have "128 \<le> 64 * (n mod 8)" using n n8 by simp
    then show ?thesis using False by (simp add: first_inodes_def get_put_dinode_other get_dinode_zero fresh_inode_def)
  qed (simp add: first_inodes_def get_put_dinode_other fresh_inode_def root_dinode_def)
  finally show ?thesis .
next
  case False
  have b: "n div 8 + 2 < unat isize" "2 < n div 8 + 2" using n(2) False by (auto simp: div_less_iff_less_mult less_diff_conv[symmetric])
  have "get_dinode (img_block f (n div 8 + 2)) (64 * (n mod 8)) = get_dinode (\<lambda>_. 0) (64 * (n mod 8))"
    using f b by (intro get_dinode_cong) (simp add: fresh_img_def)
  moreover have "n \<noteq> 1" using False by auto
  ultimately show ?thesis by (simp add: get_dinode_zero fresh_inode_def)
qed

text \<open>The state of a run over such an image: what the passes do not change.\<close>

definition fresh :: "u16 \<Rightarrow> u16 \<Rightarrow> fsck_st \<Rightarrow> bool" where
  "fresh fsize isize s \<longleftrightarrow> fresh_img (img s) fsize isize \<and> 512 * unat fsize \<le> img_len s \<and> unat isize \<le> 8193 \<and>
     s_isize (sb s) = isize \<and> s_fsize (sb s) = fsize \<and>
     length (bitmap s) = unat fsize \<and> length (linkmap s) = 8 * unat isize"

definition same_disk :: "fsck_st \<Rightarrow> fsck_st \<Rightarrow> bool" where
  "same_disk s t \<longleftrightarrow> img t = img s \<and> img_len t = img_len s \<and> fs_buf t = fs_buf s \<and> stdin t = stdin s \<and>
     length (bitmap t) = length (bitmap s) \<and> length (linkmap t) = length (linkmap s)"

lemma same_disk_simps [simp]:
  "same_disk s s" "same_disk s (loaded b t) = same_disk s t" "same_disk s (t\<lparr>depth := d\<rparr>) = same_disk s t"
  "same_disk s (t\<lparr>bitmap := (bitmap t)[i := v]\<rparr>) = same_disk s t" "same_disk s (t\<lparr>linkmap := (linkmap t)[i := w]\<rparr>) = same_disk s t"
  by (simp_all add: same_disk_def)

lemma sb_loaded [simp]: "sb (loaded b s) = sb s"
  by (simp add: sb_def)

lemma fresh_simps [simp]:
  "fresh fsize isize (loaded b t) = fresh fsize isize t" "fresh fsize isize (t\<lparr>depth := d\<rparr>) = fresh fsize isize t"
  "fresh fsize isize (t\<lparr>bitmap := (bitmap t)[i := v]\<rparr>) = fresh fsize isize t"
  "fresh fsize isize (t\<lparr>linkmap := (linkmap t)[i := w]\<rparr>) = fresh fsize isize t"
  by (simp_all add: fresh_def)

lemma same_disk_fresh: "same_disk s t \<Longrightarrow> fresh fsize isize s \<Longrightarrow> fresh fsize isize t"
  by (simp add: same_disk_def fresh_def sb_def)

lemma fresh_bounds:
  assumes "fresh fsize isize s"
  shows "2 < unat isize" "unat isize < unat fsize" "unat isize \<le> 8193" "ino_end s = int (8 * (unat isize - 2))"
  using assms by (simp_all add: fresh_def fresh_img_def ino_end_def of_nat_diff)

lemma wp_iread:
  assumes f: "fresh fsize isize s" and n: "1 \<le> n" "n < 8 * (unat isize - 2)"
  shows "wp (iread (of_nat n)) Q s \<longleftrightarrow> Q (fresh_inode isize n) (loaded (of_nat (n div 8 + 2)) s)"
proof -
  note B = fresh_bounds[OF f]
  have n16: "n < 65536" using n(2) B(3) by simp
  have u: "unat (of_nat n :: u16) = n" using n16 by (intro unat_of_small) simp
  define b where "b = drop_bit 3 (of_nat n :: u16) + 2"
  have split: "n = 8 * unat (drop_bit 3 (of_nat n :: u16)) + unat (of_nat n AND 7 :: u16)"
    using inode_split[of "of_nat n"] u by simp
  have and7: "unat (of_nat n AND 7 :: u16) < 8" by (rule unat_and_7)
  have d: "unat (drop_bit 3 (of_nat n :: u16)) = n div 8" "unat (of_nat n AND 7 :: u16) = n mod 8"
    using split and7 by presburger+
  have "n div 8 < 8192" using n16 by (simp add: div_less_iff_less_mult)
  then have ub: "unat b = n div 8 + 2"
    unfolding b_def by (subst unat_add_lem[THEN iffD1]) (simp_all add: d)
  have "n div 8 + 2 < unat isize" using n(2) by (auto simp: div_less_iff_less_mult less_diff_conv[symmetric])
  then have "in_img s b" using ub B f by (simp add: in_img_def fresh_def)
  then have "get_dinode (readbuf (loaded b s)) (64 * unat (of_nat n AND 7 :: u16)) = fresh_inode isize n"
    using iread_value[of s "of_nat n"] fresh_inode_at[of "img s" fsize isize n] f n
    by (simp add: b_def[symmetric] img_view_def ub d fresh_def)
  moreover have "b = of_nat (n div 8 + 2)" unfolding ub[symmetric] by simp
  ultimately show ?thesis by (simp add: wp_def iread_run b_def[symmetric])
qed


section \<open>The passes\<close>

text \<open>
  After pass 1 the bitmap marks the block of the root directory only; the root has link count 0
  so far, and all other inodes are free.
\<close>

definition links_at :: "nat \<Rightarrow> u16 \<Rightarrow> fsck_st \<Rightarrow> bool" where
  "links_at n l s \<longleftrightarrow> (1 < n \<longrightarrow> linkmap s ! 1 = l) \<and> (\<forall>m. 1 < m \<and> m < n \<longrightarrow> linkmap s ! m = 0xFFFF)"

lemma root_fields:
  "i_mode (root_dinode isize) AND F_MASK = F_DIR" "i_mode (root_dinode isize) \<noteq> 0" "i_nlink (root_dinode isize) = 3"
  "o_blkno (i_size (root_dinode isize)) = 0" "o_offset (i_size (root_dinode isize)) = 32"
  "i_addr (root_dinode isize) ! 0 = isize" "i_addr (root_dinode isize) ! 18 = 0" "i_addr (root_dinode isize) ! 19 = 0"
  by (simp_all add: root_dinode_def nth_list_update)

lemma root_blkno: "getblkno (root_dinode isize) 0 = retK isize"
  by (simp add: getblkno_def root_fields)

lemma p1_root_blocks:
  assumes "fresh fsize isize s"
  shows "wp (p1_blocks 1 (root_dinode isize)) (\<lambda>_ t. t = s\<lparr>bitmap := (bitmap s)[unat isize := 1]\<rparr>) s"
proof -
  note B = fresh_bounds[OF assms]
  have sb: "s_isize (sb s) = isize" "s_fsize (sb s) = fsize" "length (bitmap s) = unat fsize" using assms by (simp_all add: fresh_def)
  have "isize \<noteq> 0" "isize < fsize" "\<not> fsize \<le> isize" using B by (auto simp: word_less_nat_alt word_le_nat_alt)
  then show ?thesis
    using B sb by (simp add: p1_blocks_def p1_ind_def for_u16_def p1_blk_def root_fields root_blkno out_of_range_def)
qed

lemma fresh_len: "fresh fsize isize s \<Longrightarrow> n < 8 * (unat isize - 2) \<Longrightarrow> n < length (linkmap s)"
  by (simp add: fresh_def)

lemma p1_root:
  assumes f: "fresh fsize isize s"
  shows "wp (p1_inode 1 ic) (\<lambda>c t. c = ic + 1 \<and> same_disk s t \<and> bitmap t = (bitmap s)[unat isize := 1] \<and>
     linkmap t = (linkmap s)[1 := 0]) s"
proof -
  note B = fresh_bounds[OF f]
  have len: "1 < length (linkmap s)" using fresh_len[OF f, of 1] B by simp
  define u where "u = loaded 2 s"
  have u: "same_disk s u" "fresh fsize isize u" "linkmap u = linkmap s" "bitmap u = bitmap s" using f by (simp_all add: u_def)
  have rd: "wp (iread 1) Q s = Q (root_dinode isize) u" for Q
    using wp_iread[OF f, of 1] B by (simp add: fresh_inode_def u_def)
  have size: "p1_size 1 (root_dinode isize) = retK (root_dinode isize)" by (simp add: p1_size_def root_fields run_simps fun_eq_iff)
  have mode: "p1_mode 1 (root_dinode isize) = retK False" by (simp add: p1_mode_def root_fields Let_def)
  let ?t = "u\<lparr>linkmap := (linkmap u)[1 := 0]\<rparr>"
  have "wp (p1_blocks 1 (root_dinode isize)) (\<lambda>_ t. t = ?t\<lparr>bitmap := (bitmap ?t)[unat isize := 1]\<rparr>) ?t"
    using u(2) by (intro p1_root_blocks[of fsize]) (simp only: fresh_simps)
  then have "wp (p1_blocks 1 (root_dinode isize)) (\<lambda>_ t. same_disk s t \<and> bitmap t = (bitmap s)[unat isize := 1] \<and>
     linkmap t = (linkmap s)[1 := 0]) ?t"
    by (rule wp_mono) (use u in \<open>simp add: same_disk_def\<close>)
  then show ?thesis
    using len u(3) by (simp add: p1_inode_def rd size mode root_fields Let_def)
qed

lemma p1_free:
  assumes f: "fresh fsize isize s" and n: "1 < n" "n < 8 * (unat isize - 2)"
  shows "wp (p1_inode (of_nat n) ic) (\<lambda>c t. c = ic \<and> same_disk s t \<and> bitmap t = bitmap s \<and>
     linkmap t = (linkmap s)[n := 0xFFFF]) s"
proof -
  have u: "unat (of_nat n :: u16) = n" using n fresh_bounds[OF f] by (intro unat_of_small) simp
  show ?thesis
    using fresh_len[OF f n(2)] n
    by (simp add: p1_inode_def wp_iread[OF f] fresh_inode_def u) (simp add: zero_dinode_def same_disk_def)
qed

lemma free_inodes_word:
  fixes isize :: u16
  assumes "2 < unat isize" and "unat isize \<le> 8193"
  shows "uint (8 * (isize - 2) - 2) = int (8 * (unat isize - 2)) - 2"
proof -
  have a: "unat (isize - 2) = unat isize - 2" using assms by (subst unat_sub_le) (simp_all)
  have b: "unat (8 * (isize - 2)) = 8 * (unat isize - 2)"
    using assms a by (subst unat_mult_lem[THEN iffD1]) simp_all
  have "unat (8 * (isize - 2) - 2) = 8 * (unat isize - 2) - 2"
    using assms b by (subst unat_sub_le) simp_all
  then have "uint (8 * (isize - 2) - 2) = int (8 * (unat isize - 2) - 2)" by (metis uint_nat)
  then show ?thesis using assms by (simp add: of_nat_diff)
qed

lemma pass1_fresh:
  assumes f: "fresh fsize isize s" and tin: "s_tinode (sb s) = 8 * (isize - 2) - 2"
  shows "wp pass1 (\<lambda>_ t. same_disk s t \<and> links_at (8 * (unat isize - 2)) 0 t \<and> bitmap t = (bitmap s)[unat isize := 1]) s"
proof -
  note B = fresh_bounds[OF f]
  let ?N = "8 * (unat isize - 2)"
  define I where "I = (\<lambda>n (ic :: u16) t. same_disk s t \<and> links_at n 0 t \<and>
     ic = (if 1 < n then 1 else 0) \<and> bitmap t = (if 1 < n then (bitmap s)[unat isize := 1] else bitmap s))"
  have "wp (for_u16 1 ?N p1_inode 0) (I ?N) s"
  proof (rule wp_for_u16)
    show "I 1 0 s" by (simp add: I_def links_at_def)
    show "1 \<le> ?N" "?N \<le> 65535" using B by simp_all
    fix n ic t assume n: "1 \<le> n" "n < ?N" and I: "I n ic t"
    have ft: "fresh fsize isize t" using same_disk_fresh[OF _ f] I by (simp add: I_def)
    have len: "n < length (linkmap t)" by (rule fresh_len[OF ft n(2)])
    show "wp (p1_inode (of_nat n) ic) (I (Suc n)) t"
    proof (cases "n = 1")
      case True
      have "wp (p1_inode 1 ic) (I 2) t"
      proof (rule wp_mono[OF p1_root[OF ft]], elim conjE)
        fix c u assume "c = ic + 1" "same_disk t u" "bitmap u = (bitmap t)[unat isize := 1]" "linkmap u = (linkmap t)[1 := 0]"
        then show "I 2 c u" using I len unfolding True by (simp add: I_def same_disk_def) (auto simp: links_at_def)
      qed
      then show ?thesis unfolding True by (simp add: numeral_2_eq_2)
    next
      case False
      then have n1: "1 < n" using n by simp
      show ?thesis
      proof (rule wp_mono[OF p1_free[OF ft n1 n(2)]], elim conjE)
        fix c u assume "c = ic" "same_disk t u" "bitmap u = bitmap t" "linkmap u = (linkmap t)[n := 0xFFFF]"
        then show "I (Suc n) c u"
          using I n1 len by (simp add: I_def same_disk_def) (auto simp: links_at_def nth_list_update less_Suc_eq)
      qed
    qed
  qed
  moreover have "wp (p1_tinode (int ?N) ic) (\<lambda>_ t. same_disk s t \<and> links_at ?N 0 t \<and> bitmap t = (bitmap s)[unat isize := 1]) t"
    if I: "I ?N ic t" for ic t
  proof -
    have "uint (s_tinode (sb t)) = int ?N - 2"
      using I free_inodes_word[of isize] B unfolding I_def same_disk_def by (simp add: sb_def tin[unfolded sb_def])
    moreover have "Suc 0 < ?N" using B by simp
    ultimately show ?thesis using I B by (simp add: p1_tinode_def I_def)
  qed
  ultimately have "wp (for_u16 1 ?N p1_inode 0) (\<lambda>ic. wp (p1_tinode (int ?N) ic)
      (\<lambda>_ t. same_disk s t \<and> links_at ?N 0 t \<and> bitmap t = (bitmap s)[unat isize := 1])) s" by (rule wp_mono)
  then show ?thesis by (simp only: pass1_def wp_bindK wp_getK B(4) nat_int)
qed

lemma p3_clear:
  assumes f: "fresh fsize isize s"
  shows "wp (forK (map of_nat [unat isize..<unat fsize]) (\<lambda>b. set_bit b 0))
     (\<lambda>_ t. same_disk s t \<and> linkmap t = linkmap s \<and> bitmap t ! unat isize = 0) s"
proof -
  note B = fresh_bounds[OF f]
  define I where "I = (\<lambda>rest t. same_disk s t \<and> linkmap t = linkmap s \<and> (isize \<in> set rest \<or> bitmap t ! unat isize = 0) \<and>
     (\<forall>b\<in>set rest. unat b < unat fsize))"
  have u: "unat (of_nat m :: u16) = m" if "m < unat fsize" for m
    using that u16_lt[of fsize] by (intro unat_of_small) linarith
  have "isize = of_nat (unat isize)" by simp
  then have "isize \<in> of_nat ` {unat isize..<unat fsize}" using B(2) by (intro image_eqI[of _ _ "unat isize"]) simp_all
  then have "I (map of_nat [unat isize..<unat fsize]) s" using u by (auto simp: I_def)
  then have "wp (forK (map of_nat [unat isize..<unat fsize]) (\<lambda>b. set_bit b 0)) (\<lambda>_. I []) s"
  proof (rule wp_forK)
    fix b rest t assume I: "I (b # rest) t"
    have "length (bitmap t) = unat fsize" using I f by (simp add: I_def same_disk_def fresh_def)
    then show "wp (set_bit b 0) (\<lambda>_. I rest) t"
      using I B by (auto simp: I_def nth_list_update word_unat_eq_iff)
  qed
  then show ?thesis by (rule wp_mono) (simp add: I_def)
qed

lemma p3_root:
  assumes f: "fresh fsize isize s" and bm: "bitmap s ! unat isize = 0"
  shows "wp (p3_inode 1 ()) (\<lambda>_ t. same_disk s t \<and> linkmap t = linkmap s) s"
proof -
  note B = fresh_bounds[OF f]
  have "isize \<noteq> 0" "unat isize < length (bitmap s)" using B f by (auto simp: fresh_def)
  then show ?thesis
    using wp_iread[OF f, of 1] B bm
    by (simp add: p3_inode_def fresh_inode_def root_fields for_u16_def p3_ind_def p3_blk_def root_blkno Let_def same_disk_def)
qed

lemma pass3_fresh:
  assumes f: "fresh fsize isize s"
  shows "wp pass3 (\<lambda>_ t. same_disk s t \<and> linkmap t = linkmap s) s"
proof -
  note B = fresh_bounds[OF f]
  let ?N = "8 * (unat isize - 2)" and ?Q = "\<lambda>_ t. same_disk s t \<and> linkmap t = linkmap s"
  define I where "I = (\<lambda>(n :: nat) (_ :: unit) t. same_disk s t \<and> linkmap t = linkmap s \<and> (n = 1 \<longrightarrow> bitmap t ! unat isize = 0))"
  have loop: "wp (for_u16 1 ?N p3_inode ()) ?Q t" if t: "I 1 () t" for t
  proof -
    have "wp (for_u16 1 ?N p3_inode ()) (I ?N) t"
    proof (rule wp_for_u16[of I, OF t])
      show "1 \<le> ?N" "?N \<le> 65535" using B by simp_all
      fix n a u assume n: "1 \<le> n" "n < ?N" and I: "I n a u"
      have fu: "fresh fsize isize u" using same_disk_fresh[OF _ f] I by (simp add: I_def)
      show "wp (p3_inode (of_nat n) a) (I (Suc n)) u"
      proof (cases "n = 1")
        case True
        have "wp (p3_inode 1 ()) (I 2) u"
          by (rule wp_mono[OF p3_root[OF fu]]) (use I True in \<open>simp_all add: I_def same_disk_def\<close>)
        then show ?thesis unfolding True by (simp add: numeral_2_eq_2)
      next
        case False
        then show ?thesis using I n
          by (simp add: p3_inode_def wp_iread[OF fu n] fresh_inode_def) (simp add: I_def zero_dinode_def)
      qed
    qed
    then show ?thesis by (rule wp_mono) (simp add: I_def)
  qed
  have "wp (forK (map of_nat [unat isize..<unat fsize]) (\<lambda>b. set_bit b 0))
      (\<lambda>_ t. wp (for_u16 1 (nat (ino_end t)) p3_inode ()) ?Q t) s"
  proof (rule wp_mono[OF p3_clear[OF f]], elim conjE)
    fix x :: unit and t assume t: "same_disk s t" "linkmap t = linkmap s" "bitmap t ! unat isize = 0"
    have "nat (ino_end t) = ?N" using fresh_bounds(4)[OF same_disk_fresh[OF t(1) f]] by simp
    then show "wp (for_u16 1 (nat (ino_end t)) p3_inode ()) ?Q t" using loop[of t] t by (simp add: I_def)
  qed
  then show ?thesis using f by (simp add: pass3_def fresh_def)
qed


text \<open>The two entries of the root directory.\<close>

definition root_entry :: "nat \<Rightarrow> direct" where
  "root_entry j = (if j = 0 then \<lparr>d_ino = ROOTINODE, d_name = 46 # replicate 13 0\<rparr>
     else \<lparr>d_ino = ROOTINODE, d_name = 46 # 46 # replicate 12 0\<rparr>)"

lemma wp_root_dirread:
  assumes f: "fresh fsize isize s" and j: "j < 2"
  shows "wp (dirread (root_dinode isize) (of_nat j)) Q s \<longleftrightarrow> Q (root_entry j) (loaded isize s)"
proof -
  note B = fresh_bounds[OF f]
  have i: "isize \<noteq> 0" "in_img s isize" using B f by (auto simp: fresh_def in_img_def)
  have "get_direct (readbuf (loaded isize s)) (16 * j) = get_direct (img_view s isize) (16 * j)"
    using j loaded_buf[OF i(2)] by (intro get_direct_cong) simp
  also have "\<dots> = root_entry j"
    using f j by (auto simp: fresh_def fresh_img_def img_view_def root_entry_def less_2_cases_iff)
  finally have e: "get_direct (readbuf (loaded isize s)) (16 * j) = root_entry j" .
  have d: "of_nat j div 32 = (0 :: u16)" "unat (of_nat j :: u16) = j" using j by (auto simp: less_2_cases_iff)
  show ?thesis using j i e by (simp add: dirread_def d root_blkno)
qed

lemma ck_root_entry:
  assumes f: "fresh fsize isize s" and j: "j < 2" and l: "linkmap s ! 1 = l" "l \<noteq> 0xFFFF"
  shows "wp (ck_entry rec 1 1 name (root_dinode isize) (of_nat j)) (\<lambda>_ t. same_disk s t \<and> depth t = depth s \<and>
     linkmap t = (linkmap s)[1 := l + 1]) s"
proof -
  note B = fresh_bounds[OF f]
  have len: "1 < length (linkmap s)" using fresh_len[OF f, of 1] B by simp
  have ino: "d_ino (root_entry j) = 1" by (simp add: root_entry_def)
  have b: "\<not> 8 * uint (s_isize (sb s)) \<le> 1" proof -
    have "int (unat isize) = uint isize" by simp
    then have "\<not> 8 * uint isize \<le> 1" using B(1) by linarith
    then show ?thesis using f unfolding fresh_def by blast
  qed
  have sl: "fix_slashes (root_dinode isize) n [0..<14] (root_entry j) = retK (root_entry j)" for n
    by (simp add: root_entry_def upt_rec run_simps fun_eq_iff)
  have fi: "fix_ino (root_dinode isize) n nm 1 (root_entry j) = retK (root_entry j)" for n nm
    by (simp add: fix_ino_def ino)
  show ?thesis
    using len l b
    by (simp add: ck_entry_def wp_root_dirread[OF f j] ck_checks_def ino sl fi)
qed

lemma pass4_fresh:
  assumes f: "fresh fsize isize s"
  shows "wp pass4 (\<lambda>_ t. same_disk s t \<and> linkmap t = (linkmap s)[1 := 3]) s"
proof -
  note B = fresh_bounds[OF f]
  have len: "1 < length (linkmap s)" using fresh_len[OF f, of 1] B by simp
  define u where "u = s\<lparr>depth := 0, linkmap := (linkmap s)[1 := 1]\<rparr>"
  define v where "v = (loaded 2 u)\<lparr>depth := depth u + 1\<rparr>"
  have fu: "fresh fsize isize u" using f by (simp add: u_def fresh_def)
  have rd: "wp (iread 1) Q u = Q (root_dinode isize) (loaded 2 u)" for Q
    using wp_iread[OF fu, of 1] B by (simp add: fresh_inode_def)
  have fl: "fix_length 1 (root_dinode isize) = retK (root_dinode isize)" by (simp add: fix_length_def root_fields)
  have ne: "nat (nentries (root_dinode isize)) = 2" by (simp add: nentries_def root_fields)
  define I where "I = (\<lambda>(n :: nat) (_ :: unit) t. same_disk s t \<and> depth t = 1 \<and> linkmap t = (linkmap s)[1 := of_nat (Suc n)])"
  have "wp (for_u16 0 2 (\<lambda>j _. ck_entry (ckdir 20) 1 1 [47] (root_dinode isize) j) ()) (I 2) v"
  proof (rule wp_for_u16)
    show "I 0 () v" by (simp add: I_def v_def u_def same_disk_def)
    fix n a t assume n: "0 \<le> n" "n < (2 :: nat)" and I: "I n a t"
    have ft: "fresh fsize isize t" using same_disk_fresh[OF _ f] I by (simp add: I_def)
    show "wp (ck_entry (ckdir 20) 1 1 [47] (root_dinode isize) (of_nat n)) (I (Suc n)) t"
      by (rule wp_mono[OF ck_root_entry[OF ft n(2) refl]]) (use I n len in \<open>auto simp: I_def same_disk_def less_2_cases_iff\<close>)
  qed simp_all
  then have W: "wp (for_u16 0 2 (\<lambda>j _. ck_entry (ckdir 20) 1 1 [47] (root_dinode isize) j) ())
      (\<lambda>_ t. same_disk s t \<and> depth t = 1 \<and> linkmap t = (linkmap s)[1 := 3]) v"
    by (rule wp_mono) (simp add: I_def)
  have c21: "ckdir 21 = ckdir (Suc 20)" by simp
  have "wp (ckdir 21 1 1 [47]) (\<lambda>_ t. same_disk s t \<and> depth t = 0 \<and> linkmap t = (linkmap s)[1 := 3]) u"
    unfolding c21 ckdir.simps(2)
    using W by (simp add: rd root_fields fl ne v_def[symmetric] del: One_nat_def)
  then show ?thesis using len by (simp add: pass4_def u_def) (elim wp_mono, simp)
qed

lemma pass5_fresh:
  assumes f: "fresh fsize isize s" and l: "links_at (8 * (unat isize - 2)) 3 s"
  shows "wp pass5 (\<lambda>_ t. same_disk s t) s"
proof -
  note B = fresh_bounds[OF f]
  let ?N = "8 * (unat isize - 2)"
  define I where "I = (\<lambda>(n :: nat) (_ :: unit) t. same_disk s t \<and> linkmap t = linkmap s)"
  have "wp (for_u16 1 ?N p5_inode ()) (I ?N) s"
  proof (rule wp_for_u16)
    show "I 1 () s" by (simp add: I_def)
    show "1 \<le> ?N" "?N \<le> 65535" using B by simp_all
    fix n a t assume n: "1 \<le> n" "n < ?N" and I: "I n a t"
    have ft: "fresh fsize isize t" using same_disk_fresh[OF _ f] I by (simp add: I_def)
    have u: "unat (of_nat n :: u16) = n" using n B(3) by (intro unat_of_small) simp
    have len: "n < length (linkmap t)" by (rule fresh_len[OF ft n(2)])
    have "linkmap t ! n = (if n = 1 then 3 else 0xFFFF)" using l I n unfolding links_at_def I_def by auto
    then show "wp (p5_inode (of_nat n) a) (I (Suc n)) t"
      using I n len u
      by (simp add: p5_inode_def wp_iread[OF ft n] fresh_inode_def)
        (auto simp: root_fields I_def zero_dinode_def)
  qed
  then have "wp (for_u16 1 ?N p5_inode ()) (\<lambda>_ t. same_disk s t) s" by (rule wp_mono) (simp add: I_def)
  then show ?thesis by (simp only: pass5_def wp_bindK wp_getK B(4) nat_int)
qed


section \<open>The whole run\<close>

text \<open>The program at the start, with an image and what will be typed.\<close>

definition fsck_start :: "bytes \<Rightarrow> nat \<Rightarrow> byte list \<Rightarrow> fsck_st" where
  "fsck_start f n inp = \<lparr>img = f, img_len = n, readbuf = (\<lambda>_. 0), fs_buf = (\<lambda>_. 0), bitmap = [], linkmap = [],
     depth = 0, stdin = inp\<rparr>"

lemma no_run: "stdin s = 110 # 10 # rest \<Longrightarrow> yes s = Ret False (s\<lparr>stdin := rest\<rparr>)"
proof -
  assume r: "stdin s = 110 # 10 # rest"
  have n: "(19 :: nat) = Suc (Suc 17)" by simp
  have "fgets_split (Suc (Suc m)) (110 # 10 # rest) = ([110, 10], rest)" for m by simp
  then have "fgets_split 19 (110 # 10 # rest) = ([110, 10], rest)" unfolding n by blast
  then show ?thesis by (simp add: yes_def r)
qed

lemma unmarked_one:
  assumes "i < n" shows "unmarked ((replicate n 0)[i := 1]) i n = map of_nat [Suc i..<n]"
proof -
  have "filter (\<lambda>j. (replicate n (0 :: byte))[i := 1] ! j = 0) [i..<n] = filter (\<lambda>j. j \<noteq> i) [i..<n]"
    by (rule filter_cong) (auto simp: nth_list_update)
  also have "\<dots> = [Suc i..<n]" using assms by (subst upt_conv_Cons) (auto intro: filter_True)
  finally show ?thesis by (simp add: unmarked_def)
qed

text \<open>
  The bound on the number of inodes is needed: the counter of pass 1 has 16 bits, so that with
  8194 inode blocks or more it wraps around before it reaches its bound.
\<close>

lemma pass1_many_inodes: "8194 \<le> unat (s_isize (sb s)) \<Longrightarrow> pass1 s \<noteq> Ret x t"
proof -
  assume "8194 \<le> unat (s_isize (sb s))"
  then have "8194 \<le> uint (s_isize (sb s))" by (metis of_nat_le_iff of_nat_numeral uint_nat)
  then have "\<not> nat (ino_end s) \<le> 65535" by (simp add: ino_end_def)
  then show ?thesis by (auto simp: pass1_def for_u16_def run_simps split: outcome.splits)
qed

text \<open>What is left after pass 2, whatever its answer.\<close>

lemma last_passes:
  assumes f: "fresh fsize isize s" and l: "links_at (8 * (unat isize - 2)) 0 s"
  shows "wp pass3 (\<lambda>_. wp pass4 (\<lambda>_. wp pass5 (\<lambda>_ t. same_disk s t))) s"
proof (rule wp_mono[OF pass3_fresh[OF f]], elim conjE)
  fix x :: unit and t assume t: "same_disk s t" "linkmap t = linkmap s"
  have ft: "fresh fsize isize t" by (rule same_disk_fresh[OF t(1) f])
  show "wp pass4 (\<lambda>_. wp pass5 (\<lambda>_ t. same_disk s t)) t"
  proof (rule wp_mono[OF pass4_fresh[OF ft]], elim conjE)
    fix x :: unit and u assume u: "same_disk t u" "linkmap u = (linkmap t)[1 := 3]"
    have su: "same_disk s u" using t(1) u(1) by (simp add: same_disk_def)
    have fu: "fresh fsize isize u" by (rule same_disk_fresh[OF su f])
    have "1 < length (linkmap t)" using fresh_len[OF ft, of 1] fresh_bounds[OF f] by simp
    then have "links_at (8 * (unat isize - 2)) 3 u" using l t(2) u(2) by (simp add: links_at_def)
    then show "wp pass5 (\<lambda>_ t. same_disk s t) u"
      by (rule wp_mono[OF pass5_fresh[OF fu]]) (use su in \<open>simp add: same_disk_def\<close>)
  qed
qed

text \<open>The state in which the passes start.\<close>

definition loaded_fs :: "bytes \<Rightarrow> nat \<Rightarrow> byte list \<Rightarrow> fsck_st \<Rightarrow> bool" where
  "loaded_fs f n inp s \<longleftrightarrow> img s = f \<and> img_len s = n \<and> stdin s = inp \<and> sb s = get_filesys (img_block f 1) \<and>
     bitmap s = replicate (unat (s_fsize (sb s))) 0 \<and> linkmap s = replicate (8 * unat (s_isize (sb s))) 0"

lemma fsck_main_loaded:
  assumes n: "1024 \<le> n" and m: "s_mounted (get_filesys (img_block f 1)) = SMOUNTED"
    and Q: "\<And>s. loaded_fs f n inp s \<Longrightarrow> wp pass1 (\<lambda>_. wp pass2 (\<lambda>_. wp pass3 (\<lambda>_. wp pass4 (\<lambda>_. wp pass5 Q)))) s"
  shows "wp fsck_main Q (fsck_start f n (121 # 10 # inp))"
proof -
  define s where "s = fsck_start f n (121 # 10 # inp)"
  define u where "u = (loaded 1 s)\<lparr>fs_buf := (\<lambda>k. if k < 232 then readbuf (loaded 1 s) k else fs_buf (loaded 1 s) k)\<rparr>"
  have "get_filesys (fs_buf u) = get_filesys (img_block f 1)"
    using n by (intro get_filesys_cong) (simp add: u_def loaded_def s_def fsck_start_def img_block_def)
  then have sb: "sb u = get_filesys (img_block f 1)" by (simp add: sb_def)
  have y: "says_yes u" by (simp add: u_def s_def fsck_start_def says_yes_def)
  define v where "v = u\<lparr>stdin := inp, bitmap := replicate (unat (s_fsize (sb u))) 0, linkmap := replicate (8 * unat (s_isize (sb u))) 0\<rparr>"
  have "loaded_fs f n inp v" using sb by (simp add: loaded_fs_def v_def) (simp add: u_def s_def fsck_start_def)
  note W = Q[OF this]
  have "wp yes R u = R True (u\<lparr>stdin := inp\<rparr>)" for R
    using yes_run[OF y] by (simp add: wp_def u_def s_def fsck_start_def)
  moreover have "wp load_sb R s = R () u" for R
    by (simp add: load_sb_def u_def)
  ultimately show ?thesis
    using W m sb unfolding s_def[symmetric] by (simp add: fsck_main_def if_yes_def alloc_maps_def v_def)
qed


lemma loaded_fresh:
  assumes l: "loaded_fs f (512 * unat fsize) inp s" and f: "fresh_img f fsize isize" and i: "unat isize \<le> 8193"
    and sb: "s_isize (get_filesys (img_block f 1)) = isize" "s_fsize (get_filesys (img_block f 1)) = fsize"
    and tin: "s_tinode (get_filesys (img_block f 1)) = 8 * (isize - 2) - 2"
  shows "wp pass1 (\<lambda>_ t. same_disk s t \<and> fresh fsize isize t \<and> links_at (8 * (unat isize - 2)) 0 t \<and>
     bitmap t = (replicate (unat fsize) 0)[unat isize := 1]) s"
proof -
  have s: "fresh fsize isize s" "s_tinode (sb s) = 8 * (isize - 2) - 2" "bitmap s = replicate (unat fsize) 0"
    using l f i sb tin by (simp_all add: loaded_fs_def fresh_def)
  show ?thesis
    by (rule wp_mono[OF pass1_fresh[OF s(1,2)]]) (use s same_disk_fresh in auto)
qed

lemma rebuilt_fresh:
  assumes f: "fresh fsize isize s" and t: "s_isize (sb t) = isize" "s_fsize (sb t) = fsize" "bitmap t = bitmap s" "linkmap t = linkmap s"
    and len: "512 * unat fsize \<le> img_len t"
    and same: "\<And>c j. c \<noteq> 1 \<Longrightarrow> c \<le> unat isize \<Longrightarrow> j < 512 \<Longrightarrow> img_block (img t) c j = img_block (img s) c j"
  shows "fresh fsize isize t"
proof -
  have g: "get_direct (img_block (img t) (unat isize)) b = get_direct (img_block (img s) (unat isize)) b" if "b \<le> 16" for b
    using same that fresh_bounds[OF f] by (intro get_direct_cong) simp
  have "fresh_img (img t) fsize isize"
    using f g[of 0] g[of 16] same unfolding fresh_def fresh_img_def by auto
  then show ?thesis using f t len by (simp add: fresh_def)
qed

text \<open>What the run needs of the image.\<close>

definition mkfs_made :: "bytes \<Rightarrow> u16 \<Rightarrow> u16 \<Rightarrow> bool" where
  "mkfs_made f fsize isize \<longleftrightarrow> fresh_img f fsize isize \<and> (let sb = get_filesys (img_block f 1) in
     s_mounted sb = SMOUNTED \<and> s_isize sb = isize \<and> s_fsize sb = fsize \<and> s_tinode sb = 8 * (isize - 2) - 2)"

lemma mkfs_makes:
  assumes "\<not> bad_params fsize isize" and "2 < unat isize"
  shows "wp (mkfs fsize isize) (\<lambda>_ m. mkfs_made (fs_buffer m) fsize isize) mk_start"
  using mkfs_fresh[OF assms] mkfs_result_image[OF assms] by (auto simp: wp_iff Let_def mkfs_made_def)

lemma fsck_run_made:
  assumes m: "mkfs_made f fsize isize" and i: "unat isize \<le> 8193"
    and Q: "\<And>s. fresh fsize isize s \<Longrightarrow> img s = f \<Longrightarrow> img_len s = 512 * unat fsize \<Longrightarrow> stdin s = inp \<Longrightarrow>
      links_at (8 * (unat isize - 2)) 0 s \<Longrightarrow> bitmap s = (replicate (unat fsize) 0)[unat isize := 1] \<Longrightarrow>
      wp pass2 (\<lambda>_. wp pass3 (\<lambda>_. wp pass4 (\<lambda>_. wp pass5 Q))) s"
  shows "wp fsck_main Q (fsck_start f (512 * unat fsize) (121 # 10 # inp))"
proof (rule fsck_main_loaded)
  note M = m[unfolded mkfs_made_def Let_def]
  show "1024 \<le> 512 * unat fsize" using M by (simp add: fresh_img_def)
  show "s_mounted (get_filesys (img_block f 1)) = SMOUNTED" using M by blast
  fix s assume l: "loaded_fs f (512 * unat fsize) inp s"
  show "wp pass1 (\<lambda>_. wp pass2 (\<lambda>_. wp pass3 (\<lambda>_. wp pass4 (\<lambda>_. wp pass5 Q)))) s"
  proof (rule wp_mono[OF loaded_fresh[OF l _ i]], goal_cases)
    case (5 x t)
    then show ?case using l by (intro Q) (simp_all add: same_disk_def loaded_fs_def)
  qed (use M in blast)+
qed

lemma fsck_answered_no:
  assumes m: "mkfs_made f fsize isize" and i: "unat isize \<le> 8193"
  shows "wp fsck_main (\<lambda>_ t. stdin t = rest \<and> img t = f \<and> img_len t = 512 * unat fsize)
     (fsck_start f (512 * unat fsize) (121 # 10 # 110 # 10 # rest))"
proof (rule fsck_run_made[OF m i])
  fix s assume s: "fresh fsize isize s" "links_at (8 * (unat isize - 2)) 0 s" and d: "stdin s = 110 # 10 # rest" "img s = f" "img_len s = 512 * unat fsize"
  let ?u = "s\<lparr>stdin := rest\<rparr>" and ?Q = "\<lambda>(_ :: unit) t. stdin t = rest \<and> img t = f \<and> img_len t = 512 * unat fsize"
  have "wp pass3 (\<lambda>_. wp pass4 (\<lambda>_. wp pass5 (\<lambda>_ v. same_disk ?u v))) ?u"
    using s by (intro last_passes[of fsize]) (simp_all add: fresh_def links_at_def)
  then have "wp pass3 (\<lambda>_. wp pass4 (\<lambda>_. wp pass5 ?Q)) ?u"
    by (elim wp_mono) (use d in \<open>simp add: same_disk_def\<close>)
  then show "wp pass2 (\<lambda>_. wp pass3 (\<lambda>_. wp pass4 (\<lambda>_. wp pass5 ?Q))) s"
    by (simp add: pass2_def if_yes_def wp_def run_simps no_run[OF d(1)])
qed

lemma fsck_answered_yes:
  assumes m: "mkfs_made f fsize isize" and i: "unat isize \<le> 8193"
  shows "wp fsck_main (\<lambda>_ t. stdin t = rest \<and> get_filesys (img_block (img t) 1) = sb t \<and>
       chain_sb (img_word (img t)) (sb t) (map of_nat [Suc (unat isize)..<unat fsize]) \<and>
       (\<forall>c\<le>unat isize. c \<noteq> 1 \<longrightarrow> (\<forall>j<512. img_block (img t) c j = img_block f c j)))
     (fsck_start f (512 * unat fsize) (121 # 10 # 121 # 10 # rest))"
proof (rule fsck_run_made[OF m i])
  let ?Q = "\<lambda>(_ :: unit) t. stdin t = rest \<and> get_filesys (img_block (img t) 1) = sb t \<and>
       chain_sb (img_word (img t)) (sb t) (map of_nat [Suc (unat isize)..<unat fsize]) \<and>
       (\<forall>c\<le>unat isize. c \<noteq> 1 \<longrightarrow> (\<forall>j<512. img_block (img t) c j = img_block f c j))"
  fix s assume s: "fresh fsize isize s" "links_at (8 * (unat isize - 2)) 0 s" and d: "stdin s = 121 # 10 # rest" "img s = f"
    and bm: "bitmap s = (replicate (unat fsize) 0)[unat isize := 1]"
  note B = fresh_bounds[OF s(1)]
  have sz: "s_isize (sb s) = isize" "s_fsize (sb s) = fsize" "length (bitmap s) = unat fsize" "512 * unat fsize \<le> img_len s"
    using s(1) by (simp_all add: fresh_def)
  have y: "says_yes s" using d by (simp add: says_yes_def)
  have un: "unmarked (bitmap s) (unat isize) (unat fsize) = map of_nat [Suc (unat isize)..<unat fsize]"
    unfolding bm by (rule unmarked_one[OF B(2)])
  have bit: "bitmap s ! unat isize \<noteq> 0" using B bm by simp
  show "wp pass2 (\<lambda>_. wp pass3 (\<lambda>_. wp pass4 (\<lambda>_. wp pass5 ?Q))) s"
  proof (rule wp_mono[OF pass2_rebuilds[OF y, unfolded sz un]], goal_cases)
    case (5 x t)
    then have same: "img_block (img t) c j = img_block f c j" if "c \<noteq> 1" "c \<le> unat isize" "j < 512" for c j
      using that B bit d(2) by (cases "c = unat isize") auto
    have ft: "fresh fsize isize t"
      by (rule rebuilt_fresh[OF s(1)]) (use 5 same d(2) in simp_all)
    have "links_at (8 * (unat isize - 2)) 0 t" using 5 s(2) by (simp add: links_at_def)
    note L = last_passes[OF ft this]
    show ?case
      by (rule wp_mono[OF L], elim wp_mono) (use 5 same d in \<open>simp add: same_disk_def sb_def\<close>)
  qed (use B sz in simp_all)
qed

text \<open>
  C18: \<open>fsck\<close> finds nothing wrong with a file system that \<open>mkfs\<close> made, for sizes that \<open>mkfs\<close>
  accepts with an \<open>isize\<close> of 3 to 8193. (With 2 there is no block for inodes and the image lacks
  the root directory; from 8194 on \<open>fsck\<close> never ends, see \<open>pass1_many_inodes\<close>.) Over the image it
  runs through all five passes to the end and asks its two standing questions - whether to go on,
  whether to rebuild the free list - and no other. When the second is answered with no, not a
  byte of the image changes; when it is answered with yes, the list that is rebuilt stands for
  the same blocks as the one \<open>mkfs\<close> had made, and the blocks of inodes and of the root directory
  stay.
\<close>

theorem fsck_accepts_mkfs:
  assumes "\<not> bad_params fsize isize" and "2 < unat isize" and "unat isize \<le> 8193"
  shows "wp (mkfs fsize isize) (\<lambda>_ m.
     wp fsck_main (\<lambda>_ t. stdin t = rest \<and> img t = fs_buffer m \<and> img_len t = 512 * unat fsize)
       (fsck_start (fs_buffer m) (512 * unat fsize) (121 # 10 # 110 # 10 # rest)) \<and>
     wp fsck_main (\<lambda>_ t. stdin t = rest \<and> get_filesys (img_block (img t) 1) = sb t \<and>
         chain_sb (img_word (img t)) (sb t) (map of_nat [Suc (unat isize)..<unat fsize]) \<and>
         (\<forall>c\<le>unat isize. c \<noteq> 1 \<longrightarrow> (\<forall>j<512. img_block (img t) c j = img_block (fs_buffer m) c j)))
       (fsck_start (fs_buffer m) (512 * unat fsize) (121 # 10 # 121 # 10 # rest))) mk_start"
  by (rule wp_mono[OF mkfs_makes[OF assms(1,2)]])
    (intro conjI fsck_answered_no[OF _ assms(3)] fsck_answered_yes[OF _ assms(3)])

theorem fsck_accepts_mkfs_witness:
  "wp (mkfs 10 4) (\<lambda>_ m.
     wp fsck_main (\<lambda>_ t. stdin t = [] \<and> img t = fs_buffer m) (fsck_start (fs_buffer m) 5120 [121, 10, 110, 10])) mk_start"
proof -
  have "\<not> bad_params 10 4" "2 < unat (4 :: u16)" "unat (4 :: u16) \<le> 8193" by (simp_all add: bad_params_def)
  from fsck_accepts_mkfs[OF this, of "[]"] show ?thesis
    by (rule wp_mono) (auto elim: wp_mono)
qed

end
