(* ===== verification/Fsutil.thy ===== *)
theory Fsutil
  imports Fsck_Disk Messages Mkfs_Mount File_Calls
begin

text \<open>
  \<open>uzi-nes-utils/fs/fsutil_src\<close>: a shell on the host that works on an image with the kernel's
  own file system code. Modelled are the access to the image file, the reading of command
  lines, the shell, times, and the commands; the kernel calls a command makes are those of the
  host build and an argument of its definition. What is printed for the user's information
  (echoes of arguments, error messages) is left out.
\<close>

section \<open>The image file\<close>

record wd_st =
  wd_image :: bytes
  wd_len :: nat
  tmp_buf :: bytes
  wd_buf :: bytes      \<comment> \<open>the data of the buffer \<open>udata.u_buf\<close>\<close>
  wd_blk :: u16        \<comment> \<open>and its block number\<close>

text \<open>\<open>lseek\<close> to a block, which succeeds on a file; then \<open>read\<close>, which stops at the end of the file.\<close>

definition fsutil_img_read :: "u16 \<Rightarrow> (wd_st, unit) kop" where
  "fsutil_img_read blk = (\<lambda>s.
     let got = min 512 (wd_len s - 512 * unat blk) in
     if got = 0 then Halt (Panic ''end of file during read'')
     else if got \<noteq> 512 then Halt (Panic ''unknown read error'')
     else Ret () (s\<lparr>tmp_buf := (\<lambda>k. if k < 512 then wd_image s (512 * unat blk + k) else tmp_buf s k)\<rparr>))"

definition fsutil_img_write :: "u16 \<Rightarrow> (wd_st, unit) kop" where
  "fsutil_img_write blk = modK (\<lambda>s. s\<lparr>
     wd_image := put_block (unat blk) (tmp_buf s) (\<lambda>a. if a < wd_len s then wd_image s a else 0),
     wd_len := max (wd_len s) (512 * unat blk + 512)\<rparr>)"

definition fsutil_wd_open :: "int \<Rightarrow> (wd_st, int) kop" where
  "fsutil_wd_open minor = retK 0"

definition move_block :: "bytes \<Rightarrow> bytes \<Rightarrow> bytes" where
  "move_block src dest = (\<lambda>k. if k < 512 then src k else dest k)"

definition fsutil_wd_read :: "(wd_st, unit) kop" where
  "fsutil_wd_read = thenK (bindK (getK wd_blk) fsutil_img_read)
     (modK (\<lambda>s. s\<lparr>wd_buf := move_block (tmp_buf s) (wd_buf s)\<rparr>))"

definition fsutil_wd_write :: "(wd_st, unit) kop" where
  "fsutil_wd_write = thenK (modK (\<lambda>s. s\<lparr>tmp_buf := move_block (wd_buf s) (tmp_buf s)\<rparr>))
     (bindK (getK wd_blk) fsutil_img_write)"

section \<open>Command lines\<close>

text \<open>
  \<open>c\<close> is a signed \<open>char\<close>, so the character 255 counts as the end of the input. Skipping to the
  end of a line does not end when the input does.
\<close>

fun clear_to_newline :: "byte list \<Rightarrow> byte list option" where
  "clear_to_newline [] = None"
| "clear_to_newline (c # inp) = (if c = 10 then Some inp else clear_to_newline inp)"

datatype scan_ret = BUFFER_OK "byte list" | BUFFER_TOO_LONG | BUFFER_EOF

fun scan_chars :: "byte list \<Rightarrow> byte list \<Rightarrow> (scan_ret \<times> byte list) option" where
  "scan_chars buf [] = Some (BUFFER_EOF, [])"
| "scan_chars buf (c # inp) =
     (if c \<noteq> 10 \<and> c \<noteq> 255 then
        if length buf + 1 > 255 then map_option (\<lambda>rest. (BUFFER_TOO_LONG, rest)) (clear_to_newline inp)
        else scan_chars (buf @ [c]) inp
      else if c = 255 then Some (BUFFER_EOF, inp)
      else Some (BUFFER_OK buf, inp))"

definition scan_line :: "byte list \<Rightarrow> (scan_ret \<times> byte list) option" where
  "scan_line inp = scan_chars [] inp"

text \<open>\<open>strtok\<close> with the separator \<open>" "\<close>, all of its calls.\<close>

function strtok_all :: "byte list \<Rightarrow> byte list list" where
  "strtok_all s = (let s' = dropWhile (\<lambda>c. c = 32) s in
     if s' = [] then []
     else takeWhile (\<lambda>c. c \<noteq> 32) s' # strtok_all (tl (dropWhile (\<lambda>c. c \<noteq> 32) s')))"
  by pat_completeness auto
termination
proof (relation "measure length")
  fix s s' :: "byte list" assume s: "s' = dropWhile (\<lambda>c. c = 32) s" "s' \<noteq> []"
  define d where "d = dropWhile (\<lambda>c. c \<noteq> 32) s'"
  have "length d \<le> length s'" "length s' \<le> length s" "0 < length s'"
    using s by (simp_all add: length_dropWhile_le d_def)
  then have "length (tl d) < length s" unfolding length_tl by linarith
  then show "(tl (dropWhile (\<lambda>c. c \<noteq> 32) s'), s) \<in> measure length" by (simp add: d_def)
qed simp

declare strtok_all.simps [simp del]

definition argv_of :: "byte list \<Rightarrow> byte list list" where
  "argv_of line = strtok_all (takeWhile (\<lambda>c. c \<noteq> 0) line)"

section \<open>The shell\<close>

datatype command = Ls | Mkdir | Get | Type | Chmod | Rm

definition command_of :: "byte list \<Rightarrow> command option" where
  "command_of w = (if w = lit ''ls'' then Some Ls else if w = lit ''mkdir'' then Some Mkdir
     else if w = lit ''get'' then Some Get else if w = lit ''type'' then Some Type
     else if w = lit ''chmod'' then Some Chmod else if w = lit ''rm'' then Some Rm else None)"

lemma clear_to_newline_shorter: "clear_to_newline inp = Some rest \<Longrightarrow> length rest < length inp"
  by (induction inp) (auto split: if_splits)

lemma scan_chars_shorter: "scan_chars buf inp = Some (r, rest) \<Longrightarrow> r \<noteq> BUFFER_EOF \<Longrightarrow> length rest < length inp"
proof (induction buf inp rule: scan_chars.induct)
  case (2 buf c inp)
  then show ?case
    using clear_to_newline_shorter[of inp rest] by (auto split: if_splits)
qed simp

text \<open>
  \<open>run\<close> carries out a command. \<open>main_func\<close> is a local variable without an initial value: a word
  that is no command calls what the line before called, and on the first line whatever is there.
\<close>

function shell :: "(command \<Rightarrow> byte list list \<Rightarrow> ('s, unit) kop) \<Rightarrow> command option \<Rightarrow> byte list \<Rightarrow> ('s, unit) kop" where
  "shell run main_func inp = (case scan_line inp of
      None \<Rightarrow> haltK Diverges
    | Some (BUFFER_EOF, rest) \<Rightarrow> retK ()
    | Some (BUFFER_TOO_LONG, rest) \<Rightarrow> shell run main_func rest
    | Some (BUFFER_OK line, rest) \<Rightarrow>
        let argv = argv_of line in
        if argv = [] then shell run main_func rest
        else if command_of (hd argv) = None \<and> hd argv = lit ''exit'' then retK ()
        else let f = (case command_of (hd argv) of Some c \<Rightarrow> Some c | None \<Rightarrow> main_func) in
          case f of
            None \<Rightarrow> haltK BadAccess
          | Some c \<Rightarrow> thenK (run c argv) (shell run f rest))"
  by pat_completeness auto
termination
  by (relation "measure (\<lambda>(run, f, inp). length inp)") (auto simp: scan_line_def dest!: scan_chars_shorter)

declare shell.simps [simp del]

section \<open>Times\<close>

text \<open>What \<open>localtime\<close> gives: months from 0, years from 1900.\<close>

record tm =
  tm_sec :: nat
  tm_min :: nat
  tm_hour :: nat
  tm_mday :: nat
  tm_mon :: nat
  tm_year :: nat

definition fsutil_rdtime :: "tm \<Rightarrow> uzi_time" where
  "fsutil_rdtime t = \<lparr>
     t_time = of_nat (tm_sec t div 2) OR of_nat (tm_min t * 32) OR of_nat (tm_hour t * 2048),
     t_date = of_nat (tm_mday t) OR of_nat (tm_mon t * 32) OR of_nat (tm_year t * 512)\<rparr>"

text \<open>\<open>dout\<close> puts two digits at \<open>s\<close>.\<close>

definition dout :: "u16 \<Rightarrow> byte list" where
  "dout n = (let m = unat n mod 100 in [of_nat (m div 10) + 48, of_nat (m mod 10) + 48])"

text \<open>The seconds are \<open>t_time & (0x001f * 2)\<close>.\<close>

definition ctime :: "uzi_time \<Rightarrow> byte list" where
  "ctime t =
     dout (drop_bit 11 (t_time t AND 0xf800)) @ [58] @
     dout (drop_bit 5 (t_time t AND 0x07e0)) @ [58] @
     dout (t_time t AND 0x003e) @ [32] @
     dout (drop_bit 5 (t_date t AND 0x01e0)) @ [47] @
     dout (t_date t AND 0x001f) @ [47] @
     dout (drop_bit 9 (t_date t AND 0xfe00))"

section \<open>The commands\<close>

text \<open>
  The kernel calls of the host build, and the standard output. A read returns its result and
  the bytes it delivers; \<open>stat\<close> returns nothing where the call fails.
\<close>

record stat_buf =
  st_ino :: u16
  st_mode :: u16
  st_nlink :: u16
  st_rdev :: u16
  st_size :: uzi_off
  st_mtime :: uzi_time

record 's calls =
  call_open :: "cstr \<Rightarrow> int \<Rightarrow> ('s, int) kop"
  call_creat :: "cstr \<Rightarrow> u16 \<Rightarrow> ('s, int) kop"
  call_close :: "int \<Rightarrow> ('s, int) kop"
  call_read :: "int \<Rightarrow> nat \<Rightarrow> ('s, int \<times> byte list) kop"
  call_write :: "int \<Rightarrow> byte list \<Rightarrow> ('s, int) kop"
  call_stat :: "cstr \<Rightarrow> ('s, stat_buf option) kop"
  call_mknod :: "cstr \<Rightarrow> u16 \<Rightarrow> u16 \<Rightarrow> ('s, int) kop"
  call_link :: "cstr \<Rightarrow> cstr \<Rightarrow> ('s, int) kop"
  call_unlink :: "cstr \<Rightarrow> ('s, int) kop"
  call_chmod :: "cstr \<Rightarrow> u16 \<Rightarrow> ('s, int) kop"
  put_out :: "byte list \<Rightarrow> ('s, unit) kop"

definition cstring :: "cstr \<Rightarrow> byte list" where
  "cstring s = takeWhile (\<lambda>c. c \<noteq> 0) s"

text \<open>A text put into a local array of \<open>n\<close> characters, terminator included.\<close>

definition fits :: "nat \<Rightarrow> byte list \<Rightarrow> ('s, byte list) kop" where
  "fits n s = (if length s < n then retK s else haltK BadAccess)"

definition pad_right :: "nat \<Rightarrow> byte list \<Rightarrow> byte list" where
  "pad_right n s = s @ replicate (n - length s) 32"

text \<open>\<open>%d\<close> and \<open>%o\<close> of the host.\<close>

fun host_digits :: "nat \<Rightarrow> nat \<Rightarrow> byte list" where
  "host_digits b n = (if b < 2 \<or> n < b then [of_nat n + 48] else host_digits b (n div b) @ [of_nat (n mod b) + 48])"

declare host_digits.simps [simp del]

definition host_int :: "int \<Rightarrow> byte list" where
  "host_int n = (if n < 0 then 45 # host_digits 10 (nat (- n)) else host_digits 10 (nat n))"

text \<open>One entry of the listing; a name of 14 characters has no terminator.\<close>

definition ls_line :: "stat_buf \<Rightarrow> byte list \<Rightarrow> byte list" where
  "ls_line st dname =
     pad_right 6 (host_int (if st_mode st AND F_CDEV \<noteq> 0 then uint (st_rdev st)
       else 512 * uint (o_blkno (st_size st)) + sint (o_offset (st_size st)))) @ [32] @ pad_right 15 dname @
     [32, 32, 48] @ pad_right 6 (host_digits 8 (unat (st_mode st))) @ [32] @
     pad_right 2 (host_int (uint (st_nlink st))) @ [32] @ pad_right 5 (host_int (uint (st_ino st))) @ [32] @
     ctime (st_mtime st) @ [10]"

definition ls_entry :: "'s calls \<Rightarrow> cstr \<Rightarrow> direct \<Rightarrow> ('s, unit) kop" where
  "ls_entry c path buf =
     (if d_name buf ! 0 = 0 then retK ()
      else if length (cstring (take 14 (d_name buf))) \<ge> 14 then haltK BadAccess
      else bindK (fits 128 ((if deref path \<noteq> 46 \<or> char_at path 1 \<noteq> 0 then cstring path @ [47] else []) @
             cstring (d_name buf))) (\<lambda>dname.
        bindK (call_stat c dname) (\<lambda>r. case r of
            None \<Rightarrow> retK ()
          | Some st \<Rightarrow> bindK (fits 128 (if st_mode st AND F_MASK = F_DIR then dname @ [47] else dname)) (\<lambda>dname1.
              put_out c (ls_line st dname1)))))"

text \<open>No file has more than 2097152 entries: 65536 blocks of 32.\<close>

primrec ls_loop :: "'s calls \<Rightarrow> nat \<Rightarrow> int \<Rightarrow> cstr \<Rightarrow> ('s, unit) kop" where
  "ls_loop c 0 d path = haltK Diverges"
| "ls_loop c (Suc n) d path = bindK (call_read c d 16) (\<lambda>(got, bs).
     if got \<noteq> 16 then retK ()
     else thenK (ls_entry c path (get_direct (\<lambda>k. if k < length bs then bs ! k else 0) 0)) (ls_loop c n d path))"

definition ls :: "'s calls \<Rightarrow> cstr \<Rightarrow> ('s, unit) kop" where
  "ls c path = bindK (call_open c path 0) (\<lambda>d.
     if d < 0 then retK ()
     else thenK (ls_loop c 2097153 d path) (bindK (call_close c d) (\<lambda>_. retK ())))"

text \<open>With arguments the loop starts at the name of the command itself.\<close>

definition ls_main :: "'s calls \<Rightarrow> cstr list \<Rightarrow> ('s, unit) kop" where
  "ls_main c argv = (if length argv = 1 then ls c [46] else forK argv (ls c))"

definition fsutil_basename :: "cstr \<Rightarrow> byte list" where
  "fsutil_basename name = (let s = cstring name in
     if 47 \<in> set s then rev (takeWhile (\<lambda>c. c \<noteq> 47) (rev s)) else s)"

definition rm_main :: "'s calls \<Rightarrow> cstr list \<Rightarrow> ('s, unit) kop" where
  "rm_main c argv = forK (drop 1 argv) (\<lambda>a. whenK (deref a \<noteq> 45)
     (bindK (call_stat c a) (\<lambda>r. whenK (r \<noteq> None) (bindK (call_unlink c a) (\<lambda>_. retK ())))))"

definition fsutil_mkdir :: "'s calls \<Rightarrow> cstr \<Rightarrow> ('s, int) kop" where
  "fsutil_mkdir c path =
     bindK (call_mknod c path (0x4000 OR 0x1ff) 0) (\<lambda>r.
     if r \<noteq> 0 then retK (- 1)
     else bindK (fits 100 (cstring path @ [47, 46])) (\<lambda>dot.
       bindK (call_link c path dot) (\<lambda>r.
       if r \<noteq> 0 then retK (- 1)
       else bindK (fits 100 (cstring path @ [47, 46, 46])) (\<lambda>dot.
         bindK (call_link c [46] dot) (\<lambda>r. if r \<noteq> 0 then retK (- 1) else retK 0)))))"

definition mkdir_main :: "'s calls \<Rightarrow> cstr list \<Rightarrow> ('s, unit) kop" where
  "mkdir_main c argv = whenK (1 < length argv) (bindK (fsutil_mkdir c (argv ! 1)) (\<lambda>_. retK ()))"

text \<open>\<open>get\<close>: the file of the host is \<open>host arg\<close>; it is copied in pieces of 512 bytes.\<close>

function get_loop :: "'s calls \<Rightarrow> int \<Rightarrow> byte list \<Rightarrow> ('s, int) kop" where
  "get_loop c d fp = (let cbuf = take 512 fp in
     if cbuf = [] then bindK (call_close c d) (\<lambda>_. retK 0)
     else bindK (call_write c d cbuf) (\<lambda>r.
       if r \<noteq> int (length cbuf) then bindK (call_close c d) (\<lambda>_. retK (- 1))
       else get_loop c d (drop 512 fp)))"
  by pat_completeness auto
termination
  by (relation "measure (\<lambda>(c, d, fp). length fp)") auto

declare get_loop.simps [simp del]

definition fsutil_get :: "(cstr \<Rightarrow> byte list option) \<Rightarrow> 's calls \<Rightarrow> cstr \<Rightarrow> ('s, int) kop" where
  "fsutil_get host c arg = (case host arg of
      None \<Rightarrow> retK (- 1)
    | Some fp \<Rightarrow> bindK (call_creat c arg 0x1b6) (\<lambda>d. if d < 0 then retK (- 1) else get_loop c d fp))"

definition get_main :: "(cstr \<Rightarrow> byte list option) \<Rightarrow> 's calls \<Rightarrow> cstr list \<Rightarrow> ('s, unit) kop" where
  "get_main host c argv = whenK (length argv = 2) (bindK (fsutil_get host c (argv ! 1)) (\<lambda>_. retK ()))"

text \<open>
  \<open>type\<close>: at most 65537 rounds deliver something. A read that fails returns -1, which is then
  taken for the number of bytes to print.
\<close>

primrec type_loop :: "'s calls \<Rightarrow> nat \<Rightarrow> int \<Rightarrow> ('s, unit) kop" where
  "type_loop c 0 d = haltK Diverges"
| "type_loop c (Suc n) d = bindK (call_read c d 512) (\<lambda>(nread, cbuf).
     if nread = 0 then retK ()
     else if nread < 0 then haltK BadAccess
     else thenK (put_out c (take (nat nread) cbuf)) (type_loop c n d))"

definition fsutil_type :: "'s calls \<Rightarrow> cstr \<Rightarrow> ('s, int) kop" where
  "fsutil_type c arg = bindK (call_open c arg 0) (\<lambda>d.
     if d < 0 then retK (- 1)
     else thenK (type_loop c 65538 d) (bindK (call_close c d) (\<lambda>_. retK 0)))"

definition type_main :: "'s calls \<Rightarrow> cstr list \<Rightarrow> ('s, unit) kop" where
  "type_main c argv = whenK (length argv = 2 \<and> deref (argv ! 1) \<noteq> 0) (bindK (fsutil_type c (argv ! 1)) (\<lambda>_. retK ()))"

text \<open>What \<open>sscanf\<close> with \<open>%o\<close> takes: blanks, a sign, octal digits.\<close>

definition octal_digits :: "byte list \<Rightarrow> byte list" where
  "octal_digits s = takeWhile (\<lambda>c. 48 \<le> c \<and> c \<le> 55) s"

definition octal_value :: "byte list \<Rightarrow> int" where
  "octal_value ds = foldl (\<lambda>v c. 8 * v + (uint c - 48)) 0 ds"

definition scan_octal :: "cstr \<Rightarrow> int option" where
  "scan_octal s = (let s1 = dropWhile (\<lambda>c. c = 32 \<or> 9 \<le> c \<and> c \<le> 13) s;
       neg = deref s1 = 45; s2 = (if deref s1 = 45 \<or> deref s1 = 43 then tl s1 else s1); ds = octal_digits s2 in
     if ds = [] then None else Some (if neg then - octal_value ds else octal_value ds))"

definition fsutil_chmod :: "'s calls \<Rightarrow> cstr \<Rightarrow> cstr \<Rightarrow> ('s, unit) kop" where
  "fsutil_chmod c path modes = (let mode = (case scan_octal modes of None \<Rightarrow> - 1 | Some m \<Rightarrow> m) in
     if mode = - 1 then retK ()
     else bindK (call_chmod c path (word_of_int mode)) (\<lambda>_. retK ()))"

definition chmod_main :: "'s calls \<Rightarrow> cstr list \<Rightarrow> ('s, unit) kop" where
  "chmod_main c argv = whenK (length argv = 3) (fsutil_chmod c (argv ! 2) (argv ! 1))"

text \<open>The command table of the shell.\<close>

definition run_command :: "(cstr \<Rightarrow> byte list option) \<Rightarrow> 's calls \<Rightarrow> command \<Rightarrow> cstr list \<Rightarrow> ('s, unit) kop" where
  "run_command host c cmd argv = (case cmd of
      Ls \<Rightarrow> ls_main c argv | Mkdir \<Rightarrow> mkdir_main c argv | Get \<Rightarrow> get_main host c argv
    | Type \<Rightarrow> type_main c argv | Chmod \<Rightarrow> chmod_main c argv | Rm \<Rightarrow> rm_main c argv)"

section \<open>Mounting the image\<close>

text \<open>\<open>fs_init\<close> and \<open>fs_exit\<close>, over the kernel's own routines; \<open>now\<close> is the time of the host.\<close>

definition fs_init :: "uzi_time \<Rightarrow> int \<Rightarrow> unit k" where
  "fs_init now bootdev = doK [
     upd_ud (\<lambda>u. u\<lparr>u_euid := 0\<rparr>),
     upd_ud (\<lambda>u. u\<lparr>u_insys := True\<rparr>),
     bufinit,
     upd_ud (\<lambda>u. u\<lparr>u_files := replicate UFTSIZE (- 1)\<rparr>),
     modK (\<lambda>s. s\<lparr>ROOTDEV := bootdev\<rparr>),
     bindK (fmount bootdev None) (\<lambda>r. whenK (r \<noteq> 0) (panic ''no filesys'')),
     bindK (i_open bootdev ROOTINODE) (\<lambda>r. thenK (modK (\<lambda>s. s\<lparr>root := r\<rparr>))
       (case r of
          None \<Rightarrow> panic ''no root''
        | Some rt \<Rightarrow> thenK (upd_ud (\<lambda>u. u\<lparr>u_cwd := Some rt\<rparr>)) (i_ref rt))),
     upd_ud (\<lambda>u. u\<lparr>u_time := now\<rparr>)]"

definition fs_exit :: "unit k" where
  "fs_exit = thenK (forK [0..<UFTSIZE] (\<lambda>j.
      bindK (getK (\<lambda>s. u_files (udata s) ! j)) (\<lambda>f. whenK (f AND 0x80 = 0) (bindK (doclose (int j)) (\<lambda>_. retK ())))))
    (bindK sys_sync (\<lambda>_. retK ()))"

section \<open>What the shell runs\<close>

text \<open>The reference: lines as lists of words, up to \<open>exit\<close>.\<close>

primrec run_script :: "(command \<Rightarrow> byte list list \<Rightarrow> ('s, unit) kop) \<Rightarrow> command option \<Rightarrow> byte list list list \<Rightarrow> ('s, unit) kop" where
  "run_script run f [] = retK ()"
| "run_script run f (argv # rest) =
     (if argv = [] then run_script run f rest
      else case command_of (hd argv) of
          Some c \<Rightarrow> thenK (run c argv) (run_script run (Some c) rest)
        | None \<Rightarrow> if hd argv = lit ''exit'' then retK ()
            else (case f of None \<Rightarrow> haltK BadAccess | Some c \<Rightarrow> thenK (run c argv) (run_script run f rest)))"

text \<open>
  The words of a line: its pieces between blanks that are not empty. \<open>line_args\<close> is what the
  shell makes of a line: the words before the first NUL, and nothing of a line of more than 255
  characters.
\<close>

primrec pieces :: "byte list \<Rightarrow> byte list list" where
  "pieces [] = [[]]"
| "pieces (c # l) = (if c = 32 then [] # pieces l else (c # hd (pieces l)) # tl (pieces l))"

definition line_words :: "byte list \<Rightarrow> byte list list" where
  "line_words l = filter (\<lambda>w. w \<noteq> []) (pieces l)"

definition line_args :: "byte list \<Rightarrow> byte list list" where
  "line_args l = (if length l > 255 then [] else line_words (takeWhile (\<lambda>c. c \<noteq> 0) l))"

lemma pieces_word:
  assumes "\<forall>c\<in>set w. c \<noteq> 32"
  shows "pieces w = [w]" "pieces (w @ 32 # l) = w # pieces l"
  using assms by (induction w) simp_all

lemma line_words_blanks: "line_words (dropWhile (\<lambda>c. c = 32) l) = line_words l"
proof (induction l)
  case (Cons c l)
  have b: "line_words (32 # l) = line_words l" by (simp add: line_words_def)
  show ?case
  proof (cases "c = 32")
    case True
    then show ?thesis using Cons.IH by (simp only: b dropWhile.simps if_True simp_thms)
  qed simp
qed simp

lemma strtok_words: "strtok_all l = line_words l"
proof (induction l rule: strtok_all.induct)
  case (1 l)
  define d where "d = dropWhile (\<lambda>c. c = 32) l"
  define w where "w = takeWhile (\<lambda>c. c \<noteq> 32) d"
  define r where "r = dropWhile (\<lambda>c. c \<noteq> 32) d"
  have d: "line_words l = line_words d" by (simp add: d_def line_words_blanks)
  show ?case
  proof (cases "d = []")
    case True
    have "strtok_all l = []" by (subst strtok_all.simps) (simp only: d_def[symmetric] True Let_def if_True simp_thms)
    moreover have "line_words d = []" by (simp add: True line_words_def)
    ultimately show ?thesis using d by simp
  next
    case False
    have dwr: "d = w @ r" by (simp add: w_def r_def)
    have w32: "\<forall>c\<in>set w. c \<noteq> 32" by (auto simp: w_def dest: set_takeWhileD)
    have "hd d \<noteq> 32" using False hd_dropWhile[of "\<lambda>c. c = 32" l] by (simp add: d_def)
    then have w: "w \<noteq> []" using False by (cases d) (simp_all add: w_def)
    have "line_words d = w # line_words (tl r)"
    proof (cases r)
      case Nil
      then show ?thesis using dwr w pieces_word(1)[OF w32] by (simp add: line_words_def)
    next
      case (Cons c r')
      then have "c = 32" using hd_dropWhile[of "\<lambda>c. c \<noteq> 32" d] by (simp add: r_def)
      then show ?thesis using dwr Cons w pieces_word(2)[OF w32] by (simp add: line_words_def)
    qed
    moreover have "strtok_all l = w # strtok_all (tl r)"
      using False by (subst strtok_all.simps) (simp add: Let_def d_def[symmetric] w_def r_def)
    moreover have "strtok_all (tl r) = line_words (tl r)"
      using 1 False by (simp add: d_def r_def)
    ultimately show ?thesis using d by simp
  qed
qed

lemma scan_chars_line:
  "\<forall>c\<in>set l. c \<noteq> 10 \<and> c \<noteq> 255 \<Longrightarrow> length buf + length l \<le> 255 \<Longrightarrow>
     scan_chars buf (l @ 10 # rest) = Some (BUFFER_OK (buf @ l), rest)"
  by (induction l arbitrary: buf) auto

lemma clear_to_newline_at: "10 \<notin> set l \<Longrightarrow> clear_to_newline (l @ 10 # rest) = Some rest"
  by (induction l) auto

lemma scan_chars_long:
  "\<forall>c\<in>set l. c \<noteq> 10 \<and> c \<noteq> 255 \<Longrightarrow> 255 < length buf + length l \<Longrightarrow> length buf \<le> 255 \<Longrightarrow>
     scan_chars buf (l @ 10 # rest) = Some (BUFFER_TOO_LONG, rest)"
proof (induction l arbitrary: buf)
  case (Cons c l)
  then show ?case using clear_to_newline_at[of l rest] by (cases "length buf = 255") auto
qed simp

lemma scan_chars_part:
  "\<forall>c\<in>set l. c \<noteq> 10 \<and> c \<noteq> 255 \<Longrightarrow> length buf + length l \<le> 255 \<Longrightarrow> scan_chars buf l = Some (BUFFER_EOF, [])"
  by (induction l arbitrary: buf) auto

text \<open>
  C39: the shell runs the command of each line of its input with the words of the line as its
  arguments, line by line, until \<open>exit\<close> or the end of the input; a word that is no command runs
  the command of the line before. Lines are arbitrary characters, except 255, which the shell takes
  for the end of the input; words are separated by any number of blanks, which may also begin or
  end the line; empty lines and lines of more than 255 characters run nothing, and neither does an
  unfinished last line (of at most 255 characters).
\<close>

theorem shell_script:
  assumes "\<forall>l\<in>set script. 10 \<notin> set l \<and> 255 \<notin> set l" and "10 \<notin> set part \<and> 255 \<notin> set part \<and> length part \<le> 255"
  shows "shell run f (concat (map (\<lambda>l. l @ [10]) script) @ part) = run_script run f (map line_args script)"
  using assms(1)
proof (induction script arbitrary: f)
  case Nil
  have "scan_line part = Some (BUFFER_EOF, [])"
    using assms(2) by (auto simp: scan_line_def intro!: scan_chars_part)
  then show ?case by (subst shell.simps) simp
next
  case (Cons l script)
  let ?rest = "concat (map (\<lambda>l. l @ [10]) script) @ part"
  have ch: "\<forall>c\<in>set l. c \<noteq> 10 \<and> c \<noteq> 255" using Cons.prems by auto
  have ih: "shell run g ?rest = run_script run g (map line_args script)" for g using Cons by simp
  show ?case
  proof (cases "length l \<le> 255")
    case True
    have s: "scan_line (l @ 10 # ?rest) = Some (BUFFER_OK l, ?rest)"
      using scan_chars_line[OF ch, of "[]" ?rest] True by (simp add: scan_line_def)
    have a: "argv_of l = line_args l" using True by (simp add: argv_of_def line_args_def strtok_words)
    show ?thesis
      by (subst shell.simps) (cases "command_of (hd (line_args l))"; cases f; simp add: s a ih Let_def)
  next
    case False
    then have s: "scan_line (l @ 10 # ?rest) = Some (BUFFER_TOO_LONG, ?rest)"
      using scan_chars_long[OF ch, of "[]" ?rest] by (simp add: scan_line_def)
    have "line_args l = []" using False by (simp add: line_args_def)
    then show ?thesis by (subst shell.simps) (simp add: s ih)
  qed
qed

theorem shell_script_witness:
  "shell (\<lambda>c argv. modK (\<lambda>log. log @ [(c, argv)])) None
     (lit ''ls  .'' @ [10] @ [10] @ lit '' rm a   b '' @ [10] @ lit ''exit'' @ [10] @ lit ''ls'') [] =
   Ret () [(Ls, [lit ''ls'', lit ''.'']), (Rm, [lit ''rm'', lit ''a'', lit ''b''])]"
proof -
  have l: "lit ''ls  .'' @ [10] @ [10] @ lit '' rm a   b '' @ [10] @ lit ''exit'' @ [10] @ lit ''ls'' =
      concat (map (\<lambda>l. l @ [10]) [lit ''ls  .'', [], lit '' rm a   b '', lit ''exit'']) @ lit ''ls''"
    by simp
  have a: "map line_args [lit ''ls  .'', [], lit '' rm a   b '', lit ''exit''] =
      [[lit ''ls'', lit ''.''], [], [lit ''rm'', lit ''a'', lit ''b''], [lit ''exit'']]"
    by (simp add: line_args_def line_words_def lit_def)
  let ?run = "\<lambda>c argv. modK (\<lambda>log. log @ [(c, argv)])"
  have "shell ?run None (concat (map (\<lambda>l. l @ [10]) [lit ''ls  .'', [], lit '' rm a   b '', lit ''exit'']) @ lit ''ls'') =
      run_script ?run None (map line_args [lit ''ls  .'', [], lit '' rm a   b '', lit ''exit''])"
    by (rule shell_script) (simp_all add: lit_def)
  then have "shell ?run None (lit ''ls  .'' @ [10] @ [10] @ lit '' rm a   b '' @ [10] @ lit ''exit'' @ [10] @ lit ''ls'') =
      run_script ?run None [[lit ''ls'', lit ''.''], [], [lit ''rm'', lit ''a'', lit ''b''], [lit ''exit'']]"
    by (simp only: l a)
  then show ?thesis by (simp add: command_of_def run_simps) (simp add: lit_def)
qed

text \<open>Input that ends in the middle of a line that is too long is waited for without end.\<close>

lemma clear_to_newline_none: "10 \<notin> set l \<Longrightarrow> clear_to_newline l = None"
  by (induction l) auto

lemma shell_long_line_hangs:
  assumes "\<forall>c\<in>set l. c \<noteq> 10 \<and> c \<noteq> 255" and "255 < length l"
  shows "shell run f l s = Halt Diverges"
proof -
  have "scan_chars buf m = None" if "\<forall>c\<in>set m. c \<noteq> 10 \<and> c \<noteq> 255" "255 < length buf + length m" "length buf \<le> 255" for buf m
    using that by (induction m arbitrary: buf) (auto simp: clear_to_newline_none)
  then have "scan_line l = None" using assms by (simp add: scan_line_def)
  then show ?thesis by (subst shell.simps) (simp add: run_simps)
qed

section \<open>Printed times\<close>

text \<open>Fields of a packed word.\<close>

lemma unat_field:
  "unat (drop_bit 11 ((t :: u16) AND 0xf800)) = unat t div 2048 mod 32"
  "unat (drop_bit 5 (t AND 0x07e0)) = unat t div 32 mod 64"
  "unat (t AND 0x003e) = 2 * (unat t div 2 mod 32)"
  "unat (drop_bit 5 (t AND 0x01e0)) = unat t div 32 mod 16"
  "unat (t AND 0x001f) = unat t mod 32"
  "unat (drop_bit 9 (t AND 0xfe00)) = unat t div 512 mod 128"
proof -
  have m: "(0xf800 :: u16) = push_bit 11 (mask 5)" "(0x07e0 :: u16) = push_bit 5 (mask 6)" "(0x003e :: u16) = push_bit 1 (mask 5)"
    "(0x01e0 :: u16) = push_bit 5 (mask 4)" "(0x001f :: u16) = mask 5" "(0xfe00 :: u16) = push_bit 9 (mask 7)"
    by (simp_all add: mask_eq_exp_minus_1 push_bit_eq_mult)
  have f: "drop_bit k (t AND push_bit k (mask n)) = take_bit n (drop_bit k t)" for k n
    by (rule bit_word_eqI) (auto simp: bit_simps dest: bit_imp_le_length)
  have g: "t AND push_bit k (mask n) = push_bit k (take_bit n (drop_bit k t))" for k n
    by (rule bit_word_eqI) (auto simp: bit_simps)
  have tb: "unat (take_bit k w) = unat w mod 2 ^ k" for k and w :: u16
    by (subst unsigned_take_bit_eq) (simp add: take_bit_eq_mod)
  have db: "unat (drop_bit k w) = unat w div 2 ^ k" for k and w :: u16
    by (subst unat_drop_bit_eq) (simp add: drop_bit_eq_div)
  have p: "unat (push_bit 1 (take_bit 5 w) :: u16) = 2 * unat (take_bit 5 w :: u16)" for w :: u16
  proof -
    have "unat (take_bit 5 w) < 32" unfolding tb by simp
    then show ?thesis by (simp add: push_bit_eq_mult unat_word_ariths)
  qed
  show "unat (drop_bit 11 ((t :: u16) AND 0xf800)) = unat t div 2048 mod 32"
    "unat (drop_bit 5 (t AND 0x07e0)) = unat t div 32 mod 64"
    "unat (drop_bit 5 (t AND 0x01e0)) = unat t div 32 mod 16"
    "unat (drop_bit 9 (t AND 0xfe00)) = unat t div 512 mod 128"
    unfolding m f tb db by simp_all
  show "unat (t AND 0x003e) = 2 * (unat t div 2 mod 32)"
    unfolding m g p tb db by simp
  show "unat (t AND 0x001f) = unat t mod 32"
    unfolding m take_bit_eq_mask[symmetric] tb by simp
qed

lemma or_add:
  assumes "a < 2 ^ k" "a + b * 2 ^ k < 65536"
  shows "(of_nat a :: u16) OR of_nat (b * 2 ^ k) = of_nat (a + b * 2 ^ k)"
proof -
  have "b * 2 ^ k < 65536" "a < 65536" using assms(2) by simp_all
  have "\<not> bit (of_nat a :: u16) n \<or> \<not> bit (of_nat (b * 2 ^ k) :: u16) n" for n
  proof (cases "n < k")
    case True
    have "(of_nat (b * 2 ^ k) :: u16) = push_bit k (of_nat b)" by (simp add: push_bit_eq_mult)
    then show ?thesis using True by (simp add: bit_simps)
  next
    case False
    have "unat (of_nat a :: u16) < 2 ^ k" using assms by (simp add: unat_of_small)
    then show ?thesis using False bit_small by blast
  qed
  then have "(of_nat a :: u16) + of_nat (b * 2 ^ k) = of_nat a OR of_nat (b * 2 ^ k)"
    by (intro disjunctive_add) simp
  then show ?thesis by (simp add: of_nat_add)
qed

definition tm_ok :: "tm \<Rightarrow> bool" where
  "tm_ok t \<longleftrightarrow> tm_sec t < 60 \<and> tm_min t < 60 \<and> tm_hour t < 24 \<and> tm_mday t < 32 \<and> tm_mon t < 12 \<and> tm_year t < 128"

lemma half_sec: "tm_ok t \<Longrightarrow> tm_sec t div 2 < 30"
  using less_mult_imp_div_less[of "tm_sec t" 30 2] by (simp add: tm_ok_def)

lemma rdtime_words:
  assumes "tm_ok t"
  shows "unat (t_time (fsutil_rdtime t)) = tm_sec t div 2 + 32 * tm_min t + 2048 * tm_hour t"
    "unat (t_date (fsutil_rdtime t)) = tm_mday t + 32 * tm_mon t + 512 * tm_year t"
proof -
  let ?a = "tm_sec t div 2 + tm_min t * 2 ^ 5" and ?d = "tm_mday t + tm_mon t * 2 ^ 5"
  have b: "tm_sec t div 2 < 2 ^ 5" "?a < 2 ^ 11" "?a + tm_hour t * 2 ^ 11 < 65536"
    "tm_mday t < 2 ^ 5" "?d < 2 ^ 9" "?d + tm_year t * 2 ^ 9 < 65536"
    using assms half_sec[OF assms] unfolding tm_ok_def by simp_all
  have tw: "t_time (fsutil_rdtime t) = of_nat (?a + tm_hour t * 2 ^ 11)"
    using or_add[OF b(1), of "tm_min t"] or_add[OF b(2,3)] b(2,3)
    by (simp add: fsutil_rdtime_def or.assoc[symmetric])
  have dw: "t_date (fsutil_rdtime t) = of_nat (?d + tm_year t * 2 ^ 9)"
    using or_add[OF b(4), of "tm_mon t"] or_add[OF b(5,6)] b(5,6)
    by (simp add: fsutil_rdtime_def or.assoc[symmetric])
  have "unat (t_time (fsutil_rdtime t)) = ?a + tm_hour t * 2 ^ 11" unfolding tw by (rule unat_of_small[OF b(3)])
  then show "unat (t_time (fsutil_rdtime t)) = tm_sec t div 2 + 32 * tm_min t + 2048 * tm_hour t" by simp
  have "unat (t_date (fsutil_rdtime t)) = ?d + tm_year t * 2 ^ 9" unfolding dw by (rule unat_of_small[OF b(6)])
  then show "unat (t_date (fsutil_rdtime t)) = tm_mday t + 32 * tm_mon t + 512 * tm_year t" by simp
qed

definition two :: "nat \<Rightarrow> byte list" where
  "two n = [of_nat (n div 10) + 48, of_nat (n mod 10) + 48]"

lemma dout_two: "unat w = n \<Longrightarrow> n < 100 \<Longrightarrow> dout w = two n"
  by (simp add: dout_def two_def)

text \<open>
  a time put down by \<open>fsutil_rdtime\<close> is printed by \<open>ctime\<close> with its hour, minute, day and
  year; the month is the one counted from 0, and what stands in the place of the seconds is
  not the second: it is its half, made even, and 32 more in every odd minute.
\<close>

theorem ctime_rdtime:
  assumes "tm_ok t"
  shows "ctime (fsutil_rdtime t) = two (tm_hour t) @ [58] @ two (tm_min t) @ [58] @
     two (2 * (tm_sec t div 4) + 32 * (tm_min t mod 2)) @ [32] @
     two (tm_mon t) @ [47] @ two (tm_mday t) @ [47] @ two (tm_year t mod 100)"
proof -
  define s m h where "s = tm_sec t div 2" and "m = tm_min t" and "h = tm_hour t"
  define d n y where "d = tm_mday t" and "n = tm_mon t" and "y = tm_year t"
  let ?w = "t_time (fsutil_rdtime t)" and ?v = "t_date (fsutil_rdtime t)"
  have b: "s < 32" "m < 60" "h < 24" "d < 32" "n < 12" "y < 128"
    using assms half_sec[OF assms] by (simp_all add: tm_ok_def s_def m_def h_def d_def n_def y_def)
  have w: "unat ?w = s + 32 * (m + 64 * h)" "unat ?v = d + 32 * (n + 16 * y)"
    using rdtime_words[OF assms] by (simp_all add: s_def m_def h_def d_def n_def y_def)
  have w32: "unat ?w div 32 = m + 64 * h" "unat ?v div 32 = n + 16 * y" "unat ?v mod 32 = d"
    using b unfolding w by (simp_all add: mod_mult_self2 del: distrib_left distrib_left_numeral)
  have "unat ?w div 2048 = unat ?w div 32 div 64" "unat ?v div 512 = unat ?v div 32 div 16"
    by (simp_all add: div_mult2_eq[symmetric])
  then have hy: "unat ?w div 2048 = h" "unat ?v div 512 = y" using b by (simp_all add: w32)
  have "unat ?w div 2 = s div 2 + 16 * (m + 64 * h)" unfolding w by simp
  also have "\<dots> mod 32 = s div 2 + 16 * (m mod 2)"
  proof -
    define q r u where "q = m div 2" and "r = m mod 2" and "u = s div 2"
    have m: "m = 2 * q + r" "r < 2" by (simp_all add: q_def r_def)
    have "u < 16" using b(1) by (simp add: u_def less_mult_imp_div_less)
    then have "u + 16 * r < 32" using m(2) by linarith
    moreover have "u + 16 * (m + 64 * h) = u + 16 * r + 32 * (q + 32 * h)" by (simp add: m(1))
    ultimately have "(u + 16 * (m + 64 * h)) mod 32 = u + 16 * r" by (simp only: mod_mult_self2 mod_less)
    then show ?thesis by (simp only: u_def r_def)
  qed
  finally have sec: "2 * (unat ?w div 2 mod 32) = 2 * (tm_sec t div 4) + 32 * (tm_min t mod 2)"
    by (simp add: s_def m_def div_mult2_eq[symmetric])
  have "2 * (unat ?w div 2 mod 32) < 100"
  proof -
    have "unat ?w div 2 mod 32 < 32" by simp
    then show ?thesis by linarith
  qed
  then have "dout (?w AND 0x003e) = two (2 * (tm_sec t div 4) + 32 * (tm_min t mod 2))"
    unfolding sec by (intro dout_two) (simp_all only: unat_field sec)
  moreover have "dout (drop_bit 11 (?w AND 0xf800)) = two h" "dout (drop_bit 5 (?w AND 0x07e0)) = two m"
    "dout (drop_bit 5 (?v AND 0x01e0)) = two n" "dout (?v AND 0x001f) = two d"
    using b by (intro dout_two; (simp only: unat_field hy w32; simp)?)+
  moreover have "dout (drop_bit 9 (?v AND 0xfe00)) = two (y mod 100)"
  proof -
    have "unat (drop_bit 9 (?v AND 0xfe00)) = y" using b by (simp only: unat_field hy) simp
    then show ?thesis by (simp only: dout_def two_def Let_def)
  qed
  ultimately show ?thesis
    unfolding ctime_def by (simp only: h_def m_def n_def d_def y_def)
qed

theorem ctime_rdtime_witness:
  "ctime (fsutil_rdtime \<lparr>tm_sec = 59, tm_min = 30, tm_hour = 23, tm_mday = 31, tm_mon = 11, tm_year = 126\<rparr>) =
     lit ''23:30:28 11/31/26''"
  by (subst ctime_rdtime) (simp_all add: tm_ok_def two_def lit_def)

section \<open>Blocks of the image\<close>

text \<open>
  A block written through \<open>fsutil_wd_write\<close> is what \<open>fsutil_wd_read\<close> of the same block
  delivers, also past the old end of the image, and every other block of the image is unchanged.
\<close>

lemma wd_write_read:
  "wp (thenK fsutil_wd_write (thenK (modK (\<lambda>s. s\<lparr>wd_buf := junk\<rparr>)) fsutil_wd_read))
     (\<lambda>_ t. (\<forall>k<512. wd_buf t k = wd_buf s k) \<and> wd_blk t = wd_blk s \<and> wd_len s \<le> wd_len t \<and>
       (\<forall>a<wd_len s. a < 512 * unat (wd_blk s) \<or> 512 * unat (wd_blk s) + 512 \<le> a \<longrightarrow> wd_image t a = wd_image s a)) s"
  by (simp add: fsutil_wd_write_def fsutil_wd_read_def fsutil_img_write_def fsutil_img_read_def wp_def run_simps
      move_block_def put_block_def Let_def)

end
