(* ===== verification/Spec2Isabelle.thy ===== *)
theory Spec2Isabelle
  imports Machine Dir_Update File_Sessions Inode_Table Lookup Exit_Wait Exec_Args Mkfs_Mount Fsck_Fresh Fsutil
begin

text \<open>
  A verification library for UZI, a small Unix kernel ported to the NES
  (\<open>src/uzi-nes-port\<close>), and for the tools that make and check its file systems on a host
  (\<open>src/uzi-nes-utils/fs\<close>). This theory imports all the others and declares nothing.

  The program. A 6502 runs the kernel with one process in memory at a time. The file system
  lives in the character RAM of the cartridge, which only the picture unit (PPU) can reach: a
  block is read or written by queueing PPU descriptors that the vertical-blank handler carries
  out, and text goes to the screen through the same queue. Above it are a cache of buffers,
  inodes and superblocks in memory, files, directories, descriptors, system calls, and a process
  table with round robin scheduling driven by the clock interrupt. The host tools \<open>mkfs\<close>,
  \<open>fsck\<close> and \<open>fsutil\<close> work on an image of the same format; \<open>fsutil\<close> links the kernel's own
  file system code.

  How it is modelled. The kernel's global data is the record \<open>kst\<close> of Kernel_State, with the
  field names of \<open>include/unix.h\<close> and \<open>kernel/kdata.c\<close>; the screen, the keyboard, \<open>mkfs\<close> and
  \<open>fsck\<close> have records of their own, and \<open>machine\<close> joins kernel and screen. A pointer into a
  table is the index of the entry, \<open>NULL\<close> is \<open>None\<close>; \<open>uint16\<close> and \<open>char\<close> are words of 16 and 8
  bits and wrap around; \<open>int16\<close> is a 16-bit word read with \<open>sint\<close>, other \<open>int\<close>s are integers
  where no code depends on their width. User memory is a byte map, and addresses chosen by the
  linker are fields of \<open>lnk\<close>. An operation is a function from the state to an outcome: \<open>Ret\<close>
  with a result, \<open>Switch\<close> when the processor is given to another process, or \<open>Halt\<close> with
  \<open>Panic\<close>, \<open>BadAccess\<close> (an index outside a table), \<open>BadDescriptor\<close> or \<open>Diverges\<close>. The
  predicate \<open>wp m Q s\<close> says that \<open>m\<close> returns from \<open>s\<close>, with a result and state in \<open>Q\<close>: what is
  stated with it includes that the code terminates and does not panic.

  Theories, in the order of the code:
  \<^item> Prelude, Kernel_State: words, C strings, outcomes and \<open>wp\<close>; structures, layout on disk.
  \<^item> Str_Lib (\<open>lib/string.c\<close>); Char_Queue (queues of \<open>drivers/devio.c\<close>); Ppu_Disk
    (\<open>drivers/devppuwd.c\<close>); Proc_Events (\<open>kernel/process.c\<close>: sleep, wakeup, signals, the
    scheduler's choice, slots); Drivers (\<open>drivers/devtty.c\<close>, \<open>drivers/devmisc.c\<close>, the device
    switch); Clock (\<open>kernel/time.c\<close>, \<open>kernel/interrupts.c\<close>).
  \<^item> Buffers (\<open>drivers/devio.c\<close>), Block_Use: the buffer cache and the two ways it is used.
  \<^item> Alloc, Inode, Names, Directory (\<open>fs/filesys.c\<close>): operations; Free_Blocks, File_Free,
    Inode_Table, Block_Map, Lookup, Dir_Update: what they do.
  \<^item> File_IO, File_Calls (\<open>kernel/scall1.c\<close>, \<open>kernel/scall1b.c\<close>): operations; File_Read,
    File_Write, File_Tree, File_Grow, File_Store, Descriptors, File_Sessions: what they do.
  \<^item> Process, Exec (\<open>kernel/process.c\<close>, \<open>kernel/scall2.c\<close>, \<open>kernel/dispatch.c\<close>): operations;
    Exit_Wait, Exec_Args: what they do.
  \<^item> Ppu_Queue, Ppu_Screen (\<open>ppu/\<close>, \<open>drivers/kb/kb.c\<close>), Messages (\<open>kernel/machdep.c\<close>), Machine
    (interrupt entry and start).
  \<^item> Host_Image, Mkfs, Mkfs_Mount (\<open>mkfs.c\<close>); Fsck_Disk, Fsck, Fsck_Free, Fsck_Files, Fsck_Fresh
    (\<open>fsck.c\<close>, \<open>linux_fs.c\<close>); Fsutil (\<open>fsutil_src/\<close>).

  What the lemmas show.
  \<^item> The buffer cache refines the disk: \<open>bview\<close> is the contents of a block, in a buffer or on
    disk; reading returns it, writing changes that block only, whichever buffer is reused. The
    locale \<open>block_store\<close> states this, and the cache interprets it. Everything above speaks of
    \<open>bview\<close> only.
  \<^item> The free list is a stack (\<open>block_source\<close>, \<open>block_stack\<close>, interpreted by the kernel's
    allocator and the first also by that of \<open>fsck\<close>), and truncating a file pushes its blocks.
    What a file's tree gains when \<open>bmap\<close> and \<open>writei\<close> let it grow the free list loses
    (\<open>grows\<close>, \<open>file_grows\<close>, \<open>grew\<close>): no block is lost or in two places.
  \<^item> A table of files is a store (\<open>file_store\<close>): their trees and the free list share out the blocks,
    and a transfer changes one \<open>content\<close>. Over it a sequence of \<open>_read\<close>, \<open>_write\<close>, \<open>_seek\<close> and
    \<open>_dup\<close> calls is one on arrays of bytes (\<open>fd_spec\<close>, by the locale \<open>call_simulation\<close>).
  \<^item> A file is a tree of blocks: \<open>bmap\<close> and the \<open>getblkno\<close> of \<open>fsck\<close> compute \<open>file_blk\<close>, \<open>readi\<close>
    and \<open>writei\<close> read and change \<open>file_byte\<close>. A directory is a list of entries: \<open>srch_dir\<close> finds
    the first of a name, \<open>ch_link\<close> replaces it.
  \<^item> The inode table holds no inode twice, and an inode written is read back; \<open>dup\<close> keeps the
    reference counts; \<open>seek\<close> computes positions.
  \<^item> Queues of characters are first in, first out (\<open>bounded_fifo\<close>); a line typed is the line
    read; wakeup undoes sleep; the scheduler is fair; an alarm comes after its time, through the
    interrupt; a parent's \<open>wait\<close> returns what the child's \<open>exit\<close> gave; the arguments of \<open>execve\<close> reach the
    new program.
  \<^item> What is queued for the PPU is carried out once, in order, over every interleaving of
    queueing and vertical blanks (\<open>ppu_run\<close>); text reaches its cells; and the code's limits: a
    text that has to scroll waits for ever.
  \<^item> \<open>mkfs\<close> makes the image its specification describes, which the kernel mounts with its root
    directory and its free list; pass 2 of \<open>fsck\<close> rebuilds the list of exactly the free blocks;
    pass 4 ends when no question is answered with yes and no directory counts more than 65535
  entries; \<open>fsck\<close> as a whole finds nothing wrong with what \<open>mkfs\<close> made; the shell of \<open>fsutil\<close> runs the commands of its input in order.

  Bounds. Loops of the code are recursion over a number of rounds, with \<open>Diverges\<close> at the end.
  It is never reached where the code returns: \<open>readi\<close>, \<open>writei\<close> move a byte in each round and
  have 65535 for a 16-bit count; \<open>tty_read\<close> 65536 and \<open>tty_write\<close> that many for every step of
  its environment; \<open>n_open\<close> one more than the length of the path; \<open>ch_link\<close> and \<open>ls\<close> one more
  than the 32 entries of 65536 blocks; normalising an offset 127 rounds, more than an \<open>int16\<close>
  holds blocks; the argument vectors 500 strings, as \<open>wargs\<close> stops after that many bytes; \<open>ckdir\<close>
  21 deep, beyond \<open>MAXDEPTH\<close>; the vertical-blank handler 256 descriptors, more than the buffer holds;
  \<open>queue_descriptor\<close> two rounds, as one vertical blank makes room or none ever will
  (\<open>queue_loop_two\<close>); \<open>type\<close> 65538 reads. Where the code can loop without end - the 16-bit counters
  of \<open>fsck\<close> (\<open>for_u16\<close>), a shell line that never ends - \<open>Diverges\<close> is what it does. \<open>getproc\<close> looks at the table once: when no process is
  ready the code waits for an interrupt.

  Limits of the code that the properties keep to: the block driver reaches blocks below 2048 only,
  as it loses the upper bits of the bank; transfers of 32768 bytes or more, and reads that start
  behind the end of a file in its last block, overrun the buffer.

  Parameters. What happens while a process waits (characters arriving, other processes) is an
  argument \<open>env\<close> of the operations that sleep; \<open>psleep\<close> has what follows it, \<open>swapout\<close> or such an
  element of \<open>env\<close>, as an argument. The memory behind \<open>readbuf\<close> of \<open>fsck\<close>, which it reads for the
  33rd and later entries of a directory, is arbitrary; the bytes the hardware returns to PPU reads, the
  answers typed to \<open>fsck\<close>, the clock of the host and the kernel calls under \<open>fsutil\<close>'s commands
  are arguments too.

  Not modelled: the Z80 routines kept under \<open>orig/\<close>; the saving of registers and stacks, bank
  switching and boot in assembly, and with them the stack pointer, the zero page and the return
  into user code; the wrappers of the C library in \<open>fsutil_lib.c\<close>, echoes, error messages and the
  signal handler of \<open>fsutil\<close>; the prompts and the opening of files in \<open>mkfs\<close> and \<open>fsck\<close>; the
  one-off scripts, prototypes and tests, which are not part of the system; the build.
\<close>

end
